(* ===== verification/Macrame_Prelude.thy ===== *)
theory Macrame_Prelude
  imports Main "HOL-Library.Multiset" "HOL-Library.Word"
begin

text \<open>
  Shared vocabulary of the development: the types every component uses (access modes,
  priorities, addresses, the \<open>fatal\<close> outcomes of \<^verbatim>\<open>ts::fatal\<close>), the named collections of
  simplification rules, and the generic facts about lists, multisets, parities and machine
  words that the component proofs share.
\<close>

section \<open>Types shared by all components\<close>

text \<open>\<^verbatim>\<open>enum class Access\<close> (include/ts/access.h) and \<^verbatim>\<open>enum class Priority\<close> (include/ts/priority.h).\<close>

datatype access = Read_only | Read_write

datatype priority = High | Normal | Low

text \<open>
  Objects are identified by their address. A control block, a pipe, a guarded instance and a
  grant holder are all addresses; pipes are compared by address for the canonical order.
\<close>

type_synonym addr = nat
type_synonym pipe_id = nat
type_synonym block_id = nat

text \<open>
  \<^verbatim>\<open>ts::fatal\<close> never returns: an operation that may reach it yields \<open>Inl\<close> of the diagnostic
  that would be printed, one constructor for each kind of message.
\<close>

datatype fatal =
    Access_context_overflow
  | Access_violation access bool
  | Claim_failed
  | Slim_completion
  | Inline_reattach
  | Body_leaked
  | Deadlock
  | Reset_unsettled
  | Already_gated
  | Nested_outside_task
  | Graph_already_compiled
  | Graph_not_compiled
  | Graph_cycle
  | Graph_duplicate_object
  | Graph_run_in_flight
  | Graph_lend_read_to_writer
  | Graph_lend_unawaited
  | Journal_slots_exceeded
  | Journal_recorder_outlives
  | Recorder_empty
  | Deferred_commit_in_flight
  | Deferred_lost_writes
  | Deferred_nested_commit
  | Circular_wait
  | Rank_violation
  | Timer_still_armed
  | Timer_no_workers
  | Periodic_bad_period
  | No_scheduler
  | Scheduler_exists
  | Versioned_replay_history
  | Versioned_publish_in_flight
  | Versioned_lost_writes
  | Versioned_not_front
  | Versioned_unresolved_publish
  | Versioned_divergence
  | Versioned_needs_copy
  | Version_read_in_task
  | Await_under_guard
  | In_task_sync
  | Sync_on_held_object pipe_id
  | Op_same_object_twice
  | Op_lend_read_to_writer
  | Op_unbound
  | Op_in_flight
  | Op_never_started
  | Op_cancelled
  | Op_consumed
  | Guard_outside_coroutine
  | Await_cancelled
  | Await_consumed
  | Resume_over_drain
  | Sync_cancelled
  | Take_cancelled
  | Take_consumed
  | Guard_same_object_twice
  | Guarded_graph_refs

type_synonym 'a result = "fatal + 'a"

section \<open>Rule collections\<close>

named_theorems pipe_defs \<open>definitions of the pipe's admission operations\<close>
named_theorems block_defs \<open>definitions of the control block operations\<close>
named_theorems graph_defs \<open>definitions of the graph operations\<close>
named_theorems sched_defs \<open>definitions of the scheduler operations\<close>
named_theorems timer_defs \<open>definitions of the timer operations\<close>
named_theorems journal_defs \<open>definitions of the journal, recorder and deferred operations\<close>

section \<open>Generic lemmas\<close>

lemma odd_word_add_one [simp]:
  "odd ((w::64 word) + 1) \<longleftrightarrow> even w"
  by simp

lemma sum_list_filter_count:
  "length (filter P xs) + length (filter (\<lambda>x. \<not> P x) xs) = length xs"
  by (induction xs) auto

lemma filter_mset_remove1:
  "x \<in># M \<Longrightarrow> P x \<Longrightarrow> filter_mset P (M - {#x#}) = filter_mset P M - {#x#}"
  by (metis add_mset_remove_trivial filter_mset_add_mset insert_DiffM)

lemma filter_mset_remove1_not:
  "x \<in># M \<Longrightarrow> \<not> P x \<Longrightarrow> filter_mset P (M - {#x#}) = filter_mset P M"
  by (metis filter_mset_add_mset insert_DiffM)

lemma set_mset_remove_subset:
  "y \<in># M - {#x#} \<Longrightarrow> y \<in># M"
  by (rule in_diffD)

lemma takeWhile_dropWhile_split:
  "xs = takeWhile P xs @ dropWhile P xs"
  by simp

lemma Inl_not_Inr_bind [simp]:
  "(case r of Inl e \<Rightarrow> Inl e | Inr x \<Rightarrow> f x) = Inr y \<longleftrightarrow> (\<exists>x. r = Inr x \<and> f x = Inr y)"
  by (cases r) auto

text \<open>The value a 32-bit \<^verbatim>\<open>int\<close> holds after a wrapping operation or a narrowing cast.\<close>

definition wrap_int :: "int \<Rightarrow> int" where
  "wrap_int x = signed_take_bit 31 x"

lemma wrap_int_id: "- (2 ^ 31) \<le> x \<Longrightarrow> x < 2 ^ 31 \<Longrightarrow> wrap_int x = x"
  unfolding wrap_int_def by (rule signed_take_bit_int_eq_self)

text \<open>A finite nonempty set of addresses has no strictly ascending endless walk.\<close>

lemma finite_ascending_absurd:
  fixes S :: "nat set"
  assumes fin: "finite S" and ne: "S \<noteq> {}"
    and up: "\<And>p. p \<in> S \<Longrightarrow> \<exists>q \<in> S. p < q"
  shows False
proof -
  have "Max S \<in> S" using fin ne by simp
  then obtain q where "q \<in> S" "Max S < q" using up by blast
  moreover have "q \<le> Max S" using fin \<open>q \<in> S\<close> by simp
  ultimately show False by simp
qed

end
