(* ===== verification/Access_Context.thy ===== *)
theory Access_Context
  imports Macrame_Prelude
begin

text \<open>
  The access-safety harness: \<^verbatim>\<open>Access_context\<close> (include/ts/access.h, src/access.cpp), the
  per-task permission set that every guarded method consults. An entry may carry the address of
  the object's \<^verbatim>\<open>write_epoch\<close> together with the value captured when the grant was declared; the
  current epoch values are an argument (\<open>epochs\<close>), since they live in the pipes.
\<close>

section \<open>State\<close>

type_synonym epoch_store = "pipe_id \<Rightarrow> 64 word"

record access_entry =
  ent_instance :: addr
  ent_mode :: access
  ent_epoch :: "pipe_id option"
  ent_captured :: "64 word"
  ent_rank :: nat

type_synonym access_context = "access_entry list"

datatype grant = Grant_none | Granted | Stale

definition max_entries :: nat where
  "max_entries = 8"

section \<open>Operations\<close>

text \<open>\<^verbatim>\<open>Access_context::add\<close>: the ninth declaration is fatal, in every build.\<close>

definition ctx_add ::
  "epoch_store \<Rightarrow> access_context \<Rightarrow> addr \<Rightarrow> access \<Rightarrow> pipe_id option \<Rightarrow> nat \<Rightarrow> access_context result"
where
  "ctx_add epochs ctx inst mode epoch rank =
     (if length ctx = max_entries then Inl Access_context_overflow
      else Inr (ctx @ [\<lparr>ent_instance = inst, ent_mode = mode, ent_epoch = epoch,
             ent_captured = (case epoch of None \<Rightarrow> 0 | Some p \<Rightarrow> epochs p), ent_rank = rank\<rparr>]))"

definition entry_stale :: "epoch_store \<Rightarrow> access_entry \<Rightarrow> bool" where
  "entry_stale epochs e =
     (case ent_epoch e of None \<Rightarrow> False | Some p \<Rightarrow> epochs p \<noteq> ent_captured e)"

definition entry_covers :: "addr \<Rightarrow> access \<Rightarrow> access_entry \<Rightarrow> bool" where
  "entry_covers inst mode e =
     (ent_instance e = inst \<and> \<not> (mode = Read_write \<and> ent_mode e \<noteq> Read_write))"

text \<open>\<^verbatim>\<open>Access_context::check\<close>: the scan with its \<open>stale\<close> flag as the accumulator.\<close>

fun ctx_check_from :: "epoch_store \<Rightarrow> bool \<Rightarrow> access_context \<Rightarrow> addr \<Rightarrow> access \<Rightarrow> grant" where
  "ctx_check_from epochs stale [] inst mode = (if stale then Stale else Grant_none)"
| "ctx_check_from epochs stale (e # es) inst mode =
     (if ent_instance e \<noteq> inst then ctx_check_from epochs stale es inst mode
      else if mode = Read_write \<and> ent_mode e \<noteq> Read_write
        then ctx_check_from epochs stale es inst mode
      else if entry_stale epochs e then ctx_check_from epochs True es inst mode
      else Granted)"

definition ctx_check :: "epoch_store \<Rightarrow> access_context \<Rightarrow> addr \<Rightarrow> access \<Rightarrow> grant" where
  "ctx_check epochs ctx inst mode = ctx_check_from epochs False ctx inst mode"

definition ctx_grants :: "epoch_store \<Rightarrow> access_context \<Rightarrow> addr \<Rightarrow> access \<Rightarrow> bool" where
  "ctx_grants epochs ctx inst mode = (ctx_check epochs ctx inst mode = Granted)"

definition holds_epoch :: "access_context \<Rightarrow> pipe_id \<Rightarrow> bool" where
  "holds_epoch ctx p = list_ex (\<lambda>e. ent_epoch e = Some p) ctx"

definition holds_write_epoch :: "access_context \<Rightarrow> pipe_id \<Rightarrow> bool" where
  "holds_write_epoch ctx p = list_ex (\<lambda>e. ent_epoch e = Some p \<and> ent_mode e = Read_write) ctx"

text \<open>\<^verbatim>\<open>for_each_epoch\<close>: the pipe-backed grants of a context, in declaration order.\<close>

definition ctx_epochs :: "access_context \<Rightarrow> pipe_id list" where
  "ctx_epochs ctx = List.map_filter ent_epoch ctx"

record rank_state =
  rs_held :: nat
  rs_max :: nat
  rs_any_unranked :: bool

fun rank_state_from :: "epoch_store \<Rightarrow> rank_state \<Rightarrow> access_context \<Rightarrow> rank_state" where
  "rank_state_from epochs st [] = st"
| "rank_state_from epochs st (e # es) =
     (if ent_epoch e = None then rank_state_from epochs st es
      else if entry_stale epochs e then rank_state_from epochs st es
      else let st1 = st\<lparr>rs_held := Suc (rs_held st)\<rparr> in
        rank_state_from epochs
          (if ent_rank e = 0 then st1\<lparr>rs_any_unranked := True\<rparr>
           else if ent_rank e > rs_max st then st1\<lparr>rs_max := ent_rank e\<rparr> else st1) es)"

definition ctx_rank_state :: "epoch_store \<Rightarrow> access_context \<Rightarrow> rank_state" where
  "ctx_rank_state epochs ctx =
     rank_state_from epochs \<lparr>rs_held = 0, rs_max = 0, rs_any_unranked = False\<rparr> ctx"

text \<open>
  \<^verbatim>\<open>access_check\<close>: the harness call every guarded method opens with. \<open>ctx\<close> is the thread's
  installed context (\<open>None\<close> when no task is running, so every guarded access faults).
\<close>

definition access_check ::
  "epoch_store \<Rightarrow> access_context option \<Rightarrow> addr \<Rightarrow> access \<Rightarrow> unit result" where
  "access_check epochs ctx self mode =
     (let g = (case ctx of None \<Rightarrow> Grant_none | Some c \<Rightarrow> ctx_check epochs c self mode)
      in if g \<noteq> Granted then Inl (Access_violation mode (g = Stale)) else Inr ())"

text \<open>
  \<^verbatim>\<open>Access_scope\<close>: the constructor saves the installed context and installs its own, the
  destructor restores. The thread-local slot is the state.
\<close>

definition access_scope_enter ::
  "access_context option \<Rightarrow> access_context \<Rightarrow> access_context option \<times> access_context option" where
  "access_scope_enter cur ctx = (Some ctx, cur)"

definition access_scope_exit ::
  "access_context option \<Rightarrow> access_context option \<Rightarrow> access_context option" where
  "access_scope_exit cur prev = prev"

definition inherited_scope_enter ::
  "access_context option \<Rightarrow> access_context option \<Rightarrow> access_context option \<times> access_context option" where
  "inherited_scope_enter cur inherited =
     (case inherited of None \<Rightarrow> (cur, None) | Some c \<Rightarrow> (Some c, cur))"

definition inherited_scope_exit ::
  "access_context option \<Rightarrow> access_context option \<Rightarrow> access_context option \<Rightarrow> access_context option" where
  "inherited_scope_exit cur inherited prev = (case inherited of None \<Rightarrow> cur | Some _ \<Rightarrow> prev)"

section \<open>Correctness of the scan\<close>

lemma ctx_check_from_granted:
  "ctx_check_from epochs stale ctx inst mode = Granted \<longleftrightarrow>
     (\<exists>e \<in> set ctx. entry_covers inst mode e \<and> \<not> entry_stale epochs e)"
  by (induction ctx arbitrary: stale) (auto simp: entry_covers_def)

lemma ctx_check_from_stale:
  "ctx_check_from epochs stale ctx inst mode = Stale \<longleftrightarrow>
     (stale \<or> (\<exists>e \<in> set ctx. entry_covers inst mode e)) \<and>
     (\<forall>e \<in> set ctx. entry_covers inst mode e \<longrightarrow> entry_stale epochs e)"
  by (induction ctx arbitrary: stale) (auto simp: entry_covers_def)

lemma ctx_grants_iff:
  "ctx_grants epochs ctx inst mode \<longleftrightarrow>
     (\<exists>e \<in> set ctx. entry_covers inst mode e \<and> \<not> entry_stale epochs e)"
  by (simp add: ctx_grants_def ctx_check_def ctx_check_from_granted)

lemma ctx_add_length:
  "ctx_add epochs ctx inst mode epoch rank = Inr ctx' \<Longrightarrow> length ctx \<le> max_entries \<Longrightarrow>
     length ctx' \<le> max_entries"
  by (auto simp: ctx_add_def split: if_splits)

lemma ctx_add_fresh_grants:
  "ctx_add epochs ctx inst mode epoch rank = Inr ctx' \<Longrightarrow> ctx_grants epochs ctx' inst mode"
  by (auto simp: ctx_add_def ctx_grants_iff entry_covers_def entry_stale_def
        split: if_splits option.splits)

lemma ctx_check_read_of_write:
  "ctx_grants epochs ctx inst Read_write \<Longrightarrow> ctx_grants epochs ctx inst Read_only"
  by (auto simp: ctx_grants_iff entry_covers_def)

text \<open>
  The rank summary counts the live pipe-backed entries and bounds every live rank.
\<close>

definition live_backed :: "epoch_store \<Rightarrow> access_entry \<Rightarrow> bool" where
  "live_backed epochs e \<longleftrightarrow> ent_epoch e \<noteq> None \<and> \<not> entry_stale epochs e"

lemma rank_state_from_spec:
  "rank_state_from epochs st ctx =
     \<lparr>rs_held = rs_held st + length (filter (live_backed epochs) ctx),
      rs_max = fold max (map ent_rank (filter (live_backed epochs) ctx)) (rs_max st),
      rs_any_unranked = (rs_any_unranked st \<or>
         (\<exists>e \<in> set ctx. live_backed epochs e \<and> ent_rank e = 0))\<rparr>"
proof (induction ctx arbitrary: st)
  case Nil
  show ?case by simp
next
  case (Cons e ctx)
  show ?case by (auto simp: Cons.IH live_backed_def Let_def max_def)
qed

lemma fold_max_ge:
  fixes xs :: "nat list"
  shows "m \<le> fold max xs m" and "x \<in> set xs \<Longrightarrow> x \<le> fold max xs m"
proof (induction xs arbitrary: m)
  case Nil
  { case 1 show ?case by simp }
  { case 2 then show ?case by simp }
next
  case (Cons y ys)
  { case 1 show ?case using Cons.IH(1)[of "max y m"] by simp }
  { case 2 then show ?case using Cons.IH(1)[of "max y m"] Cons.IH(2)[of "max y m"] by auto }
qed

lemma rank_state_bounds:
  "e \<in> set ctx \<Longrightarrow> live_backed epochs e \<Longrightarrow> ent_rank e \<le> rs_max (ctx_rank_state epochs ctx)"
  by (auto simp: ctx_rank_state_def rank_state_from_spec intro!: fold_max_ge(2))

end
