(* ===== verification/Pipe.thy ===== *)
theory Pipe
  imports Macrame_Prelude
begin

text \<open>
  The per-object reader/writer pipe: \<^verbatim>\<open>struct Pipe\<close> (include/ts/detail/pipe.h) and its admission
  operations (src/guarded.cpp). Every function of this theory is the body of one critical section
  of \<^verbatim>\<open>Pipe::mutex\<close>, so it is an atomic step of the running program; the intrusive queue threaded
  through \<^verbatim>\<open>Pipe_link::next\<close> is a list, and the entries a pass granted are returned in the order
  \<^verbatim>\<open>Granted::push\<close> chains them. The theory ends with the step relation of one pipe under any
  interleaving of enters, acquires and releases, and the interface the clients rely on.
\<close>

section \<open>State\<close>

text \<open>
  A queued entry is either a task's embedded link or a held grant's queue node; in the source the
  null \<^verbatim>\<open>owner\<close> of a \<^verbatim>\<open>Pipe_link\<close> discriminates, and a \<^verbatim>\<open>Hold_node\<close> derives from it.
\<close>

record pipe_link =
  lk_owner :: block_id
  lk_pipe :: pipe_id
  lk_index :: nat
  lk_mode :: access

record hold_node =
  hn_pipe :: pipe_id
  hn_mode :: access
  hn_on_acquired :: nat
  hn_grant_owner :: "block_id option"

datatype pipe_entry = Task_link pipe_link | Hold hold_node

fun en_mode :: "pipe_entry \<Rightarrow> access" where
  "en_mode (Task_link l) = lk_mode l"
| "en_mode (Hold n) = hn_mode n"

fun en_owner :: "pipe_entry \<Rightarrow> block_id option" where
  "en_owner (Task_link l) = Some (lk_owner l)"
| "en_owner (Hold n) = hn_grant_owner n"

record pipe =
  pp_queue :: "pipe_entry list"
  active_readers :: int
  writer_active :: bool
  write_epoch :: "64 word"
  graph_refs :: int
  pp_rank :: nat
  writer_owner :: "block_id option"

definition pipe_init :: "nat \<Rightarrow> pipe" where
  "pipe_init rank = \<lparr>pp_queue = [], active_readers = 0, writer_active = False, write_epoch = 0,
     graph_refs = 0, pp_rank = rank, writer_owner = None\<rparr>"

section \<open>Admission operations\<close>

definition queue_push :: "pipe \<Rightarrow> pipe_entry \<Rightarrow> pipe" where
  "queue_push p e = p\<lparr>pp_queue := pp_queue p @ [e]\<rparr>"

definition admissible :: "pipe \<Rightarrow> access \<Rightarrow> bool" where
  "admissible p mode =
     (if mode = Read_only then \<not> writer_active p
      else \<not> writer_active p \<and> active_readers p = 0)"

text \<open>\<^verbatim>\<open>admit_locked\<close>: reader count, or writer flag with the holder identity and the epoch bump.\<close>

definition admit_locked :: "pipe \<Rightarrow> pipe_entry \<Rightarrow> pipe" where
  "admit_locked p e =
     (if en_mode e = Read_only then p\<lparr>active_readers := active_readers p + 1\<rparr>
      else p\<lparr>writer_active := True, writer_owner := en_owner e,
             write_epoch := write_epoch p + 1\<rparr>)"

text \<open>
  \<^verbatim>\<open>collect_admissions\<close>: admit from the front while the reader/writer rules allow. The loop's
  state is the pipe and the granted chain; the queue shrinks in every round.
\<close>

function collect_admissions :: "pipe \<Rightarrow> pipe_entry list \<Rightarrow> pipe \<times> pipe_entry list" where
  "collect_admissions p granted =
     (case pp_queue p of
        [] \<Rightarrow> (p, granted)
      | e # rest \<Rightarrow>
          if admissible p (en_mode e)
          then collect_admissions (admit_locked (p\<lparr>pp_queue := rest\<rparr>) e) (granted @ [e])
          else (p, granted))"
  by pat_completeness auto
termination
  by (relation "measure (\<lambda>(p, g). length (pp_queue p))") (auto simp: admit_locked_def)

declare collect_admissions.simps [simp del]

definition pipe_idle :: "pipe \<Rightarrow> bool" where
  "pipe_idle p \<longleftrightarrow> pp_queue p = [] \<and> active_readers p = 0 \<and> \<not> writer_active p"

text \<open>
  The critical section of \<^verbatim>\<open>release_and_redispatch\<close>: drop the grant, admit what that unblocks,
  and report whether a \<^verbatim>\<open>wait_until_idle\<close> waiter is notified.
\<close>

definition drop_grant :: "pipe \<Rightarrow> access \<Rightarrow> pipe" where
  "drop_grant p mode =
     (if mode = Read_only then p\<lparr>active_readers := active_readers p - 1\<rparr>
      else p\<lparr>writer_active := False, writer_owner := None, write_epoch := write_epoch p + 1\<rparr>)"

definition release_and_redispatch :: "pipe \<Rightarrow> access \<Rightarrow> pipe \<times> pipe_entry list \<times> bool" where
  "release_and_redispatch p mode =
     (let (p', granted) = collect_admissions (drop_grant p mode) []
      in (p', granted, pipe_idle p'))"

text \<open>
  The critical section of \<^verbatim>\<open>pipe_enter_link\<close>: admit at once only when nothing is queued and the
  mode rules allow, else queue. The flag says whether the turn fires in this call.
\<close>

definition pipe_enter :: "pipe \<Rightarrow> pipe_entry \<Rightarrow> pipe \<times> bool" where
  "pipe_enter p e =
     (if pp_queue p = [] \<and> admissible p (en_mode e) then (admit_locked p e, True)
      else (queue_push p e, False))"

text \<open>\<^verbatim>\<open>pipe_acquire\<close>: a held grant; a deferred one allocates its \<^verbatim>\<open>Hold_node\<close> and queues it.\<close>

definition pipe_acquire ::
  "pipe \<Rightarrow> pipe_id \<Rightarrow> access \<Rightarrow> nat \<Rightarrow> block_id option \<Rightarrow> pipe \<times> bool" where
  "pipe_acquire p self mode on_acquired owner =
     (if pp_queue p = [] \<and> admissible p mode
      then (if mode = Read_only then p\<lparr>active_readers := active_readers p + 1\<rparr>
            else p\<lparr>writer_active := True, writer_owner := owner,
                   write_epoch := write_epoch p + 1\<rparr>, True)
      else (queue_push p (Hold \<lparr>hn_pipe = self, hn_mode = mode, hn_on_acquired = on_acquired,
              hn_grant_owner = owner\<rparr>), False))"

text \<open>\<^verbatim>\<open>pipe_release\<close> is \<^verbatim>\<open>release_and_redispatch\<close> on a hold.\<close>

definition pipe_release :: "pipe \<Rightarrow> access \<Rightarrow> pipe \<times> pipe_entry list \<times> bool" where
  "pipe_release p mode = release_and_redispatch p mode"

lemmas pipe_op_defs [pipe_defs] =
  queue_push_def admissible_def admit_locked_def drop_grant_def pipe_idle_def pipe_enter_def
  pipe_acquire_def pipe_release_def release_and_redispatch_def

lemma pipe_acquire_enter:
  "pipe_acquire p self mode cb owner =
     pipe_enter p (Hold \<lparr>hn_pipe = self, hn_mode = mode, hn_on_acquired = cb,
       hn_grant_owner = owner\<rparr>)"
  by (simp add: pipe_defs)

section \<open>One admission pass\<close>

text \<open>
  The pass is characterised on the queue alone: the granted entries are the longest prefix whose
  members are admissible one after the other.
\<close>

fun grantable :: "pipe \<Rightarrow> pipe_entry list \<Rightarrow> pipe_entry list" where
  "grantable p [] = []"
| "grantable p (e # es) =
     (if admissible p (en_mode e) then e # grantable (admit_locked p e) es else [])"

definition admit_all :: "pipe \<Rightarrow> pipe_entry list \<Rightarrow> pipe" where
  "admit_all p es = fold (\<lambda>e q. admit_locked q e) es p"

lemma admit_locked_queue [simp]:
  "pp_queue (admit_locked p e) = pp_queue p"
  "admit_locked (p\<lparr>pp_queue := q\<rparr>) e = (admit_locked p e)\<lparr>pp_queue := q\<rparr>"
  by (auto simp: admit_locked_def)

lemma admissible_queue [simp]: "admissible (p\<lparr>pp_queue := q\<rparr>) m = admissible p m"
  by (simp add: admissible_def)

lemma grantable_queue [simp]: "grantable (p\<lparr>pp_queue := q\<rparr>) es = grantable p es"
  by (induction es arbitrary: p) auto

lemma admit_all_queue [simp]:
  "pp_queue (admit_all p es) = pp_queue p"
  "admit_all (p\<lparr>pp_queue := q\<rparr>) es = (admit_all p es)\<lparr>pp_queue := q\<rparr>"
  by (induction es arbitrary: p) (auto simp: admit_all_def)

lemma admit_all_simps [simp]:
  "admit_all p [] = p"
  "admit_all p (e # es) = admit_all (admit_locked p e) es"
  by (auto simp: admit_all_def)

lemma pipe_queue_same: "pp_queue p = q \<Longrightarrow> p\<lparr>pp_queue := q\<rparr> = p"
  by (cases p) simp

lemma collect_admissions_spec:
  "collect_admissions p granted =
     (let gs = grantable p (pp_queue p)
      in ((admit_all p gs)\<lparr>pp_queue := drop (length gs) (pp_queue p)\<rparr>, granted @ gs))"
proof (induction p granted rule: collect_admissions.induct)
  case (1 p granted)
  show ?case
  proof (cases "pp_queue p")
    case Nil
    then show ?thesis by (simp add: collect_admissions.simps [of p granted] pipe_queue_same)
  next
    case (Cons e rest)
    show ?thesis
    proof (cases "admissible p (en_mode e)")
      case True
      from "1.IH" [OF Cons True] show ?thesis
        by (simp add: collect_admissions.simps [of p granted] Cons True Let_def)
    next
      case False
      with Cons show ?thesis
        by (simp add: collect_admissions.simps [of p granted] pipe_queue_same)
    qed
  qed
qed

lemma grantable_prefix: "grantable p es = take (length (grantable p es)) es"
  by (induction es arbitrary: p) auto

lemma grantable_split: "es = grantable p es @ drop (length (grantable p es)) es"
  by (metis append_take_drop_id grantable_prefix)

text \<open>After a pass the head of what is left is blocked: nothing admissible was left behind.\<close>

lemma grantable_rest_blocked:
  "drop (length (grantable p es)) es = e # rest \<Longrightarrow>
     \<not> admissible (admit_all p (grantable p es)) (en_mode e)"
  by (induction es arbitrary: p) (auto split: if_splits)

section \<open>The admission invariant\<close>

text \<open>
  \<open>H\<close> is the multiset of entries that hold a grant. The pipe does not store it; the invariant says
  what the counters, the writer flag and owner, the epoch parity and the queue say about it.
\<close>

definition is_read :: "pipe_entry \<Rightarrow> bool" where
  "is_read e \<longleftrightarrow> en_mode e = Read_only"

definition grants_ok :: "pipe \<Rightarrow> pipe_entry multiset \<Rightarrow> bool" where
  "grants_ok p H \<longleftrightarrow>
     (if writer_active p
      then active_readers p = 0 \<and> (\<exists>w. H = {#w#} \<and> \<not> is_read w \<and> writer_owner p = en_owner w)
      else active_readers p = int (size H) \<and> (\<forall>e \<in># H. is_read e) \<and> writer_owner p = None)
     \<and> (odd (write_epoch p) \<longleftrightarrow> writer_active p)"

definition head_blocked :: "pipe \<Rightarrow> bool" where
  "head_blocked p \<longleftrightarrow>
     (case pp_queue p of [] \<Rightarrow> True | e # _ \<Rightarrow> \<not> admissible p (en_mode e))"

definition pipe_inv :: "pipe \<Rightarrow> pipe_entry multiset \<Rightarrow> bool" where
  "pipe_inv p H \<longleftrightarrow> grants_ok p H \<and> head_blocked p"

lemma grants_ok_queue [simp]: "grants_ok (p\<lparr>pp_queue := q\<rparr>) H = grants_ok p H"
  by (simp add: grants_ok_def)

lemma pipe_inv_init: "pipe_inv (pipe_init r) {#}"
  by (simp add: pipe_inv_def grants_ok_def head_blocked_def pipe_init_def)

lemma grants_ok_admit:
  "grants_ok p H \<Longrightarrow> admissible p (en_mode e) \<Longrightarrow> grants_ok (admit_locked p e) (add_mset e H)"
  by (auto simp: grants_ok_def admissible_def admit_locked_def is_read_def split: if_splits)

lemma grants_ok_admit_all:
  "grants_ok p H \<Longrightarrow> grants_ok (admit_all p (grantable p es)) (H + mset (grantable p es))"
proof (induction es arbitrary: p H)
  case Nil
  then show ?case by simp
next
  case (Cons e es)
  show ?case
  proof (cases "admissible p (en_mode e)")
    case True
    from Cons.IH [OF grants_ok_admit [OF Cons.prems True]] True show ?thesis by simp
  next
    case False
    with Cons.prems show ?thesis by simp
  qed
qed

lemma grants_ok_drop:
  assumes ok: "grants_ok p H" and "h \<in># H"
  shows "grants_ok (drop_grant p (en_mode h)) (H - {#h#})"
proof -
  from \<open>h \<in># H\<close> obtain H' where H: "H = add_mset h H'"
    by (blast dest: multi_member_split)
  show ?thesis
  proof (cases "writer_active p")
    case True
    with ok H show ?thesis
      by (auto simp: grants_ok_def drop_grant_def is_read_def)
  next
    case False
    with ok H show ?thesis
      by (auto simp: grants_ok_def drop_grant_def is_read_def)
  qed
qed

text \<open>A blocked queue head means somebody holds the pipe, so a release is still to come.\<close>

lemma grants_ok_blocked_held:
  "grants_ok p H \<Longrightarrow> \<not> admissible p m \<Longrightarrow> H \<noteq> {#}"
  by (auto simp: grants_ok_def admissible_def split: if_splits)

lemma pipe_enter_inv:
  assumes inv: "pipe_inv p H" and enter: "pipe_enter p e = (p', now)"
  shows "pipe_inv p' (if now then add_mset e H else H)"
    and "pp_queue p' = (if now then [] else pp_queue p @ [e])"
    and "now \<Longrightarrow> pp_queue p = []"
proof -
  have ok: "grants_ok p H" and blocked: "head_blocked p"
    using inv by (auto simp: pipe_inv_def)
  show "pipe_inv p' (if now then add_mset e H else H)"
  proof (cases now)
    case True
    with enter have "p' = admit_locked p e" "pp_queue p = []" "admissible p (en_mode e)"
      by (auto simp: pipe_enter_def split: if_splits)
    with ok True show ?thesis
      by (simp add: pipe_inv_def head_blocked_def grants_ok_admit)
  next
    case False
    with enter have "p' = queue_push p e" "\<not> (pp_queue p = [] \<and> admissible p (en_mode e))"
      by (auto simp: pipe_enter_def split: if_splits)
    with ok blocked False show ?thesis
      by (cases "pp_queue p") (auto simp: pipe_inv_def head_blocked_def queue_push_def)
  qed
  show "pp_queue p' = (if now then [] else pp_queue p @ [e])" and "now \<Longrightarrow> pp_queue p = []"
    using enter by (auto simp: pipe_enter_def queue_push_def split: if_splits)
qed

lemma release_inv:
  assumes inv: "pipe_inv p H" and held: "h \<in># H"
    and rel: "release_and_redispatch p (en_mode h) = (p', gs, idle)"
  shows "pipe_inv p' (H - {#h#} + mset gs)"
    and "pp_queue p = gs @ pp_queue p'"
    and "idle \<longleftrightarrow> pipe_idle p'"
proof -
  let ?d = "drop_grant p (en_mode h)"
  let ?g = "grantable ?d (pp_queue p)"
  have q: "pp_queue ?d = pp_queue p" by (simp add: drop_grant_def)
  from rel have p': "p' = (admit_all ?d ?g)\<lparr>pp_queue := drop (length ?g) (pp_queue p)\<rparr>"
    and gs: "gs = ?g" and "idle = pipe_idle p'"
    by (auto simp: release_and_redispatch_def collect_admissions_spec Let_def q)
  then show "idle \<longleftrightarrow> pipe_idle p'" by simp
  have "grants_ok ?d (H - {#h#})"
    using inv held by (auto simp: pipe_inv_def intro: grants_ok_drop)
  then have "grants_ok p' (H - {#h#} + mset gs)"
    by (simp add: p' gs grants_ok_admit_all)
  moreover have "head_blocked p'"
    by (auto simp: head_blocked_def p' split: list.splits dest: grantable_rest_blocked)
  ultimately show "pipe_inv p' (H - {#h#} + mset gs)" by (simp add: pipe_inv_def)
  show "pp_queue p = gs @ pp_queue p'"
    unfolding p' gs using grantable_split [of "pp_queue p" ?d] by simp
qed

section \<open>The interface clients rely on\<close>

text \<open>
  What a pipe promises to the block machinery above it: entering and releasing keep the
  reader/writer discipline, waiting entries are served in order and none is forgotten, a writer is
  alone, and a waiting entry implies a holder whose release will serve it.
\<close>

locale rw_serializer =
  fixes inv :: "'p \<Rightarrow> 'e multiset \<Rightarrow> bool"
    and waiting :: "'p \<Rightarrow> 'e list"
    and mode :: "'e \<Rightarrow> access"
    and enter :: "'p \<Rightarrow> 'e \<Rightarrow> 'p \<times> bool"
    and release :: "'p \<Rightarrow> access \<Rightarrow> 'p \<times> 'e list \<times> bool"
  assumes enter_keeps: "inv p H \<Longrightarrow> enter p e = (p', now) \<Longrightarrow> inv p' (if now then add_mset e H else H)"
    and enter_waiting: "inv p H \<Longrightarrow> enter p e = (p', now) \<Longrightarrow>
          waiting p' = (if now then [] else waiting p @ [e])"
    and enter_now: "inv p H \<Longrightarrow> enter p e = (p', True) \<Longrightarrow> waiting p = []"
    and release_keeps: "inv p H \<Longrightarrow> h \<in># H \<Longrightarrow> release p (mode h) = (p', gs, idle) \<Longrightarrow>
          inv p' (H - {#h#} + mset gs)"
    and release_waiting: "inv p H \<Longrightarrow> h \<in># H \<Longrightarrow> release p (mode h) = (p', gs, idle) \<Longrightarrow>
          waiting p = gs @ waiting p'"
    and writer_alone: "inv p H \<Longrightarrow> w \<in># H \<Longrightarrow> mode w = Read_write \<Longrightarrow> H = {#w#}"
    and waiting_held: "inv p H \<Longrightarrow> waiting p \<noteq> [] \<Longrightarrow> H \<noteq> {#}"
begin

text \<open>Nothing is lost or invented: the entries inside the pipe are conserved.\<close>

lemma enter_conserves:
  "inv p H \<Longrightarrow> enter p e = (p', now) \<Longrightarrow>
     mset (waiting p') + (if now then add_mset e H else H) = add_mset e (mset (waiting p) + H)"
  using enter_waiting enter_now by (cases now) fastforce+

lemma release_conserves:
  assumes "inv p H" and "h \<in># H" and "release p (mode h) = (p', gs, idle)"
  shows "mset (waiting p') + (H - {#h#} + mset gs) = mset (waiting p) + H - {#h#}"
  using release_waiting [OF assms] assms(2) by (simp add: union_ac)

text \<open>Every release makes the pipe's population smaller by exactly the releasing entry.\<close>

lemma release_shrinks:
  assumes "inv p H" and "h \<in># H" and "release p (mode h) = (p', gs, idle)"
  shows "Suc (length (waiting p') + size (H - {#h#} + mset gs)) = length (waiting p) + size H"
proof -
  from \<open>h \<in># H\<close> obtain H' where "H = add_mset h H'" by (blast dest: multi_member_split)
  with release_waiting [OF assms] show ?thesis by simp
qed

lemma no_conflicting_holders:
  assumes "inv p H" and "e \<in># H" and "f \<in># H" and "e \<noteq> f"
  shows "mode e = Read_only \<and> mode f = Read_only"
  using assms writer_alone [of p H e] writer_alone [of p H f]
  by (metis access.exhaust add_mset_eq_single empty_iff multi_member_split set_mset_empty
      insert_iff set_mset_add_mset_insert)

end

interpretation pw: rw_serializer pipe_inv pp_queue en_mode pipe_enter release_and_redispatch
proof (unfold_locales, goal_cases)
  case 1 then show ?case by (rule pipe_enter_inv(1))
next
  case 2 then show ?case by (rule pipe_enter_inv(2))
next
  case (3 p H e p') then show ?case by (auto dest: pipe_enter_inv(3))
next
  case 4 then show ?case by (rule release_inv(1))
next
  case 5 then show ?case by (rule release_inv(2))
next
  case 6 then show ?case by (auto simp: pipe_inv_def grants_ok_def is_read_def split: if_splits)
next
  case (7 p H)
  then show ?case
    by (auto simp: pipe_inv_def head_blocked_def neq_Nil_conv dest: grants_ok_blocked_held)
qed

section \<open>One pipe under any interleaving\<close>

text \<open>
  The pipe together with what its users did so far: the entries in the order they entered, in the
  order they were granted, and in the order they released. \<open>run_holders\<close> is who holds now. The last
  four fields are bookkeeping for the statements; no operation reads them.
\<close>

record pipe_run =
  run_pipe :: pipe
  run_holders :: "pipe_entry multiset"
  run_entered :: "pipe_entry list"
  run_granted :: "pipe_entry list"
  run_released :: "pipe_entry list"

definition run_init :: "nat \<Rightarrow> pipe_run" where
  "run_init r = \<lparr>run_pipe = pipe_init r, run_holders = {#}, run_entered = [], run_granted = [],
     run_released = []\<rparr>"

definition run_enter :: "pipe_run \<Rightarrow> pipe_entry \<Rightarrow> pipe_run" where
  "run_enter s e =
     (let (p', now) = pipe_enter (run_pipe s) e
      in s\<lparr>run_pipe := p', run_holders := (if now then add_mset e (run_holders s) else run_holders s),
            run_entered := run_entered s @ [e],
            run_granted := run_granted s @ (if now then [e] else [])\<rparr>)"

definition run_release :: "pipe_run \<Rightarrow> pipe_entry \<Rightarrow> pipe_run" where
  "run_release s h =
     (let (p', gs, idle) = release_and_redispatch (run_pipe s) (en_mode h)
      in s\<lparr>run_pipe := p', run_holders := run_holders s - {#h#} + mset gs,
            run_granted := run_granted s @ gs, run_released := run_released s @ [h]\<rparr>)"

text \<open>
  A step is one critical section: a task link or a hold enters (\<open>pipe_acquire\<close> is an enter of its
  hold node, \<open>pipe_acquire_enter\<close>), or a current holder releases.
\<close>

inductive pipe_step :: "pipe_run \<Rightarrow> pipe_run \<Rightarrow> bool" where
  step_enter: "pipe_step s (run_enter s e)"
| step_release: "h \<in># run_holders s \<Longrightarrow> pipe_step s (run_release s h)"

inductive release_step :: "pipe_run \<Rightarrow> pipe_run \<Rightarrow> bool" where
  "h \<in># run_holders s \<Longrightarrow> release_step s (run_release s h)"

inductive_cases release_stepE: "release_step s t"

inductive pipe_reach :: "pipe_run \<Rightarrow> bool" where
  reach_init: "pipe_reach (run_init r)"
| reach_step: "pipe_reach s \<Longrightarrow> pipe_step s t \<Longrightarrow> pipe_reach t"

definition writes_in :: "pipe_entry list \<Rightarrow> nat" where
  "writes_in es = length (filter (\<lambda>e. \<not> is_read e) es)"

lemma writes_in_simps [simp]:
  "writes_in [] = 0"
  "writes_in (e # es) = (if is_read e then writes_in es else Suc (writes_in es))"
  "writes_in (es @ fs) = writes_in es + writes_in fs"
  by (auto simp: writes_in_def)

definition run_inv :: "pipe_run \<Rightarrow> bool" where
  "run_inv s \<longleftrightarrow>
     pipe_inv (run_pipe s) (run_holders s)
     \<and> run_entered s = run_granted s @ pp_queue (run_pipe s)
     \<and> mset (run_granted s) = run_holders s + mset (run_released s)
     \<and> write_epoch (run_pipe s) =
         word_of_nat (writes_in (run_granted s) + writes_in (run_released s))"

lemma write_epoch_admit_all:
  "write_epoch (admit_all p es) = write_epoch p + word_of_nat (writes_in es)"
  by (induction es arbitrary: p)
    (auto simp: admit_locked_def is_read_def algebra_simps)

lemma write_epoch_enter:
  "pipe_enter p e = (p', now) \<Longrightarrow>
     write_epoch p' = write_epoch p + word_of_nat (if now then writes_in [e] else 0)"
  by (auto simp: pipe_enter_def admit_locked_def queue_push_def is_read_def split: if_splits)

lemma write_epoch_release:
  "release_and_redispatch p m = (p', gs, idle) \<Longrightarrow>
     write_epoch p' = write_epoch p + word_of_nat (writes_in gs + (if m = Read_only then 0 else 1))"
  by (auto simp: release_and_redispatch_def collect_admissions_spec Let_def write_epoch_admit_all
        drop_grant_def algebra_simps)

lemma run_inv_init: "run_inv (run_init r)"
  by (simp add: run_inv_def run_init_def pipe_inv_init) (simp add: pipe_init_def)

lemma run_inv_enter: "run_inv s \<Longrightarrow> run_inv (run_enter s e)"
proof -
  assume inv: "run_inv s"
  obtain p' now where en: "pipe_enter (run_pipe s) e = (p', now)" by fastforce
  from inv have pinv: "pipe_inv (run_pipe s) (run_holders s)" by (simp add: run_inv_def)
  note keeps = pw.enter_keeps [OF pinv en] and waits = pw.enter_waiting [OF pinv en]
    and epoch = write_epoch_enter [OF en]
  have now: "now \<Longrightarrow> pp_queue (run_pipe s) = []"
    using pw.enter_now [OF pinv] en by auto
  show ?thesis
    using inv keeps waits epoch now
    by (auto simp: run_inv_def run_enter_def en Let_def)
qed

lemma run_inv_release: "run_inv s \<Longrightarrow> h \<in># run_holders s \<Longrightarrow> run_inv (run_release s h)"
proof -
  assume inv: "run_inv s" and held: "h \<in># run_holders s"
  obtain p' gs idle where re: "release_and_redispatch (run_pipe s) (en_mode h) = (p', gs, idle)"
    by (metis prod_cases3)
  from inv have pinv: "pipe_inv (run_pipe s) (run_holders s)" by (simp add: run_inv_def)
  note keeps = pw.release_keeps [OF pinv held re] and waits = pw.release_waiting [OF pinv held re]
    and epoch = write_epoch_release [OF re]
  from held obtain H' where H: "run_holders s = add_mset h H'" by (blast dest: multi_member_split)
  show ?thesis
    using inv keeps waits epoch H
    by (auto simp: run_inv_def run_release_def re is_read_def)
qed

lemma run_inv_reach: "pipe_reach s \<Longrightarrow> run_inv s"
proof (induction rule: pipe_reach.induct)
  case (reach_init r)
  show ?case by (rule run_inv_init)
next
  case (reach_step s t)
  from reach_step.hyps(2) reach_step.IH show ?case
    by cases (auto intro: run_inv_enter run_inv_release)
qed

lemma pipe_reach_release: "pipe_reach s \<Longrightarrow> release_step s t \<Longrightarrow> pipe_reach t"
  by (auto elim!: release_stepE intro: reach_step step_release)

section \<open>Properties of one pipe\<close>

definition population :: "pipe_run \<Rightarrow> nat" where
  "population s = length (pp_queue (run_pipe s)) + size (run_holders s)"

lemma release_step_population:
  assumes "pipe_reach s" and "release_step s t"
  shows "Suc (population t) = population s" and "run_entered t = run_entered s"
proof -
  from assms(2) obtain h where held: "h \<in># run_holders s" and t: "t = run_release s h"
    by (rule release_stepE)
  obtain p' gs idle where re: "release_and_redispatch (run_pipe s) (en_mode h) = (p', gs, idle)"
    by (metis prod_cases3)
  from run_inv_reach [OF assms(1)] have pinv: "pipe_inv (run_pipe s) (run_holders s)"
    by (simp add: run_inv_def)
  from pw.release_shrinks [OF pinv held re]
  show "Suc (population t) = population s" by (simp add: population_def t run_release_def re)
  show "run_entered t = run_entered s" by (simp add: t run_release_def re)
qed

lemma release_steps_population:
  assumes "pipe_reach s" and "(release_step ^^ k) s t"
  shows "pipe_reach t \<and> k + population t = population s \<and> run_entered t = run_entered s"
  using assms(2)
proof (induction k arbitrary: t)
  case 0
  then show ?case using assms(1) by simp
next
  case (Suc k)
  then obtain u where "(release_step ^^ k) s u" and ut: "release_step u t" by auto
  with Suc.IH have u: "pipe_reach u" "k + population u = population s" "run_entered u = run_entered s"
    by auto
  from release_step_population [OF u(1) ut] u(2,3) pipe_reach_release [OF u(1) ut]
  show ?case by simp
qed

lemma no_holder_idle:
  assumes "pipe_reach s" and "run_holders s = {#}"
  shows "pipe_idle (run_pipe s)" and "run_granted s = run_entered s"
proof -
  from run_inv_reach [OF assms(1)] assms(2)
  have inv: "pipe_inv (run_pipe s) {#}" and hist: "run_entered s = run_granted s @ pp_queue (run_pipe s)"
    by (auto simp: run_inv_def)
  then have q: "pp_queue (run_pipe s) = []" using pw.waiting_held by blast
  with inv show "pipe_idle (run_pipe s)"
    by (auto simp: pipe_inv_def grants_ok_def pipe_idle_def split: if_splits)
  show "run_granted s = run_entered s" using hist q by simp
qed


text \<open>
  (C34) First come, first served. The entries granted so far, in grant order, followed by the ones
  still queued, are exactly the entries that arrived, in arrival order: no reader overtakes a
  queued writer, none is granted twice and none is dropped.
\<close>

theorem pipe_fifo_order:
  assumes "pipe_reach s"
  shows "run_entered s = run_granted s @ pp_queue (run_pipe s)"
  using run_inv_reach [OF assms] by (simp add: run_inv_def)

text \<open>
  No missed admission. Whenever an entry waits at the head of the queue, the admission rule
  really forbids it now, and there is a current holder it conflicts with; so the wait ends with
  that holder's release and is never for nothing.
\<close>

theorem pipe_head_wait_justified:
  assumes "pipe_reach s" and "pp_queue (run_pipe s) = e # rest"
  shows "\<not> admissible (run_pipe s) (en_mode e) \<and>
    (\<exists>h \<in># run_holders s. en_mode h = Read_write \<or> en_mode e = Read_write)"
proof -
  from run_inv_reach [OF assms(1)]
  have ok: "grants_ok (run_pipe s) (run_holders s)" and "head_blocked (run_pipe s)"
    by (auto simp: run_inv_def pipe_inv_def)
  with assms(2) have blocked: "\<not> admissible (run_pipe s) (en_mode e)"
    by (simp add: head_blocked_def)
  have "\<exists>h \<in># run_holders s. en_mode h = Read_write \<or> en_mode e = Read_write"
  proof (cases "writer_active (run_pipe s)")
    case True
    with ok show ?thesis by (auto simp: grants_ok_def is_read_def intro: access.exhaust)
  next
    case False
    with blocked have "en_mode e = Read_write" by (auto simp: admissible_def intro: access.exhaust)
    moreover obtain h where "h \<in># run_holders s"
      using grants_ok_blocked_held [OF ok blocked] by blast
    ultimately show ?thesis by blast
  qed
  with blocked show ?thesis by simp
qed

text \<open>
  The pipe drains. Start anywhere reachable and let holders release, in any order whatever,
  until nobody holds: that takes exactly as many releases as there are entries inside, it always
  comes to an end, the pipe is then idle (what \<^verbatim>\<open>wait_until_idle\<close> waits for) and every entry
  that ever entered has had its turn, in order.
\<close>

theorem pipe_drains:
  assumes "pipe_reach s" and "(release_step ^^ k) s t"
  shows "k \<le> population s \<and>
    ((\<nexists>u. release_step t u) \<longrightarrow>
       k = population s \<and> pipe_idle (run_pipe t) \<and> run_granted t = run_entered s)"
proof -
  note t = release_steps_population [OF assms]
  have "k = population s \<and> pipe_idle (run_pipe t) \<and> run_granted t = run_entered s"
    if "\<nexists>u. release_step t u"
  proof -
    from that have none: "run_holders t = {#}"
      by (metis multiset_nonemptyE release_step.intros)
    with t no_holder_idle [of t] show ?thesis by (simp add: population_def pipe_idle_def)
  qed
  with t show ?thesis by auto
qed

section \<open>A concrete run\<close>

definition demo_read :: pipe_entry where
  "demo_read = Task_link \<lparr>lk_owner = 1, lk_pipe = 7, lk_index = 0, lk_mode = Read_only\<rparr>"

definition demo_write :: pipe_entry where
  "demo_write = Hold \<lparr>hn_pipe = 7, hn_mode = Read_write, hn_on_acquired = 3, hn_grant_owner = Some 2\<rparr>"

definition demo_run :: pipe_run where
  "demo_run = run_enter (run_enter (run_init 0) demo_write) demo_read"

lemma demo_run_reach: "pipe_reach demo_run"
  unfolding demo_run_def by (blast intro: reach_init reach_step step_enter)

lemma demo_run_state:
  "run_holders demo_run = {#demo_write#}" "pp_queue (run_pipe demo_run) = [demo_read]"
  by (simp_all add: demo_run_def run_enter_def run_init_def pipe_init_def demo_read_def
        demo_write_def pipe_defs)


theorem pipe_fifo_order_witness:
  "run_entered demo_run = run_granted demo_run @ [demo_read]"
  using pipe_fifo_order [OF demo_run_reach] by (simp add: demo_run_state)

theorem pipe_head_wait_justified_witness:
  "\<not> admissible (run_pipe demo_run) Read_only"
  using pipe_head_wait_justified [OF demo_run_reach demo_run_state(2)]
  by (simp add: demo_read_def)

theorem pipe_drains_witness:
  "pipe_idle (run_pipe (run_release (run_release demo_run demo_write) demo_read))"
proof -
  let ?u = "run_release demo_run demo_write" and ?t = "run_release (run_release demo_run demo_write) demo_read"
  have u: "run_holders ?u = {#demo_read#}"
    by (simp add: demo_run_def run_enter_def run_release_def run_init_def pipe_init_def demo_read_def
        demo_write_def pipe_defs collect_admissions.simps)
  have t: "run_holders ?t = {#}"
    by (simp add: demo_run_def run_enter_def run_release_def run_init_def pipe_init_def demo_read_def
        demo_write_def pipe_defs collect_admissions.simps)
  have "(release_step ^^ 2) demo_run ?t"
    using release_step.intros [of demo_write demo_run] release_step.intros [of demo_read ?u] u
    by (auto simp: numeral_2_eq_2 demo_run_state)
  moreover have "\<nexists>v. release_step ?t v" using t by (auto elim: release_stepE)
  ultimately show ?thesis using pipe_drains [OF demo_run_reach, of 2 ?t] by blast
qed

end
