(* ===== verification/Grant_Window.thy ===== *)
theory Grant_Window
  imports Access_Context Pipe
begin

text \<open>
  The harness of include/ts/access.h over the pipes of src/guarded.cpp: an entry of an
  \<^verbatim>\<open>Access_context\<close> carries the pipe's \<^verbatim>\<open>write_epoch\<close> as it was when the grant was declared, and
  \<^verbatim>\<open>access_check\<close> compares it with the pipe's current one. The theorems say when that comparison
  is right: the check passes exactly while the window of the grant is open.
\<close>

section \<open>Epochs and write events\<close>

definition write_events :: "pipe_run \<Rightarrow> nat" where
  "write_events s = writes_in (run_granted s) + writes_in (run_released s)"

lemma run_inv_epoch: "run_inv s \<Longrightarrow> write_epoch (run_pipe s) = word_of_nat (write_events s)"
  by (simp add: run_inv_def write_events_def)

text \<open>The histories only grow.\<close>

lemma pipe_step_histories:
  assumes "pipe_step s t"
  shows "\<exists>gs rs. run_granted t = run_granted s @ gs \<and> run_released t = run_released s @ rs"
  using assms by cases (auto simp: run_enter_def run_release_def case_prod_beta)

lemma pipe_steps_histories:
  "(pipe_step ^^ k) s t \<Longrightarrow>
     \<exists>gs rs. run_granted t = run_granted s @ gs \<and> run_released t = run_released s @ rs"
proof (induction k arbitrary: t)
  case 0
  then show ?case by simp
next
  case (Suc k)
  then obtain u where "(pipe_step ^^ k) s u" and "pipe_step u t" by auto
  with Suc.IH pipe_step_histories [of u t] show ?case by fastforce
qed

lemma pipe_steps_reach: "pipe_reach s \<Longrightarrow> (pipe_step ^^ k) s t \<Longrightarrow> pipe_reach t"
  by (induction k arbitrary: t) (auto intro: reach_step)

lemma writes_in_le: "writes_in es \<le> length es"
  by (simp add: writes_in_def)

text \<open>Equal epochs mean that no write event lies between, as long as the 64-bit counter did not wrap.\<close>

lemma epoch_eq_iff:
  assumes "pipe_reach s" and "(pipe_step ^^ k) s t"
    and "length (run_granted t) + length (run_released t) < 2 ^ 64"
  shows "write_epoch (run_pipe t) = write_epoch (run_pipe s) \<longleftrightarrow> write_events t = write_events s"
proof -
  from pipe_steps_histories [OF assms(2)] have le: "write_events s \<le> write_events t"
    by (auto simp: write_events_def)
  have "write_events t < 2 ^ 64"
    using assms(3) writes_in_le [of "run_granted t"] writes_in_le [of "run_released t"]
    by (simp add: write_events_def)
  with le have "(word_of_nat (write_events t) :: 64 word) = word_of_nat (write_events s) \<longleftrightarrow>
      write_events t = write_events s"
    by (simp add: of_nat_eq_iff word_of_nat_eq_iff take_bit_nat_eq_self)
  with run_inv_epoch [OF run_inv_reach [OF assms(1)]]
    run_inv_epoch [OF run_inv_reach [OF pipe_steps_reach [OF assms(1,2)]]] show ?thesis by simp
qed

text \<open>What the check says about an object declared once, under pipe \<open>p\<close>, when \<open>old\<close> was current.\<close>

lemma declared_check:
  assumes "ctx_add old ctx inst mode (Some p) rank = Inr ctx'" and "\<forall>e \<in> set ctx. ent_instance e \<noteq> inst"
  shows "access_check now (Some ctx') inst mode =
    (if now p = old p then Inr () else Inl (Access_violation mode True))"
proof -
  obtain e where e: "ctx' = ctx @ [e]" "ent_instance e = inst" "ent_mode e = mode" "ent_epoch e = Some p"
      "ent_captured e = old p"
    using assms(1) by (auto simp: ctx_add_def split: if_splits)
  have "ctx_check now ctx' inst mode = (if now p = old p then Granted else Stale)"
    unfolding ctx_check_def using e(1) assms(2)
  proof (induction ctx arbitrary: ctx')
    case Nil
    then show ?case using e by (simp add: entry_stale_def)
  qed simp
  then show ?thesis by (simp add: access_check_def)
qed

section \<open>The window\<close>

lemma reach_pipe_inv: "pipe_reach s \<Longrightarrow> pipe_inv (run_pipe s) (run_holders s)"
  by (auto dest: run_inv_reach simp: run_inv_def)

lemma beside_reader_is_read:
  assumes "pipe_reach s" and "h \<in># run_holders s" and "en_mode h = Read_only" and "w \<in># run_holders s"
  shows "is_read w"
proof (rule ccontr)
  assume "\<not> is_read w"
  then have "en_mode w = Read_write" by (cases "en_mode w") (auto simp: is_read_def)
  with pw.writer_alone [OF reach_pipe_inv [OF assms(1)] assms(4)] assms(2,3) show False by auto
qed

lemma reader_excludes_writes:
  assumes "pipe_reach s" and step: "pipe_step s t" and h: "h \<in># run_holders s" "en_mode h = Read_only"
    and kept: "h \<in># run_holders t"
  shows "write_events t = write_events s"
proof -
  have t: "pipe_reach t" using assms(1) step by (rule reach_step)
  note reads = beside_reader_is_read [OF t kept h(2)]
  from step show ?thesis
  proof cases
    case (step_enter e)
    then show ?thesis using reads [of e] by (auto simp: write_events_def run_enter_def case_prod_beta)
  next
    case (step_release w)
    obtain p' gs idle where rel: "release_and_redispatch (run_pipe s) (en_mode w) = (p', gs, idle)"
      by (metis prod_cases3)
    have "is_read w" using beside_reader_is_read [OF assms(1) h step_release(2)] .
    moreover have "writes_in gs = 0"
      using reads step_release(1) by (auto simp: run_release_def rel writes_in_def filter_empty_conv)
    ultimately show ?thesis using step_release(1) by (simp add: write_events_def run_release_def rel)
  qed
qed

lemma writer_excludes_writes:
  assumes "pipe_reach s" and step: "pipe_step s t" and h: "h \<in># run_holders s" "en_mode h = Read_write"
    and kept: "h \<notin> set (drop (length (run_released s)) (run_released t))"
  shows "write_events t = write_events s"
proof -
  have alone: "run_holders s = {#h#}" using pw.writer_alone [OF reach_pipe_inv [OF assms(1)] h] .
  from step show ?thesis
  proof cases
    case (step_enter e)
    have "pipe_reach t" using assms(1) step by (rule reach_step)
    from pw.writer_alone [OF reach_pipe_inv [OF this], of h] h(2) step_enter alone show ?thesis
      by (auto simp: write_events_def run_enter_def case_prod_beta split: if_splits)
  next
    case (step_release w)
    then show ?thesis using alone kept by (auto simp: run_release_def case_prod_beta)
  qed
qed

text \<open>An entry that has not released since still holds.\<close>

lemma unreleased_holds:
  assumes "pipe_reach s" and "(pipe_step ^^ k) s t" and "h \<in># run_holders s"
    and "h \<notin> set (drop (length (run_released s)) (run_released t))"
  shows "h \<in># run_holders t"
proof -
  obtain gs rs where new: "run_granted t = run_granted s @ gs" "run_released t = run_released s @ rs"
    using pipe_steps_histories [OF assms(2)] by blast
  have "mset (run_granted x) = run_holders x + mset (run_released x)" if "pipe_reach x" for x
    using run_inv_reach [OF that] by (simp add: run_inv_def)
  from this [OF assms(1)] this [OF pipe_steps_reach [OF assms(1,2)]] new
  have "run_holders t + mset rs = run_holders s + mset gs" by simp
  with assms(3,4) new(2) show ?thesis by (metis append_eq_conv_conj set_mset_mset union_iff)
qed

lemma window_open:
  assumes "pipe_reach s" and "(pipe_step ^^ k) s t" and "h \<in># run_holders s"
    and "h \<notin> set (drop (length (run_released s)) (run_released t))"
  shows "write_events t = write_events s"
  using assms(2,4)
proof (induction k arbitrary: t)
  case 0
  then show ?case by simp
next
  case (Suc k)
  then obtain u where u: "(pipe_step ^^ k) s u" "pipe_step u t" by auto
  obtain rs where rs: "run_released u = run_released s @ rs" using pipe_steps_histories [OF u(1)] by blast
  obtain rs' where rs': "run_released t = run_released u @ rs'" using pipe_step_histories [OF u(2)] by blast
  have su: "h \<notin> set (drop (length (run_released s)) (run_released u))"
    and ut: "h \<notin> set (drop (length (run_released u)) (run_released t))"
    using Suc.prems(2) rs rs' by auto
  have hu: "h \<in># run_holders u" and ht: "h \<in># run_holders t"
    using unreleased_holds [OF assms(1) _ assms(3)] u(1) su Suc.prems by blast+
  note ru = pipe_steps_reach [OF assms(1) u(1)]
  from Suc.IH [OF u(1) su] show ?case
    using reader_excludes_writes [OF ru u(2) hu _ ht] writer_excludes_writes [OF ru u(2) hu _ ut]
    by (cases "en_mode h") auto
qed


section \<open>Properties\<close>

text \<open>
  The harness admits exactly what was declared. A guarded access passes \<^verbatim>\<open>access_check\<close> iff some
  entry of the thread's context names the object with a sufficient mode and is not stale; otherwise
  the process stops, and the report says "stale" iff a sufficient but outdated entry exists.
\<close>

theorem access_check_exact:
  "access_check epochs ctx self mode =
     (let entries = (case ctx of None \<Rightarrow> {} | Some c \<Rightarrow> {e \<in> set c. entry_covers self mode e})
      in if \<exists>e. e \<in> entries \<and> \<not> entry_stale epochs e then Inr ()
         else Inl (Access_violation mode (entries \<noteq> {})))"
proof (cases ctx)
  case (Some c)
  have "ctx_check epochs c self mode = Granted \<longleftrightarrow>
      (\<exists>e. e \<in> {e \<in> set c. entry_covers self mode e} \<and> \<not> entry_stale epochs e)"
    by (auto simp: ctx_check_def ctx_check_from_granted)
  moreover have "ctx_check epochs c self mode \<noteq> Granted \<Longrightarrow>
      ctx_check epochs c self mode = Stale \<longleftrightarrow> {e \<in> set c. entry_covers self mode e} \<noteq> {}"
    by (auto simp: ctx_check_def ctx_check_from_granted ctx_check_from_stale)
  ultimately show ?thesis by (simp add: Some access_check_def Let_def)
qed (simp add: access_check_def)


text \<open>
  No false alarm. As long as a holder has not released, every access to its object in the declared
  mode passes the check, whatever other tasks entered and released in the meantime.
\<close>

theorem held_check_passes:
  assumes "pipe_reach s" and "h \<in># run_holders s" and "(pipe_step ^^ k) s t"
    and "length (run_granted t) + length (run_released t) < 2 ^ 64"
    and "ctx_add (\<lambda>_. write_epoch (run_pipe s)) ctx inst (en_mode h) (Some p) rank = Inr ctx'"
    and "\<forall>e \<in> set ctx. ent_instance e \<noteq> inst"
    and "h \<notin> set (drop (length (run_released s)) (run_released t))"
  shows "access_check (\<lambda>_. write_epoch (run_pipe t)) (Some ctx') inst (en_mode h) = Inr ()"
  using declared_check [OF assms(5,6)] epoch_eq_iff [OF assms(1,3,4)]
    window_open [OF assms(1,3,2,7)] by simp

section \<open>Witnesses\<close>

text \<open>The write holder of \<open>demo_run\<close> declares object 40; a further reader enters.\<close>

lemma demo_window_step: "(pipe_step ^^ 1) demo_run (run_enter demo_run demo_read)"
  by (metis relpowp_1 step_enter)

lemma demo_window:
  "length (run_granted (run_enter demo_run demo_read)) + length (run_released (run_enter demo_run demo_read)) < 2 ^ 64"
  "run_holders (run_enter demo_run demo_read) = {#demo_write#}"
  "run_released (run_enter demo_run demo_read) = []"
  "write_epoch (run_pipe (run_enter demo_run demo_read)) = write_epoch (run_pipe demo_run)"
  by (simp_all add: demo_run_def run_enter_def run_init_def pipe_init_def
      demo_read_def demo_write_def pipe_defs)

definition demo_ctx :: "access_context result" where
  "demo_ctx = ctx_add (\<lambda>_. write_epoch (run_pipe demo_run)) [] 40 (en_mode demo_write) (Some 7) 0"

lemma demo_ctx_ok: "demo_ctx = Inr (projr demo_ctx)"
  by (simp add: demo_ctx_def ctx_add_def max_entries_def)

theorem held_check_passes_witness:
  "access_check (\<lambda>_. write_epoch (run_pipe (run_enter demo_run demo_read))) (Some (projr demo_ctx)) 40
     Read_write = Inr ()"
  using held_check_passes [OF demo_run_reach _ demo_window_step demo_window(1), of demo_write "[]" 40 7 0 "projr demo_ctx"]
    demo_ctx_ok demo_window(3) by (simp add: demo_run_state demo_ctx_def demo_write_def)


end
