(* ===== verification/Task_Block.thy ===== *)
theory Task_Block
  imports Pipe
begin

text \<open>
  The task control block (include/ts/detail/task_block.h): the lock counter that gates execution
  and then completion, the settle/attach completion protocol, the run of an executable body, nesting,
  re-arming, the two per-thread trampolines and the deadlock net's polling loop. A block operation
  is a function on the block's record; what it does to other objects (continuations to fire, a
  parent to release, pipes to enter, a dispatch) is returned as a value, in the order the code
  does it.
\<close>

section \<open>State\<close>

record block_flags =
  fl_priority :: priority
  fl_run_inline :: bool
  fl_borrowed :: bool
  fl_caller_owned :: bool
  fl_all_lent :: bool
  fl_coroutine :: bool

record tcb =
  refcount :: "32 word"
  num_locks :: "32 word"
  has_execute :: bool
  has_on_complete :: bool
  result_ptr :: "nat option"
  pipe_links :: "pipe_link list"
  pipes_entered :: nat
  ready :: bool
  prereq_cancelled :: bool
  body_claimed :: bool
  completed :: bool
  cancelled :: bool
  result_consumed :: bool
  flags :: block_flags
  nested_parent :: "block_id option"
  continuations :: "nat list"

definition execution_flag :: "32 word" where
  "execution_flag = 0x80000000"

abbreviation pipe_count :: "tcb \<Rightarrow> nat" where
  "pipe_count b \<equiv> length (pipe_links b)"

definition default_flags :: block_flags where
  "default_flags = \<lparr>fl_priority = Normal, fl_run_inline = False, fl_borrowed = False,
     fl_caller_owned = False, fl_all_lent = False, fl_coroutine = False\<rparr>"

text \<open>A block as its default member initialisers leave it (\<^verbatim>\<open>make_bare_block\<close> owns one reference).\<close>

definition make_bare_block :: tcb where
  "make_bare_block = \<lparr>refcount = 1, num_locks = 0, has_execute = False, has_on_complete = False,
     result_ptr = None, pipe_links = [], pipes_entered = 0, ready = False, prereq_cancelled = False,
     body_claimed = False, completed = False, cancelled = False, result_consumed = False,
     flags = default_flags, nested_parent = None, continuations = []\<rparr>"

text \<open>What a settle does outside the block, in order: continuations, parent release, \<^verbatim>\<open>on_complete\<close>.\<close>

record settle_effects =
  eff_notify :: bool
  eff_conts :: "(nat \<times> nat option \<times> bool) list"
  eff_parent :: "(block_id \<times> bool) option"
  eff_on_complete :: bool

definition no_effects :: settle_effects where
  "no_effects = \<lparr>eff_notify = False, eff_conts = [], eff_parent = None, eff_on_complete = False\<rparr>"

section \<open>Operations\<close>

definition claim :: "tcb \<Rightarrow> tcb result" where
  "claim b = (if body_claimed b then Inl Claim_failed else Inr (b\<lparr>body_claimed := True\<rparr>))"

text \<open>\<^verbatim>\<open>release\<close>: decrement the lock count and say what the crossing triggers.\<close>

datatype release_next = Next_none | Next_dispatch | Next_complete | Next_op_settle | Next_enter_pipes

definition release_lock :: "tcb \<Rightarrow> bool \<Rightarrow> tcb \<times> release_next" where
  "release_lock b prereq =
     (let b1 = (if prereq then b\<lparr>prereq_cancelled := True\<rparr> else b);
          now = num_locks b1 - 1;
          b2 = b1\<lparr>num_locks := now\<rparr>
      in (b2, if now = 0 then Next_dispatch
              else if now = execution_flag
                then (if fl_caller_owned (flags b2) then Next_op_settle else Next_complete)
              else if now = word_of_nat (pipe_count b2) then Next_enter_pipes
              else Next_none))"

text \<open>\<^verbatim>\<open>settle\<close>: the slim path of a graph node's block, then the generic one (first settle wins).\<close>

definition settle :: "tcb \<Rightarrow> bool \<Rightarrow> (tcb \<times> settle_effects) result" where
  "settle b cancel =
     (if fl_borrowed (flags b)
      then (if nested_parent b \<noteq> None \<or> continuations b \<noteq> [] then Inl Slim_completion
            else Inr (b\<lparr>completed := True, cancelled := cancel, ready := True\<rparr>,
                      no_effects\<lparr>eff_on_complete := has_on_complete b\<rparr>))
      else if completed b then Inr (b, no_effects)
      else Inr (b\<lparr>completed := True, cancelled := cancel, ready := True, continuations := [],
                  nested_parent := None\<rparr>,
                \<lparr>eff_notify = True,
                 eff_conts = map (\<lambda>c. (c, if cancel then None else result_ptr b, cancel))
                   (continuations b),
                 eff_parent = map_option (\<lambda>p. (p, cancel)) (nested_parent b),
                 eff_on_complete = has_on_complete b\<rparr>))"

text \<open>\<^verbatim>\<open>attach\<close>: queue the continuation, or run it at once when the block has settled.\<close>

definition attach :: "tcb \<Rightarrow> nat \<Rightarrow> tcb \<times> (nat \<times> nat option \<times> bool) list" where
  "attach b c =
     (if \<not> completed b then (b\<lparr>continuations := continuations b @ [c]\<rparr>, [])
      else (b, [(c, if cancelled b then None else result_ptr b, cancelled b)]))"

definition reset :: "tcb \<Rightarrow> tcb result" where
  "reset b =
     (if \<not> completed b then Inl Reset_unsettled
      else Inr (b\<lparr>body_claimed := False, completed := False, cancelled := False,
                  prereq_cancelled := False, num_locks := 0, result_consumed := False,
                  ready := False\<rparr>))"

text \<open>
  \<^verbatim>\<open>Executable::run\<close> around the user body: the part before the call either settles the block
  cancelled or switches the counter to completion-lock mode; the part after it stores the result,
  drops the self-lock and completes unless nested work is pending.
\<close>

datatype run_start = Start_cancel "tcb \<times> settle_effects" | Start_body tcb

definition run_begin :: "tcb \<Rightarrow> bool \<Rightarrow> run_start result" where
  "run_begin b token_requested =
     (case claim b of
        Inl e \<Rightarrow> Inl e
      | Inr b1 \<Rightarrow>
          if token_requested \<or> prereq_cancelled b1
          then (case settle b1 True of Inl e \<Rightarrow> Inl e | Inr r \<Rightarrow> Inr (Start_cancel r))
          else Inr (Start_body (b1\<lparr>num_locks := execution_flag + 1\<rparr>)))"

definition run_end :: "tcb \<Rightarrow> nat option \<Rightarrow> (tcb \<times> settle_effects) result" where
  "run_end b result =
     (let b1 = (case result of None \<Rightarrow> b | Some r \<Rightarrow> b\<lparr>result_ptr := Some r\<rparr>);
          b2 = b1\<lparr>num_locks := num_locks b1 - 1\<rparr>
      in if num_locks b1 = execution_flag + 1 then settle b2 False else Inr (b2, no_effects))"

text \<open>
  \<^verbatim>\<open>add_nested\<close>: a completion lock on the running parent, and the child's single parent slot; a
  child that has already settled gives the lock back at once.
\<close>

definition add_nested ::
  "(block_id \<times> tcb) option \<Rightarrow> tcb \<Rightarrow> (tcb \<times> tcb \<times> release_next) result" where
  "add_nested running child =
     (case running of
        None \<Rightarrow> Inl Nested_outside_task
      | Some (pid, parent) \<Rightarrow>
          let parent1 = parent\<lparr>num_locks := num_locks parent + 1\<rparr> in
          if nested_parent child \<noteq> None then Inl Already_gated
          else if \<not> completed child
            then Inr (parent1, child\<lparr>nested_parent := Some pid\<rparr>, Next_none)
          else (case release_lock parent1 False of (parent2, nxt) \<Rightarrow> Inr (parent2, child, nxt)))"

text \<open>\<^verbatim>\<open>resolved_priority\<close>: an explicit option, else the running task's priority, else normal.\<close>

definition resolved_priority :: "priority option \<Rightarrow> tcb option \<Rightarrow> priority" where
  "resolved_priority requested running =
     (case requested of
        Some p \<Rightarrow> p
      | None \<Rightarrow> (case running of Some b \<Rightarrow> fl_priority (flags b) | None \<Rightarrow> Normal))"

text \<open>\<^verbatim>\<open>intrusive_inc\<close> and \<^verbatim>\<open>intrusive_dec\<close>; the flag says the block is handed to the destroy queue.\<close>

definition intrusive_inc :: "tcb \<Rightarrow> tcb" where
  "intrusive_inc b = b\<lparr>refcount := refcount b + 1\<rparr>"

definition intrusive_dec :: "tcb \<Rightarrow> tcb \<times> bool" where
  "intrusive_dec b = (b\<lparr>refcount := refcount b - 1\<rparr>, refcount b = 1)"

text \<open>
  \<^verbatim>\<open>wait\<close> with the deadlock net: each poll of \<^verbatim>\<open>done_cv.wait_for\<close> either finds the block settled,
  or samples quiescence. \<open>samples\<close> is what successive polls observe.
\<close>

datatype wait_outcome = Wait_returned | Wait_deadlock | Wait_blocked

definition deadlock_net_polls :: nat where
  "deadlock_net_polls = 8"

fun net_wait :: "nat \<Rightarrow> (bool \<times> bool) list \<Rightarrow> wait_outcome" where
  "net_wait quiet [] = Wait_blocked"
| "net_wait quiet ((done, quiescent) # samples) =
     (if done then Wait_returned
      else let quiet' = (if quiescent then Suc quiet else 0) in
        if quiet' \<ge> deadlock_net_polls then Wait_deadlock else net_wait quiet' samples)"

lemmas block_op_defs [block_defs] =
  claim_def release_lock_def settle_def attach_def reset_def run_begin_def run_end_def
  add_nested_def no_effects_def intrusive_inc_def intrusive_dec_def

section \<open>The lock counter before execution\<close>

text \<open>A run of \<open>n\<close> successive releases and what each of them triggers.\<close>

fun releases :: "nat \<Rightarrow> tcb \<Rightarrow> tcb \<times> release_next list" where
  "releases 0 b = (b, [])"
| "releases (Suc n) b =
     (let (b1, nx) = release_lock b False; (b2, nxs) = releases n b1 in (b2, nx # nxs))"

lemma word_of_nat_eq_32:
  "m < 2 ^ 32 \<Longrightarrow> n < 2 ^ 32 \<Longrightarrow> (word_of_nat m :: 32 word) = word_of_nat n \<longleftrightarrow> m = n"
  by (simp add: word_of_nat_eq_iff take_bit_nat_eq_self)

lemma execution_flag_nat: "execution_flag = word_of_nat (2 ^ 31)"
  by (simp add: execution_flag_def)

lemma release_lock_pre:
  assumes "num_locks b = word_of_nat (Suc m)" and "Suc m < 2 ^ 31" and "pipe_count b < 2 ^ 31"
  shows "release_lock b False =
    (b\<lparr>num_locks := word_of_nat m\<rparr>,
     if m = 0 then Next_dispatch else if m = pipe_count b then Next_enter_pipes else Next_none)"
proof -
  have dec: "num_locks b - 1 = word_of_nat m" using assms(1) by simp
  have flag: "word_of_nat m \<noteq> execution_flag"
    unfolding execution_flag_nat using assms(2) by (subst word_of_nat_eq_32) auto
  have zero: "(word_of_nat m :: 32 word) = 0 \<longleftrightarrow> m = 0"
    using word_of_nat_eq_32 [of m 0] assms(2) by simp
  have cnt: "(word_of_nat m :: 32 word) = word_of_nat (pipe_count b) \<longleftrightarrow> m = pipe_count b"
    using assms(2,3) by (intro word_of_nat_eq_32) auto
  show ?thesis
    by (simp add: release_lock_def Let_def assms(1) flag zero cnt)
qed

lemma releases_pre:
  assumes "num_locks b = word_of_nat m" and "m < 2 ^ 31" and "pipe_count b < 2 ^ 31"
  shows "snd (releases m b) =
    map (\<lambda>j. if j = 0 then Next_dispatch else if j = pipe_count b then Next_enter_pipes else Next_none)
      (rev [0..<m])"
  using assms
proof (induction m arbitrary: b)
  case 0
  then show ?case by simp
next
  case (Suc m)
  note r = release_lock_pre [OF Suc.prems(1)]
  have "snd (releases m (b\<lparr>num_locks := word_of_nat m\<rparr>)) =
     map (\<lambda>j. if j = 0 then Next_dispatch else if j = pipe_count b then Next_enter_pipes else Next_none)
      (rev [0..<m])"
    using Suc.IH [of "b\<lparr>num_locks := word_of_nat m\<rparr>"] Suc.prems by simp
  then show ?case
    using Suc.prems by (simp add: Let_def case_prod_beta r)
qed

text \<open>
  The pre-execution lock protocol. A task created with \<open>k > 0\<close> ordinary prerequisites and \<open>n\<close> pipe
  links has \<open>k + n\<close> locks. Whatever the releases are and whichever thread performs them, exactly one
  of the \<open>k + n\<close> releases enters the pipes (the \<open>k\<close>-th, when there are pipes), exactly one
  dispatches the task (the last), and all others trigger nothing.
\<close>

theorem release_triggers_exact:
  assumes "num_locks b = word_of_nat (k + n)" and "pipe_count b = n" and "0 < k" and "k + n < 2 ^ 31"
  shows "snd (releases (k + n) b) =
    (if n = 0 then replicate (k - 1) Next_none @ [Next_dispatch]
     else replicate (k - 1) Next_none @ [Next_enter_pipes] @ replicate (n - 1) Next_none
            @ [Next_dispatch])"
proof -
  let ?f = "\<lambda>j. if j = 0 then Next_dispatch else if j = n then Next_enter_pipes else Next_none"
  have "snd (releases (k + n) b) = map ?f (rev [0..<k + n])"
    using releases_pre [of b "k + n"] assms by simp
  also have "[0..<k + n] = [0..<n] @ n # [Suc n..<k + n]"
    using upt_add_eq_append [of 0 n k] upt_conv_Cons [of n "n + k"] assms(3)
    by (simp add: add.commute)
  also have "map ?f (rev ([0..<n] @ n # [Suc n..<k + n])) =
      map ?f (rev [Suc n..<k + n]) @ ?f n # map ?f (rev [0..<n])"
    by simp
  also have "map ?f (rev [Suc n..<k + n]) = replicate (k - 1) Next_none"
    by (intro replicate_eqI) auto
  also have "map ?f (rev [0..<n]) =
      (if n = 0 then [] else replicate (n - 1) Next_none @ [Next_dispatch])"
  proof (cases n)
    case (Suc m)
    have "[0..<n] = 0 # [1..<n]" using Suc by (simp add: upt_conv_Cons)
    moreover have "map ?f (rev [1..<n]) = replicate (n - 1) Next_none"
      by (intro replicate_eqI) auto
    ultimately show ?thesis using Suc by simp
  qed simp
  finally show ?thesis by simp
qed

definition demo_block :: tcb where
  "demo_block = make_bare_block\<lparr>num_locks := 3, pipe_links :=
     [\<lparr>lk_owner = 1, lk_pipe = 4, lk_index = 0, lk_mode = Read_write\<rparr>]\<rparr>"

theorem release_triggers_exact_witness:
  "snd (releases 3 demo_block) = [Next_none, Next_enter_pipes, Next_dispatch]"
  using release_triggers_exact [of demo_block 2 1]
  by (simp add: demo_block_def numeral_3_eq_3)

section \<open>Completion: settle against attach\<close>

text \<open>
  One block under any interleaving of \<open>attach\<close> (awaiters) and \<open>settle\<close> (complete or cancel, from
  any thread): the continuations handed in and the ones fired, with their arguments.
\<close>

record settle_run =
  sr_block :: tcb
  sr_attached :: "nat list"
  sr_fired :: "(nat \<times> nat option \<times> bool) list"

inductive settle_step :: "settle_run \<Rightarrow> settle_run \<Rightarrow> bool" where
  settle_step_attach: "attach (sr_block s) c = (b', fs) \<Longrightarrow>
     settle_step s (s\<lparr>sr_block := b', sr_attached := sr_attached s @ [c], sr_fired := sr_fired s @ fs\<rparr>)"
| settle_step_settle: "settle (sr_block s) cancel = Inr (b', eff) \<Longrightarrow>
     settle_step s (s\<lparr>sr_block := b', sr_fired := sr_fired s @ eff_conts eff\<rparr>)"

inductive settle_reach :: "tcb \<Rightarrow> settle_run \<Rightarrow> bool" for b0 where
  settle_reach_init: "settle_reach b0 \<lparr>sr_block = b0, sr_attached = [], sr_fired = []\<rparr>"
| settle_reach_step: "settle_reach b0 s \<Longrightarrow> settle_step s t \<Longrightarrow> settle_reach b0 t"

definition outcome :: "tcb \<Rightarrow> nat option \<times> bool" where
  "outcome b = (if cancelled b then None else result_ptr b, cancelled b)"

definition settle_inv :: "settle_run \<Rightarrow> bool" where
  "settle_inv s \<longleftrightarrow>
     \<not> fl_borrowed (flags (sr_block s))
     \<and> map fst (sr_fired s) @ continuations (sr_block s) = sr_attached s
     \<and> (if completed (sr_block s)
        then continuations (sr_block s) = [] \<and> ready (sr_block s)
             \<and> (\<forall>f \<in> set (sr_fired s). snd f = outcome (sr_block s))
        else sr_fired s = [])"

lemma settle_inv_step: "settle_step s t \<Longrightarrow> settle_inv s \<Longrightarrow> settle_inv t"
  by (induction rule: settle_step.induct)
    (auto simp: settle_inv_def settle_def attach_def no_effects_def outcome_def comp_def
       split: if_splits)

lemma settle_inv_reach:
  assumes "settle_reach b0 s" and "\<not> completed b0" and "continuations b0 = []"
    and "\<not> fl_borrowed (flags b0)"
  shows "settle_inv s"
  using assms(1)
proof (induction rule: settle_reach.induct)
  case settle_reach_init
  show ?case using assms by (simp add: settle_inv_def)
next
  case (settle_reach_step s t)
  then show ?case by (blast intro: settle_inv_step)
qed

lemma settle_first_wins:
  assumes "settle_step s t" and "settle_inv s" and "completed (sr_block s)"
  shows "sr_block t = sr_block s"
  using assms
  by (induction rule: settle_step.induct)
    (auto simp: settle_inv_def settle_def attach_def split: if_splits)

text \<open>
  Completion reaches every awaiter exactly once. However attaches and settles (completions and
  cancellations, possibly several) interleave on a block, a continuation that was attached has
  fired exactly once, in attach order, if the block is settled, and not at all otherwise; all
  continuations saw one and the same outcome, that of the first settle, which no later step changes.
\<close>

theorem continuations_fire_once:
  assumes "settle_reach b0 s" and "\<not> completed b0" and "continuations b0 = []"
    and "\<not> fl_borrowed (flags b0)"
  shows "if completed (sr_block s)
     then map fst (sr_fired s) = sr_attached s
          \<and> (\<forall>f \<in> set (sr_fired s). snd f = outcome (sr_block s))
          \<and> (\<forall>t. settle_step s t \<longrightarrow> sr_block t = sr_block s)
     else sr_fired s = [] \<and> continuations (sr_block s) = sr_attached s"
proof -
  from settle_inv_reach [OF assms] have inv: "settle_inv s" .
  then show ?thesis
    using settle_first_wins [of s] by (auto simp: settle_inv_def)
qed

theorem continuations_fire_once_witness:
  "\<exists>s. settle_reach make_bare_block s \<and> sr_fired s = [(5, None, False), (6, None, False)]
     \<and> map fst (sr_fired s) = sr_attached s"
proof -
  let ?s0 = "\<lparr>sr_block = make_bare_block, sr_attached = [], sr_fired = []\<rparr>"
  let ?b1 = "make_bare_block\<lparr>continuations := [5]\<rparr>"
  let ?b2 = "make_bare_block\<lparr>completed := True, ready := True\<rparr>"
  have 1: "settle_step ?s0 \<lparr>sr_block = ?b1, sr_attached = [5], sr_fired = []\<rparr>"
    using settle_step_attach [of ?s0 5 ?b1 "[]"] by (simp add: attach_def make_bare_block_def)
  have 2: "settle_step \<lparr>sr_block = ?b1, sr_attached = [5], sr_fired = []\<rparr>
      \<lparr>sr_block = ?b2, sr_attached = [5], sr_fired = [(5, None, False)]\<rparr>"
    using settle_step_settle [of "\<lparr>sr_block = ?b1, sr_attached = [5], sr_fired = []\<rparr>" False ?b2]
    by (simp add: settle_def make_bare_block_def default_flags_def)
  have 3: "settle_step \<lparr>sr_block = ?b2, sr_attached = [5], sr_fired = [(5, None, False)]\<rparr>
      \<lparr>sr_block = ?b2, sr_attached = [5, 6], sr_fired = [(5, None, False), (6, None, False)]\<rparr>"
    using settle_step_attach [of "\<lparr>sr_block = ?b2, sr_attached = [5], sr_fired = [(5, None, False)]\<rparr>" 6]
    by (simp add: attach_def make_bare_block_def)
  have "settle_reach make_bare_block
      \<lparr>sr_block = ?b2, sr_attached = [5, 6], sr_fired = [(5, None, False), (6, None, False)]\<rparr>"
    by (rule settle_reach_step [OF settle_reach_step [OF settle_reach_step [OF settle_reach_init 1] 2] 3])
  from this continuations_fire_once [OF this] show ?thesis
    by (force simp: make_bare_block_def default_flags_def)
qed

section \<open>Completion locks: a running body and its nested children\<close>
















section \<open>The deadlock net\<close>

abbreviation quiet_poll :: "bool \<times> bool" where
  "quiet_poll \<equiv> (False, True)"

lemma net_wait_quiet_run:
  "quiet + n = deadlock_net_polls \<Longrightarrow> 0 < n \<Longrightarrow>
     net_wait quiet (replicate n quiet_poll @ post) = Wait_deadlock"
  by (induction n arbitrary: quiet) (auto simp: Let_def)

lemma net_wait_quiet_more:
  "quiet < deadlock_net_polls \<Longrightarrow>
     net_wait quiet (replicate deadlock_net_polls quiet_poll @ post) = Wait_deadlock"
proof -
  assume q: "quiet < deadlock_net_polls"
  let ?n = "deadlock_net_polls - quiet"
  have "replicate deadlock_net_polls quiet_poll = replicate ?n quiet_poll @ replicate quiet quiet_poll"
    using q by (simp flip: replicate_add)
  with net_wait_quiet_run [of quiet ?n "replicate quiet quiet_poll @ post"] q show ?thesis by simp
qed

lemma net_wait_complete:
  "\<forall>x \<in> set pre. \<not> fst x \<Longrightarrow> quiet < deadlock_net_polls \<Longrightarrow>
     net_wait quiet (pre @ replicate deadlock_net_polls quiet_poll @ post) = Wait_deadlock"
  by (induction pre arbitrary: quiet)
    (use deadlock_net_polls_def in \<open>auto simp: Let_def net_wait_quiet_more split: prod.splits\<close>)

lemma net_wait_sound:
  "net_wait quiet samples = Wait_deadlock \<Longrightarrow> quiet < deadlock_net_polls \<Longrightarrow>
     \<exists>pre post. replicate quiet quiet_poll @ samples = pre @ replicate deadlock_net_polls quiet_poll @ post
       \<and> (\<forall>x \<in> set pre. \<not> fst x)"
proof (induction quiet samples rule: net_wait.induct)
  case (1 quiet)
  then show ?case by simp
next
  case (2 quiet settled quiescent samples)
  have nd: "\<not> settled" using "2.prems"(1) by auto
  show ?case
  proof (cases "quiescent \<and> Suc quiet \<ge> deadlock_net_polls")
    case True
    with "2.prems"(2) have d: "deadlock_net_polls = Suc quiet" by simp
    have "replicate quiet quiet_poll @ (settled, quiescent) # samples =
        [] @ replicate deadlock_net_polls quiet_poll @ samples"
      using True nd unfolding d by (simp add: replicate_app_Cons_same)
    then show ?thesis by fastforce
  next
    case False
    let ?q = "if quiescent then Suc quiet else 0"
    have step: "net_wait ?q samples = Wait_deadlock" and lt: "?q < deadlock_net_polls"
      using "2.prems" nd False by (auto simp: Let_def deadlock_net_polls_def split: if_splits)
    with "2.IH" nd obtain pre post where eq:
        "replicate ?q quiet_poll @ samples = pre @ replicate deadlock_net_polls quiet_poll @ post"
        and pre: "\<forall>x \<in> set pre. \<not> fst x" by fastforce
    show ?thesis
    proof (cases quiescent)
      case True
      then have "replicate quiet quiet_poll @ (settled, quiescent) # samples =
          pre @ replicate deadlock_net_polls quiet_poll @ post"
        using eq nd by (simp add: replicate_app_Cons_same)
      with pre show ?thesis by blast
    next
      case False
      then have "replicate quiet quiet_poll @ (settled, quiescent) # samples =
          (replicate quiet quiet_poll @ (settled, quiescent) # pre) @
            replicate deadlock_net_polls quiet_poll @ post"
        using eq by simp
      moreover have "\<forall>x \<in> set (replicate quiet quiet_poll @ (settled, quiescent) # pre). \<not> fst x"
        using pre nd by auto
      ultimately show ?thesis by blast
    qed
  qed
qed

text \<open>
  The deadlock net. A blocked wait reports a deadlock exactly when some eight consecutive polls
  all found the task unsettled, every worker idle with empty queues and nothing outstanding outside
  the pool, and the task had not settled before that: one busy poll restarts the count, so the
  net neither fires early nor stays silent through a full quiet window.
\<close>

theorem deadlock_net_exact:
  "net_wait 0 samples = Wait_deadlock \<longleftrightarrow>
     (\<exists>pre post. samples = pre @ replicate deadlock_net_polls quiet_poll @ post
        \<and> \<not> (\<exists>x \<in> set pre. fst x))"
proof
  assume "net_wait 0 samples = Wait_deadlock"
  with net_wait_sound [of 0 samples] show "\<exists>pre post. samples =
      pre @ replicate deadlock_net_polls quiet_poll @ post \<and> \<not> (\<exists>x \<in> set pre. fst x)"
    by (force simp: deadlock_net_polls_def)
next
  assume "\<exists>pre post. samples = pre @ replicate deadlock_net_polls quiet_poll @ post
      \<and> \<not> (\<exists>x \<in> set pre. fst x)"
  then show "net_wait 0 samples = Wait_deadlock"
    using net_wait_complete [of _ 0] by (force simp: deadlock_net_polls_def)
qed

end
