(* ===== verification/Pipe_Cascade.thy ===== *)
theory Pipe_Cascade
  imports Task_Block
begin

text \<open>
  Multi-object tasks: the sequential canonical cascade of src/guarded.cpp over any number of pipes
  and any number of concurrently launched tasks. An admitted link's turn enters the owner's next link
  and releases one lock of the owner (\<^verbatim>\<open>fire_task_turn\<close>); the last turn dispatches the task; its settle
  advances every entered link (\<^verbatim>\<open>advance_pipe_links\<close>), which admits successors (\<^verbatim>\<open>fire_granted\<close>).

  A state holds the pipes, the blocks and the multiset of pending actions: each is a point where some
  thread is about to run one critical section or one atomic operation. A step runs any one of them,
  so the model has every interleaving of the program's threads (it also lets the actions of one
  thread run in any order, which only adds behaviours).
\<close>

section \<open>State\<close>

datatype action =
    A_enter pipe_link
  | A_fire pipe_link
  | A_turn pipe_link
  | A_dispatch block_id
  | A_body block_id
  | A_advance pipe_link

text \<open>
  The last four fields are bookkeeping for the statements: who holds each pipe, where each task is,
  and which of its turns and advances have been carried out. No operation reads them.
\<close>

datatype phase =
    Unlaunched | Entering nat | Queued nat | Admitted nat | Cascaded | Dispatched | Running | Settled

record cascade =
  cs_pipes :: "pipe_id \<Rightarrow> pipe"
  cs_blocks :: "block_id \<Rightarrow> tcb"
  cs_pend :: "action multiset"
  cs_holders :: "pipe_id \<Rightarrow> pipe_entry multiset"
  cs_phase :: "block_id \<Rightarrow> phase"
  cs_turned :: "block_id \<Rightarrow> nat set"
  cs_advanced :: "block_id \<Rightarrow> nat set"

section \<open>Operations\<close>

text \<open>
  \<^verbatim>\<open>make_piped_executable\<close> and \<^verbatim>\<open>bind_pipe_link\<close>: a block with a body, the links-advancing completion
  hook and one lock per link.
\<close>

definition make_piped :: "pipe_link list \<Rightarrow> tcb" where
  "make_piped ls = make_bare_block\<lparr>has_execute := True, has_on_complete := True, pipe_links := ls,
     num_locks := word_of_nat (length ls)\<rparr>"

text \<open>The binding contract: own links, indexed in order, in ascending pipe-address order.\<close>

definition canonical_links :: "block_id \<Rightarrow> pipe_link list \<Rightarrow> bool" where
  "canonical_links b ls \<longleftrightarrow>
     length ls < 2 ^ 8
     \<and> (\<forall>i < length ls. lk_owner (ls ! i) = b \<and> lk_index (ls ! i) = i)
     \<and> sorted_wrt (<) (map lk_pipe ls)"

text \<open>What the cascade needs of a block that is launched: one lock per link, nothing claimed or settled.\<close>

definition fresh_piped :: "block_id \<Rightarrow> tcb \<Rightarrow> bool" where
  "fresh_piped b blk \<longleftrightarrow> canonical_links b (pipe_links blk) \<and> has_on_complete blk
     \<and> num_locks blk = word_of_nat (pipe_count blk) \<and> pipes_entered blk = 0
     \<and> \<not> prereq_cancelled blk \<and> \<not> body_claimed blk \<and> \<not> completed blk \<and> \<not> cancelled blk
     \<and> (fl_borrowed (flags blk) \<longrightarrow> nested_parent blk = None \<and> continuations blk = [])"

text \<open>\<^verbatim>\<open>pipe_enter_first\<close> for a block with links, the plain submit for one without.\<close>

definition launch_task :: "block_id \<Rightarrow> tcb \<Rightarrow> cascade \<Rightarrow> cascade" where
  "launch_task b blk s = s\<lparr>
     cs_blocks := (cs_blocks s)(b := blk),
     cs_pend := cs_pend s
       + (case pipe_links blk of [] \<Rightarrow> {#A_dispatch b#} | l # _ \<Rightarrow> {#A_enter l#}),
     cs_phase := (cs_phase s)(b := (if pipe_links blk = [] then Dispatched else Entering 0)),
     cs_turned := (cs_turned s)(b := {}),
     cs_advanced := (cs_advanced s)(b := {})\<rparr>"

text \<open>\<^verbatim>\<open>pipe_enter_link\<close>: one critical section of the link's pipe.\<close>

definition pipe_enter_link :: "pipe_link \<Rightarrow> cascade \<Rightarrow> cascade" where
  "pipe_enter_link l s =
     (let p = lk_pipe l; b = lk_owner l; (p', now) = pipe_enter (cs_pipes s p) (Task_link l)
      in s\<lparr>cs_pipes := (cs_pipes s)(p := p'),
           cs_blocks := (cs_blocks s)(b := (cs_blocks s b)\<lparr>pipes_entered := lk_index l + 1\<rparr>),
           cs_pend := cs_pend s - {#A_enter l#} + (if now then {#A_fire l#} else {#}),
           cs_holders := (cs_holders s)(p :=
             if now then add_mset (Task_link l) (cs_holders s p) else cs_holders s p),
           cs_phase := (cs_phase s)(b := (if now then Admitted (lk_index l) else Queued (lk_index l)))\<rparr>)"

text \<open>\<^verbatim>\<open>fire_task_turn\<close>: enter the owner's next link, if any, and release one lock of the owner.\<close>

definition fire_task_turn :: "pipe_link \<Rightarrow> cascade \<Rightarrow> cascade" where
  "fire_task_turn l s =
     (let b = lk_owner l; i = lk_index l; ls = pipe_links (cs_blocks s b)
      in s\<lparr>cs_pend := cs_pend s - {#A_fire l#}
             + (if i + 1 < length ls then {#A_enter (ls ! (i + 1))#} else {#}) + {#A_turn l#},
           cs_phase := (cs_phase s)(b := (if i + 1 < length ls then Entering (i + 1) else Cascaded))\<rparr>)"

definition follow_up :: "tcb \<Rightarrow> block_id \<Rightarrow> release_next \<Rightarrow> action multiset" where
  "follow_up blk b nxt =
     (case nxt of
        Next_dispatch \<Rightarrow> {#A_dispatch b#}
      | Next_enter_pipes \<Rightarrow> {#A_enter (pipe_links blk ! 0)#}
      | _ \<Rightarrow> {#})"

definition turn_release :: "pipe_link \<Rightarrow> cascade \<Rightarrow> cascade" where
  "turn_release l s =
     (let b = lk_owner l; (blk, nxt) = release_lock (cs_blocks s b) False
      in s\<lparr>cs_blocks := (cs_blocks s)(b := blk),
           cs_pend := cs_pend s - {#A_turn l#} + follow_up blk b nxt,
           cs_turned := (cs_turned s)(b := insert (lk_index l) (cs_turned s b)),
           cs_phase := (if nxt = Next_dispatch then (cs_phase s)(b := Dispatched) else cs_phase s)\<rparr>)"

text \<open>\<^verbatim>\<open>advance_pipe_links\<close> releases links \<open>[0, pipes_entered)\<close>; one action per link.\<close>

definition advance_actions :: "tcb \<Rightarrow> action multiset" where
  "advance_actions blk = mset (map A_advance (take (pipes_entered blk) (pipe_links blk)))"

text \<open>The dispatch of a queued block: the body starts, or a requested token settles it cancelled.\<close>

definition run_dispatch :: "block_id \<Rightarrow> bool \<Rightarrow> cascade \<Rightarrow> cascade result" where
  "run_dispatch b token s =
     (case run_begin (cs_blocks s b) token of
        Inl e \<Rightarrow> Inl e
      | Inr (Start_body blk) \<Rightarrow> Inr (s\<lparr>cs_blocks := (cs_blocks s)(b := blk),
          cs_pend := cs_pend s - {#A_dispatch b#} + {#A_body b#},
          cs_phase := (cs_phase s)(b := Running)\<rparr>)
      | Inr (Start_cancel (blk, eff)) \<Rightarrow> Inr (s\<lparr>cs_blocks := (cs_blocks s)(b := blk),
          cs_pend := cs_pend s - {#A_dispatch b#}
            + (if eff_on_complete eff then advance_actions blk else {#}),
          cs_phase := (cs_phase s)(b := Settled)\<rparr>))"

definition run_finish :: "block_id \<Rightarrow> nat option \<Rightarrow> cascade \<Rightarrow> cascade result" where
  "run_finish b result s =
     (case run_end (cs_blocks s b) result of
        Inl e \<Rightarrow> Inl e
      | Inr (blk, eff) \<Rightarrow> Inr (s\<lparr>cs_blocks := (cs_blocks s)(b := blk),
          cs_pend := cs_pend s - {#A_body b#}
            + (if eff_on_complete eff then advance_actions blk else {#}),
          cs_phase := (cs_phase s)(b := Settled)\<rparr>))"

fun task_links :: "pipe_entry list \<Rightarrow> pipe_link list" where
  "task_links [] = []"
| "task_links (Task_link l # es) = l # task_links es"
| "task_links (Hold n # es) = task_links es"

text \<open>One link's \<^verbatim>\<open>release_and_redispatch\<close>, its granted entries handed to \<^verbatim>\<open>fire_granted\<close>.\<close>

definition advance_link :: "pipe_link \<Rightarrow> cascade \<Rightarrow> cascade" where
  "advance_link l s =
     (let p = lk_pipe l; b = lk_owner l;
          (p', gs, idle) = release_and_redispatch (cs_pipes s p) (lk_mode l)
      in s\<lparr>cs_pipes := (cs_pipes s)(p := p'),
           cs_pend := cs_pend s - {#A_advance l#} + mset (map A_fire (task_links gs)),
           cs_holders := (cs_holders s)(p := cs_holders s p - {#Task_link l#} + mset gs),
           cs_phase := (\<lambda>b'. if \<exists>g \<in> set (task_links gs). lk_owner g = b' then
               (case cs_phase s b' of Queued i \<Rightarrow> Admitted i | ph \<Rightarrow> ph) else cs_phase s b'),
           cs_advanced := (cs_advanced s)(b := insert (lk_index l) (cs_advanced s b))\<rparr>)"

section \<open>Steps\<close>

inductive cascade_step :: "cascade \<Rightarrow> cascade \<Rightarrow> bool" where
  c_enter: "A_enter l \<in># cs_pend s \<Longrightarrow> cascade_step s (pipe_enter_link l s)"
| c_fire: "A_fire l \<in># cs_pend s \<Longrightarrow> cascade_step s (fire_task_turn l s)"
| c_turn: "A_turn l \<in># cs_pend s \<Longrightarrow> cascade_step s (turn_release l s)"
| c_dispatch: "A_dispatch b \<in># cs_pend s \<Longrightarrow> run_dispatch b token s = Inr t \<Longrightarrow> cascade_step s t"
| c_finish: "A_body b \<in># cs_pend s \<Longrightarrow> run_finish b result s = Inr t \<Longrightarrow> cascade_step s t"
| c_advance: "A_advance l \<in># cs_pend s \<Longrightarrow> cascade_step s (advance_link l s)"

definition cascade_init :: "(pipe_id \<Rightarrow> nat) \<Rightarrow> cascade" where
  "cascade_init ranks = \<lparr>cs_pipes = (\<lambda>p. pipe_init (ranks p)), cs_blocks = (\<lambda>_. make_bare_block),
     cs_pend = {#}, cs_holders = (\<lambda>_. {#}), cs_phase = (\<lambda>_. Unlaunched), cs_turned = (\<lambda>_. {}),
     cs_advanced = (\<lambda>_. {})\<rparr>"

text \<open>Tasks may be launched at any moment, with any fresh block.\<close>

inductive cascade_reach :: "cascade \<Rightarrow> bool" where
  cr_init: "cascade_reach (cascade_init ranks)"
| cr_launch: "cascade_reach s \<Longrightarrow> cs_phase s b = Unlaunched \<Longrightarrow> fresh_piped b blk \<Longrightarrow>
     cascade_reach (launch_task b blk s)"
| cr_step: "cascade_reach s \<Longrightarrow> cascade_step s t \<Longrightarrow> cascade_reach t"

section \<open>The invariant\<close>

text \<open>How many turns of a task have been fired, and how many of its links are held, at a phase.\<close>

fun fired_upto :: "nat \<Rightarrow> phase \<Rightarrow> nat" where
  "fired_upto n Unlaunched = 0"
| "fired_upto n (Entering i) = i"
| "fired_upto n (Queued i) = i"
| "fired_upto n (Admitted i) = i"
| "fired_upto n _ = n"

fun held_upto :: "nat \<Rightarrow> phase \<Rightarrow> nat" where
  "held_upto n Unlaunched = 0"
| "held_upto n (Entering i) = i"
| "held_upto n (Queued i) = i"
| "held_upto n (Admitted i) = Suc i"
| "held_upto n _ = n"

fun entered_upto :: "nat \<Rightarrow> phase \<Rightarrow> nat" where
  "entered_upto n Unlaunched = 0"
| "entered_upto n (Entering i) = i"
| "entered_upto n (Queued i) = Suc i"
| "entered_upto n (Admitted i) = Suc i"
| "entered_upto n _ = n"

fun phase_index_ok :: "nat \<Rightarrow> phase \<Rightarrow> bool" where
  "phase_index_ok n (Entering i) = (i < n)"
| "phase_index_ok n (Queued i) = (i < n)"
| "phase_index_ok n (Admitted i) = (i < n)"
| "phase_index_ok n _ = True"

definition links_of :: "cascade \<Rightarrow> block_id \<Rightarrow> pipe_link list" where
  "links_of s b = pipe_links (cs_blocks s b)"

definition is_link :: "cascade \<Rightarrow> pipe_link \<Rightarrow> bool" where
  "is_link s l \<longleftrightarrow> cs_phase s (lk_owner l) \<noteq> Unlaunched
     \<and> lk_index l < length (links_of s (lk_owner l)) \<and> links_of s (lk_owner l) ! lk_index l = l"

abbreviation phase_of :: "cascade \<Rightarrow> pipe_link \<Rightarrow> phase" where
  "phase_of s l \<equiv> cs_phase s (lk_owner l)"

abbreviation width_of :: "cascade \<Rightarrow> pipe_link \<Rightarrow> nat" where
  "width_of s l \<equiv> length (links_of s (lk_owner l))"

fun expected :: "cascade \<Rightarrow> action \<Rightarrow> bool" where
  "expected s (A_enter l) = (is_link s l \<and> phase_of s l = Entering (lk_index l))"
| "expected s (A_fire l) = (is_link s l \<and> phase_of s l = Admitted (lk_index l))"
| "expected s (A_turn l) = (is_link s l \<and> lk_index l < fired_upto (width_of s l) (phase_of s l)
     \<and> lk_index l \<notin> cs_turned s (lk_owner l))"
| "expected s (A_dispatch b) = (cs_phase s b = Dispatched)"
| "expected s (A_body b) = (cs_phase s b = Running)"
| "expected s (A_advance l) = (is_link s l \<and> phase_of s l = Settled
     \<and> lk_index l \<notin> cs_advanced s (lk_owner l))"

fun holds_pipe :: "cascade \<Rightarrow> pipe_id \<Rightarrow> pipe_entry \<Rightarrow> bool" where
  "holds_pipe s p (Task_link l) = (is_link s l \<and> lk_pipe l = p
     \<and> lk_index l < held_upto (width_of s l) (phase_of s l)
     \<and> lk_index l \<notin> cs_advanced s (lk_owner l))"
| "holds_pipe s p (Hold n) = False"

fun waits_pipe :: "cascade \<Rightarrow> pipe_id \<Rightarrow> pipe_entry \<Rightarrow> bool" where
  "waits_pipe s p (Task_link l) = (is_link s l \<and> lk_pipe l = p \<and> phase_of s l = Queued (lk_index l))"
| "waits_pipe s p (Hold n) = False"

text \<open>What a block's own fields say at a phase.\<close>

definition block_ok :: "nat set \<Rightarrow> nat set \<Rightarrow> phase \<Rightarrow> block_id \<Rightarrow> tcb \<Rightarrow> bool" where
  "block_ok turned advanced ph b blk \<longleftrightarrow>
     (let n = length (pipe_links blk) in
      canonical_links b (pipe_links blk) \<and> phase_index_ok n ph
      \<and> has_on_complete blk \<and> \<not> prereq_cancelled blk
      \<and> (fl_borrowed (flags blk) \<longrightarrow> nested_parent blk = None \<and> continuations blk = [])
      \<and> (ph \<noteq> Settled \<longrightarrow> \<not> cancelled blk)
      \<and> pipes_entered blk = entered_upto n ph
      \<and> turned \<subseteq> {..<fired_upto n ph} \<and> advanced \<subseteq> {..<n}
      \<and> (ph \<noteq> Settled \<longrightarrow> advanced = {})
      \<and> completed blk = (ph = Settled)
      \<and> body_claimed blk = (ph = Running \<or> ph = Settled)
      \<and> (ph \<in> {Dispatched, Running, Settled} \<longrightarrow> turned = {..<n})
      \<and> (ph = Cascaded \<longrightarrow> turned \<noteq> {..<n})
      \<and> (ph \<notin> {Dispatched, Running, Settled} \<longrightarrow> num_locks blk = word_of_nat (n - card turned))
      \<and> (ph = Running \<longrightarrow> num_locks blk = execution_flag + 1))"

definition blocks_ok :: "cascade \<Rightarrow> bool" where
  "blocks_ok s \<longleftrightarrow> finite {b. cs_phase s b \<noteq> Unlaunched}
     \<and> (\<forall>b. cs_phase s b \<noteq> Unlaunched \<longrightarrow>
          block_ok (cs_turned s b) (cs_advanced s b) (cs_phase s b) b (cs_blocks s b))"

definition pend_ok :: "cascade \<Rightarrow> bool" where
  "pend_ok s \<longleftrightarrow> (\<forall>a. count (cs_pend s) a = (if expected s a then 1 else 0))"

definition pipes_ok :: "cascade \<Rightarrow> bool" where
  "pipes_ok s \<longleftrightarrow> (\<forall>p. pipe_inv (cs_pipes s p) (cs_holders s p)
     \<and> (\<forall>e. count (cs_holders s p) e = (if holds_pipe s p e then 1 else 0))
     \<and> (\<forall>e. count (mset (pp_queue (cs_pipes s p))) e = (if waits_pipe s p e then 1 else 0)))"

definition cascade_inv :: "cascade \<Rightarrow> bool" where
  "cascade_inv s \<longleftrightarrow> blocks_ok s \<and> pend_ok s \<and> pipes_ok s"

lemma cascade_inv_init: "cascade_inv (cascade_init ranks)"
proof -
  have "\<not> is_link (cascade_init ranks) l" for l
    by (simp add: is_link_def cascade_init_def)
  then have "\<not> expected (cascade_init ranks) a" for a
    by (cases a) (simp_all, simp_all add: cascade_init_def)
  moreover have "\<not> holds_pipe (cascade_init ranks) p e" "\<not> waits_pipe (cascade_init ranks) p e" for p e
    using \<open>\<And>l. \<not> is_link (cascade_init ranks) l\<close> by (cases e; simp)+
  ultimately show ?thesis
    by (simp add: cascade_inv_def blocks_ok_def pend_ok_def pipes_ok_def)
      (simp add: cascade_init_def pipe_inv_init, simp add: pipe_init_def)
qed

lemma is_link_unique:
  "is_link s l \<Longrightarrow> is_link s l' \<Longrightarrow> lk_owner l' = lk_owner l \<Longrightarrow> lk_index l' = lk_index l \<Longrightarrow> l' = l"
  by (auto simp: is_link_def)

lemma is_link_index_lt: "is_link s l \<Longrightarrow> lk_index l < length (links_of s (lk_owner l))"
  by (simp add: is_link_def)

lemma is_link_index_iff:
  "is_link s l \<Longrightarrow> is_link s x \<Longrightarrow> lk_owner x = lk_owner l \<Longrightarrow> lk_index x = lk_index l \<longleftrightarrow> x = l"
  by (metis is_link_unique)

lemma is_link_cong:
  "links_of t = links_of s \<Longrightarrow> (\<And>b. cs_phase t b = Unlaunched \<longleftrightarrow> cs_phase s b = Unlaunched) \<Longrightarrow>
     is_link t = is_link s"
  by (auto simp: is_link_def fun_eq_iff)

lemma pend_count: "pend_ok s \<Longrightarrow> count (cs_pend s) a = (if expected s a then 1 else 0)"
  by (simp add: pend_ok_def)

lemma pipes_okD:
  assumes "pipes_ok s"
  shows "pipe_inv (cs_pipes s p) (cs_holders s p)"
    and "count (cs_holders s p) e = (if holds_pipe s p e then 1 else 0)"
    and "count (mset (pp_queue (cs_pipes s p))) e = (if waits_pipe s p e then 1 else 0)"
  using assms by (auto simp: pipes_ok_def)

lemma pend_expected: "pend_ok s \<Longrightarrow> a \<in># cs_pend s \<longleftrightarrow> expected s a"
  unfolding pend_ok_def by (metis count_eq_zero_iff zero_neq_one)

lemma blocks_okD:
  "blocks_ok s \<Longrightarrow> cs_phase s b \<noteq> Unlaunched \<Longrightarrow>
     block_ok (cs_turned s b) (cs_advanced s b) (cs_phase s b) b (cs_blocks s b)"
  by (simp add: blocks_ok_def)

text \<open>A step that changes one launched block's own data keeps \<open>blocks_ok\<close> if it keeps that block.\<close>

lemma blocks_ok_set:
  assumes "blocks_ok s"
    and "block_ok (cs_turned t b) (cs_advanced t b) (cs_phase t b) b (cs_blocks t b)"
    and "\<And>b'. b' \<noteq> b \<Longrightarrow> cs_phase t b' = cs_phase s b' \<and> cs_blocks t b' = cs_blocks s b'
      \<and> cs_turned t b' = cs_turned s b' \<and> cs_advanced t b' = cs_advanced s b'"
  shows "blocks_ok t"
proof -
  have "{b. cs_phase t b \<noteq> Unlaunched} \<subseteq> insert b {b. cs_phase s b \<noteq> Unlaunched}"
    using assms(3) by auto
  then have "finite {b. cs_phase t b \<noteq> Unlaunched}"
    using assms(1) by (auto simp: blocks_ok_def intro: finite_subset)
  moreover have "block_ok (cs_turned t b') (cs_advanced t b') (cs_phase t b') b' (cs_blocks t b')"
    if "cs_phase t b' \<noteq> Unlaunched" for b'
    using that assms by (cases "b' = b") (auto simp: blocks_ok_def)
  ultimately show ?thesis by (simp add: blocks_ok_def)
qed

text \<open>A step consumes one pending action and adds new ones, none of which was pending.\<close>

lemma pend_ok_step:
  assumes "pend_ok s" and "cs_pend t = cs_pend s - {#a0#} + mset new" and "distinct new"
    and "\<And>a. a \<in> set new \<Longrightarrow> \<not> expected s a"
    and "\<And>a. expected t a \<longleftrightarrow> expected s a \<and> a \<noteq> a0 \<or> a \<in> set new"
  shows "pend_ok t"
  unfolding pend_ok_def
proof
  fix a
  have "count (mset new) a = (if a \<in> set new then 1 else 0)"
    using assms(3) by (simp add: distinct_count_atmost_1)
  then show "count (cs_pend t) a = (if expected t a then 1 else 0)"
    using assms(2,4,5) pend_count [OF assms(1)] by auto
qed

lemma pipes_ok_unchanged:
  assumes "pipes_ok s" and "cs_pipes t = cs_pipes s" and "cs_holders t = cs_holders s"
    and "\<And>p x. holds_pipe t p (Task_link x) \<longleftrightarrow> holds_pipe s p (Task_link x)"
    and "\<And>p x. waits_pipe t p (Task_link x) \<longleftrightarrow> waits_pipe s p (Task_link x)"
  shows "pipes_ok t"
proof -
  have "holds_pipe t p e = holds_pipe s p e" "waits_pipe t p e = waits_pipe s p e" for p e
    using assms(4,5) by (cases e; simp del: holds_pipe.simps(1) waits_pipe.simps(1))+
  with assms(1-3) show ?thesis by (simp add: pipes_ok_def)
qed

lemmas cascade_inv_parts = cascade_inv_def blocks_ok_def pend_ok_def pipes_ok_def

section \<open>Preservation, step by step\<close>

lemma enter_pipes_ok:
  assumes pi: "pipes_ok s" and en: "pipe_enter (cs_pipes s p0) (Task_link l) = (p', now)"
    and fld: "cs_pipes t = (cs_pipes s)(p0 := p')" "cs_holders t = (cs_holders s)(p0 :=
       if now then add_mset (Task_link l) (cs_holders s p0) else cs_holders s p0)"
    and hp: "\<And>p x. holds_pipe t p (Task_link x) \<longleftrightarrow>
       holds_pipe s p (Task_link x) \<or> now \<and> p = p0 \<and> x = l"
    and wp: "\<And>p x. waits_pipe t p (Task_link x) \<longleftrightarrow>
       waits_pipe s p (Task_link x) \<or> \<not> now \<and> p = p0 \<and> x = l"
    and not: "\<not> holds_pipe s p0 (Task_link l)" "\<not> waits_pipe s p0 (Task_link l)"
  shows "pipes_ok t"
proof -
  have pinv: "pipe_inv (cs_pipes s p0) (cs_holders s p0)" by (rule pipes_okD(1) [OF pi])
  note keeps = pw.enter_keeps [OF pinv en] and waits = pw.enter_waiting [OF pinv en]
  have now: "now \<Longrightarrow> pp_queue (cs_pipes s p0) = []" using pw.enter_now [OF pinv] en by auto
  have "pipe_inv (cs_pipes t p) (cs_holders t p)" for p
    using keeps pipes_okD(1) [OF pi] by (simp add: fld)
  moreover have "count (cs_holders t p) e = (if holds_pipe t p e then 1 else 0)" for p e
    using not pipes_okD(2) [OF pi, of p e]
    by (cases e) (auto simp: hp fld simp del: holds_pipe.simps(1))
  moreover have "count (mset (pp_queue (cs_pipes t p))) e = (if waits_pipe t p e then 1 else 0)" for p e
    using not waits now pipes_okD(3) [OF pi, of p e]
    by (cases e) (auto simp: wp fld simp del: waits_pipe.simps(1))
  ultimately show ?thesis by (simp add: pipes_ok_def)
qed

lemma cascade_inv_enter:
  assumes inv: "cascade_inv s" and pend: "A_enter l \<in># cs_pend s"
  shows "cascade_inv (pipe_enter_link l s)"
proof -
  let ?b = "lk_owner l" and ?p = "lk_pipe l" and ?i = "lk_index l"
  define t where "t = pipe_enter_link l s"
  have bo: "blocks_ok s" and po: "pend_ok s" and pi: "pipes_ok s"
    using inv by (auto simp: cascade_inv_def)
  have l: "is_link s l" and ph: "cs_phase s ?b = Entering ?i"
    using pend pend_expected [OF po] by auto
  obtain p' now where en: "pipe_enter (cs_pipes s ?p) (Task_link l) = (p', now)" by fastforce
  have fld: "cs_phase t = (cs_phase s)(?b := (if now then Admitted ?i else Queued ?i))"
    "cs_turned t = cs_turned s" "cs_advanced t = cs_advanced s" "cs_pipes t = (cs_pipes s)(?p := p')"
    "cs_blocks t = (cs_blocks s)(?b := (cs_blocks s ?b)\<lparr>pipes_entered := ?i + 1\<rparr>)"
    "cs_pend t = cs_pend s - {#A_enter l#} + mset (if now then [A_fire l] else [])"
    "cs_holders t = (cs_holders s)(?p :=
       if now then add_mset (Task_link l) (cs_holders s ?p) else cs_holders s ?p)"
    by (simp_all add: t_def pipe_enter_link_def Let_def en)
  have lo: "links_of t = links_of s" by (auto simp: fld links_of_def fun_eq_iff)
  have il: "is_link t = is_link s"
    by (rule is_link_cong [OF lo]) (use ph in \<open>auto simp: fld\<close>)
  have b: "block_ok (cs_turned s ?b) (cs_advanced s ?b) (Entering ?i) ?b (cs_blocks s ?b)"
    using blocks_okD [OF bo, of ?b] ph by simp
  then have adv: "cs_advanced s ?b = {}" by (simp add: block_ok_def Let_def)
  note uniq = is_link_unique [OF l]
  have "blocks_ok t"
    by (rule blocks_ok_set [OF bo, where b = ?b]) (use b ph in \<open>auto simp: fld block_ok_def Let_def\<close>)
  moreover have "expected t a \<longleftrightarrow> expected s a \<and> a \<noteq> A_enter l \<or>
      a \<in> set (if now then [A_fire l] else [])" for a
    using l ph uniq by (cases a) (auto simp: il lo fld)
  then have "pend_ok t"
    by (intro pend_ok_step [OF po fld(6)]) (use ph in auto)
  moreover have "holds_pipe t p (Task_link x) \<longleftrightarrow>
        holds_pipe s p (Task_link x) \<or> now \<and> p = ?p \<and> x = l"
      "waits_pipe t p (Task_link x) \<longleftrightarrow>
        waits_pipe s p (Task_link x) \<or> \<not> now \<and> p = ?p \<and> x = l" for x p
    using l ph adv uniq [of x] by (cases "lk_owner x = ?b"; auto simp: il lo fld less_Suc_eq)+
  then have "pipes_ok t"
    by (intro enter_pipes_ok [OF pi en fld(4,7)]) (use ph in auto)
  ultimately show ?thesis by (simp add: cascade_inv_def t_def)
qed

lemma cascade_inv_fire:
  assumes inv: "cascade_inv s" and pend: "A_fire l \<in># cs_pend s"
  shows "cascade_inv (fire_task_turn l s)"
proof -
  let ?b = "lk_owner l" and ?i = "lk_index l"
  let ?ls = "pipe_links (cs_blocks s ?b)"
  define t where "t = fire_task_turn l s"
  have bo: "blocks_ok s" and po: "pend_ok s" and pi: "pipes_ok s"
    using inv by (auto simp: cascade_inv_def)
  have l: "is_link s l" and ph: "cs_phase s ?b = Admitted ?i"
    using pend pend_expected [OF po] by auto
  let ?new = "(if ?i + 1 < length ?ls then [A_enter (?ls ! (?i + 1))] else []) @ [A_turn l]"
  have fld: "cs_phase t = (cs_phase s)(?b := (if ?i + 1 < length ?ls then Entering (?i + 1) else Cascaded))"
    "cs_turned t = cs_turned s" "cs_advanced t = cs_advanced s" "cs_pipes t = cs_pipes s"
    "cs_blocks t = cs_blocks s" "cs_holders t = cs_holders s"
    "cs_pend t = cs_pend s - {#A_fire l#} + mset ?new"
    by (simp_all add: t_def fire_task_turn_def Let_def)
  have lo: "links_of t = links_of s" by (auto simp: fld links_of_def)
  have il: "is_link t = is_link s"
    by (rule is_link_cong [OF lo]) (use ph in \<open>auto simp: fld\<close>)
  have b: "block_ok (cs_turned s ?b) (cs_advanced s ?b) (Admitted ?i) ?b (cs_blocks s ?b)"
    using blocks_okD [OF bo, of ?b] ph by simp
  have lenl: "links_of s ?b = ?ls" by (simp add: links_of_def)
  have next_link: "lk_owner (?ls ! (?i + 1)) = ?b" "lk_index (?ls ! (?i + 1)) = ?i + 1"
      "is_link s (?ls ! (?i + 1))" if "?i + 1 < length ?ls"
    using b that ph lenl by (auto simp: block_ok_def canonical_links_def is_link_def Let_def)
  note uniq = is_link_unique [OF l]
  have "blocks_ok t"
    by (rule blocks_ok_set [OF bo, where b = ?b])
      (use b ph in \<open>auto simp: fld block_ok_def Let_def\<close>)
  moreover have fresh: "?i \<notin> cs_turned s ?b" and ilt: "?i < length ?ls"
    using b by (auto simp: block_ok_def Let_def)
  have "expected t a \<longleftrightarrow> expected s a \<and> a \<noteq> A_fire l \<or> a \<in> set ?new" for a
  proof (cases a)
    case (A_enter x)
    have only: "x = ?ls ! (?i + 1)" if "is_link s x" "lk_owner x = ?b" "lk_index x = ?i + 1"
      using that lenl by (auto simp: is_link_def)
    show ?thesis
    proof (cases "?i + 1 < length ?ls")
      case True
      with A_enter ph only next_link [OF True] show ?thesis
        by (cases "lk_owner x = ?b") (auto simp: il fld)
    next
      case False
      with A_enter ph show ?thesis by (cases "lk_owner x = ?b") (auto simp: il fld)
    qed
  next
    case (A_turn x)
    show ?thesis
    proof (cases "is_link s x \<and> lk_owner x = ?b")
      case True
      then have "lk_index x < length ?ls" "lk_index x = ?i \<longleftrightarrow> x = l"
        using l is_link_index_lt [of s x] is_link_index_iff [OF l] lenl by simp_all
      with A_turn True ph fresh ilt lenl show ?thesis by (auto simp: il lo fld less_Suc_eq)
    next
      case False
      with A_turn l show ?thesis by (auto simp: il lo fld)
    qed
  qed (use l ph uniq in \<open>auto simp: il lo fld\<close>)
  then have "pend_ok t"
    by (intro pend_ok_step [OF po fld(7)]) (use ph b next_link in \<open>auto simp: block_ok_def Let_def\<close>)
  moreover have "pipes_ok t"
    by (rule pipes_ok_unchanged [OF pi fld(4,6)])
      (use l ph in \<open>auto simp: il lo fld lenl is_link_def\<close>)
  ultimately show ?thesis by (simp add: cascade_inv_def t_def)
qed

text \<open>A released turn: the block's counter is exactly the number of turns still to come.\<close>

lemma turn_block:
  assumes b: "block_ok turned adv ph b blk" and i: "i \<notin> turned" "i < fired_upto (pipe_count blk) ph"
    and ph: "ph \<noteq> Unlaunched" and rel: "release_lock blk False = (blk', nxt)"
  shows "nxt = (if insert i turned = {..<pipe_count blk} then Next_dispatch else Next_none)"
    and "block_ok (insert i turned) adv (if nxt = Next_dispatch then Dispatched else ph) b blk'"
    and "nxt = Next_dispatch \<Longrightarrow> ph = Cascaded"
    and "pipe_links blk' = pipe_links blk"
    and "ph \<notin> {Dispatched, Running, Settled}"
proof -
  let ?n = "pipe_count blk"
  have fin: "finite turned" and sub: "turned \<subseteq> {..<fired_upto ?n ph}" and len: "?n < 2 ^ 8"
    using b by (auto simp: block_ok_def Let_def canonical_links_def intro: finite_subset)
  have le: "fired_upto ?n ph \<le> ?n" using b by (cases ph) (auto simp: block_ok_def Let_def)
  show pre: "ph \<notin> {Dispatched, Running, Settled}"
    using b i le by (auto simp: block_ok_def Let_def)
  have subn: "insert i turned \<subseteq> {..<?n}" using sub i le by auto
  then have card: "Suc (card turned) \<le> ?n"
    using card_mono [OF _ subn] fin i by simp
  have all: "insert i turned = {..<?n} \<longleftrightarrow> ?n - card (insert i turned) = 0"
  proof
    assume "insert i turned = {..<?n}"
    then have "card (insert i turned) = ?n" by simp
    then show "?n - card (insert i turned) = 0" by simp
  next
    assume "?n - card (insert i turned) = 0"
    with card fin i show "insert i turned = {..<?n}" by (intro card_subset_eq [OF _ subn]) auto
  qed
  let ?m = "?n - card (insert i turned)"
  have "num_locks blk = word_of_nat (Suc ?m)"
    using b pre fin i card by (auto simp: block_ok_def Let_def Suc_diff_Suc)
  from release_lock_pre [OF this] rel len
  have r: "blk' = blk\<lparr>num_locks := word_of_nat ?m\<rparr>"
    "nxt = (if ?m = 0 then Next_dispatch else if ?m = ?n then Next_enter_pipes else Next_none)"
    by auto
  have mn: "?m \<noteq> ?n" using card fin i by auto
  with r all show nx: "nxt = (if insert i turned = {..<?n} then Next_dispatch else Next_none)" by simp
  show links: "pipe_links blk' = pipe_links blk" by (simp add: r)
  show casc: "ph = Cascaded" if "nxt = Next_dispatch"
  proof -
    from that nx have "{..<?n} \<subseteq> {..<fired_upto ?n ph}"
      using sub i by (metis insert_subset lessThan_iff release_next.distinct(1))
    then have "fired_upto ?n ph = ?n" using le by auto
    with pre ph b show ?thesis by (cases ph) (auto simp: block_ok_def Let_def)
  qed
  show "block_ok (insert i turned) adv (if nxt = Next_dispatch then Dispatched else ph) b blk'"
  proof (cases "nxt = Next_dispatch")
    case True
    with casc [OF True] nx b i show ?thesis
      by (auto simp: block_ok_def Let_def r split: if_splits)
  next
    case False
    have all': "insert i turned \<noteq> {..<?n}" using nx False by metis
    have "insert i turned \<subseteq> {..<fired_upto ?n ph}" using sub i by simp
    with False b pre all' show ?thesis by (simp add: block_ok_def Let_def r(1) del: insert_subset)
  qed
qed

lemma cascade_inv_turn:
  assumes inv: "cascade_inv s" and pend: "A_turn l \<in># cs_pend s"
  shows "cascade_inv (turn_release l s)"
proof -
  let ?b = "lk_owner l" and ?i = "lk_index l"
  define t where "t = turn_release l s"
  have bo: "blocks_ok s" and po: "pend_ok s" and pi: "pipes_ok s"
    using inv by (auto simp: cascade_inv_def)
  have l: "is_link s l" and i: "?i \<notin> cs_turned s ?b" "?i < fired_upto (width_of s l) (phase_of s l)"
    using pend pend_expected [OF po] by auto
  then have ph: "cs_phase s ?b \<noteq> Unlaunched" by (simp add: is_link_def)
  obtain blk nxt where rel: "release_lock (cs_blocks s ?b) False = (blk, nxt)" by fastforce
  note tb = turn_block [OF blocks_okD [OF bo ph] i(1) i(2) [unfolded links_of_def] ph rel]
  let ?new = "if nxt = Next_dispatch then [A_dispatch ?b] else []"
  have fld: "cs_phase t = (if nxt = Next_dispatch then (cs_phase s)(?b := Dispatched) else cs_phase s)"
    "cs_turned t = (cs_turned s)(?b := insert ?i (cs_turned s ?b))"
    "cs_advanced t = cs_advanced s" "cs_pipes t = cs_pipes s"
    "cs_blocks t = (cs_blocks s)(?b := blk)" "cs_holders t = cs_holders s"
    "cs_pend t = cs_pend s - {#A_turn l#} + mset ?new"
    using tb(1) by (auto simp: t_def turn_release_def Let_def rel follow_up_def)
  have lo: "links_of t = links_of s" using tb(4) by (auto simp: fld links_of_def fun_eq_iff)
  have il: "is_link t = is_link s"
    by (rule is_link_cong [OF lo]) (use ph in \<open>auto simp: fld\<close>)
  have "blocks_ok t"
    by (rule blocks_ok_set [OF bo, where b = ?b]) (use tb(2) ph in \<open>auto simp: fld\<close>)
  moreover have "expected t a \<longleftrightarrow> expected s a \<and> a \<noteq> A_turn l \<or> a \<in> set ?new" for a
  proof (cases a)
    case (A_turn x)
    show ?thesis
    proof (cases "is_link s x \<and> lk_owner x = ?b")
      case True
      with A_turn tb(3) is_link_index_iff [OF l] show ?thesis by (auto simp: il lo fld)
    next
      case False
      with A_turn l show ?thesis by (auto simp: il lo fld)
    qed
  qed (use ph tb(3,5) in \<open>auto simp: il lo fld\<close>)
  then have "pend_ok t"
    by (intro pend_ok_step [OF po fld(7)]) (use tb(3) in \<open>auto split: if_splits\<close>)
  moreover have "pipes_ok t"
    by (rule pipes_ok_unchanged [OF pi fld(4,6)]) (use tb(3) in \<open>auto simp: il lo fld\<close>)
  ultimately show ?thesis by (simp add: cascade_inv_def t_def)
qed

text \<open>Settling a dispatched or running task, cancelled or completed, is one lemma.\<close>

lemma advance_actions_all:
  "block_ok turned adv ph b blk \<Longrightarrow> ph \<in> {Dispatched, Running} \<Longrightarrow> pipe_links blk' = pipe_links blk \<Longrightarrow>
     pipes_entered blk' = pipes_entered blk \<Longrightarrow>
     advance_actions blk' = mset (map A_advance (pipe_links blk))"
  by (auto simp: advance_actions_def block_ok_def Let_def)

lemma canonical_links_distinct: "canonical_links b ls \<Longrightarrow> distinct ls"
  by (metis canonical_links_def nth_eq_iff_index_eq distinct_conv_nth)

lemma block_okD:
  assumes "block_ok turned adv ph b blk"
  shows "canonical_links b (pipe_links blk)" and "ph \<noteq> Settled \<Longrightarrow> adv = {}"
    and "ph \<in> {Dispatched, Running, Settled} \<Longrightarrow> turned = {..<pipe_count blk}"
    and "adv \<subseteq> {..<pipe_count blk}" and "pipes_entered blk = entered_upto (pipe_count blk) ph"
  using assms unfolding block_ok_def Let_def by blast+

lemma is_link_members:
  assumes "blocks_ok s" and "cs_phase s b \<noteq> Unlaunched"
  shows "x \<in> set (links_of s b) \<longleftrightarrow> is_link s x \<and> lk_owner x = b"
proof -
  have "canonical_links b (links_of s b)"
    using blocks_okD [OF assms] by (simp add: block_ok_def Let_def links_of_def)
  then show ?thesis
    using assms(2) by (auto simp: is_link_def canonical_links_def in_set_conv_nth)
qed

lemma cascade_inv_settle:
  assumes inv: "cascade_inv s" and ph: "cs_phase s b \<in> {Dispatched, Running}"
    and fld: "cs_phase t = (cs_phase s)(b := Settled)"
      "cs_turned t = cs_turned s" "cs_advanced t = cs_advanced s" "cs_pipes t = cs_pipes s"
      "cs_blocks t = (cs_blocks s)(b := blk)" "cs_holders t = cs_holders s"
      "cs_pend t = cs_pend s - {#a0#} + mset (map A_advance (links_of s b))"
    and blk: "block_ok (cs_turned s b) (cs_advanced s b) Settled b blk"
      "pipe_links blk = pipe_links (cs_blocks s b)"
    and a0: "a0 = (if cs_phase s b = Running then A_body b else A_dispatch b)"
  shows "cascade_inv t"
proof -
  have bo: "blocks_ok s" and po: "pend_ok s" and pi: "pipes_ok s"
    using inv by (auto simp: cascade_inv_def)
  have un: "cs_phase s b \<noteq> Unlaunched" using ph by auto
  note b = blocks_okD [OF bo un] and mem = is_link_members [OF bo un]
  have lo: "links_of t = links_of s" using blk(2) by (auto simp: fld links_of_def fun_eq_iff)
  have il: "is_link t = is_link s"
    by (rule is_link_cong [OF lo]) (use un in \<open>auto simp: fld\<close>)
  have adv: "cs_advanced s b = {}" and turned: "cs_turned s b = {..<length (links_of s b)}"
    and can: "canonical_links b (links_of s b)"
    using block_okD [OF b] ph by (auto simp: links_of_def)
  have "blocks_ok t"
    by (rule blocks_ok_set [OF bo, where b = b]) (use blk in \<open>auto simp: fld\<close>)
  moreover have "expected t a \<longleftrightarrow> expected s a \<and> a \<noteq> a0 \<or> a \<in> set (map A_advance (links_of s b))" for a
    using ph adv mem turned by (cases a) (auto simp: il lo fld a0)
  then have "pend_ok t"
    using ph mem canonical_links_distinct [OF can]
    by (intro pend_ok_step [OF po fld(7)]) (auto simp: distinct_map inj_on_def)
  moreover have "pipes_ok t"
    by (rule pipes_ok_unchanged [OF pi fld(4,6)]) (use ph in \<open>auto simp: il lo fld\<close>)
  ultimately show ?thesis by (simp add: cascade_inv_def)
qed

lemma dispatch_start:
  assumes b: "block_ok turned adv Dispatched b blk" and run: "run_begin blk token = Inr r"
  shows "if token then \<exists>blk' eff. r = Start_cancel (blk', eff) \<and> eff_on_complete eff
             \<and> block_ok turned adv Settled b blk' \<and> pipe_links blk' = pipe_links blk
             \<and> pipes_entered blk' = pipes_entered blk
         else \<exists>blk'. r = Start_body blk' \<and> block_ok turned adv Running b blk'
             \<and> pipe_links blk' = pipe_links blk"
  using b run
  by (auto simp: run_begin_def claim_def settle_def block_ok_def Let_def split: if_splits)

lemma cascade_inv_start:
  assumes inv: "cascade_inv s" and ph: "cs_phase s b = Dispatched"
    and fld: "cs_phase t = (cs_phase s)(b := Running)"
      "cs_turned t = cs_turned s" "cs_advanced t = cs_advanced s" "cs_pipes t = cs_pipes s"
      "cs_blocks t = (cs_blocks s)(b := blk)" "cs_holders t = cs_holders s"
      "cs_pend t = cs_pend s - {#A_dispatch b#} + mset [A_body b]"
    and blk: "block_ok (cs_turned s b) (cs_advanced s b) Running b blk"
      "pipe_links blk = pipe_links (cs_blocks s b)"
  shows "cascade_inv t"
proof -
  have bo: "blocks_ok s" and po: "pend_ok s" and pi: "pipes_ok s"
    using inv by (auto simp: cascade_inv_def)
  have lo: "links_of t = links_of s" using blk(2) by (auto simp: fld links_of_def fun_eq_iff)
  have il: "is_link t = is_link s"
    by (rule is_link_cong [OF lo]) (use ph in \<open>auto simp: fld\<close>)
  have "blocks_ok t"
    by (rule blocks_ok_set [OF bo, where b = b]) (use blk ph in \<open>auto simp: fld\<close>)
  moreover have "expected t a \<longleftrightarrow> expected s a \<and> a \<noteq> A_dispatch b \<or> a \<in> set [A_body b]" for a
    using ph by (cases a) (auto simp: il lo fld)
  then have "pend_ok t"
    by (intro pend_ok_step [OF po fld(7)]) (use ph in auto)
  moreover have "pipes_ok t"
    by (rule pipes_ok_unchanged [OF pi fld(4,6)]) (use ph in \<open>auto simp: il lo fld\<close>)
  ultimately show ?thesis by (simp add: cascade_inv_def)
qed

lemma cascade_inv_dispatch:
  assumes inv: "cascade_inv s" and pend: "A_dispatch b \<in># cs_pend s"
    and run: "run_dispatch b token s = Inr t"
  shows "cascade_inv t"
proof -
  have bo: "blocks_ok s" and po: "pend_ok s" using inv by (auto simp: cascade_inv_def)
  have ph: "cs_phase s b = Dispatched" using pend pend_expected [OF po] by auto
  then have b: "block_ok (cs_turned s b) (cs_advanced s b) Dispatched b (cs_blocks s b)"
    using blocks_okD [OF bo, of b] by simp
  obtain r where r: "run_begin (cs_blocks s b) token = Inr r"
    using run by (auto simp: run_dispatch_def split: sum.splits)
  show ?thesis
  proof (cases token)
    case True
    with dispatch_start [OF b r] obtain blk eff where blk: "r = Start_cancel (blk, eff)"
      "eff_on_complete eff" "block_ok (cs_turned s b) (cs_advanced s b) Settled b blk"
      "pipe_links blk = pipe_links (cs_blocks s b)" "pipes_entered blk = pipes_entered (cs_blocks s b)"
      by auto
    then show ?thesis
      using run r advance_actions_all [OF b _ blk(4,5)] ph
      by (intro cascade_inv_settle [OF inv _ _ _ _ _ _ _ _ blk(3,4) refl])
        (auto simp: run_dispatch_def links_of_def)
  next
    case False
    with dispatch_start [OF b r] obtain blk where blk: "r = Start_body blk"
      "block_ok (cs_turned s b) (cs_advanced s b) Running b blk"
      "pipe_links blk = pipe_links (cs_blocks s b)"
      by auto
    then show ?thesis
      using run r
      by (intro cascade_inv_start [OF inv ph _ _ _ _ _ _ _ blk(2,3)]) (auto simp: run_dispatch_def)
  qed
qed

lemma cascade_inv_finish:
  assumes inv: "cascade_inv s" and pend: "A_body b \<in># cs_pend s"
    and run: "run_finish b res s = Inr t"
  shows "cascade_inv t"
proof -
  have bo: "blocks_ok s" and po: "pend_ok s" using inv by (auto simp: cascade_inv_def)
  have ph: "cs_phase s b = Running" using pend pend_expected [OF po] by auto
  then have b: "block_ok (cs_turned s b) (cs_advanced s b) Running b (cs_blocks s b)"
    using blocks_okD [OF bo, of b] by simp
  obtain blk eff where r: "run_end (cs_blocks s b) res = Inr (blk, eff)"
    using run by (auto simp: run_finish_def split: sum.splits)
  have blk: "eff_on_complete eff" "block_ok (cs_turned s b) (cs_advanced s b) Settled b blk"
    "pipe_links blk = pipe_links (cs_blocks s b)" "pipes_entered blk = pipes_entered (cs_blocks s b)"
    using b r by (auto simp: run_end_def settle_def block_ok_def Let_def split: option.splits if_splits)
  then show ?thesis
    using run r advance_actions_all [OF b _ blk(3,4)] ph
    by (intro cascade_inv_settle [OF inv _ _ _ _ _ _ _ _ blk(2,3) refl])
      (auto simp: run_finish_def links_of_def)
qed

text \<open>Advancing a link: the entries a release grants are links queued on that pipe.\<close>

lemma task_links_map: "(\<And>n. Hold n \<notin> set gs) \<Longrightarrow> map Task_link (task_links gs) = gs"
  by (induction gs rule: task_links.induct) fastforce+

lemma admit_phase:
  "(case ph of Queued i \<Rightarrow> Admitted i | ph \<Rightarrow> ph) = Unlaunched \<longleftrightarrow> ph = Unlaunched"
  by (cases ph) auto

lemma block_ok_admit:
  "block_ok turned adv (Queued i) b blk \<Longrightarrow> block_ok turned adv (Admitted i) b blk"
  by (simp add: block_ok_def Let_def)

lemma advance_pipes_ok:
  assumes pi: "pipes_ok s" and held: "holds_pipe s p0 (Task_link l)"
    and rel: "release_and_redispatch (cs_pipes s p0) (lk_mode l) = (p', map Task_link gl, idle)"
    and fld: "cs_pipes t = (cs_pipes s)(p0 := p')" "cs_holders t =
       (cs_holders s)(p0 := cs_holders s p0 - {#Task_link l#} + mset (map Task_link gl))"
    and hp: "\<And>p x. holds_pipe t p (Task_link x) \<longleftrightarrow>
       holds_pipe s p (Task_link x) \<and> x \<noteq> l \<or> p = p0 \<and> x \<in> set gl"
    and wp: "\<And>p x. waits_pipe t p (Task_link x) \<longleftrightarrow> waits_pipe s p (Task_link x) \<and> \<not> (p = p0 \<and> x \<in> set gl)"
    and other: "\<And>p. p \<noteq> p0 \<Longrightarrow> \<not> holds_pipe s p (Task_link l)"
    and gl: "distinct gl" "\<And>x. x \<in> set gl \<Longrightarrow> \<not> holds_pipe s p0 (Task_link x) \<and> x \<noteq> l"
  shows "pipes_ok t"
proof -
  have pinv: "pipe_inv (cs_pipes s p0) (cs_holders s p0)" by (rule pipes_okD(1) [OF pi])
  have mem: "Task_link l \<in># cs_holders s p0"
    using pipes_okD(2) [OF pi, of p0 "Task_link l"] held
    by (metis count_eq_zero_iff zero_neq_one)
  have rel': "release_and_redispatch (cs_pipes s p0) (en_mode (Task_link l)) = (p', map Task_link gl, idle)"
    using rel by simp
  note keeps = pw.release_keeps [OF pinv mem rel'] and waits = pw.release_waiting [OF pinv mem rel']
  have cnt: "count (mset (map Task_link gl)) (Task_link x) = (if x \<in> set gl then 1 else 0)" for x
  proof -
    have "distinct (map Task_link gl)" using gl(1) by (simp add: distinct_map inj_on_def)
    then show ?thesis by (auto simp: distinct_count_atmost_1 simp del: mset_map)
  qed
  have cnth: "count (mset (map Task_link gl)) (Hold n) = 0" for n
    by (auto simp: count_eq_zero_iff simp del: mset_map)
  have "pipe_inv (cs_pipes t p) (cs_holders t p)" for p
    using keeps pipes_okD(1) [OF pi] by (simp add: fld)
  moreover have "count (cs_holders t p) e = (if holds_pipe t p e then 1 else 0)" for p e
    using pipes_okD(2) [OF pi, of p e] cnt cnth gl(2) held other
    by (cases e) (auto simp: hp fld simp del: holds_pipe.simps(1) mset_map)
  moreover have "count (mset (pp_queue (cs_pipes t p))) e = (if waits_pipe t p e then 1 else 0)" for p e
  proof (cases "p = p0")
    case True
    have "count (mset (pp_queue (cs_pipes s p0))) e =
        count (mset (map Task_link gl)) e + count (mset (pp_queue p')) e"
      by (simp add: waits del: mset_map)
    then show ?thesis
      using True pipes_okD(3) [OF pi, of p0 e] cnt cnth
      by (cases e) (auto simp: wp fld simp del: waits_pipe.simps(1) mset_map split: if_splits)
  next
    case False
    with pipes_okD(3) [OF pi, of p e] show ?thesis
      by (cases e) (auto simp: wp fld simp del: waits_pipe.simps(1))
  qed
  ultimately show ?thesis by (simp add: pipes_ok_def)
qed

text \<open>What one release grants, as links: distinct, queued on this pipe, each of another task.\<close>

lemma advance_grants:
  assumes inv: "cascade_inv s" and held: "holds_pipe s p (Task_link l)"
    and rel: "release_and_redispatch (cs_pipes s p) (lk_mode l) = (p', gs, idle)"
  shows "gs = map Task_link (task_links gs)" and "distinct (task_links gs)"
    and "x \<in> set (task_links gs) \<Longrightarrow> is_link s x \<and> lk_pipe x = p \<and> phase_of s x = Queued (lk_index x)"
proof -
  have pi: "pipes_ok s" using inv by (simp add: cascade_inv_def)
  have pinv: "pipe_inv (cs_pipes s p) (cs_holders s p)" by (rule pipes_okD(1) [OF pi])
  have mem: "Task_link l \<in># cs_holders s p"
    using pipes_okD(2) [OF pi, of p "Task_link l"] held
    by (metis count_eq_zero_iff zero_neq_one)
  from rel have "release_and_redispatch (cs_pipes s p) (en_mode (Task_link l)) = (p', gs, idle)" by simp
  note waits = pw.release_waiting [OF pinv mem this]
  have w: "waits_pipe s p e" if "e \<in> set gs" for e
    using that pipes_okD(3) [OF pi, of p e] waits
    by (metis Un_iff count_eq_zero_iff set_append set_mset_mset)
  have dist: "distinct (pp_queue (cs_pipes s p))"
    unfolding distinct_count_atmost_1
  proof
    fix e
    show "count (mset (pp_queue (cs_pipes s p))) e = (if e \<in> set (pp_queue (cs_pipes s p)) then 1 else 0)"
      using pipes_okD(3) [OF pi, of p e] by (metis count_eq_zero_iff set_mset_mset)
  qed
  show eq: "gs = map Task_link (task_links gs)"
    using w by (intro task_links_map [symmetric]) fastforce
  have "distinct gs" using dist waits by simp
  then show "distinct (task_links gs)" by (metis distinct_map eq)
  show "is_link s x \<and> lk_pipe x = p \<and> phase_of s x = Queued (lk_index x)"
    if "x \<in> set (task_links gs)"
  proof -
    from that eq have "Task_link x \<in> set gs" by (metis imageI list.set_map)
    from w [OF this] show ?thesis by simp
  qed
qed

lemma cascade_inv_advance:
  assumes inv: "cascade_inv s" and pend: "A_advance l \<in># cs_pend s"
  shows "cascade_inv (advance_link l s)"
proof -
  let ?b = "lk_owner l" and ?p = "lk_pipe l" and ?i = "lk_index l"
  define t where "t = advance_link l s"
  have bo: "blocks_ok s" and po: "pend_ok s" and pi: "pipes_ok s"
    using inv by (auto simp: cascade_inv_def)
  have l: "is_link s l" and ph: "cs_phase s ?b = Settled" and i: "?i \<notin> cs_advanced s ?b"
    using pend pend_expected [OF po] by auto
  have held: "holds_pipe s ?p (Task_link l)" using l ph i is_link_index_lt [OF l] by simp
  obtain p' gs idle where rel: "release_and_redispatch (cs_pipes s ?p) (lk_mode l) = (p', gs, idle)"
    by (metis prod_cases3)
  define gl where "gl = task_links gs"
  note g = advance_grants [OF inv held rel, folded gl_def]
  let ?ph = "\<lambda>b. if \<exists>x \<in> set gl. lk_owner x = b
      then (case cs_phase s b of Queued i \<Rightarrow> Admitted i | ph \<Rightarrow> ph) else cs_phase s b"
  have fld: "cs_phase t = ?ph" "cs_turned t = cs_turned s"
    "cs_advanced t = (cs_advanced s)(?b := insert ?i (cs_advanced s ?b))"
    "cs_pipes t = (cs_pipes s)(?p := p')" "cs_blocks t = cs_blocks s"
    "cs_holders t = (cs_holders s)(?p := cs_holders s ?p - {#Task_link l#} + mset (map Task_link gl))"
    "cs_pend t = cs_pend s - {#A_advance l#} + mset (map A_fire gl)"
    using g(1) by (simp_all add: t_def advance_link_def Let_def rel gl_def)
  have lo: "links_of t = links_of s" by (auto simp: fld links_of_def fun_eq_iff)
  have il: "is_link t = is_link s" by (rule is_link_cong [OF lo]) (auto simp: fld admit_phase)
  have ph_t: "(\<exists>k. cs_phase s b = Queued k \<and> cs_phase t b = Admitted k \<and> (\<exists>y \<in> set gl. lk_owner y = b))
      \<or> cs_phase t b = cs_phase s b \<and> (\<forall>y \<in> set gl. lk_owner y \<noteq> b)" for b
    using g(3) by (auto simp: fld)
  have in_gl: "x \<in> set gl \<longleftrightarrow> (\<exists>y \<in> set gl. lk_owner y = lk_owner x) \<and> phase_of s x = Queued (lk_index x)"
    if "is_link s x" for x
    using that g(3) is_link_unique [OF that] by (metis phase.inject(2))
  have "blocks_ok t"
    unfolding blocks_ok_def
  proof (intro conjI allI impI)
    show "finite {b. cs_phase t b \<noteq> Unlaunched}"
      using bo by (auto simp: blocks_ok_def fld admit_phase elim: rev_finite_subset)
    fix b assume "cs_phase t b \<noteq> Unlaunched"
    then have "cs_phase s b \<noteq> Unlaunched" using ph_t [of b] by auto
    from blocks_okD [OF bo this] ph_t [of b] ph is_link_index_lt [OF l]
    show "block_ok (cs_turned t b) (cs_advanced t b) (cs_phase t b) b (cs_blocks t b)"
      by (cases "b = ?b") (auto simp: fld(2,3,5) block_ok_admit, auto simp: block_ok_def Let_def links_of_def)
  qed
  moreover have "expected t a \<longleftrightarrow> expected s a \<and> a \<noteq> A_advance l \<or> a \<in> set (map A_fire gl)" for a
  proof (cases a)
    case (A_fire x)
    then show ?thesis using g(3) [of x] in_gl [of x] ph_t [of "lk_owner x"] by (auto simp: il)
  next
    case (A_advance x)
    then show ?thesis
      using ph_t [of "lk_owner x"] is_link_index_iff [OF l, of x] ph by (auto simp: il fld(3))
  next
    case (A_enter x)
    then show ?thesis using ph_t [of "lk_owner x"] by (auto simp: il)
  next
    case (A_turn x)
    then show ?thesis using ph_t [of "lk_owner x"] by (auto simp: il lo fld(2))
  next
    case (A_dispatch b)
    then show ?thesis using ph_t [of b] by auto
  next
    case (A_body b)
    then show ?thesis using ph_t [of b] by auto
  qed
  then have "pend_ok t"
    using g(2,3) by (intro pend_ok_step [OF po fld(7)]) (auto simp: distinct_map inj_on_def)
  moreover have hold_wait: "holds_pipe t p (Task_link x) \<longleftrightarrow>
        holds_pipe s p (Task_link x) \<and> x \<noteq> l \<or> p = ?p \<and> x \<in> set gl"
      "waits_pipe t p (Task_link x) \<longleftrightarrow>
        waits_pipe s p (Task_link x) \<and> \<not> (p = ?p \<and> x \<in> set gl)" for x p
  proof -
    show "waits_pipe t p (Task_link x) \<longleftrightarrow> waits_pipe s p (Task_link x) \<and> \<not> (p = ?p \<and> x \<in> set gl)"
      using ph_t [of "lk_owner x"] in_gl [of x] g(3) [of x] by (auto simp: il)
    show "holds_pipe t p (Task_link x) \<longleftrightarrow>
        holds_pipe s p (Task_link x) \<and> x \<noteq> l \<or> p = ?p \<and> x \<in> set gl"
    proof (cases "lk_owner x = ?b")
      case True
      then show ?thesis
        using ph_t [of ?b] ph g(3) [of x] is_link_index_iff [OF l, of x] by (auto simp: il lo fld(3))
    next
      case False
      have adv: "cs_advanced s (lk_owner x) = {}" if "phase_of s x = Queued k" for k
        using blocks_okD [OF bo, of "lk_owner x"] that by (simp add: block_ok_def Let_def)
      show ?thesis
      proof (cases "\<exists>y \<in> set gl. lk_owner y = lk_owner x")
        case True
        with ph_t [of "lk_owner x"] obtain k
          where k: "phase_of s x = Queued k" "phase_of t x = Admitted k" by blast
        with \<open>lk_owner x \<noteq> ?b\<close> True adv in_gl [of x] g(3) [of x] show ?thesis
          by (auto simp: il lo fld(3) less_Suc_eq)
      next
        case False
        with ph_t [of "lk_owner x"] have "phase_of t x = phase_of s x" "x \<notin> set gl" by blast+
        with \<open>lk_owner x \<noteq> ?b\<close> show ?thesis by (auto simp: il lo fld(3))
      qed
    qed
  qed
  have rel': "release_and_redispatch (cs_pipes s ?p) (lk_mode l) = (p', map Task_link gl, idle)"
    using rel g(1) by simp
  have "pipes_ok t"
    by (rule advance_pipes_ok [OF pi held rel' fld(4,6) hold_wait _ g(2)])
      (use g(3) ph in force)+
  ultimately show ?thesis by (simp add: cascade_inv_def t_def)
qed

lemma launch_block:
  assumes "fresh_piped b blk"
  shows "block_ok {} {} (if pipe_links blk = [] then Dispatched else Entering 0) b blk"
  using assms by (auto simp: block_ok_def Let_def fresh_piped_def)

lemma cascade_inv_launch:
  assumes inv: "cascade_inv s" and ph: "cs_phase s b = Unlaunched" and fresh: "fresh_piped b blk"
  shows "cascade_inv (launch_task b blk s)"
proof -
  define t where "t = launch_task b blk s"
  define ls where "ls = pipe_links blk"
  have can: "canonical_links b ls" using fresh by (simp add: fresh_piped_def ls_def)
  have bo: "blocks_ok s" and po: "pend_ok s" and pi: "pipes_ok s"
    using inv by (auto simp: cascade_inv_def)
  let ?new = "case ls of [] \<Rightarrow> [A_dispatch b] | l # _ \<Rightarrow> [A_enter l]"
  have fld: "cs_phase t = (cs_phase s)(b := (if ls = [] then Dispatched else Entering 0))"
    "cs_turned t = (cs_turned s)(b := {})" "cs_advanced t = (cs_advanced s)(b := {})"
    "cs_pipes t = cs_pipes s" "cs_holders t = cs_holders s"
    "cs_blocks t = (cs_blocks s)(b := blk)" "cs_pend t = cs_pend s + mset ?new"
    by (auto simp: t_def launch_task_def ls_def split: list.splits)
  have lo: "links_of t = (links_of s)(b := ls)"
    by (auto simp: fld links_of_def fun_eq_iff ls_def)
  have il: "is_link t x \<longleftrightarrow> is_link s x" if "lk_owner x \<noteq> b" for x
    using that by (simp add: is_link_def fld lo)
  have nob: "\<not> is_link s x" if "lk_owner x = b" for x using ph that by (simp add: is_link_def)
  have first: "is_link t x \<and> lk_index x = 0 \<longleftrightarrow> ls \<noteq> [] \<and> x = ls ! 0" if "lk_owner x = b" for x
  proof
    assume x: "is_link t x \<and> lk_index x = 0"
    then have "0 < length ls" "ls ! 0 = x" using that by (auto simp: is_link_def lo)
    then show "ls \<noteq> [] \<and> x = ls ! 0" by auto
  next
    assume x: "ls \<noteq> [] \<and> x = ls ! 0"
    then have "lk_index x = 0" using can by (simp add: canonical_links_def)
    with x that show "is_link t x \<and> lk_index x = 0" by (simp add: is_link_def lo fld)
  qed
  have own: "lk_owner (ls ! 0) = b" "lk_index (ls ! 0) = 0" if "ls \<noteq> []"
    using can that by (auto simp: canonical_links_def)
  have "blocks_ok t"
    by (rule blocks_ok_set [OF bo, where b = b]) (use launch_block [OF fresh] in \<open>simp_all add: fld ls_def\<close>)
  moreover have exp: "expected t a \<longleftrightarrow> expected s a \<or> a \<in> set ?new" for a
  proof (cases a)
    case (A_enter x)
    then show ?thesis
      using ph nob [of x] first [of x] own il [of x]
      by (cases "lk_owner x = b"; cases ls) (auto simp: fld)
  next
    case (A_turn x)
    then show ?thesis
      using nob [of x] il [of x] by (cases "lk_owner x = b"; cases ls) (auto simp: fld lo)
  next
    case (A_fire x)
    then show ?thesis
      using nob [of x] il [of x] by (cases "lk_owner x = b"; cases ls) (auto simp: fld)
  next
    case (A_advance x)
    then show ?thesis
      using nob [of x] il [of x] by (cases "lk_owner x = b"; cases ls) (auto simp: fld)
  qed (use ph in \<open>cases ls; auto simp: fld\<close>)+
  have "pend_ok t"
    unfolding pend_ok_def
  proof
    fix a
    have "\<not> (expected s a \<and> a \<in> set ?new)"
      using ph nob own by (cases a; cases ls) auto
    then show "count (cs_pend t) a = (if expected t a then 1 else 0)"
      using pend_count [OF po, of a] exp [of a] by (auto simp: fld split: list.splits)
  qed
  moreover have "pipes_ok t"
  proof (rule pipes_ok_unchanged [OF pi fld(4,5)])
    fix p x
    show "holds_pipe t p (Task_link x) \<longleftrightarrow> holds_pipe s p (Task_link x)"
      and "waits_pipe t p (Task_link x) \<longleftrightarrow> waits_pipe s p (Task_link x)"
      using nob [of x] il [of x] by (cases "lk_owner x = b"; cases ls; auto simp: lo fld)+
  qed
  ultimately show ?thesis by (simp add: cascade_inv_def t_def)
qed

lemma cascade_inv_step: "cascade_inv s \<Longrightarrow> cascade_step s t \<Longrightarrow> cascade_inv t"
  by (erule cascade_step.cases)
    (auto intro: cascade_inv_enter cascade_inv_fire cascade_inv_turn cascade_inv_dispatch
       cascade_inv_finish cascade_inv_advance)

lemma cascade_inv_reach: "cascade_reach s \<Longrightarrow> cascade_inv s"
  by (induction rule: cascade_reach.induct)
    (auto intro: cascade_inv_init cascade_inv_launch cascade_inv_step)

section \<open>Exclusion across tasks\<close>



section \<open>No deadlock\<close>

lemma quiet_phases:
  assumes inv: "cascade_inv s" and quiet: "cs_pend s = {#}" and un: "cs_phase s b \<noteq> Unlaunched"
  shows "cs_phase s b = Settled \<or> (\<exists>i. cs_phase s b = Queued i \<and> i < length (links_of s b))"
proof -
  have bo: "blocks_ok s" and po: "pend_ok s" using inv by (auto simp: cascade_inv_def)
  have none: "\<not> expected s a" for a using pend_expected [OF po, of a] quiet by simp
  have b: "block_ok (cs_turned s b) (cs_advanced s b) (cs_phase s b) b (cs_blocks s b)"
    by (rule blocks_okD [OF bo un])
  have link: "is_link s (links_of s b ! i)" "lk_owner (links_of s b ! i) = b" "lk_index (links_of s b ! i) = i"
    if "i < length (links_of s b)" for i
    using b that un by (auto simp: block_ok_def Let_def canonical_links_def is_link_def links_of_def)
  show ?thesis
  proof (cases "cs_phase s b")
    case (Entering i)
    with b link [of i] none [of "A_enter (links_of s b ! i)"] show ?thesis
      by (simp add: block_ok_def Let_def links_of_def)
  next
    case (Admitted i)
    with b link [of i] none [of "A_fire (links_of s b ! i)"] show ?thesis
      by (simp add: block_ok_def Let_def links_of_def)
  next
    case Cascaded
    with b obtain i where "i < length (links_of s b)" "i \<notin> cs_turned s b"
      by (auto simp: block_ok_def Let_def links_of_def)
    with Cascaded link [of i] none [of "A_turn (links_of s b ! i)"] show ?thesis by simp
  qed (use un b none [of "A_dispatch b"] none [of "A_body b"] in
      \<open>auto simp: block_ok_def Let_def links_of_def\<close>)
qed

text \<open>A queued task waits for a pipe held by a task that itself waits on a higher pipe.\<close>

lemma queued_climbs:
  assumes inv: "cascade_inv s" and quiet: "cs_pend s = {#}"
    and q: "pp_queue (cs_pipes s p) \<noteq> []"
  shows "\<exists>p'. p < p' \<and> pp_queue (cs_pipes s p') \<noteq> []"
proof -
  have bo: "blocks_ok s" and po: "pend_ok s" and pi: "pipes_ok s"
    using inv by (auto simp: cascade_inv_def)
  have none: "\<not> expected s a" for a using pend_expected [OF po, of a] quiet by simp
  obtain e where "e \<in># cs_holders s p"
    using pw.waiting_held [OF pipes_okD(1) [OF pi] q] by (meson multiset_nonemptyE)
  then have "holds_pipe s p e" using pipes_okD(2) [OF pi, of p e] by (metis count_eq_zero_iff)
  then obtain l where l: "is_link s l" "lk_pipe l = p"
      "lk_index l < held_upto (width_of s l) (phase_of s l)" "lk_index l \<notin> cs_advanced s (lk_owner l)"
    by (cases e) auto
  have un: "phase_of s l \<noteq> Unlaunched" using l(1) by (simp add: is_link_def)
  from quiet_phases [OF inv quiet un] none [of "A_advance l"] l
  obtain i where i: "phase_of s l = Queued i" "i < width_of s l" by auto
  let ?b = "lk_owner l" and ?m = "links_of s (lk_owner l) ! i"
  have can: "canonical_links ?b (links_of s ?b)"
    using blocks_okD [OF bo un] by (simp add: block_ok_def Let_def links_of_def)
  have m: "is_link s ?m" "lk_owner ?m = ?b" "lk_index ?m = i"
    using can i un by (auto simp: canonical_links_def is_link_def)
  have "lk_index l < i" using l(3) i by simp
  then have "lk_pipe l < lk_pipe ?m"
    using can i l(1) sorted_wrt_nth_less [of "(<)" "map lk_pipe (links_of s ?b)" "lk_index l" i]
    by (auto simp: canonical_links_def is_link_def)
  moreover have "waits_pipe s (lk_pipe ?m) (Task_link ?m)" using m i by simp
  then have "pp_queue (cs_pipes s (lk_pipe ?m)) \<noteq> []"
    using pipes_okD(3) [OF pi, of "lk_pipe ?m" "Task_link ?m"] by auto
  ultimately show ?thesis using l(2) by blast
qed

lemma quiet_queues_empty:
  assumes inv: "cascade_inv s" and quiet: "cs_pend s = {#}"
  shows "pp_queue (cs_pipes s p) = []"
proof -
  from inv have bo: "blocks_ok s" and pi: "pipes_ok s" by (auto simp: cascade_inv_def)
  let ?S = "{p. pp_queue (cs_pipes s p) \<noteq> []}"
  let ?L = "\<Union>b \<in> {b. cs_phase s b \<noteq> Unlaunched}. lk_pipe ` set (links_of s b)"
  have "?S \<subseteq> ?L"
  proof
    fix p assume "p \<in> ?S"
    then obtain e where "e \<in> set (pp_queue (cs_pipes s p))" by (metis list.set_sel(1) mem_Collect_eq)
    then have "waits_pipe s p e" using pipes_okD(3) [OF pi, of p e] by (metis count_eq_zero_iff set_mset_mset)
    then obtain l where "is_link s l" "lk_pipe l = p" by (cases e) auto
    then show "p \<in> ?L" using is_link_members [OF bo, of "lk_owner l" l] by (auto simp: is_link_def)
  qed
  moreover have "finite ?L" using bo by (auto simp: blocks_ok_def)
  ultimately have "finite ?S" by (rule finite_subset)
  then show ?thesis
    using finite_ascending_absurd [of ?S] queued_climbs [OF inv quiet] by blast
qed

lemma quiet_settled:
  assumes inv: "cascade_inv s" and quiet: "cs_pend s = {#}"
  shows "cs_phase s b = Unlaunched \<or> cs_phase s b = Settled"
proof (rule ccontr)
  from inv have bo: "blocks_ok s" and pi: "pipes_ok s" by (auto simp: cascade_inv_def)
  assume "\<not> ?thesis"
  then have un: "cs_phase s b \<noteq> Unlaunched" by simp
  with quiet_phases [OF inv quiet un] \<open>\<not> ?thesis\<close>
  obtain i where i: "cs_phase s b = Queued i" "i < length (links_of s b)" by auto
  let ?m = "links_of s b ! i"
  have "?m \<in> set (links_of s b)" using i by simp
  then have "is_link s ?m" "lk_owner ?m = b" using is_link_members [OF bo un] by auto
  moreover have "lk_index ?m = i" using blocks_okD [OF bo un] i
    by (simp add: block_ok_def Let_def canonical_links_def links_of_def)
  ultimately have "waits_pipe s (lk_pipe ?m) (Task_link ?m)" using i by simp
  with pipes_okD(3) [OF pi, of "lk_pipe ?m" "Task_link ?m"] quiet_queues_empty [OF inv quiet]
  show False by simp
qed

lemma quiet_idle:
  assumes inv: "cascade_inv s" and quiet: "cs_pend s = {#}"
  shows "pipe_idle (cs_pipes s p)"
proof -
  from inv have po: "pend_ok s" and pi: "pipes_ok s" by (auto simp: cascade_inv_def)
  have "cs_holders s p = {#}"
  proof (rule ccontr)
    assume "cs_holders s p \<noteq> {#}"
    then obtain e where "e \<in># cs_holders s p" by (meson multiset_nonemptyE)
    then have "holds_pipe s p e" using pipes_okD(2) [OF pi, of p e] by (metis count_eq_zero_iff)
    then obtain l where l: "is_link s l" "lk_index l \<notin> cs_advanced s (lk_owner l)"
      "phase_of s l \<noteq> Unlaunched"
      by (cases e) (auto simp: is_link_def)
    with quiet_settled [OF inv quiet, of "lk_owner l"] pend_expected [OF po, of "A_advance l"] quiet
    show False by simp
  qed
  with pipes_okD(1) [OF pi, of p] quiet_queues_empty [OF inv quiet, of p] show ?thesis
    by (auto simp: pipe_inv_def grants_ok_def pipe_idle_def split: if_splits)
qed

text \<open>
  No deadlock. Tasks take their pipes one after the other in ascending address order; however many
  tasks share however many pipes, the system never wedges: in every reachable state in which no thread
  has anything left to do, every launched task has settled and every pipe is idle.
\<close>

theorem cascade_no_deadlock:
  assumes "cascade_reach s" and "cs_pend s = {#}"
  shows "(cs_phase s b = Unlaunched \<or> cs_phase s b = Settled) \<and> pipe_idle (cs_pipes s p)"
  using cascade_inv_reach [OF assms(1)] assms(2) by (auto intro: quiet_idle dest: quiet_settled)

section \<open>Termination\<close>

text \<open>What is left to do for a task at a phase; every step lowers the total.\<close>

fun phase_weight :: "nat \<Rightarrow> phase \<Rightarrow> nat" where
  "phase_weight n Unlaunched = 0"
| "phase_weight n (Entering i) = 3 + 3 * (n - i)"
| "phase_weight n (Queued i) = 2 + 3 * (n - i)"
| "phase_weight n (Admitted i) = 1 + 3 * (n - i)"
| "phase_weight n Cascaded = 3"
| "phase_weight n Dispatched = 2"
| "phase_weight n Running = 1"
| "phase_weight n Settled = 0"

definition block_weight :: "cascade \<Rightarrow> block_id \<Rightarrow> nat" where
  "block_weight s b =
     (let n = length (links_of s b) in
      phase_weight n (cs_phase s b) + (n - card (cs_turned s b)) + (n - card (cs_advanced s b)))"

definition cascade_weight :: "cascade \<Rightarrow> nat" where
  "cascade_weight s = (\<Sum>b | cs_phase s b \<noteq> Unlaunched. block_weight s b)"

lemma weight_step_intro:
  assumes "finite {b. cs_phase s b \<noteq> Unlaunched}"
    and "\<And>b. cs_phase t b = Unlaunched \<longleftrightarrow> cs_phase s b = Unlaunched"
    and "\<And>b. cs_phase s b \<noteq> Unlaunched \<Longrightarrow> block_weight t b \<le> block_weight s b"
    and "cs_phase s bb \<noteq> Unlaunched" and "block_weight t bb < block_weight s bb"
  shows "cascade_weight t < cascade_weight s"
proof -
  have "{b. cs_phase t b \<noteq> Unlaunched} = {b. cs_phase s b \<noteq> Unlaunched}" using assms(2) by auto
  then show ?thesis
    unfolding cascade_weight_def using assms by (auto intro!: sum_strict_mono_ex1)
qed

text \<open>Most steps touch one block only.\<close>

lemma weight_step_one:
  assumes "blocks_ok s" and "cs_phase s bb \<noteq> Unlaunched" and "cs_phase t bb \<noteq> Unlaunched"
    and "\<And>b. b \<noteq> bb \<Longrightarrow> cs_phase t b = cs_phase s b \<and> cs_blocks t b = cs_blocks s b
      \<and> cs_turned t b = cs_turned s b \<and> cs_advanced t b = cs_advanced s b"
    and "block_weight t bb < block_weight s bb"
  shows "cascade_weight t < cascade_weight s"
proof (rule weight_step_intro)
  show "finite {b. cs_phase s b \<noteq> Unlaunched}" using assms(1) by (simp add: blocks_ok_def)
  show "cs_phase t b = Unlaunched \<longleftrightarrow> cs_phase s b = Unlaunched" for b
    using assms(2-4) by (cases "b = bb") auto
  show "block_weight t b \<le> block_weight s b" for b
    using assms(4,5) by (cases "b = bb") (auto simp: block_weight_def links_of_def Let_def)
qed (use assms in auto)

lemma weight_insert:
  assumes "i < n" and "i \<notin> S" and "S \<subseteq> {..<n}"
  shows "n - card (insert i S) < n - card S"
proof -
  have "finite S" using assms(3) finite_subset by blast
  moreover have "card (insert i S) \<le> n" using assms card_mono [of "{..<n}" "insert i S"] by simp
  ultimately show ?thesis using assms(2) by simp
qed

lemma weight_enter:
  "cascade_inv s \<Longrightarrow> A_enter l \<in># cs_pend s \<Longrightarrow> cascade_weight (pipe_enter_link l s) < cascade_weight s"
  by (rule weight_step_one [where bb = "lk_owner l"])
    (auto simp: cascade_inv_def pend_expected pipe_enter_link_def Let_def block_weight_def links_of_def
       split: prod.splits)

lemma weight_fire:
  assumes "cascade_inv s" and "A_fire l \<in># cs_pend s"
  shows "cascade_weight (fire_task_turn l s) < cascade_weight s"
proof -
  have bo: "blocks_ok s" and ph: "phase_of s l = Admitted (lk_index l)" and l: "is_link s l"
    using assms by (auto simp: cascade_inv_def pend_expected)
  from is_link_index_lt [OF l] ph show ?thesis
    by (intro weight_step_one [OF bo, where bb = "lk_owner l"])
      (auto simp: fire_task_turn_def Let_def block_weight_def links_of_def)
qed

lemma weight_turn:
  assumes "cascade_inv s" and "A_turn l \<in># cs_pend s"
  shows "cascade_weight (turn_release l s) < cascade_weight s"
proof -
  let ?b = "lk_owner l" and ?n = "width_of s l"
  have bo: "blocks_ok s" and l: "is_link s l" and i: "lk_index l \<notin> cs_turned s ?b"
    "lk_index l < fired_upto ?n (phase_of s l)"
    using assms by (auto simp: cascade_inv_def pend_expected)
  have un: "phase_of s l \<noteq> Unlaunched" using l by (simp add: is_link_def)
  obtain blk nxt where rel: "release_lock (cs_blocks s ?b) False = (blk, nxt)" by fastforce
  note b = blocks_okD [OF bo un]
  note tb = turn_block [OF b i(1) i(2) [unfolded links_of_def] un rel]
  have "fired_upto ?n (phase_of s l) \<le> ?n"
    using b by (cases "phase_of s l") (auto simp: block_ok_def Let_def links_of_def)
  then have "cs_turned s ?b \<subseteq> {..<?n}" using b by (auto simp: block_ok_def Let_def links_of_def)
  note w = weight_insert [OF is_link_index_lt [OF l] i(1) this]
  show ?thesis
    by (rule weight_step_one [OF bo un])
      (use w tb(3,4) un in \<open>auto simp: turn_release_def Let_def rel block_weight_def links_of_def\<close>)
qed

lemma weight_dispatch:
  assumes "cascade_inv s" and "A_dispatch b \<in># cs_pend s" and "run_dispatch b token s = Inr t"
  shows "cascade_weight t < cascade_weight s"
proof -
  have bo: "blocks_ok s" and ph: "cs_phase s b = Dispatched"
    using assms by (auto simp: cascade_inv_def pend_expected)
  then have b: "block_ok (cs_turned s b) (cs_advanced s b) Dispatched b (cs_blocks s b)"
    using blocks_okD [OF bo, of b] by simp
  obtain r where r: "run_begin (cs_blocks s b) token = Inr r"
    using assms(3) by (auto simp: run_dispatch_def split: sum.splits)
  from dispatch_start [OF b r] ph assms(3) r show ?thesis
    by (intro weight_step_one [OF bo, where bb = b])
      (auto simp: run_dispatch_def block_weight_def links_of_def Let_def split: if_splits)
qed

lemma run_end_links: "run_end blk r = Inr (blk', eff) \<Longrightarrow> pipe_links blk' = pipe_links blk"
  by (auto simp: run_end_def settle_def Let_def split: if_splits option.splits)

lemma weight_finish:
  assumes "cascade_inv s" and "A_body b \<in># cs_pend s" and "run_finish b r s = Inr t"
  shows "cascade_weight t < cascade_weight s"
proof -
  have bo: "blocks_ok s" and ph: "cs_phase s b = Running"
    using assms by (auto simp: cascade_inv_def pend_expected)
  with assms(3) show ?thesis
    by (intro weight_step_one [OF bo, where bb = b])
      (auto simp: run_finish_def block_weight_def links_of_def Let_def dest: run_end_links split: sum.splits)
qed

lemma weight_advance:
  assumes inv: "cascade_inv s" and pend: "A_advance l \<in># cs_pend s"
  shows "cascade_weight (advance_link l s) < cascade_weight s"
proof -
  let ?b = "lk_owner l" and ?t = "advance_link l s"
  have bo: "blocks_ok s" and l: "is_link s l" and ph: "phase_of s l = Settled"
    and i: "lk_index l \<notin> cs_advanced s ?b"
    using assms by (auto simp: cascade_inv_def pend_expected)
  obtain p' gs idle where rel:
      "release_and_redispatch (cs_pipes s (lk_pipe l)) (lk_mode l) = (p', gs, idle)"
    by (metis prod_cases3)
  have phases: "phase_weight n (cs_phase ?t b) \<le> phase_weight n (cs_phase s b)"
      "cs_phase ?t b = Unlaunched \<longleftrightarrow> cs_phase s b = Unlaunched" for n b
    by (cases "cs_phase s b"; simp add: advance_link_def Let_def rel)+
  have rest: "cs_turned ?t = cs_turned s" "links_of ?t = links_of s"
      "cs_advanced ?t = (cs_advanced s)(?b := insert (lk_index l) (cs_advanced s ?b))"
    by (simp_all add: advance_link_def Let_def rel links_of_def fun_eq_iff)
  have sub: "cs_advanced s ?b \<subseteq> {..<width_of s l}"
    using blocks_okD [OF bo, of ?b] ph by (simp add: block_ok_def Let_def links_of_def)
  note w = weight_insert [OF is_link_index_lt [OF l] i sub]
  show ?thesis
  proof (rule weight_step_intro [OF _ phases(2)])
    show "finite {b. cs_phase s b \<noteq> Unlaunched}" using bo by (simp add: blocks_ok_def)
    show "cs_phase s ?b \<noteq> Unlaunched" using ph by simp
    show "block_weight ?t ?b < block_weight s ?b"
      using phases(1) [of "width_of s l" ?b] w by (simp add: block_weight_def Let_def rest)
    then show "block_weight ?t b \<le> block_weight s b" for b
      using phases(1) [of "length (links_of s b)" b]
      by (cases "b = ?b") (auto simp: block_weight_def Let_def rest)
  qed
qed

lemma weight_step: "cascade_inv s \<Longrightarrow> cascade_step s t \<Longrightarrow> cascade_weight t < cascade_weight s"
  by (erule cascade_step.cases)
    (auto intro: weight_enter weight_fire weight_turn weight_dispatch weight_finish weight_advance)

text \<open>A pending action can always be carried out.\<close>

lemma dispatch_runs:
  assumes "block_ok turned adv Dispatched b (cs_blocks s b)"
  shows "\<exists>t. run_dispatch b token s = Inr t"
proof -
  have "\<exists>r. run_begin (cs_blocks s b) token = Inr r"
    using assms by (auto simp: run_begin_def claim_def settle_def block_ok_def Let_def)
  then obtain r where "run_begin (cs_blocks s b) token = Inr r" by blast
  then show ?thesis by (cases r) (auto simp: run_dispatch_def case_prod_beta)
qed

lemma finish_runs:
  assumes "block_ok turned adv Running b blk"
  shows "\<exists>blk' eff. run_end blk r = Inr (blk', eff)"
  using assms by (auto simp: run_end_def settle_def block_ok_def Let_def split: option.splits)

lemma pending_enabled:
  assumes inv: "cascade_inv s" and "cs_pend s \<noteq> {#}"
  shows "\<exists>t. cascade_step s t"
proof -
  have bo: "blocks_ok s" and po: "pend_ok s" using inv by (auto simp: cascade_inv_def)
  obtain a where a: "a \<in># cs_pend s" using assms(2) by (meson multiset_nonemptyE)
  show ?thesis
  proof (cases a)
    case (A_dispatch b)
    with a pend_expected [OF po] have "cs_phase s b = Dispatched" by auto
    then have "block_ok (cs_turned s b) (cs_advanced s b) Dispatched b (cs_blocks s b)"
      using blocks_okD [OF bo, of b] by simp
    from dispatch_runs [OF this, of False] a A_dispatch show ?thesis by (blast intro: c_dispatch)
  next
    case (A_body b)
    with a pend_expected [OF po] have "cs_phase s b = Running" by auto
    then have "block_ok (cs_turned s b) (cs_advanced s b) Running b (cs_blocks s b)"
      using blocks_okD [OF bo, of b] by simp
    from finish_runs [OF this] have "\<exists>t. run_finish b None s = Inr t" by (auto simp: run_finish_def)
    with a A_body show ?thesis by (blast intro: c_finish)
  qed (use a in \<open>blast intro: cascade_step.intros\<close>)+
qed

lemma steps_keep_inv:
  "cascade_inv s \<Longrightarrow> (cascade_step ^^ k) s t \<Longrightarrow> cascade_inv t \<and> k + cascade_weight t \<le> cascade_weight s"
proof (induction k arbitrary: t)
  case 0
  then show ?case by simp
next
  case (Suc k)
  then obtain u where u: "(cascade_step ^^ k) s u" "cascade_step u t" by auto
  with Suc have "cascade_inv u" "k + cascade_weight u \<le> cascade_weight s" by auto
  with weight_step [OF _ u(2)] cascade_inv_step [OF _ u(2)] show ?case by fastforce
qed

text \<open>
  (C3) Every launched task completes. From any reachable state, whatever the interleaving, at most
  \<open>cascade_weight\<close> further steps can be taken, and when no step is possible any more every task
  has settled (its body ran, or its cancellation token skipped it) and all pipes are idle: no
  schedule of the threads livelocks, starves or wedges a set of multi-object accesses.
\<close>

theorem cascade_completes:
  assumes "cascade_reach s" and "(cascade_step ^^ k) s t"
  shows "k \<le> cascade_weight s \<and>
    ((\<nexists>u. cascade_step t u) \<longrightarrow>
       (\<forall>b. cs_phase t b \<noteq> Unlaunched \<longrightarrow> cs_phase t b = Settled) \<and> (\<forall>p. pipe_idle (cs_pipes t p)))"
proof -
  from steps_keep_inv [OF cascade_inv_reach [OF assms(1)] assms(2)]
  have inv: "cascade_inv t" and k: "k \<le> cascade_weight s" by auto
  with pending_enabled [OF inv] quiet_settled [OF inv] quiet_idle [OF inv] show ?thesis by blast
qed

section \<open>Witnesses\<close>

text \<open>Two tasks that both read pipe 7, both brought to their bodies, then both run to the end.\<close>

definition demo_link :: "block_id \<Rightarrow> pipe_link" where
  "demo_link b = \<lparr>lk_owner = b, lk_pipe = 7, lk_index = 0, lk_mode = Read_only\<rparr>"

definition demo_to_turn :: "block_id \<Rightarrow> cascade \<Rightarrow> cascade" where
  "demo_to_turn b s = turn_release (demo_link b) (fire_task_turn (demo_link b)
     (pipe_enter_link (demo_link b) (launch_task b (make_piped [demo_link b]) s)))"

definition demo_start :: "block_id \<Rightarrow> cascade \<Rightarrow> cascade" where
  "demo_start b s = projr (run_dispatch b False (demo_to_turn b s))"

definition demo_end :: "block_id \<Rightarrow> cascade \<Rightarrow> cascade" where
  "demo_end b s = advance_link (demo_link b) (projr (run_finish b None s))"


definition demo_one :: cascade where
  "demo_one = demo_start 1 (cascade_init (\<lambda>_. 0))"

lemma demo_fresh: "fresh_piped b (make_piped [demo_link b])"
  by (simp add: fresh_piped_def make_piped_def make_bare_block_def canonical_links_def demo_link_def
      default_flags_def)

lemma demo_turn_fields:
  assumes "pp_queue (cs_pipes s 7) = []" and "\<not> writer_active (cs_pipes s 7)"
  shows "cs_pend (demo_to_turn b s) = add_mset (A_dispatch b) (cs_pend s)"
    and "cs_blocks (demo_to_turn b s) =
      (cs_blocks s)(b := make_piped [demo_link b]\<lparr>num_locks := 0, pipes_entered := 1\<rparr>)"
    and "cs_phase (demo_to_turn b s) = (cs_phase s)(b := Dispatched)"
    and "cs_pipes (demo_to_turn b s) =
      (cs_pipes s)(7 := (cs_pipes s 7)\<lparr>active_readers := active_readers (cs_pipes s 7) + 1\<rparr>)"
  using assms
  by (simp_all add: demo_to_turn_def demo_link_def launch_task_def pipe_enter_link_def fire_task_turn_def
      turn_release_def follow_up_def make_piped_def make_bare_block_def Let_def pipe_defs)
    (simp_all add: release_lock_def Let_def fun_eq_iff execution_flag_def)

lemma demo_start_fields:
  assumes "pp_queue (cs_pipes s 7) = []" and "\<not> writer_active (cs_pipes s 7)"
  shows "run_dispatch b False (demo_to_turn b s) = Inr (demo_start b s)"
    and "cs_pend (demo_start b s) = add_mset (A_body b) (cs_pend s)"
    and "cs_phase (demo_start b s) = (cs_phase s)(b := Running)"
    and "cs_blocks (demo_start b s) = (cs_blocks s)(b := make_piped [demo_link b]
      \<lparr>num_locks := execution_flag + 1, pipes_entered := 1, body_claimed := True\<rparr>)"
    and "cs_pipes (demo_start b s) =
      (cs_pipes s)(7 := (cs_pipes s 7)\<lparr>active_readers := active_readers (cs_pipes s 7) + 1\<rparr>)"
  using assms
  by (simp_all add: demo_start_def run_dispatch_def demo_turn_fields run_begin_def claim_def make_piped_def
      make_bare_block_def)

lemma demo_start_reach:
  assumes "cascade_reach s" and "cs_phase s b = Unlaunched"
    and free: "pp_queue (cs_pipes s 7) = []" "\<not> writer_active (cs_pipes s 7)"
  shows "cascade_reach (demo_start b s)"
proof -
  let ?l = "demo_link b" and ?s = "launch_task b (make_piped [demo_link b]) s"
  have "cascade_reach ?s" using assms(1,2) demo_fresh by (rule cr_launch)
  then have "cascade_reach (pipe_enter_link ?l ?s)"
    by (rule cr_step) (rule c_enter, simp add: launch_task_def make_piped_def)
  then have "cascade_reach (fire_task_turn ?l (pipe_enter_link ?l ?s))"
    by (rule cr_step)
      (rule c_fire, use free in \<open>simp add: pipe_enter_link_def launch_task_def pipe_defs demo_link_def Let_def make_piped_def\<close>)
  then have "cascade_reach (demo_to_turn b s)" unfolding demo_to_turn_def
    by (rule cr_step) (rule c_turn, simp add: fire_task_turn_def Let_def)
  then show ?thesis
    by (rule cr_step) (rule c_dispatch [OF _ demo_start_fields(1)], use free in \<open>simp_all add: demo_turn_fields\<close>)
qed

lemma demo_end_fields:
  assumes "pp_queue (cs_pipes s 7) = []" and "\<not> writer_active (cs_pipes s 7)"
    and "cs_blocks s b = make_piped [demo_link b]
      \<lparr>num_locks := execution_flag + 1, pipes_entered := 1, body_claimed := True\<rparr>"
    and "A_body b \<in># cs_pend s"
  shows "cascade_step s (projr (run_finish b None s))"
    and "cascade_step (projr (run_finish b None s)) (demo_end b s)"
    and "cs_pend (demo_end b s) = cs_pend s - {#A_body b#}"
    and "cs_phase (demo_end b s) = (cs_phase s)(b := Settled)"
proof -
  let ?f = "projr (run_finish b None s)"
  have fin: "run_finish b None s = Inr ?f"
    and f: "cs_pend ?f = add_mset (A_advance (demo_link b)) (cs_pend s - {#A_body b#})"
      "cs_phase ?f = (cs_phase s)(b := Settled)" "cs_pipes ?f = cs_pipes s"
    using assms by (simp_all add: run_finish_def run_end_def settle_def make_piped_def make_bare_block_def
        default_flags_def advance_actions_def)
  have rel: "fst (snd (release_and_redispatch (cs_pipes s 7) Read_only)) = []"
    using assms(1) by (simp add: pipe_defs collect_admissions.simps case_prod_beta)
  show "cascade_step s ?f" by (rule c_finish [OF assms(4) fin])
  show "cascade_step ?f (demo_end b s)" unfolding demo_end_def by (rule c_advance) (simp add: f)
  show "cs_pend (demo_end b s) = cs_pend s - {#A_body b#}"
    "cs_phase (demo_end b s) = (cs_phase s)(b := Settled)"
    using assms f rel by (simp_all add: demo_end_def advance_link_def Let_def case_prod_beta demo_link_def fun_upd_def)
qed

lemma demo_free: "pp_queue (cs_pipes (cascade_init (\<lambda>_. 0)) p) = []" "\<not> writer_active (cs_pipes (cascade_init (\<lambda>_. 0)) p)"
  "cs_phase (cascade_init (\<lambda>_. 0)) b = Unlaunched" "cs_pend (cascade_init (\<lambda>_. 0)) = {#}"
  by (simp_all add: cascade_init_def pipe_init_def)



lemma demo_one_reach: "cascade_reach demo_one"
  unfolding demo_one_def by (intro demo_start_reach cr_init) (simp_all add: demo_free)

lemma demo_one_state:
  "pp_queue (cs_pipes demo_one 7) = []" "\<not> writer_active (cs_pipes demo_one 7)"
  "cs_blocks demo_one 1 = make_piped [demo_link 1]
      \<lparr>num_locks := execution_flag + 1, pipes_entered := 1, body_claimed := True\<rparr>"
  "cs_pend demo_one = {#A_body 1#}" "cs_phase demo_one 1 = Running"
  by (simp_all add: demo_one_def demo_start_fields demo_free)

lemmas demo_one_end = demo_end_fields [of demo_one 1, OF demo_one_state(1-3)]

lemma demo_quiet: "cs_pend s = {#} \<Longrightarrow> \<not> cascade_step s t"
  by (auto elim: cascade_step.cases)


theorem cascade_no_deadlock_witness:
  "cs_phase (demo_end 1 demo_one) 1 = Settled \<and> pipe_idle (cs_pipes (demo_end 1 demo_one) 7)"
proof -
  have "cascade_reach (demo_end 1 demo_one)"
    by (rule cr_step [OF cr_step [OF demo_one_reach]])
      (use demo_one_end in \<open>simp_all add: demo_one_state\<close>)
  from cascade_no_deadlock [OF this, of 1 7] demo_one_end show ?thesis by (simp add: demo_one_state)
qed

theorem cascade_completes_witness:
  "2 \<le> cascade_weight demo_one \<and> pipe_idle (cs_pipes (demo_end 1 demo_one) 7)"
proof -
  have "(cascade_step ^^ 2) demo_one (demo_end 1 demo_one)"
    using demo_one_end(1,2) by (auto simp: numeral_2_eq_2 demo_one_state)
  moreover have "\<nexists>u. cascade_step (demo_end 1 demo_one) u"
    using demo_one_end(3) by (simp add: demo_quiet demo_one_state)
  ultimately show ?thesis using cascade_completes [OF demo_one_reach, of 2 "demo_end 1 demo_one"] by blast
qed

end
