(* ===== verification/Graph_Compile.thy ===== *)
theory Graph_Compile
  imports Access_Context Pipe_Cascade "HOL-Library.Product_Lexorder"
begin

text \<open>
  \<^verbatim>\<open>Static_task_graph\<close> (include/ts/static_task_graph.h, src/static_task_graph.cpp) up to the point where it
  can run: declaring nodes and edges, and \<^verbatim>\<open>compile\<close>, which turns explicit edges and access conflicts into
  a DAG, finds cycles, fixes the canonical pipe order and binds every node's pipe links. The run itself is
  in theory \<open>Graph_Run\<close>.
\<close>

section \<open>State\<close>

record graph_node =
  nd_access :: "(addr \<times> access) list"
  nd_pipes :: "pipe_id list"
  nd_priority :: priority
  nd_priority_set :: bool
  nd_inline :: bool
  nd_pipe_indices :: "nat list"
  nd_pipe_modes :: "access list"
  nd_successors :: "nat list"
  nd_indegree :: nat
  nd_block :: tcb

record run_state =
  ru_remaining_deps :: "int list"
  ru_remaining_nodes :: int
  ru_done :: "tcb option"
  ru_token :: bool

text \<open>\<open>g_base\<close> stands for the addresses of the node blocks: block \<open>i\<close> of the graph has id \<open>g_base g + i\<close>.\<close>

record graph =
  g_id :: nat
  g_base :: nat
  g_nodes :: "graph_node list"
  g_explicit_edges :: "(nat \<times> nat) list"
  g_distinct_pipes :: "pipe_id list"
  g_pipe_instances :: "addr option list"
  g_pipe_modes :: "access list"
  g_lent :: "bool list"
  g_links_lent :: bool
  g_run :: "run_state option"
  g_compiled :: bool
  g_default_priority :: priority

record graph_handle =
  gh_graph :: "nat option"
  gh_index :: nat

definition graph_new :: "nat \<Rightarrow> nat \<Rightarrow> graph" where
  "graph_new gid base = \<lparr>g_id = gid, g_base = base, g_nodes = [], g_explicit_edges = [],
     g_distinct_pipes = [], g_pipe_instances = [], g_pipe_modes = [], g_lent = [],
     g_links_lent = False, g_run = None, g_compiled = False, g_default_priority = Normal\<rparr>"

section \<open>Building\<close>

fun declared_twice :: "(addr \<times> access) list \<Rightarrow> bool" where
  "declared_twice [] = False"
| "declared_twice (x # xs) = (list_ex (\<lambda>y. fst x = fst y) xs \<or> declared_twice xs)"

text \<open>\<^verbatim>\<open>add_node\<close> over the declared objects: instance, deduced mode and pipe of each argument.\<close>

definition add_node ::
  "graph \<Rightarrow> (addr \<times> access \<times> pipe_id) list \<Rightarrow> (graph \<times> graph_handle) result" where
  "add_node g objs =
     (let acc = map (\<lambda>(a, m, p). (a, m)) objs; pipes = map (\<lambda>(a, m, p). p) objs
      in if g_compiled g then Inl Graph_already_compiled
      else if declared_twice acc then Inl Graph_duplicate_object
      else Inr (g\<lparr>g_nodes := g_nodes g @ [\<lparr>nd_access = acc, nd_pipes = pipes,
                   nd_priority = g_default_priority g, nd_priority_set = False, nd_inline = False,
                   nd_pipe_indices = [], nd_pipe_modes = [], nd_successors = [], nd_indegree = 0,
                   nd_block = make_bare_block\<rparr>]\<rparr>,
                \<lparr>gh_graph = Some (g_id g), gh_index = length (g_nodes g)\<rparr>))"

definition add_edge :: "graph \<Rightarrow> nat \<Rightarrow> nat \<Rightarrow> graph result" where
  "add_edge g prerequisite successor =
     (if g_compiled g then Inl Graph_already_compiled
      else Inr (g\<lparr>g_explicit_edges := g_explicit_edges g @ [(prerequisite, successor)]\<rparr>))"

definition node_after :: "graph \<Rightarrow> graph_handle \<Rightarrow> graph_handle \<Rightarrow> graph result" where
  "node_after g this prerequisite =
     (if gh_graph this = Some (g_id g) \<and> gh_graph this = gh_graph prerequisite
      then add_edge g (gh_index prerequisite) (gh_index this) else Inr g)"

definition node_before :: "graph \<Rightarrow> graph_handle \<Rightarrow> graph_handle \<Rightarrow> graph result" where
  "node_before g this successor =
     (if gh_graph this = Some (g_id g) \<and> gh_graph this = gh_graph successor
      then add_edge g (gh_index this) (gh_index successor) else Inr g)"

definition set_priority :: "graph \<Rightarrow> graph_handle \<Rightarrow> priority \<Rightarrow> graph" where
  "set_priority g this p =
     (if gh_graph this = Some (g_id g) then
        g\<lparr>g_nodes := (g_nodes g)[gh_index this :=
            (g_nodes g ! gh_index this)\<lparr>nd_priority := p, nd_priority_set := True\<rparr>]\<rparr>
      else g)"

definition set_default_priority :: "graph \<Rightarrow> priority \<Rightarrow> graph" where
  "set_default_priority g p = g\<lparr>g_default_priority := p,
     g_nodes := map (\<lambda>n. if \<not> nd_priority_set n then n\<lparr>nd_priority := p\<rparr> else n) (g_nodes g)\<rparr>"

definition set_inline :: "graph \<Rightarrow> graph_handle \<Rightarrow> graph" where
  "set_inline g this =
     (if gh_graph this = Some (g_id g) then
        g\<lparr>g_nodes := (g_nodes g)[gh_index this := (g_nodes g ! gh_index this)\<lparr>nd_inline := True\<rparr>]\<rparr>
      else g)"

section \<open>Compiling\<close>

definition conflicts :: "graph_node \<Rightarrow> graph_node \<Rightarrow> bool" where
  "conflicts a b =
     list_ex (\<lambda>(instance_a, mode_a). list_ex (\<lambda>(instance_b, mode_b).
         instance_a = instance_b \<and> (mode_a = Read_write \<or> mode_b = Read_write)) (nd_access b)) (nd_access a)"

definition conflict_pairs :: "graph_node list \<Rightarrow> (nat \<times> nat) list" where
  "conflict_pairs ns =
     concat (map (\<lambda>i. map (Pair i) (filter (\<lambda>j. conflicts (ns ! i) (ns ! j)) [Suc i..<length ns]))
       [0..<length ns])"

text \<open>\<^verbatim>\<open>std::set<std::pair<int, int>> edges\<close>: no duplicates, iterated in lexicographic order.\<close>

definition compile_edges :: "graph \<Rightarrow> (nat \<times> nat) list" where
  "compile_edges g = sort (remdups (g_explicit_edges g @ conflict_pairs (g_nodes g)))"

definition add_successor :: "nat \<times> nat \<Rightarrow> graph_node list \<Rightarrow> graph_node list" where
  "add_successor e ns =
     (let ns1 = ns[fst e := (ns ! fst e)\<lparr>nd_successors := nd_successors (ns ! fst e) @ [snd e]\<rparr>]
      in ns1[snd e := (ns1 ! snd e)\<lparr>nd_indegree := Suc (nd_indegree (ns1 ! snd e))\<rparr>])"

text \<open>\<^verbatim>\<open>std::set<Pipe*>\<close> copied into \<^verbatim>\<open>distinct_pipes_\<close>, and the inverse map \<^verbatim>\<open>index_of\<close>.\<close>

definition distinct_pipes :: "graph_node list \<Rightarrow> pipe_id list" where
  "distinct_pipes ns = sort (remdups (concat (map nd_pipes ns)))"

definition index_of :: "pipe_id list \<Rightarrow> pipe_id \<Rightarrow> nat" where
  "index_of ps p = length (takeWhile (\<lambda>q. q \<noteq> p) ps)"

definition record_pipe ::
  "pipe_id list \<Rightarrow> pipe_id \<times> addr \<times> access \<Rightarrow> addr option list \<times> access list \<Rightarrow>
     addr option list \<times> access list" where
  "record_pipe ps d tables =
     (let pi = index_of ps (fst d)
      in ((fst tables)[pi := Some (fst (snd d))],
          if snd (snd d) = Read_write then (snd tables)[pi := Read_write] else snd tables))"

definition declarations :: "graph_node \<Rightarrow> (pipe_id \<times> addr \<times> access) list" where
  "declarations n = zip (nd_pipes n) (nd_access n)"

definition pipe_tables :: "pipe_id list \<Rightarrow> graph_node list \<Rightarrow> addr option list \<times> access list" where
  "pipe_tables ps ns = fold (record_pipe ps) (concat (map declarations ns))
     (replicate (length ps) None, replicate (length ps) Read_only)"

text \<open>\<^verbatim>\<open>std::map::emplace\<close>: keys stay sorted, an existing key keeps its value.\<close>

fun map_emplace :: "nat \<Rightarrow> 'v \<Rightarrow> (nat \<times> 'v) list \<Rightarrow> (nat \<times> 'v) list" where
  "map_emplace k v [] = [(k, v)]"
| "map_emplace k v ((k', v') # m) =
     (if k < k' then (k, v) # (k', v') # m
      else if k = k' then (k', v') # m
      else (k', v') # map_emplace k v m)"

definition mode_by_pipe :: "pipe_id list \<Rightarrow> graph_node \<Rightarrow> (nat \<times> access) list" where
  "mode_by_pipe ps n =
     fold (\<lambda>d. map_emplace (index_of ps (fst d)) (snd (snd d))) (declarations n) []"

definition set_canonical :: "pipe_id list \<Rightarrow> graph_node \<Rightarrow> graph_node" where
  "set_canonical ps n = n\<lparr>nd_pipe_indices := map fst (mode_by_pipe ps n),
     nd_pipe_modes := map snd (mode_by_pipe ps n)\<rparr>"

text \<open>
  The links of one node over the pairs (pipe index, mode) it takes turns on; \<^verbatim>\<open>index\<close> and
  \<^verbatim>\<open>pipe_count\<close> are 8-bit casts.
\<close>

definition u8 :: "nat \<Rightarrow> nat" where
  "u8 n = n mod 256"

definition bind_links :: "block_id \<Rightarrow> pipe_id list \<Rightarrow> (nat \<times> access) list \<Rightarrow> pipe_link list" where
  "bind_links b ps turns =
     take (u8 (length turns))
       (map (\<lambda>(k, pi, m). \<lparr>lk_owner = b, lk_pipe = ps ! pi, lk_index = u8 k, lk_mode = m\<rparr>)
         (enumerate 0 turns))"

definition node_block :: tcb where
  "node_block = make_bare_block\<lparr>has_execute := True, has_on_complete := True,
     flags := default_flags\<lparr>fl_borrowed := True\<rparr>\<rparr>"

definition install_block :: "nat \<Rightarrow> pipe_id list \<Rightarrow> nat \<Rightarrow> graph_node \<Rightarrow> graph_node" where
  "install_block base ps i n = n\<lparr>nd_block := node_block\<lparr>
     pipe_links := bind_links (base + i) ps (zip (nd_pipe_indices n) (nd_pipe_modes n))\<rparr>\<rparr>"

subsection \<open>Cycle detection\<close>

text \<open>
  The inner loop of \<^verbatim>\<open>detect_cycles\<close>. Targets are always in range (\<open>graph_wf\<close>); the guard only
  makes the function total.
\<close>

fun relax :: "nat list \<Rightarrow> int list \<Rightarrow> nat list \<Rightarrow> int list \<times> nat list" where
  "relax [] indegree queue = (indegree, queue)"
| "relax (s # ss) indegree queue =
     (if s < length indegree then
        (let d = indegree ! s - 1
         in relax ss (indegree[s := d]) (if d = 0 then queue @ [s] else queue))
      else relax ss indegree queue)"

lemma relax_measure:
  "relax ss ind q = (ind', q') \<Longrightarrow>
     sum_list (map nat ind') + length q' \<le> sum_list (map nat ind) + length q"
proof (induction ss ind q arbitrary: ind' q' rule: relax.induct)
  case (2 s ss ind q)
  have upd: "sum_list (map nat (ind[s := ind ! s - 1])) + (if ind ! s - 1 = 0 then 1 else 0)
      \<le> sum_list (map nat ind)" if "s < length ind"
    using that by (simp add: map_update sum_list_update)
      (use elem_le_sum_list [of s "map nat ind"] in auto)
  from 2 upd show ?case by (fastforce simp: Let_def split: if_splits)
qed simp

function kahn :: "nat list list \<Rightarrow> int list \<Rightarrow> nat list \<Rightarrow> nat \<Rightarrow> nat" where
  "kahn succs indegree [] visited = visited"
| "kahn succs indegree (n # queue) visited =
     (let (indegree', queue') = relax (succs ! n) indegree queue
      in kahn succs indegree' queue' (Suc visited))"
  by pat_completeness auto
termination
proof (relation "measure (\<lambda>(succs, ind, q, v). sum_list (map nat ind) + length q)", goal_cases)
  case (2 succs ind n q v r ind' q')
  then show ?case using relax_measure [of "succs ! n" ind q ind' q'] by simp
qed simp

definition detect_cycles :: "graph_node list \<Rightarrow> unit result" where
  "detect_cycles ns =
     (let indegree = map (\<lambda>n. int (nd_indegree n)) ns;
          queue = filter (\<lambda>i. indegree ! i = 0) [0..<length ns]
      in if kahn (map nd_successors ns) indegree queue 0 \<noteq> length ns then Inl Graph_cycle else Inr ())"

text \<open>
  \<^verbatim>\<open>compile\<close>. The pipes are passed through for \<^verbatim>\<open>graph_refs\<close>, the registration that
  \<^verbatim>\<open>~Guarded\<close> consults.
\<close>

definition register_pipes :: "pipe_id list \<Rightarrow> (pipe_id \<Rightarrow> pipe) \<Rightarrow> pipe_id \<Rightarrow> pipe" where
  "register_pipes ps pipes =
     fold (\<lambda>p st. st(p := (st p)\<lparr>graph_refs := graph_refs (st p) + 1\<rparr>)) ps pipes"


definition compiled_nodes :: "graph \<Rightarrow> graph_node list" where
  "compiled_nodes g = map (set_canonical (distinct_pipes (g_nodes g)))
     (fold add_successor (compile_edges g) (g_nodes g))"

definition compile :: "graph \<Rightarrow> (pipe_id \<Rightarrow> pipe) \<Rightarrow> (graph \<times> (pipe_id \<Rightarrow> pipe)) result" where
  "compile g pipes =
     (if g_compiled g then Inl Graph_already_compiled
      else
        let ps = distinct_pipes (g_nodes g);
            tables = pipe_tables ps (g_nodes g);
            ns = compiled_nodes g
        in case detect_cycles ns of
             Inl e \<Rightarrow> Inl e
           | Inr _ \<Rightarrow> Inr (g\<lparr>
               g_nodes := map (\<lambda>(i, n). install_block (g_base g) ps i n) (enumerate 0 ns),
               g_distinct_pipes := ps, g_pipe_instances := fst tables, g_pipe_modes := snd tables,
               g_lent := replicate (length ps) False, g_links_lent := False,
               g_run := Some \<lparr>ru_remaining_deps = replicate (length ns) 0, ru_remaining_nodes = 0,
                 ru_done = None, ru_token = False\<rparr>,
               g_compiled := True\<rparr>,
               register_pipes ps pipes))"



lemmas graph_op_defs [graph_defs] = graph_new_def add_node_def add_edge_def node_after_def node_before_def
  set_priority_def set_default_priority_def set_inline_def

section \<open>Kahn's algorithm\<close>

lemma relax_spec:
  assumes "distinct ss" and "\<forall>s \<in> set ss. s < length ind"
  shows "relax ss ind q =
    (map (\<lambda>i. ind ! i - (if i \<in> set ss then 1 else 0)) [0..<length ind], q @ filter (\<lambda>s. ind ! s = 1) ss)"
  using assms
proof (induction ss ind q rule: relax.induct)
  case (1 ind q)
  then show ?case by (simp add: map_nth)
next
  case (2 s ss ind q)
  have "map (\<lambda>i. ind[s := ind ! s - 1] ! i - (if i \<in> set ss then 1 else 0)) [0..<length ind] =
      map (\<lambda>i. ind ! i - (if i \<in> set (s # ss) then 1 else 0)) [0..<length ind]"
    using 2(3,4) by (auto simp: nth_list_update)
  moreover have "filter (\<lambda>r. ind[s := ind ! s - 1] ! r = 1) ss = filter (\<lambda>r. ind ! r = 1) ss"
    using 2(3,4) by (intro filter_cong) (simp_all, metis nth_list_update_neq)
  ultimately show ?case using 2 by (simp add: Let_def)
qed

text \<open>The edges of a successor table, and what the loop knows after visiting the nodes \<open>V\<close>.\<close>

definition succ_edges :: "nat list list \<Rightarrow> (nat \<times> nat) set" where
  "succ_edges succs = {(i, j). i < length succs \<and> j \<in> set (succs ! i)}"

definition succs_ok :: "nat list list \<Rightarrow> bool" where
  "succs_ok succs \<longleftrightarrow> (\<forall>ss \<in> set succs. distinct ss \<and> (\<forall>j \<in> set ss. j < length succs))"

definition open_preds :: "nat list list \<Rightarrow> nat set \<Rightarrow> nat \<Rightarrow> nat set" where
  "open_preds succs V i = {j. (j, i) \<in> succ_edges succs \<and> j \<notin> V}"

definition kahn_inv :: "nat list list \<Rightarrow> nat set \<Rightarrow> int list \<Rightarrow> nat list \<Rightarrow> bool" where
  "kahn_inv succs V ind q \<longleftrightarrow>
     length ind = length succs \<and> V \<subseteq> {..<length succs} \<and> set q \<subseteq> {..<length succs}
     \<and> distinct q \<and> set q \<inter> V = {}
     \<and> (\<forall>i < length succs. ind ! i = int (card (open_preds succs V i)))
     \<and> (\<forall>i < length succs. i \<in> V \<union> set q \<longleftrightarrow> open_preds succs V i = {})
     \<and> (\<forall>i \<in> V \<union> set q. (i, i) \<notin> (succ_edges succs)\<^sup>+)"

lemma open_preds_finite: "finite (open_preds succs V i)"
  by (rule finite_subset [of _ "{..<length succs}"]) (auto simp: open_preds_def succ_edges_def)

lemma open_preds_visit:
  "open_preds succs (insert n V) i = open_preds succs V i - {n}"
  by (auto simp: open_preds_def)

lemma card_open_preds_visit:
  assumes "n \<notin> V" and "n < length succs"
  shows "int (card (open_preds succs (insert n V) i)) =
    int (card (open_preds succs V i)) - (if i \<in> set (succs ! n) then 1 else 0)"
proof -
  have "n \<in> open_preds succs V i \<longleftrightarrow> i \<in> set (succs ! n)"
    using assms by (auto simp: open_preds_def succ_edges_def)
  moreover have "card (open_preds succs V i) > 0" if "n \<in> open_preds succs V i"
    using that open_preds_finite by (auto simp: card_gt_0_iff)
  ultimately show ?thesis
    by (auto simp: open_preds_visit card_Diff_singleton_if of_nat_diff Suc_leI)
qed

text \<open>A node all of whose predecessors lie on no cycle lies on none either.\<close>

lemma no_cycle_through:
  assumes "open_preds succs V i = {}" and "i \<notin> V" and "\<forall>j \<in> V. (j, j) \<notin> (succ_edges succs)\<^sup>+"
  shows "(i, i) \<notin> (succ_edges succs)\<^sup>+"
proof
  assume "(i, i) \<in> (succ_edges succs)\<^sup>+"
  then obtain j where ij: "(i, j) \<in> (succ_edges succs)\<^sup>*" and ji: "(j, i) \<in> succ_edges succs"
    by (meson tranclD2)
  with assms(1) have "j \<in> V" by (auto simp: open_preds_def)
  moreover have "(j, j) \<in> (succ_edges succs)\<^sup>+" using ji ij by (rule rtrancl_into_trancl2)
  ultimately show False using assms(3) by blast
qed

lemma kahn_visit:
  assumes ok: "succs_ok succs" and inv: "kahn_inv succs V ind (n # q)"
    and rel: "relax (succs ! n) ind q = (ind', q')"
  shows "kahn_inv succs (insert n V) ind' q'" and "n \<notin> V" and "n < length succs"
proof -
  show nV: "n \<notin> V" and n: "n < length succs" using inv by (auto simp: kahn_inv_def)
  have ss: "distinct (succs ! n)" "\<forall>s \<in> set (succs ! n). s < length succs"
    using ok n nth_mem by (fastforce simp: succs_ok_def)+
  have len: "length ind = length succs" and ind: "\<And>i. i < length succs \<Longrightarrow> ind ! i = int (card (open_preds succs V i))"
    and zero: "\<And>i. i < length succs \<Longrightarrow> i \<in> V \<union> set (n # q) \<longleftrightarrow> open_preds succs V i = {}"
    using inv by (auto simp: kahn_inv_def)
  have new: "ind' = map (\<lambda>i. ind ! i - (if i \<in> set (succs ! n) then 1 else 0)) [0..<length succs]"
    "q' = q @ filter (\<lambda>s. ind ! s = 1) (succs ! n)"
    using relax_spec [of "succs ! n" ind q] ss len rel by auto
  have ind': "ind' ! i = int (card (open_preds succs (insert n V) i))" if "i < length succs" for i
    using that ind [OF that] card_open_preds_visit [OF nV n, of i] by (simp add: new(1))
  have fresh: "s \<notin> insert n V \<union> set q \<and> open_preds succs (insert n V) s = {}"
    if "s \<in> set (succs ! n)" "ind ! s = 1" for s
  proof -
    have s: "s < length succs" using ss that by blast
    have "card (open_preds succs V s) = 1" using ind [OF s] that(2) by simp
    moreover have "n \<in> open_preds succs V s" using that(1) n nV by (auto simp: open_preds_def succ_edges_def)
    ultimately have "open_preds succs V s = {n}" by (metis card_1_singletonE singletonD)
    then show ?thesis using zero [OF s] by (auto simp: open_preds_visit)
  qed
  have still: "i \<in> insert n V \<union> set q' \<longleftrightarrow> open_preds succs (insert n V) i = {}" if i: "i < length succs" for i
  proof
    assume "i \<in> insert n V \<union> set q'"
    then show "open_preds succs (insert n V) i = {}"
      using fresh [of i] zero [OF i] by (auto simp: new(2) open_preds_visit)
  next
    assume none: "open_preds succs (insert n V) i = {}"
    show "i \<in> insert n V \<union> set q'"
    proof (cases "open_preds succs V i = {}")
      case False
      with none have one: "open_preds succs V i = {n}" by (auto simp: open_preds_visit)
      then have "i \<in> set (succs ! n)" by (auto simp: open_preds_def succ_edges_def)
      moreover have "ind ! i = 1" using ind [OF i] one by simp
      ultimately show ?thesis by (simp add: new(2))
    qed (use zero [OF i] in \<open>auto simp: new(2)\<close>)
  qed
  have old: "\<forall>i \<in> insert n V. (i, i) \<notin> (succ_edges succs)\<^sup>+" using inv by (auto simp: kahn_inv_def)
  have acyc: "(i, i) \<notin> (succ_edges succs)\<^sup>+" if "i \<in> insert n V \<union> set q'" for i
  proof (cases "i \<in> insert n V \<union> set q")
    case True
    then show ?thesis using inv by (auto simp: kahn_inv_def)
  next
    case False
    with that have "open_preds succs (insert n V) i = {}" using fresh [of i] by (auto simp: new(2))
    then show ?thesis using no_cycle_through [OF _ _ old] False by blast
  qed
  have "distinct q'" using inv ss(1) fresh by (auto simp: kahn_inv_def new(2))
  moreover have "set q' \<inter> insert n V = {}" using inv fresh by (auto simp: kahn_inv_def new(2))
  ultimately show "kahn_inv succs (insert n V) ind' q'"
    using inv ind' still acyc ss(2) n new(1) by (auto simp: kahn_inv_def new(2))
qed

lemma kahn_counts:
  "succs_ok succs \<Longrightarrow> kahn_inv succs V ind q \<Longrightarrow>
     \<exists>W ind'. kahn_inv succs W ind' [] \<and> kahn succs ind q (card V) = card W"
proof (induction succs ind q "card V" arbitrary: V rule: kahn.induct)
  case (1 succs ind)
  then show ?case by auto
next
  case (2 succs ind n q)
  obtain ind' q' where rel: "relax (succs ! n) ind q = (ind', q')" by fastforce
  note vis = kahn_visit [OF 2(2,3) rel]
  have "finite V" using 2(3) finite_subset by (auto simp: kahn_inv_def)
  with vis(2) have "Suc (card V) = card (insert n V)" by simp
  with 2(1) [OF rel [symmetric] refl, of "insert n V"] vis(1) 2(2) rel show ?case by simp
qed

lemma kahn_final:
  assumes "kahn_inv succs W ind []"
  shows "card W = length succs \<longleftrightarrow> acyclic (succ_edges succs)"
proof
  assume "card W = length succs"
  moreover have "W \<subseteq> {..<length succs}" using assms by (simp add: kahn_inv_def)
  ultimately have "W = {..<length succs}" by (metis card_lessThan card_subset_eq finite_lessThan)
  then have "(i, i) \<notin> (succ_edges succs)\<^sup>+" for i
    using assms by (auto simp: kahn_inv_def succ_edges_def dest: tranclD)
  then show "acyclic (succ_edges succs)" by (simp add: acyclic_def)
next
  assume acyc: "acyclic (succ_edges succs)"
  have "finite (succ_edges succs)"
    by (rule finite_subset [of _ "Sigma {..<length succs} (\<lambda>i. set (succs ! i))"]) (auto simp: succ_edges_def)
  with acyc have wf: "wf (succ_edges succs)" by (simp add: finite_acyclic_wf)
  have "W = {..<length succs}"
  proof (rule ccontr)
    assume "W \<noteq> {..<length succs}"
    then obtain i where "i \<in> {..<length succs} - W" using assms by (auto simp: kahn_inv_def)
    from wfE_min [OF wf this] obtain m where m: "m \<in> {..<length succs} - W"
      and least: "\<And>j. (j, m) \<in> succ_edges succs \<Longrightarrow> j \<notin> {..<length succs} - W" by blast
    from least have "open_preds succs W m = {}" by (auto simp: open_preds_def succ_edges_def)
    with m assms show False by (auto simp: kahn_inv_def)
  qed
  then show "card W = length succs" by simp
qed

section \<open>What compile derives\<close>

text \<open>The order a graph declares: explicit edges, and conflicting nodes in declaration order.\<close>

definition graph_order :: "graph \<Rightarrow> (nat \<times> nat) set" where
  "graph_order g = set (g_explicit_edges g)
     \<union> {(i, j). i < j \<and> j < length (g_nodes g) \<and> conflicts (g_nodes g ! i) (g_nodes g ! j)}"

definition graph_wf :: "graph \<Rightarrow> bool" where
  "graph_wf g \<longleftrightarrow>
     (\<forall>i j. (i, j) \<in> set (g_explicit_edges g) \<longrightarrow> i < length (g_nodes g) \<and> j < length (g_nodes g))
     \<and> (\<forall>n \<in> set (g_nodes g). nd_successors n = [] \<and> nd_indegree n = 0
          \<and> length (nd_pipes n) = length (nd_access n) \<and> distinct (map fst (nd_access n)))"

lemma compile_edges_set: "set (compile_edges g) = graph_order g"
  by (fastforce simp: compile_edges_def conflict_pairs_def graph_order_def image_iff)

lemma compile_edges_distinct: "distinct (compile_edges g)"
  by (simp add: compile_edges_def)

lemma graph_order_range: "graph_wf g \<Longrightarrow> (i, j) \<in> graph_order g \<Longrightarrow> i < length (g_nodes g) \<and> j < length (g_nodes g)"
  by (auto simp: graph_order_def graph_wf_def)

lemma add_successor_length [simp]: "length (add_successor e ns) = length ns"
  by (simp add: add_successor_def Let_def)

lemma add_successor_nth:
  assumes "fst e < length ns" and "snd e < length ns" and "i < length ns"
  shows "add_successor e ns ! i = (ns ! i)\<lparr>
    nd_successors := nd_successors (ns ! i) @ (if fst e = i then [snd e] else []),
    nd_indegree := nd_indegree (ns ! i) + (if snd e = i then 1 else 0)\<rparr>"
  using assms by (auto simp: add_successor_def Let_def nth_list_update)

lemma add_successors_length [simp]: "length (fold add_successor es ns) = length ns"
  by (induction es arbitrary: ns) auto

lemma add_successors_nth:
  assumes "\<forall>e \<in> set es. fst e < length ns \<and> snd e < length ns" and "i < length ns"
  shows "fold add_successor es ns ! i = (ns ! i)\<lparr>
    nd_successors := nd_successors (ns ! i) @ map snd (filter (\<lambda>e. fst e = i) es),
    nd_indegree := nd_indegree (ns ! i) + length (filter (\<lambda>e. snd e = i) es)\<rparr>"
  using assms by (induction es arbitrary: ns) (auto simp: add_successor_nth)

lemma compiled_nodes_length [simp]: "length (compiled_nodes g) = length (g_nodes g)"
  by (simp add: compiled_nodes_def)

lemma compiled_nodes_nth:
  assumes "graph_wf g" and "i < length (g_nodes g)"
  shows "compiled_nodes g ! i = set_canonical (distinct_pipes (g_nodes g)) ((g_nodes g ! i)\<lparr>
    nd_successors := map snd (filter (\<lambda>e. fst e = i) (compile_edges g)),
    nd_indegree := length (filter (\<lambda>e. snd e = i) (compile_edges g))\<rparr>)"
proof -
  have "\<forall>e \<in> set (compile_edges g). fst e < length (g_nodes g) \<and> snd e < length (g_nodes g)"
    using graph_order_range [OF assms(1)] by (auto simp: compile_edges_set)
  moreover have "nd_successors (g_nodes g ! i) = []" "nd_indegree (g_nodes g ! i) = 0"
    using assms by (auto simp: graph_wf_def)
  ultimately show ?thesis using assms(2) by (simp add: compiled_nodes_def add_successors_nth)
qed

lemma compiled_successors:
  assumes "graph_wf g" and "i < length (g_nodes g)"
  shows "set (nd_successors (compiled_nodes g ! i)) = {j. (i, j) \<in> graph_order g}"
    and "distinct (nd_successors (compiled_nodes g ! i))"
    and "nd_indegree (compiled_nodes g ! i) = card {j. (j, i) \<in> graph_order g}"
proof -
  note nth = compiled_nodes_nth [OF assms]
  show "set (nd_successors (compiled_nodes g ! i)) = {j. (i, j) \<in> graph_order g}"
    by (force simp: nth set_canonical_def compile_edges_set [symmetric])
  show "distinct (nd_successors (compiled_nodes g ! i))"
    using compile_edges_distinct [of g]
    by (auto simp: nth set_canonical_def distinct_map inj_on_def)
  have "length (filter (\<lambda>e. snd e = i) (compile_edges g)) = card {e \<in> set (compile_edges g). snd e = i}"
    using compile_edges_distinct [of g] by (metis distinct_card distinct_filter set_filter)
  also have "{e \<in> set (compile_edges g). snd e = i} = (\<lambda>j. (j, i)) ` {j. (j, i) \<in> graph_order g}"
    by (auto simp: compile_edges_set)
  also have "card \<dots> = card {j. (j, i) \<in> graph_order g}" by (simp add: card_image inj_on_def)
  finally show "nd_indegree (compiled_nodes g ! i) = card {j. (j, i) \<in> graph_order g}"
    by (simp add: nth set_canonical_def)
qed

lemma compiled_succ_edges:
  assumes "graph_wf g"
  shows "succ_edges (map nd_successors (compiled_nodes g)) = graph_order g"
    and "succs_ok (map nd_successors (compiled_nodes g))"
proof -
  note range = graph_order_range [OF assms] and succs = compiled_successors(1,2) [OF assms]
  show "succ_edges (map nd_successors (compiled_nodes g)) = graph_order g"
    using succs(1) range by (auto simp: succ_edges_def)
  show "succs_ok (map nd_successors (compiled_nodes g))"
    unfolding succs_ok_def
  proof
    fix ss assume "ss \<in> set (map nd_successors (compiled_nodes g))"
    then obtain i where "i < length (g_nodes g)" "ss = nd_successors (compiled_nodes g ! i)"
      by (auto simp: in_set_conv_nth)
    with succs range show "distinct ss \<and> (\<forall>j \<in> set ss. j < length (map nd_successors (compiled_nodes g)))"
      by auto
  qed
qed

lemma kahn_start:
  assumes "graph_wf g"
  defines "ind \<equiv> map (\<lambda>n. int (nd_indegree n)) (compiled_nodes g)"
  shows "kahn_inv (map nd_successors (compiled_nodes g)) {} ind
    (filter (\<lambda>i. ind ! i = 0) [0..<length (compiled_nodes g)])"
proof -
  let ?succs = "map nd_successors (compiled_nodes g)"
  have preds: "open_preds ?succs {} i = {j. (j, i) \<in> graph_order g}" for i
    by (simp add: open_preds_def compiled_succ_edges [OF assms(1)])
  have ind: "ind ! i = int (card (open_preds ?succs {} i))" if "i < length (g_nodes g)" for i
    using that compiled_successors(3) [OF assms(1) that] by (simp add: ind_def preds)
  have zero: "ind ! i = 0 \<longleftrightarrow> open_preds ?succs {} i = {}" if "i < length (g_nodes g)" for i
    using ind [OF that] open_preds_finite [of ?succs "{}" i] by (simp add: card_eq_0_iff)
  have "(i, i) \<notin> (succ_edges ?succs)\<^sup>+" if "i < length (g_nodes g)" "ind ! i = 0" for i
    using no_cycle_through [of ?succs "{}" i] zero that by simp
  with ind zero show ?thesis by (auto simp: kahn_inv_def ind_def)
qed

lemma detect_cycles_exact:
  assumes "graph_wf g"
  shows "detect_cycles (compiled_nodes g) = (if acyclic (graph_order g) then Inr () else Inl Graph_cycle)"
proof -
  from kahn_counts [OF compiled_succ_edges(2) [OF assms] kahn_start [OF assms]]
  obtain W ind' where "kahn_inv (map nd_successors (compiled_nodes g)) W ind' []"
    and "kahn (map nd_successors (compiled_nodes g)) (map (\<lambda>n. int (nd_indegree n)) (compiled_nodes g))
      (filter (\<lambda>i. map (\<lambda>n. int (nd_indegree n)) (compiled_nodes g) ! i = 0) [0..<length (compiled_nodes g)]) 0 = card W"
    by auto
  with kahn_final [of "map nd_successors (compiled_nodes g)" W ind'] compiled_succ_edges(1) [OF assms]
  show ?thesis by (simp add: detect_cycles_def Let_def)
qed

section \<open>Canonical links\<close>

lemma map_emplace_keys: "fst ` set (map_emplace k v m) = insert k (fst ` set m)"
  by (induction k v m rule: map_emplace.induct) auto

lemma map_emplace_sorted: "sorted_wrt (<) (map fst m) \<Longrightarrow> sorted_wrt (<) (map fst (map_emplace k v m))"
proof (induction k v m rule: map_emplace.induct)
  case (2 k v k' v' m)
  have "fst ` set (map_emplace k v m) = insert k (fst ` set m)" by (rule map_emplace_keys)
  with 2 show ?case by (force simp: image_iff)
qed simp

lemma map_emplace_new: "k \<notin> fst ` set m \<Longrightarrow> set (map_emplace k v m) = insert (k, v) (set m)"
  by (induction k v m rule: map_emplace.induct) auto

lemma index_of_nth:
  assumes "p \<in> set ps"
  shows "index_of ps p < length ps" and "ps ! index_of ps p = p"
  using assms by (induction ps) (auto simp: index_of_def)

lemma index_of_inj: "p \<in> set ps \<Longrightarrow> q \<in> set ps \<Longrightarrow> index_of ps p = index_of ps q \<Longrightarrow> p = q"
  by (metis index_of_nth(2))

lemma mode_fold_sorted:
  "sorted_wrt (<) (map fst m) \<Longrightarrow>
     sorted_wrt (<) (map fst (fold (\<lambda>d. map_emplace (index_of ps (fst d)) (snd (snd d))) ds m))"
  by (induction ds arbitrary: m) (auto intro: map_emplace_sorted)

lemma mode_fold_set:
  assumes "distinct (map (\<lambda>d. index_of ps (fst d)) ds)"
    and "\<forall>d \<in> set ds. index_of ps (fst d) \<notin> fst ` set m"
  shows "set (fold (\<lambda>d. map_emplace (index_of ps (fst d)) (snd (snd d))) ds m) =
    set m \<union> (\<lambda>d. (index_of ps (fst d), snd (snd d))) ` set ds"
  using assms
proof (induction ds arbitrary: m)
  case (Cons d ds)
  then have "set (map_emplace (index_of ps (fst d)) (snd (snd d)) m) =
      insert (index_of ps (fst d), snd (snd d)) (set m)"
    by (simp add: map_emplace_new)
  moreover have "\<forall>x \<in> set ds. index_of ps (fst x) \<notin>
      fst ` set (map_emplace (index_of ps (fst d)) (snd (snd d)) m)"
  proof
    fix x assume "x \<in> set ds"
    with Cons.prems show "index_of ps (fst x) \<notin>
        fst ` set (map_emplace (index_of ps (fst d)) (snd (snd d)) m)"
      unfolding map_emplace_keys by (metis (no_types, lifting) distinct.simps(2) image_eqI insert_iff
          list.set_intros(2) list.set_map list.simps(9))
  qed
  ultimately show ?case using Cons by simp
qed simp

lemma bind_links_length [simp]: "length turns < 256 \<Longrightarrow> length (bind_links b ps turns) = length turns"
  by (simp add: bind_links_def u8_def)

lemma bind_links_nth:
  "length turns < 256 \<Longrightarrow> k < length turns \<Longrightarrow> bind_links b ps turns ! k =
     \<lparr>lk_owner = b, lk_pipe = ps ! fst (turns ! k), lk_index = k, lk_mode = snd (turns ! k)\<rparr>"
  by (simp add: bind_links_def u8_def nth_enumerate_eq case_prod_beta)

lemma bind_links_pipes:
  "length turns < 256 \<Longrightarrow> map lk_pipe (bind_links b ps turns) = map (\<lambda>t. ps ! fst t) turns"
  by (rule nth_equalityI) (simp_all add: bind_links_nth)

lemma bind_links_canonical:
  assumes "length turns < 256" and "sorted_wrt (<) (map fst turns)" and "sorted_wrt (<) ps"
    and "\<forall>t \<in> set turns. fst t < length ps"
  shows "canonical_links b (bind_links b ps turns)"
proof -
  have "sorted_wrt (<) (map (\<lambda>t. ps ! fst t) turns)"
    unfolding sorted_wrt_map
    by (rule sorted_wrt_mono_rel [OF _ assms(2) [unfolded sorted_wrt_map]])
      (use assms(3,4) in \<open>auto simp: sorted_wrt_iff_nth_less\<close>)
  with assms(1) show ?thesis by (simp add: canonical_links_def bind_links_pipes bind_links_nth)
qed

lemma bind_links_set:
  assumes "length turns < 256"
  shows "(\<lambda>l. (lk_pipe l, lk_mode l)) ` set (bind_links b ps turns) = (\<lambda>t. (ps ! fst t, snd t)) ` set turns"
proof -
  have "map (\<lambda>l. (lk_pipe l, lk_mode l)) (bind_links b ps turns) = map (\<lambda>t. (ps ! fst t, snd t)) turns"
    by (rule nth_equalityI) (use assms in \<open>simp_all add: bind_links_nth\<close>)
  then show ?thesis by (metis image_set)
qed

lemma distinct_pipes_sorted: "sorted_wrt (<) (distinct_pipes ns)"
  by (simp add: distinct_pipes_def strict_sorted_iff)

lemma distinct_pipes_mem: "n \<in> set ns \<Longrightarrow> d \<in> set (declarations n) \<Longrightarrow> fst d \<in> set (distinct_pipes ns)"
  by (cases d) (auto simp: distinct_pipes_def declarations_def dest: set_zip_leftD)

lemma mode_by_pipe_sorted: "sorted_wrt (<) (map fst (mode_by_pipe ps n))"
  unfolding mode_by_pipe_def by (rule mode_fold_sorted) simp

lemma mode_fold_keys:
  "fst ` set (fold (\<lambda>d. map_emplace (index_of ps (fst d)) (snd (snd d))) ds m) =
     fst ` set m \<union> (\<lambda>d. index_of ps (fst d)) ` set ds"
  by (induction ds arbitrary: m) (auto simp: map_emplace_keys)

lemma mode_by_pipe_range:
  assumes "n \<in> set ns" and "t \<in> set (mode_by_pipe (distinct_pipes ns) n)"
  shows "fst t < length (distinct_pipes ns)"
proof -
  have "fst t \<in> fst ` set (mode_by_pipe (distinct_pipes ns) n)" using assms(2) by simp
  then obtain d where "d \<in> set (declarations n)" "fst t = index_of (distinct_pipes ns) (fst d)"
    by (auto simp: mode_by_pipe_def mode_fold_keys)
  with distinct_pipes_mem [OF assms(1)] index_of_nth(1) show ?thesis by metis
qed

lemma map_emplace_length: "length (map_emplace k v m) \<le> Suc (length m)"
  by (induction k v m rule: map_emplace.induct) auto

lemma mode_fold_length:
  "length (fold (\<lambda>d. map_emplace (index_of ps (fst d)) (snd (snd d))) ds m) \<le> length ds + length m"
proof (induction ds arbitrary: m)
  case (Cons d ds)
  from Cons [of "map_emplace (index_of ps (fst d)) (snd (snd d)) m"]
    map_emplace_length [of "index_of ps (fst d)" "snd (snd d)" m] show ?case by simp
qed simp

lemma mode_by_pipe_length: "length (mode_by_pipe ps n) \<le> length (declarations n)"
  using mode_fold_length [of ps "declarations n" "[]"] by (simp add: mode_by_pipe_def)

lemma declarations_map: 
  "length (nd_pipes n) = length (nd_access n) \<Longrightarrow> map fst (declarations n) = nd_pipes n"
  "length (nd_pipes n) = length (nd_access n) \<Longrightarrow> length (declarations n) = length (nd_access n)"
  by (simp_all add: declarations_def)

text \<open>The turns of a node are its declared (pipe, mode) pairs.\<close>

lemma mode_by_pipe_set:
  assumes "n \<in> set ns" and "length (nd_pipes n) = length (nd_access n)" and "distinct (nd_pipes n)"
  shows "(\<lambda>t. (distinct_pipes ns ! fst t, snd t)) ` set (mode_by_pipe (distinct_pipes ns) n) =
    (\<lambda>d. (fst d, snd (snd d))) ` set (declarations n)"
proof -
  let ?ps = "distinct_pipes ns"
  have "inj_on (index_of ?ps) (set (nd_pipes n))"
    by (rule inj_onI, rule index_of_inj) (use assms(1) in \<open>auto simp: distinct_pipes_def\<close>)
  then have "distinct (map (index_of ?ps) (map fst (declarations n)))"
    using assms(3) by (simp add: declarations_map(1) [OF assms(2)] distinct_map)
  then have "set (mode_by_pipe ?ps n) = (\<lambda>d. (index_of ?ps (fst d), snd (snd d))) ` set (declarations n)"
    unfolding mode_by_pipe_def by (subst mode_fold_set) (simp_all add: comp_def)
  moreover have "?ps ! index_of ?ps (fst d) = fst d" if "d \<in> set (declarations n)" for d
    using index_of_nth(2) [OF distinct_pipes_mem [OF assms(1) that]] .
  ultimately show ?thesis by (simp add: image_image)
qed

section \<open>Graphs as programs build them\<close>

definition handle_ok :: "graph \<Rightarrow> graph_handle \<Rightarrow> bool" where
  "handle_ok g h \<longleftrightarrow> (gh_graph h = Some (g_id g) \<longrightarrow> gh_index h < length (g_nodes g))"

inductive graph_built :: "graph \<Rightarrow> bool" where
  gb_new: "graph_built (graph_new gid base)"
| gb_node: "graph_built g \<Longrightarrow> add_node g objs = Inr (g', h) \<Longrightarrow> graph_built g'"
| gb_after: "graph_built g \<Longrightarrow> handle_ok g a \<Longrightarrow> handle_ok g b \<Longrightarrow> node_after g a b = Inr g' \<Longrightarrow> graph_built g'"
| gb_before: "graph_built g \<Longrightarrow> handle_ok g a \<Longrightarrow> handle_ok g b \<Longrightarrow> node_before g a b = Inr g' \<Longrightarrow> graph_built g'"
| gb_priority: "graph_built g \<Longrightarrow> handle_ok g a \<Longrightarrow> graph_built (set_priority g a p)"
| gb_default: "graph_built g \<Longrightarrow> graph_built (set_default_priority g p)"
| gb_inline: "graph_built g \<Longrightarrow> handle_ok g a \<Longrightarrow> graph_built (set_inline g a)"

lemma declared_twice_iff: "declared_twice xs \<longleftrightarrow> \<not> distinct (map fst xs)"
  by (induction xs) (auto simp: list_ex_iff image_iff)

lemma graph_wf_node:
  assumes "graph_wf g" and "add_node g objs = Inr (g', h)"
  shows "graph_wf g' \<and> \<not> g_compiled g'"
  using assms by (auto simp: add_node_def Let_def graph_wf_def declared_twice_iff less_SucI split: if_splits)

lemma graph_wf_edge:
  assumes "graph_wf g" and "add_edge g i j = Inr g'" and "i < length (g_nodes g)" and "j < length (g_nodes g)"
  shows "graph_wf g' \<and> \<not> g_compiled g'"
  using assms by (auto simp: add_edge_def graph_wf_def split: if_splits)

lemma graph_wf_update:
  assumes "graph_wf g" and "length ns = length (g_nodes g)"
    and "\<And>i. i < length ns \<Longrightarrow> nd_successors (ns ! i) = nd_successors (g_nodes g ! i)
      \<and> nd_indegree (ns ! i) = nd_indegree (g_nodes g ! i) \<and> nd_pipes (ns ! i) = nd_pipes (g_nodes g ! i)
      \<and> nd_access (ns ! i) = nd_access (g_nodes g ! i)"
  shows "graph_wf (g\<lparr>g_nodes := ns\<rparr>)"
  using assms unfolding graph_wf_def by (auto simp: all_set_conv_all_nth)

lemma graph_built_wf: "graph_built g \<Longrightarrow> graph_wf g \<and> \<not> g_compiled g"
proof (induction rule: graph_built.induct)
  case (gb_new gid base)
  show ?case by (simp add: graph_new_def graph_wf_def)
next
  case (gb_node g objs g' h)
  then show ?case using graph_wf_node by blast
next
  case (gb_after g a b g')
  then show ?case using graph_wf_edge by (fastforce simp: node_after_def handle_ok_def split: if_splits)
next
  case (gb_before g a b g')
  then show ?case using graph_wf_edge by (fastforce simp: node_before_def handle_ok_def split: if_splits)
next
  case (gb_priority g a p)
  then show ?case
    by (auto simp: set_priority_def handle_ok_def nth_list_update intro!: graph_wf_update)
next
  case (gb_default g p)
  then have "graph_wf (g\<lparr>g_nodes := map (\<lambda>n. if \<not> nd_priority_set n then n\<lparr>nd_priority := p\<rparr> else n) (g_nodes g)\<rparr>)"
    by (intro graph_wf_update) auto
  with gb_default show ?case by (simp add: set_default_priority_def graph_wf_def)
next
  case (gb_inline g a)
  then show ?case
    by (auto simp: set_inline_def handle_ok_def nth_list_update intro!: graph_wf_update)
qed

lemma compile_cases:
  assumes "graph_built g"
  shows "compile g pipes = (if acyclic (graph_order g) then
      Inr (g\<lparr>g_nodes := map (\<lambda>(i, n). install_block (g_base g) (distinct_pipes (g_nodes g)) i n)
               (enumerate 0 (compiled_nodes g)),
             g_distinct_pipes := distinct_pipes (g_nodes g),
             g_pipe_instances := fst (pipe_tables (distinct_pipes (g_nodes g)) (g_nodes g)),
             g_pipe_modes := snd (pipe_tables (distinct_pipes (g_nodes g)) (g_nodes g)),
             g_lent := replicate (length (distinct_pipes (g_nodes g))) False, g_links_lent := False,
             g_run := Some \<lparr>ru_remaining_deps = replicate (length (g_nodes g)) 0, ru_remaining_nodes = 0,
               ru_done = None, ru_token = False\<rparr>,
             g_compiled := True\<rparr>, register_pipes (distinct_pipes (g_nodes g)) pipes)
     else Inl Graph_cycle)"
  using graph_built_wf [OF assms] by (simp add: compile_def Let_def detect_cycles_exact)

lemma compile_node:
  assumes "graph_built g" and "compile g pipes = Inr (g', pipes')" and "i < length (g_nodes g)"
  shows "g_nodes g' ! i = install_block (g_base g) (distinct_pipes (g_nodes g)) i (compiled_nodes g ! i)"
    and "length (g_nodes g') = length (g_nodes g)"
  using assms by (auto simp: compile_cases nth_enumerate_eq split: if_splits)

text \<open>
  (C6) The compiled DAG is the declared order. For any graph put together with \<^verbatim>\<open>add_node\<close>, \<^verbatim>\<open>after\<close>,
  \<^verbatim>\<open>before\<close> and the priority and inline setters: \<^verbatim>\<open>compile\<close> reports a cycle exactly when the explicit
  edges together with the conflicts (in declaration order) are cyclic, and otherwise every node's
  successor list holds exactly the nodes ordered after it and its indegree counts exactly the nodes
  ordered before it.
\<close>

theorem compile_exact:
  assumes "graph_built g"
  shows "(compile g pipes = Inl Graph_cycle \<longleftrightarrow> \<not> acyclic (graph_order g))
    \<and> (acyclic (graph_order g) \<longrightarrow> (\<exists>g' pipes'. compile g pipes = Inr (g', pipes') \<and> g_compiled g'
         \<and> (\<forall>i < length (g_nodes g). distinct (nd_successors (g_nodes g' ! i))
              \<and> set (nd_successors (g_nodes g' ! i)) = {j. (i, j) \<in> graph_order g}
              \<and> nd_indegree (g_nodes g' ! i) = card {j. (j, i) \<in> graph_order g})))"
proof -
  note wf = graph_built_wf [OF assms, THEN conjunct1]
  have "compile g pipes = Inl Graph_cycle \<longleftrightarrow> \<not> acyclic (graph_order g)"
    by (simp add: compile_cases [OF assms])
  moreover have "\<exists>g' pipes'. compile g pipes = Inr (g', pipes') \<and> g_compiled g'" if "acyclic (graph_order g)"
    using that by (simp add: compile_cases [OF assms])
  moreover have "distinct (nd_successors (g_nodes g' ! i))
      \<and> set (nd_successors (g_nodes g' ! i)) = {j. (i, j) \<in> graph_order g}
      \<and> nd_indegree (g_nodes g' ! i) = card {j. (j, i) \<in> graph_order g}"
    if "compile g pipes = Inr (g', pipes')" "i < length (g_nodes g)" for g' pipes' i
    using compile_node(1) [OF assms that] compiled_successors [OF wf that(2)] by (simp add: install_block_def)
  ultimately show ?thesis by blast
qed

text \<open>
  Access declarations alone always compile. Without explicit edges the order is by declaration
  index, so \<^verbatim>\<open>compile\<close> cannot report a cycle, and any two conflicting nodes are ordered by an edge
  from the one declared first.
\<close>

theorem compile_conflicts_ordered:
  assumes "graph_built g" and "g_explicit_edges g = []"
  shows "\<exists>g' pipes'. compile g pipes = Inr (g', pipes')
    \<and> (\<forall>i j. i < j \<longrightarrow> j < length (g_nodes g) \<longrightarrow> conflicts (g_nodes g ! i) (g_nodes g ! j) \<longrightarrow>
         j \<in> set (nd_successors (g_nodes g' ! i)))"
proof -
  have "graph_order g \<subseteq> less_than" using assms(2) by (auto simp: graph_order_def)
  then have acyc: "acyclic (graph_order g)"
    by (meson acyclic_subset wf_acyclic wf_less_than)
  then obtain g' pipes' where c: "compile g pipes = Inr (g', pipes')" by (simp add: compile_cases [OF assms(1)])
  note wf = graph_built_wf [OF assms(1), THEN conjunct1]
  have "j \<in> set (nd_successors (g_nodes g' ! i))"
    if "i < j" "j < length (g_nodes g)" "conflicts (g_nodes g ! i) (g_nodes g ! j)" for i j
    using compile_node(1) [OF assms(1) c, of i] compiled_successors(1) [OF wf, of i] that
    by (simp add: install_block_def graph_order_def)
  with c show ?thesis by blast
qed

lemma compile_turns:
  assumes "graph_built g" and "compile g pipes = Inr (g', pipes')" and "i < length (g_nodes g)"
  defines "turns \<equiv> mode_by_pipe (distinct_pipes (g_nodes g)) (g_nodes g ! i)"
  shows "zip (nd_pipe_indices (g_nodes g' ! i)) (nd_pipe_modes (g_nodes g' ! i)) = turns"
    and "nd_block (g_nodes g' ! i) =
      node_block\<lparr>pipe_links := bind_links (g_base g + i) (distinct_pipes (g_nodes g)) turns\<rparr>"
    and "sorted_wrt (<) (map fst turns)" and "\<forall>t \<in> set turns. fst t < length (distinct_pipes (g_nodes g))"
    and "length turns \<le> length (nd_access (g_nodes g ! i))"
proof -
  have n: "g_nodes g ! i \<in> set (g_nodes g)" using assms(3) by simp
  have wf: "graph_wf g" using graph_built_wf [OF assms(1)] by simp
  then have len: "length (nd_pipes (g_nodes g ! i)) = length (nd_access (g_nodes g ! i))"
    using n by (auto simp: graph_wf_def)
  have decl: "declarations (n\<lparr>nd_successors := a, nd_indegree := b\<rparr>) = declarations n" for a b n
    by (simp add: declarations_def)
  note node = compile_node(1) [OF assms(1-3)] compiled_nodes_nth [OF wf assms(3)]
  show zip: "zip (nd_pipe_indices (g_nodes g' ! i)) (nd_pipe_modes (g_nodes g' ! i)) = turns"
    by (simp add: node install_block_def set_canonical_def turns_def zip_map_fst_snd mode_by_pipe_def decl)
  show "nd_block (g_nodes g' ! i) =
      node_block\<lparr>pipe_links := bind_links (g_base g + i) (distinct_pipes (g_nodes g)) turns\<rparr>"
    by (simp add: node install_block_def set_canonical_def turns_def zip_map_fst_snd mode_by_pipe_def decl)
  show "sorted_wrt (<) (map fst turns)" unfolding turns_def by (rule mode_by_pipe_sorted)
  show "\<forall>t \<in> set turns. fst t < length (distinct_pipes (g_nodes g))"
    using mode_by_pipe_range [OF n] by (auto simp: turns_def)
  show "length turns \<le> length (nd_access (g_nodes g ! i))"
    using mode_by_pipe_length [of "distinct_pipes (g_nodes g)" "g_nodes g ! i"] declarations_map(2) [OF len]
    by (simp add: turns_def)
qed

text \<open>
  (C30) Every node's links follow the canonical order. After a successful \<^verbatim>\<open>compile\<close>, the links of a node
  with at most \<^verbatim>\<open>max_entries\<close> objects are owned by its block, numbered from 0, in ascending pipe
  address order, and name exactly the pipes and modes the node declared.
\<close>

theorem compile_links_canonical:
  assumes "graph_built g" and "compile g pipes = Inr (g', pipes')" and "i < length (g_nodes g)"
    and "length (nd_access (g_nodes g ! i)) \<le> max_entries" and "distinct (nd_pipes (g_nodes g ! i))"
  shows "canonical_links (g_base g + i) (pipe_links (nd_block (g_nodes g' ! i)))
    \<and> (\<lambda>l. (lk_pipe l, lk_mode l)) ` set (pipe_links (nd_block (g_nodes g' ! i))) =
        set (zip (nd_pipes (g_nodes g ! i)) (map snd (nd_access (g_nodes g ! i))))"
proof -
  define ps where "ps = distinct_pipes (g_nodes g)"
  define n where "n = g_nodes g ! i"
  have n: "n \<in> set (g_nodes g)" using assms(3) by (simp add: n_def)
  have len: "length (nd_pipes n) = length (nd_access n)"
    using n graph_built_wf [OF assms(1)] by (auto simp: graph_wf_def)
  note turns = compile_turns [OF assms(1-3)]
  have links: "pipe_links (nd_block (g_nodes g' ! i)) = bind_links (g_base g + i) ps (mode_by_pipe ps n)"
    using turns(2) by (simp add: ps_def n_def)
  have short: "length (mode_by_pipe ps n) < 256"
    using turns(5) assms(4) by (simp add: n_def ps_def max_entries_def)
  have "canonical_links (g_base g + i) (bind_links (g_base g + i) ps (mode_by_pipe ps n))"
    by (rule bind_links_canonical [OF short])
      (use turns(3,4) in \<open>auto simp: ps_def n_def distinct_pipes_sorted\<close>)
  moreover have "(\<lambda>l. (lk_pipe l, lk_mode l)) ` set (bind_links (g_base g + i) ps (mode_by_pipe ps n)) =
      (\<lambda>d. (fst d, snd (snd d))) ` set (declarations n)"
    using bind_links_set [OF short] mode_by_pipe_set [OF n len] assms(5) by (simp add: ps_def n_def)
  moreover have "(\<lambda>d. (fst d, snd (snd d))) ` set (declarations n) = set (zip (nd_pipes n) (map snd (nd_access n)))"
    by (simp add: declarations_def zip_map2 case_prod_beta)
  ultimately show ?thesis by (simp add: links n_def)
qed




section \<open>Witnesses\<close>

text \<open>Two nodes: the first writes object 10 behind pipe 7, the second reads it and writes object 20.\<close>

definition demo_graph :: graph where
  "demo_graph = fst (projr (add_node (fst (projr (add_node (graph_new 1 100) [(10, Read_write, 7)])))
     [(10, Read_only, 7), (20, Read_write, 3)]))"

lemma demo_graph_built: "graph_built demo_graph"
proof -
  have 1: "add_node (graph_new 1 100) [(10, Read_write, 7)] =
      Inr (fst (projr (add_node (graph_new 1 100) [(10, Read_write, 7)])), \<lparr>gh_graph = Some 1, gh_index = 0\<rparr>)"
    by (simp add: add_node_def graph_new_def)
  have 2: "add_node (fst (projr (add_node (graph_new 1 100) [(10, Read_write, 7)])))
      [(10, Read_only, 7), (20, Read_write, 3)] = Inr (demo_graph, \<lparr>gh_graph = Some 1, gh_index = 1\<rparr>)"
    by (simp add: demo_graph_def add_node_def graph_new_def)
  show ?thesis by (rule gb_node [OF gb_node [OF gb_new 1] 2])
qed

lemma demo_graph_state:
  "length (g_nodes demo_graph) = 2" "g_explicit_edges demo_graph = []" "g_base demo_graph = 100"
  "nd_access (g_nodes demo_graph ! Suc 0) = [(10, Read_only), (20, Read_write)]"
  "nd_pipes (g_nodes demo_graph ! Suc 0) = [7, 3]"
  "conflicts (g_nodes demo_graph ! 0) (g_nodes demo_graph ! Suc 0)"
  by (simp_all add: demo_graph_def add_node_def graph_new_def conflicts_def)

lemma demo_graph_order: "graph_order demo_graph = {(0, Suc 0)}"
proof -
  have "i = 0 \<and> j = Suc 0" if "i < j" "j < 2" for i j :: nat using that by auto
  then show ?thesis using demo_graph_state by (auto simp: graph_order_def)
qed

definition demo_compiled :: "graph \<times> (pipe_id \<Rightarrow> pipe)" where
  "demo_compiled = projr (compile demo_graph (\<lambda>_. pipe_init 0))"

lemma demo_graph_acyclic: "acyclic (graph_order demo_graph)"
  by (simp add: demo_graph_order acyclic_insert) (simp add: acyclic_def)

lemma demo_compile: "compile demo_graph (\<lambda>_. pipe_init 0) = Inr (fst demo_compiled, snd demo_compiled)"
  by (simp add: demo_compiled_def compile_cases [OF demo_graph_built] demo_graph_acyclic)

theorem compile_exact_witness:
  "set (nd_successors (g_nodes (fst demo_compiled) ! 0)) = {1}"
proof -
  from compile_exact [OF demo_graph_built, of "\<lambda>_. pipe_init 0"] demo_graph_acyclic
  obtain g' pipes' where c: "compile demo_graph (\<lambda>_. pipe_init 0) = Inr (g', pipes')"
    and "\<forall>i < 2. set (nd_successors (g_nodes g' ! i)) = {j. (i, j) \<in> graph_order demo_graph}"
    unfolding demo_graph_state(1) by blast
  then have "set (nd_successors (g_nodes g' ! 0)) = {j. (0, j) \<in> graph_order demo_graph}" by simp
  moreover have "g' = fst demo_compiled" using c demo_compile by (metis Inr_inject prod.inject)
  ultimately show ?thesis by (simp add: demo_graph_order)
qed

theorem compile_conflicts_ordered_witness: "1 \<in> set (nd_successors (g_nodes (fst demo_compiled) ! 0))"
proof -
  from compile_conflicts_ordered [OF demo_graph_built demo_graph_state(2), of "\<lambda>_. pipe_init 0"]
  obtain g' pipes' where c: "compile demo_graph (\<lambda>_. pipe_init 0) = Inr (g', pipes')"
    and "Suc 0 \<in> set (nd_successors (g_nodes g' ! 0))"
    using demo_graph_state(6) unfolding demo_graph_state(1) by force
  moreover have "g' = fst demo_compiled" using c demo_compile by (metis Inr_inject prod.inject)
  ultimately show ?thesis by simp
qed

theorem compile_links_canonical_witness:
  "canonical_links 101 (pipe_links (nd_block (g_nodes (fst demo_compiled) ! 1)))
   \<and> (\<lambda>l. (lk_pipe l, lk_mode l)) ` set (pipe_links (nd_block (g_nodes (fst demo_compiled) ! 1))) =
       {(7, Read_only), (3, Read_write)}"
  using compile_links_canonical [OF demo_graph_built demo_compile, of 1] by (simp add: demo_graph_state max_entries_def)


end
