(* ===== verification/Graph_Run.thy ===== *)
theory Graph_Run
  imports Graph_Compile
begin

text \<open>
  Running a compiled \<^verbatim>\<open>Static_task_graph\<close> (src/static_task_graph.cpp): \<^verbatim>\<open>execute\<close> with its guards,
  lending and re-arming, and the run itself, in which data-ready nodes go through the pipe cascade
  (theory \<open>Pipe_Cascade\<close>), complete, release their successors and finally settle the run's handle.
  Other tasks may be launched on the same pipes at any time.
\<close>

section \<open>Starting a run\<close>

text \<open>The body wrapper of \<^verbatim>\<open>fill_node_modes\<close> declares the node's objects one after the other.\<close>

fun node_context ::
  "epoch_store \<Rightarrow> (pipe_id \<Rightarrow> nat) \<Rightarrow> (pipe_id \<times> addr \<times> access) list \<Rightarrow> access_context \<Rightarrow>
     access_context result" where
  "node_context epochs ranks [] ctx = Inr ctx"
| "node_context epochs ranks ((p, inst, mode) # ds) ctx =
     (case ctx_add epochs ctx inst mode (Some p) (ranks p) of
        Inl e \<Rightarrow> Inl e
      | Inr ctx' \<Rightarrow> node_context epochs ranks ds ctx')"

text \<open>
  \<^verbatim>\<open>bind_links_for_run\<close>. \<open>ctx\<close> is the calling thread's context, \<open>children\<close> the \<^verbatim>\<open>ready\<close> flags of the
  nested runs in the caller's scope.
\<close>

fun lend_flags ::
  "epoch_store \<Rightarrow> access_context option \<Rightarrow> (addr option \<times> access) list \<Rightarrow> bool list result" where
  "lend_flags epochs ctx [] = Inr []"
| "lend_flags epochs ctx ((inst, mode) # ps) =
     (case (ctx, inst) of
        (Some c, Some a) \<Rightarrow>
          if ctx_grants epochs c a mode
          then (case lend_flags epochs ctx ps of Inl e \<Rightarrow> Inl e | Inr fs \<Rightarrow> Inr (True # fs))
          else if mode = Read_write \<and> ctx_grants epochs c a Read_only then Inl Graph_lend_read_to_writer
          else (case lend_flags epochs ctx ps of Inl e \<Rightarrow> Inl e | Inr fs \<Rightarrow> Inr (False # fs))
      | _ \<Rightarrow> (case lend_flags epochs ctx ps of Inl e \<Rightarrow> Inl e | Inr fs \<Rightarrow> Inr (False # fs)))"

definition rebind_node :: "nat \<Rightarrow> pipe_id list \<Rightarrow> bool list \<Rightarrow> nat \<Rightarrow> graph_node \<Rightarrow> graph_node" where
  "rebind_node base ps lent i n = n\<lparr>nd_block := (nd_block n)\<lparr>pipe_links :=
     bind_links (base + i) ps (filter (\<lambda>t. \<not> lent ! fst t) (zip (nd_pipe_indices n) (nd_pipe_modes n)))\<rparr>\<rparr>"

definition bind_links_for_run ::
  "graph \<Rightarrow> epoch_store \<Rightarrow> access_context option \<Rightarrow> bool list \<Rightarrow> bool \<Rightarrow> graph result" where
  "bind_links_for_run g epochs cur children detach =
     (let ctx = (if detach then None else cur)
      in case lend_flags epochs ctx (zip (g_pipe_instances g) (g_pipe_modes g)) of
           Inl e \<Rightarrow> Inl e
         | Inr lent \<Rightarrow>
             let any = list_ex id lent
             in if any \<and> list_ex Not children then Inl Graph_lend_unawaited
                else if \<not> any \<and> \<not> g_links_lent g then Inr (g\<lparr>g_lent := lent\<rparr>)
                else Inr (g\<lparr>g_lent := lent, g_links_lent := any,
                       g_nodes := map (\<lambda>(i, n). rebind_node (g_base g) (g_distinct_pipes g) lent i n)
                         (enumerate 0 (g_nodes g))\<rparr>))"

text \<open>The per-node re-arm loop of \<^verbatim>\<open>execute\<close>.\<close>

definition rearm_block :: "graph_node \<Rightarrow> tcb" where
  "rearm_block n = (let b = nd_block n in b\<lparr>body_claimed := False, completed := False, cancelled := False,
     prereq_cancelled := False, ready := False, num_locks := word_of_nat (pipe_count b), pipes_entered := 0,
     flags := (flags b)\<lparr>fl_priority := nd_priority n, fl_run_inline := nd_inline n\<rparr>\<rparr>)"

definition roots :: "graph \<Rightarrow> nat list" where
  "roots g = filter (\<lambda>i. nd_indegree (g_nodes g ! i) = 0) [0..<length (g_nodes g)]"

text \<open>
  \<^verbatim>\<open>execute\<close> up to the kick-off loop: the armed graph, the roots it hands to \<^verbatim>\<open>on_data_ready\<close>, and whether
  the run joined the calling task's scope (\<^verbatim>\<open>add_nested\<close>). A graph with no node settles its handle at once.
\<close>

definition run_busy :: "graph \<Rightarrow> bool" where
  "run_busy g = (case g_run g of None \<Rightarrow> False
     | Some r \<Rightarrow> ru_remaining_nodes r \<noteq> 0 \<or> (case ru_done r of None \<Rightarrow> False | Some d \<Rightarrow> \<not> ready d))"

definition execute ::
  "graph \<Rightarrow> epoch_store \<Rightarrow> access_context option \<Rightarrow> bool list \<Rightarrow> bool \<Rightarrow> bool \<Rightarrow> bool \<Rightarrow>
     (graph \<times> nat list \<times> bool) result" where
  "execute g epochs cur children in_task token detach =
     (if \<not> g_compiled g then Inl Graph_not_compiled
      else if run_busy g then Inl Graph_run_in_flight
      else case bind_links_for_run g epochs cur children detach of
        Inl e \<Rightarrow> Inl e
      | Inr g1 \<Rightarrow>
          let join = (\<not> detach \<and> in_task);
              fresh = make_bare_block;
              handle = (if g_nodes g1 = [] then projr (settle fresh False) else (fresh, no_effects));
              run = \<lparr>ru_remaining_deps = map (\<lambda>n. int (nd_indegree n)) (g_nodes g1),
                     ru_remaining_nodes = int (length (g_nodes g1)), ru_done = Some (fst handle),
                     ru_token = token\<rparr>
          in Inr (g1\<lparr>g_nodes := map (\<lambda>n. n\<lparr>nd_block := rearm_block n\<rparr>) (g_nodes g1), g_run := Some run\<rparr>,
                  roots g1, join))"

section \<open>The run\<close>

text \<open>
  What threads still have to do for the graph: hand a data-ready node to its pipes, take one unit off a
  successor's counter, or count a node as complete. The last three fields are bookkeeping: which
  counters have been decremented, and which nodes have entered \<^verbatim>\<open>node_complete\<close> and finished it.
\<close>

datatype graph_action = GA_ready nat | GA_dep nat nat | GA_finish nat

record graph_run =
  gr_nodes :: "graph_node list"
  gr_base :: nat
  gr_run :: run_state
  gr_cascade :: cascade
  gr_todo :: "graph_action multiset"
  gr_dec :: "(nat \<times> nat) set"
  gr_compl :: "nat set"
  gr_fin :: "nat set"

abbreviation node_phase :: "graph_run \<Rightarrow> nat \<Rightarrow> phase" where
  "node_phase s i \<equiv> cs_phase (gr_cascade s) (gr_base s + i)"

definition released_all :: "graph_run \<Rightarrow> nat \<Rightarrow> bool" where
  "released_all s i \<longleftrightarrow> node_phase s i = Settled
     \<and> cs_advanced (gr_cascade s) (gr_base s + i) = {..<length (links_of (gr_cascade s) (gr_base s + i))}"

text \<open>\<^verbatim>\<open>on_data_ready\<close>: enter the first pipe, or dispatch directly.\<close>

definition on_data_ready :: "nat \<Rightarrow> graph_run \<Rightarrow> graph_run" where
  "on_data_ready i s = s\<lparr>gr_todo := gr_todo s - {#GA_ready i#},
     gr_cascade := launch_task (gr_base s + i) (nd_block (gr_nodes s ! i)) (gr_cascade s)\<rparr>"

text \<open>
  \<^verbatim>\<open>graph_node_completed\<close> after the links were advanced: \<^verbatim>\<open>node_complete\<close> begins, with its decrements and
  its final count still to do.
\<close>

definition node_complete :: "nat \<Rightarrow> graph_run \<Rightarrow> graph_run" where
  "node_complete i s = s\<lparr>gr_todo := gr_todo s
       + mset (map (GA_dep i) (nd_successors (gr_nodes s ! i))) + {#GA_finish i#},
     gr_compl := insert i (gr_compl s)\<rparr>"

definition settle_dependency :: "nat \<Rightarrow> nat \<Rightarrow> graph_run \<Rightarrow> graph_run" where
  "settle_dependency i j s =
     (let old = ru_remaining_deps (gr_run s) ! j
      in s\<lparr>gr_run := (gr_run s)\<lparr>ru_remaining_deps := (ru_remaining_deps (gr_run s))[j := old - 1]\<rparr>,
           gr_todo := gr_todo s - {#GA_dep i j#} + (if old = 1 then {#GA_ready j#} else {#}),
           gr_dec := insert (i, j) (gr_dec s)\<rparr>)"

definition settle_handle :: "tcb \<Rightarrow> bool \<Rightarrow> tcb" where
  "settle_handle d token = fst (projr (settle d token))"

definition count_node :: "nat \<Rightarrow> graph_run \<Rightarrow> graph_run" where
  "count_node i s =
     (let old = ru_remaining_nodes (gr_run s); r = (gr_run s)\<lparr>ru_remaining_nodes := old - 1\<rparr>
      in s\<lparr>gr_run := (if old = 1
             then r\<lparr>ru_done := map_option (\<lambda>d. settle_handle d (ru_token r)) (ru_done r)\<rparr> else r),
           gr_todo := gr_todo s - {#GA_finish i#},
           gr_fin := insert i (gr_fin s)\<rparr>)"

text \<open>
  Steps of the machinery. A cascade step of any task is a step of the system; a node's own dispatch
  (\<^verbatim>\<open>run_graph_node\<close>) consults the run's token.
\<close>

inductive other_step :: "nat \<Rightarrow> nat \<Rightarrow> cascade \<Rightarrow> cascade \<Rightarrow> bool" for base n where
  o_enter: "A_enter l \<in># cs_pend c \<Longrightarrow> other_step base n c (pipe_enter_link l c)"
| o_fire: "A_fire l \<in># cs_pend c \<Longrightarrow> other_step base n c (fire_task_turn l c)"
| o_turn: "A_turn l \<in># cs_pend c \<Longrightarrow> other_step base n c (turn_release l c)"
| o_dispatch: "A_dispatch b \<in># cs_pend c \<Longrightarrow> b \<notin> {base..<base + n} \<Longrightarrow>
     run_dispatch b token c = Inr c' \<Longrightarrow> other_step base n c c'"
| o_finish: "A_body b \<in># cs_pend c \<Longrightarrow> run_finish b result c = Inr c' \<Longrightarrow> other_step base n c c'"
| o_advance: "A_advance l \<in># cs_pend c \<Longrightarrow> other_step base n c (advance_link l c)"

inductive graph_step :: "graph_run \<Rightarrow> graph_run \<Rightarrow> bool" where
  gs_cascade: "other_step (gr_base s) (length (gr_nodes s)) (gr_cascade s) c \<Longrightarrow>
     graph_step s (s\<lparr>gr_cascade := c\<rparr>)"
| gs_dispatch: "i < length (gr_nodes s) \<Longrightarrow> A_dispatch (gr_base s + i) \<in># cs_pend (gr_cascade s) \<Longrightarrow>
     run_dispatch (gr_base s + i) (ru_token (gr_run s)) (gr_cascade s) = Inr c \<Longrightarrow>
     graph_step s (s\<lparr>gr_cascade := c\<rparr>)"
| gs_complete: "i < length (gr_nodes s) \<Longrightarrow> released_all s i \<Longrightarrow> i \<notin> gr_compl s \<Longrightarrow>
     graph_step s (node_complete i s)"
| gs_dep: "GA_dep i j \<in># gr_todo s \<Longrightarrow> graph_step s (settle_dependency i j s)"
| gs_ready: "GA_ready i \<in># gr_todo s \<Longrightarrow> graph_step s (on_data_ready i s)"
| gs_finish: "GA_finish i \<in># gr_todo s \<Longrightarrow> graph_step s (count_node i s)"

text \<open>The kick-off of an executed graph on a system of tasks that has not seen its node blocks.\<close>

definition graph_start :: "graph \<Rightarrow> nat list \<Rightarrow> cascade \<Rightarrow> graph_run" where
  "graph_start g rs c = \<lparr>gr_nodes = g_nodes g, gr_base = g_base g, gr_run = the (g_run g), gr_cascade = c,
     gr_todo = mset (map GA_ready rs), gr_dec = {}, gr_compl = {}, gr_fin = {}\<rparr>"

text \<open>The nodes' objects fit an access context, and each object has its own pipe.\<close>

definition nodes_declared_ok :: "graph \<Rightarrow> bool" where
  "nodes_declared_ok g \<longleftrightarrow>
     (\<forall>n \<in> set (g_nodes g). length (nd_access n) \<le> max_entries \<and> distinct (nd_pipes n))"

text \<open>
  The reachable states of one run: the environment may launch further tasks and may request
  cancellation at any time.
\<close>

inductive graph_reach :: "graph \<Rightarrow> graph_run \<Rightarrow> bool" for g where
  gr_start: "graph_built g \<Longrightarrow> nodes_declared_ok g \<Longrightarrow> compile g pipes = Inr (g1, pipes1) \<Longrightarrow>
     execute g1 epochs cur children in_task token detach = Inr (g2, rs, join) \<Longrightarrow>
     cascade_reach c \<Longrightarrow> (\<forall>i < length (g_nodes g). cs_phase c (g_base g + i) = Unlaunched) \<Longrightarrow>
     graph_reach g (graph_start g2 rs c)"
| gr_step: "graph_reach g s \<Longrightarrow> graph_step s t \<Longrightarrow> graph_reach g t"
| gr_launch: "graph_reach g s \<Longrightarrow> b \<notin> {gr_base s..<gr_base s + length (gr_nodes s)} \<Longrightarrow>
     cs_phase (gr_cascade s) b = Unlaunched \<Longrightarrow> fresh_piped b blk \<Longrightarrow>
     graph_reach g (s\<lparr>gr_cascade := launch_task b blk (gr_cascade s)\<rparr>)"
| gr_cancel: "graph_reach g s \<Longrightarrow> graph_reach g (s\<lparr>gr_run := (gr_run s)\<lparr>ru_token := True\<rparr>\<rparr>)"

section \<open>What a cascade step leaves alone\<close>

lemma other_step_cascade: "other_step base n c c' \<Longrightarrow> cascade_step c c'"
  by (erule other_step.cases) (auto intro: cascade_step.intros)

definition step_keeps :: "block_id \<Rightarrow> cascade \<Rightarrow> cascade \<Rightarrow> bool" where
  "step_keeps b c c' \<longleftrightarrow> (cs_phase c' b = Unlaunched \<longleftrightarrow> cs_phase c b = Unlaunched)
     \<and> (cs_phase c b = Settled \<longrightarrow> cs_phase c' b = Settled)
     \<and> cs_advanced c b \<subseteq> cs_advanced c' b \<and> links_of c' b = links_of c b"

lemma release_lock_fields:
  "pipe_links (fst (release_lock blk pc)) = pipe_links blk"
  "cancelled (fst (release_lock blk pc)) = cancelled blk"
  by (auto simp: release_lock_def Let_def)

lemma keeps_enter:
  "cascade_inv c \<Longrightarrow> A_enter l \<in># cs_pend c \<Longrightarrow> step_keeps b c (pipe_enter_link l c)"
  by (auto simp: cascade_inv_def pend_expected step_keeps_def pipe_enter_link_def Let_def links_of_def
      case_prod_beta)

lemma keeps_fire:
  "cascade_inv c \<Longrightarrow> A_fire l \<in># cs_pend c \<Longrightarrow> step_keeps b c (fire_task_turn l c)"
  by (auto simp: cascade_inv_def pend_expected step_keeps_def fire_task_turn_def Let_def links_of_def)

lemma turn_not_settled:
  assumes "cascade_inv c" and "A_turn l \<in># cs_pend c"
  shows "phase_of c l \<noteq> Settled" and "phase_of c l \<noteq> Unlaunched"
proof -
  have bo: "blocks_ok c" and l: "is_link c l" "lk_index l \<notin> cs_turned c (lk_owner l)"
    using assms by (auto simp: cascade_inv_def pend_expected)
  show un: "phase_of c l \<noteq> Unlaunched" using l(1) by (simp add: is_link_def)
  show "phase_of c l \<noteq> Settled"
    using block_okD(3) [OF blocks_okD [OF bo un]] is_link_index_lt [OF l(1)] l(2) by (auto simp: links_of_def)
qed

lemma keeps_turn:
  "cascade_inv c \<Longrightarrow> A_turn l \<in># cs_pend c \<Longrightarrow> step_keeps b c (turn_release l c)"
  using turn_not_settled [of c l]
  by (auto simp: step_keeps_def turn_release_def Let_def links_of_def case_prod_beta release_lock_fields)

lemma run_begin_links:
  "run_begin blk token = Inr (Start_body blk') \<Longrightarrow> pipe_links blk' = pipe_links blk \<and> cancelled blk' = cancelled blk"
  "run_begin blk token = Inr (Start_cancel (blk', eff)) \<Longrightarrow> pipe_links blk' = pipe_links blk"
  by (auto simp: run_begin_def claim_def settle_def split: if_splits)

lemma run_dispatchE:
  assumes "run_dispatch d token c = Inr c'"
  obtains blk where "run_begin (cs_blocks c d) token = Inr (Start_body blk)"
      "cs_blocks c' = (cs_blocks c)(d := blk)" "cs_phase c' = (cs_phase c)(d := Running)"
      "cs_advanced c' = cs_advanced c"
    | blk eff where "run_begin (cs_blocks c d) token = Inr (Start_cancel (blk, eff))"
      "cs_blocks c' = (cs_blocks c)(d := blk)" "cs_phase c' = (cs_phase c)(d := Settled)"
      "cs_advanced c' = cs_advanced c"
proof -
  from assms obtain r where r: "run_begin (cs_blocks c d) token = Inr r"
    by (auto simp: run_dispatch_def split: sum.splits)
  show thesis
  proof (cases r)
    case (Start_cancel x)
    then show ?thesis using r assms that(2) [of "fst x" "snd x"]
      by (cases x) (auto simp: run_dispatch_def)
  next
    case (Start_body blk)
    then show ?thesis using r assms that(1) [of blk] by (auto simp: run_dispatch_def)
  qed
qed

lemma keeps_dispatch:
  assumes "cascade_inv c" and "A_dispatch d \<in># cs_pend c" and "run_dispatch d token c = Inr c'"
  shows "step_keeps b c c'"
proof -
  have "cs_phase c d = Dispatched" using assms(1,2) by (auto simp: cascade_inv_def pend_expected)
  with assms(3) show ?thesis
    by (elim run_dispatchE) (auto simp: step_keeps_def links_of_def dest: run_begin_links)
qed

lemma keeps_finish:
  assumes "cascade_inv c" and "A_body d \<in># cs_pend c" and "run_finish d result c = Inr c'"
  shows "step_keeps b c c'"
proof -
  have "cs_phase c d = Running" using assms(1,2) by (auto simp: cascade_inv_def pend_expected)
  with assms(3) show ?thesis
    by (auto simp: step_keeps_def run_finish_def links_of_def dest!: run_end_links split: sum.splits if_splits)
qed

lemma keeps_advance: "step_keeps b c (advance_link l c)"
  by (auto simp: step_keeps_def advance_link_def Let_def links_of_def case_prod_beta split: phase.splits)

lemma cascade_step_keeps: "cascade_inv c \<Longrightarrow> cascade_step c c' \<Longrightarrow> step_keeps b c c'"
  by (erule cascade_step.cases)
    (auto intro: keeps_enter keeps_fire keeps_turn keeps_dispatch keeps_finish keeps_advance)

text \<open>A block becomes cancelled only by its own dispatch.\<close>

lemma run_end_cancelled: "run_end blk r = Inr (blk', eff) \<Longrightarrow> cancelled blk' \<Longrightarrow> cancelled blk"
  by (auto simp: run_end_def settle_def Let_def split: if_splits option.splits)

lemma run_dispatch_cancelled:
  assumes "cascade_inv c" and "A_dispatch d \<in># cs_pend c" and "run_dispatch d token c = Inr c'"
    and "cancelled (cs_blocks c' b)"
  shows "cancelled (cs_blocks c b) \<or> b = d \<and> token"
proof (cases token)
  case False
  have bo: "blocks_ok c" and ph: "cs_phase c d = Dispatched"
    using assms(1,2) by (auto simp: cascade_inv_def pend_expected)
  then have ok: "block_ok (cs_turned c d) (cs_advanced c d) Dispatched d (cs_blocks c d)"
    using blocks_okD [OF bo, of d] by simp
  from assms(3) show ?thesis
  proof (rule run_dispatchE)
    fix blk assume "run_begin (cs_blocks c d) token = Inr (Start_body blk)" "cs_blocks c' = (cs_blocks c)(d := blk)"
    then show ?thesis using run_begin_links(1) assms(4) by (auto split: if_splits)
  next
    fix blk eff assume "run_begin (cs_blocks c d) token = Inr (Start_cancel (blk, eff))"
    from dispatch_start [OF ok this] False show ?thesis by simp
  qed
next
  case True
  with assms(3,4) show ?thesis by (elim run_dispatchE) (auto split: if_splits)
qed

lemma other_step_cancelled:
  assumes "cascade_inv c" and "other_step base n c c'" and "cancelled (cs_blocks c' b)"
    and "b \<in> {base..<base + n}"
  shows "cancelled (cs_blocks c b)"
  using assms(2)
proof cases
  case (o_dispatch d token)
  then show ?thesis using run_dispatch_cancelled [OF assms(1) _ _ assms(3)] assms(4) by blast
next
  case (o_finish d r)
  then show ?thesis using assms(3)
    by (auto simp: run_finish_def dest: run_end_cancelled split: sum.splits prod.splits if_splits)
qed (use assms(3) in \<open>auto simp: pipe_enter_link_def fire_task_turn_def turn_release_def advance_link_def
    Let_def case_prod_beta release_lock_fields split: if_splits\<close>)

lemma released_all_keeps:
  assumes "cascade_inv (gr_cascade s)" and "cascade_inv (gr_cascade t)" and "gr_base t = gr_base s"
    and "step_keeps (gr_base s + i) (gr_cascade s) (gr_cascade t)" and "released_all s i"
  shows "released_all t i"
proof -
  let ?b = "gr_base s + i"
  have ph: "cs_phase (gr_cascade t) ?b = Settled" and links: "links_of (gr_cascade t) ?b = links_of (gr_cascade s) ?b"
    and sub: "cs_advanced (gr_cascade s) ?b \<subseteq> cs_advanced (gr_cascade t) ?b"
    using assms(4,5) by (auto simp: step_keeps_def released_all_def)
  have "cs_advanced (gr_cascade t) ?b \<subseteq> {..<length (links_of (gr_cascade t) ?b)}"
    using block_okD(4) [OF blocks_okD, of "gr_cascade t" ?b] assms(2) ph
    by (auto simp: cascade_inv_def links_of_def)
  with ph links sub assms(3,5) show ?thesis by (auto simp: released_all_def)
qed

section \<open>The invariant\<close>

definition nodes_ok :: "(nat \<times> nat) set \<Rightarrow> nat \<Rightarrow> graph_node list \<Rightarrow> bool" where
  "nodes_ok E base ns \<longleftrightarrow> acyclic E \<and> (\<forall>i j. (i, j) \<in> E \<longrightarrow> i < length ns \<and> j < length ns)
     \<and> (\<forall>i < length ns. fresh_piped (base + i) (nd_block (ns ! i)) \<and> distinct (nd_successors (ns ! i))
          \<and> set (nd_successors (ns ! i)) = {j. (i, j) \<in> E})"

definition waiting_on :: "(nat \<times> nat) set \<Rightarrow> graph_run \<Rightarrow> nat \<Rightarrow> nat set" where
  "waiting_on E s j = {i. (i, j) \<in> E - gr_dec s}"

fun todo_expected :: "(nat \<times> nat) set \<Rightarrow> graph_run \<Rightarrow> graph_action \<Rightarrow> bool" where
  "todo_expected E s (GA_ready j) =
     (j < length (gr_nodes s) \<and> node_phase s j = Unlaunched \<and> waiting_on E s j = {})"
| "todo_expected E s (GA_dep i j) = (i \<in> gr_compl s \<and> (i, j) \<in> E - gr_dec s)"
| "todo_expected E s (GA_finish i) = (i \<in> gr_compl s - gr_fin s)"

definition done_ok :: "graph_run \<Rightarrow> bool" where
  "done_ok s \<longleftrightarrow> (\<exists>d. ru_done (gr_run s) = Some d \<and> \<not> fl_borrowed (flags d)
     \<and> completed d = (gr_fin s = {..<length (gr_nodes s)}) \<and> ready d = completed d
     \<and> (cancelled d \<longrightarrow> ru_token (gr_run s)))"

definition progress_ok :: "(nat \<times> nat) set \<Rightarrow> graph_run \<Rightarrow> bool" where
  "progress_ok E s \<longleftrightarrow>
     gr_fin s \<subseteq> gr_compl s \<and> (\<forall>i \<in> gr_compl s. i < length (gr_nodes s) \<and> released_all s i)
     \<and> (\<forall>i j. (i, j) \<in> gr_dec s \<longrightarrow> (i, j) \<in> E \<and> i \<in> gr_compl s)
     \<and> (\<forall>j < length (gr_nodes s). node_phase s j \<noteq> Unlaunched \<longrightarrow>
          waiting_on E s j = {} \<and> (cancelled (cs_blocks (gr_cascade s) (gr_base s + j)) \<longrightarrow> ru_token (gr_run s)))"

definition counters_ok :: "(nat \<times> nat) set \<Rightarrow> graph_run \<Rightarrow> bool" where
  "counters_ok E s \<longleftrightarrow> length (ru_remaining_deps (gr_run s)) = length (gr_nodes s)
     \<and> (\<forall>j < length (gr_nodes s). ru_remaining_deps (gr_run s) ! j = int (card (waiting_on E s j)))
     \<and> ru_remaining_nodes (gr_run s) = int (length (gr_nodes s)) - int (card (gr_fin s))"

definition todo_ok :: "(nat \<times> nat) set \<Rightarrow> graph_run \<Rightarrow> bool" where
  "todo_ok E s \<longleftrightarrow> (\<forall>a. count (gr_todo s) a = (if todo_expected E s a then 1 else 0))"

definition graph_inv :: "(nat \<times> nat) set \<Rightarrow> graph_run \<Rightarrow> bool" where
  "graph_inv E s \<longleftrightarrow> nodes_ok E (gr_base s) (gr_nodes s) \<and> cascade_inv (gr_cascade s)
     \<and> progress_ok E s \<and> counters_ok E s \<and> todo_ok E s \<and> done_ok s"

lemma todo_mem: "todo_ok E s \<Longrightarrow> a \<in># gr_todo s \<longleftrightarrow> todo_expected E s a"
  unfolding todo_ok_def by (metis count_eq_zero_iff zero_neq_one)

lemma waiting_on_finite: "nodes_ok E base (gr_nodes s) \<Longrightarrow> finite (waiting_on E s j)"
  by (rule finite_subset [of _ "{..<length (gr_nodes s)}"]) (auto simp: waiting_on_def nodes_ok_def)

text \<open>A change of the cascade alone.\<close>

lemma graph_inv_cascade:
  assumes inv: "graph_inv E s" and c: "cascade_inv c"
    and keeps: "\<And>i. i < length (gr_nodes s) \<Longrightarrow> step_keeps (gr_base s + i) (gr_cascade s) c"
    and canc: "\<And>i. i < length (gr_nodes s) \<Longrightarrow> cancelled (cs_blocks c (gr_base s + i)) \<Longrightarrow>
      cancelled (cs_blocks (gr_cascade s) (gr_base s + i)) \<or> ru_token (gr_run s)"
  shows "graph_inv E (s\<lparr>gr_cascade := c\<rparr>)"
proof -
  let ?t = "s\<lparr>gr_cascade := c\<rparr>"
  have rel: "released_all ?t i" if "released_all s i" "i < length (gr_nodes s)" for i
    by (rule released_all_keeps [of s ?t]) (use inv c keeps that in \<open>auto simp: graph_inv_def\<close>)
  have ph: "node_phase ?t i = Unlaunched \<longleftrightarrow> node_phase s i = Unlaunched" if "i < length (gr_nodes s)" for i
    using keeps [OF that] by (simp add: step_keeps_def)
  have wait: "waiting_on E ?t = waiting_on E s" by (simp add: waiting_on_def fun_eq_iff)
  have "progress_ok E ?t"
    using inv rel ph canc unfolding graph_inv_def progress_ok_def wait by simp blast
  moreover have "todo_expected E ?t a \<longleftrightarrow> todo_expected E s a" for a
    using ph by (cases a) (auto simp: wait)
  then have "todo_ok E ?t" using inv by (simp add: graph_inv_def todo_ok_def)
  ultimately show ?thesis
    using inv c by (simp add: graph_inv_def counters_ok_def done_ok_def wait)
qed

lemma graph_inv_token: "graph_inv E s \<Longrightarrow> graph_inv E (s\<lparr>gr_run := (gr_run s)\<lparr>ru_token := True\<rparr>\<rparr>)"
proof -
  assume inv: "graph_inv E s"
  let ?t = "s\<lparr>gr_run := (gr_run s)\<lparr>ru_token := True\<rparr>\<rparr>"
  have wait: "waiting_on E ?t = waiting_on E s" "released_all ?t = released_all s"
    by (simp_all add: waiting_on_def released_all_def fun_eq_iff)
  have "todo_expected E ?t a \<longleftrightarrow> todo_expected E s a" for a by (cases a) (auto simp: wait)
  with inv show ?thesis
    by (auto simp: graph_inv_def progress_ok_def counters_ok_def todo_ok_def done_ok_def wait)
qed

lemma count_mset_map:
  assumes "distinct xs" and "inj f"
  shows "count (mset (map f xs)) a = (if a \<in> f ` set xs then 1 else 0)"
proof -
  have "distinct (map f xs)" using assms by (auto simp: distinct_map inj_on_def)
  then show ?thesis by (metis distinct_count_atmost_1 image_set)
qed

lemma graph_inv_complete:
  assumes inv: "graph_inv E s" and i: "i < length (gr_nodes s)" "released_all s i" "i \<notin> gr_compl s"
  shows "graph_inv E (node_complete i s)"
proof -
  define t where "t = node_complete i s"
  have fld: "gr_nodes t = gr_nodes s" "gr_base t = gr_base s" "gr_run t = gr_run s" "gr_cascade t = gr_cascade s"
    "gr_dec t = gr_dec s" "gr_fin t = gr_fin s" "gr_compl t = insert i (gr_compl s)"
    "gr_todo t = gr_todo s + mset (map (GA_dep i) (nd_successors (gr_nodes s ! i))) + {#GA_finish i#}"
    by (simp_all add: t_def node_complete_def)
  have wait: "waiting_on E t = waiting_on E s" "released_all t = released_all s"
    by (simp_all add: waiting_on_def released_all_def fld fun_eq_iff)
  have ok: "nodes_ok E (gr_base s) (gr_nodes s)" "todo_ok E s" and pr: "progress_ok E s"
    using inv by (auto simp: graph_inv_def)
  have succ: "set (nd_successors (gr_nodes s ! i)) = {j. (i, j) \<in> E}" "distinct (nd_successors (gr_nodes s ! i))"
    using ok(1) i(1) by (auto simp: nodes_ok_def)
  have nodec: "(i, j) \<notin> gr_dec s" for j using pr i(3) by (auto simp: progress_ok_def)
  have fin: "i \<notin> gr_fin s" using pr i(3) by (auto simp: progress_ok_def)
  have "todo_ok E t"
    unfolding todo_ok_def
  proof
    fix a
    have old: "count (gr_todo s) a = (if todo_expected E s a then 1 else 0)" using ok(2) by (simp add: todo_ok_def)
    have new: "count (mset (map (GA_dep i) (nd_successors (gr_nodes s ! i)))) a =
        (if \<exists>j. a = GA_dep i j \<and> (i, j) \<in> E then 1 else 0)"
      by (subst count_mset_map) (use succ in \<open>auto simp: inj_on_def\<close>)
    show "count (gr_todo t) a = (if todo_expected E t a then 1 else 0)"
      unfolding fld(8) count_union new old
      by (cases a) (use nodec fin i(3) in \<open>auto simp: fld wait\<close>)
  qed
  with inv i show ?thesis
    by (auto simp: graph_inv_def progress_ok_def counters_ok_def done_ok_def t_def [symmetric] fld wait)
qed

lemma graph_inv_dep:
  assumes inv: "graph_inv E s" and act: "GA_dep i j \<in># gr_todo s"
  shows "graph_inv E (settle_dependency i j s)"
proof -
  define t where "t = settle_dependency i j s"
  define old where "old = ru_remaining_deps (gr_run s) ! j"
  have ok: "nodes_ok E (gr_base s) (gr_nodes s)" "todo_ok E s" and pr: "progress_ok E s" and cn: "counters_ok E s"
    using inv by (auto simp: graph_inv_def)
  have i: "i \<in> gr_compl s" "(i, j) \<in> E" "(i, j) \<notin> gr_dec s" using act todo_mem [OF ok(2)] by auto
  then have j: "j < length (gr_nodes s)" using ok(1) by (auto simp: nodes_ok_def)
  have fld: "gr_nodes t = gr_nodes s" "gr_base t = gr_base s" "gr_cascade t = gr_cascade s"
    "gr_dec t = insert (i, j) (gr_dec s)" "gr_fin t = gr_fin s" "gr_compl t = gr_compl s"
    "gr_todo t = gr_todo s - {#GA_dep i j#} + (if old = 1 then {#GA_ready j#} else {#})"
    "gr_run t = (gr_run s)\<lparr>ru_remaining_deps := (ru_remaining_deps (gr_run s))[j := old - 1]\<rparr>"
    by (simp_all add: t_def settle_dependency_def Let_def old_def)
  have rel: "released_all t = released_all s" by (simp add: released_all_def fld fun_eq_iff)
  have wait: "waiting_on E t k = (if k = j then waiting_on E s j - {i} else waiting_on E s k)" for k
    by (auto simp: waiting_on_def fld)
  have mem: "i \<in> waiting_on E s j" using i by (simp add: waiting_on_def)
  have fin: "finite (waiting_on E s j)" using waiting_on_finite [OF ok(1)] .
  have old: "old = int (card (waiting_on E s j))" using cn j by (simp add: counters_ok_def old_def)
  have card: "int (card (waiting_on E s j - {i})) = old - 1"
    using mem fin old card_gt_0_iff [of "waiting_on E s j"] by (auto simp: card_Diff_singleton of_nat_diff)
  then have last: "waiting_on E s j - {i} = {} \<longleftrightarrow> old = 1" using fin by (metis card_eq_0_iff diff_self eq_iff_diff_eq_0 finite_Diff of_nat_0 of_nat_eq_0_iff)
  have unl: "node_phase s j = Unlaunched" using pr j mem by (auto simp: progress_ok_def)
  have "todo_ok E t"
    unfolding todo_ok_def
  proof
    fix a
    have before: "count (gr_todo s) a = (if todo_expected E s a then 1 else 0)" using ok(2) by (simp add: todo_ok_def)
    show "count (gr_todo t) a = (if todo_expected E t a then 1 else 0)"
    proof (cases a)
      case (GA_ready k)
      then show ?thesis using before last mem unl j by (auto simp: fld wait)
    next
      case (GA_dep k l)
      then show ?thesis using before i by (auto simp: fld)
    next
      case (GA_finish k)
      then show ?thesis using before by (auto simp: fld)
    qed
  qed
  moreover have "counters_ok E t"
    using cn card j by (auto simp: counters_ok_def fld wait nth_list_update)
  moreover have "progress_ok E t" using pr i by (auto simp: progress_ok_def fld wait rel)
  ultimately show ?thesis
    using inv by (simp add: graph_inv_def done_ok_def t_def [symmetric] fld)
qed

lemma graph_inv_ready:
  assumes inv: "graph_inv E s" and act: "GA_ready i \<in># gr_todo s"
  shows "graph_inv E (on_data_ready i s)"
proof -
  define t where "t = on_data_ready i s"
  define blk where "blk = nd_block (gr_nodes s ! i)"
  have ok: "nodes_ok E (gr_base s) (gr_nodes s)" "todo_ok E s" and pr: "progress_ok E s"
    using inv by (auto simp: graph_inv_def)
  have i: "i < length (gr_nodes s)" "node_phase s i = Unlaunched" "waiting_on E s i = {}"
    using act todo_mem [OF ok(2)] by auto
  have fld: "gr_nodes t = gr_nodes s" "gr_base t = gr_base s" "gr_run t = gr_run s" "gr_dec t = gr_dec s"
    "gr_fin t = gr_fin s" "gr_compl t = gr_compl s" "gr_todo t = gr_todo s - {#GA_ready i#}"
    "gr_cascade t = launch_task (gr_base s + i) blk (gr_cascade s)"
    by (simp_all add: t_def on_data_ready_def blk_def)
  have fresh: "fresh_piped (gr_base s + i) blk" using ok(1) i(1) by (auto simp: nodes_ok_def blk_def)
  have wait: "waiting_on E t = waiting_on E s" by (simp add: waiting_on_def fld fun_eq_iff)
  have ph: "node_phase t k = (if k = i then if pipe_links blk = [] then Dispatched else Entering 0 else node_phase s k)" for k
    by (simp add: fld launch_task_def)
  have "i \<notin> gr_compl s" using pr i(2) by (auto simp: progress_ok_def released_all_def)
  then have rel: "released_all t k" if "k \<in> gr_compl s" for k
    using pr that by (auto simp: progress_ok_def released_all_def fld launch_task_def links_of_def)
  have "cascade_inv (gr_cascade t)"
    unfolding fld using inv i(2) fresh by (auto simp: graph_inv_def intro: cascade_inv_launch)
  moreover have "progress_ok E t"
    using pr i rel fresh
    by (auto simp: progress_ok_def fld wait launch_task_def fresh_piped_def split: if_splits)
  moreover have "todo_ok E t"
    unfolding todo_ok_def
  proof
    fix a
    have before: "count (gr_todo s) a = (if todo_expected E s a then 1 else 0)" using ok(2) by (simp add: todo_ok_def)
    show "count (gr_todo t) a = (if todo_expected E t a then 1 else 0)"
      using before i ph by (cases a) (auto simp: fld(1,4,5,6,7) wait)
  qed
  ultimately show ?thesis
    using inv by (simp add: graph_inv_def counters_ok_def done_ok_def t_def [symmetric] fld wait)
qed

lemma graph_inv_finish:
  assumes inv: "graph_inv E s" and act: "GA_finish i \<in># gr_todo s"
  shows "graph_inv E (count_node i s)"
proof -
  define t where "t = count_node i s"
  have ok: "nodes_ok E (gr_base s) (gr_nodes s)" "todo_ok E s" and pr: "progress_ok E s" and cn: "counters_ok E s"
    and dn: "done_ok s"
    using inv by (auto simp: graph_inv_def)
  let ?n = "length (gr_nodes s)"
  have i: "i \<in> gr_compl s" "i \<notin> gr_fin s" using act todo_mem [OF ok(2)] by auto
  have fld: "gr_nodes t = gr_nodes s" "gr_base t = gr_base s" "gr_cascade t = gr_cascade s" "gr_dec t = gr_dec s"
    "gr_fin t = insert i (gr_fin s)" "gr_compl t = gr_compl s" "gr_todo t = gr_todo s - {#GA_finish i#}"
    "ru_remaining_deps (gr_run t) = ru_remaining_deps (gr_run s)" "ru_token (gr_run t) = ru_token (gr_run s)"
    "ru_remaining_nodes (gr_run t) = ru_remaining_nodes (gr_run s) - 1"
    "ru_done (gr_run t) = (if ru_remaining_nodes (gr_run s) = 1
       then map_option (\<lambda>d. settle_handle d (ru_token (gr_run s))) (ru_done (gr_run s)) else ru_done (gr_run s))"
    by (simp_all add: t_def count_node_def Let_def)
  have wait: "waiting_on E t = waiting_on E s" "released_all t = released_all s"
    by (simp_all add: waiting_on_def released_all_def fld fun_eq_iff)
  have sub: "gr_fin s \<subseteq> {..<?n}" and ilt: "i < ?n" using pr i by (auto simp: progress_ok_def)
  then have fin: "finite (gr_fin s)" using finite_subset by blast
  have last: "ru_remaining_nodes (gr_run s) = 1 \<longleftrightarrow> insert i (gr_fin s) = {..<?n}"
  proof -
    have "insert i (gr_fin s) \<subseteq> {..<?n}" using sub ilt by auto
    then have "insert i (gr_fin s) = {..<?n} \<longleftrightarrow> card (insert i (gr_fin s)) = ?n"
      by (metis card_lessThan card_subset_eq finite_lessThan)
    moreover have "card (insert i (gr_fin s)) = Suc (card (gr_fin s))" using i(2) fin by simp
    moreover have "ru_remaining_nodes (gr_run s) = int ?n - int (card (gr_fin s))"
      using cn by (simp add: counters_ok_def)
    ultimately show ?thesis by linarith
  qed
  have "gr_fin s \<noteq> {..<?n}" using i(2) ilt by auto
  with dn obtain d where d: "ru_done (gr_run s) = Some d" "\<not> fl_borrowed (flags d)" "\<not> completed d" "\<not> ready d"
      "cancelled d \<longrightarrow> ru_token (gr_run s)"
    by (auto simp: done_ok_def)
  have sh: "\<not> fl_borrowed (flags (settle_handle d k))" "completed (settle_handle d k)" "ready (settle_handle d k)"
      "cancelled (settle_handle d k) = k" for k
    using d by (auto simp: settle_handle_def settle_def)
  have "done_ok t"
    unfolding done_ok_def fld d(1) last using d sh by (cases "insert i (gr_fin s) = {..<?n}") simp_all
  moreover have "todo_ok E t"
    unfolding todo_ok_def
  proof
    fix a
    have before: "count (gr_todo s) a = (if todo_expected E s a then 1 else 0)" using ok(2) by (simp add: todo_ok_def)
    show "count (gr_todo t) a = (if todo_expected E t a then 1 else 0)"
      using before i by (cases a) (auto simp: fld wait)
  qed
  moreover have "counters_ok E t" using cn i(2) fin by (auto simp: counters_ok_def fld wait)
  moreover have "progress_ok E t" using pr i(1) by (auto simp: progress_ok_def fld wait)
  ultimately show ?thesis using inv by (simp add: graph_inv_def t_def [symmetric] fld)
qed

lemma graph_inv_step:
  assumes inv: "graph_inv E s" and step: "graph_step s t"
  shows "graph_inv E t"
  using step
proof cases
  case (gs_cascade c)
  have ci: "cascade_inv (gr_cascade s)" using inv by (simp add: graph_inv_def)
  note cs = other_step_cascade [OF gs_cascade(2)]
  show ?thesis
    unfolding gs_cascade(1)
    by (rule graph_inv_cascade [OF inv cascade_inv_step [OF ci cs]])
      (use cascade_step_keeps [OF ci cs] other_step_cancelled [OF ci gs_cascade(2)] in auto)
next
  case (gs_dispatch i c)
  have ci: "cascade_inv (gr_cascade s)" using inv by (simp add: graph_inv_def)
  note cs = c_dispatch [OF gs_dispatch(3,4)]
  show ?thesis
    unfolding gs_dispatch(1)
    by (rule graph_inv_cascade [OF inv cascade_inv_step [OF ci cs]])
      (use cascade_step_keeps [OF ci cs] run_dispatch_cancelled [OF ci gs_dispatch(3,4)] in auto)
qed (use inv in \<open>auto intro: graph_inv_complete graph_inv_dep graph_inv_ready graph_inv_finish\<close>)

section \<open>The start of a run\<close>

lemma bind_links_for_run_node:
  assumes "bind_links_for_run g epochs cur children detach = Inr g'" and "i < length (g_nodes g)"
  shows "\<exists>P. g_nodes g' ! i = g_nodes g ! i \<or> g_nodes g' ! i = (g_nodes g ! i)\<lparr>nd_block :=
    (nd_block (g_nodes g ! i))\<lparr>pipe_links := bind_links (g_base g + i) (g_distinct_pipes g)
      (filter P (zip (nd_pipe_indices (g_nodes g ! i)) (nd_pipe_modes (g_nodes g ! i))))\<rparr>\<rparr>"
  using assms
  by (auto simp: bind_links_for_run_def rebind_node_def Let_def nth_enumerate_eq split: sum.splits if_splits)

lemma bind_links_for_run_shape:
  assumes "bind_links_for_run g epochs cur children detach = Inr g'"
  shows "length (g_nodes g') = length (g_nodes g)" and "g_base g' = g_base g"
  using assms by (auto simp: bind_links_for_run_def Let_def split: sum.splits if_splits)

lemma executed_graph:
  assumes "execute g epochs cur children in_task token detach = Inr (g', rs, join)"
  obtains gb where "bind_links_for_run g epochs cur children detach = Inr gb"
    "g_nodes g' = map (\<lambda>n. n\<lparr>nd_block := rearm_block n\<rparr>) (g_nodes gb)" "rs = roots gb" "g_base g' = g_base gb"
    "g_run g' = Some \<lparr>ru_remaining_deps = map (\<lambda>n. int (nd_indegree n)) (g_nodes gb),
       ru_remaining_nodes = int (length (g_nodes gb)),
       ru_done = Some (if g_nodes gb = [] then settle_handle make_bare_block False else make_bare_block),
       ru_token = token\<rparr>"
proof -
  from assms obtain gb where b: "bind_links_for_run g epochs cur children detach = Inr gb"
    by (auto simp: execute_def split: if_splits sum.splits)
  then have g': "g' = gb\<lparr>g_nodes := map (\<lambda>n. n\<lparr>nd_block := rearm_block n\<rparr>) (g_nodes gb),
      g_run := Some \<lparr>ru_remaining_deps = map (\<lambda>n. int (nd_indegree n)) (g_nodes gb),
       ru_remaining_nodes = int (length (g_nodes gb)),
       ru_done = Some (if g_nodes gb = [] then settle_handle make_bare_block False else make_bare_block),
       ru_token = token\<rparr>\<rparr>" "rs = roots gb"
    using assms unfolding execute_def Let_def settle_handle_def by (simp_all split: if_split_asm)
  show thesis by (rule that [OF b]) (simp_all add: g')
qed

lemma executed_nodes:
  assumes "graph_built g" and ok: "nodes_declared_ok g" and "compile g pipes = Inr (g1, pipes1)"
    and "bind_links_for_run g1 epochs cur children detach = Inr gb" and i: "i < length (g_nodes g)"
  shows "length (g_nodes gb) = length (g_nodes g)" and "g_base gb = g_base g"
    and "nd_successors (g_nodes gb ! i) = nd_successors (g_nodes g1 ! i)"
    and "nd_indegree (g_nodes gb ! i) = nd_indegree (g_nodes g1 ! i)"
    and "fresh_piped (g_base g + i) (rearm_block (g_nodes gb ! i))"
proof -
  let ?ps = "distinct_pipes (g_nodes g)"
  have g1: "length (g_nodes g1) = length (g_nodes g)" "g_base g1 = g_base g" "g_distinct_pipes g1 = ?ps"
    using assms(1,3) by (auto simp: compile_cases split: if_splits)
  have i1: "i < length (g_nodes g1)" using i g1 by simp
  note b = bind_links_for_run_node [OF assms(4) i1] and turns = compile_turns [OF assms(1,3) i]
  show "length (g_nodes gb) = length (g_nodes g)" "g_base gb = g_base g" using bind_links_for_run_shape [OF assms(4)] g1 by simp_all
  show "nd_successors (g_nodes gb ! i) = nd_successors (g_nodes g1 ! i)"
    "nd_indegree (g_nodes gb ! i) = nd_indegree (g_nodes g1 ! i)" using b by auto
  have short: "length (mode_by_pipe ?ps (g_nodes g ! i)) < 256"
  proof -
    have "length (nd_access (g_nodes g ! i)) \<le> 8"
      using ok nth_mem [OF i] by (simp add: nodes_declared_ok_def max_entries_def)
    with turns(5) show ?thesis by simp
  qed
  have can: "canonical_links (g_base g + i) (bind_links (g_base g + i) ?ps (filter P (mode_by_pipe ?ps (g_nodes g ! i))))" for P
  proof (rule bind_links_canonical)
    show "length (filter P (mode_by_pipe ?ps (g_nodes g ! i))) < 256" using short le_less_trans length_filter_le by blast
    show "sorted_wrt (<) (map fst (filter P (mode_by_pipe ?ps (g_nodes g ! i))))"
      using turns(3) by (simp add: sorted_wrt_map sorted_wrt_filter)
  qed (use turns(4) in \<open>auto simp: distinct_pipes_sorted\<close>)
  obtain P where links: "nd_block (g_nodes gb ! i) = node_block\<lparr>pipe_links :=
      bind_links (g_base g + i) ?ps (filter P (mode_by_pipe ?ps (g_nodes g ! i)))\<rparr>"
  proof -
    from b [unfolded g1(2,3) turns(1)] obtain P where "g_nodes gb ! i = g_nodes g1 ! i \<or> g_nodes gb ! i =
        (g_nodes g1 ! i)\<lparr>nd_block := (nd_block (g_nodes g1 ! i))\<lparr>pipe_links := bind_links (g_base g + i) ?ps
          (filter P (mode_by_pipe ?ps (g_nodes g ! i)))\<rparr>\<rparr>" by blast
    then show thesis
    proof
      assume "g_nodes gb ! i = g_nodes g1 ! i"
      then show thesis using that [of "\<lambda>_. True"] turns(2) by simp
    next
      assume "g_nodes gb ! i = (g_nodes g1 ! i)\<lparr>nd_block := (nd_block (g_nodes g1 ! i))\<lparr>pipe_links :=
          bind_links (g_base g + i) ?ps (filter P (mode_by_pipe ?ps (g_nodes g ! i)))\<rparr>\<rparr>"
      then show thesis using that [of P] turns(2) by simp
    qed
  qed
  show "fresh_piped (g_base g + i) (rearm_block (g_nodes gb ! i))"
    using can [of P] by (simp add: fresh_piped_def rearm_block_def links Let_def node_block_def make_bare_block_def)
qed

lemma graph_inv_start:
  assumes built: "graph_built g" and ok: "nodes_declared_ok g" and comp: "compile g pipes = Inr (g1, pipes1)"
    and exec: "execute g1 epochs cur children in_task token detach = Inr (g2, rs, join)"
    and c: "cascade_reach c" "\<forall>i < length (g_nodes g). cs_phase c (g_base g + i) = Unlaunched"
  shows "graph_inv (graph_order g) (graph_start g2 rs c)"
proof -
  define s where "s = graph_start g2 rs c"
  let ?E = "graph_order g" and ?n = "length (g_nodes g)"
  obtain gb where gb: "bind_links_for_run g1 epochs cur children detach = Inr gb"
    "g_nodes g2 = map (\<lambda>n. n\<lparr>nd_block := rearm_block n\<rparr>) (g_nodes gb)" "rs = roots gb" "g_base g2 = g_base gb"
    "g_run g2 = Some \<lparr>ru_remaining_deps = map (\<lambda>n. int (nd_indegree n)) (g_nodes gb),
       ru_remaining_nodes = int (length (g_nodes gb)),
       ru_done = Some (if g_nodes gb = [] then settle_handle make_bare_block False else make_bare_block),
       ru_token = token\<rparr>"
    using exec by (rule executed_graph)
  note nodes = executed_nodes [OF built ok comp gb(1)]
  have len: "length (g_nodes gb) = ?n" "g_base gb = g_base g"
    using bind_links_for_run_shape [OF gb(1)] comp built by (auto simp: compile_cases split: if_splits)
  have fld: "gr_nodes s = map (\<lambda>n. n\<lparr>nd_block := rearm_block n\<rparr>) (g_nodes gb)" "gr_base s = g_base g"
    "gr_cascade s = c" "gr_dec s = {}" "gr_compl s = {}" "gr_fin s = {}" "gr_todo s = mset (map GA_ready (roots gb))"
    "ru_remaining_deps (gr_run s) = map (\<lambda>n. int (nd_indegree n)) (g_nodes gb)"
    "ru_remaining_nodes (gr_run s) = int ?n"
    "ru_done (gr_run s) = Some (if g_nodes gb = [] then settle_handle make_bare_block False else make_bare_block)"
    by (simp_all add: s_def graph_start_def gb len)
  have wf: "graph_wf g" and acyc: "acyclic ?E"
    using graph_built_wf [OF built] comp built by (auto simp: compile_cases split: if_splits)
  have comp_node: "distinct (nd_successors (g_nodes gb ! i))" "set (nd_successors (g_nodes gb ! i)) = {j. (i, j) \<in> ?E}"
      "nd_indegree (g_nodes gb ! i) = card {j. (j, i) \<in> ?E}" if "i < ?n" for i
    using nodes(3,4) [OF that] compile_node(1) [OF built comp that] compiled_successors [OF wf that]
    by (auto simp: install_block_def)
  have wait: "waiting_on ?E s j = {i. (i, j) \<in> ?E}" for j by (simp add: waiting_on_def fld)
  have fin: "finite {i. (i, j) \<in> ?E}" for j
    by (rule finite_subset [of _ "{..<?n}"]) (use graph_order_range [OF wf] in auto)
  have "nodes_ok ?E (gr_base s) (gr_nodes s)"
    using acyc graph_order_range [OF wf] comp_node nodes(5) by (auto simp: nodes_ok_def fld len)
  moreover have "progress_ok ?E s" using c(2) by (simp add: progress_ok_def fld len)
  moreover have "counters_ok ?E s" using comp_node by (simp add: counters_ok_def fld len wait)
  moreover have "todo_ok ?E s"
    unfolding todo_ok_def
  proof
    fix a
    have "count (gr_todo s) a = (if \<exists>i < ?n. a = GA_ready i \<and> nd_indegree (g_nodes gb ! i) = 0 then 1 else 0)"
      unfolding fld by (subst count_mset_map) (auto simp: roots_def len inj_on_def)
    then show "count (gr_todo s) a = (if todo_expected ?E s a then 1 else 0)"
      using comp_node(3) c(2) fin by (cases a) (auto simp: fld len wait card_eq_0_iff)
  qed
  moreover have "{} = {..<?n} \<longleftrightarrow> g_nodes gb = []" using len(1) by (metis length_0_conv lessThan_0 lessThan_eq_iff)
  then have "done_ok s"
    using len by (auto simp: done_ok_def fld settle_handle_def settle_def make_bare_block_def default_flags_def)
  moreover have "cascade_inv (gr_cascade s)" using cascade_inv_reach [OF c(1)] by (simp add: fld)
  ultimately show ?thesis by (simp add: graph_inv_def s_def)
qed

lemma graph_inv_reach: "graph_reach g s \<Longrightarrow> graph_inv (graph_order g) s"
proof (induction rule: graph_reach.induct)
  case (gr_launch s b blk)
  then have ci: "cascade_inv (gr_cascade s)" by (simp add: graph_inv_def)
  show ?case
    by (rule graph_inv_cascade [OF gr_launch.IH cascade_inv_launch [OF ci gr_launch(3,4)]])
      (use gr_launch(2) in \<open>auto simp: step_keeps_def launch_task_def links_of_def\<close>)
qed (auto intro: graph_inv_start graph_inv_step graph_inv_token)

section \<open>Order and exclusion\<close>

lemma pred_released:
  assumes "graph_inv E s" and "(i, j) \<in> E" and "j < length (gr_nodes s)" and "node_phase s j \<noteq> Unlaunched"
  shows "i \<in> gr_compl s" and "released_all s i"
proof -
  have "(i, j) \<in> gr_dec s" using assms by (auto simp: graph_inv_def progress_ok_def waiting_on_def)
  then show "i \<in> gr_compl s" using assms(1) by (auto simp: graph_inv_def progress_ok_def)
  then show "released_all s i" using assms(1) by (auto simp: graph_inv_def progress_ok_def)
qed

lemma ordered_released:
  assumes "graph_inv E s" and "(i, j) \<in> E\<^sup>+" and "j < length (gr_nodes s)" and "node_phase s j \<noteq> Unlaunched"
  shows "released_all s i"
  using assms(2-4)
proof (induction rule: converse_trancl_induct)
  case (base i)
  then show ?case using pred_released(2) [OF assms(1)] by blast
next
  case (step i k)
  then have "released_all s k" by blast
  moreover have "k < length (gr_nodes s)" using step(1) assms(1) by (auto simp: graph_inv_def nodes_ok_def)
  ultimately show ?case using pred_released(2) [OF assms(1) step(1)] by (simp add: released_all_def)
qed

text \<open>
  (C5) Declared order is execution order. In every reachable state of a run of a compiled graph,
  beside any other tasks on the same objects: if a node has been started at all, then every node
  that is ordered before it (directly or through others, by an explicit edge or by an access conflict
  and declaration order) has settled and has released all its objects.
\<close>

theorem graph_order_respected:
  assumes "graph_reach g s" and "(i, j) \<in> (graph_order g)\<^sup>+" and "j < length (gr_nodes s)"
    and "node_phase s j \<noteq> Unlaunched"
  shows "node_phase s i = Settled
    \<and> cs_advanced (gr_cascade s) (gr_base s + i) = {..<length (links_of (gr_cascade s) (gr_base s + i))}"
  using ordered_released [OF graph_inv_reach [OF assms(1)] assms(2-4)] by (simp add: released_all_def)

section \<open>Completion\<close>













text \<open>
  The handle tells the truth. The handle of a run settles only when every node has settled with
  its objects released; it settles cancelled only if the run's token was requested; and as long as
  the token is not requested no node that was started has been skipped as cancelled.
\<close>

theorem graph_handle_truthful:
  assumes "graph_reach g s" and "ru_done (gr_run s) = Some d"
  shows "(completed d \<longrightarrow> (\<forall>i < length (gr_nodes s). released_all s i))
    \<and> (cancelled d \<longrightarrow> ru_token (gr_run s))
    \<and> (\<not> ru_token (gr_run s) \<longrightarrow> (\<forall>i < length (gr_nodes s). node_phase s i \<noteq> Unlaunched \<longrightarrow>
         \<not> cancelled (cs_blocks (gr_cascade s) (gr_base s + i))))"
proof -
  from graph_inv_reach [OF assms(1)] have pr: "progress_ok (graph_order g) s" and dn: "done_ok s"
    by (auto simp: graph_inv_def)
  from dn assms(2) have d: "completed d = (gr_fin s = {..<length (gr_nodes s)})" "cancelled d \<longrightarrow> ru_token (gr_run s)"
    by (auto simp: done_ok_def)
  have "released_all s i" if "completed d" "i < length (gr_nodes s)" for i
    using pr that d(1) by (auto simp: progress_ok_def)
  with pr d(2) show ?thesis by (auto simp: progress_ok_def)
qed

section \<open>Witnesses\<close>

text \<open>Two nodes without objects, the second after the first, run up to the start of the second.\<close>

definition demo_pair :: graph where
  "demo_pair = projr (node_after (fst (projr (add_node (fst (projr (add_node (graph_new 1 100) []))) [])))
     \<lparr>gh_graph = Some 1, gh_index = 1\<rparr> \<lparr>gh_graph = Some 1, gh_index = 0\<rparr>)"

lemma demo_pair_eq: "demo_pair = (graph_new 1 100)\<lparr>
    g_nodes := replicate 2 \<lparr>nd_access = [], nd_pipes = [], nd_priority = Normal, nd_priority_set = False,
      nd_inline = False, nd_pipe_indices = [], nd_pipe_modes = [], nd_successors = [], nd_indegree = 0,
      nd_block = make_bare_block\<rparr>, g_explicit_edges := [(0, 1)]\<rparr>"
  by (simp add: demo_pair_def graph_defs numeral_2_eq_2)

lemma demo_pair_built: "graph_built demo_pair"
proof -
  let ?g = "fst (projr (add_node (graph_new 1 100) []))"
  let ?h = "fst (projr (add_node ?g []))"
  have 1: "add_node (graph_new 1 100) [] = Inr (?g, \<lparr>gh_graph = Some 1, gh_index = 0\<rparr>)"
    and 2: "add_node ?g [] = Inr (?h, \<lparr>gh_graph = Some 1, gh_index = 1\<rparr>)"
    by (simp_all add: graph_defs)
  have "graph_built ?h" by (rule gb_node [OF gb_node [OF gb_new 1] 2])
  then show ?thesis
    by (rule gb_after [of _ "\<lparr>gh_graph = Some 1, gh_index = 1\<rparr>" "\<lparr>gh_graph = Some 1, gh_index = 0\<rparr>"])
      (simp_all add: handle_ok_def demo_pair_def graph_defs)
qed

lemma demo_pair_order: "graph_order demo_pair = {(0, 1)}"
  by (auto simp: graph_order_def demo_pair_eq conflicts_def numeral_2_eq_2 less_Suc_eq)

definition demo_pair_compiled :: graph where
  "demo_pair_compiled = fst (projr (compile demo_pair (\<lambda>_. pipe_init 0)))"

lemma demo_pair_compile:
  "compile demo_pair (\<lambda>_. pipe_init 0) = Inr (demo_pair_compiled, snd (projr (compile demo_pair (\<lambda>_. pipe_init 0))))"
proof -
  have "acyclic (graph_order demo_pair)" by (simp add: demo_pair_order acyclic_insert) (simp add: acyclic_def)
  then show ?thesis by (simp add: demo_pair_compiled_def compile_cases [OF demo_pair_built])
qed

definition demo_start_state :: graph_run where
  "demo_start_state = (let (g, rs, join) = projr (execute demo_pair_compiled (\<lambda>_. 0) None [] False False False)
     in graph_start g rs (cascade_init (\<lambda>_. 0)))"

definition demo_node_block :: tcb where
  "demo_node_block = node_block\<lparr>pipe_links := [], num_locks := 0\<rparr>"

lemma demo_pair_compiled_eq:
  "g_nodes demo_pair_compiled =
     [\<lparr>nd_access = [], nd_pipes = [], nd_priority = Normal, nd_priority_set = False, nd_inline = False,
        nd_pipe_indices = [], nd_pipe_modes = [], nd_successors = [1], nd_indegree = 0,
        nd_block = node_block\<lparr>pipe_links := []\<rparr>\<rparr>,
      \<lparr>nd_access = [], nd_pipes = [], nd_priority = Normal, nd_priority_set = False, nd_inline = False,
        nd_pipe_indices = [], nd_pipe_modes = [], nd_successors = [], nd_indegree = 1,
        nd_block = node_block\<lparr>pipe_links := []\<rparr>\<rparr>]"
  "g_base demo_pair_compiled = 100" "g_links_lent demo_pair_compiled = False" "g_compiled demo_pair_compiled"
  "g_pipe_instances demo_pair_compiled = []" "\<not> run_busy demo_pair_compiled"
  by (simp_all add: demo_pair_compiled_def compile_def demo_pair_eq compiled_nodes_def compile_edges_def
      conflict_pairs_def conflicts_def numeral_2_eq_2 graph_new_def add_successor_def distinct_pipes_def
      set_canonical_def mode_by_pipe_def declarations_def detect_cycles_def Let_def pipe_tables_def
      install_block_def bind_links_def u8_def enumerate_eq_zip run_busy_def)

lemma demo_rearm: "rearm_block n = demo_node_block"
  if "nd_block n = node_block\<lparr>pipe_links := []\<rparr>" "nd_priority n = Normal" "\<not> nd_inline n"
  using that by (simp add: rearm_block_def Let_def demo_node_block_def node_block_def make_bare_block_def default_flags_def)

lemma demo_start_fields_graph:
  "gr_todo demo_start_state = {#GA_ready 0#}" "length (gr_nodes demo_start_state) = 2" "gr_base demo_start_state = 100"
  "gr_cascade demo_start_state = cascade_init (\<lambda>_. 0)" "gr_compl demo_start_state = {}"
  "nd_block (gr_nodes demo_start_state ! 0) = demo_node_block"
  "nd_block (gr_nodes demo_start_state ! 1) = demo_node_block"
  "nd_successors (gr_nodes demo_start_state ! 0) = [1]"
  "ru_remaining_deps (gr_run demo_start_state) = [0, 1]" "ru_token (gr_run demo_start_state) = False"
  by (simp_all add: demo_start_state_def execute_def demo_pair_compiled_eq bind_links_for_run_def Let_def
      graph_start_def roots_def demo_rearm numeral_2_eq_2)

lemma demo_start_reach_graph: "graph_reach demo_pair demo_start_state"
proof -
  obtain g rs join where ex: "execute demo_pair_compiled (\<lambda>_. 0) None [] False False False = Inr (g, rs, join)"
    using that by (simp add: execute_def demo_pair_compiled_eq bind_links_for_run_def Let_def) blast
  have "graph_reach demo_pair (graph_start g rs (cascade_init (\<lambda>_. 0)))"
    by (rule graph_reach.gr_start [OF demo_pair_built _ demo_pair_compile ex cr_init])
      (simp_all add: nodes_declared_ok_def demo_pair_eq max_entries_def cascade_init_def)
  then show ?thesis by (simp add: demo_start_state_def ex)
qed

definition demo_launched :: graph_run where
  "demo_launched = on_data_ready 0 demo_start_state"

definition demo_dispatched :: graph_run where
  "demo_dispatched = demo_launched\<lparr>gr_cascade := projr (run_dispatch 100 False (gr_cascade demo_launched))\<rparr>"

definition demo_body_done :: graph_run where
  "demo_body_done = demo_dispatched\<lparr>gr_cascade := projr (run_finish 100 None (gr_cascade demo_dispatched))\<rparr>"

definition demo_completed :: graph_run where
  "demo_completed = node_complete 0 demo_body_done"

definition demo_second :: graph_run where
  "demo_second = on_data_ready 1 (settle_dependency 0 1 demo_completed)"

lemma demo_launched_cascade:
  "cs_pend (gr_cascade demo_launched) = {#A_dispatch 100#}"
  "cs_blocks (gr_cascade demo_launched) 100 = demo_node_block"
  "cs_advanced (gr_cascade demo_launched) 100 = {}"
  by (simp_all add: demo_launched_def on_data_ready_def demo_start_fields_graph launch_task_def demo_node_block_def
      cascade_init_def)

lemma demo_dispatch_runs:
  "run_dispatch 100 False (gr_cascade demo_launched) = Inr (gr_cascade demo_dispatched)"
  "cs_pend (gr_cascade demo_dispatched) = {#A_body 100#}"
  "cs_blocks (gr_cascade demo_dispatched) 100 = demo_node_block\<lparr>body_claimed := True, num_locks := execution_flag + 1\<rparr>"
  "cs_advanced (gr_cascade demo_dispatched) 100 = {}"
  by (simp_all add: demo_dispatched_def run_dispatch_def demo_launched_cascade run_begin_def claim_def
      demo_node_block_def node_block_def make_bare_block_def default_flags_def)

lemma demo_finish_runs:
  "run_finish 100 None (gr_cascade demo_dispatched) = Inr (gr_cascade demo_body_done)"
  "cs_phase (gr_cascade demo_body_done) 100 = Settled" "links_of (gr_cascade demo_body_done) 100 = []"
  "cs_advanced (gr_cascade demo_body_done) 100 = {}"
  by (simp_all add: demo_body_done_def run_finish_def demo_dispatch_runs run_end_def settle_def links_of_def
      demo_node_block_def node_block_def make_bare_block_def default_flags_def)

lemma demo_run_fields:
  "gr_base x = 100 \<and> length (gr_nodes x) = 2 \<and> nd_successors (gr_nodes x ! 0) = [1]
     \<and> gr_compl x = {} \<and> gr_todo x = {#} \<and> gr_run x = gr_run demo_start_state"
  if "x \<in> {demo_launched, demo_dispatched, demo_body_done}"
  using that demo_start_fields_graph
  by (auto simp: demo_launched_def demo_dispatched_def demo_body_done_def on_data_ready_def)

lemma demo_graph_steps: "(graph_step ^^ 6) demo_start_state demo_second"
proof -
  let ?dep = "settle_dependency 0 1 demo_completed"
  have 1: "graph_step demo_start_state demo_launched"
    unfolding demo_launched_def by (rule gs_ready) (simp add: demo_start_fields_graph)
  have 2: "graph_step demo_launched demo_dispatched"
  proof -
    have "graph_step demo_launched (demo_launched\<lparr>gr_cascade := gr_cascade demo_dispatched\<rparr>)"
      by (rule gs_dispatch [of 0]) (use demo_dispatch_runs(1) demo_launched_cascade(1)
        demo_run_fields [of demo_launched] in \<open>simp_all add: demo_start_fields_graph\<close>)
    then show ?thesis by (simp add: demo_dispatched_def)
  qed
  have 3: "graph_step demo_dispatched demo_body_done"
  proof -
    have "other_step (gr_base demo_dispatched) (length (gr_nodes demo_dispatched)) (gr_cascade demo_dispatched)
        (gr_cascade demo_body_done)"
      by (rule o_finish [OF _ demo_finish_runs(1)]) (simp add: demo_dispatch_runs(2))
    from gs_cascade [OF this] show ?thesis by (simp add: demo_body_done_def)
  qed
  have 4: "graph_step demo_body_done demo_completed"
    unfolding demo_completed_def
    by (rule gs_complete) (use demo_run_fields [of demo_body_done] demo_finish_runs in \<open>simp_all add: released_all_def\<close>)
  have todo: "gr_todo demo_completed = {#GA_dep 0 1, GA_finish 0#}"
    using demo_run_fields [of demo_body_done] by (simp add: demo_completed_def node_complete_def)
  have 5: "graph_step demo_completed ?dep" by (rule gs_dep) (simp add: todo)
  have "ru_remaining_deps (gr_run demo_completed) ! 1 = 1"
    using demo_run_fields [of demo_body_done] by (simp add: demo_completed_def node_complete_def demo_start_fields_graph)
  then have 6: "graph_step ?dep demo_second"
    unfolding demo_second_def by (intro gs_ready) (simp add: settle_dependency_def Let_def)
  have six: "6 = Suc (Suc (Suc (Suc (Suc (Suc 0)))))" by simp
  show ?thesis
    unfolding six using 1 2 3 4 5 6 by (blast intro: relpowp_Suc_I relpowp_0_I)
qed

lemma demo_second_reach: "graph_reach demo_pair demo_second"
proof -
  have "graph_reach g t" if "graph_reach g s" "(graph_step ^^ k) s t" for g s t k
    using that(2) that(1) by (induction k arbitrary: t) (auto intro: gr_step)
  then show ?thesis using demo_start_reach_graph demo_graph_steps by blast
qed

lemma demo_second_fields:
  "gr_base demo_second = 100" "length (gr_nodes demo_second) = 2" "node_phase demo_second 1 = Dispatched"
  using demo_run_fields [of demo_body_done] demo_start_fields_graph(7)
  by (simp_all add: demo_second_def on_data_ready_def settle_dependency_def demo_completed_def node_complete_def
      Let_def launch_task_def demo_node_block_def demo_body_done_def demo_dispatched_def demo_launched_def)

theorem graph_order_respected_witness: "node_phase demo_second 0 = Settled"
  using graph_order_respected [OF demo_second_reach, of 0 1] demo_second_fields by (simp add: demo_pair_order r_into_trancl)


theorem graph_handle_truthful_witness:
  "\<not> cancelled (cs_blocks (gr_cascade demo_second) 101)"
proof -
  have tok: "ru_token (gr_run demo_second) = False"
    using demo_run_fields [of demo_body_done]
    by (simp add: demo_second_def on_data_ready_def settle_dependency_def demo_completed_def node_complete_def
        Let_def demo_start_fields_graph)
  obtain d where "ru_done (gr_run demo_second) = Some d"
    using graph_inv_reach [OF demo_second_reach] by (auto simp: graph_inv_def done_ok_def)
  from graph_handle_truthful [OF demo_second_reach this] tok demo_second_fields
  have "\<not> cancelled (cs_blocks (gr_cascade demo_second) (100 + 1))" by (metis one_less_numeral_iff
      phase.distinct(9) semiring_norm(76))
  then show ?thesis by simp
qed

end
