(* ===== verification/Journal.thy ===== *)
theory Journal
  imports Macrame_Prelude
begin

text \<open>
  The staging machinery under \<^verbatim>\<open>Deferred\<close> and \<^verbatim>\<open>Versioned\<close>: \<^verbatim>\<open>detail::Journal\<close>
  (include/ts/detail/journal.h) and the producer handles \<^verbatim>\<open>Recorder\<close> and \<^verbatim>\<open>Parallel_recorder\<close>
  (include/ts/recorder.h). Slots are named by their index in \<^verbatim>\<open>slots_\<close>, which never shrinks, so an
  index stands for the slot's stable address.
\<close>

section \<open>State\<close>

record 'c journal =
  jn_slots :: "'c list list"
  jn_free :: "nat list"

definition journal_new :: "'c journal" where
  "journal_new = \<lparr>jn_slots = [], jn_free = []\<rparr>"

definition max_slots :: nat where
  "max_slots = 4096"

section \<open>Operations\<close>

definition journal_destroy :: "'c journal \<Rightarrow> unit result" where
  "journal_destroy j =
     (if length (jn_slots j) > length (jn_free j) then Inl Journal_recorder_outlives else Inr ())"

definition add_slot :: "'c journal \<Rightarrow> ('c journal \<times> nat) result" where
  "add_slot j =
     (if jn_free j \<noteq> [] then Inr (j\<lparr>jn_free := butlast (jn_free j)\<rparr>, last (jn_free j))
      else if length (jn_slots j) \<ge> max_slots then Inl Journal_slots_exceeded
      else Inr (j\<lparr>jn_slots := jn_slots j @ [[]]\<rparr>, length (jn_slots j)))"

definition release_slot :: "'c journal \<Rightarrow> nat \<Rightarrow> 'c journal" where
  "release_slot j slot = j\<lparr>jn_free := jn_free j @ [slot]\<rparr>"

definition stage_slot :: "'c journal \<Rightarrow> nat \<Rightarrow> 'c \<Rightarrow> 'c journal" where
  "stage_slot j slot c = j\<lparr>jn_slots := (jn_slots j)[slot := jn_slots j ! slot @ [c]]\<rparr>"

text \<open>
  \<^verbatim>\<open>cut\<close>: the register mutex is held over the whole walk, each slot's mutex only while that slot is
  drained. \<open>cut_slot\<close> is one iteration, \<open>cut\<close> the walk with no stage in between.
\<close>

definition cut_slot :: "nat \<Rightarrow> 'c list \<times> 'c journal \<Rightarrow> 'c list \<times> 'c journal" where
  "cut_slot i oj = (fst oj @ jn_slots (snd oj) ! i, (snd oj)\<lparr>jn_slots := (jn_slots (snd oj))[i := []]\<rparr>)"

definition cut :: "'c journal \<Rightarrow> 'c list \<times> 'c journal" where
  "cut j = fold cut_slot [0..<length (jn_slots j)] ([], j)"

definition clear_staged :: "'c journal \<Rightarrow> 'c journal" where
  "clear_staged j = j\<lparr>jn_slots := map (\<lambda>_. []) (jn_slots j)\<rparr>"

definition has_staged :: "'c journal \<Rightarrow> bool" where
  "has_staged j = list_ex (\<lambda>s. s \<noteq> []) (jn_slots j)"

subsection \<open>Recorders\<close>

text \<open>A recorder is its slot pointer; \<open>None\<close> is the empty (default or moved-from) state.\<close>

type_synonym recorder = "nat option"

definition recorder_mint :: "'c journal \<Rightarrow> ('c journal \<times> recorder) result" where
  "recorder_mint j = (case add_slot j of Inl e \<Rightarrow> Inl e | Inr (j', s) \<Rightarrow> Inr (j', Some s))"

definition recorder_release :: "'c journal \<Rightarrow> recorder \<Rightarrow> 'c journal \<times> recorder" where
  "recorder_release j r = ((case r of None \<Rightarrow> j | Some s \<Rightarrow> release_slot j s), None)"

definition recorder_stage :: "'c journal \<Rightarrow> recorder \<Rightarrow> 'c \<Rightarrow> 'c journal result" where
  "recorder_stage j r c = (case r of None \<Rightarrow> Inl Recorder_empty | Some s \<Rightarrow> Inr (stage_slot j s c))"

text \<open>Move construction and move assignment: the target's own slot is released first.\<close>

definition recorder_move :: "recorder \<Rightarrow> recorder \<times> recorder" where
  "recorder_move other = (other, None)"

definition recorder_assign ::
  "'c journal \<Rightarrow> recorder \<Rightarrow> recorder \<Rightarrow> bool \<Rightarrow> 'c journal \<times> recorder \<times> recorder" where
  "recorder_assign j this other same =
     (if same then (j, this, other)
      else let (j', _) = recorder_release j this in (j', other, None))"

text \<open>\<^verbatim>\<open>Parallel_recorder\<close>: one slot per worker and the overflow lane 0.\<close>

fun add_slots :: "nat \<Rightarrow> 'c journal \<Rightarrow> ('c journal \<times> nat list) result" where
  "add_slots 0 j = Inr (j, [])"
| "add_slots (Suc n) j =
     (case add_slot j of
        Inl e \<Rightarrow> Inl e
      | Inr (j', s) \<Rightarrow> (case add_slots n j' of Inl e \<Rightarrow> Inl e | Inr (j'', ss) \<Rightarrow> Inr (j'', s # ss)))"

definition parallel_mint :: "'c journal \<Rightarrow> nat \<Rightarrow> ('c journal \<times> nat list) result" where
  "parallel_mint j workers = add_slots (workers + 1) j"

definition lane :: "nat list \<Rightarrow> int \<Rightarrow> nat" where
  "lane slots w = (if w < 0 \<or> nat w + 1 \<ge> length slots then 0 else nat w + 1)"

definition parallel_stage :: "'c journal \<Rightarrow> nat list \<Rightarrow> int \<Rightarrow> 'c \<Rightarrow> 'c journal result" where
  "parallel_stage j slots w c =
     (if slots = [] then Inl Recorder_empty else Inr (stage_slot j (slots ! lane slots w) c))"

definition parallel_release :: "'c journal \<Rightarrow> nat list \<Rightarrow> 'c journal" where
  "parallel_release j slots = fold (\<lambda>s j. release_slot j s) slots j"

section \<open>The walk\<close>

lemma cut_fold:
  "fold cut_slot [0..<n] ([], j) = (concat (take n (jn_slots j)),
     j\<lparr>jn_slots := replicate (min n (length (jn_slots j))) [] @ drop n (jn_slots j)\<rparr>)"
  if "n \<le> length (jn_slots j)"
  using that
proof (induction n)
  case (Suc n)
  then show ?case
    by (simp add: cut_slot_def take_Suc_conv_app_nth nth_append list_update_append replicate_append_same
        Cons_nth_drop_Suc [symmetric])
qed simp

lemma cut_eq: "cut j = (concat (jn_slots j), clear_staged j)"
  unfolding cut_def by (simp add: cut_fold clear_staged_def map_replicate_const)

text \<open>
  What a client of the journal relies on. \<^verbatim>\<open>Deferred\<close> and \<^verbatim>\<open>Versioned\<close> only stage into slots and cut.
\<close>

locale staging_buffer =
  fixes slots :: "'j \<Rightarrow> nat"
    and staged :: "'j \<Rightarrow> nat \<Rightarrow> 'c list"
    and stage :: "'j \<Rightarrow> nat \<Rightarrow> 'c \<Rightarrow> 'j"
    and take_all :: "'j \<Rightarrow> 'c list \<times> 'j"
  assumes stage_slots: "slots (stage j i c) = slots j"
    and stage_staged: "i < slots j \<Longrightarrow> staged (stage j i c) k = (if k = i then staged j i @ [c] else staged j k)"
    and take_batch: "fst (take_all j) = concat (map (staged j) [0..<slots j])"
    and take_slots: "slots (snd (take_all j)) = slots j"
    and take_staged: "k < slots j \<Longrightarrow> staged (snd (take_all j)) k = []"
begin

text \<open>Staging a list of commands through one slot.\<close>

definition stage_all :: "'j \<Rightarrow> nat \<Rightarrow> 'c list \<Rightarrow> 'j" where
  "stage_all j i cs = fold (\<lambda>c j. stage j i c) cs j"

lemma stage_all_staged:
  "i < slots j \<Longrightarrow> slots (stage_all j i cs) = slots j \<and>
     staged (stage_all j i cs) k = (if k = i then staged j i @ cs else staged j k)"
  unfolding stage_all_def
  by (induction cs arbitrary: j) (auto simp: stage_slots stage_staged)

lemma nothing_twice: "fst (take_all (snd (take_all j))) = []"
  by (simp add: take_batch take_slots take_staged)

text \<open>Applying a batch works off the slots one after the other.\<close>

lemma apply_batch:
  "fold f (fst (take_all j)) t = fold (\<lambda>i. fold f (staged j i)) [0..<slots j] t"
proof -
  have "fold f (concat (map g is)) t = fold (\<lambda>i. fold f (g i)) is t" for g and "is" :: "nat list" and t
    by (induction "is" arbitrary: t) auto
  then show ?thesis by (simp add: take_batch)
qed

end

interpretation jn: staging_buffer "\<lambda>j. length (jn_slots j)" "\<lambda>j i. jn_slots j ! i" stage_slot cut
  by unfold_locales (auto simp: stage_slot_def nth_list_update cut_eq clear_staged_def map_nth)

section \<open>Producers, cuts and their interleaving\<close>

text \<open>
  Producers mint, stage and release while one thread at a time cuts. A cut is a sequence of steps, one
  per slot; stages fall anywhere between them, while minting and releasing wait for the register
  mutex. The last four fields are bookkeeping: finished batches, all commands taken out so far with
  their slots, everything ever staged per slot, and the largest number of recorders alive at once.
\<close>

record 'c journal_run =
  jr_journal :: "'c journal"
  jr_live :: "nat set"
  jr_cut :: "(nat \<times> 'c list) option"
  jr_batches :: "'c list list"
  jr_taken :: "(nat \<times> 'c) list"
  jr_hist :: "nat \<Rightarrow> 'c list"
  jr_peak :: nat

definition journal_run_new :: "'c journal_run" where
  "journal_run_new = \<lparr>jr_journal = journal_new, jr_live = {}, jr_cut = None, jr_batches = [], jr_taken = [],
     jr_hist = (\<lambda>_. []), jr_peak = 0\<rparr>"

inductive journal_step :: "'c journal_run \<Rightarrow> 'c journal_run \<Rightarrow> bool" where
  js_mint: "jr_cut s = None \<Longrightarrow> recorder_mint (jr_journal s) = Inr (j, Some k) \<Longrightarrow>
     journal_step s (s\<lparr>jr_journal := j, jr_live := insert k (jr_live s),
       jr_peak := max (jr_peak s) (card (insert k (jr_live s)))\<rparr>)"
| js_release: "jr_cut s = None \<Longrightarrow> k \<in> jr_live s \<Longrightarrow>
     journal_step s (s\<lparr>jr_journal := fst (recorder_release (jr_journal s) (Some k)), jr_live := jr_live s - {k}\<rparr>)"
| js_stage: "k \<in> jr_live s \<Longrightarrow> recorder_stage (jr_journal s) (Some k) c = Inr j \<Longrightarrow>
     journal_step s (s\<lparr>jr_journal := j, jr_hist := (jr_hist s)(k := jr_hist s k @ [c])\<rparr>)"
| js_cut_begin: "jr_cut s = None \<Longrightarrow> journal_step s (s\<lparr>jr_cut := Some (0, [])\<rparr>)"
| js_cut_slot: "jr_cut s = Some (i, out) \<Longrightarrow> i < length (jn_slots (jr_journal s)) \<Longrightarrow>
     cut_slot i (out, jr_journal s) = (out', j) \<Longrightarrow>
     journal_step s (s\<lparr>jr_journal := j, jr_cut := Some (Suc i, out'),
       jr_taken := jr_taken s @ map (Pair i) (jn_slots (jr_journal s) ! i)\<rparr>)"
| js_cut_end: "jr_cut s = Some (i, out) \<Longrightarrow> i = length (jn_slots (jr_journal s)) \<Longrightarrow>
     journal_step s (s\<lparr>jr_cut := None, jr_batches := jr_batches s @ [out]\<rparr>)"

inductive journal_reach :: "'c journal_run \<Rightarrow> bool" where
  jr_start: "journal_reach journal_run_new"
| jr_step: "journal_reach s \<Longrightarrow> journal_step s t \<Longrightarrow> journal_reach t"

definition slots_ok :: "'c journal_run \<Rightarrow> bool" where
  "slots_ok s \<longleftrightarrow> distinct (jn_free (jr_journal s)) \<and> set (jn_free (jr_journal s)) \<inter> jr_live s = {}
     \<and> set (jn_free (jr_journal s)) \<union> jr_live s = {..<length (jn_slots (jr_journal s))}
     \<and> length (jn_slots (jr_journal s)) \<le> jr_peak s \<and> length (jn_slots (jr_journal s)) \<le> max_slots"

definition slot_content :: "'c journal \<Rightarrow> nat \<Rightarrow> 'c list" where
  "slot_content j k = (if k < length (jn_slots j) then jn_slots j ! k else [])"

definition taken_from :: "nat \<Rightarrow> (nat \<times> 'c) list \<Rightarrow> 'c list" where
  "taken_from k xs = map snd (filter (\<lambda>x. fst x = k) xs)"

lemma taken_from_append [simp]: "taken_from k (xs @ ys) = taken_from k xs @ taken_from k ys"
  by (simp add: taken_from_def)

lemma taken_from_tagged [simp]: "taken_from k (map (Pair i) xs) = (if k = i then xs else [])"
  by (auto simp: taken_from_def filter_map comp_def)

definition delivery_ok :: "'c journal_run \<Rightarrow> bool" where
  "delivery_ok s \<longleftrightarrow>
     (\<forall>k. taken_from k (jr_taken s) @ slot_content (jr_journal s) k = jr_hist s k)
     \<and> map snd (jr_taken s) = concat (jr_batches s) @ (case jr_cut s of None \<Rightarrow> [] | Some (i, out) \<Rightarrow> out)"

lemma slots_ok_step:
  assumes "slots_ok s" and "journal_step s t"
  shows "slots_ok t"
  using assms(2)
proof cases
  case (js_mint j k)
  show ?thesis
  proof (cases "jn_free (jr_journal s) = []")
    case True
    then have j: "j = (jr_journal s)\<lparr>jn_slots := jn_slots (jr_journal s) @ [[]]\<rparr>" "k = length (jn_slots (jr_journal s))"
        "length (jn_slots (jr_journal s)) < max_slots"
      using js_mint(3) by (auto simp: recorder_mint_def add_slot_def split: if_splits)
    have live: "jr_live s = {..<length (jn_slots (jr_journal s))}" using assms(1) True by (auto simp: slots_ok_def)
    have "card (insert k (jr_live s)) = Suc (length (jn_slots (jr_journal s)))"
      by (simp add: live j(2))
    then show ?thesis
      using assms(1) j(3) True unfolding js_mint(1) j by (simp add: slots_ok_def live lessThan_Suc)
  next
    case False
    then obtain xs x where f: "jn_free (jr_journal s) = xs @ [x]" by (metis rev_exhaust)
    then have j: "j = (jr_journal s)\<lparr>jn_free := xs\<rparr>" "k = x"
      using js_mint(3) by (auto simp: recorder_mint_def add_slot_def)
    have "insert x (jr_live s) \<inter> set xs = {}" "insert x (set xs) \<union> jr_live s = {..<length (jn_slots (jr_journal s))}"
      "distinct xs" using assms(1) f by (auto simp: slots_ok_def)
    then show ?thesis using assms(1) unfolding js_mint(1) j by (auto simp: slots_ok_def)
  qed
next
  case (js_release k)
  with assms(1) show ?thesis by (auto simp: slots_ok_def recorder_release_def release_slot_def)
next
  case (js_stage k c j)
  then have "j = stage_slot (jr_journal s) k c" by (simp add: recorder_stage_def)
  with assms(1) js_stage show ?thesis by (simp add: slots_ok_def stage_slot_def)
next
  case (js_cut_slot i out out' j)
  then have "j = (jr_journal s)\<lparr>jn_slots := (jn_slots (jr_journal s))[i := []]\<rparr>" by (simp add: cut_slot_def)
  with assms(1) js_cut_slot show ?thesis by (simp add: slots_ok_def)
qed (use assms(1) in \<open>auto simp: slots_ok_def\<close>)

lemma delivery_ok_step:
  assumes sl: "slots_ok s" and dl: "delivery_ok s" and "journal_step s t"
  shows "delivery_ok t"
  using assms(3)
proof cases
  case (js_mint j k)
  then have "slot_content j = slot_content (jr_journal s)"
    by (auto simp: recorder_mint_def add_slot_def slot_content_def fun_eq_iff nth_append less_Suc_eq
        split: if_splits)
  with dl js_mint show ?thesis by (simp add: delivery_ok_def)
next
  case (js_release k)
  then have "slot_content (jr_journal t) = slot_content (jr_journal s)"
    by (simp add: recorder_release_def release_slot_def slot_content_def fun_eq_iff)
  with dl js_release show ?thesis by (simp add: delivery_ok_def)
next
  case (js_stage k c j)
  have k: "k < length (jn_slots (jr_journal s))" using sl js_stage(2) by (auto simp: slots_ok_def)
  have "slot_content j i = slot_content (jr_journal s) i @ (if i = k then [c] else [])" for i
    using js_stage(3) k by (auto simp: recorder_stage_def stage_slot_def slot_content_def nth_list_update)
  with dl js_stage show ?thesis by (auto simp: delivery_ok_def)
next
  case (js_cut_slot i out out' j)
  then have j: "out' = out @ jn_slots (jr_journal s) ! i"
      "j = (jr_journal s)\<lparr>jn_slots := (jn_slots (jr_journal s))[i := []]\<rparr>" by (auto simp: cut_slot_def)
  have "slot_content j k = (if k = i then [] else slot_content (jr_journal s) k)" for k
    by (auto simp: j(2) slot_content_def nth_list_update)
  moreover have "slot_content (jr_journal s) i = jn_slots (jr_journal s) ! i"
    using js_cut_slot(3) by (simp add: slot_content_def)
  moreover from this have "taken_from i (jr_taken s) @ jn_slots (jr_journal s) ! i = jr_hist s i"
    using dl unfolding delivery_ok_def by metis
  ultimately show ?thesis
    using dl js_cut_slot(2) unfolding js_cut_slot(1) delivery_ok_def by (auto simp: j(1) comp_def)
qed (use dl in \<open>auto simp: delivery_ok_def\<close>)

lemma journal_reach_ok: "journal_reach s \<Longrightarrow> slots_ok s \<and> delivery_ok s"
proof (induction rule: journal_reach.induct)
  case jr_start
  show ?case
    by (simp add: journal_run_new_def journal_new_def slots_ok_def delivery_ok_def slot_content_def taken_from_def)
next
  case (jr_step s t)
  then show ?case using slots_ok_step delivery_ok_step by blast
qed

section \<open>Properties\<close>

text \<open>
  Every staged command is delivered exactly once and in its producer's order. However stages,
  cuts, mints and releases interleave: the finished batches and the cut under way, one after the
  other, consist of commands taken from the slots, and for each slot the commands taken so far
  followed by those still staged are exactly the commands ever staged there, in staging order.
\<close>

theorem journal_exactly_once:
  assumes "journal_reach s"
  shows "map snd (jr_taken s) = concat (jr_batches s) @ (case jr_cut s of None \<Rightarrow> [] | Some (i, out) \<Rightarrow> out)
    \<and> (\<forall>k. map snd (filter (\<lambda>x. fst x = k) (jr_taken s))
          @ (if k < length (jn_slots (jr_journal s)) then jn_slots (jr_journal s) ! k else []) = jr_hist s k)"
  using journal_reach_ok [OF assms] by (simp add: delivery_ok_def slot_content_def taken_from_def)

text \<open>
  Slots are recycled, never shared. The number of slots never exceeds the largest number of
  recorders that were alive at the same time, no slot is both free and owned, and destroying
  the journal is fatal exactly while a recorder is alive.
\<close>

theorem journal_slots_recycled:
  assumes "journal_reach s"
  shows "length (jn_slots (jr_journal s)) \<le> jr_peak s \<and> distinct (jn_free (jr_journal s))
    \<and> set (jn_free (jr_journal s)) \<inter> jr_live s = {}
    \<and> (journal_destroy (jr_journal s) = Inl Journal_recorder_outlives \<longleftrightarrow> jr_live s \<noteq> {})"
proof -
  let ?free = "jn_free (jr_journal s)" and ?n = "length (jn_slots (jr_journal s))"
  have ok: "distinct ?free" "set ?free \<inter> jr_live s = {}" "set ?free \<union> jr_live s = {..<?n}" "?n \<le> jr_peak s"
    using journal_reach_ok [OF assms] by (auto simp: slots_ok_def)
  have "finite (jr_live s)" using ok(3) by (metis finite_Un finite_lessThan)
  then have "length ?free + card (jr_live s) = ?n"
    using ok by (metis card_Un_disjoint card_lessThan distinct_card finite_set)
  then have "length ?free < ?n \<longleftrightarrow> jr_live s \<noteq> {}" using \<open>finite (jr_live s)\<close> card_0_eq [of "jr_live s"] by linarith
  with ok show ?thesis by (simp add: journal_destroy_def)
qed

text \<open>
  A parallel recorder's lanes are private. Whatever the worker count, minting yields one slot per
  worker plus the overflow lane, two different workers of the pool never share a lane with each other
  or with an outside thread, and every thread's lane exists.
\<close>

theorem parallel_lanes_private:
  assumes "parallel_mint j workers = Inr (j', slots)"
  shows "length slots = workers + 1
    \<and> (\<forall>w. lane slots w < length slots)
    \<and> (\<forall>v w. 0 \<le> v \<longrightarrow> v < int workers \<longrightarrow> v \<noteq> w \<longrightarrow> lane slots v \<noteq> lane slots w)"
proof -
  have "add_slots n j = Inr (j', ss) \<Longrightarrow> length ss = n" for n j j' and ss :: "nat list"
    by (induction n arbitrary: j ss) (auto split: sum.splits prod.splits)
  with assms have "length slots = workers + 1" by (auto simp: parallel_mint_def)
  then show ?thesis by (auto simp: lane_def)
qed

section \<open>Witnesses\<close>

text \<open>One recorder stages 5, a cut takes it, 7 is staged before the cut ends.\<close>

definition demo_journal :: "nat journal_run" where
  "demo_journal = \<lparr>jr_journal = \<lparr>jn_slots = [[7]], jn_free = []\<rparr>, jr_live = {0}, jr_cut = None, jr_batches = [[5]],
     jr_taken = [(0, 5)], jr_hist = (\<lambda>_. [])(0 := [5, 7]), jr_peak = 1\<rparr>"

lemma demo_journal_reach: "journal_reach demo_journal"
proof -
  have step: "journal_reach t" if "journal_reach s" "journal_step s u" "u = t" for s t u :: "nat journal_run"
    using that jr_step by blast
  let ?r = "\<lambda>slots cut batches taken hist. \<lparr>jr_journal = \<lparr>jn_slots = slots, jn_free = []\<rparr>, jr_live = {0},
      jr_cut = cut, jr_batches = batches, jr_taken = taken, jr_hist = (\<lambda>_. [])(0 := hist), jr_peak = 1\<rparr>"
  have "journal_reach (?r [[]] None [] [] [] :: nat journal_run)"
    by (rule step [OF jr_start js_mint [where k = 0 and j = "\<lparr>jn_slots = [[]], jn_free = []\<rparr>"]])
      (simp_all add: journal_run_new_def journal_new_def recorder_mint_def add_slot_def max_slots_def fun_upd_def)
  then have "journal_reach (?r [[5]] None [] [] [5] :: nat journal_run)"
    by (rule step [OF _ js_stage [where k = 0 and c = 5 and j = "\<lparr>jn_slots = [[5]], jn_free = []\<rparr>"]])
      (simp_all add: recorder_stage_def stage_slot_def)
  then have "journal_reach (?r [[5]] (Some (0, [])) [] [] [5] :: nat journal_run)"
    by (rule step [OF _ js_cut_begin]) simp_all
  then have "journal_reach (?r [[]] (Some (1, [5])) [] [(0, 5)] [5] :: nat journal_run)"
    by (rule step [OF _ js_cut_slot [where i = 0 and out = "[]" and out' = "[5]" and j = "\<lparr>jn_slots = [[]], jn_free = []\<rparr>"]])
      (simp_all add: cut_slot_def)
  then have "journal_reach (?r [[7]] (Some (1, [5])) [] [(0, 5)] [5, 7] :: nat journal_run)"
    by (rule step [OF _ js_stage [where k = 0 and c = 7 and j = "\<lparr>jn_slots = [[7]], jn_free = []\<rparr>"]])
      (simp_all add: recorder_stage_def stage_slot_def)
  then show ?thesis
    unfolding demo_journal_def by (rule step [OF _ js_cut_end [where i = 1 and out = "[5]"]]) simp_all
qed

theorem journal_exactly_once_witness:
  "map snd (jr_taken demo_journal) = [5] \<and> map snd (jr_taken demo_journal) @ [7] = jr_hist demo_journal 0"
  using journal_exactly_once [OF demo_journal_reach] by (simp add: demo_journal_def)

theorem journal_slots_recycled_witness:
  "journal_destroy (jr_journal demo_journal) = Inl Journal_recorder_outlives"
  using journal_slots_recycled [OF demo_journal_reach] by (simp add: demo_journal_def)

theorem parallel_lanes_private_witness:
  "lane [0, 1, 2] 0 \<noteq> lane [0, 1, 2] 1"
proof -
  have "parallel_mint (journal_new :: nat journal) 2 =
      Inr (\<lparr>jn_slots = [[], [], []], jn_free = []\<rparr>, [0, 1, 2])"
    by (simp add: parallel_mint_def journal_new_def add_slot_def max_slots_def numeral_2_eq_2)
  from parallel_lanes_private [OF this] show ?thesis by simp
qed

end
