(* ===== verification/Deferred.thy ===== *)
theory Deferred
  imports Journal Access_Context Pipe
begin

text \<open>
  \<^verbatim>\<open>Deferred<T>\<close> (include/ts/deferred.h): a command buffer over one guarded object. Producers stage into
  the journal; a commit applies everything staged as one write, inline when the caller holds the
  write grant and as an enqueued write otherwise. What a command does to the object is an argument
  of the model (\<open>run\<close>).
\<close>

section \<open>Operations\<close>

record 'c deferred =
  df_pipe :: pipe_id
  df_inst :: addr
  df_journal :: "'c journal"
  df_last_commit :: "block_id option"

definition deferred_new :: "pipe_id \<Rightarrow> addr \<Rightarrow> 'c deferred" where
  "deferred_new p a = \<lparr>df_pipe = p, df_inst = a, df_journal = journal_new, df_last_commit = None\<rparr>"

datatype commit_outcome = Commit_cancelled | Commit_inline | Commit_enqueued

definition apply_under_grant ::
  "('c \<Rightarrow> 't \<Rightarrow> 't) \<Rightarrow> epoch_store \<Rightarrow> access_context option \<Rightarrow> 'c deferred \<Rightarrow> 't \<Rightarrow> ('c deferred \<times> 't) result" where
  "apply_under_grant run epochs ctx d t =
     (case access_check epochs ctx (df_inst d) Read_write of
        Inl e \<Rightarrow> Inl e
      | Inr _ \<Rightarrow> let (batch, j) = cut (df_journal d) in Inr (d\<lparr>df_journal := j\<rparr>, fold run batch t))"

text \<open>
  \<^verbatim>\<open>commit\<close>: \<open>owner\<close> is the pipe's \<^verbatim>\<open>writer_owner\<close>, \<open>current\<close> the calling task, \<open>b\<close> the block of the write it
  enqueues in the last case (recorded under the pipe mutex together with the enqueue).
\<close>

definition commit ::
  "('c \<Rightarrow> 't \<Rightarrow> 't) \<Rightarrow> epoch_store \<Rightarrow> block_id option \<Rightarrow> block_id option \<Rightarrow> access_context option \<Rightarrow> bool \<Rightarrow>
     block_id \<Rightarrow> 'c deferred \<Rightarrow> 't \<Rightarrow> ('c deferred \<times> 't \<times> commit_outcome) result" where
  "commit run epochs owner current ctx token b d t =
     (if owner \<noteq> None \<and> owner = current then
        (if token then Inr (d, t, Commit_cancelled)
         else case apply_under_grant run epochs ctx d t of
                Inl e \<Rightarrow> Inl e | Inr (d', t') \<Rightarrow> Inr (d', t', Commit_inline))
      else if (case ctx of None \<Rightarrow> False | Some c \<Rightarrow> holds_write_epoch c (df_pipe d))
        then Inl Deferred_nested_commit
      else Inr (d\<lparr>df_last_commit := Some b\<rparr>, t, Commit_enqueued))"

definition discard :: "'c deferred \<Rightarrow> 'c deferred" where
  "discard d = d\<lparr>df_journal := clear_staged (df_journal d)\<rparr>"

definition deferred_destroy :: "(block_id \<Rightarrow> bool) \<Rightarrow> 'c deferred \<Rightarrow> unit result" where
  "deferred_destroy settled d =
     (if (case df_last_commit d of None \<Rightarrow> False | Some b \<Rightarrow> \<not> settled b) then Inl Deferred_commit_in_flight
      else if has_staged (df_journal d) then Inl Deferred_lost_writes
      else journal_destroy (df_journal d))"

lemmas deferred_op_defs [journal_defs] = deferred_new_def apply_under_grant_def commit_def discard_def
  deferred_destroy_def

section \<open>A deferred object in use\<close>

text \<open>
  Producers stage and release at any time; commits are inline or enqueued; enqueued writes run in the
  order they entered the object's pipe (theory \<open>Pipe\<close>: first come, first served), each applying the
  journal or, with its token requested, settling cancelled. The last fields are bookkeeping: applied
  commands in order, discarded ones, all commands that left the journal with their slots, everything ever staged.
\<close>

record ('c, 't) deferred_run =
  dr_deferred :: "'c deferred"
  dr_state :: 't
  dr_live :: "nat set"
  dr_queue :: "block_id list"
  dr_settled :: "block_id set"
  dr_applied :: "'c list"
  dr_discarded :: "'c list"
  dr_taken :: "(nat \<times> 'c) list"
  dr_hist :: "nat \<Rightarrow> 'c list"

definition tagged :: "'c journal \<Rightarrow> (nat \<times> 'c) list" where
  "tagged j = concat (map (\<lambda>i. map (Pair i) (jn_slots j ! i)) [0..<length (jn_slots j)])"

definition deferred_run_new :: "pipe_id \<Rightarrow> addr \<Rightarrow> 't \<Rightarrow> ('c, 't) deferred_run" where
  "deferred_run_new p a t = \<lparr>dr_deferred = deferred_new p a, dr_state = t, dr_live = {}, dr_queue = [],
     dr_settled = {}, dr_applied = [], dr_discarded = [], dr_taken = [], dr_hist = (\<lambda>_. [])\<rparr>"

definition applied_batch :: "('c, 't) deferred_run \<Rightarrow> 'c deferred \<Rightarrow> 't \<Rightarrow> ('c, 't) deferred_run" where
  "applied_batch s d t = s\<lparr>dr_deferred := d, dr_state := t,
     dr_applied := dr_applied s @ fst (cut (df_journal (dr_deferred s))),
     dr_taken := dr_taken s @ tagged (df_journal (dr_deferred s))\<rparr>"

inductive deferred_step :: "('c \<Rightarrow> 't \<Rightarrow> 't) \<Rightarrow> ('c, 't) deferred_run \<Rightarrow> ('c, 't) deferred_run \<Rightarrow> bool" for run where
  ds_mint: "recorder_mint (df_journal (dr_deferred s)) = Inr (j, Some k) \<Longrightarrow>
     deferred_step run s (s\<lparr>dr_deferred := (dr_deferred s)\<lparr>df_journal := j\<rparr>, dr_live := insert k (dr_live s)\<rparr>)"
| ds_release: "k \<in> dr_live s \<Longrightarrow>
     deferred_step run s (s\<lparr>dr_deferred := (dr_deferred s)\<lparr>df_journal :=
       fst (recorder_release (df_journal (dr_deferred s)) (Some k))\<rparr>, dr_live := dr_live s - {k}\<rparr>)"
| ds_stage: "k \<in> dr_live s \<Longrightarrow> recorder_stage (df_journal (dr_deferred s)) (Some k) c = Inr j \<Longrightarrow>
     deferred_step run s (s\<lparr>dr_deferred := (dr_deferred s)\<lparr>df_journal := j\<rparr>,
       dr_hist := (dr_hist s)(k := dr_hist s k @ [c])\<rparr>)"
| ds_inline: "commit run epochs owner cur ctx token b (dr_deferred s) (dr_state s) = Inr (d, t, Commit_inline) \<Longrightarrow>
     deferred_step run s (applied_batch s d t)"
| ds_cancelled: "commit run epochs owner cur ctx token b (dr_deferred s) (dr_state s) = Inr (d, t, Commit_cancelled) \<Longrightarrow>
     deferred_step run s (s\<lparr>dr_deferred := d, dr_state := t\<rparr>)"
| ds_enqueue: "commit run epochs owner cur ctx token b (dr_deferred s) (dr_state s) = Inr (d, t, Commit_enqueued) \<Longrightarrow>
     b \<notin> dr_settled s \<Longrightarrow> b \<notin> set (dr_queue s) \<Longrightarrow>
     deferred_step run s (s\<lparr>dr_deferred := d, dr_state := t, dr_queue := dr_queue s @ [b]\<rparr>)"
| ds_write: "dr_queue s = b # q \<Longrightarrow> apply_under_grant run epochs ctx (dr_deferred s) (dr_state s) = Inr (d, t) \<Longrightarrow>
     deferred_step run s ((applied_batch s d t)\<lparr>dr_queue := q, dr_settled := insert b (dr_settled s)\<rparr>)"
| ds_write_cancelled: "dr_queue s = b # q \<Longrightarrow>
     deferred_step run s (s\<lparr>dr_queue := q, dr_settled := insert b (dr_settled s)\<rparr>)"
| ds_discard: "deferred_step run s (s\<lparr>dr_deferred := discard (dr_deferred s),
     dr_discarded := dr_discarded s @ map snd (tagged (df_journal (dr_deferred s))),
     dr_taken := dr_taken s @ tagged (df_journal (dr_deferred s))\<rparr>)"

inductive deferred_reach :: "('c \<Rightarrow> 't \<Rightarrow> 't) \<Rightarrow> 't \<Rightarrow> ('c, 't) deferred_run \<Rightarrow> bool" for run t where
  dr_start: "deferred_reach run t (deferred_run_new p a t)"
| dr_step: "deferred_reach run t s \<Longrightarrow> deferred_step run s s' \<Longrightarrow> deferred_reach run t s'"

definition deferred_inv :: "('c \<Rightarrow> 't \<Rightarrow> 't) \<Rightarrow> 't \<Rightarrow> ('c, 't) deferred_run \<Rightarrow> bool" where
  "deferred_inv run t s \<longleftrightarrow>
     dr_state s = fold run (dr_applied s) t
     \<and> mset (map snd (dr_taken s)) = mset (dr_applied s) + mset (dr_discarded s)
     \<and> dr_live s \<subseteq> {..<length (jn_slots (df_journal (dr_deferred s)))}
     \<and> set (jn_free (df_journal (dr_deferred s))) \<subseteq> {..<length (jn_slots (df_journal (dr_deferred s)))}
     \<and> (\<forall>k. taken_from k (dr_taken s) @ slot_content (df_journal (dr_deferred s)) k = dr_hist s k)
     \<and> set (dr_queue s) \<inter> dr_settled s = {} \<and> distinct (dr_queue s)
     \<and> (dr_queue s \<noteq> [] \<longrightarrow> df_last_commit (dr_deferred s) = Some (last (dr_queue s)))"

lemma taken_from_tagged_journal: "taken_from k (tagged j) = slot_content j k"
proof -
  have "taken_from k (concat (map (\<lambda>i. map (Pair i) (f i)) [0..<n])) = (if k < n then f k else [])"
    for f :: "nat \<Rightarrow> 'a list" and n
    by (induction n) (auto simp: less_Suc_eq, auto simp: taken_from_def)
  then show ?thesis by (simp add: tagged_def slot_content_def)
qed

lemma tagged_commands: "map snd (tagged j) = fst (cut j)"
proof -
  have "map snd (concat (map (\<lambda>i. map (Pair i) (f i)) is)) = concat (map f is)"
    for f :: "nat \<Rightarrow> 'a list" and "is" by (induction "is") (auto simp: comp_def)
  then show ?thesis by (simp add: tagged_def cut_eq map_nth)
qed

lemma slot_content_free [simp]: "slot_content (j\<lparr>jn_free := f\<rparr>) = slot_content j"
  by (simp add: slot_content_def fun_eq_iff)

lemma slot_content_cleared: "slot_content (clear_staged j) k = []"
  by (simp add: slot_content_def clear_staged_def)

lemma apply_under_grant_result:
  assumes "apply_under_grant run epochs ctx d t = Inr (d', t')"
  shows "d' = d\<lparr>df_journal := clear_staged (df_journal d)\<rparr>" and "t' = fold run (fst (cut (df_journal d))) t"
  using assms by (auto simp: apply_under_grant_def cut_eq split: sum.splits)

lemma deferred_inv_applied:
  assumes "deferred_inv run t s" and "apply_under_grant run epochs ctx (dr_deferred s) (dr_state s) = Inr (d, t')"
  shows "deferred_inv run t (applied_batch s d t')"
  using assms(1) apply_under_grant_result [OF assms(2)]
  by (simp add: deferred_inv_def applied_batch_def slot_content_cleared taken_from_tagged_journal
      mset_map [symmetric] tagged_commands del: mset_map)
    (simp add: clear_staged_def)

lemma commit_inline_applies:
  assumes "commit run epochs owner cur ctx token b d t = Inr (d', t', Commit_inline)"
  shows "apply_under_grant run epochs ctx d t = Inr (d', t') \<and> owner = cur \<and> cur \<noteq> None \<and> \<not> token"
  using assms by (auto simp: commit_def split: if_splits sum.splits)

lemma recorder_mint_slots:
  assumes "recorder_mint j = Inr (j', Some k)" and "set (jn_free j) \<subseteq> {..<length (jn_slots j)}"
  shows "k < length (jn_slots j')" and "length (jn_slots j) \<le> length (jn_slots j')"
    and "set (jn_free j') \<subseteq> {..<length (jn_slots j')}" and "slot_content j' = slot_content j"
proof -
  have "jn_free j = [] \<or> (\<exists>xs x. jn_free j = xs @ [x])" by (metis rev_exhaust)
  with assms show "k < length (jn_slots j')" "length (jn_slots j) \<le> length (jn_slots j')"
    "set (jn_free j') \<subseteq> {..<length (jn_slots j')}"
    by (auto simp: recorder_mint_def add_slot_def split: if_splits)
  show "slot_content j' = slot_content j"
    using assms(1) by (auto simp: recorder_mint_def add_slot_def slot_content_def fun_eq_iff nth_append less_Suc_eq
        split: if_splits)
qed

lemma recorder_stage_content:
  assumes "recorder_stage j (Some k) c = Inr j'" and "k < length (jn_slots j)"
  shows "length (jn_slots j') = length (jn_slots j)" and "jn_free j' = jn_free j"
    and "slot_content j' i = slot_content j i @ (if i = k then [c] else [])"
  using assms by (auto simp: recorder_stage_def stage_slot_def slot_content_def nth_list_update)

lemma deferred_inv_step:
  assumes inv: "deferred_inv run t s" and "deferred_step run s s'"
  shows "deferred_inv run t s'"
  using assms(2)
proof cases
  case (ds_mint j k)
  have "set (jn_free (df_journal (dr_deferred s))) \<subseteq> {..<length (jn_slots (df_journal (dr_deferred s)))}"
    using inv by (simp add: deferred_inv_def)
  from recorder_mint_slots [OF ds_mint(2) this] inv ds_mint(1) show ?thesis by (auto simp: deferred_inv_def)
next
  case (ds_release k)
  then show ?thesis
    using inv by (auto simp: deferred_inv_def recorder_release_def release_slot_def)
next
  case (ds_stage k c j)
  then have "k < length (jn_slots (df_journal (dr_deferred s)))" using inv by (auto simp: deferred_inv_def)
  from recorder_stage_content [OF ds_stage(3) this] inv ds_stage(1) show ?thesis
    by (auto simp: deferred_inv_def)
next
  case (ds_inline epochs owner cur ctx token b d t')
  then show ?thesis using deferred_inv_applied [OF inv] commit_inline_applies by fastforce
next
  case (ds_cancelled epochs owner cur ctx token b d t')
  then show ?thesis using inv by (auto simp: commit_def split: if_splits sum.splits)
next
  case (ds_enqueue epochs owner cur ctx token b d t')
  then show ?thesis using inv by (auto simp: commit_def deferred_inv_def split: if_splits sum.splits)
next
  case (ds_write b q epochs ctx d t')
  from deferred_inv_applied [OF inv ds_write(3)] ds_write(1,2) show ?thesis
    by (auto simp: deferred_inv_def applied_batch_def)
next
  case (ds_write_cancelled b q)
  then show ?thesis using inv by (auto simp: deferred_inv_def)
next
  case ds_discard
  then show ?thesis
    using inv by (simp add: deferred_inv_def discard_def slot_content_cleared taken_from_tagged_journal)
      (simp add: clear_staged_def)
qed

lemma deferred_inv_reach: "deferred_reach run t s \<Longrightarrow> deferred_inv run t s"
proof (induction rule: deferred_reach.induct)
  case (dr_start p a)
  show ?case
    by (simp add: deferred_inv_def deferred_run_new_def deferred_new_def journal_new_def slot_content_def taken_from_def)
next
  case (dr_step s s')
  show ?case by (rule deferred_inv_step [OF dr_step.IH dr_step.hyps(2)])
qed

section \<open>Properties\<close>


lemma not_staged_content: "\<not> has_staged j \<Longrightarrow> slot_content j k = []"
  by (auto simp: has_staged_def slot_content_def list_ex_iff)

text \<open>
  A successful destruction loses nothing. If the destructor does not fault, then no enqueued
  commit is still outstanding (not only the last one, which is the only one it looks at), and
  every command ever staged has been applied or explicitly discarded.
\<close>

theorem deferred_destroy_lossless:
  assumes "deferred_reach run t s" and "deferred_destroy (\<lambda>b. b \<in> dr_settled s) (dr_deferred s) = Inr ()"
  shows "dr_queue s = [] \<and> (\<forall>k. map snd (filter (\<lambda>x. fst x = k) (dr_taken s)) = dr_hist s k)"
proof -
  have inv: "deferred_inv run t s" by (rule deferred_inv_reach [OF assms(1)])
  have ok: "\<not> has_staged (df_journal (dr_deferred s))" "\<And>b. df_last_commit (dr_deferred s) = Some b \<Longrightarrow> b \<in> dr_settled s"
    using assms(2) by (auto simp: deferred_destroy_def split: if_splits option.splits)
  have "dr_queue s = []"
  proof (rule ccontr)
    assume ne: "dr_queue s \<noteq> []"
    with inv ok(2) have "last (dr_queue s) \<in> dr_settled s" by (auto simp: deferred_inv_def)
    moreover have "last (dr_queue s) \<in> set (dr_queue s)" using ne by simp
    ultimately show False using inv by (auto simp: deferred_inv_def)
  qed
  moreover have "map snd (filter (\<lambda>x. fst x = k) (dr_taken s)) = dr_hist s k" for k
    using inv not_staged_content [OF ok(1), of k] unfolding deferred_inv_def taken_from_def
    by (metis append_Nil2)
  ultimately show ?thesis by blast
qed

section \<open>Witnesses\<close>

text \<open>A number behind pipe 3 at address 9; one recorder adds 4, and an enqueued commit applies it.\<close>

definition demo_deferred :: "(nat, nat) deferred_run" where
  "demo_deferred = \<lparr>dr_deferred = \<lparr>df_pipe = 3, df_inst = 9, df_journal = \<lparr>jn_slots = [[]], jn_free = [0]\<rparr>,
       df_last_commit = Some 5\<rparr>,
     dr_state = 14, dr_live = {}, dr_queue = [], dr_settled = {5}, dr_applied = [4], dr_discarded = [],
     dr_taken = [(0, 4)], dr_hist = (\<lambda>_. [])(0 := [4])\<rparr>"

lemma demo_deferred_reach: "deferred_reach (+) 10 demo_deferred"
proof -
  have step: "deferred_reach (+) 10 v" if "deferred_reach (+) 10 s" "deferred_step (+) s u" "u = v"
    for s u v :: "(nat, nat) deferred_run"
    using deferred_reach.dr_step [OF that(1,2)] that(3) by simp
  let ?s = "\<lambda>slots free last val live queue settled applied taken hist. \<lparr>dr_deferred = \<lparr>df_pipe = 3, df_inst = 9,
      df_journal = \<lparr>jn_slots = slots, jn_free = free\<rparr>, df_last_commit = last\<rparr>,
     dr_state = val, dr_live = live, dr_queue = queue, dr_settled = settled, dr_applied = applied, dr_discarded = [],
     dr_taken = taken, dr_hist = (\<lambda>_. [])(0 := hist)\<rparr> :: (nat, nat) deferred_run"
  let ?ctx = "Some [\<lparr>ent_instance = 9, ent_mode = Read_write, ent_epoch = Some 3, ent_captured = 0, ent_rank = 0\<rparr>]"
  have "deferred_reach (+) 10 (?s [[]] [] None 10 {0} [] {} [] [] [])"
    by (rule step [OF dr_start [of _ _ 3 9] ds_mint [where k = 0 and j = "\<lparr>jn_slots = [[]], jn_free = []\<rparr>"]])
      (simp_all add: deferred_run_new_def deferred_new_def journal_new_def recorder_mint_def add_slot_def
        max_slots_def fun_upd_def)
  then have "deferred_reach (+) 10 (?s [[4]] [] None 10 {0} [] {} [] [] [4])"
    by (rule step [OF _ ds_stage [where k = 0 and c = 4 and j = "\<lparr>jn_slots = [[4]], jn_free = []\<rparr>"]])
      (simp_all add: recorder_stage_def stage_slot_def)
  then have "deferred_reach (+) 10 (?s [[4]] [] (Some 5) 10 {0} [5] {} [] [] [4])"
    by (rule step [OF _ ds_enqueue [where b = 5 and owner = None and ctx = None and t = 10
        and d = "\<lparr>df_pipe = 3, df_inst = 9, df_journal = \<lparr>jn_slots = [[4]], jn_free = []\<rparr>, df_last_commit = Some 5\<rparr>"]])
      (simp_all add: commit_def)
  then have "deferred_reach (+) 10 (?s [[]] [] (Some 5) 14 {0} [] {5} [4] [(0, 4)] [4])"
    by (rule step [OF _ ds_write [where b = 5 and q = "[]" and t = 14 and epochs = "\<lambda>_. 0" and ctx = ?ctx
        and d = "\<lparr>df_pipe = 3, df_inst = 9, df_journal = \<lparr>jn_slots = [[]], jn_free = []\<rparr>, df_last_commit = Some 5\<rparr>"]])
      (simp_all add: apply_under_grant_def access_check_def ctx_check_def entry_stale_def cut_eq clear_staged_def
        applied_batch_def tagged_def)
  then show ?thesis
    unfolding demo_deferred_def
    by (rule step [OF _ ds_release [where k = 0]]) (simp_all add: recorder_release_def release_slot_def)
qed


theorem deferred_destroy_lossless_witness:
  "dr_queue demo_deferred = [] \<and> dr_hist demo_deferred 0 = [4]"
proof -
  have "deferred_destroy (\<lambda>b. b \<in> dr_settled demo_deferred) (dr_deferred demo_deferred) = Inr ()"
    by (simp add: demo_deferred_def deferred_destroy_def has_staged_def journal_destroy_def)
  from deferred_destroy_lossless [OF demo_deferred_reach this] show ?thesis by (simp add: demo_deferred_def)
qed

end
