(* ===== verification/Worker_Pool.thy ===== *)
theory Worker_Pool
  imports Macrame_Prelude
begin

text \<open>
  The worker threads and how they wait: \<^verbatim>\<open>Worker_thread::main\<close> (src/worker_thread.cpp), the idle
  policies, \<^verbatim>\<open>signal_submit\<close> and the destructor's shutdown (src/scheduler.cpp), over \<^verbatim>\<open>Event_count\<close>
  (include/ts/detail/event_count.h). Threads interleave at every shared access. One push, pop, take or steal
  is one step here (theories \<open>Mpmc_Queue\<close> and \<open>Work_Stealing\<close> show each takes effect at one action), and a
  steal may come back empty-handed. A scan visits the queues in any order, which covers the order
  of \<^verbatim>\<open>find_work\<close> (theory \<open>Scheduler\<close>) with both of its valves.
\<close>

section \<open>State\<close>

datatype idle_policy = Spin | Spin_then_block | Handoff

datatype source = Global priority | Local nat

datatype thread = External nat | Worker nat

text \<open>
  Inside \<^verbatim>\<open>signal_submit\<close> and \<^verbatim>\<open>notify_one\<close>: entered; advanced and about to read \<^verbatim>\<open>num_spinning_\<close>;
  about to advance in \<^verbatim>\<open>notify_one\<close>; about to wake.
\<close>

datatype signal = Sig_none | Sig_submit | Sig_load | Sig_notify | Sig_wake

text \<open>
  Where a worker is: the loop top, a scan with the queues it has not tried yet, the test of \<^verbatim>\<open>quit_\<close> after
  it, the final emptiness check, the wait (\<^verbatim>\<open>wait_for_work\<close>), a spin scan with the cycles left, its
  quit test, the same for \<^verbatim>\<open>handoff_wait\<close> and its two ways out, the park (epoch read, queues
  re-scanned, quit tested, about to wait, waiting), running a task, gone.
\<close>

datatype worker_pc =
    W_top
  | W_scan "source set"
  | W_quit
  | W_final "source set"
  | W_wait
  | W_spin nat "source set"
  | W_spin_quit nat
  | W_hspin nat "source set"
  | W_hspin_quit nat
  | W_hfound
  | W_hdrop bool
  | W_prepare
  | W_recheck nat "source set"
  | W_park_quit nat
  | W_commit nat
  | W_parked nat
  | W_run
  | W_exit

text \<open>
  \<open>pl_epoch\<close> counts the advances; the code sees its low 32 bits. \<open>pl_quit_advanced\<close> and \<open>pl_quit_done\<close>: how far
  the destructor's \<^verbatim>\<open>notify_all\<close> is. The last two fields are bookkeeping: all tasks submitted and all tasks started.
\<close>

record 'a pool =
  pl_policy :: idle_policy
  pl_cycles :: nat
  pl_count :: nat
  pl_queue :: "source \<Rightarrow> 'a list"
  pl_epoch :: nat
  pl_spinning :: int
  pl_quit :: bool
  pl_quit_advanced :: bool
  pl_quit_done :: bool
  pl_signal :: "thread \<Rightarrow> signal"
  pl_pc :: "nat \<Rightarrow> worker_pc"
  pl_submitted :: "'a multiset"
  pl_started :: "'a multiset"

definition pool_new :: "idle_policy \<Rightarrow> nat \<Rightarrow> nat \<Rightarrow> 'a pool" where
  "pool_new policy cycles n = \<lparr>pl_policy = policy, pl_cycles = cycles, pl_count = n, pl_queue = (\<lambda>_. []), pl_epoch = 0,
     pl_spinning = 0, pl_quit = False, pl_quit_advanced = False, pl_quit_done = False, pl_signal = (\<lambda>_. Sig_none), pl_pc = (\<lambda>_. W_top),
     pl_submitted = {#}, pl_started = {#}\<rparr>"

definition sources :: "nat \<Rightarrow> source set" where
  "sources n = range Global \<union> Local ` {..<n}"

section \<open>The event count\<close>

definition prepare_wait :: "'a pool \<Rightarrow> nat" where
  "prepare_wait s = pl_epoch s"

text \<open>\<^verbatim>\<open>epoch_.wait(key)\<close> blocks while the 32-bit epoch equals the key.\<close>

definition epoch_unchanged :: "'a pool \<Rightarrow> nat \<Rightarrow> bool" where
  "epoch_unchanged s key \<longleftrightarrow> (word_of_nat (pl_epoch s) :: 32 word) = word_of_nat key"

definition advance :: "'a pool \<Rightarrow> 'a pool" where
  "advance s = s\<lparr>pl_epoch := pl_epoch s + 1\<rparr>"

definition is_parked :: "worker_pc \<Rightarrow> bool" where
  "is_parked pc = (case pc of W_parked _ \<Rightarrow> True | _ \<Rightarrow> False)"

text \<open>Waking a waiter: it re-reads the epoch and goes back to waiting when that has not moved.\<close>

definition wake :: "nat \<Rightarrow> 'a pool \<Rightarrow> 'a pool" where
  "wake w s = (case pl_pc s w of
     W_parked key \<Rightarrow> if epoch_unchanged s key then s else s\<lparr>pl_pc := (pl_pc s)(w := W_top)\<rparr>
   | _ \<Rightarrow> s)"

definition wake_all :: "'a pool \<Rightarrow> 'a pool" where
  "wake_all s = s\<lparr>pl_pc := (\<lambda>w. case pl_pc s w of
     W_parked key \<Rightarrow> if epoch_unchanged s key then W_parked key else W_top | pc \<Rightarrow> pc)\<rparr>"

definition set_pc :: "nat \<Rightarrow> worker_pc \<Rightarrow> 'a pool \<Rightarrow> 'a pool" where
  "set_pc w pc s = s\<lparr>pl_pc := (pl_pc s)(w := pc)\<rparr>"

definition set_signal :: "thread \<Rightarrow> signal \<Rightarrow> 'a pool \<Rightarrow> 'a pool" where
  "set_signal t g s = s\<lparr>pl_signal := (pl_signal s)(t := g)\<rparr>"

text \<open>The worker \<open>w\<close> is at \<open>pc\<close> and not busy signalling.\<close>

definition at :: "'a pool \<Rightarrow> nat \<Rightarrow> worker_pc \<Rightarrow> bool" where
  "at s w pc \<longleftrightarrow> w < pl_count s \<and> pl_pc s w = pc \<and> pl_signal s (Worker w) = Sig_none"

section \<open>Steps\<close>

text \<open>
  \<^verbatim>\<open>submit\<close>: the push and, after it, the signal. A worker in a task pushes to its own deque or to a global
  queue; another thread only to a global queue. Destroying the scheduler while other threads submit is
  outside its contract, so external submits end with \<open>pl_quit\<close>.
\<close>

definition push :: "source \<Rightarrow> 'a \<Rightarrow> 'a pool \<Rightarrow> 'a pool" where
  "push q x s = s\<lparr>pl_queue := (pl_queue s)(q := pl_queue s q @ [x]), pl_submitted := add_mset x (pl_submitted s)\<rparr>"

inductive submit_step :: "'a pool \<Rightarrow> 'a pool \<Rightarrow> bool" where
  sub_external: "\<not> pl_quit s \<Longrightarrow> pl_signal s (External i) = Sig_none \<Longrightarrow>
     submit_step s (set_signal (External i) Sig_submit (push (Global p) x s))"
| sub_worker: "at s w W_run \<Longrightarrow> submit_step s (set_signal (Worker w) Sig_submit (push (Global p) x s))"
| sub_local: "at s w W_run \<Longrightarrow> submit_step s (set_signal (Worker w) Sig_submit (push (Local w) x s))"

inductive signal_step :: "'a pool \<Rightarrow> 'a pool \<Rightarrow> bool" where
  sig_spin: "pl_signal s t = Sig_submit \<Longrightarrow> pl_policy s = Spin \<Longrightarrow> signal_step s (set_signal t Sig_none s)"
| sig_block: "pl_signal s t = Sig_submit \<Longrightarrow> pl_policy s = Spin_then_block \<Longrightarrow> signal_step s (set_signal t Sig_notify s)"
| sig_handoff: "pl_signal s t = Sig_submit \<Longrightarrow> pl_policy s = Handoff \<Longrightarrow>
     signal_step s (set_signal t Sig_load (advance s))"
| sig_load: "pl_signal s t = Sig_load \<Longrightarrow>
     signal_step s (set_signal t (if pl_spinning s = 0 then Sig_wake else Sig_none) s)"
| sig_notify: "pl_signal s t = Sig_notify \<Longrightarrow> signal_step s (set_signal t Sig_wake (advance s))"
| sig_wake: "pl_signal s t = Sig_wake \<Longrightarrow> is_parked (pl_pc s w) \<Longrightarrow> w < pl_count s \<Longrightarrow>
     signal_step s (set_signal t Sig_none (wake w s))"
| sig_wake_none: "pl_signal s t = Sig_wake \<Longrightarrow> (\<forall>w < pl_count s. \<not> is_parked (pl_pc s w)) \<Longrightarrow>
     signal_step s (set_signal t Sig_none s)"

text \<open>
  One queue visited by the scan of worker \<open>w\<close>: a task found, the queue seen empty, or a steal lost.
  \<open>visit s w q y\<close> is the outcome and the state after it.
\<close>

inductive visit :: "'a pool \<Rightarrow> nat \<Rightarrow> source \<Rightarrow> bool \<Rightarrow> 'a pool \<Rightarrow> bool" where
  visit_global: "pl_queue s (Global p) = x # xs \<Longrightarrow>
     visit s w (Global p) True (s\<lparr>pl_queue := (pl_queue s)(Global p := xs), pl_started := add_mset x (pl_started s)\<rparr>)"
| visit_take: "pl_queue s (Local w) = xs @ [x] \<Longrightarrow>
     visit s w (Local w) True (s\<lparr>pl_queue := (pl_queue s)(Local w := xs), pl_started := add_mset x (pl_started s)\<rparr>)"
| visit_steal: "v \<noteq> w \<Longrightarrow> pl_queue s (Local v) = x # xs \<Longrightarrow>
     visit s w (Local v) True (s\<lparr>pl_queue := (pl_queue s)(Local v := xs), pl_started := add_mset x (pl_started s)\<rparr>)"
| visit_empty: "pl_queue s q = [] \<Longrightarrow> visit s w q False s"
| visit_lost: "v \<noteq> w \<Longrightarrow> visit s w (Local v) False s"

text \<open>The loop of \<^verbatim>\<open>Worker_thread::main\<close>.\<close>

inductive main_step :: "'a pool \<Rightarrow> 'a pool \<Rightarrow> bool" where
  mn_scan: "at s w W_top \<Longrightarrow> main_step s (set_pc w (W_scan (sources (pl_count s))) s)"
| mn_found: "at s w (W_scan S) \<Longrightarrow> q \<in> S \<Longrightarrow> visit s w q True s' \<Longrightarrow> main_step s (set_pc w W_run s')"
| mn_missed: "at s w (W_scan S) \<Longrightarrow> q \<in> S \<Longrightarrow> visit s w q False s' \<Longrightarrow> main_step s (set_pc w (W_scan (S - {q})) s')"
| mn_dry: "at s w (W_scan {}) \<Longrightarrow> main_step s (set_pc w W_quit s)"
| mn_quit: "at s w W_quit \<Longrightarrow>
     main_step s (set_pc w (if pl_quit s then W_final (sources (pl_count s)) else W_wait) s)"
| mn_empty: "at s w (W_final S) \<Longrightarrow> q \<in> S \<Longrightarrow> pl_queue s q = [] \<Longrightarrow> main_step s (set_pc w (W_final (S - {q})) s)"
| mn_left: "at s w (W_final S) \<Longrightarrow> q \<in> S \<Longrightarrow> pl_queue s q \<noteq> [] \<Longrightarrow> main_step s (set_pc w W_wait s)"
| mn_exit: "at s w (W_final {}) \<Longrightarrow> main_step s (set_pc w W_exit s)"
| mn_return: "at s w W_run \<Longrightarrow> main_step s (set_pc w W_top s)"

text \<open>\<^verbatim>\<open>wait_for_work\<close>, \<^verbatim>\<open>spin_scan\<close>, \<^verbatim>\<open>handoff_wait\<close> and \<^verbatim>\<open>park\<close>.\<close>

inductive wait_step :: "'a pool \<Rightarrow> 'a pool \<Rightarrow> bool" where
  wt_yield: "at s w W_wait \<Longrightarrow> pl_policy s = Spin \<Longrightarrow> wait_step s (set_pc w W_top s)"
| wt_spin: "at s w W_wait \<Longrightarrow> pl_policy s = Spin_then_block \<Longrightarrow>
     wait_step s (set_pc w (if pl_cycles s = 0 then W_prepare else W_spin (pl_cycles s) (sources (pl_count s))) s)"
| wt_handoff: "at s w W_wait \<Longrightarrow> pl_policy s = Handoff \<Longrightarrow>
     wait_step s (set_pc w (if pl_cycles s = 0 then W_hdrop True else W_hspin (pl_cycles s) (sources (pl_count s)))
       (s\<lparr>pl_spinning := pl_spinning s + 1\<rparr>))"

inductive spin_step :: "'a pool \<Rightarrow> 'a pool \<Rightarrow> bool" where
  sp_found: "at s w (W_spin c S) \<Longrightarrow> q \<in> S \<Longrightarrow> visit s w q True s' \<Longrightarrow> spin_step s (set_pc w W_run s')"
| sp_missed: "at s w (W_spin c S) \<Longrightarrow> q \<in> S \<Longrightarrow> visit s w q False s' \<Longrightarrow> spin_step s (set_pc w (W_spin c (S - {q})) s')"
| sp_dry: "at s w (W_spin c {}) \<Longrightarrow> spin_step s (set_pc w (W_spin_quit c) s)"
| sp_quit: "at s w (W_spin_quit c) \<Longrightarrow>
     spin_step s (set_pc w (if pl_quit s \<or> c \<le> 1 then W_prepare else W_spin (c - 1) (sources (pl_count s))) s)"

inductive handoff_step :: "'a pool \<Rightarrow> 'a pool \<Rightarrow> bool" where
  ho_found: "at s w (W_hspin c S) \<Longrightarrow> q \<in> S \<Longrightarrow> visit s w q True s' \<Longrightarrow> handoff_step s (set_pc w W_hfound s')"
| ho_missed: "at s w (W_hspin c S) \<Longrightarrow> q \<in> S \<Longrightarrow> visit s w q False s' \<Longrightarrow> handoff_step s (set_pc w (W_hspin c (S - {q})) s')"
| ho_dry: "at s w (W_hspin c {}) \<Longrightarrow> handoff_step s (set_pc w (W_hspin_quit c) s)"
| ho_quit: "at s w (W_hspin_quit c) \<Longrightarrow>
     handoff_step s (set_pc w (if pl_quit s then W_hdrop False
       else if c \<le> 1 then W_hdrop True else W_hspin (c - 1) (sources (pl_count s))) s)"
| ho_promote: "at s w W_hfound \<Longrightarrow>
     handoff_step s (set_signal (Worker w) (if pl_spinning s = 1 then Sig_notify else Sig_none)
       (set_pc w W_run (s\<lparr>pl_spinning := pl_spinning s - 1\<rparr>)))"
| ho_drop: "at s w (W_hdrop park) \<Longrightarrow>
     handoff_step s (set_pc w (if park then W_prepare else W_top) (s\<lparr>pl_spinning := pl_spinning s - 1\<rparr>))"

inductive park_step :: "'a pool \<Rightarrow> 'a pool \<Rightarrow> bool" where
  pk_prepare: "at s w W_prepare \<Longrightarrow> park_step s (set_pc w (W_recheck (prepare_wait s) (sources (pl_count s))) s)"
| pk_found: "at s w (W_recheck key S) \<Longrightarrow> q \<in> S \<Longrightarrow> visit s w q True s' \<Longrightarrow> park_step s (set_pc w W_run s')"
| pk_missed: "at s w (W_recheck key S) \<Longrightarrow> q \<in> S \<Longrightarrow> visit s w q False s' \<Longrightarrow>
     park_step s (set_pc w (W_recheck key (S - {q})) s')"
| pk_dry: "at s w (W_recheck key {}) \<Longrightarrow> park_step s (set_pc w (W_park_quit key) s)"
| pk_quit: "at s w (W_park_quit key) \<Longrightarrow> park_step s (set_pc w (if pl_quit s then W_top else W_commit key) s)"
| pk_commit: "at s w (W_commit key) \<Longrightarrow>
     park_step s (set_pc w (if epoch_unchanged s key then W_parked key else W_top) s)"

text \<open>The first steps of \<^verbatim>\<open>~Scheduler\<close>: store \<^verbatim>\<open>quit_\<close>, then \<^verbatim>\<open>notify_all\<close>, which only the spin policy leaves out.\<close>

inductive quit_step :: "'a pool \<Rightarrow> 'a pool \<Rightarrow> bool" where
  qt_store: "\<not> pl_quit s \<Longrightarrow> (\<forall>i. pl_signal s (External i) = Sig_none) \<Longrightarrow> quit_step s (s\<lparr>pl_quit := True\<rparr>)"
| qt_advance: "pl_quit s \<Longrightarrow> \<not> pl_quit_advanced s \<Longrightarrow> pl_policy s \<noteq> Spin \<Longrightarrow>
     quit_step s ((advance s)\<lparr>pl_quit_advanced := True\<rparr>)"
| qt_wake: "pl_quit_advanced s \<Longrightarrow> \<not> pl_quit_done s \<Longrightarrow> quit_step s ((wake_all s)\<lparr>pl_quit_done := True\<rparr>)"

definition pool_step :: "'a pool \<Rightarrow> 'a pool \<Rightarrow> bool" where
  "pool_step s s' \<longleftrightarrow> submit_step s s' \<or> signal_step s s' \<or> main_step s s' \<or> wait_step s s' \<or> spin_step s s'
     \<or> handoff_step s s' \<or> park_step s s' \<or> quit_step s s'"

inductive pool_reach :: "'a pool \<Rightarrow> bool" where
  pl_start: "0 < n \<Longrightarrow> pool_reach (pool_new policy cycles n)"
| pl_step: "pool_reach s \<Longrightarrow> pool_step s s' \<Longrightarrow> pool_reach s'"

section \<open>Invariants\<close>

lemmas pool_ops = set_pc_def set_signal_def push_def advance_def wake_def wake_all_def at_def is_parked_def prepare_wait_def

lemma pool_cases [consumes 1]:
  assumes "pool_step s s'"
    and "submit_step s s' \<Longrightarrow> P" and "signal_step s s' \<Longrightarrow> P" and "main_step s s' \<Longrightarrow> P" and "wait_step s s' \<Longrightarrow> P"
    and "spin_step s s' \<Longrightarrow> P" and "handoff_step s s' \<Longrightarrow> P" and "park_step s s' \<Longrightarrow> P" and "quit_step s s' \<Longrightarrow> P"
  shows P
  using assms by (auto simp: pool_step_def)

lemmas pool_elims = submit_step.cases signal_step.cases main_step.cases wait_step.cases spin_step.cases
  handoff_step.cases park_step.cases quit_step.cases visit.cases

text \<open>Constants of a pool, and the epoch only grows.\<close>

lemma pool_step_frame:
  assumes "pool_step s s'"
  shows "pl_count s' = pl_count s \<and> pl_policy s' = pl_policy s \<and> pl_epoch s \<le> pl_epoch s'"
  using assms
  by (cases rule: pool_cases) (auto elim!: pool_elims simp: pool_ops split: worker_pc.splits)

subsection \<open>No task is lost or run twice\<close>

lemma finite_sources [simp]: "finite (sources n)"
proof -
  have "(UNIV :: priority set) = {High, Normal, Low}" using priority.exhaust by auto
  then have "finite (UNIV :: priority set)" by (metis finite.emptyI finite.insertI)
  then show ?thesis by (simp add: sources_def)
qed

lemma sources_simps [simp]: "Global p \<in> sources n" "Local w \<in> sources n \<longleftrightarrow> w < n"
  by (auto simp: sources_def)

definition queued :: "'a pool \<Rightarrow> 'a multiset" where
  "queued s = (\<Sum>q \<in> sources (pl_count s). mset (pl_queue s q))"

lemma queued_update:
  assumes "q \<in> sources n"
  shows "(\<Sum>r \<in> sources n. mset ((f(q := xs)) r)) + mset (f q) = (\<Sum>r \<in> sources n. mset (f r)) + mset xs"
proof -
  have "(\<Sum>r \<in> sources n - {q}. mset ((f(q := xs)) r)) = (\<Sum>r \<in> sources n - {q}. mset (f r))"
    by (intro sum.cong) auto
  then show ?thesis
    using sum.remove [OF finite_sources assms, of "\<lambda>r. mset ((f(q := xs)) r)"] sum.remove [OF finite_sources assms, of "\<lambda>r. mset (f r)"]
    by simp
qed

definition tasks_ok :: "'a pool \<Rightarrow> bool" where
  "tasks_ok s \<longleftrightarrow> pl_submitted s = pl_started s + queued s \<and> (\<forall>q. q \<notin> sources (pl_count s) \<longrightarrow> pl_queue s q = [])"

lemma tasks_push:
  assumes "tasks_ok s" and "q \<in> sources (pl_count s)"
  shows "tasks_ok (push q x s)"
  using assms queued_update [OF assms(2), of "pl_queue s" "pl_queue s q @ [x]"]
  by (simp add: tasks_ok_def push_def queued_def)

lemma tasks_push_global: "tasks_ok s \<Longrightarrow> tasks_ok (push (Global p) x s)"
  by (rule tasks_push) simp_all

lemma tasks_push_local: "tasks_ok s \<Longrightarrow> w < pl_count s \<Longrightarrow> tasks_ok (push (Local w) x s)"
  by (rule tasks_push) simp_all

lemma tasks_find:
  assumes "tasks_ok s" and "visit s w q b s'"
  shows "tasks_ok s'"
proof -
  have take: "tasks_ok (s\<lparr>pl_queue := (pl_queue s)(q := ys), pl_started := add_mset x (pl_started s)\<rparr>)"
    if "mset (pl_queue s q) = add_mset x (mset ys)" for q x ys
  proof -
    have "q \<in> sources (pl_count s)" using assms(1) that by (auto simp: tasks_ok_def)
    with queued_update [OF this, of "pl_queue s" ys] assms(1) that show ?thesis by (simp add: tasks_ok_def queued_def)
  qed
  from assms(2) show ?thesis by cases (use assms(1) take in auto)
qed

lemma tasks_frame [simp]:
  "tasks_ok (set_pc w pc s) = tasks_ok s" "tasks_ok (set_signal t g s) = tasks_ok s" "tasks_ok (advance s) = tasks_ok s"
  "tasks_ok (wake w s) = tasks_ok s" "tasks_ok (wake_all s) = tasks_ok s" "tasks_ok (s\<lparr>pl_spinning := k\<rparr>) = tasks_ok s"
  "tasks_ok (s\<lparr>pl_quit := b\<rparr>) = tasks_ok s" "tasks_ok (s\<lparr>pl_quit_advanced := b\<rparr>) = tasks_ok s"
  "tasks_ok (s\<lparr>pl_quit_done := b\<rparr>) = tasks_ok s"
  by (auto simp: tasks_ok_def queued_def pool_ops split: worker_pc.splits)

lemma tasks_step: "pool_step s s' \<Longrightarrow> tasks_ok s \<Longrightarrow> tasks_ok s'"
  by (cases rule: pool_cases)
    (auto elim!: submit_step.cases signal_step.cases main_step.cases wait_step.cases spin_step.cases
      handoff_step.cases park_step.cases quit_step.cases intro: tasks_push_global tasks_push_local tasks_find simp: at_def)

subsection \<open>Spinners are counted\<close>

fun spinning :: "worker_pc \<Rightarrow> bool" where
  "spinning (W_hspin c S) = True"
| "spinning (W_hspin_quit c) = True"
| "spinning W_hfound = True"
| "spinning (W_hdrop b) = True"
| "spinning _ = False"

definition spinners :: "'a pool \<Rightarrow> nat set" where
  "spinners s = {w. w < pl_count s \<and> spinning (pl_pc s w)}"

definition spin_ok :: "'a pool \<Rightarrow> bool" where
  "spin_ok s \<longleftrightarrow> pl_spinning s = int (card (spinners s))"

lemma finite_spinners [simp]: "finite (spinners s)"
  by (simp add: spinners_def)

lemma spinners_set_pc:
  "w < pl_count s \<Longrightarrow> spinners (set_pc w pc s) = (if spinning pc then insert w (spinners s) else spinners s - {w})"
  by (auto simp: spinners_def set_pc_def)

lemma spinners_wake [simp]: "spinners (wake w s) = spinners s" "spinners (wake_all s) = spinners s"
proof -
  show "spinners (wake w s) = spinners s"
    by (cases "pl_pc s w") (auto simp: spinners_def wake_def)
  have "spinning (case pl_pc s v of W_parked key \<Rightarrow> if epoch_unchanged s key then W_parked key else W_top | pc \<Rightarrow> pc)
      = spinning (pl_pc s v)" for v
    by (cases "pl_pc s v") auto
  then show "spinners (wake_all s) = spinners s" by (simp add: spinners_def wake_all_def)
qed

lemma spinners_frame [simp]:
  "spinners (set_signal t g s) = spinners s" "spinners (push q x s) = spinners s" "spinners (advance s) = spinners s"
  "spinners (s\<lparr>pl_spinning := k\<rparr>) = spinners s" "spinners (s\<lparr>pl_quit := b\<rparr>) = spinners s"
  "spinners (s\<lparr>pl_quit_advanced := b\<rparr>) = spinners s" "spinners (s\<lparr>pl_quit_done := b\<rparr>) = spinners s"
  "spinners (s\<lparr>pl_queue := f, pl_started := m\<rparr>) = spinners s"
  by (simp_all add: spinners_def set_signal_def push_def advance_def)

lemma spinning_frame [simp]:
  "pl_spinning (set_pc w pc s) = pl_spinning s" "pl_spinning (set_signal t g s) = pl_spinning s"
  "pl_spinning (push q x s) = pl_spinning s" "pl_spinning (advance s) = pl_spinning s"
  "pl_spinning (wake_all s) = pl_spinning s" "pl_spinning (wake w s) = pl_spinning s"
  by (auto simp: pool_ops split: worker_pc.splits)

text \<open>A finding scan changes queues only.\<close>

lemma visit_frame:
  "visit s w q b s' \<Longrightarrow> pl_pc s' = pl_pc s \<and> pl_count s' = pl_count s \<and> pl_spinning s' = pl_spinning s \<and> pl_signal s' = pl_signal s
     \<and> pl_epoch s' = pl_epoch s \<and> pl_policy s' = pl_policy s \<and> pl_quit s' = pl_quit s \<and> pl_quit_advanced s' = pl_quit_advanced s
     \<and> pl_quit_done s' = pl_quit_done s \<and> spinners s' = spinners s"
  by (auto elim!: visit.cases)

lemma spin_move:
  assumes "spin_ok s" and "w < pl_count s" and "spinning (pl_pc s w) = spinning pc"
  shows "spin_ok (set_pc w pc s)"
proof -
  have "w \<in> spinners s \<longleftrightarrow> spinning pc" using assms(2,3) by (simp add: spinners_def)
  then have "spinners (set_pc w pc s) = spinners s" using assms(2) by (auto simp: spinners_set_pc)
  with assms(1) show ?thesis by (simp add: spin_ok_def)
qed

lemma spin_change:
  assumes "spin_ok s" and "w < pl_count s" and "spinning (pl_pc s w) \<noteq> spinning pc"
  shows "spin_ok (set_pc w pc (s\<lparr>pl_spinning := pl_spinning s + (if spinning pc then 1 else - 1)\<rparr>))"
proof -
  have w: "w \<in> spinners s \<longleftrightarrow> \<not> spinning pc" using assms(2,3) by (auto simp: spinners_def)
  have "spinners (set_pc w pc (s\<lparr>pl_spinning := k\<rparr>)) = (if spinning pc then insert w (spinners s) else spinners s - {w})" for k
    using assms(2) spinners_set_pc [of w "s\<lparr>pl_spinning := k\<rparr>" pc] by simp
  then show ?thesis using w assms(1) card_Suc_Diff1 [of "spinners s" w] by (auto simp: spin_ok_def)
qed

lemma spin_enter: "spin_ok s \<Longrightarrow> w < pl_count s \<Longrightarrow> \<not> spinning (pl_pc s w) \<Longrightarrow> spinning pc \<Longrightarrow>
    spin_ok (set_pc w pc (s\<lparr>pl_spinning := pl_spinning s + 1\<rparr>))"
  using spin_change [of s w pc] by simp

lemma spin_leave: "spin_ok s \<Longrightarrow> w < pl_count s \<Longrightarrow> spinning (pl_pc s w) \<Longrightarrow> \<not> spinning pc \<Longrightarrow>
    spin_ok (set_pc w pc (s\<lparr>pl_spinning := pl_spinning s - 1\<rparr>))"
  using spin_change [of s w pc] by simp

lemma visit_spin: "visit s w q b s' \<Longrightarrow> spin_ok s' = spin_ok s \<and> pl_pc s' = pl_pc s \<and> pl_count s' = pl_count s"
  by (auto dest: visit_frame simp: spin_ok_def)

lemma spin_frame [simp]:
  "spin_ok (set_signal t g s) = spin_ok s" "spin_ok (push q x s) = spin_ok s" "spin_ok (advance s) = spin_ok s"
  "spin_ok (wake w s) = spin_ok s" "spin_ok (wake_all s) = spin_ok s" "spin_ok (s\<lparr>pl_quit := b\<rparr>) = spin_ok s"
  "spin_ok (s\<lparr>pl_quit_advanced := b\<rparr>) = spin_ok s" "spin_ok (s\<lparr>pl_quit_done := b\<rparr>) = spin_ok s"
  by (simp_all add: spin_ok_def)

lemma spin_step_ok: "pool_step s s' \<Longrightarrow> spin_ok s \<Longrightarrow> spin_ok s'"
  by (cases rule: pool_cases)
    (auto elim!: submit_step.cases signal_step.cases main_step.cases wait_step.cases spin_step.cases
      handoff_step.cases park_step.cases quit_step.cases dest!: visit_spin simp: at_def spin_move spin_enter spin_leave)

subsection \<open>What a parking worker has seen\<close>

fun seen :: "worker_pc \<Rightarrow> (nat \<times> source set) option" where
  "seen (W_recheck key S) = Some (key, S)"
| "seen (W_park_quit key) = Some (key, {})"
| "seen (W_commit key) = Some (key, {})"
| "seen (W_parked key) = Some (key, {})"
| "seen _ = None"

definition pre_advance :: "signal \<Rightarrow> bool" where
  "pre_advance g \<longleftrightarrow> g = Sig_submit \<or> g = Sig_notify"

fun parks :: "worker_pc \<Rightarrow> bool" where
  "parks (W_spin c S) = True"
| "parks (W_spin_quit c) = True"
| "parks (W_hspin c S) = True"
| "parks (W_hspin_quit c) = True"
| "parks (W_hdrop b) = True"
| "parks W_prepare = True"
| "parks pc = (seen pc \<noteq> None)"

text \<open>
  Of a worker on its way to park: its policy is not to spin forever and its epoch key is not from the future;
  its own deque is empty once it has re-checked it; a global queue it has re-checked and that is not
  empty was filled by a submit that has yet to advance the epoch, unless the epoch has moved off the key.
\<close>

definition key_ok :: "'a pool \<Rightarrow> bool" where
  "key_ok s \<longleftrightarrow> (\<forall>w. (parks (pl_pc s w) \<longrightarrow> pl_policy s \<noteq> Spin)
     \<and> (\<forall>key S. seen (pl_pc s w) = Some (key, S) \<longrightarrow> key \<le> pl_epoch s))"

definition own_ok :: "'a pool \<Rightarrow> bool" where
  "own_ok s \<longleftrightarrow> (\<forall>w key S. seen (pl_pc s w) = Some (key, S) \<longrightarrow> Local w \<notin> S \<longrightarrow> pl_queue s (Local w) = [])"

definition dry_ok :: "'a pool \<Rightarrow> bool" where
  "dry_ok s \<longleftrightarrow> (\<forall>w S p. seen (pl_pc s w) = Some (pl_epoch s, S) \<longrightarrow> Global p \<notin> S \<longrightarrow> pl_queue s (Global p) \<noteq> [] \<longrightarrow>
     (\<exists>t. pre_advance (pl_signal s t)))"

lemma wake_pc: "pl_pc (wake w s) v = pl_pc s v \<or> pl_pc (wake w s) v = W_top"
  by (cases "pl_pc s w") (auto simp: wake_def)

lemma wake_all_pc: "pl_pc (wake_all s) v = pl_pc s v \<or> pl_pc (wake_all s) v = W_top"
  by (cases "pl_pc s v") (auto simp: wake_all_def)

lemma wake_frame [simp]:
  "pl_queue (wake w s) = pl_queue s" "pl_epoch (wake w s) = pl_epoch s" "pl_policy (wake w s) = pl_policy s"
  "pl_signal (wake w s) = pl_signal s" "pl_count (wake w s) = pl_count s"
  "pl_quit (wake w s) = pl_quit s" "pl_quit_advanced (wake w s) = pl_quit_advanced s" "pl_quit_done (wake w s) = pl_quit_done s"
  by (auto simp: wake_def split: worker_pc.splits)

lemma wake_all_frame [simp]:
  "pl_queue (wake_all s) = pl_queue s" "pl_epoch (wake_all s) = pl_epoch s" "pl_policy (wake_all s) = pl_policy s"
  "pl_signal (wake_all s) = pl_signal s" "pl_count (wake_all s) = pl_count s"
  by (auto simp: wake_all_def)

lemma wake_seen: "seen (pl_pc (wake w s) v) = Some x \<Longrightarrow> seen (pl_pc s v) = Some x" "parks (pl_pc (wake w s) v) \<Longrightarrow> parks (pl_pc s v)"
  using wake_pc [of w s v] by auto

lemma wake_all_seen: "seen (pl_pc (wake_all s) v) = Some x \<Longrightarrow> seen (pl_pc s v) = Some x" "parks (pl_pc (wake_all s) v) \<Longrightarrow> parks (pl_pc s v)"
  using wake_all_pc [of s v] by auto

lemma set_frame [simp]:
  "pl_count (set_pc w pc s) = pl_count s" "pl_epoch (set_pc w pc s) = pl_epoch s" "pl_policy (set_pc w pc s) = pl_policy s"
  "pl_queue (set_pc w pc s) = pl_queue s" "pl_signal (set_pc w pc s) = pl_signal s" "pl_pc (set_pc w pc s) = (pl_pc s)(w := pc)"
  "pl_count (set_signal t g s) = pl_count s" "pl_epoch (set_signal t g s) = pl_epoch s" "pl_policy (set_signal t g s) = pl_policy s"
  "pl_queue (set_signal t g s) = pl_queue s" "pl_signal (set_signal t g s) = (pl_signal s)(t := g)" "pl_pc (set_signal t g s) = pl_pc s"
  by (simp_all add: set_pc_def set_signal_def)

lemma push_frame [simp]:
  "pl_count (push q x s) = pl_count s" "pl_epoch (push q x s) = pl_epoch s" "pl_policy (push q x s) = pl_policy s"
  "pl_queue (push q x s) = (pl_queue s)(q := pl_queue s q @ [x])" "pl_signal (push q x s) = pl_signal s" "pl_pc (push q x s) = pl_pc s"
  "pl_count (advance s) = pl_count s" "pl_epoch (advance s) = Suc (pl_epoch s)" "pl_policy (advance s) = pl_policy s"
  "pl_queue (advance s) = pl_queue s" "pl_signal (advance s) = pl_signal s" "pl_pc (advance s) = pl_pc s"
  by (simp_all add: push_def advance_def)

lemmas step_elims = submit_step.cases signal_step.cases main_step.cases wait_step.cases spin_step.cases
  handoff_step.cases park_step.cases quit_step.cases

paragraph \<open>Keys\<close>

lemma key_at:
  assumes "key_ok s" and "at s w pc"
  shows "w < pl_count s \<and> pl_pc s w = pc \<and> (parks pc \<longrightarrow> pl_policy s \<noteq> Spin) \<and> (\<forall>key S. seen pc = Some (key, S) \<longrightarrow> key \<le> pl_epoch s)"
  using assms by (auto simp: key_ok_def at_def)

lemma key_set_pc:
  "key_ok s \<Longrightarrow> (parks pc \<longrightarrow> pl_policy s \<noteq> Spin) \<Longrightarrow> (\<forall>key S. seen pc = Some (key, S) \<longrightarrow> key \<le> pl_epoch s) \<Longrightarrow> key_ok (set_pc w pc s)"
  by (auto simp: key_ok_def)

lemma key_frame [simp]:
  "key_ok (set_signal t g s) = key_ok s" "key_ok (push q x s) = key_ok s" "key_ok (s\<lparr>pl_spinning := k\<rparr>) = key_ok s"
  "key_ok (s\<lparr>pl_quit := b\<rparr>) = key_ok s" "key_ok (s\<lparr>pl_quit_advanced := b\<rparr>) = key_ok s" "key_ok (s\<lparr>pl_quit_done := b\<rparr>) = key_ok s"
  by (simp_all add: key_ok_def)

lemma key_advance: "key_ok s \<Longrightarrow> key_ok (advance s)"
  by (auto simp: key_ok_def le_SucI)

lemma key_wake: "key_ok s \<Longrightarrow> key_ok (wake w s)"
  unfolding key_ok_def using wake_seen by (metis wake_frame(2,3))

lemma key_wake_all: "key_ok s \<Longrightarrow> key_ok (wake_all s)"
  unfolding key_ok_def using wake_all_seen by (metis wake_all_frame(2,3))

lemma visit_key: "visit s w q b s' \<Longrightarrow> key_ok s' = key_ok s \<and> pl_policy s' = pl_policy s \<and> pl_epoch s' = pl_epoch s"
  using visit_frame [of s w q b s'] by (simp add: key_ok_def)

lemma key_step:
  assumes "pool_step s s'" and ok: "key_ok s"
  shows "key_ok s'"
proof -
  note D = key_at [OF ok]
  from assms(1) show ?thesis
  proof (cases rule: pool_cases)
    assume "signal_step s s'" then show ?thesis
      by cases (use ok in \<open>auto intro!: key_advance key_wake\<close>)
  next
    assume "quit_step s s'" then show ?thesis
      by cases (use ok in \<open>auto intro!: key_advance key_wake_all\<close>)
  qed (use ok in \<open>auto elim!: submit_step.cases main_step.cases wait_step.cases spin_step.cases
      handoff_step.cases park_step.cases dest!: D visit_key simp: prepare_wait_def intro!: key_set_pc split: if_splits\<close>)
qed

paragraph \<open>Own deques\<close>

lemma own_set_pc:
  "own_ok s \<Longrightarrow> (\<forall>key S. seen pc = Some (key, S) \<longrightarrow> Local w \<notin> S \<longrightarrow> pl_queue s (Local w) = []) \<Longrightarrow> own_ok (set_pc w pc s)"
  by (auto simp: own_ok_def)

lemma own_frame [simp]:
  "own_ok (set_signal t g s) = own_ok s" "own_ok (advance s) = own_ok s" "own_ok (s\<lparr>pl_spinning := k\<rparr>) = own_ok s"
  "own_ok (s\<lparr>pl_quit := b\<rparr>) = own_ok s" "own_ok (s\<lparr>pl_quit_advanced := b\<rparr>) = own_ok s" "own_ok (s\<lparr>pl_quit_done := b\<rparr>) = own_ok s"
  "own_ok (push (Global p) x s) = own_ok s"
  by (simp_all add: own_ok_def)

lemma own_push: "own_ok s \<Longrightarrow> at s w W_run \<Longrightarrow> own_ok (push (Local w) x s)"
  by (auto simp: own_ok_def at_def)

lemma own_wake: "own_ok s \<Longrightarrow> own_ok (wake w s)" "own_ok s \<Longrightarrow> own_ok (wake_all s)"
  unfolding own_ok_def using wake_seen wake_all_seen by (metis wake_frame(1), metis wake_all_frame(1))

lemma visit_own:
  assumes "visit s w q b s'" and "own_ok s"
  shows "own_ok s' \<and> (\<not> b \<longrightarrow> s' = s \<and> (q = Local w \<longrightarrow> pl_queue s (Local w) = []))"
  using assms by cases (auto simp: own_ok_def)

lemma own_at: "own_ok s \<Longrightarrow> at s w pc \<Longrightarrow> seen pc = Some (key, S) \<Longrightarrow> Local w \<notin> S \<Longrightarrow> pl_queue s (Local w) = []"
  by (auto simp: own_ok_def at_def)

lemma own_step: "pool_step s s' \<Longrightarrow> own_ok s \<Longrightarrow> own_ok s'"
proof (cases rule: pool_cases)
  assume own: "own_ok s" and "park_step s s'"
  from this(2) show ?thesis
  proof cases
    case (pk_missed w key S q t)
    with visit_own [OF pk_missed(4) own] own_at [OF own pk_missed(2)] show ?thesis
      by (auto intro!: own_set_pc)
  next
    case (pk_prepare w)
    then have "w < pl_count s" by (simp add: at_def)
    with own pk_prepare show ?thesis by (auto intro!: own_set_pc)
  qed (use own own_at [OF own] in \<open>auto intro!: own_set_pc dest!: visit_own\<close>)
qed (auto elim!: step_elims dest!: visit_own intro!: own_set_pc own_push own_wake split: if_splits)


paragraph \<open>Global queues\<close>

lemma dry_set_pc:
  "dry_ok s \<Longrightarrow> (\<forall>S p. seen pc = Some (pl_epoch s, S) \<longrightarrow> Global p \<notin> S \<longrightarrow> pl_queue s (Global p) \<noteq> [] \<longrightarrow>
     (\<exists>t. pre_advance (pl_signal s t))) \<Longrightarrow> dry_ok (set_pc w pc s)"
  by (auto simp: dry_ok_def)

lemma dry_pending: "pre_advance g \<Longrightarrow> dry_ok (set_signal t g s)"
  by (auto simp: dry_ok_def)

lemma dry_signal:
  assumes "dry_ok s" and "pre_advance (pl_signal s t) \<Longrightarrow> pre_advance g"
  shows "dry_ok (set_signal t g s)"
proof -
  have "\<exists>u. pre_advance (((pl_signal s)(t := g)) u)" if "pre_advance (pl_signal s v)" for v
    using that assms(2) by (cases "v = t") auto
  with assms(1) show ?thesis unfolding dry_ok_def set_frame by blast
qed

lemma dry_frame [simp]:
  "dry_ok (s\<lparr>pl_spinning := k\<rparr>) = dry_ok s" "dry_ok (s\<lparr>pl_quit := b\<rparr>) = dry_ok s"
  "dry_ok (s\<lparr>pl_quit_advanced := b\<rparr>) = dry_ok s" "dry_ok (s\<lparr>pl_quit_done := b\<rparr>) = dry_ok s"
  by (simp_all add: dry_ok_def)

lemma dry_advance: "key_ok s \<Longrightarrow> dry_ok (advance s)" "key_ok s \<Longrightarrow> dry_ok (set_signal t g (advance s))"
  by (fastforce simp: dry_ok_def key_ok_def)+

lemma seen_parks: "seen pc \<noteq> None \<Longrightarrow> parks pc"
  by (cases pc) auto

lemma dry_spin: "key_ok s \<Longrightarrow> pl_policy s = Spin \<Longrightarrow> dry_ok (set_signal t g s)"
proof -
  assume "key_ok s" "pl_policy s = Spin"
  then have "\<not> parks (pl_pc s w)" for w by (simp add: key_ok_def)
  then have "seen (pl_pc s w) = None" for w using seen_parks by blast
  then show ?thesis by (simp add: dry_ok_def)
qed

lemma dry_wake: "dry_ok s \<Longrightarrow> dry_ok (wake w s)" "dry_ok s \<Longrightarrow> dry_ok (wake_all s)"
  unfolding dry_ok_def using wake_seen wake_all_seen by (metis wake_frame(1,2,4), metis wake_all_frame(1,2,4))

lemma visit_dry:
  assumes "visit s w q b s'" and "dry_ok s"
  shows "dry_ok s' \<and> pl_epoch s' = pl_epoch s \<and> (\<not> b \<longrightarrow> s' = s \<and> (\<forall>p. q = Global p \<longrightarrow> pl_queue s (Global p) = []))"
  using assms by cases (auto simp: dry_ok_def)

lemma dry_at:
  "dry_ok s \<Longrightarrow> at s w pc \<Longrightarrow> seen pc = Some (pl_epoch s, S) \<Longrightarrow> Global p \<notin> S \<Longrightarrow> pl_queue s (Global p) \<noteq> [] \<Longrightarrow>
     \<exists>t. pre_advance (pl_signal s t)"
  by (auto simp: dry_ok_def at_def)

lemma dry_step:
  assumes "pool_step s s'" and key: "key_ok s" and dry: "dry_ok s"
  shows "dry_ok s'"
  using assms(1)
proof (cases rule: pool_cases)
  assume "signal_step s s'" then show ?thesis
  proof cases
    case (sig_spin t)
    with dry_spin [OF key] show ?thesis by simp
  qed (use key dry in \<open>auto intro!: dry_advance dry_signal dry_wake simp: pre_advance_def\<close>)
next
  assume "quit_step s s'" then show ?thesis
    by cases (use key dry in \<open>auto intro!: dry_advance dry_wake\<close>)
next
  assume "submit_step s s'" then show ?thesis
    by cases (auto intro!: dry_pending simp: pre_advance_def)
next
  assume "park_step s s'" then show ?thesis
  proof cases
    case (pk_missed w key S q t)
    with visit_dry [OF pk_missed(4) dry] dry_at [OF dry pk_missed(2)] show ?thesis
      by (auto intro!: dry_set_pc)
  qed (use dry dry_at [OF dry] in \<open>auto intro!: dry_set_pc dest!: visit_dry\<close>)
next
  assume "handoff_step s s'" then show ?thesis
    by cases (use dry in \<open>auto intro!: dry_set_pc dry_signal dest!: visit_dry simp: at_def pre_advance_def\<close>)
qed (use dry in \<open>auto elim!: main_step.cases wait_step.cases spin_step.cases dest!: visit_dry intro!: dry_set_pc split: if_splits\<close>)


subsection \<open>Someone is awake\<close>

text \<open>If every worker is parked while a global queue holds a task, some thread is inside its signal.\<close>

definition awake_ok :: "'a pool \<Rightarrow> bool" where
  "awake_ok s \<longleftrightarrow> ((\<forall>w < pl_count s. is_parked (pl_pc s w)) \<longrightarrow> (\<exists>p. pl_queue s (Global p) \<noteq> []) \<longrightarrow>
     (\<exists>t. pl_signal s t \<noteq> Sig_none))"

lemma parked_seen: "is_parked pc \<Longrightarrow> \<exists>key. pc = W_parked key \<and> seen pc = Some (key, {})"
  by (cases pc) (auto simp: is_parked_def)

lemma not_parked_awake: "w < pl_count s \<Longrightarrow> \<not> is_parked (pl_pc s w) \<Longrightarrow> awake_ok s"
  by (auto simp: awake_ok_def)

lemma pending_awake: "pl_signal s t \<noteq> Sig_none \<Longrightarrow> awake_ok s"
  by (auto simp: awake_ok_def)

text \<open>Below \<open>2\<^sup>32\<close> advances the 32-bit comparison is exact.\<close>

lemma epoch_exact: "key \<le> pl_epoch s \<Longrightarrow> pl_epoch s < 2 ^ 32 \<Longrightarrow> epoch_unchanged s key \<longleftrightarrow> key = pl_epoch s"
  by (auto simp: epoch_unchanged_def word_of_nat_eq_iff take_bit_nat_eq_self)

lemma parked_current_awake:
  assumes dry: "dry_ok s" and "pl_pc s w = W_parked (pl_epoch s)" and "w < pl_count s"
  shows "awake_ok s"
proof -
  have "\<exists>t. pre_advance (pl_signal s t)" if "pl_queue s (Global p) \<noteq> []" for p
    using dry assms(2) that unfolding dry_ok_def by (metis empty_iff seen.simps(4))
  moreover have "pre_advance g \<Longrightarrow> g \<noteq> Sig_none" for g by (auto simp: pre_advance_def)
  ultimately show ?thesis unfolding awake_ok_def by blast
qed

lemma awake_pending: "g \<noteq> Sig_none \<Longrightarrow> awake_ok (set_signal t g s)"
  by (rule pending_awake [of _ t]) simp

lemma awake_signal:
  assumes "signal_step s s'" and key: "key_ok s" and dry: "dry_ok s'" and spin: "spin_ok s"
    and small: "pl_epoch s < 2 ^ 32" and n: "0 < pl_count s"
  shows "awake_ok s'"
  using assms(1)
proof cases
  case (sig_spin t)
  then have "\<not> parks (pl_pc s 0)" using key by (simp add: key_ok_def)
  then have "\<not> is_parked (pl_pc s 0)" using seen_parks parked_seen by (metis option.distinct(1))
  with n sig_spin show ?thesis by (intro not_parked_awake [of 0]) auto
next
  case (sig_load t)
  show ?thesis
  proof (cases "pl_spinning s = 0")
    case False
    with spin obtain w where "w \<in> spinners s" by (force simp: spin_ok_def)
    then have "w < pl_count s" "\<not> is_parked (pl_pc s w)" by (auto simp: spinners_def is_parked_def split: worker_pc.splits)
    with sig_load show ?thesis by (intro not_parked_awake [of w]) auto
  qed (use sig_load in \<open>auto intro: pending_awake [of _ t]\<close>)
next
  case (sig_wake t w)
  then obtain k where k: "pl_pc s w = W_parked k" "k \<le> pl_epoch s" using parked_seen key unfolding key_ok_def by metis
  show ?thesis
  proof (cases "epoch_unchanged s k")
    case True
    then have "pl_pc s' w = W_parked (pl_epoch s')" using sig_wake k epoch_exact [OF k(2) small] by (simp add: wake_def)
    then show ?thesis by (rule parked_current_awake [OF dry]) (use sig_wake in simp)
  next
    case False
    then have "\<not> is_parked (pl_pc s' w)" using sig_wake k by (simp add: wake_def is_parked_def)
    then show ?thesis by (intro not_parked_awake [of w]) (use sig_wake in auto)
  qed
next
  case (sig_wake_none t)
  with n show ?thesis by (intro not_parked_awake [of 0]) auto
qed (simp_all add: awake_pending)

lemma awake_quit:
  assumes "quit_step s s'" and "awake_ok s" and key: "key_ok s" and dry: "dry_ok s'"
    and small: "pl_epoch s < 2 ^ 32" and n: "0 < pl_count s"
  shows "awake_ok s'"
  using assms(1)
proof cases
  case qt_wake
  show ?thesis
  proof (cases "is_parked (pl_pc s' 0)")
    case True
    then obtain k where k: "pl_pc s' 0 = W_parked k" using parked_seen by blast
    then have "pl_pc s 0 = W_parked k" "epoch_unchanged s k"
      using qt_wake by (cases "pl_pc s 0"; simp add: wake_all_def split: if_splits)+
    moreover from this key have "k \<le> pl_epoch s" by (metis key_ok_def seen.simps(4))
    ultimately have "pl_pc s' 0 = W_parked (pl_epoch s')" using k qt_wake epoch_exact [OF _ small] by simp
    then show ?thesis by (rule parked_current_awake [OF dry]) (use qt_wake n in simp)
  next
    case False
    then show ?thesis by (intro not_parked_awake [of 0]) (use qt_wake n in auto)
  qed
qed (use assms(2) in \<open>auto simp: awake_ok_def\<close>)

lemma awake_move: "w < pl_count s \<Longrightarrow> \<not> is_parked pc \<Longrightarrow> awake_ok (set_pc w pc s)"
  by (rule not_parked_awake [of w]) auto

lemma awake_step:
  assumes step: "pool_step s s'" and "awake_ok s" and key: "key_ok s" and dry: "dry_ok s'" and spin: "spin_ok s"
    and small: "pl_epoch s' < 2 ^ 32" and n: "0 < pl_count s"
  shows "awake_ok s'"
proof -
  have small': "pl_epoch s < 2 ^ 32" using pool_step_frame [OF step] small by linarith
  have visits: "pl_count s'' = pl_count s" if "visit s w q b s''" for w q b s''
    using visit_frame [OF that] by simp
  from step show ?thesis
  proof (cases rule: pool_cases)
    assume "park_step s s'" then show ?thesis
    proof cases
      case (pk_commit w key)
      then have at: "w < pl_count s" "pl_pc s w = W_commit key" by (auto simp: at_def)
      with key have le: "key \<le> pl_epoch s" by (metis key_ok_def seen.simps(3))
      show ?thesis
      proof (cases "epoch_unchanged s key")
        case True
        then have "pl_pc s' w = W_parked (pl_epoch s')" using pk_commit epoch_exact [OF le small'] by simp
        then show ?thesis by (rule parked_current_awake [OF dry]) (use pk_commit at in simp)
      qed (use pk_commit at in \<open>auto intro!: awake_move simp: is_parked_def\<close>)
    qed (auto intro!: awake_move simp: is_parked_def at_def dest: visits)
  next
    assume "handoff_step s s'" then show ?thesis
      by cases (auto intro!: awake_move not_parked_awake simp: is_parked_def at_def dest: visits)
  next
    assume "signal_step s s'" then show ?thesis by (rule awake_signal [OF _ key dry spin small' n])
  next
    assume "quit_step s s'" then show ?thesis by (rule awake_quit [OF _ assms(2) key dry small' n])
  qed (auto elim!: submit_step.cases main_step.cases wait_step.cases spin_step.cases dest: visits
        intro!: awake_move simp: is_parked_def at_def awake_pending split: if_splits)
qed


subsection \<open>Shutdown\<close>

fun committed :: "worker_pc \<Rightarrow> nat option" where
  "committed (W_commit key) = Some key"
| "committed (W_parked key) = Some key"
| "committed _ = None"

text \<open>
  Once the destructor has advanced the epoch, a worker that is waiting or about to wait read an older one;
  once it has woken everybody, nobody waits.
\<close>

definition quit_ok :: "'a pool \<Rightarrow> bool" where
  "quit_ok s \<longleftrightarrow> (pl_quit_done s \<longrightarrow> pl_quit_advanced s) \<and> (pl_quit_advanced s \<longrightarrow> pl_quit s)
     \<and> (\<forall>w key. pl_quit_advanced s \<longrightarrow> committed (pl_pc s w) = Some key \<longrightarrow> key < pl_epoch s)
     \<and> (\<forall>w. pl_quit_done s \<longrightarrow> \<not> is_parked (pl_pc s w))"

lemma quit_set_pc:
  "quit_ok s \<Longrightarrow> committed pc = None \<Longrightarrow> quit_ok (set_pc w pc s)"
  by (auto simp: quit_ok_def set_pc_def is_parked_def split: worker_pc.splits)

lemma quit_frame [simp]:
  "quit_ok (set_signal t g s) = quit_ok s" "quit_ok (push q x s) = quit_ok s" "quit_ok (s\<lparr>pl_spinning := k\<rparr>) = quit_ok s"
  by (simp_all add: quit_ok_def set_signal_def push_def)

lemma quit_advance: "quit_ok s \<Longrightarrow> quit_ok (advance s)"
  by (auto simp: quit_ok_def advance_def less_SucI)

lemma quitD:
  assumes "quit_ok s"
  shows "pl_quit_done s \<Longrightarrow> pl_quit_advanced s" and "pl_quit_advanced s \<Longrightarrow> pl_quit s"
    and "pl_quit_advanced s \<Longrightarrow> committed (pl_pc s w) = Some key \<Longrightarrow> key < pl_epoch s"
    and "pl_quit_done s \<Longrightarrow> \<not> is_parked (pl_pc s w)"
  using assms by (auto simp: quit_ok_def)

lemma wake_committed: "committed (pl_pc (wake w s) v) = Some k \<Longrightarrow> committed (pl_pc s v) = Some k"
  "is_parked (pl_pc (wake w s) v) \<Longrightarrow> is_parked (pl_pc s v)"
  using wake_pc [of w s v] by (auto simp: is_parked_def)

lemma quit_wake: "quit_ok s \<Longrightarrow> quit_ok (wake w s)"
  unfolding quit_ok_def wake_frame using wake_committed by blast

lemma visit_quit: "visit s w q b s' \<Longrightarrow> quit_ok s' = quit_ok s"
  using visit_frame [of s w q b s'] by (simp add: quit_ok_def)

lemma quit_step_ok:
  assumes step: "pool_step s s'" and ok: "quit_ok s" and key: "key_ok s" and small: "pl_epoch s' < 2 ^ 32"
  shows "quit_ok s'"
  using step
proof (cases rule: pool_cases)
  assume "park_step s s'" then show ?thesis
  proof cases
    case (pk_quit w key)
    then have "key \<le> pl_epoch s" using key_at [OF key pk_quit(2)] by simp
    show ?thesis using ok pk_quit by (auto simp: quit_ok_def set_pc_def is_parked_def)
  next
    case (pk_commit w key)
    then have "key \<le> pl_epoch s" "pl_pc s w = W_commit key" using key_at [OF \<open>key_ok s\<close> pk_commit(2)] by simp_all
    moreover from this ok have "pl_quit_advanced s \<Longrightarrow> key < pl_epoch s" using quitD(3) [OF ok, of w key] by simp
    moreover have "pl_epoch s < 2 ^ 32" using small pk_commit by simp
    ultimately show ?thesis using ok pk_commit epoch_exact [of key s] unfolding quit_ok_def
      by (auto simp: set_pc_def is_parked_def)
  qed (use ok in \<open>auto intro!: quit_set_pc dest!: visit_quit\<close>)
next
  assume "quit_step s s'" then show ?thesis
  proof cases
    case qt_store
    then show ?thesis using ok by (auto simp: quit_ok_def)
  next
    case qt_advance
    have "k \<le> pl_epoch s" if "committed (pl_pc s w) = Some k" for w k
      using key that by (cases "pl_pc s w") (auto simp: key_ok_def; metis seen.simps order.refl)+
    with qt_advance ok show ?thesis by (auto simp: quit_ok_def advance_def less_Suc_eq_le)
  next
    case qt_wake
    have small': "pl_epoch s < 2 ^ 32" using small qt_wake by simp
    have "\<not> is_parked (pl_pc (wake_all s) w)" for w
    proof
      assume "is_parked (pl_pc (wake_all s) w)"
      then obtain k where k: "pl_pc s w = W_parked k" "epoch_unchanged s k"
        by (cases "pl_pc s w") (auto simp: wake_all_def is_parked_def split: if_splits)
      with qt_wake have "k < pl_epoch s" using quitD(3) [OF ok, of w k] by simp
      with epoch_exact [OF _ small', of k] k show False by simp
    qed
    moreover have "committed (pl_pc (wake_all s) w) = Some k \<Longrightarrow> committed (pl_pc s w) = Some k" for w k
      using wake_all_pc [of s w] by auto
    moreover have "pl_quit (wake_all s) = pl_quit s" "pl_quit_advanced (wake_all s) = pl_quit_advanced s" by (simp_all add: wake_all_def)
    ultimately show ?thesis unfolding quit_ok_def using quitD [OF ok] qt_wake by simp blast
  qed
next
  assume "signal_step s s'" then show ?thesis
    by cases (use ok in \<open>auto intro!: quit_advance quit_wake\<close>)
qed (use ok in \<open>auto elim!: submit_step.cases main_step.cases wait_step.cases spin_step.cases handoff_step.cases
    dest!: visit_quit intro!: quit_set_pc\<close>)


fun final_left :: "worker_pc \<Rightarrow> source set option" where
  "final_left (W_final S) = Some S"
| "final_left W_exit = Some {}"
| "final_left _ = None"

text \<open>
  When every worker is in its final check or gone, one of them (the last to begin its check) has seen only
  queues that are still empty.
\<close>

definition final_ok :: "'a pool \<Rightarrow> bool" where
  "final_ok s \<longleftrightarrow> (\<forall>w. final_left (pl_pc s w) \<noteq> None \<longrightarrow> pl_quit s)
     \<and> ((\<forall>w < pl_count s. final_left (pl_pc s w) \<noteq> None) \<longrightarrow>
        (\<exists>v S. v < pl_count s \<and> final_left (pl_pc s v) = Some S \<and> (\<forall>q \<in> sources (pl_count s) - S. pl_queue s q = [])))"

text \<open>A worker still at work makes the second part vacuous.\<close>

lemma final_busy:
  assumes "w < pl_count s" and "final_left (pl_pc s w) = None" and "\<And>v. final_left (pl_pc s v) \<noteq> None \<Longrightarrow> pl_quit s"
  shows "final_ok s"
  using assms by (auto simp: final_ok_def)

lemma final_quit: "final_ok s \<Longrightarrow> final_left (pl_pc s v) = Some S \<Longrightarrow> pl_quit s"
  by (auto simp: final_ok_def)

lemma final_move:
  "final_ok s \<Longrightarrow> w < pl_count s \<Longrightarrow> final_left pc = None \<Longrightarrow> pl_count s' = pl_count s \<Longrightarrow> pl_pc s' = pl_pc s \<Longrightarrow> pl_quit s' = pl_quit s \<Longrightarrow>
     final_ok (set_pc w pc s')"
  by (rule final_busy [of w]) (auto simp: set_pc_def dest: final_quit split: if_splits)

lemma final_frame [simp]:
  "final_ok (set_signal t g s) = final_ok s" "final_ok (advance s) = final_ok s" "final_ok (s\<lparr>pl_spinning := k\<rparr>) = final_ok s"
  "final_ok (s\<lparr>pl_quit_advanced := b\<rparr>) = final_ok s" "final_ok (s\<lparr>pl_quit_done := b\<rparr>) = final_ok s"
  by (simp_all add: final_ok_def set_signal_def advance_def)

lemma final_same:
  assumes "final_ok s" and "pl_count s' = pl_count s" and "pl_queue s' = pl_queue s" and "pl_quit s' = pl_quit s"
    and "\<And>v. final_left (pl_pc s' v) = final_left (pl_pc s v)"
  shows "final_ok s'"
  using assms by (simp add: final_ok_def)

lemma wake_final: "final_left (pl_pc (wake w s) v) = final_left (pl_pc s v)"
  by (cases "pl_pc s w") (auto simp: wake_def)

lemma wake_all_final: "final_left (pl_pc (wake_all s) v) = final_left (pl_pc s v)"
  by (cases "pl_pc s v") (auto simp: wake_all_def)

lemma final_main:
  assumes "main_step s s'" and ok: "final_ok s"
  shows "final_ok s'"
  using assms(1)
proof cases
  case (mn_quit w)
  then have w: "w < pl_count s" "pl_pc s w = W_quit" by (auto simp: at_def)
  show ?thesis
  proof (cases "pl_quit s")
    case True
    have "\<exists>v S. v < pl_count s' \<and> final_left (pl_pc s' v) = Some S \<and> (\<forall>q \<in> sources (pl_count s') - S. pl_queue s' q = [])"
      using mn_quit True w by (intro exI [of _ w] exI [of _ "sources (pl_count s)"]) simp
    then show ?thesis using mn_quit True by (auto simp: final_ok_def set_pc_def)
  qed (use mn_quit w in \<open>auto intro!: final_move [OF ok]\<close>)
next
  case (mn_empty w S q)
  then have w: "w < pl_count s" "pl_pc s w = W_final S" by (auto simp: at_def)
  have pq: "pl_quit s" using final_quit [OF ok, of w] w by simp
  have "\<exists>v R. v < pl_count s \<and> final_left (pl_pc s' v) = Some R \<and> (\<forall>r \<in> sources (pl_count s) - R. pl_queue s r = [])"
    if all: "\<forall>v < pl_count s. final_left (pl_pc s' v) \<noteq> None"
  proof -
    have "final_left (pl_pc s v) \<noteq> None" if "v < pl_count s" for v
      using all that w mn_empty by (cases "v = w") auto
    then obtain v R where v: "v < pl_count s" "final_left (pl_pc s v) = Some R"
      "\<forall>r \<in> sources (pl_count s) - R. pl_queue s r = []" using ok unfolding final_ok_def by blast
    show ?thesis
    proof (cases "v = w")
      case True
      with v w have "R = S" by simp
      with v w mn_empty show ?thesis by (intro exI [of _ w] exI [of _ "S - {q}"]) auto
    next
      case False
      with v mn_empty show ?thesis by (intro exI [of _ v] exI [of _ R]) auto
    qed
  qed
  then show ?thesis using pq mn_empty by (auto simp: final_ok_def set_pc_def)
next
  case (mn_exit w)
  then have w: "w < pl_count s" "pl_pc s w = W_final {}" by (auto simp: at_def)
  with ok mn_exit show ?thesis by (intro final_same [OF ok]) (auto simp: set_pc_def)
qed (auto simp: at_def intro!: final_move [OF ok] dest: visit_frame)

lemma final_step:
  assumes "pool_step s s'" and ok: "final_ok s" and n: "0 < pl_count s"
  shows "final_ok s'"
  using assms(1)
proof (cases rule: pool_cases)
  assume "submit_step s s'" then show ?thesis
  proof cases
    case (sub_external i p x)
    then have "final_left (pl_pc s 0) = None" using final_quit [OF ok, of 0] by (cases "final_left (pl_pc s 0)") auto
    with n sub_external ok show ?thesis by (auto simp: final_ok_def push_def)
  qed (auto intro!: final_busy dest: final_quit [OF ok] simp: at_def push_def)
next
  assume "signal_step s s'" then show ?thesis
    by cases (use ok in \<open>auto intro: final_same [OF ok] simp: wake_final\<close>)
next
  assume "quit_step s s'" then show ?thesis
  proof cases
    case qt_wake
    have "pl_quit (wake_all s) = pl_quit s" by (simp add: wake_all_def)
    with qt_wake show ?thesis by (auto intro!: final_same [OF ok] simp: wake_all_final)
  next
    case qt_store
    with ok show ?thesis by (auto simp: final_ok_def)
  qed (use ok in simp)
next
  assume "main_step s s'" then show ?thesis by (rule final_main [OF _ ok])
qed (auto elim!: wait_step.cases spin_step.cases handoff_step.cases park_step.cases simp: at_def
    intro!: final_move [OF ok] dest: visit_frame)

section \<open>Reachable pools\<close>

definition pool_inv :: "'a pool \<Rightarrow> bool" where
  "pool_inv s \<longleftrightarrow> 0 < pl_count s \<and> tasks_ok s \<and> spin_ok s \<and> key_ok s \<and> own_ok s \<and> dry_ok s \<and> final_ok s"

lemma pool_inv_new: "0 < n \<Longrightarrow> pool_inv (pool_new policy cycles n)"
  by (simp add: pool_inv_def pool_new_def tasks_ok_def queued_def spin_ok_def spinners_def key_ok_def own_ok_def dry_ok_def final_ok_def
      exI [of "\<lambda>w. w < n" 0])

lemma pool_inv_step:
  assumes "pool_step s s'" and "pool_inv s"
  shows "pool_inv s'"
  using assms(2) pool_step_frame [OF assms(1)] tasks_step [OF assms(1)] spin_step_ok [OF assms(1)] key_step [OF assms(1)]
    own_step [OF assms(1)] dry_step [OF assms(1)] final_step [OF assms(1)]
  by (simp add: pool_inv_def)

lemma pool_reach_inv: "pool_reach s \<Longrightarrow> pool_inv s"
  by (induction rule: pool_reach.induct) (auto intro: pool_inv_new pool_inv_step)

lemma pool_reach_park:
  "pool_reach s \<Longrightarrow> pl_epoch s < 2 ^ 32 \<Longrightarrow> awake_ok s \<and> quit_ok s"
proof (induction rule: pool_reach.induct)
  case (pl_start n policy cycles)
  then show ?case by (auto simp: awake_ok_def quit_ok_def pool_new_def is_parked_def)
next
  case (pl_step s s')
  have inv: "pool_inv s" "pool_inv s'" using pool_reach_inv pl_step.hyps pool_inv_step by blast+
  have "pl_epoch s < 2 ^ 32" using pool_step_frame [OF pl_step.hyps(2)] pl_step.prems by linarith
  then have "awake_ok s" "quit_ok s" using pl_step.IH by auto
  with inv pl_step.hyps(2) pl_step.prems show ?case
    using awake_step [of s s'] quit_step_ok [of s s'] by (simp add: pool_inv_def)
qed

section \<open>Properties\<close>


text \<open>
  Shutdown runs everything that was submitted. No task is ever lost or started twice: the submitted
  tasks are the started ones and the queued ones. And once every worker has left its loop, which
  it does on its own check of the queues while the others may still be running tasks that submit more, all
  queues are empty, so every submitted task has been started exactly once.
\<close>

theorem pool_shutdown_complete:
  assumes "pool_reach s"
  shows "pl_submitted s = pl_started s + (\<Sum>q \<in> sources (pl_count s). mset (pl_queue s q))
    \<and> ((\<forall>w < pl_count s. pl_pc s w = W_exit) \<longrightarrow> (\<forall>q. pl_queue s q = []) \<and> pl_submitted s = pl_started s)"
proof -
  have inv: "tasks_ok s" "final_ok s" using pool_reach_inv [OF assms(1)] by (auto simp: pool_inv_def)
  have "\<forall>q. pl_queue s q = []" if gone: "\<forall>w < pl_count s. pl_pc s w = W_exit"
  proof -
    have "\<forall>w < pl_count s. final_left (pl_pc s w) \<noteq> None" using gone by simp
    then obtain v S where v: "v < pl_count s" "final_left (pl_pc s v) = Some S" "\<forall>q \<in> sources (pl_count s) - S. pl_queue s q = []"
      using inv(2) unfolding final_ok_def by blast
    then have "S = {}" using gone by simp
    with v inv(1) show ?thesis by (auto simp: tasks_ok_def)
  qed
  with inv(1) show ?thesis by (auto simp: tasks_ok_def queued_def)
qed

text \<open>
  The destructor wakes everybody for good. With fewer than \<open>2\<^sup>32\<close> epoch advances: once its
  \<^verbatim>\<open>notify_all\<close> is over, no worker is parked, now or in any later state, including a worker that had already
  decided to park when the quit flag was set.
\<close>

theorem pool_quit_unparks:
  assumes "pool_reach s" and "pl_epoch s < 2 ^ 32" and "pl_quit_done s"
  shows "pl_quit s \<and> (\<forall>w. \<not> is_parked (pl_pc s w))"
  using pool_reach_park [OF assms(1,2)] assms(3) by (auto simp: quit_ok_def)


section \<open>Witnesses\<close>

text \<open>A pool of one worker with nothing to do: it scans, waits and parks; on quit it is woken, scans and leaves.\<close>

lemma scan_dry:
  fixes s :: "'a pool"
  assumes "finite S" and "pool_reach s" and "at s w (pc S)" and "\<And>q. pl_queue s q = []"
    and step: "\<And>(s :: 'a pool) S q. at s w (pc S) \<Longrightarrow> q \<in> S \<Longrightarrow> pl_queue s q = [] \<Longrightarrow> pool_step s (set_pc w (pc (S - {q})) s)"
  shows "pool_reach (set_pc w (pc {}) s)"
  using assms(1-4)
proof (induction S arbitrary: s rule: finite_psubset_induct)
  case (psubset S)
  show ?case
  proof (cases "S = {}")
    case True
    with psubset.prems have "set_pc w (pc {}) s = s" by (auto simp: set_pc_def at_def fun_upd_idem)
    with psubset.prems show ?thesis by simp
  next
    case False
    then obtain q where q: "q \<in> S" by blast
    let ?s = "set_pc w (pc (S - {q})) s"
    have "pool_reach ?s" using pl_step [OF psubset.prems(1) step [OF psubset.prems(2) q psubset.prems(3)]] .
    moreover have "at ?s w (pc (S - {q}))" using psubset.prems(2) by (simp add: at_def)
    ultimately have "pool_reach (set_pc w (pc {}) ?s)" using psubset.IH [of "S - {q}" ?s] q psubset.prems(3) by auto
    then show ?thesis by (simp add: set_pc_def)
  qed
qed

lemma sees_empty: "pl_queue s q = [] \<Longrightarrow> visit s w q False s"
  by (rule visit_empty)

lemma main_reach: "pool_reach s \<Longrightarrow> main_step s s' \<Longrightarrow> pool_reach s'"
  by (erule pl_step) (simp add: pool_step_def)

lemma park_reach: "pool_reach s \<Longrightarrow> park_step s s' \<Longrightarrow> pool_reach s'"
  by (erule pl_step) (simp add: pool_step_def)

definition demo_pool :: "nat pool" where
  "demo_pool = pool_new Spin_then_block 0 1"

lemma demo_pool_simps [simp]:
  "pl_queue demo_pool q = []" "pl_count demo_pool = 1" "pl_signal demo_pool t = Sig_none" "pl_pc demo_pool w = W_top"
  "pl_quit demo_pool = False" "pl_quit_advanced demo_pool = False" "pl_quit_done demo_pool = False" "pl_epoch demo_pool = 0"
  "pl_policy demo_pool = Spin_then_block" "pl_cycles demo_pool = 0"
  by (simp_all add: demo_pool_def pool_new_def)

lemma demo_waiting: "pool_reach (set_pc 0 W_wait demo_pool)"
proof -
  have "pool_reach demo_pool" unfolding demo_pool_def by (rule pl_start) simp
  then have "pool_reach (set_pc 0 (W_scan (sources 1)) demo_pool)"
    using main_reach mn_scan [of demo_pool 0] by (simp add: at_def)
  then have "pool_reach (set_pc 0 (W_scan {}) (set_pc 0 (W_scan (sources 1)) demo_pool))"
    by (rule scan_dry [OF finite_sources]) (auto simp: at_def pool_step_def intro!: mn_missed sees_empty)
  then have "pool_reach (set_pc 0 (W_scan {}) demo_pool)" by (simp add: set_pc_def)
  then have "pool_reach (set_pc 0 W_quit (set_pc 0 (W_scan {}) demo_pool))"
    by (rule main_reach) (rule mn_dry, simp add: at_def)
  then have "pool_reach (set_pc 0 W_quit demo_pool)" by (simp add: set_pc_def)
  note main_reach [OF this mn_quit [of _ 0]]
  then show ?thesis by (simp add: at_def set_pc_def)
qed

lemma demo_parked: "pool_reach (set_pc 0 (W_parked 0) demo_pool)"
proof -
  have "pool_reach (set_pc 0 W_prepare demo_pool)"
    using pl_step [OF demo_waiting, of "set_pc 0 W_prepare demo_pool"] wt_spin [of "set_pc 0 W_wait demo_pool" 0]
    by (simp add: at_def pool_step_def set_pc_def)
  then have "pool_reach (set_pc 0 (W_recheck 0 (sources 1)) demo_pool)"
    using park_reach pk_prepare [of "set_pc 0 W_prepare demo_pool" 0] by (simp add: at_def set_pc_def prepare_wait_def)
  then have "pool_reach (set_pc 0 (W_recheck 0 {}) (set_pc 0 (W_recheck 0 (sources 1)) demo_pool))"
    by (rule scan_dry [OF finite_sources]) (auto simp: at_def pool_step_def intro!: pk_missed sees_empty)
  then have "pool_reach (set_pc 0 (W_recheck 0 {}) demo_pool)" by (simp add: set_pc_def)
  then have "pool_reach (set_pc 0 (W_park_quit 0) demo_pool)"
    using park_reach pk_dry [of "set_pc 0 (W_recheck 0 {}) demo_pool" 0] by (simp add: at_def set_pc_def)
  then have "pool_reach (set_pc 0 (W_commit 0) demo_pool)"
    using park_reach pk_quit [of "set_pc 0 (W_park_quit 0) demo_pool" 0] by (simp add: at_def set_pc_def)
  then show ?thesis
    using park_reach pk_commit [of "set_pc 0 (W_commit 0) demo_pool" 0 0] by (simp add: at_def set_pc_def epoch_unchanged_def)
qed


theorem pool_shutdown_complete_witness: "pl_submitted demo_pool = pl_started demo_pool"
  using pool_shutdown_complete [OF demo_parked] by (simp add: set_pc_def)

definition demo_quit :: "nat pool" where
  "demo_quit = demo_pool\<lparr>pl_quit := True, pl_epoch := 1, pl_quit_advanced := True, pl_quit_done := True\<rparr>"

lemma demo_quit_reach: "pool_reach demo_quit"
proof -
  have start: "pool_reach demo_pool" unfolding demo_pool_def by (rule pl_start) simp
  have stepq: "pool_reach s \<Longrightarrow> quit_step s s' \<Longrightarrow> pool_reach s'" for s s' :: "nat pool"
    by (erule pl_step) (simp add: pool_step_def)
  have "pool_reach (demo_pool\<lparr>pl_quit := True\<rparr>)" using stepq [OF start qt_store] by simp
  note stepq [OF this qt_advance, simplified]
  then have "pool_reach ((advance (demo_pool\<lparr>pl_quit := True\<rparr>))\<lparr>pl_quit_advanced := True\<rparr>)" by simp
  from stepq [OF this qt_wake] have "pool_reach ((wake_all ((advance (demo_pool\<lparr>pl_quit := True\<rparr>))\<lparr>pl_quit_advanced := True\<rparr>))\<lparr>pl_quit_done := True\<rparr>)"
    by (simp add: advance_def)
  moreover have "(wake_all ((advance (demo_pool\<lparr>pl_quit := True\<rparr>))\<lparr>pl_quit_advanced := True\<rparr>))\<lparr>pl_quit_done := True\<rparr> = demo_quit"
    by (simp add: demo_quit_def wake_all_def advance_def demo_pool_def pool_new_def)
  ultimately show ?thesis by simp
qed

theorem pool_quit_unparks_witness: "pl_quit demo_quit \<and> \<not> is_parked (pl_pc demo_quit 0)"
  using pool_quit_unparks [OF demo_quit_reach] by (simp add: demo_quit_def)

end
