(* ===== verification/Ring_Capacity.thy ===== *)
theory Ring_Capacity
  imports Macrame_Prelude
begin

text \<open>
  The capacity rounding shared by the two bounded containers, \<^verbatim>\<open>round_pow2\<close> of
  include/ts/detail/work_stealing_deque.h and include/ts/detail/mpmc_queue.h (the same text in both), and
  the masked indexing both use.
\<close>

section \<open>Rounding up to a power of two\<close>

text \<open>\<^verbatim>\<open>while (p < n) p <<= 1;\<close> on \<^verbatim>\<open>std::size_t\<close>; not returning is \<open>None\<close>.\<close>

partial_function (option) round_pow2_loop :: "64 word \<Rightarrow> 64 word \<Rightarrow> 64 word option" where
  [code]: "round_pow2_loop n p = (if p < n then round_pow2_loop n (push_bit 1 p) else Some p)"

definition round_pow2 :: "64 word \<Rightarrow> 64 word option" where
  "round_pow2 n = round_pow2_loop n 1"

lemma unat_pow2: "k < 64 \<Longrightarrow> unat (2 ^ k :: 64 word) = 2 ^ k"
  using unat_of_nat [of "2 ^ k", where 'a = 64] power_strict_increasing [of k 64 "2::nat"] by simp

definition pow2_or_zero :: "64 word \<Rightarrow> bool" where
  "pow2_or_zero p \<longleftrightarrow> p = 0 \<or> (\<exists>k < 64. p = 2 ^ k)"

lemma pow2_or_zero_shift: "pow2_or_zero p \<Longrightarrow> pow2_or_zero (push_bit 1 p)"
proof -
  assume "pow2_or_zero p"
  then consider "p = 0" | k where "k < 64" "p = 2 ^ k" by (auto simp: pow2_or_zero_def)
  then show ?thesis
  proof cases
    case (2 k)
    then have eq: "push_bit 1 p = 2 ^ Suc k" by (simp add: push_bit_eq_mult)
    show ?thesis
    proof (cases "Suc k < 64")
      case True
      with eq show ?thesis unfolding pow2_or_zero_def by blast
    next
      case False
      with 2 have "k = 63" by simp
      then show ?thesis unfolding eq by (simp add: pow2_or_zero_def)
    qed
  qed (simp add: pow2_or_zero_def)
qed

lemma round_pow2_loop_result:
  assumes "round_pow2_loop n p = Some r" and "pow2_or_zero p"
  shows "n \<le> r \<and> pow2_or_zero r"
proof -
  have "pow2_or_zero p \<longrightarrow> n \<le> r \<and> pow2_or_zero r"
  proof (rule round_pow2_loop.raw_induct [where P = "\<lambda>n p r. pow2_or_zero p \<longrightarrow> n \<le> r \<and> pow2_or_zero r", OF _ assms(1)])
    fix f and n p r :: "64 word"
    assume step: "\<And>n p r. f n p = Some r \<Longrightarrow> pow2_or_zero p \<longrightarrow> n \<le> r \<and> pow2_or_zero r"
      and ret: "(if p < n then f n (push_bit 1 p) else Some p) = Some r"
    show "pow2_or_zero p \<longrightarrow> n \<le> r \<and> pow2_or_zero r"
    proof (cases "p < n")
      case True
      with ret step [of n "push_bit 1 p" r] pow2_or_zero_shift [of p] show ?thesis by argo
    next
      case False
      with ret show ?thesis by auto
    qed
  qed
  with assms(2) show ?thesis by blast
qed

text \<open>From a power of two the loop reaches the next one that is large enough.\<close>

lemma round_pow2_loop_pow:
  assumes "n \<le> 2 ^ m" and "m < 64" and "k \<le> m" and "k = m \<or> 2 ^ (m - 1) < unat n"
  shows "round_pow2_loop n (2 ^ k) = Some (2 ^ m)"
  using assms(3,4)
proof (induction "m - k" arbitrary: k)
  case 0
  then have "k = m" by simp
  with assms(1) show ?case by (subst round_pow2_loop.simps) (metis linorder_not_less)
next
  case (Suc d)
  then have k: "k < m" by simp
  then have big: "2 ^ (m - 1) < unat n" using Suc.prems by simp
  have "(2::nat) ^ k \<le> 2 ^ (m - 1)" using k by (simp add: power_increasing)
  moreover have "unat (2 ^ k :: 64 word) = 2 ^ k" using k assms(2) by (simp add: unat_pow2)
  ultimately have "2 ^ k < n" using big unfolding word_less_nat_alt by linarith
  moreover have "push_bit 1 (2 ^ k :: 64 word) = 2 ^ Suc k" by (simp add: push_bit_eq_mult)
  moreover have "round_pow2_loop n (2 ^ Suc k) = Some (2 ^ m)"
    using Suc.hyps(1) [of "Suc k"] Suc.hyps(2) Suc.prems(2) k big by simp
  ultimately show ?case by (subst round_pow2_loop.simps) argo
qed

lemma round_pow2_eq:
  "round_pow2 n =
     (if unat n \<le> 2 ^ 63 then Some (2 ^ (LEAST k. unat n \<le> 2 ^ k)) else None)"
proof (cases "unat n \<le> 2 ^ 63")
  case True
  let ?k = "LEAST k. unat n \<le> 2 ^ k"
  have le: "unat n \<le> 2 ^ ?k" by (rule LeastI [where k = 63]) (rule True)
  have k63: "?k \<le> 63" by (rule Least_le) (rule True)
  have "?k = 0 \<or> 2 ^ (?k - 1) < unat n"
  proof (rule disjCI)
    assume "\<not> 2 ^ (?k - 1) < unat n"
    then have "?k \<le> ?k - 1" by (intro Least_le) simp
    then show "?k = 0" by simp
  qed
  moreover have "n \<le> 2 ^ ?k" using le k63 by (simp add: word_le_nat_alt unat_pow2)
  ultimately have "round_pow2_loop n (2 ^ 0) = Some (2 ^ ?k)"
    using k63 by (intro round_pow2_loop_pow) auto
  with True show ?thesis by (simp add: round_pow2_def)
next
  case False
  have "round_pow2 n \<noteq> Some r" for r
  proof
    assume "round_pow2 n = Some r"
    moreover have "pow2_or_zero 1" unfolding pow2_or_zero_def by (intro disjI2 exI [of _ 0]) simp
    ultimately have "n \<le> r" "pow2_or_zero r" using round_pow2_loop_result [of n 1 r] by (auto simp: round_pow2_def)
    then consider "n \<le> 0" | k where "k < 64" "n \<le> 2 ^ k" by (auto simp: pow2_or_zero_def)
    then show False
    proof cases
      case (2 k)
      then have "unat n \<le> 2 ^ k" by (simp add: word_le_nat_alt unat_pow2)
      also have "\<dots> \<le> 2 ^ 63" using 2 by (intro power_increasing) auto
      finally show False using False by simp
    qed (use False in simp)
  qed
  with False show ?thesis by (cases "round_pow2 n") auto
qed

lemma round_pow2_power:
  assumes "round_pow2 n = Some p"
  shows "\<exists>k < 64. p = 2 ^ k \<and> unat p = 2 ^ k"
proof -
  have le: "unat n \<le> 2 ^ 63" and p: "p = 2 ^ (LEAST k. unat n \<le> 2 ^ k)"
    using assms by (auto simp: round_pow2_eq split: if_splits)
  have "(LEAST k. unat n \<le> 2 ^ k) \<le> 63" using le by (rule Least_le)
  then show ?thesis using p unat_pow2 by (intro exI [of _ "LEAST k. unat n \<le> 2 ^ k"]) auto
qed

text \<open>
  The rounding loop returns exactly for capacities up to \<open>2\<^sup>63\<close>, and then it returns the smallest
  power of two that is not below the request. Above \<open>2\<^sup>63\<close> the shifted value wraps to 0 and the loop
  never ends.
\<close>

theorem round_pow2_exact:
  "round_pow2 n =
     (if unat n \<le> 2 ^ 63 then Some (2 ^ (LEAST k. unat n \<le> 2 ^ k)) else None)"
  by (rule round_pow2_eq)

section \<open>Masked indices\<close>

text \<open>\<^verbatim>\<open>pos & mask_\<close> with a capacity of \<open>2\<^sup>k\<close>.\<close>

definition slot_index :: "int \<Rightarrow> int \<Rightarrow> nat" where
  "slot_index m i = nat (and i m)"

lemma slot_index_mod: "slot_index (2 ^ k - 1) i = nat (i mod 2 ^ k)"
  by (simp add: slot_index_def take_bit_eq_mod flip: take_bit_eq_mask mask_eq_exp_minus_1)

lemma slot_index_less: "slot_index (2 ^ k - 1) i < 2 ^ k"
  by (simp add: slot_index_mod nat_less_iff)

lemma slot_index_inj:
  assumes "slot_index (2 ^ k - 1) i = slot_index (2 ^ k - 1) j" and "\<bar>i - j\<bar> < 2 ^ k"
  shows "i = j"
proof -
  have "i mod 2 ^ k = j mod 2 ^ k"
    using assms(1) unfolding slot_index_mod by (metis nat_eq_iff pos_mod_sign zero_less_numeral zero_less_power)
  then have "2 ^ k dvd i - j" by (simp add: mod_eq_dvd_iff)
  with assms(2) show ?thesis using zdvd_not_zless [of "\<bar>i - j\<bar>" "2 ^ k"] by (cases "i = j") auto
qed

end
