(* ===== verification/Work_Pool.thy ===== *)
theory Work_Pool
  imports Macrame_Prelude
begin

text \<open>
  What the scheduler relies on from the containers that hold runnable tasks: the per-worker deques
  (owner side and thief side), the global queues and the serial queue. A container may refuse an item
  when it is full, may return items in any order, and answers that it is empty only when it is.
\<close>

locale work_pool =
  fixes ok :: "'q \<Rightarrow> bool"
    and items :: "'q \<Rightarrow> 'a multiset"
    and put :: "'q \<Rightarrow> 'a \<Rightarrow> 'q \<times> bool"
    and get :: "'q \<Rightarrow> 'q \<times> 'a option"
  assumes put_ok: "ok q \<Longrightarrow> put q x = (q', r) \<Longrightarrow> ok q'"
    and put_items: "ok q \<Longrightarrow> put q x = (q', r) \<Longrightarrow> items q' = (if r then add_mset x (items q) else items q)"
    and get_ok: "ok q \<Longrightarrow> get q = (q', y) \<Longrightarrow> ok q'"
    and get_Some: "ok q \<Longrightarrow> get q = (q', Some x) \<Longrightarrow> items q = add_mset x (items q')"
    and get_None: "ok q \<Longrightarrow> get q = (q', None) \<Longrightarrow> items q = {#} \<and> items q' = {#}"
begin

text \<open>Taking items until the container reports empty; the fuel bounds the number of rounds.\<close>

fun drain :: "nat \<Rightarrow> 'q \<Rightarrow> 'q \<times> 'a list" where
  "drain 0 q = (q, [])"
| "drain (Suc n) q =
     (case get q of
        (q', None) \<Rightarrow> (q', [])
      | (q', Some x) \<Rightarrow> (let (q'', xs) = drain n q' in (q'', x # xs)))"

lemma drain_all:
  assumes "ok q" and "size (items q) < n"
  shows "mset (snd (drain n q)) = items q \<and> items (fst (drain n q)) = {#} \<and> ok (fst (drain n q))"
  using assms
proof (induction n arbitrary: q)
  case (Suc n)
  obtain q' r where got: "get q = (q', r)" by (cases "get q")
  show ?case
  proof (cases r)
    case None
    with got Suc.prems(1) show ?thesis using get_ok get_None by auto
  next
    case (Some x)
    with got Suc.prems(1) have "items q = add_mset x (items q')" "ok q'" using get_Some get_ok by auto
    with Suc.IH [of q'] Suc.prems got Some show ?thesis by (simp add: split_beta)
  qed
qed simp

lemma get_conserves: "ok q \<Longrightarrow> get q = (q', r) \<Longrightarrow> items q = items q' + (case r of None \<Rightarrow> {#} | Some x \<Rightarrow> {#x#})"
  using get_Some get_None by (auto split: option.splits)

end

end
