(* ===== verification/Work_Stealing.thy ===== *)
theory Work_Stealing
  imports Ring_Capacity Work_Pool
begin

text \<open>
  The bounded Chase-Lev deque (include/ts/detail/work_stealing_deque.h), one per worker. The owner pushes and
  takes at the bottom, thieves steal at the top. Each access to an atomic (\<^verbatim>\<open>top_\<close>, \<^verbatim>\<open>bottom_\<close>, a cell) is one
  action, and the actions of the owner and of the thieves interleave freely; the two \<^verbatim>\<open>seq_cst\<close> fences and
  the acquire/release orders are taken as making this order total (weaker executions are not modelled).
  The 64-bit counters are integers here; the last property bounds them by the number of pushes.
\<close>

section \<open>The deque and its atomic actions\<close>

record 'a deque =
  dq_top :: int
  dq_bottom :: int
  dq_mask :: int
  dq_buf :: "'a list"

text \<open>The constructor rounds the capacity, which need not return (theory \<open>Ring_Capacity\<close>); \<open>x\<close> is the cells' initial value.\<close>

definition deque_new :: "64 word \<Rightarrow> 'a \<Rightarrow> 'a deque option" where
  "deque_new capacity x =
     map_option (\<lambda>p. \<lparr>dq_top = 0, dq_bottom = 0, dq_mask = uint p - 1, dq_buf = replicate (unat p) x\<rparr>) (round_pow2 capacity)"

definition dq_cell :: "'a deque \<Rightarrow> int \<Rightarrow> 'a" where
  "dq_cell d i = dq_buf d ! slot_index (dq_mask d) i"

definition dq_store :: "'a deque \<Rightarrow> int \<Rightarrow> 'a \<Rightarrow> 'a deque" where
  "dq_store d i x = d\<lparr>dq_buf := (dq_buf d)[slot_index (dq_mask d) i := x]\<rparr>"

text \<open>
  Where the owner is inside \<^verbatim>\<open>push\<close> or \<^verbatim>\<open>take\<close>, with the locals it has loaded. \<open>Push_bottom\<close> to \<open>Push_cell\<close>: \<open>b\<close>
  loaded, \<open>t\<close> loaded, cell stored. \<open>Take_bottom\<close>: the decremented \<open>b\<close> computed; \<open>Take_stored\<close>: stored and
  fenced; \<open>Take_top\<close>: \<open>t\<close> loaded; \<open>Take_cell\<close>: item read; \<open>Take_won\<close> and \<open>Take_missed\<close>: before the store that restores \<open>bottom\<close>.
\<close>

datatype 'a owner =
    Push_start 'a
  | Push_bottom 'a int
  | Push_top 'a int int
  | Push_cell 'a int
  | Push_result bool
  | Take_start
  | Take_bottom int
  | Take_stored int
  | Take_top int int
  | Take_cell int int 'a
  | Take_won int 'a
  | Take_missed int
  | Take_result "'a option"

fun owner_step :: "'a deque \<Rightarrow> 'a owner \<Rightarrow> 'a deque \<times> 'a owner" where
  "owner_step d (Push_start x) = (d, Push_bottom x (dq_bottom d))"
| "owner_step d (Push_bottom x b) = (d, Push_top x b (dq_top d))"
| "owner_step d (Push_top x b t) =
     (if b - t > dq_mask d then (d, Push_result False) else (dq_store d b x, Push_cell x b))"
| "owner_step d (Push_cell x b) = (d\<lparr>dq_bottom := b + 1\<rparr>, Push_result True)"
| "owner_step d Take_start = (d, Take_bottom (dq_bottom d - 1))"
| "owner_step d (Take_bottom b) = (d\<lparr>dq_bottom := b\<rparr>, Take_stored b)"
| "owner_step d (Take_stored b) = (d, Take_top b (dq_top d))"
| "owner_step d (Take_top b t) = (if t \<le> b then (d, Take_cell b t (dq_cell d b)) else (d, Take_missed b))"
| "owner_step d (Take_cell b t x) =
     (if t = b then (if dq_top d = t then (d\<lparr>dq_top := t + 1\<rparr>, Take_won b x) else (d, Take_missed b))
      else (d, Take_result (Some x)))"
| "owner_step d (Take_won b x) = (d\<lparr>dq_bottom := b + 1\<rparr>, Take_result (Some x))"
| "owner_step d (Take_missed b) = (d\<lparr>dq_bottom := b + 1\<rparr>, Take_result None)"
| "owner_step d (Push_result r) = (d, Push_result r)"
| "owner_step d (Take_result r) = (d, Take_result r)"

text \<open>Where a thief is inside \<^verbatim>\<open>steal\<close>: top loaded, bottom loaded, item read, returned.\<close>

datatype 'a thief =
    Steal_start
  | Steal_top int
  | Steal_bottom int int
  | Steal_cell int 'a
  | Steal_result "'a option"

fun thief_step :: "'a deque \<Rightarrow> 'a thief \<Rightarrow> 'a deque \<times> 'a thief" where
  "thief_step d Steal_start = (d, Steal_top (dq_top d))"
| "thief_step d (Steal_top t) = (d, Steal_bottom t (dq_bottom d))"
| "thief_step d (Steal_bottom t b) =
     (if t < b then (d, Steal_cell t (dq_cell d t)) else (d, Steal_result None))"
| "thief_step d (Steal_cell t x) =
     (if dq_top d = t then (d\<lparr>dq_top := t + 1\<rparr>, Steal_result (Some x)) else (d, Steal_result None))"
| "thief_step d (Steal_result r) = (d, Steal_result r)"

definition dq_empty :: "'a deque \<Rightarrow> bool" where
  "dq_empty d \<longleftrightarrow> dq_bottom d \<le> dq_top d"

section \<open>The whole operations, without interference\<close>

definition deque_push :: "'a deque \<Rightarrow> 'a \<Rightarrow> 'a deque \<times> bool" where
  "deque_push d x = (case ((\<lambda>(d, p). owner_step d p) ^^ 4) (d, Push_start x) of
     (d', Push_result r) \<Rightarrow> (d', r) | (d', _) \<Rightarrow> (d', False))"

definition deque_take :: "'a deque \<Rightarrow> 'a deque \<times> 'a option" where
  "deque_take d = (case ((\<lambda>(d, p). owner_step d p) ^^ 6) (d, Take_start) of
     (d', Take_result r) \<Rightarrow> (d', r) | (d', _) \<Rightarrow> (d', None))"

definition deque_steal :: "'a deque \<Rightarrow> 'a deque \<times> 'a option" where
  "deque_steal d = (case ((\<lambda>(d, h). thief_step d h) ^^ 4) (d, Steal_start) of
     (d', Steal_result r) \<Rightarrow> (d', r) | (d', _) \<Rightarrow> (d', None))"

section \<open>Contents\<close>

definition deque_wf :: "'a deque \<Rightarrow> bool" where
  "deque_wf d \<longleftrightarrow> (\<exists>k. dq_mask d = 2 ^ k - 1 \<and> length (dq_buf d) = 2 ^ k)"

text \<open>The items at the positions from \<open>top\<close> up to a bottom.\<close>

definition dq_items :: "'a deque \<Rightarrow> int \<Rightarrow> 'a list" where
  "dq_items d b = map (dq_cell d) [dq_top d..b - 1]"

definition contents :: "'a deque \<Rightarrow> 'a list" where
  "contents d = dq_items d (dq_bottom d)"

lemma dq_cell_simps [simp]:
  "dq_cell (d\<lparr>dq_top := t\<rparr>) = dq_cell d" "dq_cell (d\<lparr>dq_bottom := b\<rparr>) = dq_cell d"
  by (simp_all add: dq_cell_def fun_eq_iff)

lemma dq_store_simps [simp]:
  "dq_top (dq_store d i x) = dq_top d" "dq_bottom (dq_store d i x) = dq_bottom d" "dq_mask (dq_store d i x) = dq_mask d"
  by (simp_all add: dq_store_def)

lemma deque_wf_simps [simp]:
  "deque_wf (d\<lparr>dq_top := t\<rparr>) = deque_wf d" "deque_wf (d\<lparr>dq_bottom := b\<rparr>) = deque_wf d"
  "deque_wf (dq_store d i x) = deque_wf d"
  by (simp_all add: deque_wf_def dq_store_def)

lemma dq_mask_nonneg: "deque_wf d \<Longrightarrow> 0 \<le> dq_mask d"
  by (auto simp: deque_wf_def)

lemma dq_cell_store:
  assumes "deque_wf d" and "\<bar>i - j\<bar> \<le> dq_mask d"
  shows "dq_cell (dq_store d i x) j = (if j = i then x else dq_cell d j)"
proof -
  from assms(1) obtain k where k: "dq_mask d = 2 ^ k - 1" "length (dq_buf d) = 2 ^ k" by (auto simp: deque_wf_def)
  have "slot_index (dq_mask d) i < length (dq_buf d)" using k slot_index_less by simp
  moreover have "slot_index (dq_mask d) i = slot_index (dq_mask d) j \<longleftrightarrow> i = j"
    using assms(2) k slot_index_inj [of k i j] by auto
  ultimately show ?thesis by (auto simp: dq_cell_def dq_store_def nth_list_update)
qed

lemma dq_items_store:
  assumes "deque_wf d" and "b - dq_top d \<le> dq_mask d" and "dq_top d \<le> b"
  shows "dq_items (dq_store d b x) b = dq_items d b" and "dq_items (dq_store d b x) (b + 1) = dq_items d b @ [x]"
proof -
  show eq: "dq_items (dq_store d b x) b = dq_items d b"
    using assms by (auto simp: dq_items_def dq_cell_store)
  have "[dq_top d..b] = [dq_top d..b - 1] @ [b]" using assms(3) by (rule upto_rec2)
  then show "dq_items (dq_store d b x) (b + 1) = dq_items d b @ [x]"
    using eq assms(1) dq_mask_nonneg [OF assms(1)] by (simp add: dq_items_def dq_cell_store)
qed

lemma dq_items_last:
  assumes "dq_top d \<le> b"
  shows "dq_items d (b + 1) = dq_items d b @ [dq_cell d b]"
  using upto_rec2 [OF assms] by (simp add: dq_items_def)

lemma dq_items_first:
  assumes "dq_top d < b"
  shows "dq_items d b = dq_cell d (dq_top d) # dq_items (d\<lparr>dq_top := dq_top d + 1\<rparr>) b"
  using assms upto_rec1 [of "dq_top d" "b - 1"] by (simp add: dq_items_def)

lemma dq_items_Nil [simp]: "dq_items d b = [] \<longleftrightarrow> b \<le> dq_top d"
  by (auto simp: dq_items_def)

lemma dq_items_empty [simp]: "b \<le> dq_top d \<Longrightarrow> dq_items d b = []"
  by simp

lemma length_dq_items [simp]: "length (dq_items d b) = nat (b - dq_top d)"
  by (simp add: dq_items_def)

lemma dq_items_bottom [simp]: "dq_items (d\<lparr>dq_bottom := b'\<rparr>) b = dq_items d b"
  by (simp add: dq_items_def)


lemma deque_push_contents:
  assumes "deque_wf d" and "dq_top d \<le> dq_bottom d" and "deque_push d x = (d', r)"
  shows "deque_wf d'" and "dq_top d' \<le> dq_bottom d'" and "dq_mask d' = dq_mask d"
    and "r \<longleftrightarrow> int (length (contents d)) \<le> dq_mask d"
    and "contents d' = (if r then contents d @ [x] else contents d)"
  using assms dq_items_store [of d "dq_bottom d" x]
  by (auto simp: deque_push_def numeral_eq_Suc contents_def split: if_splits)

lemma deque_take_contents:
  assumes "deque_wf d" and "dq_top d \<le> dq_bottom d" and "deque_take d = (d', r)"
  shows "deque_wf d'" and "dq_top d' \<le> dq_bottom d'" and "dq_mask d' = dq_mask d"
    and "r = (if contents d = [] then None else Some (last (contents d)))"
    and "contents d' = butlast (contents d)"
  using assms dq_items_last [of d "dq_bottom d - 1"]
  by (auto simp: deque_take_def numeral_eq_Suc contents_def split: if_splits)

lemma deque_steal_contents:
  assumes "deque_wf d" and "dq_top d \<le> dq_bottom d" and "deque_steal d = (d', r)"
  shows "deque_wf d'" and "dq_top d' \<le> dq_bottom d'" and "dq_mask d' = dq_mask d"
    and "r = (if contents d = [] then None else Some (hd (contents d)))"
    and "contents d' = tl (contents d)"
  using assms dq_items_first [of d "dq_bottom d"]
  by (auto simp: deque_steal_def numeral_eq_Suc contents_def split: if_splits)

text \<open>Both ends are work pools: the owner's push with its own take, and with a thief's steal.\<close>

definition deque_ok :: "'a deque \<Rightarrow> bool" where
  "deque_ok d \<longleftrightarrow> deque_wf d \<and> dq_top d \<le> dq_bottom d"

lemma mset_butlast_last: "xs \<noteq> [] \<Longrightarrow> mset xs = add_mset (last xs) (mset (butlast xs))"
  by (cases xs rule: rev_cases) auto

lemma mset_hd_tl: "xs \<noteq> [] \<Longrightarrow> mset xs = add_mset (hd xs) (mset (tl xs))"
  by (cases xs) auto

interpretation own: work_pool deque_ok "\<lambda>d. mset (contents d)" deque_push deque_take
proof unfold_locales
  fix d d' :: "'a deque" and x :: 'a and r r'
  assume ok: "deque_ok d"
  show "deque_push d x = (d', r) \<Longrightarrow> deque_ok d'"
    using deque_push_contents(1,2) [of d x d' r] ok by (simp add: deque_ok_def)
  show "deque_push d x = (d', r) \<Longrightarrow> mset (contents d') = (if r then add_mset x (mset (contents d)) else mset (contents d))"
    using deque_push_contents(5) [of d x d' r] ok by (simp add: deque_ok_def)
  show "deque_take d = (d', r') \<Longrightarrow> deque_ok d'"
    using deque_take_contents(1,2) [of d d' r'] ok by (simp add: deque_ok_def)
  show "deque_take d = (d', Some x) \<Longrightarrow> mset (contents d) = add_mset x (mset (contents d'))"
    using deque_take_contents(4,5) [of d d' "Some x"] ok mset_butlast_last [of "contents d"]
    by (simp add: deque_ok_def split: if_splits)
  show "deque_take d = (d', None) \<Longrightarrow> mset (contents d) = {#} \<and> mset (contents d') = {#}"
    using deque_take_contents(4,5) [of d d' None] ok by (simp add: deque_ok_def split: if_splits)
qed

interpretation thf: work_pool deque_ok "\<lambda>d. mset (contents d)" deque_push deque_steal
proof unfold_locales
  fix d d' :: "'a deque" and x :: 'a and r'
  assume ok: "deque_ok d"
  show "deque_steal d = (d', r') \<Longrightarrow> deque_ok d'"
    using deque_steal_contents(1,2) [of d d' r'] ok by (simp add: deque_ok_def)
  show "deque_steal d = (d', Some x) \<Longrightarrow> mset (contents d) = add_mset x (mset (contents d'))"
    using deque_steal_contents(4,5) [of d d' "Some x"] ok mset_hd_tl [of "contents d"]
    by (simp add: deque_ok_def split: if_splits)
  show "deque_steal d = (d', None) \<Longrightarrow> mset (contents d) = {#} \<and> mset (contents d') = {#}"
    using deque_steal_contents(4,5) [of d d' None] ok by (simp add: deque_ok_def split: if_splits)
qed (auto intro: own.put_ok simp: own.put_items)

section \<open>Owner and thieves interleaved\<close>

record 'a deque_run =
  wr_deque :: "'a deque"
  wr_owner :: "'a owner"
  wr_thieves :: "nat \<Rightarrow> 'a thief"
  wr_pushed :: "'a list"
  wr_out :: "'a list"

definition deque_run_new :: "'a deque \<Rightarrow> 'a deque_run" where
  "deque_run_new d = \<lparr>wr_deque = d, wr_owner = Take_result None,
     wr_thieves = (\<lambda>_. Steal_result None), wr_pushed = [], wr_out = []\<rparr>"

fun owner_idle :: "'a owner \<Rightarrow> bool" where
  "owner_idle (Push_result r) = True"
| "owner_idle (Take_result r) = True"
| "owner_idle _ = False"

fun thief_idle :: "'a thief \<Rightarrow> bool" where
  "thief_idle (Steal_result r) = True"
| "thief_idle _ = False"

text \<open>The item an action makes visible to others, and the item an action returns to its caller.\<close>

fun publishes :: "'a owner \<Rightarrow> 'a list" where
  "publishes (Push_cell x b) = [x]"
| "publishes _ = []"

fun returns :: "'a owner \<Rightarrow> 'a list" where
  "returns (Take_result (Some x)) = [x]"
| "returns _ = []"

fun thief_returns :: "'a thief \<Rightarrow> 'a list" where
  "thief_returns (Steal_result (Some x)) = [x]"
| "thief_returns _ = []"

inductive deque_step :: "'a deque_run \<Rightarrow> 'a deque_run \<Rightarrow> bool" where
  ws_push: "owner_idle (wr_owner s) \<Longrightarrow> deque_step s (s\<lparr>wr_owner := Push_start x\<rparr>)"
| ws_take: "owner_idle (wr_owner s) \<Longrightarrow> deque_step s (s\<lparr>wr_owner := Take_start\<rparr>)"
| ws_owner: "\<not> owner_idle (wr_owner s) \<Longrightarrow> owner_step (wr_deque s) (wr_owner s) = (d, p) \<Longrightarrow>
     deque_step s (s\<lparr>wr_deque := d, wr_owner := p, wr_pushed := wr_pushed s @ publishes (wr_owner s),
       wr_out := wr_out s @ returns p\<rparr>)"
| ws_steal: "thief_idle (wr_thieves s i) \<Longrightarrow> deque_step s (s\<lparr>wr_thieves := (wr_thieves s)(i := Steal_start)\<rparr>)"
| ws_thief: "\<not> thief_idle (wr_thieves s i) \<Longrightarrow> thief_step (wr_deque s) (wr_thieves s i) = (d, h) \<Longrightarrow>
     deque_step s (s\<lparr>wr_deque := d, wr_thieves := (wr_thieves s)(i := h), wr_out := wr_out s @ thief_returns h\<rparr>)"

inductive deque_reach :: "'a deque_run \<Rightarrow> bool" where
  wr_start: "deque_new capacity x = Some d \<Longrightarrow> deque_reach (deque_run_new d)"
| wr_step: "deque_reach s \<Longrightarrow> deque_step s s' \<Longrightarrow> deque_reach s'"

text \<open>
  The bottom as the abstract deque sees it: while a take has lowered \<open>bottom\<close> but not yet decided,
  its position still belongs to the deque; once it has seen a smaller top it is the owner's.
\<close>

fun logical_bottom :: "'a deque \<Rightarrow> 'a owner \<Rightarrow> int" where
  "logical_bottom d (Take_stored b) = b + 1"
| "logical_bottom d (Take_top b t) = (if t < b then b else b + 1)"
| "logical_bottom d (Take_cell b t x) = (if t < b then b else b + 1)"
| "logical_bottom d (Take_won b x) = b + 1"
| "logical_bottom d (Take_missed b) = b + 1"
| "logical_bottom d _ = dq_bottom d"

fun owner_holds :: "'a deque \<Rightarrow> 'a owner \<Rightarrow> 'a list" where
  "owner_holds d (Take_top b t) = (if t < b then [dq_cell d b] else [])"
| "owner_holds d (Take_cell b t x) = (if t < b then [x] else [])"
| "owner_holds d (Take_won b x) = [x]"
| "owner_holds d _ = []"

fun owner_ok :: "'a deque \<Rightarrow> 'a owner \<Rightarrow> bool" where
  "owner_ok d (Push_bottom x b) \<longleftrightarrow> b = dq_bottom d"
| "owner_ok d (Push_top x b t) \<longleftrightarrow> b = dq_bottom d \<and> t \<le> dq_top d"
| "owner_ok d (Push_cell x b) \<longleftrightarrow> b = dq_bottom d \<and> b - dq_top d \<le> dq_mask d \<and> dq_cell d b = x"
| "owner_ok d (Take_bottom b) \<longleftrightarrow> b + 1 = dq_bottom d"
| "owner_ok d (Take_stored b) \<longleftrightarrow> b = dq_bottom d"
| "owner_ok d (Take_top b t) \<longleftrightarrow> b = dq_bottom d \<and> t \<le> dq_top d"
| "owner_ok d (Take_cell b t x) \<longleftrightarrow> b = dq_bottom d \<and> t \<le> dq_top d \<and> t \<le> b \<and> x = dq_cell d b"
| "owner_ok d (Take_won b x) \<longleftrightarrow> b = dq_bottom d \<and> dq_top d = b + 1"
| "owner_ok d (Take_missed b) \<longleftrightarrow> b = dq_bottom d \<and> dq_top d = b + 1"
| "owner_ok d _ \<longleftrightarrow> True"

fun thief_ok :: "'a deque \<Rightarrow> int \<Rightarrow> 'a thief \<Rightarrow> bool" where
  "thief_ok d lb (Steal_top t) \<longleftrightarrow> t \<le> dq_top d"
| "thief_ok d lb (Steal_bottom t b) \<longleftrightarrow> t \<le> dq_top d \<and> (t < b \<and> t = dq_top d \<longrightarrow> t < lb)"
| "thief_ok d lb (Steal_cell t x) \<longleftrightarrow> t \<le> dq_top d \<and> (t = dq_top d \<longrightarrow> t < lb \<and> x = dq_cell d t)"
| "thief_ok d lb _ \<longleftrightarrow> True"

definition owner_inv :: "'a deque \<Rightarrow> 'a owner \<Rightarrow> bool" where
  "owner_inv d p \<longleftrightarrow> deque_wf d \<and> 0 \<le> dq_top d \<and> dq_top d \<le> logical_bottom d p
     \<and> logical_bottom d p - dq_top d \<le> dq_mask d + 1 \<and> owner_ok d p"

lemma owner_step_inv:
  assumes "owner_inv d p" and "owner_step d p = (d', p')"
  shows "owner_inv d' p' \<and> dq_top d \<le> dq_top d' \<and> dq_mask d' = dq_mask d
     \<and> logical_bottom d' p' \<le> logical_bottom d p + int (length (publishes p))"
  using assms unfolding owner_inv_def
  by (cases p) (auto split: if_splits simp: dq_cell_store dq_mask_nonneg)

lemma owner_step_thief:
  assumes "owner_inv d p" and "owner_step d p = (d', p')" and "thief_ok d (logical_bottom d p) h"
  shows "thief_ok d' (logical_bottom d' p') h"
  using assms unfolding owner_inv_def
  by (cases p; cases h) (auto split: if_splits simp: dq_cell_store dq_mask_nonneg)

lemma owner_step_items:
  assumes "owner_inv d p" and "owner_step d p = (d', p')" and "\<not> owner_idle p"
  shows "mset (publishes p) + mset (owner_holds d p) + mset (dq_items d (logical_bottom d p))
     = mset (returns p') + mset (owner_holds d' p') + mset (dq_items d' (logical_bottom d' p'))"
  using assms unfolding owner_inv_def
  by (cases p) (auto split: if_splits simp: dq_cell_store dq_mask_nonneg dq_items_store dq_items_last)

lemma thief_step_deque:
  assumes "thief_step d h = (d', h')" and "thief_ok d b h"
  shows "d' = d \<or> (d' = d\<lparr>dq_top := dq_top d + 1\<rparr> \<and> dq_top d < b)"
  using assms by (cases h) (auto split: if_splits)

lemma raise_top:
  assumes "owner_inv d p" and "dq_top d < logical_bottom d p"
  shows "owner_inv (d\<lparr>dq_top := dq_top d + 1\<rparr>) p"
    and "logical_bottom (d\<lparr>dq_top := dq_top d + 1\<rparr>) p = logical_bottom d p"
    and "owner_holds (d\<lparr>dq_top := dq_top d + 1\<rparr>) p = owner_holds d p"
  using assms unfolding owner_inv_def by (cases p; simp)+

lemma thief_step_inv:
  assumes "owner_inv d p" and "thief_step d h = (d', h')" and "thief_ok d (logical_bottom d p) h"
  shows "owner_inv d' p" and "logical_bottom d' p = logical_bottom d p"
    and "owner_holds d' p = owner_holds d p"
  using thief_step_deque [OF assms(2,3)] raise_top [OF assms(1)] assms(1) by auto

lemma thief_step_thieves:
  assumes "thief_step d h = (d', h')" and "thief_ok d b h"
  shows "thief_ok d b g \<Longrightarrow> thief_ok d' b g"
  using thief_step_deque [OF assms] by (cases g) auto

lemma bottom_le: "owner_inv d p \<Longrightarrow> dq_bottom d \<le> logical_bottom d p"
  by (cases p) (auto simp: owner_inv_def)

lemma thief_step_self:
  assumes "owner_inv d p" and "thief_step d h = (d', h')" and "thief_ok d (logical_bottom d p) h"
  shows "thief_ok d' (logical_bottom d p) h'"
  using assms bottom_le [OF assms(1)] by (cases h) (auto split: if_splits)

lemma thief_step_items:
  assumes "thief_step d h = (d', h')" and "thief_ok d b h" and "\<not> thief_idle h"
  shows "dq_items d b = thief_returns h' @ dq_items d' b"
  using assms by (cases h) (auto split: if_splits simp: dq_items_first)

definition wr_bottom :: "'a deque_run \<Rightarrow> int" where
  "wr_bottom s = logical_bottom (wr_deque s) (wr_owner s)"

definition wr_items :: "'a deque_run \<Rightarrow> 'a list" where
  "wr_items s = dq_items (wr_deque s) (wr_bottom s)"

definition wr_held :: "'a deque_run \<Rightarrow> 'a list" where
  "wr_held s = owner_holds (wr_deque s) (wr_owner s)"

definition deque_inv :: "'a deque_run \<Rightarrow> bool" where
  "deque_inv s \<longleftrightarrow> owner_inv (wr_deque s) (wr_owner s)
     \<and> (\<forall>i. thief_ok (wr_deque s) (wr_bottom s) (wr_thieves s i))
     \<and> wr_bottom s \<le> int (length (wr_pushed s))
     \<and> mset (wr_pushed s) = mset (wr_out s) + mset (wr_held s) + mset (wr_items s)"

lemmas wr_defs = wr_bottom_def wr_items_def wr_held_def deque_inv_def

lemma deque_new_wf:
  assumes "deque_new capacity x = Some d"
  shows "deque_wf d" and "dq_top d = 0" and "dq_bottom d = 0"
proof -
  obtain p where p: "round_pow2 capacity = Some p"
    and d: "d = \<lparr>dq_top = 0, dq_bottom = 0, dq_mask = uint p - 1, dq_buf = replicate (unat p) x\<rparr>"
    using assms by (auto simp: deque_new_def)
  obtain k where k: "unat p = 2 ^ k" using round_pow2_power [OF p] by blast
  have "uint p = int (unat p)" by simp
  with k have "uint p = 2 ^ k" by simp
  with d k show "deque_wf d" "dq_top d = 0" "dq_bottom d = 0" by (auto simp: deque_wf_def)
qed

lemma deque_inv_new: "deque_new capacity x = Some d \<Longrightarrow> deque_inv (deque_run_new d)"
  using dq_mask_nonneg [OF deque_new_wf(1)] by (fastforce simp: wr_defs deque_run_new_def owner_inv_def deque_new_wf)

lemma idle_owner:
  assumes "owner_idle p"
  shows "logical_bottom d p = dq_bottom d" and "owner_holds d p = []" and "owner_ok d p"
  using assms by (cases p; simp)+

lemma deque_inv_start:
  assumes "deque_inv s" and "owner_idle (wr_owner s)" and "p = Push_start x \<or> p = Take_start"
  shows "deque_inv (s\<lparr>wr_owner := p\<rparr>)" and "wr_items (s\<lparr>wr_owner := p\<rparr>) = wr_items s"
    and "wr_held (s\<lparr>wr_owner := p\<rparr>) = wr_held s"
  using assms idle_owner [OF assms(2)] by (auto simp: wr_defs owner_inv_def)

lemma deque_inv_owner:
  assumes "deque_inv s" and "\<not> owner_idle (wr_owner s)" and "owner_step (wr_deque s) (wr_owner s) = (d, p)"
  shows "deque_inv (s\<lparr>wr_deque := d, wr_owner := p, wr_pushed := wr_pushed s @ publishes (wr_owner s),
     wr_out := wr_out s @ returns p\<rparr>)"
proof -
  have oi: "owner_inv (wr_deque s) (wr_owner s)" using assms(1) by (simp add: deque_inv_def)
  show ?thesis
    using assms(1) owner_step_inv [OF oi assms(3)] owner_step_thief [OF oi assms(3)]
      owner_step_items [OF oi assms(3,2)]
    by (auto simp: wr_defs ac_simps)
qed

lemma deque_inv_thief:
  assumes "deque_inv s" and "\<not> thief_idle (wr_thieves s i)" and "thief_step (wr_deque s) (wr_thieves s i) = (d, h)"
  shows "deque_inv (s\<lparr>wr_deque := d, wr_thieves := (wr_thieves s)(i := h), wr_out := wr_out s @ thief_returns h\<rparr>)"
proof -
  have oi: "owner_inv (wr_deque s) (wr_owner s)" and tok: "\<And>j. thief_ok (wr_deque s) (wr_bottom s) (wr_thieves s j)"
    using assms(1) by (auto simp: deque_inv_def)
  show ?thesis
    using assms(1) thief_step_inv [OF oi assms(3), folded wr_bottom_def, OF tok] thief_step_thieves [OF assms(3) tok tok]
      thief_step_self [OF oi assms(3), folded wr_bottom_def, OF tok] thief_step_items [OF assms(3) tok assms(2)]
    by (auto simp: wr_defs)
qed

lemma deque_inv_step: "deque_step s s' \<Longrightarrow> deque_inv s \<Longrightarrow> deque_inv s'"
proof (induction rule: deque_step.induct)
  case (ws_steal s i)
  then show ?case by (auto simp: wr_defs)
qed (auto intro: deque_inv_start deque_inv_owner deque_inv_thief)

lemma deque_reach_inv: "deque_reach s \<Longrightarrow> deque_inv s"
  by (induction rule: deque_reach.induct) (auto intro: deque_inv_new deque_inv_step)

section \<open>Properties\<close>

text \<open>
  (C15) The work-stealing deque hands out every item exactly once. Under every interleaving of the
  owner's pushes and takes with any number of thieves, action by action: the accepted pushes are,
  as a multiset, the items already returned by a take or a steal, the item a take has won but not
  yet returned, and the items still in the deque.
\<close>

theorem deque_exactly_once:
  assumes "deque_reach s"
  shows "mset (wr_pushed s) = mset (wr_out s) + mset (owner_holds (wr_deque s) (wr_owner s))
     + mset (dq_items (wr_deque s) (logical_bottom (wr_deque s) (wr_owner s)))
    \<and> (owner_idle (wr_owner s) \<longrightarrow> mset (wr_pushed s) = mset (wr_out s) + mset (contents (wr_deque s)))"
  using deque_reach_inv [OF assms] idle_owner [of "wr_owner s" "wr_deque s"] by (auto simp: wr_defs contents_def)

text \<open>
  Refinement: the deque behaves as a double-ended list. Each action of the owner or of a thief
  either leaves the abstract list as it is, or appends the pushed item at the back, or removes the
  last item, which the owner's take then holds, or removes the first item, which the thief returns.
\<close>

theorem deque_refines_list:
  assumes "deque_reach s" and "deque_step s s'"
  shows "(wr_items s' = wr_items s \<and> wr_pushed s' = wr_pushed s)
    \<or> (\<exists>x. wr_items s' = wr_items s @ [x] \<and> wr_pushed s' = wr_pushed s @ [x])
    \<or> (\<exists>x. wr_items s = wr_items s' @ [x] \<and> wr_held s = [] \<and> wr_held s' = [x])
    \<or> (\<exists>x. wr_items s = x # wr_items s' \<and> wr_held s' = wr_held s \<and> wr_out s' = wr_out s @ [x])"
proof -
  have inv: "deque_inv s" by (rule deque_reach_inv [OF assms(1)])
  then have oi: "owner_inv (wr_deque s) (wr_owner s)" and tok: "\<And>i. thief_ok (wr_deque s) (wr_bottom s) (wr_thieves s i)"
    by (auto simp: deque_inv_def)
  from assms(2) show ?thesis
  proof cases
    case (ws_owner d p)
    with oi show ?thesis
      by (cases "wr_owner s") (auto simp: wr_defs owner_inv_def dq_items_last dq_items_store split: if_splits)
  next
    case (ws_thief i d h)
    with thief_step_inv(2,3) [OF oi ws_thief(3), folded wr_bottom_def, OF tok] thief_step_items [OF ws_thief(3) tok ws_thief(2)]
    show ?thesis by (cases h rule: thief_returns.cases) (auto simp: wr_defs)
  qed (auto simp: wr_defs idle_owner)
qed

text \<open>
  The deque stays within its array, and its two 64-bit counters do not overflow: a reachable
  deque never holds more items than it has cells, and both counters are between \<open>-1\<close> and the number
  of accepted pushes, so \<open>2\<^sup>63\<close> pushes would be needed to wrap one of them.
\<close>

theorem deque_bounded:
  assumes "deque_reach s"
  shows "length (wr_items s) \<le> length (dq_buf (wr_deque s))
    \<and> 0 \<le> dq_top (wr_deque s) \<and> dq_top (wr_deque s) \<le> int (length (wr_pushed s))
    \<and> -1 \<le> dq_bottom (wr_deque s) \<and> dq_bottom (wr_deque s) \<le> int (length (wr_pushed s))"
proof -
  have inv: "deque_inv s" by (rule deque_reach_inv [OF assms(1)])
  have cap: "int (length (dq_buf (wr_deque s))) = dq_mask (wr_deque s) + 1"
    using inv by (auto simp: deque_inv_def owner_inv_def deque_wf_def)
  have "wr_bottom s - 1 \<le> dq_bottom (wr_deque s)" "dq_bottom (wr_deque s) \<le> wr_bottom s"
    using inv by (cases "wr_owner s"; auto simp: wr_defs owner_inv_def)+
  with inv cap show ?thesis by (auto simp: deque_inv_def owner_inv_def wr_items_def wr_bottom_def)
qed

section \<open>Witnesses\<close>

text \<open>The owner pushes 7 into a deque of capacity 2, then takes while a thief steals it first.\<close>

definition demo_deque :: "nat deque_run" where
  "demo_deque = \<lparr>wr_deque = \<lparr>dq_top = 0, dq_bottom = 1, dq_mask = 1, dq_buf = [7, 0]\<rparr>,
     wr_owner = Push_result True, wr_thieves = (\<lambda>_. Steal_result None), wr_pushed = [7], wr_out = []\<rparr>"

definition demo_stealing :: "nat deque_run" where
  "demo_stealing = demo_deque\<lparr>wr_thieves := (\<lambda>_. Steal_result None)(0 := Steal_cell 0 7)\<rparr>"

definition demo_stolen :: "nat deque_run" where
  "demo_stolen = demo_stealing\<lparr>wr_deque := (wr_deque demo_stealing)\<lparr>dq_top := 1\<rparr>,
     wr_thieves := (wr_thieves demo_stealing)(0 := Steal_result (Some 7)), wr_out := [7]\<rparr>"

text \<open>One action of the owner or of a thief as a function, to run the model.\<close>

definition owner_next :: "'a deque_run \<Rightarrow> 'a deque_run" where
  "owner_next s = (if owner_idle (wr_owner s) then s else
     let (d, p) = owner_step (wr_deque s) (wr_owner s) in
       s\<lparr>wr_deque := d, wr_owner := p, wr_pushed := wr_pushed s @ publishes (wr_owner s), wr_out := wr_out s @ returns p\<rparr>)"

definition thief_next :: "nat \<Rightarrow> 'a deque_run \<Rightarrow> 'a deque_run" where
  "thief_next i s = (if thief_idle (wr_thieves s i) then s else
     let (d, h) = thief_step (wr_deque s) (wr_thieves s i) in
       s\<lparr>wr_deque := d, wr_thieves := (wr_thieves s)(i := h), wr_out := wr_out s @ thief_returns h\<rparr>)"

lemma owner_next_reach: "deque_reach s \<Longrightarrow> deque_reach (owner_next s)"
  by (auto simp: owner_next_def Let_def split: prod.splits intro: wr_step ws_owner)

lemma thief_next_reach: "deque_reach s \<Longrightarrow> deque_reach (thief_next i s)"
  by (auto simp: thief_next_def Let_def split: prod.splits intro: wr_step ws_thief)

lemma demo_capacity: "deque_new 2 (0::nat) = Some \<lparr>dq_top = 0, dq_bottom = 0, dq_mask = 1, dq_buf = [0, 0]\<rparr>"
proof -
  have "round_pow2 2 = Some 2"
    unfolding round_pow2_def by (subst round_pow2_loop.simps, simp, subst round_pow2_loop.simps, simp)
  moreover have "replicate 2 (0::nat) = [0, 0]" by (simp add: numeral_2_eq_2)
  ultimately show ?thesis by (simp add: deque_new_def)
qed

lemma demo_deque_reach: "deque_reach demo_deque"
proof -
  let ?d = "\<lparr>dq_top = 0, dq_bottom = 0, dq_mask = 1, dq_buf = [0, 0]\<rparr>"
  let ?s = "(deque_run_new ?d)\<lparr>wr_owner := Push_start (7::nat)\<rparr>"
  have "deque_reach ?s" by (rule wr_step [OF wr_start [OF demo_capacity] ws_push]) (simp add: deque_run_new_def)
  then have "deque_reach (owner_next (owner_next (owner_next (owner_next ?s))))" by (intro owner_next_reach)
  moreover have "owner_next (owner_next (owner_next (owner_next ?s))) = demo_deque"
    by (simp add: owner_next_def deque_run_new_def demo_deque_def dq_store_def slot_index_def)
  ultimately show ?thesis by simp
qed

lemma demo_stealing_reach: "deque_reach demo_stealing"
proof -
  let ?s = "demo_deque\<lparr>wr_thieves := (wr_thieves demo_deque)(0 := Steal_start)\<rparr>"
  have "deque_reach ?s" by (rule wr_step [OF demo_deque_reach ws_steal]) (simp add: demo_deque_def)
  then have "deque_reach (thief_next 0 (thief_next 0 (thief_next 0 ?s)))" by (intro thief_next_reach)
  moreover have "thief_next 0 (thief_next 0 (thief_next 0 ?s)) = demo_stealing"
    by (simp add: thief_next_def demo_deque_def demo_stealing_def dq_cell_def slot_index_def)
  ultimately show ?thesis by simp
qed

lemma demo_stealing_step: "deque_step demo_stealing demo_stolen"
proof -
  have "deque_step demo_stealing (demo_stealing\<lparr>wr_deque := (wr_deque demo_stealing)\<lparr>dq_top := 0 + 1\<rparr>,
      wr_thieves := (wr_thieves demo_stealing)(0 := Steal_result (Some 7)),
      wr_out := wr_out demo_stealing @ thief_returns (Steal_result (Some 7))\<rparr>)"
    by (rule ws_thief) (simp_all add: demo_stealing_def demo_deque_def)
  then show ?thesis by (simp add: demo_stolen_def demo_stealing_def demo_deque_def)
qed

theorem deque_exactly_once_witness: "mset [7::nat] = mset (wr_out demo_deque) + mset (contents (wr_deque demo_deque))"
  using deque_exactly_once [OF demo_deque_reach] by (simp add: demo_deque_def)

theorem deque_refines_list_witness:
  "wr_items demo_stealing = 7 # wr_items demo_stolen \<and> wr_out demo_stolen = wr_out demo_stealing @ [7]"
  using deque_refines_list [OF demo_stealing_reach demo_stealing_step]
  by (auto simp: wr_defs demo_stolen_def demo_stealing_def demo_deque_def dq_items_def dq_cell_def slot_index_def)

theorem deque_bounded_witness: "length (wr_items demo_deque) \<le> 2 \<and> dq_bottom (wr_deque demo_deque) \<le> 1"
  using deque_bounded [OF demo_deque_reach] by (simp add: demo_deque_def)

end
