(* ===== verification/Mpmc_Queue.thy ===== *)
theory Mpmc_Queue
  imports Ring_Capacity Work_Pool
begin

text \<open>
  The bounded multi-producer multi-consumer ring with its mutex-guarded overflow
  (include/ts/detail/mpmc_queue.h). Every access to an atomic, every move of an item into or out of a cell and
  every critical section of \<^verbatim>\<open>overflow_mutex_\<close> is one action; the actions of all producers and consumers
  interleave freely. Positions are integers; the ring counts one per push, so the 64-bit
  counters would need \<open>2\<^sup>63\<close> pushes to leave the range where \<^verbatim>\<open>diff\<close> is exact.
\<close>

section \<open>The queue and its atomic actions\<close>

record 'a mpmc =
  mq_enq :: int
  mq_deq :: int
  mq_mask :: int
  mq_seq :: "int list"
  mq_data :: "'a list"
  mq_overflow :: "'a list"
  mq_count :: nat

definition mpmc_new :: "64 word \<Rightarrow> 'a \<Rightarrow> 'a mpmc option" where
  "mpmc_new capacity x =
     map_option (\<lambda>p. \<lparr>mq_enq = 0, mq_deq = 0, mq_mask = uint p - 1, mq_seq = map int [0..<unat p],
       mq_data = replicate (unat p) x, mq_overflow = [], mq_count = 0\<rparr>) (round_pow2 capacity)"

definition seq_at :: "'a mpmc \<Rightarrow> int \<Rightarrow> int" where
  "seq_at q p = mq_seq q ! slot_index (mq_mask q) p"

definition data_at :: "'a mpmc \<Rightarrow> int \<Rightarrow> 'a" where
  "data_at q p = mq_data q ! slot_index (mq_mask q) p"

definition store_seq :: "'a mpmc \<Rightarrow> int \<Rightarrow> int \<Rightarrow> 'a mpmc" where
  "store_seq q p v = q\<lparr>mq_seq := (mq_seq q)[slot_index (mq_mask q) p := v]\<rparr>"

definition store_data :: "'a mpmc \<Rightarrow> int \<Rightarrow> 'a \<Rightarrow> 'a mpmc" where
  "store_data q p x = q\<lparr>mq_data := (mq_data q)[slot_index (mq_mask q) p := x]\<rparr>"

text \<open>
  Where a producer is inside \<^verbatim>\<open>push\<close>: position loaded, sequence loaded, position claimed, item stored,
  or ring full. The compare-and-swap is weak: \<open>fails\<close> lets it fail spuriously.
\<close>

datatype 'a producer =
    Enq_start 'a
  | Enq_pos 'a int
  | Enq_seq 'a int int
  | Enq_claimed 'a int
  | Enq_written 'a int
  | Enq_full 'a
  | Enq_done

fun enq_step :: "bool \<Rightarrow> 'a mpmc \<Rightarrow> 'a producer \<Rightarrow> 'a mpmc \<times> 'a producer" where
  "enq_step fails q (Enq_start x) = (q, Enq_pos x (mq_enq q))"
| "enq_step fails q (Enq_pos x p) = (q, Enq_seq x p (seq_at q p))"
| "enq_step fails q (Enq_seq x p v) =
     (if v - p = 0 then
        (if mq_enq q = p \<and> \<not> fails then (q\<lparr>mq_enq := p + 1\<rparr>, Enq_claimed x p) else (q, Enq_pos x (mq_enq q)))
      else if v - p < 0 then (q, Enq_full x)
      else (q, Enq_pos x (mq_enq q)))"
| "enq_step fails q (Enq_claimed x p) = (store_data q p x, Enq_written x p)"
| "enq_step fails q (Enq_written x p) = (store_seq q p (p + 1), Enq_done)"
| "enq_step fails q (Enq_full x) = (q\<lparr>mq_overflow := mq_overflow q @ [x], mq_count := mq_count q + 1\<rparr>, Enq_done)"
| "enq_step fails q Enq_done = (q, Enq_done)"

text \<open>Where a consumer is inside \<^verbatim>\<open>pop\<close>: \<open>Deq_ring_empty\<close> is about to read the overflow count, \<open>Deq_locking\<close> about to lock.\<close>

datatype 'a consumer =
    Deq_start
  | Deq_pos int
  | Deq_seq int int
  | Deq_claimed int
  | Deq_read int 'a
  | Deq_ring_empty
  | Deq_locking
  | Deq_done "'a option"

fun deq_step :: "bool \<Rightarrow> 'a mpmc \<Rightarrow> 'a consumer \<Rightarrow> 'a mpmc \<times> 'a consumer" where
  "deq_step fails q Deq_start = (q, Deq_pos (mq_deq q))"
| "deq_step fails q (Deq_pos p) = (q, Deq_seq p (seq_at q p))"
| "deq_step fails q (Deq_seq p v) =
     (if v - (p + 1) = 0 then
        (if mq_deq q = p \<and> \<not> fails then (q\<lparr>mq_deq := p + 1\<rparr>, Deq_claimed p) else (q, Deq_pos (mq_deq q)))
      else if v - (p + 1) < 0 then (q, Deq_ring_empty)
      else (q, Deq_pos (mq_deq q)))"
| "deq_step fails q (Deq_claimed p) = (q, Deq_read p (data_at q p))"
| "deq_step fails q (Deq_read p x) = (store_seq q p (p + mq_mask q + 1), Deq_done (Some x))"
| "deq_step fails q Deq_ring_empty = (if mq_count q = 0 then (q, Deq_done None) else (q, Deq_locking))"
| "deq_step fails q Deq_locking =
     (case mq_overflow q of
        [] \<Rightarrow> (q, Deq_done None)
      | x # xs \<Rightarrow> (q\<lparr>mq_overflow := xs, mq_count := mq_count q - 1\<rparr>, Deq_done (Some x)))"
| "deq_step fails q (Deq_done r) = (q, Deq_done r)"

definition mpmc_empty :: "'a mpmc \<Rightarrow> bool" where
  "mpmc_empty q \<longleftrightarrow> mq_count q = 0 \<and> mq_deq q = mq_enq q"

section \<open>Cells\<close>

definition mpmc_wf :: "'a mpmc \<Rightarrow> bool" where
  "mpmc_wf q \<longleftrightarrow> (\<exists>k. mq_mask q = 2 ^ k - 1 \<and> length (mq_seq q) = 2 ^ k \<and> length (mq_data q) = 2 ^ k)"

abbreviation same_cell :: "'a mpmc \<Rightarrow> int \<Rightarrow> int \<Rightarrow> bool" where
  "same_cell q i j \<equiv> slot_index (mq_mask q) i = slot_index (mq_mask q) j"

lemma slot_in_range:
  assumes "mpmc_wf q"
  shows "slot_index (mq_mask q) p < length (mq_seq q)" and "slot_index (mq_mask q) p < length (mq_data q)"
  using assms slot_index_less by (auto simp: mpmc_wf_def)

lemma store_seq_at: "mpmc_wf q \<Longrightarrow> seq_at (store_seq q p v) i = (if same_cell q i p then v else seq_at q i)"
  by (simp add: seq_at_def store_seq_def nth_list_update slot_in_range)

lemma store_data_at: "mpmc_wf q \<Longrightarrow> data_at (store_data q p x) i = (if same_cell q i p then x else data_at q i)"
  by (simp add: data_at_def store_data_def nth_list_update slot_in_range)

lemma store_simps [simp]:
  "data_at (store_seq q p v) = data_at q" "seq_at (store_data q p x) = seq_at q"
  "mq_enq (store_seq q p v) = mq_enq q" "mq_deq (store_seq q p v) = mq_deq q" "mq_mask (store_seq q p v) = mq_mask q"
  "mq_enq (store_data q p x) = mq_enq q" "mq_deq (store_data q p x) = mq_deq q" "mq_mask (store_data q p x) = mq_mask q"
  "mq_overflow (store_seq q p v) = mq_overflow q" "mq_count (store_seq q p v) = mq_count q"
  "mq_overflow (store_data q p x) = mq_overflow q" "mq_count (store_data q p x) = mq_count q"
  by (simp_all add: store_seq_def store_data_def data_at_def seq_at_def fun_eq_iff)

lemma mpmc_at_simps [simp]:
  "seq_at (q\<lparr>mq_enq := e\<rparr>) = seq_at q" "seq_at (q\<lparr>mq_deq := e\<rparr>) = seq_at q"
  "data_at (q\<lparr>mq_enq := e\<rparr>) = data_at q" "data_at (q\<lparr>mq_deq := e\<rparr>) = data_at q"
  "seq_at (q\<lparr>mq_overflow := xs, mq_count := c\<rparr>) = seq_at q" "data_at (q\<lparr>mq_overflow := xs, mq_count := c\<rparr>) = data_at q"
  by (simp_all add: seq_at_def data_at_def fun_eq_iff)

lemma mpmc_wf_simps [simp]:
  "mpmc_wf (q\<lparr>mq_enq := e\<rparr>) = mpmc_wf q" "mpmc_wf (q\<lparr>mq_deq := e\<rparr>) = mpmc_wf q"
  "mpmc_wf (q\<lparr>mq_overflow := xs, mq_count := c\<rparr>) = mpmc_wf q"
  "mpmc_wf (store_seq q p v) = mpmc_wf q" "mpmc_wf (store_data q p x) = mpmc_wf q"
  by (simp_all add: mpmc_wf_def store_seq_def store_data_def)

text \<open>Positions that share a cell are whole laps apart.\<close>

lemma same_cell_lap:
  assumes "mpmc_wf q" and "same_cell q i j" and "i < j"
  obtains m where "j = i + int m * (mq_mask q + 1)" and "0 < m"
proof -
  from assms(1) obtain k where k: "mq_mask q = 2 ^ k - 1" by (auto simp: mpmc_wf_def)
  have "i mod 2 ^ k = j mod 2 ^ k"
    using assms(2) unfolding k slot_index_mod by (metis nat_eq_iff pos_mod_sign zero_less_numeral zero_less_power)
  then have "2 ^ k dvd j - i" by (metis mod_eq_dvd_iff)
  then obtain c where c: "j - i = 2 ^ k * c" by (elim dvdE)
  then have "0 < c" using assms(3) by (metis diff_gt_0_iff_gt zero_less_mult_pos zero_less_numeral zero_less_power)
  then show ?thesis using that [of "nat c"] c k by (simp add: algebra_simps)
qed

lemma same_cell_next: "mpmc_wf q \<Longrightarrow> same_cell q (p + (mq_mask q + 1)) p"
  by (auto simp: mpmc_wf_def slot_index_mod)

section \<open>Producers and consumers interleaved\<close>

text \<open>
  The last five fields are bookkeeping: what became of each position, the ring items in the order
  their positions were claimed, the ring items returned with their positions, and the items that went
  into and came out of the overflow.
\<close>

datatype phase = Fresh | Claimed | Published | Taking | Done

record 'a mpmc_run =
  mr_queue :: "'a mpmc"
  mr_prod :: "nat \<Rightarrow> 'a producer"
  mr_cons :: "nat \<Rightarrow> 'a consumer"
  mr_phase :: "int \<Rightarrow> phase"
  mr_log :: "'a list"
  mr_out :: "(int \<times> 'a) list"
  mr_spilled :: "'a list"
  mr_unspilled :: "'a list"

definition mpmc_run_new :: "'a mpmc \<Rightarrow> 'a mpmc_run" where
  "mpmc_run_new q = \<lparr>mr_queue = q, mr_prod = (\<lambda>_. Enq_done), mr_cons = (\<lambda>_. Deq_done None),
     mr_phase = (\<lambda>_. Fresh), mr_log = [], mr_out = [], mr_spilled = [], mr_unspilled = []\<rparr>"

text \<open>The bookkeeping of one action, by the state its thread reaches.\<close>

fun note_enq :: "'a producer \<Rightarrow> 'a producer \<Rightarrow> 'a mpmc_run \<Rightarrow> 'a mpmc_run" where
  "note_enq (Enq_seq x p v) (Enq_claimed y r) s = s\<lparr>mr_phase := (mr_phase s)(p := Claimed), mr_log := mr_log s @ [x]\<rparr>"
| "note_enq (Enq_written x p) Enq_done s = s\<lparr>mr_phase := (mr_phase s)(p := Published)\<rparr>"
| "note_enq (Enq_full x) Enq_done s = s\<lparr>mr_spilled := mr_spilled s @ [x]\<rparr>"
| "note_enq _ _ s = s"

fun note_deq :: "'a consumer \<Rightarrow> 'a consumer \<Rightarrow> 'a mpmc_run \<Rightarrow> 'a mpmc_run" where
  "note_deq (Deq_seq p v) (Deq_claimed r) s = s\<lparr>mr_phase := (mr_phase s)(p := Taking)\<rparr>"
| "note_deq (Deq_read p x) (Deq_done r) s = s\<lparr>mr_phase := (mr_phase s)(p := Done), mr_out := mr_out s @ [(p, x)]\<rparr>"
| "note_deq Deq_locking (Deq_done (Some x)) s = s\<lparr>mr_unspilled := mr_unspilled s @ [x]\<rparr>"
| "note_deq _ _ s = s"

fun cons_idle :: "'a consumer \<Rightarrow> bool" where
  "cons_idle (Deq_done r) = True"
| "cons_idle _ = False"

inductive mpmc_step :: "'a mpmc_run \<Rightarrow> 'a mpmc_run \<Rightarrow> bool" where
  mq_push: "mr_prod s i = Enq_done \<Longrightarrow> mpmc_step s (s\<lparr>mr_prod := (mr_prod s)(i := Enq_start x)\<rparr>)"
| mq_enq: "mr_prod s i \<noteq> Enq_done \<Longrightarrow> enq_step fails (mr_queue s) (mr_prod s i) = (q, p) \<Longrightarrow>
     mpmc_step s (note_enq (mr_prod s i) p (s\<lparr>mr_queue := q, mr_prod := (mr_prod s)(i := p)\<rparr>))"
| mq_pop: "cons_idle (mr_cons s i) \<Longrightarrow> mpmc_step s (s\<lparr>mr_cons := (mr_cons s)(i := Deq_start)\<rparr>)"
| mq_deq: "\<not> cons_idle (mr_cons s i) \<Longrightarrow> deq_step fails (mr_queue s) (mr_cons s i) = (q, c) \<Longrightarrow>
     mpmc_step s (note_deq (mr_cons s i) c (s\<lparr>mr_queue := q, mr_cons := (mr_cons s)(i := c)\<rparr>))"

text \<open>The ring is started with room for at least two items (see \<open>mpmc_capacity_one_stuck\<close> below).\<close>

inductive mpmc_reach :: "'a mpmc_run \<Rightarrow> bool" where
  mr_start: "mpmc_new capacity x = Some q \<Longrightarrow> 1 < capacity \<Longrightarrow> mpmc_reach (mpmc_run_new q)"
| mr_step: "mpmc_reach s \<Longrightarrow> mpmc_step s s' \<Longrightarrow> mpmc_reach s'"

section \<open>The invariant\<close>

definition phases_ok :: "'a mpmc \<Rightarrow> (int \<Rightarrow> phase) \<Rightarrow> bool" where
  "phases_ok q f \<longleftrightarrow> 0 \<le> mq_deq q \<and> mq_deq q \<le> mq_enq q
     \<and> (\<forall>p \<ge> 0. (f p = Fresh \<longleftrightarrow> mq_enq q \<le> p) \<and> (f p \<in> {Taking, Done} \<longleftrightarrow> p < mq_deq q))
     \<and> (\<forall>p \<ge> mq_mask q + 1. f p \<noteq> Fresh \<longrightarrow> f (p - (mq_mask q + 1)) = Done)"

definition cell_ok :: "'a mpmc \<Rightarrow> (int \<Rightarrow> phase) \<Rightarrow> 'a list \<Rightarrow> int \<Rightarrow> bool" where
  "cell_ok q f log p \<longleftrightarrow>
     (case f p of
        Fresh \<Rightarrow> p < mq_mask q + 1 \<longrightarrow> seq_at q p = p
      | Claimed \<Rightarrow> seq_at q p = p
      | Done \<Rightarrow> f (p + (mq_mask q + 1)) = Fresh \<longrightarrow> seq_at q p = p + (mq_mask q + 1)
      | _ \<Rightarrow> seq_at q p = p + 1 \<and> data_at q p = log ! nat p)"

fun prod_at :: "'a producer \<Rightarrow> int option" where
  "prod_at (Enq_claimed x p) = Some p"
| "prod_at (Enq_written x p) = Some p"
| "prod_at _ = None"

fun cons_at :: "'a consumer \<Rightarrow> int option" where
  "cons_at (Deq_claimed p) = Some p"
| "cons_at (Deq_read p x) = Some p"
| "cons_at _ = None"

fun prod_ok :: "'a mpmc \<Rightarrow> (int \<Rightarrow> phase) \<Rightarrow> 'a list \<Rightarrow> 'a producer \<Rightarrow> bool" where
  "prod_ok q f log (Enq_pos x p) \<longleftrightarrow> 0 \<le> p \<and> p \<le> mq_enq q"
| "prod_ok q f log (Enq_seq x p v) \<longleftrightarrow> 0 \<le> p \<and> p \<le> mq_enq q \<and>
     (v = p \<longrightarrow> p < mq_mask q + 1 \<or> f (p - (mq_mask q + 1)) = Done)"
| "prod_ok q f log (Enq_claimed x p) \<longleftrightarrow> 0 \<le> p \<and> f p = Claimed \<and> log ! nat p = x"
| "prod_ok q f log (Enq_written x p) \<longleftrightarrow> 0 \<le> p \<and> f p = Claimed \<and> log ! nat p = x \<and> data_at q p = x"
| "prod_ok q f log _ \<longleftrightarrow> True"

fun cons_ok :: "'a mpmc \<Rightarrow> (int \<Rightarrow> phase) \<Rightarrow> 'a list \<Rightarrow> 'a consumer \<Rightarrow> bool" where
  "cons_ok q f log (Deq_pos p) \<longleftrightarrow> 0 \<le> p \<and> p \<le> mq_deq q"
| "cons_ok q f log (Deq_seq p v) \<longleftrightarrow> 0 \<le> p \<and> p \<le> mq_deq q \<and> (v = p + 1 \<longrightarrow> f p \<notin> {Fresh, Claimed})"
| "cons_ok q f log (Deq_claimed p) \<longleftrightarrow> 0 \<le> p \<and> f p = Taking"
| "cons_ok q f log (Deq_read p x) \<longleftrightarrow> 0 \<le> p \<and> f p = Taking \<and> log ! nat p = x"
| "cons_ok q f log _ \<longleftrightarrow> True"

definition ring_inv :: "'a mpmc \<Rightarrow> (int \<Rightarrow> phase) \<Rightarrow> 'a list \<Rightarrow> bool" where
  "ring_inv q f log \<longleftrightarrow> mpmc_wf q \<and> 1 \<le> mq_mask q \<and> mq_enq q = int (length log) \<and> phases_ok q f
     \<and> (\<forall>p \<ge> 0. cell_ok q f log p)"

definition threads_ok :: "'a mpmc_run \<Rightarrow> bool" where
  "threads_ok s \<longleftrightarrow> ring_inv (mr_queue s) (mr_phase s) (mr_log s) \<and> (\<forall>i. prod_ok (mr_queue s) (mr_phase s) (mr_log s) (mr_prod s i))
     \<and> (\<forall>i. cons_ok (mr_queue s) (mr_phase s) (mr_log s) (mr_cons s i))
     \<and> (\<forall>i j p. prod_at (mr_prod s i) = Some p \<longrightarrow> prod_at (mr_prod s j) = Some p \<longrightarrow> i = j)
     \<and> (\<forall>i j p. cons_at (mr_cons s i) = Some p \<longrightarrow> cons_at (mr_cons s j) = Some p \<longrightarrow> i = j)"

definition books_ok :: "'a mpmc_run \<Rightarrow> bool" where
  "books_ok s \<longleftrightarrow> distinct (map fst (mr_out s)) \<and> fst ` set (mr_out s) = {p. 0 \<le> p \<and> mr_phase s p = Done}
     \<and> (\<forall>(p, x) \<in> set (mr_out s). x = mr_log s ! nat p)
     \<and> (\<forall>p \<ge> 0. mr_phase s p = Taking \<longrightarrow> (\<exists>i. cons_at (mr_cons s i) = Some p))
     \<and> mr_unspilled s @ mq_overflow (mr_queue s) = mr_spilled s
     \<and> mq_count (mr_queue s) = length (mq_overflow (mr_queue s))"

subsection \<open>One active position per cell\<close>

lemma earlier_laps_done:
  assumes "phases_ok q f" and "0 \<le> p" and "f (p + int m * (mq_mask q + 1)) \<noteq> Fresh" and "0 < m" and "0 \<le> mq_mask q"
  shows "f p = Done"
  using assms(3,4)
proof (induction m)
  case (Suc m)
  have "p + int (Suc m) * (mq_mask q + 1) - (mq_mask q + 1) = p + int m * (mq_mask q + 1)" by (simp add: algebra_simps)
  moreover have "mq_mask q + 1 \<le> p + int (Suc m) * (mq_mask q + 1)" using assms(2,5) by (simp add: algebra_simps)
  ultimately have prev: "f (p + int m * (mq_mask q + 1)) = Done"
    using assms(1) Suc.prems(1) unfolding phases_ok_def by metis
  then show ?case using Suc.IH by (cases m) auto
qed simp

text \<open>Beside an active position, no other position constrains its cell.\<close>

definition active :: "phase \<Rightarrow> bool" where
  "active a \<longleftrightarrow> a \<in> {Claimed, Published, Taking}"

lemma active_alone:
  assumes "phases_ok q f" and "mpmc_wf q" and "0 \<le> mq_mask q" and "0 \<le> p" and "active (f p)"
    and "0 \<le> r" and "same_cell q r p" and "r \<noteq> p"
  shows "(f r = Fresh \<and> mq_mask q + 1 \<le> r) \<or> (f r = Done \<and> f (r + (mq_mask q + 1)) \<noteq> Fresh)"
proof (cases "r < p")
  case True
  then obtain m where m: "p = r + int m * (mq_mask q + 1)" "0 < m" using same_cell_lap [OF assms(2,7)] by blast
  have "f p \<noteq> Fresh" using assms(5) by (auto simp: active_def)
  then have "f r = Done" using earlier_laps_done [OF assms(1,6) _ m(2) assms(3)] m(1) by simp
  moreover have "f (r + (mq_mask q + 1)) \<noteq> Fresh"
  proof -
    have "1 * (mq_mask q + 1) \<le> int m * (mq_mask q + 1)" using m(2) assms(3) by (intro mult_right_mono) auto
    then have "r + (mq_mask q + 1) \<le> p" using m(1) by simp
    moreover have "p < mq_enq q" using assms(1,4) \<open>f p \<noteq> Fresh\<close> unfolding phases_ok_def by (metis linorder_not_less)
    ultimately show ?thesis using assms(1,3,6) unfolding phases_ok_def by (metis add_nonneg_nonneg linorder_not_less order.strict_trans1 zle_add1_eq_le zless_add1_eq)
  qed
  ultimately show ?thesis by simp
next
  case False
  then have "p < r" using assms(8) by simp
  then obtain m where m: "r = p + int m * (mq_mask q + 1)" "0 < m" using same_cell_lap [OF assms(2), of p r] assms(7) by metis
  have "f r = Fresh"
  proof (rule ccontr)
    assume "f r \<noteq> Fresh"
    then have "f p = Done" using earlier_laps_done [OF assms(1,4) _ m(2) assms(3)] m(1) by simp
    with assms(5) show False by (simp add: active_def)
  qed
  moreover have "1 * (mq_mask q + 1) \<le> int m * (mq_mask q + 1)" using m(2) assms(3) by (intro mult_right_mono) auto
  then have "mq_mask q + 1 \<le> r" using m(1) assms(4) by simp
  ultimately show ?thesis by simp
qed


lemma ring_invD:
  assumes "ring_inv q f log"
  shows "mpmc_wf q" and "1 \<le> mq_mask q" and "0 \<le> mq_mask q" and "mq_enq q = int (length log)" and "phases_ok q f"
    and "\<And>p. 0 \<le> p \<Longrightarrow> cell_ok q f log p"
  using assms by (auto simp: ring_inv_def)

lemma phasesD:
  assumes "phases_ok q f"
  shows "0 \<le> mq_deq q" and "mq_deq q \<le> mq_enq q"
    and "\<And>p. 0 \<le> p \<Longrightarrow> f p = Fresh \<longleftrightarrow> mq_enq q \<le> p"
    and "\<And>p. 0 \<le> p \<Longrightarrow> f p = Taking \<or> f p = Done \<longleftrightarrow> p < mq_deq q"
    and "\<And>p. mq_mask q + 1 \<le> p \<Longrightarrow> f p \<noteq> Fresh \<Longrightarrow> f (p - (mq_mask q + 1)) = Done"
  using assms unfolding phases_ok_def by auto

subsection \<open>The six effects on the ring\<close>

text \<open>Claiming the next position, once the previous lap's item in its cell is gone.\<close>

lemma claim_ring:
  assumes inv: "ring_inv q f log" and free: "mq_enq q < mq_mask q + 1 \<or> f (mq_enq q - (mq_mask q + 1)) = Done"
  shows "ring_inv (q\<lparr>mq_enq := mq_enq q + 1\<rparr>) (f(mq_enq q := Claimed)) (log @ [x])"
proof -
  let ?e = "mq_enq q" and ?n = "mq_mask q + 1"
  let ?f = "f(?e := Claimed)"
  note D = ring_invD [OF inv] and P = phasesD [OF ring_invD(5) [OF inv]]
  have e0: "0 \<le> ?e" using P by linarith
  have fe: "f ?e = Fresh" using P(3) [OF e0] by simp
  have seq: "seq_at q ?e = ?e"
  proof (cases "?e < ?n")
    case True
    with D(6) [OF e0] fe show ?thesis by (simp add: cell_ok_def)
  next
    case False
    then have "0 \<le> ?e - ?n" by simp
    with D(6) [OF this] free fe False have "seq_at q (?e - ?n) = ?e" by (simp add: cell_ok_def)
    then show ?thesis using same_cell_next [OF D(1), of "?e - ?n"] by (simp add: seq_at_def)
  qed
  have "phases_ok (q\<lparr>mq_enq := ?e + 1\<rparr>) ?f"
    unfolding phases_ok_def using P D(2) free fe e0 by (auto; smt (verit))
  moreover have "cell_ok (q\<lparr>mq_enq := ?e + 1\<rparr>) ?f (log @ [x]) p" if "0 \<le> p" for p
  proof (cases "p = ?e")
    case True
    with seq show ?thesis by (simp add: cell_ok_def)
  next
    case False
    have "f p \<noteq> Fresh \<Longrightarrow> nat p < length log" using P(3) [OF that] D(4) that by linarith
    with D(6) [OF that] False show ?thesis by (auto simp: cell_ok_def nth_append split: phase.splits)
  qed
  ultimately show ?thesis using D by (simp add: ring_inv_def)
qed

text \<open>An action that only touches the cell of an active position \<open>p\<close> and moves its phase on.\<close>

lemma cell_others:
  assumes inv: "ring_inv q f log" and "0 \<le> p" and "active (f p)" and "a \<noteq> Fresh"
    and same: "\<And>i. \<not> same_cell q i p \<Longrightarrow> seq_at q' i = seq_at q i \<and> data_at q' i = data_at q i"
    and "mq_mask q' = mq_mask q" and "0 \<le> r" and "r \<noteq> p"
  shows "cell_ok q' (f(p := a)) log r"
proof (cases "same_cell q r p")
  case True
  note D = ring_invD [OF inv]
  from active_alone [OF D(5,1,3) assms(2,3,7) True assms(8)] assms(4,6,8) show ?thesis
    by (auto simp: cell_ok_def)
next
  case False
  moreover have "f (r + (mq_mask q + 1)) = Fresh" if "(f(p := a)) (r + (mq_mask q + 1)) = Fresh"
    using that assms(4) by (auto split: if_splits)
  ultimately show ?thesis
    using same [OF False] ring_invD(6) [OF inv assms(7)] assms(6,8) by (auto simp: cell_ok_def split: phase.splits)
qed

lemma phase_step:
  assumes "phases_ok q f" and "0 \<le> p" and "f p \<noteq> Fresh" and "f p \<noteq> Done" and "a \<noteq> Fresh"
    and "a = Taking \<or> a = Done \<longleftrightarrow> f p = Taking"
  shows "phases_ok q (f(p := a))"
  using assms unfolding phases_ok_def by (auto simp: fun_upd_def; metis)

lemma write_ring:
  assumes inv: "ring_inv q f log" and "0 \<le> p" and "f p = Claimed"
  shows "ring_inv (store_data q p x) f log"
proof -
  note D = ring_invD [OF inv]
  have eq: "f(p := Claimed) = f" using assms(3) by auto
  have "cell_ok (store_data q p x) f log r" if "0 \<le> r" "r \<noteq> p" for r
    using cell_others [OF inv assms(2), of Claimed "store_data q p x" r] assms(3) that D(1)
    by (simp add: active_def eq store_data_at)
  moreover have "cell_ok (store_data q p x) f log p" using D(6) [OF assms(2)] assms(3) by (simp add: cell_ok_def)
  ultimately have "\<forall>r \<ge> 0. cell_ok (store_data q p x) f log r" by metis
  moreover have "phases_ok (store_data q p x) f" using D(5) by (simp add: phases_ok_def)
  ultimately show ?thesis using D by (simp add: ring_inv_def)
qed

lemma publish_ring:
  assumes inv: "ring_inv q f log" and "0 \<le> p" and "f p = Claimed" and "data_at q p = log ! nat p"
  shows "ring_inv (store_seq q p (p + 1)) (f(p := Published)) log"
proof -
  note D = ring_invD [OF inv]
  have "cell_ok (store_seq q p (p + 1)) (f(p := Published)) log r" if "0 \<le> r" "r \<noteq> p" for r
    using cell_others [OF inv assms(2), of Published "store_seq q p (p + 1)" r] assms(3) that D(1)
    by (simp add: active_def store_seq_at)
  moreover have "cell_ok (store_seq q p (p + 1)) (f(p := Published)) log p"
    using assms(4) D(1) by (simp add: cell_ok_def store_seq_at)
  ultimately have "\<forall>r \<ge> 0. cell_ok (store_seq q p (p + 1)) (f(p := Published)) log r" by metis
  moreover have "phases_ok (store_seq q p (p + 1)) (f(p := Published))"
    using phase_step [OF D(5) assms(2), of Published] assms(3) by (simp add: phases_ok_def)
  ultimately show ?thesis using D by (simp add: ring_inv_def)
qed

lemma take_ring:
  assumes inv: "ring_inv q f log" and pub: "f (mq_deq q) \<notin> {Fresh, Claimed}"
  shows "ring_inv (q\<lparr>mq_deq := mq_deq q + 1\<rparr>) (f(mq_deq q := Taking)) log" and "f (mq_deq q) = Published"
proof -
  note D = ring_invD [OF inv] and P = phasesD [OF ring_invD(5) [OF inv]]
  let ?d = "mq_deq q" and ?q = "q\<lparr>mq_deq := mq_deq q + 1\<rparr>"
  show fd: "f ?d = Published" using pub P(4) [OF P(1)] by (cases "f ?d") auto
  have "cell_ok ?q (f(?d := Taking)) log r" if "0 \<le> r" "r \<noteq> ?d" for r
    using cell_others [OF inv P(1), of Taking ?q r] fd that by (simp add: active_def)
  moreover have "cell_ok ?q (f(?d := Taking)) log ?d" using D(6) [OF P(1)] fd by (simp add: cell_ok_def)
  ultimately have "\<forall>r \<ge> 0. cell_ok ?q (f(?d := Taking)) log r" by metis
  moreover have "phases_ok ?q (f(?d := Taking))"
  proof -
    have "?d < mq_enq q" using P(3) [OF P(1)] fd by (metis linorder_not_less phase.distinct(3))
    with P fd show ?thesis unfolding phases_ok_def by (auto; smt (verit))
  qed
  ultimately show "ring_inv ?q (f(?d := Taking)) log" using D by (simp add: ring_inv_def)
qed

lemma finish_ring:
  assumes inv: "ring_inv q f log" and "0 \<le> p" and "f p = Taking"
  shows "ring_inv (store_seq q p (p + (mq_mask q + 1))) (f(p := Done)) log"
proof -
  note D = ring_invD [OF inv]
  let ?q = "store_seq q p (p + (mq_mask q + 1))"
  have "cell_ok ?q (f(p := Done)) log r" if "0 \<le> r" "r \<noteq> p" for r
    using cell_others [OF inv assms(2), of Done ?q r] assms(3) that D(1) by (simp add: active_def store_seq_at)
  moreover have "cell_ok ?q (f(p := Done)) log p" using D(1) by (simp add: cell_ok_def store_seq_at)
  ultimately have "\<forall>r \<ge> 0. cell_ok ?q (f(p := Done)) log r" by metis
  moreover have "phases_ok ?q (f(p := Done))"
    using phase_step [OF D(5) assms(2), of Done] assms(3) by (simp add: phases_ok_def)
  ultimately show ?thesis using D by (simp add: ring_inv_def)
qed

subsection \<open>What a load of a sequence tells\<close>

lemma enq_load:
  assumes inv: "ring_inv q f log" and "0 \<le> p" and "p \<le> mq_enq q" and "seq_at q p = p"
  shows "p < mq_mask q + 1 \<or> f (p - (mq_mask q + 1)) = Done"
proof (rule ccontr)
  let ?r = "p - (mq_mask q + 1)"
  assume "\<not> ?thesis"
  then have r: "0 \<le> ?r" "f ?r \<noteq> Done" by auto
  note D = ring_invD [OF inv] and P = phasesD [OF ring_invD(5) [OF inv]]
  have "f ?r \<noteq> Fresh" using P(3) [OF r(1)] assms(3) D(2) by simp
  moreover have "seq_at q ?r = p" using assms(4) same_cell_next [OF D(1), of ?r] by (simp add: seq_at_def)
  ultimately show False using D(6) [OF r(1)] D(2) r(2) by (auto simp: cell_ok_def split: phase.splits)
qed

lemma deq_load:
  assumes inv: "ring_inv q f log" and "0 \<le> p" and "p \<le> mq_deq q" and "seq_at q p = p + 1"
  shows "f p \<noteq> Fresh \<and> f p \<noteq> Claimed"
proof -
  let ?r = "p - (mq_mask q + 1)"
  note D = ring_invD [OF inv] and P = phasesD [OF ring_invD(5) [OF inv]]
  have False if fp: "f p = Fresh"
  proof (cases "0 \<le> ?r")
    case True
    have "f ?r \<noteq> Fresh" using P(2) P(3) [OF True] assms(3) D(2) by linarith
    moreover have "seq_at q ?r = p + 1" using assms(4) same_cell_next [OF D(1), of ?r] by (simp add: seq_at_def)
    ultimately show False using D(6) [OF True] D(2) fp by (auto simp: cell_ok_def split: phase.splits)
  next
    case False
    with D(6) [OF assms(2)] fp assms(4) show False by (simp add: cell_ok_def)
  qed
  moreover have "f p \<noteq> Claimed" using D(6) [OF assms(2)] assms(4) by (auto simp: cell_ok_def)
  ultimately show ?thesis by blast
qed

subsection \<open>What the other threads rely on\<close>

text \<open>
  \<open>moves\<close> is how far any action may take the ring: counters grow, the log is only extended, one
  position \<open>p\<close> moves on, and only its cell is touched.
\<close>

definition moves :: "'a mpmc \<Rightarrow> (int \<Rightarrow> phase) \<Rightarrow> 'a list \<Rightarrow> int \<Rightarrow> 'a mpmc \<Rightarrow> (int \<Rightarrow> phase) \<Rightarrow> 'a list \<Rightarrow> bool" where
  "moves q f log p q' f' log' \<longleftrightarrow> mq_mask q' = mq_mask q \<and> mq_enq q \<le> mq_enq q' \<and> mq_deq q \<le> mq_deq q'
     \<and> take (length log) log' = log \<and> (\<forall>i. i \<noteq> p \<longrightarrow> f' i = f i) \<and> (f p \<noteq> Done)
     \<and> (f p \<notin> {Fresh, Claimed} \<longrightarrow> f' p \<notin> {Fresh, Claimed})
     \<and> (\<forall>i. \<not> same_cell q i p \<longrightarrow> data_at q' i = data_at q i)"

lemma logged:
  assumes "ring_inv q f log" and "0 \<le> p" and "f p \<noteq> Fresh" and "take (length log) log' = log"
  shows "log' ! nat p = log ! nat p"
proof -
  have "nat p < length log" using phasesD(3) [OF ring_invD(5) [OF assms(1)] assms(2)] ring_invD(4) [OF assms(1)] assms(2,3) by linarith
  then show ?thesis using nth_take [of "nat p" "length log" log'] assms(4) by simp
qed

lemma moves_prod:
  assumes inv: "ring_inv q f log" and mv: "moves q f log p q' f' log'" and "0 \<le> p"
    and ok: "prod_ok q f log t" and "prod_at t \<noteq> Some p" and "f p = Claimed \<or> (\<forall>i. data_at q' i = data_at q i)"
  shows "prod_ok q' f' log' t"
proof (cases t)
  case (Enq_written x r)
  then have r: "0 \<le> r" "f r = Claimed" "log ! nat r = x" "data_at q r = x" "r \<noteq> p" using ok assms(5) by auto
  have "data_at q' r = x"
  proof (cases "same_cell q r p")
    case True
    note D = ring_invD [OF inv]
    have "f p \<noteq> Claimed" using active_alone [OF D(5,1,3) assms(3) _ r(1) True r(5)] r(2) by (auto simp: active_def)
    with assms(6) r(4) show ?thesis by auto
  next
    case False
    with mv r(4) show ?thesis by (simp add: moves_def)
  qed
  moreover have "log' ! nat r = x" "f' r = Claimed" using logged [OF inv r(1), of log'] r mv by (auto simp: moves_def)
  ultimately show ?thesis using r(1) by (simp add: Enq_written)
next
  case (Enq_claimed x r)
  then have r: "0 \<le> r" "f r = Claimed" "log ! nat r = x" "r \<noteq> p" using ok assms(5) by auto
  then have "log' ! nat r = x" "f' r = Claimed" using logged [OF inv r(1), of log'] mv by (auto simp: moves_def)
  then show ?thesis using r(1) by (simp add: Enq_claimed)
qed (use ok mv in \<open>auto simp: moves_def\<close>)

lemma moves_cons:
  assumes inv: "ring_inv q f log" and mv: "moves q f log p q' f' log'"
    and ok: "cons_ok q f log t" and "cons_at t \<noteq> Some p"
  shows "cons_ok q' f' log' t"
proof (cases t)
  case (Deq_read r x)
  then have r: "0 \<le> r" "f r = Taking" "log ! nat r = x" "r \<noteq> p" using ok assms(4) by auto
  then have "log' ! nat r = x" "f' r = Taking" using logged [OF inv r(1), of log'] mv by (auto simp: moves_def)
  then show ?thesis using r(1) by (simp add: Deq_read)
next
  case (Deq_seq r v)
  with ok mv show ?thesis by (cases "r = p") (auto simp: moves_def)
qed (use ok mv assms(4) in \<open>auto simp: moves_def\<close>)


subsection \<open>Every action keeps the invariant\<close>

definition mpmc_inv :: "'a mpmc_run \<Rightarrow> bool" where
  "mpmc_inv s \<longleftrightarrow> threads_ok s \<and> books_ok s"

lemma threadsD:
  assumes "threads_ok s"
  shows "ring_inv (mr_queue s) (mr_phase s) (mr_log s)"
    and "prod_ok (mr_queue s) (mr_phase s) (mr_log s) (mr_prod s i)"
    and "cons_ok (mr_queue s) (mr_phase s) (mr_log s) (mr_cons s i)"
    and "prod_at (mr_prod s i) = Some p \<Longrightarrow> prod_at (mr_prod s j) = Some p \<Longrightarrow> i = j"
    and "cons_at (mr_cons s i) = Some p \<Longrightarrow> cons_at (mr_cons s j) = Some p \<Longrightarrow> i = j"
  using assms by (auto simp: threads_ok_def)

lemma threadsI:
  assumes "ring_inv q f log" and "\<And>i. prod_ok q f log (ps i)" and "\<And>i. cons_ok q f log (cs i)"
    and "\<And>i j p. prod_at (ps i) = Some p \<Longrightarrow> prod_at (ps j) = Some p \<Longrightarrow> i = j"
    and "\<And>i j p. cons_at (cs i) = Some p \<Longrightarrow> cons_at (cs j) = Some p \<Longrightarrow> i = j"
    and "mr_queue s = q" "mr_phase s = f" "mr_log s = log" "mr_prod s = ps" "mr_cons s = cs"
  shows "threads_ok s"
  unfolding threads_ok_def assms(6-) using assms(1-5) by blast

text \<open>A producer's action that moves position \<open>p\<close>.\<close>

lemma producer_moves:
  assumes "threads_ok s" and ring: "ring_inv q f log" and mv: "moves (mr_queue s) (mr_phase s) (mr_log s) p q f log"
    and "0 \<le> p" and "\<And>j. j \<noteq> i \<Longrightarrow> prod_at (mr_prod s j) \<noteq> Some p" and "\<And>j. cons_at (mr_cons s j) \<noteq> Some p"
    and "mr_phase s p = Claimed \<or> (\<forall>i. data_at q i = data_at (mr_queue s) i)"
    and "prod_ok q f log t" and "prod_at t \<in> {None, Some p}"
  shows "threads_ok (s\<lparr>mr_queue := q, mr_prod := (mr_prod s)(i := t), mr_phase := f, mr_log := log\<rparr>)"
proof -
  note T = threadsD [OF assms(1)]
  have "prod_ok q f log (((mr_prod s)(i := t)) j)" for j
    using moves_prod [OF T(1) mv assms(4) T(2) _ assms(7)] assms(5,8) by auto
  moreover have "cons_ok q f log (mr_cons s j)" for j
    by (rule moves_cons [OF T(1) mv T(3) assms(6)])
  moreover have "j = k" if "prod_at (((mr_prod s)(i := t)) j) = Some r" "prod_at (((mr_prod s)(i := t)) k) = Some r" for j k r
    using that assms(5,9) T(4) by (auto split: if_splits)
  moreover have "j = k" if "cons_at (mr_cons s j) = Some r" "cons_at (mr_cons s k) = Some r" for j k r
    using that T(5) by blast
  ultimately show ?thesis by (rule threadsI [OF ring, where ps = "(mr_prod s)(i := t)" and cs = "mr_cons s"]) simp_all
qed

lemma consumer_moves:
  assumes "threads_ok s" and ring: "ring_inv q f (mr_log s)"
    and mv: "moves (mr_queue s) (mr_phase s) (mr_log s) p q f (mr_log s)"
    and "0 \<le> p" and "\<And>j. j \<noteq> i \<Longrightarrow> cons_at (mr_cons s j) \<noteq> Some p" and "\<And>j. prod_at (mr_prod s j) \<noteq> Some p"
    and "\<forall>i. data_at q i = data_at (mr_queue s) i"
    and "cons_ok q f (mr_log s) t" and "cons_at t \<in> {None, Some p}"
  shows "threads_ok (s\<lparr>mr_queue := q, mr_cons := (mr_cons s)(i := t), mr_phase := f\<rparr>)"
proof -
  note T = threadsD [OF assms(1)]
  have "prod_ok q f (mr_log s) (mr_prod s j)" for j
    by (rule moves_prod [OF T(1) mv assms(4) T(2) assms(6) disjI2 [OF assms(7)]])
  moreover have "cons_ok q f (mr_log s) (((mr_cons s)(i := t)) j)" for j
    using moves_cons [OF T(1) mv T(3)] assms(5,8) by auto
  moreover have "j = k" if "prod_at (mr_prod s j) = Some r" "prod_at (mr_prod s k) = Some r" for j k r
    using that T(4) by blast
  moreover have "j = k" if "cons_at (((mr_cons s)(i := t)) j) = Some r" "cons_at (((mr_cons s)(i := t)) k) = Some r" for j k r
    using that assms(5,9) T(5) by (auto split: if_splits)
  ultimately show ?thesis by (rule threadsI [OF ring, where ps = "mr_prod s" and cs = "(mr_cons s)(i := t)"]) simp_all
qed

text \<open>An action that leaves the ring alone only needs the thread's new local state to be right.\<close>

lemma quiet_producer:
  assumes "threads_ok s" and "prod_ok (mr_queue s) (mr_phase s) (mr_log s) t" and "prod_at t = None"
  shows "threads_ok (s\<lparr>mr_prod := (mr_prod s)(i := t)\<rparr>)"
  using assms by (auto simp: threads_ok_def)

lemma quiet_consumer:
  assumes "threads_ok s" and "cons_ok (mr_queue s) (mr_phase s) (mr_log s) t" and "cons_at t = None"
  shows "threads_ok (s\<lparr>mr_cons := (mr_cons s)(i := t)\<rparr>)"
  using assms by (auto simp: threads_ok_def)

lemma overflow_threads:
  assumes "threads_ok s"
  shows "threads_ok (s\<lparr>mr_queue := (mr_queue s)\<lparr>mq_overflow := xs, mq_count := c\<rparr>\<rparr>)"
proof -
  have "prod_ok (q\<lparr>mq_overflow := xs, mq_count := c\<rparr>) f log t = prod_ok q f log t" for q :: "'a mpmc" and f log t
    by (cases t) simp_all
  moreover have "cons_ok (q\<lparr>mq_overflow := xs, mq_count := c\<rparr>) f log u = cons_ok q f log u" for q :: "'a mpmc" and f log u
    by (cases u) simp_all
  moreover have "ring_inv (q\<lparr>mq_overflow := xs, mq_count := c\<rparr>) f log = ring_inv q f log" for q :: "'a mpmc" and f log
    by (simp add: ring_inv_def phases_ok_def cell_ok_def cong: phase.case_cong)
  ultimately show ?thesis using assms by (simp add: threads_ok_def)
qed


lemma threads_books [simp]:
  "threads_ok (s\<lparr>mr_spilled := xs\<rparr>) = threads_ok s" "threads_ok (s\<lparr>mr_unspilled := xs\<rparr>) = threads_ok s"
  "threads_ok (s\<lparr>mr_out := out\<rparr>) = threads_ok s"
  by (simp_all add: threads_ok_def)

lemma enq_threads:
  assumes T: "threads_ok s" and "mr_prod s i = t" and "enq_step fails (mr_queue s) t = (q, u)" and "t \<noteq> Enq_done"
  shows "threads_ok (note_enq t u (s\<lparr>mr_queue := q, mr_prod := (mr_prod s)(i := u)\<rparr>))"
proof -
  let ?q = "mr_queue s" and ?f = "mr_phase s" and ?log = "mr_log s"
  note R = threadsD(1) [OF T]
  have ok: "prod_ok ?q ?f ?log t" using threadsD(2) [OF T, of i] assms(2) by simp
  have mine: "prod_at (mr_prod s j) \<noteq> Some p" if "prod_at t = Some p" "j \<noteq> i" for j p
    using threadsD(4) [OF T] assms(2) that by blast
  have cons: "cons_at (mr_cons s j) \<noteq> Some p" if "?f p \<noteq> Taking" for j p
    using threadsD(3) [OF T, of j] that by (cases "mr_cons s j") auto
  have prods: "prod_at (mr_prod s j) \<noteq> Some p" if "?f p \<noteq> Claimed" for j p
    using threadsD(2) [OF T, of j] that by (cases "mr_prod s j") auto
  have e0: "0 \<le> mq_enq ?q" using phasesD(1,2) [OF ring_invD(5) [OF R]] by linarith
  show ?thesis
  proof (cases t)
    case (Enq_pos x p)
    with ok enq_load [OF R, of p] assms(3) show ?thesis
      using quiet_producer [OF T, of u i] by auto
  next
    case (Enq_seq x p v)
    show ?thesis
    proof (cases "v = p \<and> mq_enq ?q = p \<and> \<not> fails")
      case True
      then have u: "u = Enq_claimed x p" "q = ?q\<lparr>mq_enq := p + 1\<rparr>" using assms(3) Enq_seq by auto
      have free: "mq_enq ?q < mq_mask ?q + 1 \<or> ?f (mq_enq ?q - (mq_mask ?q + 1)) = Done"
        using ok Enq_seq True by auto
      have fp: "?f p = Fresh" using phasesD(3) [OF ring_invD(5) [OF R] e0] True by simp
      have "threads_ok (s\<lparr>mr_queue := q, mr_prod := (mr_prod s)(i := u), mr_phase := ?f(p := Claimed), mr_log := ?log @ [x]\<rparr>)"
      proof (rule producer_moves [OF T])
        show "ring_inv q (?f(p := Claimed)) (?log @ [x])" using claim_ring [OF R free] True u by simp
        show "moves ?q ?f ?log p q (?f(p := Claimed)) (?log @ [x])" using u fp True by (simp add: moves_def)
        show "prod_ok q (?f(p := Claimed)) (?log @ [x]) u" using u True e0 ring_invD(4) [OF R] by (auto simp: nth_append)
      qed (use fp cons prods u True e0 in auto)
      then show ?thesis by (simp add: Enq_seq u)
    next
      case False
      then have "q = ?q" "note_enq t u = (\<lambda>s. s)" "prod_ok ?q ?f ?log u" "prod_at u = None"
        using assms(3) Enq_seq e0 by (auto split: if_splits simp: fun_eq_iff)
      then show ?thesis using quiet_producer [OF T, of u i] by simp
    qed
  next
    case (Enq_claimed x p)
    then have u: "u = Enq_written x p" "q = store_data ?q p x" and p: "0 \<le> p" "?f p = Claimed" "?log ! nat p = x"
      using assms(3) ok by auto
    have "threads_ok (s\<lparr>mr_queue := q, mr_prod := (mr_prod s)(i := u), mr_phase := ?f, mr_log := ?log\<rparr>)"
    proof (rule producer_moves [OF T])
      show "ring_inv q ?f ?log" using write_ring [OF R p(1,2)] u by simp
      show "moves ?q ?f ?log p q ?f ?log" using p ring_invD(1) [OF R] by (simp add: u moves_def store_data_at)
      show "prod_ok q ?f ?log u" using p ring_invD(1) [OF R] by (simp add: u store_data_at)
    qed (use p cons mine u Enq_claimed in auto)
    then show ?thesis by (simp add: Enq_claimed u)
  next
    case (Enq_written x p)
    then have u: "u = Enq_done" "q = store_seq ?q p (p + 1)"
      and p: "0 \<le> p" "?f p = Claimed" "?log ! nat p = x" "data_at ?q p = x" using assms(3) ok by auto
    have "threads_ok (s\<lparr>mr_queue := q, mr_prod := (mr_prod s)(i := u), mr_phase := ?f(p := Published), mr_log := ?log\<rparr>)"
    proof (rule producer_moves [OF T])
      show "ring_inv q (?f(p := Published)) ?log" using publish_ring [OF R p(1,2)] p u by simp
      show "moves ?q ?f ?log p q (?f(p := Published)) ?log" using p by (simp add: u moves_def)
    qed (use p cons mine u Enq_written in auto)
    then show ?thesis by (simp add: Enq_written u)
  next
    case (Enq_full x)
    then have "u = Enq_done" "q = ?q\<lparr>mq_overflow := mq_overflow ?q @ [x], mq_count := mq_count ?q + 1\<rparr>" using assms(3) by auto
    then show ?thesis using quiet_producer [OF overflow_threads [OF T], of _ _ Enq_done i] Enq_full by simp
  qed (use assms(3,4) quiet_producer [OF T, of u i] e0 in auto)
qed


lemma deq_threads:
  assumes T: "threads_ok s" and "mr_cons s i = t" and "deq_step fails (mr_queue s) t = (q, u)" and "\<not> cons_idle t"
  shows "threads_ok (note_deq t u (s\<lparr>mr_queue := q, mr_cons := (mr_cons s)(i := u)\<rparr>))"
proof -
  let ?q = "mr_queue s" and ?f = "mr_phase s" and ?log = "mr_log s"
  note R = threadsD(1) [OF T]
  have ok: "cons_ok ?q ?f ?log t" using threadsD(3) [OF T, of i] assms(2) by simp
  have mine: "cons_at (mr_cons s j) \<noteq> Some p" if "cons_at t = Some p" "j \<noteq> i" for j p
    using threadsD(5) [OF T] assms(2) that by blast
  have cons: "cons_at (mr_cons s j) \<noteq> Some p" if "?f p \<noteq> Taking" for j p
    using threadsD(3) [OF T, of j] that by (cases "mr_cons s j") auto
  have prods: "prod_at (mr_prod s j) \<noteq> Some p" if "?f p \<noteq> Claimed" for j p
    using threadsD(2) [OF T, of j] that by (cases "mr_prod s j") auto
  have d0: "0 \<le> mq_deq ?q" using phasesD(1) [OF ring_invD(5) [OF R]] by linarith
  show ?thesis
  proof (cases t)
    case (Deq_pos p)
    with ok deq_load [OF R, of p] assms(3) show ?thesis
      using quiet_consumer [OF T, of u i] by auto
  next
    case (Deq_seq p v)
    show ?thesis
    proof (cases "v = p + 1 \<and> mq_deq ?q = p \<and> \<not> fails")
      case True
      then have u: "u = Deq_claimed p" "q = ?q\<lparr>mq_deq := p + 1\<rparr>" using assms(3) Deq_seq by auto
      have pub: "?f (mq_deq ?q) \<notin> {Fresh, Claimed}" using ok Deq_seq True by auto
      then have fp: "?f p = Published" using take_ring(2) [OF R] True by simp
      have "threads_ok (s\<lparr>mr_queue := q, mr_cons := (mr_cons s)(i := u), mr_phase := ?f(p := Taking)\<rparr>)"
      proof (rule consumer_moves [OF T])
        show "ring_inv q (?f(p := Taking)) ?log" using take_ring(1) [OF R pub] True u by simp
        show "moves ?q ?f ?log p q (?f(p := Taking)) ?log" using u fp True by (simp add: moves_def)
      qed (use fp cons prods u True d0 in auto)
      then show ?thesis by (simp add: Deq_seq u)
    next
      case False
      then have "q = ?q" "note_deq t u = (\<lambda>s. s)" "cons_ok ?q ?f ?log u" "cons_at u = None"
        using assms(3) Deq_seq d0 by (auto split: if_splits simp: fun_eq_iff)
      then show ?thesis using quiet_consumer [OF T, of u i] by simp
    qed
  next
    case (Deq_claimed p)
    then have u: "u = Deq_read p (data_at ?q p)" "q = ?q" and p: "0 \<le> p" "?f p = Taking" using assms(3) ok by auto
    have "data_at ?q p = ?log ! nat p" using ring_invD(6) [OF R p(1)] p(2) by (simp add: cell_ok_def)
    then have "threads_ok (s\<lparr>mr_queue := ?q, mr_cons := (mr_cons s)(i := u), mr_phase := ?f\<rparr>)"
      using consumer_moves [OF T R, of p i u] p mine prods u Deq_claimed by (simp add: moves_def)
    then show ?thesis by (simp add: Deq_claimed u)
  next
    case (Deq_read p x)
    then have u: "u = Deq_done (Some x)" "q = store_seq ?q p (p + (mq_mask ?q + 1))"
      and p: "0 \<le> p" "?f p = Taking" using assms(3) ok by (auto simp: add.assoc)
    have "threads_ok (s\<lparr>mr_queue := q, mr_cons := (mr_cons s)(i := u), mr_phase := ?f(p := Done)\<rparr>)"
    proof (rule consumer_moves [OF T])
      show "ring_inv q (?f(p := Done)) ?log" using finish_ring [OF R p] u by simp
      show "moves ?q ?f ?log p q (?f(p := Done)) ?log" using p by (simp add: u moves_def)
    qed (use p prods mine u Deq_read in auto)
    then show ?thesis by (simp add: Deq_read u)
  next
    case Deq_locking
    note q = quiet_consumer [OF T, of u i]
    show ?thesis
    proof (cases "mq_overflow ?q")
      case Nil
      with Deq_locking assms(3) q show ?thesis by auto
    next
      case (Cons x xs)
      with Deq_locking assms(3) have "u = Deq_done (Some x)" "q = ?q\<lparr>mq_overflow := xs, mq_count := mq_count ?q - 1\<rparr>" by auto
      then show ?thesis using quiet_consumer [OF overflow_threads [OF T], of _ _ u i] Deq_locking by simp
    qed
  qed (use assms(3,4) quiet_consumer [OF T, of u i] d0 in \<open>auto split: if_splits\<close>)
qed

subsection \<open>The books\<close>

lemma booksD:
  assumes "books_ok s"
  shows "distinct (map fst (mr_out s))" and "fst ` set (mr_out s) = {p. 0 \<le> p \<and> mr_phase s p = Done}"
    and "\<And>p x. (p, x) \<in> set (mr_out s) \<Longrightarrow> x = mr_log s ! nat p"
    and "\<And>p. 0 \<le> p \<Longrightarrow> mr_phase s p = Taking \<Longrightarrow> \<exists>i. cons_at (mr_cons s i) = Some p"
    and "mr_unspilled s @ mq_overflow (mr_queue s) = mr_spilled s"
    and "mq_count (mr_queue s) = length (mq_overflow (mr_queue s))"
  using assms by (auto simp: books_ok_def)

lemma books_keep:
  assumes B: "books_ok s" and "mr_out s' = mr_out s"
    and "\<And>p. 0 \<le> p \<Longrightarrow> mr_phase s' p = Done \<longleftrightarrow> mr_phase s p = Done"
    and "\<And>p x. (p, x) \<in> set (mr_out s) \<Longrightarrow> mr_log s' ! nat p = mr_log s ! nat p"
    and "\<And>p. 0 \<le> p \<Longrightarrow> mr_phase s' p = Taking \<Longrightarrow> \<exists>i. cons_at (mr_cons s' i) = Some p"
    and "mr_unspilled s' @ mq_overflow (mr_queue s') = mr_spilled s'"
    and "mq_count (mr_queue s') = length (mq_overflow (mr_queue s'))"
  shows "books_ok s'"
proof -
  have "{p. 0 \<le> p \<and> mr_phase s' p = Done} = {p. 0 \<le> p \<and> mr_phase s p = Done}" using assms(3) by blast
  then show ?thesis unfolding books_ok_def using booksD [OF B] assms(2,4-) by auto
qed

lemma enq_books:
  assumes T: "threads_ok s" and B: "books_ok s" and "mr_prod s i = t"
    and "enq_step fails (mr_queue s) t = (q, u)" and "t \<noteq> Enq_done"
  shows "books_ok (note_enq t u (s\<lparr>mr_queue := q, mr_prod := (mr_prod s)(i := u)\<rparr>))"
proof (cases t)
  case (Enq_seq x p v)
  note R = threadsD(1) [OF T]
  have log: "nat r < length (mr_log s)" if "(r, y) \<in> set (mr_out s)" for r y
  proof -
    from that have "r \<in> fst ` set (mr_out s)" by force
    then have "0 \<le> r" "mr_phase s r = Done" unfolding booksD(2) [OF B] by auto
    then show ?thesis using phasesD(3) [OF ring_invD(5) [OF R], of r] ring_invD(4) [OF R] by (auto simp: not_le)
  qed
  show ?thesis
  proof (cases "v = p \<and> mq_enq (mr_queue s) = p \<and> \<not> fails")
    case True
    have "mr_phase s p = Fresh" using phasesD [OF ring_invD(5) [OF R]] True by (metis order.refl order.trans)
    then show ?thesis
      using True assms(4) Enq_seq log booksD(4-) [OF B] by (intro books_keep [OF B]) (auto simp: nth_append split: if_splits)
  qed (use assms(4) booksD(4-) [OF B] Enq_seq in \<open>auto intro!: books_keep [OF B] split: if_splits\<close>)
next
  case (Enq_written x p)
  then have "mr_phase s p = Claimed" using threadsD(2) [OF T, of i] assms(3) by simp
  with Enq_written assms(4) booksD(4-) [OF B] show ?thesis by (intro books_keep [OF B]) (auto split: if_splits)
qed (use assms(4,5) booksD(4-) [OF B] in \<open>auto intro!: books_keep [OF B]\<close>)

lemma deq_books:
  assumes T: "threads_ok s" and B: "books_ok s" and "mr_cons s i = t"
    and "deq_step fails (mr_queue s) t = (q, u)" and "\<not> cons_idle t"
  shows "books_ok (note_deq t u (s\<lparr>mr_queue := q, mr_cons := (mr_cons s)(i := u)\<rparr>))"
proof -
  let ?c = "(mr_cons s)(i := u)"
  have keep: "\<exists>j. cons_at (?c j) = Some r" if r: "0 \<le> r" "mr_phase s r = Taking" "cons_at t \<noteq> Some r \<or> cons_at u = Some r" for r
  proof -
    obtain j where j: "cons_at (mr_cons s j) = Some r" using booksD(4) [OF B r(1,2)] by blast
    show ?thesis
    proof (cases "j = i")
      case True
      with j assms(3) r(3) have "cons_at (?c i) = Some r" by simp
      then show ?thesis by blast
    next
      case False
      with j have "cons_at (?c j) = Some r" by simp
      then show ?thesis by blast
    qed
  qed
  show ?thesis
  proof (cases t)
    case (Deq_seq p v)
    show ?thesis
    proof (cases "v = p + 1 \<and> mq_deq (mr_queue s) = p \<and> \<not> fails")
      case True
      then have "mr_phase s (mq_deq (mr_queue s)) \<notin> {Fresh, Claimed}"
        using threadsD(3) [OF T, of i] assms(3) Deq_seq by auto
      then have fp: "mr_phase s p = Published" using take_ring(2) [OF threadsD(1) [OF T]] True by simp
      have u: "u = Deq_claimed p" "q = (mr_queue s)\<lparr>mq_deq := p + 1\<rparr>" using True assms(4) Deq_seq by auto
      have "\<exists>j. cons_at (?c j) = Some r" if "0 \<le> r" "((mr_phase s)(p := Taking)) r = Taking" for r
      proof (cases "r = p")
        case True
        then have "cons_at (?c i) = Some r" using u by simp
        then show ?thesis by blast
      qed (use keep [of r] that Deq_seq in auto)
      then show ?thesis using fp u Deq_seq booksD(5-) [OF B] by (intro books_keep [OF B]) (auto split: if_splits)
    qed (use assms(4) booksD(5-) [OF B] Deq_seq keep in \<open>auto intro!: books_keep [OF B] split: if_splits\<close>)
  next
    case (Deq_read p x)
    have p: "0 \<le> p" "mr_phase s p = Taking" "mr_log s ! nat p = x" using threadsD(3) [OF T, of i] assms(3) Deq_read by auto
    have new: "p \<notin> fst ` set (mr_out s)" unfolding booksD(2) [OF B] using p by simp
    have u: "u = Deq_done (Some x)" "mq_overflow q = mq_overflow (mr_queue s)" "mq_count q = mq_count (mr_queue s)"
      using Deq_read assms(4) by auto
    have dset: "insert p {r. 0 \<le> r \<and> mr_phase s r = Done} = {r. 0 \<le> r \<and> ((mr_phase s)(p := Done)) r = Done}"
      using p(1) by auto
    have taking: "\<exists>j. cons_at (?c j) = Some r" if "0 \<le> r" "((mr_phase s)(p := Done)) r = Taking" for r
      using keep [of r] that Deq_read by (auto split: if_splits)
    show ?thesis
      unfolding books_ok_def Deq_read u(1) note_deq.simps
      using booksD(1,3,5,6) [OF B] new p(3) taking u dset booksD(2) [OF B] by (auto simp del: fun_upd_apply)
  next
    case Deq_locking
    then show ?thesis
      using assms(4) booksD(5-) [OF B] keep by (intro books_keep [OF B]) (auto split: list.splits)
  qed (use assms(4,5) booksD(5-) [OF B] keep in \<open>auto intro!: books_keep [OF B] split: if_splits\<close>)
qed


lemma mpmc_new_props:
  assumes "mpmc_new capacity x = Some q" and "1 < capacity"
  shows "mpmc_wf q" and "1 \<le> mq_mask q" and "mq_enq q = 0" and "mq_deq q = 0" and "mq_overflow q = []" and "mq_count q = 0"
    and "\<And>p. 0 \<le> p \<Longrightarrow> p < mq_mask q + 1 \<Longrightarrow> seq_at q p = p"
proof -
  obtain c where c: "round_pow2 capacity = Some c"
    and q: "q = \<lparr>mq_enq = 0, mq_deq = 0, mq_mask = uint c - 1, mq_seq = map int [0..<unat c],
       mq_data = replicate (unat c) x, mq_overflow = [], mq_count = 0\<rparr>"
    using assms by (auto simp: mpmc_new_def)
  obtain k where k: "c = 2 ^ k" "unat c = 2 ^ k" using round_pow2_power [OF c] by blast
  have u: "uint c = int (unat c)" by simp
  have "capacity \<le> c"
    using round_pow2_loop_result [of capacity 1 c] c unfolding round_pow2_def pow2_or_zero_def
    by (metis power_0 zero_less_numeral)
  with assms(2) have "1 < unat c" by (metis order.strict_trans2 unsigned_1 word_less_nat_alt)
  then have "1 \<le> uint c - 1" unfolding u by linarith
  with q k u show "mpmc_wf q" "1 \<le> mq_mask q" "mq_enq q = 0" "mq_deq q = 0" "mq_overflow q = []" "mq_count q = 0"
    by (auto simp: mpmc_wf_def)
  fix p :: int
  assume p: "0 \<le> p" "p < mq_mask q + 1"
  with q k u have "slot_index (mq_mask q) p = nat p" "nat p < unat c" by (auto simp: slot_index_mod)
  with q p show "seq_at q p = p" by (simp add: seq_at_def)
qed

lemma mpmc_inv_new:
  assumes "mpmc_new capacity x = Some q" and "1 < capacity"
  shows "mpmc_inv (mpmc_run_new q)"
proof -
  note N = mpmc_new_props [OF assms]
  have "ring_inv q (\<lambda>_. Fresh) []" using N by (auto simp: ring_inv_def phases_ok_def cell_ok_def)
  then have "threads_ok (mpmc_run_new q)" by (simp add: threads_ok_def mpmc_run_new_def)
  moreover have "books_ok (mpmc_run_new q)" using N by (simp add: books_ok_def mpmc_run_new_def)
  ultimately show ?thesis by (simp add: mpmc_inv_def)
qed

lemma mpmc_inv_step: "mpmc_step s s' \<Longrightarrow> mpmc_inv s \<Longrightarrow> mpmc_inv s'"
proof (induction rule: mpmc_step.induct)
  case (mq_push s i x)
  then show ?case using quiet_producer [of s "Enq_start x" i] by (auto simp: mpmc_inv_def books_ok_def)
next
  case (mq_enq s i fails q p)
  then show ?case using enq_threads [OF _ refl] enq_books [OF _ _ refl] unfolding mpmc_inv_def by blast
next
  case (mq_pop s i)
  then have T: "threads_ok s" and B: "books_ok s" by (auto simp: mpmc_inv_def)
  have "\<exists>j. cons_at (((mr_cons s)(i := Deq_start)) j) = Some p" if p: "0 \<le> p" "mr_phase s p = Taking" for p
  proof -
    obtain j where j: "cons_at (mr_cons s j) = Some p" using booksD(4) [OF B p] by blast
    with mq_pop have "j \<noteq> i" by (cases "mr_cons s i") auto
    with j have "cons_at (((mr_cons s)(i := Deq_start)) j) = Some p" by simp
    then show ?thesis by blast
  qed
  then show ?case using quiet_consumer [OF T, of Deq_start i] B by (auto simp: mpmc_inv_def books_ok_def)
next
  case (mq_deq s i fails q c)
  then show ?case using deq_threads [OF _ refl] deq_books [OF _ _ refl] unfolding mpmc_inv_def by blast
qed

lemma mpmc_reach_inv: "mpmc_reach s \<Longrightarrow> mpmc_inv s"
  by (induction rule: mpmc_reach.induct) (auto intro: mpmc_inv_new mpmc_inv_step)

section \<open>The whole operations, without interference\<close>

definition mpmc_push :: "'a mpmc \<Rightarrow> 'a \<Rightarrow> 'a mpmc" where
  "mpmc_push q x = fst (((\<lambda>(q, p). enq_step False q p) ^^ 5) (q, Enq_start x))"

definition mpmc_pop :: "'a mpmc \<Rightarrow> 'a mpmc \<times> 'a option" where
  "mpmc_pop q = (case ((\<lambda>(q, c). deq_step False q c) ^^ 5) (q, Deq_start) of
     (q', Deq_done r) \<Rightarrow> (q', r) | (q', _) \<Rightarrow> (q', None))"

definition mpmc_ok :: "'a mpmc \<Rightarrow> bool" where
  "mpmc_ok q \<longleftrightarrow> mpmc_wf q \<and> 1 \<le> mq_mask q \<and> 0 \<le> mq_deq q \<and> mq_deq q \<le> mq_enq q
     \<and> mq_enq q - mq_deq q \<le> mq_mask q + 1
     \<and> (\<forall>p. mq_deq q \<le> p \<and> p < mq_enq q \<longrightarrow> seq_at q p = p + 1)
     \<and> (\<forall>p. mq_enq q \<le> p \<and> p < mq_deq q + (mq_mask q + 1) \<longrightarrow> seq_at q p = p)
     \<and> mq_count q = length (mq_overflow q)"

definition ring_items :: "'a mpmc \<Rightarrow> 'a list" where
  "ring_items q = map (data_at q) [mq_deq q..mq_enq q - 1]"

lemma near_cells:
  assumes "mpmc_wf q" and "\<bar>i - j\<bar> < mq_mask q + 1"
  shows "same_cell q i j \<longleftrightarrow> i = j"
  using assms slot_index_inj [of _ i j] by (auto simp: mpmc_wf_def)

lemma mpmc_push_room:
  assumes ok: "mpmc_ok q" and room: "mq_enq q - mq_deq q < mq_mask q + 1"
  shows "mpmc_push q x = store_seq (store_data (q\<lparr>mq_enq := mq_enq q + 1\<rparr>) (mq_enq q) x) (mq_enq q) (mq_enq q + 1)"
  using assms by (simp add: mpmc_push_def numeral_eq_Suc mpmc_ok_def)

lemma mpmc_push_full:
  assumes ok: "mpmc_ok q" and full: "mq_enq q - mq_deq q = mq_mask q + 1"
  shows "mpmc_push q x = q\<lparr>mq_overflow := mq_overflow q @ [x], mq_count := mq_count q + 1\<rparr>"
proof -
  have "seq_at q (mq_enq q) = seq_at q (mq_deq q)"
    using same_cell_next [of q "mq_deq q"] assms by (auto simp: mpmc_ok_def seq_at_def algebra_simps)
  then have "seq_at q (mq_enq q) < mq_enq q" using assms by (simp add: mpmc_ok_def)
  then show ?thesis by (simp add: mpmc_push_def numeral_eq_Suc)
qed

lemma mpmc_push_ok:
  assumes ok: "mpmc_ok q"
  shows "mpmc_ok (mpmc_push q x)"
    and "mset (ring_items (mpmc_push q x)) + mset (mq_overflow (mpmc_push q x)) =
      add_mset x (mset (ring_items q) + mset (mq_overflow q))"
proof -
  let ?e = "mq_enq q"
  have wf: "mpmc_wf q" and le: "mq_deq q \<le> ?e" using ok by (simp_all add: mpmc_ok_def)
  show "mpmc_ok (mpmc_push q x)"
  proof (cases "?e - mq_deq q < mq_mask q + 1")
    case True
    have near: "same_cell q p ?e \<longleftrightarrow> p = ?e" if "mq_deq q \<le> p" "p < mq_deq q + (mq_mask q + 1)" for p
      using near_cells [OF wf, of p ?e] that True le by linarith
    show ?thesis unfolding mpmc_push_room [OF ok True]
      using ok True near unfolding mpmc_ok_def by (simp add: store_seq_at)
  next
    case False
    then have full: "?e - mq_deq q = mq_mask q + 1" using ok by (simp add: mpmc_ok_def)
    show ?thesis unfolding mpmc_push_full [OF ok full] using ok by (simp add: mpmc_ok_def)
  qed
  show "mset (ring_items (mpmc_push q x)) + mset (mq_overflow (mpmc_push q x)) =
      add_mset x (mset (ring_items q) + mset (mq_overflow q))"
  proof (cases "?e - mq_deq q < mq_mask q + 1")
    case True
    have "[mq_deq q..?e] = [mq_deq q..?e - 1] @ [?e]" using ok by (intro upto_rec2) (simp add: mpmc_ok_def)
    moreover have "same_cell q p ?e \<longleftrightarrow> p = ?e" if "p \<in> set [mq_deq q..?e - 1]" for p
      using near_cells [OF wf, of p ?e] that True by auto
    then have "map (data_at (store_data q ?e x)) [mq_deq q..?e - 1] = map (data_at q) [mq_deq q..?e - 1]"
      by (auto simp: store_data_at [OF wf])
    moreover have "data_at (store_data (q\<lparr>mq_enq := ?e + 1\<rparr>) ?e x) = data_at (store_data q ?e x)"
      by (simp add: fun_eq_iff store_data_def data_at_def)
    ultimately have "ring_items (mpmc_push q x) = ring_items q @ [x]"
      unfolding mpmc_push_room [OF ok True] ring_items_def by (simp add: store_data_at [OF wf] del: map_eq_conv)
    then show ?thesis by (simp add: mpmc_push_room [OF ok True])
  next
    case False
    then have full: "?e - mq_deq q = mq_mask q + 1" using ok by (simp add: mpmc_ok_def)
    show ?thesis unfolding mpmc_push_full [OF ok full] by (simp add: ring_items_def)
  qed
qed

lemma mpmc_pop_ring:
  assumes ok: "mpmc_ok q" and "mq_deq q < mq_enq q"
  shows "mpmc_pop q = (store_seq (q\<lparr>mq_deq := mq_deq q + 1\<rparr>) (mq_deq q) (mq_deq q + mq_mask q + 1), Some (data_at q (mq_deq q)))"
  using assms by (simp add: mpmc_pop_def numeral_eq_Suc mpmc_ok_def)

lemma mpmc_pop_overflow:
  assumes ok: "mpmc_ok q" and "mq_deq q = mq_enq q"
  shows "mpmc_pop q = (case mq_overflow q of [] \<Rightarrow> (q, None)
    | x # xs \<Rightarrow> (q\<lparr>mq_overflow := xs, mq_count := mq_count q - 1\<rparr>, Some x))"
  using assms by (auto simp: mpmc_pop_def numeral_eq_Suc mpmc_ok_def split: list.splits)

lemma mpmc_pop_ok:
  assumes ok: "mpmc_ok q" and pop: "mpmc_pop q = (q', r)"
  shows "mpmc_ok q'"
    and "r = (case ring_items q @ mq_overflow q of [] \<Rightarrow> None | x # _ \<Rightarrow> Some x)"
    and "ring_items q' @ mq_overflow q' = tl (ring_items q @ mq_overflow q)"
proof -
  let ?d = "mq_deq q"
  have wf: "mpmc_wf q" using ok by (simp add: mpmc_ok_def)
  consider (ring) "?d < mq_enq q" | (spill) "?d = mq_enq q" using ok by (force simp: mpmc_ok_def)
  then have "mpmc_ok q' \<and> r = (case ring_items q @ mq_overflow q of [] \<Rightarrow> None | x # _ \<Rightarrow> Some x)
    \<and> ring_items q' @ mq_overflow q' = tl (ring_items q @ mq_overflow q)"
  proof cases
    case ring
    have near: "same_cell q p ?d \<longleftrightarrow> p = ?d" if "?d \<le> p" "p < ?d + (mq_mask q + 1)" for p
      using near_cells [OF wf, of p ?d] that by simp
    have next_lap: "same_cell q (?d + (mq_mask q + 1)) ?d" by (rule same_cell_next [OF wf])
    have q': "q' = store_seq (q\<lparr>mq_deq := ?d + 1\<rparr>) ?d (?d + mq_mask q + 1)" "r = Some (data_at q ?d)"
      using pop mpmc_pop_ring [OF ok ring] by auto
    have "seq_at q' p = p" if "mq_enq q \<le> p" "p < ?d + 1 + (mq_mask q + 1)" for p
    proof (cases "p = ?d + (mq_mask q + 1)")
      case True
      with next_lap show ?thesis using wf by (simp add: q' store_seq_at ac_simps)
    next
      case False
      with that ring near [of p] ok show ?thesis using wf by (simp add: q' store_seq_at mpmc_ok_def)
    qed
    moreover have "seq_at q' p = p + 1" if "?d + 1 \<le> p" "p < mq_enq q" for p
      using that ok near [of p] wf by (auto simp: q' store_seq_at mpmc_ok_def)
    ultimately have "mpmc_ok q'" using ok ring unfolding mpmc_ok_def by (simp add: q')
    moreover have "ring_items q = data_at q ?d # ring_items q'"
      using upto_rec1 [of ?d "mq_enq q - 1"] ring by (simp add: ring_items_def q')
    ultimately show ?thesis using q' by simp
  next
    case spill
    then have "ring_items q = []" by (simp add: ring_items_def)
    with spill pop mpmc_pop_overflow [OF ok spill] ok show ?thesis
      by (auto simp: mpmc_ok_def ring_items_def split: list.splits)
  qed
  then show "mpmc_ok q'" "r = (case ring_items q @ mq_overflow q of [] \<Rightarrow> None | x # _ \<Rightarrow> Some x)"
    "ring_items q' @ mq_overflow q' = tl (ring_items q @ mq_overflow q)" by auto
qed

text \<open>A push never refuses, so its answer is \<open>True\<close>.\<close>

interpretation mpmc: work_pool mpmc_ok "\<lambda>q. mset (ring_items q) + mset (mq_overflow q)"
  "\<lambda>q x. (mpmc_push q x, True)" mpmc_pop
proof unfold_locales
  fix q q' :: "'a mpmc" and x :: 'a and r and y :: "'a option"
  assume ok: "mpmc_ok q"
  show "(mpmc_push q x, True) = (q', r) \<Longrightarrow> mpmc_ok q'" using mpmc_push_ok(1) [OF ok] by auto
  show "(mpmc_push q x, True) = (q', r) \<Longrightarrow> mset (ring_items q') + mset (mq_overflow q') =
      (if r then add_mset x (mset (ring_items q) + mset (mq_overflow q)) else mset (ring_items q) + mset (mq_overflow q))"
    using mpmc_push_ok(2) [OF ok] by auto
  show "mpmc_pop q = (q', y) \<Longrightarrow> mpmc_ok q'" by (rule mpmc_pop_ok(1) [OF ok])
  assume pop: "mpmc_pop q = (q', Some x)"
  have "ring_items q @ mq_overflow q = x # (ring_items q' @ mq_overflow q')"
    using mpmc_pop_ok(2,3) [OF ok pop] by (cases "ring_items q @ mq_overflow q") auto
  then have "mset (ring_items q @ mq_overflow q) = mset (x # (ring_items q' @ mq_overflow q'))" by (rule arg_cong)
  then show "mset (ring_items q) + mset (mq_overflow q) = add_mset x (mset (ring_items q') + mset (mq_overflow q'))" by simp
next
  fix q q' :: "'a mpmc"
  assume ok: "mpmc_ok q" and pop: "mpmc_pop q = (q', None)"
  then show "mset (ring_items q) + mset (mq_overflow q) = {#} \<and> mset (ring_items q') + mset (mq_overflow q') = {#}"
    using mpmc_pop_ok(2,3) [OF ok pop] by (auto split: list.splits)
qed

section \<open>Properties\<close>

text \<open>
  (C16) The ring refines a first-in first-out queue, under every interleaving. The items in the order
  their positions were claimed form the queue's history; the item of each position is returned to at
  most one consumer and it is the item claimed there; only positions already taken off the front are
  returned; and with no pop under way exactly the first \<open>mq_deq\<close> items of the history have been
  returned, each once. The overflow is first-in first-out as well.
\<close>

theorem mpmc_fifo:
  assumes "mpmc_reach s"
  shows "mq_deq (mr_queue s) \<le> mq_enq (mr_queue s) \<and> mq_enq (mr_queue s) = int (length (mr_log s))
    \<and> distinct (map fst (mr_out s))
    \<and> (\<forall>(p, x) \<in> set (mr_out s). 0 \<le> p \<and> p < mq_deq (mr_queue s) \<and> x = mr_log s ! nat p)
    \<and> ((\<forall>i. cons_idle (mr_cons s i)) \<longrightarrow> fst ` set (mr_out s) = {0..<mq_deq (mr_queue s)})
    \<and> mr_unspilled s @ mq_overflow (mr_queue s) = mr_spilled s"
proof -
  have T: "threads_ok s" and B: "books_ok s" using mpmc_reach_inv [OF assms] by (auto simp: mpmc_inv_def)
  note R = threadsD(1) [OF T] and P = phasesD [OF ring_invD(5) [OF threadsD(1) [OF T]]]
  have "0 \<le> p \<and> p < mq_deq (mr_queue s) \<and> x = mr_log s ! nat p" if "(p, x) \<in> set (mr_out s)" for p x
  proof -
    from that have "p \<in> fst ` set (mr_out s)" by force
    then have "0 \<le> p" "mr_phase s p = Done" unfolding booksD(2) [OF B] by auto
    with P(4) booksD(3) [OF B that] show ?thesis by blast
  qed
  moreover have "fst ` set (mr_out s) = {0..<mq_deq (mr_queue s)}" if idle: "\<forall>i. cons_idle (mr_cons s i)"
  proof -
    have "mr_phase s p \<noteq> Taking" if "0 \<le> p" for p
    proof
      assume "mr_phase s p = Taking"
      then obtain i where "cons_at (mr_cons s i) = Some p" using booksD(4) [OF B \<open>0 \<le> p\<close>] by blast
      with idle [rule_format, of i] show False by (cases "mr_cons s i") auto
    qed
    then show ?thesis unfolding booksD(2) [OF B] using P(4) by auto
  qed
  ultimately show ?thesis using booksD(1,5) [OF B] P(2) ring_invD(4) [OF R] by auto
qed


lemma capacity_one: "mpmc_new 1 x = Some \<lparr>mq_enq = 0, mq_deq = 0, mq_mask = 0, mq_seq = [0], mq_data = [x], mq_overflow = [], mq_count = 0\<rparr>"
proof -
  have "round_pow2 1 = Some 1" unfolding round_pow2_def by (subst round_pow2_loop.simps) simp
  then show ?thesis by (simp add: mpmc_new_def)
qed

lemma capacity_one_push:
  "mpmc_push (mpmc_push (the (mpmc_new 1 x)) a) b =
     \<lparr>mq_enq = 2, mq_deq = 0, mq_mask = 0, mq_seq = [2], mq_data = [b], mq_overflow = [], mq_count = 0\<rparr>"
  by (simp add: capacity_one mpmc_push_def numeral_eq_Suc seq_at_def slot_index_def store_seq_def store_data_def)

text \<open>
  Below two cells the scheme breaks: a published item leaves its cell's sequence at the next position,
  which is also what marks the cell free for that position. The second push overwrites
  the first item, and from then on a pop loads the same position and sequence forever.
\<close>

theorem mpmc_capacity_one_stuck:
  "mq_data (mpmc_push (mpmc_push (the (mpmc_new 1 x)) a) b) = [b]
   \<and> \<not> cons_idle (snd (((\<lambda>(q, c). deq_step fails q c) ^^ n) (mpmc_push (mpmc_push (the (mpmc_new 1 x)) a) b, Deq_start)))"
proof -
  let ?q = "\<lparr>mq_enq = 2, mq_deq = 0, mq_mask = 0, mq_seq = [2], mq_data = [b], mq_overflow = [], mq_count = 0\<rparr>"
  have "((\<lambda>(q, c). deq_step fails q c) ^^ n) (?q, Deq_start) \<in> {(?q, Deq_start), (?q, Deq_pos 0), (?q, Deq_seq 0 2)}"
    by (induction n) (auto simp: seq_at_def slot_index_def)
  then show ?thesis unfolding capacity_one_push by auto
qed

section \<open>Witnesses\<close>

text \<open>One producer pushes 5 through a ring of two cells.\<close>

definition demo_ring :: "nat mpmc" where
  "demo_ring = \<lparr>mq_enq = 0, mq_deq = 0, mq_mask = 1, mq_seq = [0, 1], mq_data = [0, 0], mq_overflow = [], mq_count = 0\<rparr>"

definition demo_claimed :: "nat mpmc_run" where
  "demo_claimed = \<lparr>mr_queue = demo_ring\<lparr>mq_enq := 1\<rparr>, mr_prod = (\<lambda>_. Enq_done)(0 := Enq_claimed 5 0),
     mr_cons = (\<lambda>_. Deq_done None), mr_phase = (\<lambda>_. Fresh)(0 := Claimed), mr_log = [5], mr_out = [], mr_spilled = [], mr_unspilled = []\<rparr>"

lemma demo_ring_new: "mpmc_new 2 (0::nat) = Some demo_ring"
proof -
  have "round_pow2 2 = Some 2"
    unfolding round_pow2_def by (subst round_pow2_loop.simps, simp, subst round_pow2_loop.simps, simp)
  moreover have "replicate 2 (0::nat) = [0, 0]" "map int [0..<2] = [0, 1]" by (simp_all add: numeral_2_eq_2)
  ultimately show ?thesis by (simp add: mpmc_new_def demo_ring_def)
qed

definition enq_next :: "nat \<Rightarrow> 'a mpmc_run \<Rightarrow> 'a mpmc_run" where
  "enq_next i s = (if mr_prod s i = Enq_done then s else
     let (q, p) = enq_step False (mr_queue s) (mr_prod s i) in
       note_enq (mr_prod s i) p (s\<lparr>mr_queue := q, mr_prod := (mr_prod s)(i := p)\<rparr>))"

lemma enq_next_reach: "mpmc_reach s \<Longrightarrow> mpmc_reach (enq_next i s)"
  by (auto simp: enq_next_def Let_def split: prod.splits intro: mr_step mq_enq)

lemma demo_claimed_reach: "mpmc_reach demo_claimed"
proof -
  let ?s = "(mpmc_run_new demo_ring)\<lparr>mr_prod := (mr_prod (mpmc_run_new demo_ring))(0 := Enq_start 5)\<rparr>"
  have "mpmc_reach (mpmc_run_new demo_ring)" by (rule mr_start [OF demo_ring_new]) simp
  then have "mpmc_reach ?s" by (rule mr_step [OF _ mq_push]) (simp add: mpmc_run_new_def)
  then have "mpmc_reach (enq_next 0 (enq_next 0 (enq_next 0 ?s)))" by (intro enq_next_reach)
  moreover have "enq_next 0 (enq_next 0 (enq_next 0 ?s)) = demo_claimed"
    by (simp add: enq_next_def mpmc_run_new_def demo_ring_def demo_claimed_def seq_at_def slot_index_def)
  ultimately show ?thesis by simp
qed

theorem mpmc_fifo_witness: "mq_enq (mr_queue demo_claimed) = int (length [5::nat])
    \<and> fst ` set (mr_out demo_claimed) = {0..<mq_deq (mr_queue demo_claimed)}"
  using mpmc_fifo [OF demo_claimed_reach] by (simp add: demo_claimed_def)

end
