(* ===== verification/Scheduler.thy ===== *)
theory Scheduler
  imports Work_Stealing Mpmc_Queue
begin

text \<open>
  The scheduler's queues and the choices it makes over them (src/scheduler.cpp, include/ts/scheduler.h, the
  process-wide holder in src/guarded.cpp): \<^verbatim>\<open>submit\<close>, \<^verbatim>\<open>find_work\<close> with its two valves, the yield point, the
  worker-less trampoline, and bringing the scheduler up and down. Each operation is modelled without
  interference; how the threads around them interleave is the subject of theory \<open>Worker_Pool\<close>.
\<close>

section \<open>State\<close>

text \<open>\<^verbatim>\<open>queues_\<close> by priority, \<^verbatim>\<open>local_normal_\<close>, and the two counts of \<^verbatim>\<open>detail::yield_signal\<close>.\<close>

record 'a sched =
  sd_high :: "'a mpmc"
  sd_normal :: "'a mpmc"
  sd_low :: "'a mpmc"
  sd_local :: "'a deque list"
  sd_yield_high :: int
  sd_yield_normal :: int

text \<open>The thread-local counters of \<^verbatim>\<open>find_work\<close>.\<close>

record valves =
  since_low :: int
  since_global :: int

definition low_valve_threshold :: int where
  "low_valve_threshold = 64"

definition global_valve_threshold :: int where
  "global_valve_threshold = 61"

section \<open>Operations\<close>

text \<open>\<^verbatim>\<open>submit\<close> of a threaded scheduler; \<open>worker\<close> is \<^verbatim>\<open>current_worker_index()\<close>.\<close>

definition submit_global :: "'a \<Rightarrow> priority \<Rightarrow> 'a sched \<Rightarrow> 'a sched" where
  "submit_global x p s = (case p of
     High \<Rightarrow> s\<lparr>sd_yield_high := sd_yield_high s + 1, sd_high := mpmc_push (sd_high s) x\<rparr>
   | Normal \<Rightarrow> s\<lparr>sd_yield_normal := sd_yield_normal s + 1, sd_normal := mpmc_push (sd_normal s) x\<rparr>
   | Low \<Rightarrow> s\<lparr>sd_low := mpmc_push (sd_low s) x\<rparr>)"

definition submit :: "int \<Rightarrow> 'a \<Rightarrow> priority \<Rightarrow> 'a sched \<Rightarrow> 'a sched" where
  "submit worker x p s =
     (if p = Normal \<and> worker \<ge> 0 \<and> nat worker < length (sd_local s) then
        (case deque_push (sd_local s ! nat worker) x of
           (d, True) \<Rightarrow> s\<lparr>sd_local := (sd_local s)[nat worker := d]\<rparr>
         | (d, False) \<Rightarrow> submit_global x p s)
      else submit_global x p s)"

text \<open>The per-thread xorshift behind the choice of a victim.\<close>

definition next_rand :: "32 word \<Rightarrow> 32 word" where
  "next_rand s0 = (let s1 = xor s0 (push_bit 13 s0); s2 = xor s1 (drop_bit 17 s1) in xor s2 (push_bit 5 s2))"

text \<open>The victims in scanning order, and the steal scan over them.\<close>

definition victims :: "nat \<Rightarrow> nat \<Rightarrow> nat list" where
  "victims n start = map (\<lambda>i. if start + i \<ge> n then start + i - n else start + i) [0..<n]"

fun steal_scan :: "nat \<Rightarrow> nat list \<Rightarrow> 'a deque list \<Rightarrow> 'a deque list \<times> 'a option" where
  "steal_scan w [] ds = (ds, None)"
| "steal_scan w (v # vs) ds =
     (if v = w then steal_scan w vs ds
      else case deque_steal (ds ! v) of
             (d, Some x) \<Rightarrow> (ds[v := d], Some x)
           | (d, None) \<Rightarrow> steal_scan w vs (ds[v := d]))"

text \<open>\<^verbatim>\<open>find_work\<close> in the order of the code; \<open>rnd\<close> is what \<^verbatim>\<open>next_rand\<close> returns.\<close>

definition find_low :: "'a sched \<Rightarrow> valves \<Rightarrow> 'a sched \<times> valves \<times> 'a option" where
  "find_low s c =
     (case mpmc_pop (sd_low s) of
        (q, Some x) \<Rightarrow> (s\<lparr>sd_low := q\<rparr>, c\<lparr>since_low := 0\<rparr>, Some x)
      | (q, None) \<Rightarrow> (s\<lparr>sd_low := q\<rparr>, c, None))"

definition find_steal :: "nat \<Rightarrow> 32 word \<Rightarrow> 'a sched \<Rightarrow> valves \<Rightarrow> 'a sched \<times> valves \<times> 'a option" where
  "find_steal w rnd s c =
     (let n = length (sd_local s) in
      if n > 1 then
        (case steal_scan w (victims n (unat (rnd mod word_of_nat n))) (sd_local s) of
           (ds, Some x) \<Rightarrow> (s\<lparr>sd_local := ds\<rparr>, c\<lparr>since_low := since_low c + 1\<rparr>, Some x)
         | (ds, None) \<Rightarrow> find_low (s\<lparr>sd_local := ds\<rparr>) c)
      else find_low s c)"

definition find_global :: "nat \<Rightarrow> 32 word \<Rightarrow> 'a sched \<Rightarrow> valves \<Rightarrow> 'a sched \<times> valves \<times> 'a option" where
  "find_global w rnd s c =
     (case mpmc_pop (sd_normal s) of
        (q, Some x) \<Rightarrow> (s\<lparr>sd_normal := q, sd_yield_normal := sd_yield_normal s - 1\<rparr>,
           c\<lparr>since_low := since_low c + 1, since_global := 0\<rparr>, Some x)
      | (q, None) \<Rightarrow> find_steal w rnd (s\<lparr>sd_normal := q\<rparr>) c)"

definition find_own :: "nat \<Rightarrow> 32 word \<Rightarrow> 'a sched \<Rightarrow> valves \<Rightarrow> 'a sched \<times> valves \<times> 'a option" where
  "find_own w rnd s c =
     (case deque_take (sd_local s ! w) of
        (d, Some x) \<Rightarrow> (s\<lparr>sd_local := (sd_local s)[w := d]\<rparr>,
           c\<lparr>since_low := since_low c + 1, since_global := since_global c + 1\<rparr>, Some x)
      | (d, None) \<Rightarrow> find_global w rnd (s\<lparr>sd_local := (sd_local s)[w := d]\<rparr>) c)"

definition find_global_valve :: "nat \<Rightarrow> 32 word \<Rightarrow> 'a sched \<Rightarrow> valves \<Rightarrow> 'a sched \<times> valves \<times> 'a option" where
  "find_global_valve w rnd s c =
     (if since_global c \<ge> global_valve_threshold then
        (case mpmc_pop (sd_normal s) of
           (q, Some x) \<Rightarrow> (s\<lparr>sd_normal := q, sd_yield_normal := sd_yield_normal s - 1\<rparr>,
              c\<lparr>since_global := 0, since_low := since_low c + 1\<rparr>, Some x)
         | (q, None) \<Rightarrow> find_own w rnd (s\<lparr>sd_normal := q\<rparr>) (c\<lparr>since_global := 0\<rparr>))
      else find_own w rnd s c)"

definition find_low_valve :: "nat \<Rightarrow> 32 word \<Rightarrow> 'a sched \<Rightarrow> valves \<Rightarrow> 'a sched \<times> valves \<times> 'a option" where
  "find_low_valve w rnd s c =
     (if since_low c \<ge> low_valve_threshold then
        (case mpmc_pop (sd_low s) of
           (q, Some x) \<Rightarrow> (s\<lparr>sd_low := q\<rparr>, c\<lparr>since_low := 0\<rparr>, Some x)
         | (q, None) \<Rightarrow> find_global_valve w rnd (s\<lparr>sd_low := q\<rparr>) (c\<lparr>since_low := 0\<rparr>))
      else find_global_valve w rnd s c)"

definition find_work :: "nat \<Rightarrow> 32 word \<Rightarrow> 'a sched \<Rightarrow> valves \<Rightarrow> 'a sched \<times> valves \<times> 'a option" where
  "find_work w rnd s c =
     (case mpmc_pop (sd_high s) of
        (q, Some x) \<Rightarrow> (s\<lparr>sd_high := q, sd_yield_high := sd_yield_high s - 1\<rparr>, c\<lparr>since_low := since_low c + 1\<rparr>, Some x)
      | (q, None) \<Rightarrow> find_low_valve w rnd (s\<lparr>sd_high := q\<rparr>) c)"

definition all_empty :: "'a sched \<Rightarrow> bool" where
  "all_empty s \<longleftrightarrow> mpmc_empty (sd_high s) \<and> mpmc_empty (sd_normal s) \<and> mpmc_empty (sd_low s)
     \<and> list_all dq_empty (sd_local s)"

definition quiescent :: "int \<Rightarrow> nat \<Rightarrow> 'a sched \<Rightarrow> bool" where
  "quiescent idle workers s \<longleftrightarrow> idle \<ge> int workers \<and> all_empty s"

text \<open>The yield point of a task of priority \<open>own\<close>: the task it runs nested, if any.\<close>

definition yield_to_higher :: "priority \<Rightarrow> bool \<Rightarrow> int \<Rightarrow> 'a sched \<Rightarrow> 'a sched \<times> 'a option" where
  "yield_to_higher own nested worker s =
     (if own = High \<or> nested \<or> worker < 0 then (s, None)
      else case mpmc_pop (sd_high s) of
             (q, Some x) \<Rightarrow> (s\<lparr>sd_high := q, sd_yield_high := sd_yield_high s - 1\<rparr>, Some x)
           | (q, None) \<Rightarrow>
               (if own = Low then
                  (case mpmc_pop (sd_normal s) of
                     (q', Some x) \<Rightarrow> (s\<lparr>sd_high := q, sd_normal := q', sd_yield_normal := sd_yield_normal s - 1\<rparr>, Some x)
                   | (q', None) \<Rightarrow> (s\<lparr>sd_high := q, sd_normal := q'\<rparr>, None))
                else (s\<lparr>sd_high := q\<rparr>, None)))"

section \<open>What the queues hold\<close>

definition held :: "'a mpmc \<Rightarrow> 'a list" where
  "held q = ring_items q @ mq_overflow q"

text \<open>Facts of the two work pools, in the form the proofs below rewrite with.\<close>

lemma pop_empty:
  assumes "mpmc_ok q" and "held q = []"
  shows "mpmc_pop q = (q, None)"
proof -
  have "mq_deq q = mq_enq q" using assms by (auto simp: held_def ring_items_def mpmc_ok_def)
  then show ?thesis using mpmc_pop_overflow [OF assms(1)] assms(2) by (simp add: held_def)
qed

lemma pop_some:
  assumes "mpmc_ok q" and "held q \<noteq> []"
  obtains q' where "mpmc_pop q = (q', Some (hd (held q)))" and "mpmc_ok q'" and "held q' = tl (held q)"
proof -
  obtain q' r where pop: "mpmc_pop q = (q', r)" by (cases "mpmc_pop q")
  note ok = mpmc_pop_ok [OF assms(1) pop, folded held_def]
  have "r = Some (hd (held q))" using ok(2) assms(2) by (cases "held q") auto
  then show thesis using that [of q'] pop ok(1,3) by simp
qed

lemma push_held: "mpmc_ok q \<Longrightarrow> mpmc_ok (mpmc_push q x) \<and> mset (held (mpmc_push q x)) = add_mset x (mset (held q))"
  using mpmc_push_ok [of q x] by (simp add: held_def)

lemma mpmc_empty_held: "mpmc_ok q \<Longrightarrow> mpmc_empty q \<longleftrightarrow> held q = []"
  by (auto simp: mpmc_empty_def held_def ring_items_def mpmc_ok_def)

lemma dq_empty_contents: "deque_ok d \<Longrightarrow> dq_empty d \<longleftrightarrow> contents d = []"
  by (auto simp: dq_empty_def contents_def)

lemma take_empty: "deque_ok d \<Longrightarrow> contents d = [] \<Longrightarrow> deque_take d = (d, None)"
  by (auto simp: deque_take_def numeral_eq_Suc contents_def deque_ok_def)

lemma take_some:
  assumes "deque_ok d" and "contents d \<noteq> []"
  obtains d' where "deque_take d = (d', Some (last (contents d)))" and "deque_ok d'" and "contents d' = butlast (contents d)"
proof -
  obtain d' r where take: "deque_take d = (d', r)" by (cases "deque_take d")
  note ok = deque_take_contents [OF _ _ take]
  with assms that take show ?thesis by (auto simp: deque_ok_def)
qed

lemma steal_empty: "deque_ok d \<Longrightarrow> contents d = [] \<Longrightarrow> deque_steal d = (d, None)"
  by (auto simp: deque_steal_def numeral_eq_Suc contents_def deque_ok_def)

lemma steal_some:
  assumes "deque_ok d" and "contents d \<noteq> []"
  obtains d' where "deque_steal d = (d', Some (hd (contents d)))" and "deque_ok d'" and "contents d' = tl (contents d)"
proof -
  obtain d' r where steal: "deque_steal d = (d', r)" by (cases "deque_steal d")
  note ok = deque_steal_contents [OF _ _ steal]
  with assms that steal show ?thesis by (auto simp: deque_ok_def)
qed

lemma push_deque:
  assumes "deque_ok d" and "deque_push d x = (d', r)"
  shows "deque_ok d' \<and> contents d' = (if r then contents d @ [x] else contents d)"
  using deque_push_contents [of d x d' r] assms by (simp add: deque_ok_def)

section \<open>The scan\<close>

definition sched_ok :: "'a sched \<Rightarrow> bool" where
  "sched_ok s \<longleftrightarrow> mpmc_ok (sd_high s) \<and> mpmc_ok (sd_normal s) \<and> mpmc_ok (sd_low s) \<and> (\<forall>d \<in> set (sd_local s). deque_ok d)
     \<and> length (sd_local s) < 2 ^ 32"

definition locals :: "'a deque list \<Rightarrow> 'a multiset" where
  "locals ds = \<Sum>\<^sub># (mset (map (\<lambda>d. mset (contents d)) ds))"

definition pending :: "'a sched \<Rightarrow> 'a multiset" where
  "pending s = mset (held (sd_high s)) + mset (held (sd_normal s)) + mset (held (sd_low s)) + locals (sd_local s)"

lemma locals_simps [simp]: "locals [] = {#}" "locals (d # ds) = mset (contents d) + locals ds" "locals (xs @ ys) = locals xs + locals ys"
  by (simp_all add: locals_def)

lemma locals_split: "v < length ds \<Longrightarrow> locals ds = locals (take v ds) + mset (contents (ds ! v)) + locals (drop (Suc v) ds)"
  using arg_cong [OF id_take_nth_drop [of v ds], of locals] by (simp add: add.assoc)

lemma locals_update:
  assumes "v < length ds" and "mset (contents (ds ! v)) = add_mset x (mset (contents d))"
  shows "locals ds = add_mset x (locals (ds[v := d]))"
proof -
  have "locals (ds[v := d]) = locals (take v ds) + mset (contents d) + locals (drop (Suc v) ds)"
    using assms(1) by (simp add: upd_conv_take_nth_drop)
  then show ?thesis using locals_split [OF assms(1)] assms(2) by simp
qed

lemma locals_empty: "locals ds = {#} \<longleftrightarrow> (\<forall>d \<in> set ds. contents d = [])"
  by (induction ds) auto

lemma victims_set: "start < n \<Longrightarrow> set (victims n start) = {..<n}"
proof -
  assume start: "start < n"
  have "v \<in> set (victims n start)" if v: "v < n" for v
  proof -
    define i where "i = (if v < start then n - start + v else v - start)"
    have "i < n" "v = (if start + i \<ge> n then start + i - n else start + i)" using v start by (auto simp: i_def)
    then show ?thesis unfolding victims_def set_map by (intro image_eqI [of _ _ i]) auto
  qed
  then show ?thesis using start by (auto simp: victims_def)
qed

lemma steal_scan_none:
  assumes "\<forall>d \<in> set ds. deque_ok d" and "set vs \<subseteq> {..<length ds}" and "\<forall>v \<in> set vs. v \<noteq> w \<longrightarrow> contents (ds ! v) = []"
  shows "steal_scan w vs ds = (ds, None)"
  using assms(2,3)
proof (induction vs)
  case (Cons v vs)
  then show ?case using steal_empty [of "ds ! v"] assms(1) by simp
qed simp

lemma steal_scan_some:
  assumes "\<forall>d \<in> set ds. deque_ok d" and "set vs \<subseteq> {..<length ds}" and "\<exists>v \<in> set vs. v \<noteq> w \<and> contents (ds ! v) \<noteq> []"
  shows "\<exists>v d. v \<in> set vs \<and> v \<noteq> w \<and> contents (ds ! v) \<noteq> [] \<and> deque_ok d \<and> contents d = tl (contents (ds ! v))
    \<and> steal_scan w vs ds = (ds[v := d], Some (hd (contents (ds ! v))))"
  using assms(2,3)
proof (induction vs)
  case (Cons v vs)
  have ok: "deque_ok (ds ! v)" using assms(1) Cons.prems(1) by simp
  consider (skip) "v = w \<or> contents (ds ! v) = []" | (hit) "v \<noteq> w" "contents (ds ! v) \<noteq> []" by blast
  then show ?case
  proof cases
    case skip
    then have "steal_scan w (v # vs) ds = steal_scan w vs ds" using steal_empty [OF ok] by auto
    then show ?thesis using Cons skip by auto
  next
    case hit
    then obtain d where "deque_steal (ds ! v) = (d, Some (hd (contents (ds ! v))))" "deque_ok d" "contents d = tl (contents (ds ! v))"
      using steal_some [OF ok] by blast
    then show ?thesis using hit by (intro exI [of _ v] exI [of _ d]) simp
  qed
qed simp


section \<open>The decision table\<close>

text \<open>
  Which class \<^verbatim>\<open>find_work\<close> serves and what happens to its counters, as a table over what is queued:
  high, global normal, low, the worker's own deque, the other deques.
\<close>

datatype served = From_high | From_low | From_global | From_own | From_steal | Nothing

definition choice :: "bool \<Rightarrow> bool \<Rightarrow> bool \<Rightarrow> bool \<Rightarrow> bool \<Rightarrow> valves \<Rightarrow> served \<times> valves" where
  "choice high normal low own steal c =
     (let c1 = (if since_low c \<ge> low_valve_threshold then c\<lparr>since_low := 0\<rparr> else c);
          c2 = (if since_global c \<ge> global_valve_threshold then c1\<lparr>since_global := 0\<rparr> else c1) in
      if high then (From_high, c\<lparr>since_low := since_low c + 1\<rparr>)
      else if since_low c \<ge> low_valve_threshold \<and> low then (From_low, c\<lparr>since_low := 0\<rparr>)
      else if since_global c \<ge> global_valve_threshold \<and> normal then (From_global, c2\<lparr>since_low := since_low c1 + 1\<rparr>)
      else if own then (From_own, c2\<lparr>since_low := since_low c1 + 1, since_global := since_global c2 + 1\<rparr>)
      else if normal then (From_global, c2\<lparr>since_low := since_low c1 + 1, since_global := 0\<rparr>)
      else if steal then (From_steal, c2\<lparr>since_low := since_low c1 + 1\<rparr>)
      else if low then (From_low, c2\<lparr>since_low := 0\<rparr>)
      else (Nothing, c2))"

definition others :: "nat \<Rightarrow> 'a sched \<Rightarrow> bool" where
  "others w s \<longleftrightarrow> (\<exists>v < length (sd_local s). v \<noteq> w \<and> contents (sd_local s ! v) \<noteq> [])"

fun served_by :: "served \<Rightarrow> nat \<Rightarrow> 'a sched \<Rightarrow> 'a sched \<Rightarrow> 'a option \<Rightarrow> bool" where
  "served_by From_high w s s' r \<longleftrightarrow> (\<exists>q. s' = s\<lparr>sd_high := q, sd_yield_high := sd_yield_high s - 1\<rparr> \<and> mpmc_ok q
     \<and> held (sd_high s) \<noteq> [] \<and> held q = tl (held (sd_high s)) \<and> r = Some (hd (held (sd_high s))))"
| "served_by From_low w s s' r \<longleftrightarrow> (\<exists>q. s' = s\<lparr>sd_low := q\<rparr> \<and> mpmc_ok q
     \<and> held (sd_low s) \<noteq> [] \<and> held q = tl (held (sd_low s)) \<and> r = Some (hd (held (sd_low s))))"
| "served_by From_global w s s' r \<longleftrightarrow> (\<exists>q. s' = s\<lparr>sd_normal := q, sd_yield_normal := sd_yield_normal s - 1\<rparr> \<and> mpmc_ok q
     \<and> held (sd_normal s) \<noteq> [] \<and> held q = tl (held (sd_normal s)) \<and> r = Some (hd (held (sd_normal s))))"
| "served_by From_own w s s' r \<longleftrightarrow> (\<exists>d. s' = s\<lparr>sd_local := (sd_local s)[w := d]\<rparr> \<and> deque_ok d
     \<and> contents (sd_local s ! w) \<noteq> [] \<and> contents d = butlast (contents (sd_local s ! w)) \<and> r = Some (last (contents (sd_local s ! w))))"
| "served_by From_steal w s s' r \<longleftrightarrow> (\<exists>v d. v < length (sd_local s) \<and> v \<noteq> w \<and> s' = s\<lparr>sd_local := (sd_local s)[v := d]\<rparr> \<and> deque_ok d
     \<and> contents (sd_local s ! v) \<noteq> [] \<and> contents d = tl (contents (sd_local s ! v)) \<and> r = Some (hd (contents (sd_local s ! v))))"
| "served_by Nothing w s s' r \<longleftrightarrow> s' = s \<and> r = None"

lemma find_low_choice:
  assumes "mpmc_ok (sd_low s)" and "find_low s c = (s', c', r)"
  shows "if held (sd_low s) \<noteq> [] then c' = c\<lparr>since_low := 0\<rparr> \<and> served_by From_low w s s' r
    else c' = c \<and> served_by Nothing w s s' r"
proof (cases "held (sd_low s) = []")
  case True
  then show ?thesis using assms(2) pop_empty [OF assms(1)] by (simp add: find_low_def)
next
  case False
  then obtain q' where "mpmc_pop (sd_low s) = (q', Some (hd (held (sd_low s))))" "mpmc_ok q'" "held q' = tl (held (sd_low s))"
    using pop_some [OF assms(1)] by blast
  with False assms(2) show ?thesis by (auto simp: find_low_def)
qed

lemma find_steal_choice:
  assumes ok: "sched_ok s" and "w < length (sd_local s)" and "find_steal w rnd s c = (s', c', r)"
  shows "if others w s then c' = c\<lparr>since_low := since_low c + 1\<rparr> \<and> served_by From_steal w s s' r
    else find_low s c = (s', c', r)"
proof (cases "length (sd_local s) > 1")
  case True
  let ?n = "length (sd_local s)"
  let ?vs = "victims ?n (unat (rnd mod word_of_nat ?n))"
  have n: "?n < 2 ^ 32" using ok by (simp add: sched_ok_def)
  then have un: "unat (word_of_nat ?n :: 32 word) = ?n" by (simp add: unsigned_of_nat take_bit_nat_eq_self)
  have "0 < ?n" using True by linarith
  then have "unat rnd mod ?n < ?n" by (rule mod_less_divisor)
  then have "unat (rnd mod word_of_nat ?n) < ?n" using un by (simp add: unat_mod_distrib)
  then have vs: "set ?vs = {..<?n}" by (rule victims_set)
  have dq: "\<forall>d \<in> set (sd_local s). deque_ok d" using ok by (simp add: sched_ok_def)
  show ?thesis
  proof (cases "others w s")
    case False
    then have "steal_scan w ?vs (sd_local s) = (sd_local s, None)"
      using vs by (intro steal_scan_none [OF dq]) (auto simp: others_def)
    with False True assms(3) show ?thesis by (simp add: find_steal_def)
  next
    case others: True
    then obtain v d where "v \<in> set ?vs" "v \<noteq> w" "contents (sd_local s ! v) \<noteq> []" "deque_ok d" "contents d = tl (contents (sd_local s ! v))"
      "steal_scan w ?vs (sd_local s) = ((sd_local s)[v := d], Some (hd (contents (sd_local s ! v))))"
      using steal_scan_some [OF dq, of ?vs w] vs by (auto simp: others_def)
    with others True assms(3) vs show ?thesis by (auto simp: find_steal_def)
  qed
next
  case False
  with assms(2) have "\<not> others w s" by (auto simp: others_def)
  with False assms(3) show ?thesis by (simp add: find_steal_def)
qed

lemma find_global_choice:
  assumes ok: "sched_ok s" and "find_global w rnd s c = (s', c', r)"
  shows "if held (sd_normal s) \<noteq> [] then c' = c\<lparr>since_low := since_low c + 1, since_global := 0\<rparr> \<and> served_by From_global w s s' r
    else find_steal w rnd s c = (s', c', r)"
proof -
  have q: "mpmc_ok (sd_normal s)" using ok by (simp add: sched_ok_def)
  show ?thesis
  proof (cases "held (sd_normal s) = []")
    case True
    then show ?thesis using assms(2) pop_empty [OF q] by (simp add: find_global_def)
  next
    case False
    then obtain q' where "mpmc_pop (sd_normal s) = (q', Some (hd (held (sd_normal s))))" "mpmc_ok q'" "held q' = tl (held (sd_normal s))"
      using pop_some [OF q] by blast
    with False assms(2) show ?thesis by (auto simp: find_global_def)
  qed
qed

lemma find_own_choice:
  assumes ok: "sched_ok s" and w: "w < length (sd_local s)" and "find_own w rnd s c = (s', c', r)"
  shows "if contents (sd_local s ! w) \<noteq> [] then
      c' = c\<lparr>since_low := since_low c + 1, since_global := since_global c + 1\<rparr> \<and> served_by From_own w s s' r
    else find_global w rnd s c = (s', c', r)"
proof -
  have d: "deque_ok (sd_local s ! w)" using ok w by (simp add: sched_ok_def)
  show ?thesis
  proof (cases "contents (sd_local s ! w) = []")
    case True
    then show ?thesis using assms(3) take_empty [OF d] by (simp add: find_own_def)
  next
    case False
    then obtain d' where "deque_take (sd_local s ! w) = (d', Some (last (contents (sd_local s ! w))))" "deque_ok d'"
      "contents d' = butlast (contents (sd_local s ! w))" using take_some [OF d] by blast
    with False assms(3) show ?thesis by (auto simp: find_own_def)
  qed
qed

lemma find_global_valve_choice:
  assumes ok: "sched_ok s" and "find_global_valve w rnd s c = (s', c', r)"
  shows "if since_global c \<ge> global_valve_threshold \<and> held (sd_normal s) \<noteq> [] then
      c' = c\<lparr>since_global := 0, since_low := since_low c + 1\<rparr> \<and> served_by From_global w s s' r
    else find_own w rnd s (if since_global c \<ge> global_valve_threshold then c\<lparr>since_global := 0\<rparr> else c) = (s', c', r)"
proof -
  have q: "mpmc_ok (sd_normal s)" using ok by (simp add: sched_ok_def)
  show ?thesis
  proof (cases "held (sd_normal s) = []")
    case True
    then show ?thesis using assms(2) pop_empty [OF q] by (simp add: find_global_valve_def split: if_splits)
  next
    case False
    then obtain q' where "mpmc_pop (sd_normal s) = (q', Some (hd (held (sd_normal s))))" "mpmc_ok q'" "held q' = tl (held (sd_normal s))"
      using pop_some [OF q] by blast
    with False assms(2) show ?thesis by (auto simp: find_global_valve_def split: if_splits)
  qed
qed

lemma find_low_valve_choice:
  assumes ok: "sched_ok s" and "find_low_valve w rnd s c = (s', c', r)"
  shows "if since_low c \<ge> low_valve_threshold \<and> held (sd_low s) \<noteq> [] then
      c' = c\<lparr>since_low := 0\<rparr> \<and> served_by From_low w s s' r
    else find_global_valve w rnd s (if since_low c \<ge> low_valve_threshold then c\<lparr>since_low := 0\<rparr> else c) = (s', c', r)"
proof -
  have q: "mpmc_ok (sd_low s)" using ok by (simp add: sched_ok_def)
  show ?thesis
  proof (cases "held (sd_low s) = []")
    case True
    then show ?thesis using assms(2) pop_empty [OF q] by (simp add: find_low_valve_def split: if_splits)
  next
    case False
    then obtain q' where "mpmc_pop (sd_low s) = (q', Some (hd (held (sd_low s))))" "mpmc_ok q'" "held q' = tl (held (sd_low s))"
      using pop_some [OF q] by blast
    with False assms(2) show ?thesis by (auto simp: find_low_valve_def split: if_splits)
  qed
qed

lemma find_high_choice:
  assumes ok: "sched_ok s" and "find_work w rnd s c = (s', c', r)"
  shows "if held (sd_high s) \<noteq> [] then c' = c\<lparr>since_low := since_low c + 1\<rparr> \<and> served_by From_high w s s' r
    else find_low_valve w rnd s c = (s', c', r)"
proof -
  have q: "mpmc_ok (sd_high s)" using ok by (simp add: sched_ok_def)
  show ?thesis
  proof (cases "held (sd_high s) = []")
    case True
    then show ?thesis using assms(2) pop_empty [OF q] by (simp add: find_work_def)
  next
    case False
    then obtain q' where "mpmc_pop (sd_high s) = (q', Some (hd (held (sd_high s))))" "mpmc_ok q'" "held q' = tl (held (sd_high s))"
      using pop_some [OF q] by blast
    with False assms(2) show ?thesis by (auto simp: find_work_def)
  qed
qed

abbreviation work_choice :: "nat \<Rightarrow> 'a sched \<Rightarrow> valves \<Rightarrow> served \<times> valves" where
  "work_choice w s c \<equiv> choice (held (sd_high s) \<noteq> []) (held (sd_normal s) \<noteq> []) (held (sd_low s) \<noteq> [])
     (contents (sd_local s ! w) \<noteq> []) (others w s) c"


lemma find_work_choice:
  assumes ok: "sched_ok s" and w: "w < length (sd_local s)" and "find_work w rnd s c = (s', c', r)"
  shows "snd (work_choice w s c) = c' \<and> served_by (fst (work_choice w s c)) w s s' r"
proof -
  let ?c1 = "if since_low c \<ge> low_valve_threshold then c\<lparr>since_low := 0\<rparr> else c"
  let ?c2 = "if since_global ?c1 \<ge> global_valve_threshold then ?c1\<lparr>since_global := 0\<rparr> else ?c1"
  have low: "mpmc_ok (sd_low s)" using ok by (simp add: sched_ok_def)
  have same: "since_global ?c1 = since_global c" by simp
  note high = find_high_choice [OF ok assms(3)]
  show ?thesis
  proof (cases "held (sd_high s) = []")
    case noh: True
    with high have lv: "find_low_valve w rnd s c = (s', c', r)" by simp
    note lowv = find_low_valve_choice [OF ok lv]
    show ?thesis
    proof (cases "since_low c \<ge> low_valve_threshold \<and> held (sd_low s) \<noteq> []")
      case True
      with lowv noh show ?thesis by (simp add: choice_def)
    next
      case nol: False
      with lowv have "find_global_valve w rnd s ?c1 = (s', c', r)" by argo
      note globv = find_global_valve_choice [OF ok this]
      show ?thesis
      proof (cases "since_global c \<ge> global_valve_threshold \<and> held (sd_normal s) \<noteq> []")
        case True
        with globv have "c' = ?c1\<lparr>since_global := 0, since_low := since_low ?c1 + 1\<rparr> \<and> served_by From_global w s s' r"
          unfolding same by argo
        with True noh nol show ?thesis by (auto simp: choice_def Let_def)
      next
        case nog: False
        with globv have "find_own w rnd s ?c2 = (s', c', r)" unfolding same by argo
        note own = find_own_choice [OF ok w this]
        show ?thesis
        proof (cases "contents (sd_local s ! w) = []")
          case noo: True
          with own have "find_global w rnd s ?c2 = (s', c', r)" by simp
          note glob = find_global_choice [OF ok this]
          show ?thesis
          proof (cases "held (sd_normal s) = []")
            case non: True
            with glob have "find_steal w rnd s ?c2 = (s', c', r)" by simp
            note steal = find_steal_choice [OF ok w this]
            show ?thesis
            proof (cases "others w s")
              case True
              with steal noh nol nog noo non show ?thesis by (auto simp: choice_def Let_def)
            next
              case nos: False
              with steal have "find_low s ?c2 = (s', c', r)" by simp
              note find_low_choice [OF low this, of w]
              with noh nol nog noo non nos show ?thesis by (auto simp: choice_def Let_def split: if_splits)
            qed
          qed (use glob noh nol nog noo in \<open>auto simp: choice_def Let_def\<close>)
        qed (use own noh nol nog in \<open>auto simp: choice_def Let_def\<close>)
      qed
    qed
  qed (use high in \<open>auto simp: choice_def Let_def\<close>)
qed

text \<open>Whatever is served, one task leaves the queues and the yield counts follow.\<close>

definition yield_slack :: "'a sched \<Rightarrow> int \<times> int" where
  "yield_slack s = (sd_yield_high s - int (length (held (sd_high s))), sd_yield_normal s - int (length (held (sd_normal s))))"

lemma set_update_ok: "e \<in> set (ds[v := d]) \<Longrightarrow> \<forall>d \<in> set ds. deque_ok d \<Longrightarrow> deque_ok d \<Longrightarrow> deque_ok e"
  using set_update_subset_insert [of ds v d] by auto

lemma served_conserves:
  assumes "served_by k w s s' r" and "sched_ok s" and "w < length (sd_local s)"
  shows "sched_ok s' \<and> length (sd_local s') = length (sd_local s) \<and> yield_slack s' = yield_slack s
    \<and> pending s = pending s' + (case r of None \<Rightarrow> {#} | Some x \<Rightarrow> {#x#})"
proof (cases k)
  case From_own
  then obtain d where d: "s' = s\<lparr>sd_local := (sd_local s)[w := d]\<rparr>" "deque_ok d" "contents (sd_local s ! w) \<noteq> []"
    "contents d = butlast (contents (sd_local s ! w))" "r = Some (last (contents (sd_local s ! w)))" using assms(1) by auto
  have "locals (sd_local s) = add_mset (last (contents (sd_local s ! w))) (locals ((sd_local s)[w := d]))"
    using locals_update [OF assms(3)] mset_butlast_last [OF d(3)] d(4) by simp
  moreover have "\<forall>e \<in> set ((sd_local s)[w := d]). deque_ok e" using set_update_ok d(2) assms(2) by (auto simp: sched_ok_def)
  ultimately show ?thesis using d assms(2) by (simp add: sched_ok_def pending_def yield_slack_def)
next
  case From_steal
  then obtain v d where d: "v < length (sd_local s)" "s' = s\<lparr>sd_local := (sd_local s)[v := d]\<rparr>" "deque_ok d" "contents (sd_local s ! v) \<noteq> []"
    "contents d = tl (contents (sd_local s ! v))" "r = Some (hd (contents (sd_local s ! v)))" using assms(1) by auto
  have "locals (sd_local s) = add_mset (hd (contents (sd_local s ! v))) (locals ((sd_local s)[v := d]))"
    using locals_update [OF d(1)] mset_hd_tl [OF d(4)] d(5) by simp
  moreover have "\<forall>e \<in> set ((sd_local s)[v := d]). deque_ok e" using set_update_ok d(3) assms(2) by (auto simp: sched_ok_def)
  ultimately show ?thesis using d assms(2) by (simp add: sched_ok_def pending_def yield_slack_def)
next
  case From_high
  then show ?thesis using assms mset_hd_tl [of "held (sd_high s)"]
    by (cases "held (sd_high s)") (auto simp: sched_ok_def pending_def yield_slack_def)
next
  case From_low
  then show ?thesis using assms mset_hd_tl [of "held (sd_low s)"]
    by (cases "held (sd_low s)") (auto simp: sched_ok_def pending_def yield_slack_def)
next
  case From_global
  then show ?thesis using assms mset_hd_tl [of "held (sd_normal s)"]
    by (cases "held (sd_normal s)") (auto simp: sched_ok_def pending_def yield_slack_def)
qed (use assms in auto)

lemma pending_empty:
  assumes "w < length (sd_local s)"
  shows "pending s = {#} \<longleftrightarrow> held (sd_high s) = [] \<and> held (sd_normal s) = [] \<and> held (sd_low s) = []
    \<and> contents (sd_local s ! w) = [] \<and> \<not> others w s"
proof -
  have "(\<forall>d \<in> set (sd_local s). contents d = []) \<longleftrightarrow> contents (sd_local s ! w) = [] \<and> \<not> others w s"
    using assms by (auto simp: others_def all_set_conv_all_nth; metis)
  then show ?thesis by (auto simp: pending_def locals_empty)
qed

lemma choice_nothing: "fst (choice high normal low own steal c) = Nothing \<longleftrightarrow> \<not> high \<and> \<not> normal \<and> \<not> low \<and> \<not> own \<and> \<not> steal"
  by (auto simp: choice_def Let_def)

lemma all_empty_pending:
  assumes "sched_ok s"
  shows "all_empty s \<longleftrightarrow> pending s = {#}"
  using assms by (auto simp: all_empty_def sched_ok_def pending_def locals_empty mpmc_empty_held dq_empty_contents list_all_iff)


lemma submit_global_ok:
  assumes "sched_ok s"
  shows "sched_ok (submit_global x p s) \<and> pending (submit_global x p s) = add_mset x (pending s)
    \<and> yield_slack (submit_global x p s) = yield_slack s"
proof -
  have ok: "mpmc_ok (sd_high s)" "mpmc_ok (sd_normal s)" "mpmc_ok (sd_low s)" using assms by (auto simp: sched_ok_def)
  have len: "int (length (held (mpmc_push q x))) = int (length (held q)) + 1" if "mpmc_ok q" for q
    using arg_cong [OF conjunct2 [OF push_held [OF that, of x]], of size] by simp
  show ?thesis
  proof (cases p)
    case High
    with assms push_held [OF ok(1), of x] len [OF ok(1)] show ?thesis
      by (simp add: submit_global_def sched_ok_def pending_def yield_slack_def)
  next
    case Normal
    with assms push_held [OF ok(2), of x] len [OF ok(2)] show ?thesis
      by (simp add: submit_global_def sched_ok_def pending_def yield_slack_def)
  next
    case Low
    with assms push_held [OF ok(3), of x] show ?thesis
      by (simp add: submit_global_def sched_ok_def pending_def yield_slack_def)
  qed
qed

lemma submit_ok:
  assumes ok: "sched_ok s"
  shows "sched_ok (submit worker x p s) \<and> pending (submit worker x p s) = add_mset x (pending s)
    \<and> yield_slack (submit worker x p s) = yield_slack s"
proof (cases "p = Normal \<and> worker \<ge> 0 \<and> nat worker < length (sd_local s) \<and> snd (deque_push (sd_local s ! nat worker) x)")
  case True
  let ?w = "nat worker"
  obtain d where d: "deque_push (sd_local s ! ?w) x = (d, True)" using True by (cases "deque_push (sd_local s ! ?w) x") auto
  have "deque_ok (sd_local s ! ?w)" using ok True by (simp add: sched_ok_def)
  from push_deque [OF this d] have c: "deque_ok d" "contents d = contents (sd_local s ! ?w) @ [x]" by auto
  have "locals ((sd_local s)[?w := d]) = add_mset x (locals (sd_local s))"
    using locals_split [of ?w "sd_local s"] locals_split [of ?w "(sd_local s)[?w := d]"] True c by simp
  moreover have "\<forall>e \<in> set ((sd_local s)[?w := d]). deque_ok e" using set_update_ok c(1) ok by (auto simp: sched_ok_def)
  ultimately show ?thesis using True d ok by (simp add: submit_def sched_ok_def pending_def yield_slack_def)
next
  case False
  then have "submit worker x p s = submit_global x p s" by (auto simp: submit_def split: prod.splits bool.splits)
  then show ?thesis using submit_global_ok [OF ok] by simp
qed

section \<open>Properties\<close>

text \<open>
  A scan loses nothing and misses nothing. \<^verbatim>\<open>find_work\<close> finds a task exactly when one is queued anywhere,
  the global queues, the worker's own deque or another worker's; the task it returns leaves the queues, and
  nothing else does; and the emptiness test of the shutdown path agrees with it.
\<close>

theorem find_work_complete:
  assumes "sched_ok s" and "w < length (sd_local s)" and "find_work w rnd s c = (s', c', r)"
  shows "sched_ok s' \<and> pending s = pending s' + (case r of None \<Rightarrow> {#} | Some x \<Rightarrow> {#x#})
    \<and> (r = None \<longleftrightarrow> pending s = {#}) \<and> (r = None \<longleftrightarrow> all_empty s)"
proof -
  note ch = find_work_choice [OF assms]
  have "r = None \<longleftrightarrow> fst (work_choice w s c) = Nothing"
    using ch by (cases "fst (work_choice w s c)") auto
  then have "r = None \<longleftrightarrow> pending s = {#}" unfolding choice_nothing pending_empty [OF assms(2)] by blast
  then show ?thesis using served_conserves [OF conjunct2 [OF ch] assms(1,2)] all_empty_pending [OF assms(1)] by simp
qed

text \<open>
  Priorities. A queued high-priority task is always taken first, in its queue's order. A low-priority task is
  taken only when no high one is queued and, unless the aging valve is due (64 tasks since the last low one),
  no normal task is queued anywhere, stealable ones included.
\<close>

theorem find_work_priority:
  assumes "sched_ok s" and "w < length (sd_local s)" and "find_work w rnd s c = (s', c', r)"
  shows "(held (sd_high s) \<noteq> [] \<longrightarrow> r = Some (hd (held (sd_high s))))
    \<and> (held (sd_low s') \<noteq> held (sd_low s) \<longrightarrow> held (sd_high s) = []
        \<and> (since_low c \<ge> 64 \<or> held (sd_normal s) = [] \<and> (\<forall>d \<in> set (sd_local s). contents d = [])))"
proof -
  note ch = find_work_choice [OF assms]
  have others: "contents (sd_local s ! w) = [] \<and> \<not> others w s \<Longrightarrow> \<forall>d \<in> set (sd_local s). contents d = []"
    by (auto simp: others_def all_set_conv_all_nth)
  have "held (sd_low s') = held (sd_low s)" if "fst (work_choice w s c) \<noteq> From_low"
    using ch that by (cases "fst (work_choice w s c)") auto
  moreover have "fst (work_choice w s c) = From_low \<Longrightarrow> held (sd_high s) = [] \<and>
      (since_low c \<ge> 64 \<or> held (sd_normal s) = [] \<and> contents (sd_local s ! w) = [] \<and> \<not> others w s)"
    by (auto simp: choice_def Let_def low_valve_threshold_def split: if_splits)
  moreover have "held (sd_high s) \<noteq> [] \<longrightarrow> fst (work_choice w s c) = From_high" by (simp add: choice_def Let_def)
  ultimately show ?thesis using ch others by fastforce
qed


text \<open>
  The valves. A worker calls \<^verbatim>\<open>find_work\<close> again and again, its counters carried along, on whatever the queues hold
  at each call.
\<close>

fun next_valves :: "nat \<Rightarrow> valves \<Rightarrow> ('a sched \<times> 32 word) list \<Rightarrow> valves" where
  "next_valves w c [] = c"
| "next_valves w c ((s, rnd) # xs) = next_valves w (fst (snd (find_work w rnd s c))) xs"

lemma next_valves_snoc: "next_valves w c (xs @ [(s, rnd)]) = fst (snd (find_work w rnd s (next_valves w c xs)))"
  by (induction w c xs rule: next_valves.induct) auto

definition low_served :: "nat \<Rightarrow> valves \<Rightarrow> 'a sched \<times> 32 word \<Rightarrow> bool" where
  "low_served w c x = (held (sd_low (fst (find_work w (snd x) (fst x) c))) = tl (held (sd_low (fst x))))"

definition global_served :: "nat \<Rightarrow> valves \<Rightarrow> 'a sched \<times> 32 word \<Rightarrow> bool" where
  "global_served w c x = (held (sd_normal (fst (find_work w (snd x) (fst x) c))) = tl (held (sd_normal (fst x))))"

lemma low_valve_counts:
  assumes "sched_ok s" and "w < length (sd_local s)" and "held (sd_high s) = []" and "held (sd_low s) \<noteq> []"
    and "\<not> low_served w c (s, rnd)"
  shows "since_low (fst (snd (find_work w rnd s c))) = since_low c + 1 \<and> since_low c < 64"
proof -
  obtain s' c' r where f: "find_work w rnd s c = (s', c', r)" using prod_cases3 by blast
  note ch = find_work_choice [OF assms(1,2) f]
  have "fst (work_choice w s c) \<noteq> From_low" using ch assms(5) f by (auto simp: low_served_def)
  then show ?thesis using ch f assms(3,4) by (auto simp: choice_def Let_def low_valve_threshold_def split: if_splits)
qed

lemma global_valve_counts:
  assumes "sched_ok s" and "w < length (sd_local s)" and "held (sd_high s) = []" and "held (sd_low s) = []"
    and "held (sd_normal s) \<noteq> []" and "\<not> global_served w c (s, rnd)"
  shows "since_global (fst (snd (find_work w rnd s c))) = since_global c + 1 \<and> since_global c < 61"
proof -
  obtain s' c' r where f: "find_work w rnd s c = (s', c', r)" using prod_cases3 by blast
  note ch = find_work_choice [OF assms(1,2) f]
  have "fst (work_choice w s c) \<noteq> From_global" using ch assms(6) f by (auto simp: global_served_def)
  then show ?thesis using ch f assms(3-5) by (auto simp: choice_def Let_def global_valve_threshold_def split: if_splits)
qed

lemma counting:
  assumes "\<And>i. i < n \<Longrightarrow> k (next_valves w c (take (Suc i) xs)) = k (next_valves w c (take i xs)) + (1::int)"
  shows "k (next_valves w c (take n xs)) = k c + int n"
  using assms by (induction n) auto

lemma take_step: "i < length xs \<Longrightarrow> next_valves w c (take (Suc i) xs) =
    fst (snd (find_work w (snd (xs ! i)) (fst (xs ! i)) (next_valves w c (take i xs))))"
  using next_valves_snoc [of w c "take i xs" "fst (xs ! i)" "snd (xs ! i)"] by (simp add: take_Suc_conv_app_nth)

text \<open>
  Nothing below high starves. However the other threads change the queues between the calls: of any 65
  consecutive scans of a worker that find no high task but a queued low one, at least one serves the low queue; and of
  any 62 that find neither high nor low but a task in the global normal queue, at least one serves that queue, however
  much work the worker's own deque keeps producing.
\<close>

theorem valves_prevent_starvation:
  assumes "\<forall>x \<in> set xs. sched_ok (fst x) \<and> w < length (sd_local (fst x)) \<and> held (sd_high (fst x)) = []"
    and "0 \<le> since_low c" and "0 \<le> since_global c"
  shows "(length xs = 65 \<and> (\<forall>x \<in> set xs. held (sd_low (fst x)) \<noteq> []) \<longrightarrow>
        (\<exists>i < 65. low_served w (next_valves w c (take i xs)) (xs ! i)))
    \<and> (length xs = 62 \<and> (\<forall>x \<in> set xs. held (sd_low (fst x)) = [] \<and> held (sd_normal (fst x)) \<noteq> []) \<longrightarrow>
        (\<exists>i < 62. global_served w (next_valves w c (take i xs)) (xs ! i)))"
proof (intro conjI impI)
  assume len: "length xs = 65 \<and> (\<forall>x \<in> set xs. held (sd_low (fst x)) \<noteq> [])"
  show "\<exists>i < 65. low_served w (next_valves w c (take i xs)) (xs ! i)"
  proof (rule ccontr)
    assume none: "\<not> ?thesis"
    have step: "since_low (next_valves w c (take (Suc i) xs)) = since_low (next_valves w c (take i xs)) + 1
        \<and> since_low (next_valves w c (take i xs)) < 64" if "i < 65" for i
    proof -
      have "xs ! i \<in> set xs" using that len by simp
      then show ?thesis
        using low_valve_counts [of "fst (xs ! i)" w "next_valves w c (take i xs)" "snd (xs ! i)"] none assms(1) len that
        by (simp add: take_step)
    qed
    have "since_low (next_valves w c (take 64 xs)) = since_low c + 64"
      using counting [of 64 since_low w c xs] step by simp
    with step [of 64] assms(2) show False by simp
  qed
next
  assume len: "length xs = 62 \<and> (\<forall>x \<in> set xs. held (sd_low (fst x)) = [] \<and> held (sd_normal (fst x)) \<noteq> [])"
  show "\<exists>i < 62. global_served w (next_valves w c (take i xs)) (xs ! i)"
  proof (rule ccontr)
    assume none: "\<not> ?thesis"
    have step: "since_global (next_valves w c (take (Suc i) xs)) = since_global (next_valves w c (take i xs)) + 1
        \<and> since_global (next_valves w c (take i xs)) < 61" if "i < 62" for i
    proof -
      have "xs ! i \<in> set xs" using that len by simp
      then show ?thesis
        using global_valve_counts [of "fst (xs ! i)" w "next_valves w c (take i xs)" "snd (xs ! i)"] none assms(1) len that
        by (simp add: take_step)
    qed
    have "since_global (next_valves w c (take 61 xs)) = since_global c + 61"
      using counting [of 61 since_global w c xs] step by simp
    with step [of 61] assms(3) show False by simp
  qed
qed

text \<open>
  The counter behind the low valve is not capped while high tasks keep coming: the high branch returns before
  the reset, so after \<open>n\<close> consecutive high tasks it stands \<open>n\<close> higher, past any 32-bit bound.
\<close>

theorem high_only_counter_uncapped:
  assumes "\<forall>x \<in> set xs. sched_ok (fst x) \<and> w < length (sd_local (fst x)) \<and> held (sd_high (fst x)) \<noteq> []"
  shows "since_low (next_valves w c xs) = since_low c + int (length xs)"
  using assms
proof (induction w c xs rule: next_valves.induct)
  case (2 w c s rnd xs)
  obtain s' c' r where f: "find_work w rnd s c = (s', c', r)" using prod_cases3 by blast
  have "c' = c\<lparr>since_low := since_low c + 1\<rparr>" using find_high_choice [OF _ f] 2(2) by simp
  with f 2 show ?case by simp
qed simp

text \<open>
  Submitting. A submitted task is in exactly one queue afterwards and nothing else moves; the two yield counts
  keep equal distance to the lengths of the queues they announce, through submits, scans and yield points
  alike (so they are exact when they start exact); and a yield point only ever runs a task of a strictly
  higher class, from a worker thread and never nested.
\<close>

theorem submit_and_yield_exact:
  assumes "sched_ok s"
  shows "pending (submit worker x p s) = add_mset x (pending s) \<and> yield_slack (submit worker x p s) = yield_slack s
    \<and> yield_slack (fst (yield_to_higher own nested worker s)) = yield_slack s
    \<and> (\<forall>y. snd (yield_to_higher own nested worker s) = Some y \<longrightarrow> own \<noteq> High \<and> \<not> nested \<and> 0 \<le> worker
        \<and> (if held (sd_high s) \<noteq> [] then y = hd (held (sd_high s)) else own = Low \<and> held (sd_normal s) \<noteq> [] \<and> y = hd (held (sd_normal s))))"
proof -
  have ok: "mpmc_ok (sd_high s)" "mpmc_ok (sd_normal s)" using assms by (auto simp: sched_ok_def)
  have "yield_slack (fst (yield_to_higher own nested worker s)) = yield_slack s
    \<and> (\<forall>y. snd (yield_to_higher own nested worker s) = Some y \<longrightarrow> own \<noteq> High \<and> \<not> nested \<and> 0 \<le> worker
        \<and> (if held (sd_high s) \<noteq> [] then y = hd (held (sd_high s)) else own = Low \<and> held (sd_normal s) \<noteq> [] \<and> y = hd (held (sd_normal s))))"
  proof (cases "held (sd_high s) = []")
    case False
    then obtain q where "mpmc_pop (sd_high s) = (q, Some (hd (held (sd_high s))))" "held q = tl (held (sd_high s))"
      using pop_some [OF ok(1)] by blast
    with False show ?thesis by (cases "held (sd_high s)") (auto simp: yield_to_higher_def yield_slack_def)
  next
    case high: True
    show ?thesis
    proof (cases "held (sd_normal s) = []")
      case True
      then show ?thesis using high pop_empty [OF ok(1)] pop_empty [OF ok(2)] by (simp add: yield_to_higher_def)
    next
      case False
      then obtain q where "mpmc_pop (sd_normal s) = (q, Some (hd (held (sd_normal s))))" "held q = tl (held (sd_normal s))"
        using pop_some [OF ok(2)] by blast
      with False high pop_empty [OF ok(1)] show ?thesis
        by (cases "held (sd_normal s)") (auto simp: yield_to_higher_def yield_slack_def)
    qed
  qed
  moreover have "pending (submit worker x p s) = add_mset x (pending s) \<and> yield_slack (submit worker x p s) = yield_slack s"
    using submit_ok [OF assms] by blast
  ultimately show ?thesis by blast
qed


section \<open>Bringing the scheduler up and down\<close>

text \<open>\<open>hardware\<close> is what \<^verbatim>\<open>std::thread::hardware_concurrency()\<close> answers, possibly 0.\<close>

record scheduler_config =
  cf_workers :: "32 word"
  cf_single :: bool

definition resolve_workers :: "32 word \<Rightarrow> scheduler_config \<Rightarrow> 32 word" where
  "resolve_workers hardware cf =
     (let n = cf_workers cf;
          n = (if n = 0 then hardware else n);
          n = (if n = 0 then 1 else n)
      in if cf_single cf then 0 else n)"

text \<open>
  The process-wide holder: \<^verbatim>\<open>g_scheduler\<close> with \<^verbatim>\<open>g_config\<close>, the published \<^verbatim>\<open>g_fast\<close>, and, as bookkeeping, the
  order of the teardown's effects.
\<close>

datatype teardown = Timer_stopped | Workers_joined | Unpublished

record holder =
  hl_scheduler :: "scheduler_config option"
  hl_fast :: "scheduler_config option"
  hl_effects :: "teardown list"

definition holder_new :: holder where
  "holder_new = \<lparr>hl_scheduler = None, hl_fast = None, hl_effects = []\<rparr>"

definition create_scheduler :: "scheduler_config \<Rightarrow> holder \<Rightarrow> holder result" where
  "create_scheduler cf h =
     (if hl_scheduler h \<noteq> None then Inl Scheduler_exists
      else Inr (h\<lparr>hl_scheduler := Some cf, hl_fast := Some cf\<rparr>))"

definition destroy_scheduler :: "holder \<Rightarrow> holder result" where
  "destroy_scheduler h =
     (if hl_scheduler h = None then Inl No_scheduler
      else Inr (h\<lparr>hl_scheduler := None, hl_fast := None,
        hl_effects := hl_effects h @ [Timer_stopped, Workers_joined, Unpublished]\<rparr>))"

definition global_scheduler :: "holder \<Rightarrow> scheduler_config result" where
  "global_scheduler h = (case hl_fast h of Some cf \<Rightarrow> Inr cf | None \<Rightarrow> Inl No_scheduler)"

definition scheduler_running :: "holder \<Rightarrow> bool" where
  "scheduler_running h \<longleftrightarrow> hl_fast h \<noteq> None"

definition current_scheduler_config :: "holder \<Rightarrow> scheduler_config result" where
  "current_scheduler_config h = (case hl_scheduler h of None \<Rightarrow> Inl No_scheduler | Some cf \<Rightarrow> Inr cf)"

datatype lifecycle = Create scheduler_config | Destroy

fun run_lifecycle :: "lifecycle list \<Rightarrow> holder \<Rightarrow> holder result" where
  "run_lifecycle [] h = Inr h"
| "run_lifecycle (Create cf # xs) h = (case create_scheduler cf h of Inl e \<Rightarrow> Inl e | Inr h' \<Rightarrow> run_lifecycle xs h')"
| "run_lifecycle (Destroy # xs) h = (case destroy_scheduler h of Inl e \<Rightarrow> Inl e | Inr h' \<Rightarrow> run_lifecycle xs h')"

text \<open>Creates and destroys in turn, beginning with a create when none is running.\<close>

fun alternates :: "bool \<Rightarrow> lifecycle list \<Rightarrow> bool" where
  "alternates up [] = True"
| "alternates up (Create cf # xs) = (\<not> up \<and> alternates True xs)"
| "alternates up (Destroy # xs) = (up \<and> alternates False xs)"

lemma lifecycle_steps:
  assumes "hl_fast h = hl_scheduler h"
  shows "(\<exists>h'. run_lifecycle xs h = Inr h') \<longleftrightarrow> alternates (hl_scheduler h \<noteq> None) xs"
    and "run_lifecycle xs h = Inr h' \<Longrightarrow> hl_fast h' = hl_scheduler h'"
    and "run_lifecycle xs h = Inl e \<Longrightarrow> e = Scheduler_exists \<or> e = No_scheduler"
  using assms
  by (induction xs h rule: run_lifecycle.induct) (auto simp: create_scheduler_def destroy_scheduler_def split: if_splits)

text \<open>
  There is at most one scheduler. A sequence of creates and destroys runs through exactly when the two alternate,
  beginning with a create; otherwise it ends in the documented fault. Between the calls the published
  pointer agrees with the holder, so a task resolves a scheduler exactly while one is up, and a
  threaded scheduler has at least one worker whatever the hardware reports.
\<close>

theorem scheduler_lifecycle:
  "((\<exists>h. run_lifecycle xs holder_new = Inr h) \<longleftrightarrow> alternates False xs)
   \<and> (case run_lifecycle xs holder_new of
        Inl e \<Rightarrow> e \<in> {Scheduler_exists, No_scheduler}
      | Inr h \<Rightarrow> scheduler_running h = (hl_scheduler h \<noteq> None) \<and> global_scheduler h = current_scheduler_config h)
   \<and> (resolve_workers hardware cf = 0 \<longleftrightarrow> cf_single cf)"
proof -
  have h: "hl_fast holder_new = hl_scheduler holder_new" "hl_scheduler holder_new = None" by (simp_all add: holder_new_def)
  have "case run_lifecycle xs holder_new of
        Inl e \<Rightarrow> e \<in> {Scheduler_exists, No_scheduler}
      | Inr h \<Rightarrow> scheduler_running h = (hl_scheduler h \<noteq> None) \<and> global_scheduler h = current_scheduler_config h"
    using lifecycle_steps(2,3) [OF h(1), of xs]
    by (cases "run_lifecycle xs holder_new")
      (auto simp: scheduler_running_def global_scheduler_def current_scheduler_config_def split: option.splits)
  moreover have "resolve_workers hardware cf = 0 \<longleftrightarrow> cf_single cf" by (simp add: resolve_workers_def Let_def)
  ultimately show ?thesis using lifecycle_steps(1) [OF h(1), of xs] h(2) by simp
qed

section \<open>Witnesses\<close>

text \<open>One worker, rings of two cells, and one task.\<close>

definition demo_sched :: "nat sched" where
  "demo_sched = \<lparr>sd_high = demo_ring, sd_normal = demo_ring, sd_low = demo_ring,
     sd_local = [\<lparr>dq_top = 0, dq_bottom = 0, dq_mask = 1, dq_buf = [0, 0]\<rparr>], sd_yield_high = 0, sd_yield_normal = 0\<rparr>"

definition demo_valves :: valves where
  "demo_valves = \<lparr>since_low = 0, since_global = 0\<rparr>"

lemma demo_ring_ok: "mpmc_ok demo_ring" "held demo_ring = []"
proof -
  have "mpmc_wf demo_ring" unfolding mpmc_wf_def by (rule exI [of _ 1]) (simp add: demo_ring_def)
  moreover have "seq_at demo_ring p = p" if "0 \<le> p" "p < 2" for p
  proof -
    have "p = 0 \<or> p = 1" using that by auto
    then show ?thesis by (auto simp: seq_at_def demo_ring_def slot_index_def)
  qed
  ultimately show "mpmc_ok demo_ring" by (simp add: mpmc_ok_def) (simp add: demo_ring_def)
  show "held demo_ring = []" by (simp add: held_def ring_items_def demo_ring_def)
qed

lemma demo_sched_ok: "sched_ok demo_sched" "pending demo_sched = {#}"
proof -
  have "deque_wf \<lparr>dq_top = 0, dq_bottom = 0, dq_mask = 1, dq_buf = [0, 0::nat]\<rparr>"
    unfolding deque_wf_def by (rule exI [of _ 1]) simp
  then show "sched_ok demo_sched" using demo_ring_ok by (simp add: sched_ok_def demo_sched_def deque_ok_def)
  show "pending demo_sched = {#}" using demo_ring_ok by (simp add: pending_def demo_sched_def contents_def)
qed

definition demo_with :: "priority \<Rightarrow> nat sched" where
  "demo_with p = submit_global 7 p demo_sched"

lemma demo_with_ok: "sched_ok (demo_with p)" "pending (demo_with p) = {#7#}" "length (sd_local (demo_with p)) = 1"
proof -
  show "sched_ok (demo_with p)" "pending (demo_with p) = {#7#}"
    using submit_global_ok [OF demo_sched_ok(1), of 7 p] demo_sched_ok(2) by (simp_all add: demo_with_def)
  show "length (sd_local (demo_with p)) = 1" by (cases p) (simp_all add: demo_with_def submit_global_def demo_sched_def)
qed

lemma demo_with_held: "held (sd_high (demo_with Low)) = []" "held (sd_low (demo_with Low)) \<noteq> []" "held (sd_high (demo_with High)) \<noteq> []"
  using push_held [OF demo_ring_ok(1), of 7] demo_ring_ok(2)
  by (auto simp: demo_with_def submit_global_def demo_sched_def)

theorem find_work_complete_witness: "snd (snd (find_work 0 1 (demo_with High) demo_valves)) \<noteq> None
    \<and> pending (demo_with High) = {#7#}"
proof -
  obtain s' c' r where f: "find_work 0 1 (demo_with High) demo_valves = (s', c', r)" using prod_cases3 by blast
  have "0 < length (sd_local (demo_with High))" using demo_with_ok(3) by simp
  then have "r \<noteq> None" using find_work_complete [OF demo_with_ok(1) _ f] demo_with_ok(2) [of High] by auto
  with f demo_with_ok show ?thesis by simp
qed

theorem find_work_priority_witness: "snd (snd (find_work 0 1 (demo_with High) demo_valves)) = Some (hd (held (sd_high (demo_with High))))"
proof -
  obtain s' c' r where f: "find_work 0 1 (demo_with High) demo_valves = (s', c', r)" using prod_cases3 by blast
  have "r = Some (hd (held (sd_high (demo_with High))))"
    using find_work_priority [OF demo_with_ok(1) _ f] demo_with_ok demo_with_held(3) by simp
  with f show ?thesis by simp
qed

theorem valves_prevent_starvation_witness:
  "\<exists>i < 65. low_served 0 (next_valves 0 demo_valves (take i (replicate 65 (demo_with Low, 1)))) (replicate 65 (demo_with Low, 1) ! i)"
  using valves_prevent_starvation [of "replicate 65 (demo_with Low, 1)" 0 demo_valves] demo_with_ok demo_with_held(1,2)
  by (simp add: demo_valves_def)

theorem submit_and_yield_exact_witness: "pending (submit 0 5 Normal demo_sched) = {#5#}"
  using submit_and_yield_exact [OF demo_sched_ok(1), of 0 5 Normal] demo_sched_ok(2) by simp

end
