(* ===== verification/Serial_Run.thy ===== *)
theory Serial_Run
  imports Macrame_Prelude
begin

text \<open>
  The worker-less scheduler (src/scheduler.cpp: \<^verbatim>\<open>run_serial\<close>, \<^verbatim>\<open>drain_serial\<close>, \<^verbatim>\<open>drain_serial_pending\<close>): a submitted task runs
  on the submitting thread, through a per-thread queue that turns chains of tasks into a loop. What a task
  does is an argument of the model: the submits and blocking waits its body performs, in order.
\<close>

section \<open>The trampoline\<close>

datatype 'a action = Submit 'a | Sync

text \<open>\<^verbatim>\<open>serial_pending\<close>, \<^verbatim>\<open>serial_head\<close>, \<^verbatim>\<open>serial_draining\<close>; the last two fields record what was submitted and started.\<close>

record 'a serial =
  sr_pending :: "'a list"
  sr_head :: nat
  sr_draining :: bool
  sr_submitted :: "'a list"
  sr_started :: "'a list"

definition serial_new :: "'a serial" where
  "serial_new = \<lparr>sr_pending = [], sr_head = 0, sr_draining = False, sr_submitted = [], sr_started = []\<rparr>"

text \<open>
  A body may run forever, so the functions carry fuel: \<open>None\<close> is a run that has not ended. One unit is spent on
  every task started.
\<close>

function (sequential) drain_serial :: "nat \<Rightarrow> ('a \<Rightarrow> 'a action list) \<Rightarrow> 'a serial \<Rightarrow> 'a serial option"
  and run_serial :: "nat \<Rightarrow> ('a \<Rightarrow> 'a action list) \<Rightarrow> 'a \<Rightarrow> 'a serial \<Rightarrow> 'a serial option"
  and run_body :: "nat \<Rightarrow> ('a \<Rightarrow> 'a action list) \<Rightarrow> 'a action list \<Rightarrow> 'a serial \<Rightarrow> 'a serial option" where
  "drain_serial fuel body s =
     (if sr_head s < length (sr_pending s) then
        (case fuel of
           0 \<Rightarrow> None
         | Suc n \<Rightarrow>
             (let e = sr_pending s ! sr_head s in
              case run_body n body (body e) (s\<lparr>sr_head := sr_head s + 1, sr_started := sr_started s @ [e]\<rparr>) of
                None \<Rightarrow> None
              | Some s' \<Rightarrow> drain_serial n body s'))
      else Some s)"
| "run_serial fuel body x s =
     (let s1 = s\<lparr>sr_pending := sr_pending s @ [x], sr_submitted := sr_submitted s @ [x]\<rparr> in
      if sr_draining s then Some s1
      else case drain_serial fuel body (s1\<lparr>sr_draining := True\<rparr>) of
             None \<Rightarrow> None
           | Some s2 \<Rightarrow> Some (s2\<lparr>sr_pending := [], sr_head := 0, sr_draining := False\<rparr>))"
| "run_body fuel body [] s = Some s"
| "run_body fuel body (Submit y # as) s =
     (case run_serial fuel body y s of None \<Rightarrow> None | Some s' \<Rightarrow> run_body fuel body as s')"
| "run_body fuel body (Sync # as) s =
     (case drain_serial fuel body s of None \<Rightarrow> None | Some s' \<Rightarrow> run_body fuel body as s')"
  by pat_completeness auto

termination
  by (relation "measures [\<lambda>x. case x of Inl (n, _) \<Rightarrow> n | Inr (Inl (n, _)) \<Rightarrow> n | Inr (Inr (n, _)) \<Rightarrow> n,
      \<lambda>x. case x of Inl _ \<Rightarrow> 0 | Inr (Inl _) \<Rightarrow> 1 | Inr (Inr (_, _, as, _)) \<Rightarrow> 2 + length as]") auto

declare drain_serial.simps [simp del] run_serial.simps [simp del]

lemma drain_done: "\<not> sr_head s < length (sr_pending s) \<Longrightarrow> drain_serial n body s = Some s"
  by (subst drain_serial.simps) simp

lemma drain_zero: "sr_head s < length (sr_pending s) \<Longrightarrow> drain_serial 0 body s = None"
  by (subst drain_serial.simps) simp

section \<open>First in, first out\<close>

text \<open>During a drain the tasks submitted before it have all started; of the pending ones, those below the head.\<close>

definition serial_ok :: "'a list \<Rightarrow> 'a serial \<Rightarrow> bool" where
  "serial_ok base s \<longleftrightarrow> sr_head s \<le> length (sr_pending s) \<and> sr_submitted s = base @ sr_pending s
     \<and> sr_started s = base @ take (sr_head s) (sr_pending s)"

lemma serial_fifo_steps:
  "drain_serial n body s = Some s' \<Longrightarrow> serial_ok base s \<Longrightarrow> sr_draining s \<Longrightarrow>
     serial_ok base s' \<and> sr_draining s' \<and> sr_head s' = length (sr_pending s')"
  "run_serial n body x s = Some s' \<Longrightarrow> serial_ok base s \<Longrightarrow> sr_draining s \<Longrightarrow> serial_ok base s' \<and> sr_draining s'"
  "run_body n body as s = Some s' \<Longrightarrow> serial_ok base s \<Longrightarrow> sr_draining s \<Longrightarrow> serial_ok base s' \<and> sr_draining s'"
proof (induction n body s and n body x s and n body as s arbitrary: s' and s' and s'
    rule: drain_serial_run_serial_run_body.induct)
  case (1 fuel body s)
  show ?case
  proof (cases "sr_head s < length (sr_pending s)")
    case True
    let ?e = "sr_pending s ! sr_head s"
    let ?s = "s\<lparr>sr_head := sr_head s + 1, sr_started := sr_started s @ [?e]\<rparr>"
    obtain n where n: "fuel = Suc n" using 1(3) True by (cases fuel) (auto simp: drain_zero)
    obtain t where t: "run_body n body (body ?e) ?s = Some t" "drain_serial n body t = Some s'"
      using 1(3) True n by (auto simp: drain_serial.simps [of _ _ s] Let_def split: option.splits)
    have "serial_ok base ?s" "sr_draining ?s" using 1(4,5) True by (auto simp: serial_ok_def take_Suc_conv_app_nth)
    then have "serial_ok base t" "sr_draining t" using 1(1) [OF True n refl t(1)] by blast+
    then show ?thesis using 1(2) [OF True n refl t(1) t(2)] by blast
  next
    case False
    then have "s' = s" using 1(3) drain_done by fastforce
    with 1(4,5) False show ?thesis by (simp add: serial_ok_def)
  qed
next
  case (2 fuel body x s)
  then show ?case by (auto simp: run_serial.simps serial_ok_def)
next
  case (4 fuel body y as s)
  obtain t where t: "run_serial fuel body y s = Some t" "run_body fuel body as t = Some s'"
    using 4(3) by (auto split: option.splits)
  show ?case using 4(1) [OF t(1) 4(4,5)] 4(2) [OF t(1) t(2)] by blast
next
  case (5 fuel body as s)
  obtain t where t: "drain_serial fuel body s = Some t" "run_body fuel body as t = Some s'"
    using 5(3) by (auto split: option.splits)
  show ?case using 5(1) [OF t(1) 5(4,5)] 5(2) [OF t(1) t(2)] by blast
qed simp


text \<open>A drain only appends to the pending tasks.\<close>

lemma drain_keeps:
  "drain_serial n body s = Some s' \<Longrightarrow> sr_draining s \<Longrightarrow> sr_draining s' \<and> (\<exists>more. sr_pending s' = sr_pending s @ more)"
  "run_serial n body x s = Some s' \<Longrightarrow> sr_draining s \<Longrightarrow> sr_draining s' \<and> (\<exists>more. sr_pending s' = sr_pending s @ more)"
  "run_body n body as s = Some s' \<Longrightarrow> sr_draining s \<Longrightarrow> sr_draining s' \<and> (\<exists>more. sr_pending s' = sr_pending s @ more)"
proof (induction n body s and n body x s and n body as s arbitrary: s' and s' and s'
    rule: drain_serial_run_serial_run_body.induct)
  case (1 fuel body s)
  show ?case
  proof (cases "sr_head s < length (sr_pending s)")
    case True
    let ?e = "sr_pending s ! sr_head s"
    let ?s = "s\<lparr>sr_head := sr_head s + 1, sr_started := sr_started s @ [?e]\<rparr>"
    obtain n where n: "fuel = Suc n" using 1(3) True by (cases fuel) (auto simp: drain_zero)
    obtain t where t: "run_body n body (body ?e) ?s = Some t" "drain_serial n body t = Some s'"
      using 1(3) True n by (auto simp: drain_serial.simps [of _ _ s] Let_def split: option.splits)
    then show ?thesis using 1(1) [OF True n refl t(1)] 1(2) [OF True n refl t(1) t(2)] 1(4) by auto
  next
    case False
    then have "s' = s" using 1(3) drain_done by fastforce
    with 1(4) show ?thesis by simp
  qed
next
  case (2 fuel body x s)
  then show ?case by (auto simp: run_serial.simps)
next
  case (4 fuel body y as s)
  obtain t where t: "run_serial fuel body y s = Some t" "run_body fuel body as t = Some s'"
    using 4(3) by (auto split: option.splits)
  show ?case using 4(1) [OF t(1) 4(4)] 4(2) [OF t(1) t(2)] by fastforce
next
  case (5 fuel body as s)
  obtain t where t: "drain_serial fuel body s = Some t" "run_body fuel body as t = Some s'"
    using 5(3) by (auto split: option.splits)
  show ?case using 5(1) [OF t(1) 5(4)] 5(2) [OF t(1) t(2)] by fastforce
qed simp

section \<open>Termination\<close>

fun submits :: "'a action list \<Rightarrow> 'a list" where
  "submits [] = []"
| "submits (Submit y # as) = y # submits as"
| "submits (Sync # as) = submits as"

text \<open>The work left, for a measure that each task's submits stay below.\<close>

definition work :: "('a \<Rightarrow> nat) \<Rightarrow> 'a serial \<Rightarrow> nat" where
  "work cost s = sum_list (map cost (drop (sr_head s) (sr_pending s)))"

definition drains :: "('a \<Rightarrow> nat) \<Rightarrow> ('a \<Rightarrow> 'a action list) \<Rightarrow> nat \<Rightarrow> bool" where
  "drains cost body n \<longleftrightarrow> (\<forall>s. sr_draining s \<longrightarrow> sr_head s \<le> length (sr_pending s) \<longrightarrow> work cost s \<le> n \<longrightarrow>
     (\<exists>s'. drain_serial n body s = Some s' \<and> sr_draining s' \<and> sr_head s' = length (sr_pending s')))"

lemma body_returns:
  assumes D: "drains cost body n" and "sr_draining s" and "sr_head s \<le> length (sr_pending s)"
    and "work cost s + sum_list (map cost (submits as)) \<le> n"
  shows "\<exists>s'. run_body n body as s = Some s' \<and> sr_draining s' \<and> sr_head s' \<le> length (sr_pending s')
    \<and> work cost s' \<le> work cost s + sum_list (map cost (submits as))"
  using assms(2-)
proof (induction as arbitrary: s rule: submits.induct)
  case (2 y as)
  let ?s = "s\<lparr>sr_pending := sr_pending s @ [y], sr_submitted := sr_submitted s @ [y]\<rparr>"
  have "work cost ?s = work cost s + cost y" using 2(3) by (simp add: work_def)
  moreover have "run_serial n body y s = Some ?s" using 2(2) by (simp add: run_serial.simps)
  ultimately show ?case using 2(1) [of ?s] 2(2-4) by (auto simp: add.assoc)
next
  case (3 as)
  then obtain t where t: "drain_serial n body s = Some t" "sr_draining t" "sr_head t = length (sr_pending t)"
    using D unfolding drains_def by fastforce
  then have "work cost t = 0" by (simp add: work_def)
  with 3 t show ?case by fastforce
qed auto

lemma drain_returns:
  assumes cost: "\<And>x. sum_list (map cost (submits (body x))) < cost x"
  shows "drains cost body n"
proof (induction n)
  case 0
  have "sr_head s = length (sr_pending s)" if "sr_head s \<le> length (sr_pending s)" "work cost s = 0" for s
  proof (rule ccontr)
    assume "sr_head s \<noteq> length (sr_pending s)"
    with that(1) have "sr_head s < length (sr_pending s)" by simp
    then have "cost (sr_pending s ! sr_head s) = 0" using that(2) by (simp add: work_def Cons_nth_drop_Suc [symmetric])
    with cost [of "sr_pending s ! sr_head s"] show False by simp
  qed
  then show ?case unfolding drains_def using drain_done by (metis le_zero_eq nat_less_le)
next
  case (Suc n)
  show ?case unfolding drains_def
  proof (intro allI impI)
    fix s :: "'a serial"
    assume s: "sr_draining s" "sr_head s \<le> length (sr_pending s)" "work cost s \<le> Suc n"
    show "\<exists>s'. drain_serial (Suc n) body s = Some s' \<and> sr_draining s' \<and> sr_head s' = length (sr_pending s')"
    proof (cases "sr_head s < length (sr_pending s)")
      case True
      let ?e = "sr_pending s ! sr_head s"
      let ?s = "s\<lparr>sr_head := sr_head s + 1, sr_started := sr_started s @ [?e]\<rparr>"
      have "work cost s = cost ?e + work cost ?s" using True by (simp add: work_def Cons_nth_drop_Suc [symmetric])
      then have le: "work cost ?s + sum_list (map cost (submits (body ?e))) \<le> n" using cost [of ?e] s(3) by linarith
      have "sr_draining ?s" "sr_head ?s \<le> length (sr_pending ?s)" using s(1) True by simp_all
      from body_returns [OF Suc this le] obtain t where t: "run_body n body (body ?e) ?s = Some t" "sr_draining t"
        "sr_head t \<le> length (sr_pending t)" "work cost t \<le> n" using le by auto
      then obtain s' where "drain_serial n body t = Some s'" "sr_draining s'" "sr_head s' = length (sr_pending s')"
        using Suc unfolding drains_def by blast
      with True t show ?thesis by (auto simp: drain_serial.simps [of "Suc n" body s] Let_def)
    qed (use s in \<open>simp add: drain_done\<close>)
  qed
qed

section \<open>Properties\<close>

text \<open>
  The worker-less scheduler runs everything, once, in submission order. Let each task's work be bounded by a measure
  that exceeds the sum over the tasks it submits. Then a submit from outside a drain returns, with the
  submitted task and everything submitted by the tasks it led to started exactly once and in the order
  of submission, whatever blocking waits the bodies contain, and with the trampoline empty again.
\<close>

theorem serial_runs_in_order:
  assumes "\<And>x. sum_list (map cost (submits (body x))) < cost x"
    and "sr_started s = sr_submitted s" and "sr_pending s = []" and "sr_head s = 0" and "\<not> sr_draining s"
  shows "\<exists>s'. run_serial (cost x) body x s = Some s' \<and> sr_started s' = sr_submitted s'
    \<and> (\<exists>more. sr_submitted s' = sr_submitted s @ x # more)
    \<and> sr_pending s' = [] \<and> sr_head s' = 0 \<and> \<not> sr_draining s'"
proof -
  let ?s = "s\<lparr>sr_pending := [x], sr_submitted := sr_submitted s @ [x], sr_draining := True\<rparr>"
  have "work cost ?s \<le> cost x" using assms(4) by (simp add: work_def)
  moreover have "sr_draining ?s" "sr_head ?s \<le> length (sr_pending ?s)" using assms(4) by simp_all
  moreover have "drains cost body (cost x)" by (rule drain_returns [OF assms(1)])
  ultimately obtain t where t: "drain_serial (cost x) body ?s = Some t" "sr_draining t" "sr_head t = length (sr_pending t)"
    unfolding drains_def by blast
  have "serial_ok (sr_submitted s) ?s" using assms(2,4) by (simp add: serial_ok_def)
  then have "serial_ok (sr_submitted s) t" using serial_fifo_steps(1) [OF t(1)] by simp
  moreover have "\<exists>more. sr_pending t = x # more" using drain_keeps(1) [OF t(1)] by auto
  ultimately show ?thesis using t assms(3,5) by (auto simp: run_serial.simps serial_ok_def)
qed

section \<open>Witnesses\<close>

text \<open>Each positive task submits the one below it and waits.\<close>

definition demo_body :: "nat \<Rightarrow> nat action list" where
  "demo_body n = (if n = 0 then [] else [Submit (n - 1), Sync])"

theorem serial_runs_in_order_witness:
  "\<exists>s'. run_serial (Suc 3) demo_body 3 serial_new = Some s' \<and> sr_started s' = sr_submitted s'"
proof -
  have "sum_list (map Suc (submits (demo_body n))) < Suc n" for n by (cases n) (simp_all add: demo_body_def)
  from serial_runs_in_order [of Suc demo_body serial_new 3, OF this] show ?thesis by (auto simp: serial_new_def)
qed

end
