(* ===== verification/Parallel_For.thy ===== *)
theory Parallel_For
  imports Macrame_Prelude "HOL-Library.Signed_Division"
begin

text \<open>
  The flat parallel loop (include/ts/parallel_for.h): \<^verbatim>\<open>claim_grain\<close>, \<^verbatim>\<open>effective_workers\<close>, the
  claim-and-process loop \<^verbatim>\<open>run_loop\<close> over \<^verbatim>\<open>Parallel_state\<close>, and the two ways of starting it,
  \<^verbatim>\<open>parallel_for\<close> (the caller is an executor and waits) and \<^verbatim>\<open>parallel_for_async\<close> (helpers only, a
  handle and a token). Each access to an atomic and each call of the body is one action, and the actions of the
  executors interleave freely. The counters are the source's 32-bit \<^verbatim>\<open>int\<close>s: an atomic addition
  wraps. A yield point only runs other tasks and leaves the state of the loop alone.
\<close>

section \<open>Options and grains\<close>

datatype balance = Guided | Balanced | Unbalanced

record parallel_options =
  po_max_workers :: int
  po_balance :: balance
  po_token :: bool

definition claim_grain :: "balance \<Rightarrow> int \<Rightarrow> int \<Rightarrow> int \<Rightarrow> int" where
  "claim_grain bal sz claimed workers =
     (case bal of
        Unbalanced \<Rightarrow> 1
      | Balanced \<Rightarrow> (let g = (sz + workers - 1) sdiv workers in if g < 1 then 1 else g)
      | Guided \<Rightarrow> (let g = (sz - claimed) sdiv (2 * workers) in if g < 1 then 1 else g))"

definition effective_workers :: "int \<Rightarrow> int \<Rightarrow> int \<Rightarrow> int" where
  "effective_workers sched_workers max_workers items =
     (let w = (if max_workers > 0 then max_workers else sched_workers);
          w = (if w < 1 then 1 else w)
      in if w > items then items else w)"

section \<open>The loop\<close>

text \<open>
  The shared state. The last three fields are not in the source: the outcomes the loop's block was
  settled with (cancelled or not), the indices the body was called with and the indices skipped.
\<close>

record flat =
  fl_n :: int
  fl_next :: int
  fl_done :: int
  fl_skipped :: bool
  fl_requested :: bool
  fl_balance :: balance
  fl_workers :: int
  fl_refs :: int
  fl_settles :: "bool list"
  fl_ran :: "int list"
  fl_skips :: "int list"

datatype flat_pc =
    Fl_top
  | Fl_tail
  | Fl_load
  | Fl_claim int
  | Fl_skip int
  | Fl_body int int int
  | Fl_account int
  | Fl_settle
  | Fl_finish bool
  | Fl_exit
  | Fl_gone

fun run_loop_flat :: "flat \<Rightarrow> flat_pc \<Rightarrow> flat \<times> flat_pc" where
  "run_loop_flat st Fl_top = (st, if fl_requested st then Fl_tail else Fl_load)"
| "run_loop_flat st Fl_tail =
     (let start = fl_next st in
      (st\<lparr>fl_next := fl_n st\<rparr>, if start \<ge> fl_n st then Fl_exit else Fl_skip start))"
| "run_loop_flat st (Fl_skip start) =
     (st\<lparr>fl_skipped := True, fl_skips := fl_skips st @ [start..fl_n st - 1]\<rparr>, Fl_account (fl_n st - start))"
| "run_loop_flat st Fl_load =
     (st, Fl_claim (claim_grain (fl_balance st) (fl_n st) (fl_next st) (fl_workers st)))"
| "run_loop_flat st (Fl_claim g) =
     (let start = fl_next st; stop = start + g in
      (st\<lparr>fl_next := wrap_int (start + g)\<rparr>,
       if start \<ge> fl_n st then Fl_exit
       else Fl_body start start (if stop > fl_n st then fl_n st else stop)))"
| "run_loop_flat st (Fl_body start i stop) =
     (if i < stop then (st\<lparr>fl_ran := fl_ran st @ [i]\<rparr>, Fl_body start (i + 1) stop)
      else (st, Fl_account (stop - start)))"
| "run_loop_flat st (Fl_account k) =
     (st\<lparr>fl_done := wrap_int (fl_done st + k)\<rparr>, if fl_done st + k = fl_n st then Fl_settle else Fl_top)"
| "run_loop_flat st Fl_settle = (st, Fl_finish (fl_skipped st))"
| "run_loop_flat st (Fl_finish c) = (st\<lparr>fl_settles := fl_settles st @ [c]\<rparr>, Fl_top)"
| "run_loop_flat st Fl_exit = (st, Fl_exit)"
| "run_loop_flat st Fl_gone = (st, Fl_gone)"

section \<open>Starting and joining\<close>

text \<open>
  A started loop: its state, the position of each of its \<open>fl_workers\<close> executors, whether executor 0
  is the blocked caller, whether a token was given, and whether the returned handle is still held.
\<close>

record flat_run =
  fr_st :: flat
  fr_pc :: "nat \<Rightarrow> flat_pc"
  fr_caller :: bool
  fr_token :: bool
  fr_handle :: bool

definition parallel_state_new :: "int \<Rightarrow> int \<Rightarrow> balance \<Rightarrow> int \<Rightarrow> flat" where
  "parallel_state_new n workers bal refs =
     \<lparr>fl_n = n, fl_next = 0, fl_done = 0, fl_skipped = False, fl_requested = False, fl_balance = bal,
      fl_workers = workers, fl_refs = refs, fl_settles = [], fl_ran = [], fl_skips = []\<rparr>"

definition parallel_for :: "int \<Rightarrow> int \<Rightarrow> parallel_options \<Rightarrow> flat_run option" where
  "parallel_for sched_workers n opts =
     (if n \<le> 0 then None
      else (let w = effective_workers sched_workers (po_max_workers opts) n in
        Some \<lparr>fr_st = parallel_state_new n w (po_balance opts) (1 + (w - 1)), fr_pc = (\<lambda>_. Fl_top),
              fr_caller = True, fr_token = False, fr_handle = False\<rparr>))"

definition parallel_for_async :: "int \<Rightarrow> int \<Rightarrow> parallel_options \<Rightarrow> flat_run option" where
  "parallel_for_async sched_workers n opts =
     (if n \<le> 0 then None
      else (let w = effective_workers sched_workers (po_max_workers opts) n in
        Some \<lparr>fr_st = parallel_state_new n w (po_balance opts) (1 + w), fr_pc = (\<lambda>_. Fl_top),
              fr_caller = False, fr_token = po_token opts, fr_handle = True\<rparr>))"

definition drop_ref :: "flat \<Rightarrow> flat" where
  "drop_ref st = st\<lparr>fl_refs := fl_refs st - 1\<rparr>"

definition flat_idle :: "flat_pc \<Rightarrow> bool" where
  "flat_idle p \<longleftrightarrow> p = Fl_exit \<or> p = Fl_gone"

text \<open>
  One action: of an executor inside the loop; of an executor leaving it (a helper drops its reference, the
  caller does so once its wait has seen the block settled); a request on the token; the handle's owner dropping it.
\<close>

inductive flat_step :: "flat_run \<Rightarrow> flat_run \<Rightarrow> bool" where
  fs_loop: "int i < fl_workers (fr_st s) \<Longrightarrow> \<not> flat_idle (fr_pc s i) \<Longrightarrow>
     run_loop_flat (fr_st s) (fr_pc s i) = (st, p) \<Longrightarrow>
     flat_step s (s\<lparr>fr_st := st, fr_pc := (fr_pc s)(i := p)\<rparr>)"
| fs_leave: "int i < fl_workers (fr_st s) \<Longrightarrow> fr_pc s i = Fl_exit \<Longrightarrow>
     (fr_caller s \<and> i = 0 \<longrightarrow> fl_settles (fr_st s) \<noteq> []) \<Longrightarrow>
     flat_step s (s\<lparr>fr_st := drop_ref (fr_st s), fr_pc := (fr_pc s)(i := Fl_gone)\<rparr>)"
| fs_request: "fr_token s \<Longrightarrow> \<not> fl_requested (fr_st s) \<Longrightarrow>
     flat_step s (s\<lparr>fr_st := (fr_st s)\<lparr>fl_requested := True\<rparr>\<rparr>)"
| fs_drop: "fr_handle s \<Longrightarrow>
     flat_step s (s\<lparr>fr_st := drop_ref (fr_st s), fr_handle := False\<rparr>)"

inductive flat_runs :: "flat_run \<Rightarrow> nat \<Rightarrow> flat_run \<Rightarrow> bool" for s0 where
  flat_runs_start: "flat_runs s0 0 s0"
| flat_runs_step: "flat_runs s0 k s \<Longrightarrow> flat_step s s' \<Longrightarrow> flat_runs s0 (Suc k) s'"

section \<open>Grains and wrap-around\<close>

lemma effective_workers_bounds:
  "0 < items \<Longrightarrow> 1 \<le> effective_workers sw mw items \<and> effective_workers sw mw items \<le> items"
  by (simp add: effective_workers_def Let_def)

lemma sdiv_le_self:
  assumes "0 < (w::int)"
  shows "w * (a sdiv w) \<le> max a 0"
proof (cases "0 \<le> a")
  case True
  then show ?thesis using assms
    by (auto simp: signed_divide_int_def sgn_if minus_mod_eq_mult_div [symmetric])
next
  case False
  then have "a sdiv w \<le> 0"
    using assms by (auto simp: signed_divide_int_def sgn_if pos_imp_zdiv_nonneg_iff)
  then have "w * (a sdiv w) \<le> 0" using assms by (simp add: mult_le_0_iff)
  then show ?thesis by simp
qed

lemma claim_grain_bounds:
  assumes "0 < n" "0 < w" "0 \<le> c"
  shows "1 \<le> claim_grain b n c w" and "w * claim_grain b n c w \<le> n + w"
proof -
  show "1 \<le> claim_grain b n c w" by (simp add: claim_grain_def Let_def split: balance.split)
  have 1: "w * ((n + w - 1) sdiv w) \<le> n + w - 1" using sdiv_le_self [of w "n + w - 1"] assms by simp
  have 2: "2 * w * ((n - c) sdiv (2 * w)) \<le> max (n - c) 0" using sdiv_le_self [of "2 * w" "n - c"] assms by simp
  have "w * ((n - c) sdiv (2 * w)) \<le> n" if "1 \<le> (n - c) sdiv (2 * w)"
  proof -
    have "0 \<le> w * ((n - c) sdiv (2 * w))" using that assms by simp
    with 2 assms show ?thesis by (simp add: max_def split: if_splits)
  qed
  with 1 assms show "w * claim_grain b n c w \<le> n + w"
    by (auto simp: claim_grain_def Let_def split: balance.split)
qed

section \<open>The invariant of the flat loop\<close>

fun todo :: "int \<Rightarrow> flat_pc \<Rightarrow> int list" where
  "todo n (Fl_skip start) = [start..n - 1]"
| "todo n (Fl_body start i stop) = [i..stop - 1]"
| "todo n _ = []"

fun inflight :: "int \<Rightarrow> flat_pc \<Rightarrow> int" where
  "inflight n (Fl_skip start) = n - start"
| "inflight n (Fl_body start i stop) = stop - start"
| "inflight n (Fl_account k) = k"
| "inflight n _ = 0"

fun deciding :: "flat_pc \<Rightarrow> int" where
  "deciding Fl_settle = 1"
| "deciding (Fl_finish c) = 1"
| "deciding _ = 0"

fun pc_left :: "flat_pc \<Rightarrow> int" where
  "pc_left Fl_exit = 1"
| "pc_left Fl_gone = 1"
| "pc_left _ = 0"

fun pc_ref :: "flat_pc \<Rightarrow> int" where
  "pc_ref Fl_gone = 0"
| "pc_ref _ = 1"

fun pc_ok :: "flat \<Rightarrow> flat_pc \<Rightarrow> bool" where
  "pc_ok st (Fl_claim g) \<longleftrightarrow> 1 \<le> g \<and> fl_workers st * g \<le> fl_n st + fl_workers st"
| "pc_ok st Fl_tail \<longleftrightarrow> fl_requested st"
| "pc_ok st (Fl_skip start) \<longleftrightarrow> 0 \<le> start \<and> start < fl_n st \<and> fl_requested st"
| "pc_ok st (Fl_body start i stop) \<longleftrightarrow> 0 \<le> start \<and> start \<le> i \<and> i \<le> stop \<and> stop \<le> fl_n st \<and> start < stop"
| "pc_ok st (Fl_account k) \<longleftrightarrow> 0 < k"
| "pc_ok st Fl_settle \<longleftrightarrow> fl_done st = fl_n st"
| "pc_ok st (Fl_finish c) \<longleftrightarrow> fl_done st = fl_n st \<and> c = fl_skipped st"
| "pc_ok st Fl_exit \<longleftrightarrow> fl_n st \<le> fl_next st"
| "pc_ok st Fl_gone \<longleftrightarrow> fl_n st \<le> fl_next st"
| "pc_ok st _ \<longleftrightarrow> True"

definition execs :: "flat \<Rightarrow> nat" where
  "execs st = nat (fl_workers st)"

definition tot :: "(flat_pc \<Rightarrow> 'b::comm_monoid_add) \<Rightarrow> flat_run \<Rightarrow> 'b" where
  "tot f s = (\<Sum>j<execs (fr_st s). f (fr_pc s j))"

lemma sum_fun_upd:
  fixes f :: "'a \<Rightarrow> 'b::comm_monoid_add"
  assumes "(i::nat) < w"
  shows "(\<Sum>j<w. f ((pc(i := p)) j)) + f (pc i) = (\<Sum>j<w. f (pc j)) + f p"
proof -
  have "(\<Sum>j<w. f (q j)) = f (q i) + (\<Sum>j\<in>{..<w} - {i}. f (q j))" for q
    using assms by (intro sum.remove) auto
  from this [of "pc(i := p)"] this [of pc] show ?thesis by (simp add: ac_simps)
qed

lemma tot_upd:
  fixes f :: "flat_pc \<Rightarrow> 'b::comm_monoid_add"
  assumes "i < execs (fr_st s)" "fl_workers st = fl_workers (fr_st s)"
  shows "tot f (s\<lparr>fr_st := st, fr_pc := (fr_pc s)(i := p)\<rparr>) + f (fr_pc s i) = tot f s + f p"
  using sum_fun_upd [OF assms(1), of f "fr_pc s" p] assms(2) by (simp add: tot_def execs_def)

lemma tot_upd_int:
  fixes f :: "flat_pc \<Rightarrow> int"
  assumes "i < execs (fr_st s)" "fl_workers st = fl_workers (fr_st s)"
  shows "tot f (s\<lparr>fr_st := st, fr_pc := (fr_pc s)(i := p)\<rparr>) = tot f s + f p - f (fr_pc s i)"
  using tot_upd [OF assms, of f p] by simp

lemma tot_ge:
  fixes f :: "flat_pc \<Rightarrow> int"
  assumes "i < execs (fr_st s)" "\<And>j. j < execs (fr_st s) \<Longrightarrow> 0 \<le> f (fr_pc s j)"
  shows "f (fr_pc s i) \<le> tot f s"
  unfolding tot_def using assms by (intro member_le_sum) auto

definition flat_static :: "flat \<Rightarrow> bool" where
  "flat_static st \<longleftrightarrow> 0 < fl_n st \<and> 1 \<le> fl_workers st \<and> 3 * fl_n st + 2 * fl_workers st < 2 ^ 31"

definition flat_counts :: "flat_run \<Rightarrow> bool" where
  "flat_counts s \<longleftrightarrow> (let st = fr_st s; w = fl_workers st; n = fl_n st in
     0 \<le> fl_next st \<and> 0 \<le> fl_done st
     \<and> w * fl_next st \<le> w * n + (n + w) * (1 + tot pc_left s)
     \<and> fl_done st + tot (inflight n) s = min (fl_next st) n
     \<and> fl_refs st = tot pc_ref s + (if fr_handle s then 1 else 0)
     \<and> (fl_requested st \<longrightarrow> fr_token s))"

definition flat_items :: "flat_run \<Rightarrow> bool" where
  "flat_items s \<longleftrightarrow> (let st = fr_st s in
     mset (fl_ran st) + mset (fl_skips st) + tot (\<lambda>p. mset (todo (fl_n st) p)) s = mset [0..min (fl_next st) (fl_n st) - 1])"

definition flat_outcome :: "flat_run \<Rightarrow> bool" where
  "flat_outcome s \<longleftrightarrow> (let st = fr_st s in
     int (length (fl_settles st)) + tot deciding s = (if fl_done st = fl_n st then 1 else 0)
     \<and> set (fl_settles st) \<subseteq> {fl_skipped st}
     \<and> (fl_skipped st \<longleftrightarrow> fl_skips st \<noteq> [])
     \<and> (fl_skipped st \<longrightarrow> fl_requested st))"

definition flat_pcs :: "flat_run \<Rightarrow> bool" where
  "flat_pcs s \<longleftrightarrow> (\<forall>i<execs (fr_st s). pc_ok (fr_st s) (fr_pc s i))"

definition flat_inv :: "flat_run \<Rightarrow> bool" where
  "flat_inv s \<longleftrightarrow> flat_static (fr_st s) \<and> flat_counts s \<and> flat_items s \<and> flat_outcome s \<and> flat_pcs s"

lemma pc_left_nonneg: "0 \<le> pc_left p" and pc_left_le: "pc_left p \<le> 1"
  by (cases p; simp)+

lemma deciding_nonneg: "0 \<le> deciding p"
  by (cases p) simp_all

lemma inflight_nonneg: "pc_ok st p \<Longrightarrow> 0 \<le> inflight (fl_n st) p"
  by (cases p) simp_all

lemma tot_left_bounds: "0 \<le> tot pc_left s" "tot pc_left s \<le> int (execs (fr_st s))"
proof -
  show "0 \<le> tot pc_left s" unfolding tot_def by (intro sum_nonneg) (simp add: pc_left_nonneg)
  show "tot pc_left s \<le> int (execs (fr_st s))"
    unfolding tot_def using sum_bounded_above [of "{..<execs (fr_st s)}" "\<lambda>j. pc_left (fr_pc s j)" 1]
    by (simp add: pc_left_le)
qed

lemma flat_inv_facts:
  assumes "flat_inv s"
  shows "0 < fl_n (fr_st s)" "1 \<le> fl_workers (fr_st s)" "0 \<le> fl_done (fr_st s)" "0 \<le> fl_next (fr_st s)"
    and "fl_done (fr_st s) + tot (inflight (fl_n (fr_st s))) s = min (fl_next (fr_st s)) (fl_n (fr_st s))"
    and "0 \<le> tot (inflight (fl_n (fr_st s))) s"
    and "i < execs (fr_st s) \<Longrightarrow> pc_ok (fr_st s) (fr_pc s i)"
    and "i < execs (fr_st s) \<Longrightarrow> inflight (fl_n (fr_st s)) (fr_pc s i) \<le> tot (inflight (fl_n (fr_st s))) s"
    and "fl_next (fr_st s) \<le> 3 * fl_n (fr_st s) + 2 * fl_workers (fr_st s)"
proof -
  show st: "0 < fl_n (fr_st s)" "1 \<le> fl_workers (fr_st s)" using assms by (auto simp: flat_inv_def flat_static_def)
  show "0 \<le> fl_done (fr_st s)" "0 \<le> fl_next (fr_st s)"
    and "fl_done (fr_st s) + tot (inflight (fl_n (fr_st s))) s = min (fl_next (fr_st s)) (fl_n (fr_st s))"
    using assms by (auto simp: flat_inv_def flat_counts_def Let_def)
  show ok: "pc_ok (fr_st s) (fr_pc s i)" if "i < execs (fr_st s)" for i
    using assms that by (auto simp: flat_inv_def flat_pcs_def)
  show "0 \<le> tot (inflight (fl_n (fr_st s))) s"
    unfolding tot_def by (intro sum_nonneg) (simp add: inflight_nonneg ok)
  show "inflight (fl_n (fr_st s)) (fr_pc s i) \<le> tot (inflight (fl_n (fr_st s))) s" if "i < execs (fr_st s)"
    using that by (intro tot_ge) (auto intro: inflight_nonneg ok)
  let ?w = "fl_workers (fr_st s)" and ?n = "fl_n (fr_st s)"
  have "?w * fl_next (fr_st s) \<le> ?w * ?n + (?n + ?w) * (1 + tot pc_left s)"
    using assms by (auto simp: flat_inv_def flat_counts_def Let_def)
  also have "\<dots> \<le> ?w * ?n + (?n + ?w) * (2 * ?w)"
    using st tot_left_bounds [of s] by (intro add_left_mono mult_left_mono) (auto simp: execs_def)
  also have "\<dots> = ?w * (3 * ?n + 2 * ?w)" by (simp add: algebra_simps)
  finally show "fl_next (fr_st s) \<le> 3 * ?n + 2 * ?w" using st by simp
qed

section \<open>Preservation\<close>

lemma flat_loop_static:
  "run_loop_flat st p = (st', p') \<Longrightarrow>
     fl_n st' = fl_n st \<and> fl_workers st' = fl_workers st \<and> fl_requested st' = fl_requested st \<and> fl_refs st' = fl_refs st"
  by (cases p) (auto simp: Let_def split: if_splits)

lemma flat_claim_fits:
  assumes inv: "flat_inv s" and i: "i < execs (fr_st s)" and pc: "fr_pc s i = Fl_claim g"
  shows "fl_next (fr_st s) + g < 2 ^ 31" "1 \<le> g" "wrap_int (fl_next (fr_st s) + g) = fl_next (fr_st s) + g"
    and "fl_workers (fr_st s) * (fl_next (fr_st s) + g)
       \<le> fl_workers (fr_st s) * fl_n (fr_st s) + (fl_n (fr_st s) + fl_workers (fr_st s)) * (2 + tot pc_left s)"
proof -
  let ?w = "fl_workers (fr_st s)" and ?n = "fl_n (fr_st s)"
  note F = flat_inv_facts [OF inv]
  have ok: "1 \<le> g" "?w * g \<le> ?n + ?w" using F(7) [OF i] pc by auto
  have le: "?w * fl_next (fr_st s) \<le> ?w * ?n + (?n + ?w) * (1 + tot pc_left s)"
    using inv by (auto simp: flat_inv_def flat_counts_def Let_def)
  show tot: "?w * (fl_next (fr_st s) + g) \<le> ?w * ?n + (?n + ?w) * (2 + tot pc_left s)"
    using le ok(2) by (simp add: algebra_simps)
  have "tot pc_left (s\<lparr>fr_st := fr_st s, fr_pc := (fr_pc s)(i := Fl_exit)\<rparr>) = tot pc_left s + 1"
    using pc by (subst tot_upd_int [OF i]) simp_all
  with tot_left_bounds(2) [of "s\<lparr>fr_st := fr_st s, fr_pc := (fr_pc s)(i := Fl_exit)\<rparr>"]
  have "2 + tot pc_left s \<le> 2 * ?w" using F(2) by (simp add: execs_def)
  then have "(?n + ?w) * (2 + tot pc_left s) \<le> (?n + ?w) * (2 * ?w)"
    using F(1,2) by (intro mult_left_mono) auto
  with tot have "?w * (fl_next (fr_st s) + g) \<le> ?w * (3 * ?n + 2 * ?w)" by (simp add: algebra_simps)
  then have b: "fl_next (fr_st s) + g \<le> 3 * ?n + 2 * ?w" using F(2) by simp
  then show "fl_next (fr_st s) + g < 2 ^ 31" using inv by (simp add: flat_inv_def flat_static_def)
  then show "wrap_int (fl_next (fr_st s) + g) = fl_next (fr_st s) + g"
    using F(4) ok(1) by (intro wrap_int_id) auto
  show "1 \<le> g" by (rule ok(1))
qed

lemma flat_account_fits:
  assumes inv: "flat_inv s" and i: "i < execs (fr_st s)" and pc: "fr_pc s i = Fl_account k"
  shows "0 < k" "fl_done (fr_st s) + k \<le> fl_n (fr_st s)"
    and "wrap_int (fl_done (fr_st s) + k) = fl_done (fr_st s) + k"
proof -
  note F = flat_inv_facts [OF inv]
  show k: "0 < k" using F(7) [OF i] pc by auto
  show d: "fl_done (fr_st s) + k \<le> fl_n (fr_st s)" using F(8) [OF i] F(5) pc by auto
  have "fl_n (fr_st s) < 2 ^ 31" using inv by (simp add: flat_inv_def flat_static_def)
  with d k F(3) show "wrap_int (fl_done (fr_st s) + k) = fl_done (fr_st s) + k" by (intro wrap_int_id) auto
qed

text \<open>While an executor still owns unaccounted items nobody has seen the last one.\<close>

lemma flat_busy_unsettled:
  assumes inv: "flat_inv s" and i: "i < execs (fr_st s)" and "0 < inflight (fl_n (fr_st s)) (fr_pc s i)"
  shows "fl_done (fr_st s) < fl_n (fr_st s)"
  using flat_inv_facts(5) [OF inv] flat_inv_facts(8) [OF inv i] assms(3) by auto

lemma flat_pcs_loop:
  assumes inv: "flat_inv s" and i: "i < execs (fr_st s)" and st: "run_loop_flat (fr_st s) (fr_pc s i) = (st, p)"
  shows "flat_pcs (s\<lparr>fr_st := st, fr_pc := (fr_pc s)(i := p)\<rparr>)"
proof -
  note F = flat_inv_facts [OF inv]
  have same: "fl_n st = fl_n (fr_st s)" "fl_workers st = fl_workers (fr_st s)" "fl_requested st = fl_requested (fr_st s)"
    using flat_loop_static [OF st] by auto
  have mine: "pc_ok st p"
    using st F(7) [OF i] F(1,2,4) claim_grain_bounds [of "fl_n (fr_st s)" "fl_workers (fr_st s)" "fl_next (fr_st s)"]
      flat_claim_fits [OF inv i] flat_account_fits [OF inv i] flat_busy_unsettled [OF inv i]
    by (cases "fr_pc s i") (auto simp: Let_def split: if_splits)
  have next_le: "fl_n (fr_st s) \<le> fl_next (fr_st s) \<longrightarrow> fl_n (fr_st s) \<le> fl_next st"
    using st F(4) flat_claim_fits [OF inv i] by (cases "fr_pc s i") (auto simp: Let_def split: if_splits)
  have frozen: "fl_done (fr_st s) = fl_n (fr_st s) \<longrightarrow> fl_done st = fl_done (fr_st s) \<and> fl_skipped st = fl_skipped (fr_st s)"
    using st flat_busy_unsettled [OF inv i] F(7) [OF i] by (cases "fr_pc s i") (auto simp: Let_def split: if_splits)
  have "pc_ok st (fr_pc s j)" if "j < execs (fr_st s)" for j
    using F(7) [OF that] same next_le frozen by (cases "fr_pc s j") auto
  with mine same show ?thesis by (simp add: flat_pcs_def execs_def)
qed

lemma flat_counts_loop:
  assumes inv: "flat_inv s" and i: "i < execs (fr_st s)" and st: "run_loop_flat (fr_st s) (fr_pc s i) = (st, p)"
    and busy: "\<not> flat_idle (fr_pc s i)"
  shows "flat_counts (s\<lparr>fr_st := st, fr_pc := (fr_pc s)(i := p)\<rparr>)"
proof -
  note F = flat_inv_facts [OF inv]
  have same: "fl_n st = fl_n (fr_st s)" "fl_workers st = fl_workers (fr_st s)" "fl_requested st = fl_requested (fr_st s)"
    "fl_refs st = fl_refs (fr_st s)"
    using flat_loop_static [OF st] by auto
  let ?w = "fl_workers (fr_st s)" and ?n = "fl_n (fr_st s)"
  have U: "tot f (s\<lparr>fr_st := st, fr_pc := (fr_pc s)(i := p)\<rparr>) = tot f s + f p - f (fr_pc s i)" for f :: "flat_pc \<Rightarrow> int"
    by (rule tot_upd_int [OF i same(2)])
  have old: "?w * fl_next (fr_st s) \<le> ?w * ?n + (?n + ?w) * (1 + tot pc_left s)"
    "fl_refs (fr_st s) = tot pc_ref s + (if fr_handle s then 1 else 0)" "fl_requested (fr_st s) \<longrightarrow> fr_token s"
    using inv by (auto simp: flat_inv_def flat_counts_def Let_def)
  have refs: "pc_ref p = pc_ref (fr_pc s i)"
    using st busy by (cases "fr_pc s i") (auto simp: Let_def flat_idle_def split: if_splits)
  have room: "0 \<le> (?n + ?w) * tot pc_left s" using F(1,2) tot_left_bounds(1) [of s] by simp
  have nonneg: "0 \<le> fl_next st \<and> 0 \<le> fl_done st"
    using st F(1,3,4) flat_claim_fits [OF inv i] flat_account_fits [OF inv i] by (cases "fr_pc s i") (auto simp: Let_def split: if_splits)
  have sum: "fl_done st + (tot (inflight ?n) s + inflight ?n p - inflight ?n (fr_pc s i)) = min (fl_next st) ?n"
    using st F(1,5) F(7) [OF i] flat_claim_fits [OF inv i] flat_account_fits [OF inv i]
    by (cases "fr_pc s i") (auto simp: Let_def split: if_splits)
  have bound: "?w * fl_next st \<le> ?w * ?n + (?n + ?w) * (1 + (tot pc_left s + pc_left p - pc_left (fr_pc s i)))"
  proof (cases "\<exists>g. fr_pc s i = Fl_claim g")
    case True
    then obtain g where g: "fr_pc s i = Fl_claim g" by blast
    note C = flat_claim_fits [OF inv i g]
    have "?w * g \<le> ?n + ?w" using F(7) [OF i] g by simp
    moreover have "fl_next (fr_st s) < ?n \<Longrightarrow> ?w * fl_next (fr_st s) \<le> ?w * ?n" using F(2) by (intro mult_left_mono) auto
    ultimately show ?thesis using st g C(3,4) room by (auto simp: Let_def algebra_simps split: if_splits)
  next
    case False
    have keep: "fl_next st = fl_next (fr_st s) \<or> fl_next st = ?n" "pc_left (fr_pc s i) = 0"
      using st False busy by (cases "fr_pc s i"; auto simp: Let_def flat_idle_def split: if_splits)+
    then show ?thesis
    proof (elim disjE)
      assume "fl_next st = fl_next (fr_st s)"
      with old(1) have "?w * fl_next st \<le> ?w * ?n + (?n + ?w) * (1 + tot pc_left s)" by simp
      also have "\<dots> \<le> ?w * ?n + (?n + ?w) * (1 + (tot pc_left s + pc_left p - 0))"
        using F(1,2) pc_left_nonneg [of p] by (intro add_left_mono mult_left_mono) auto
      finally show ?thesis unfolding keep(2) .
    next
      assume "fl_next st = ?n"
      moreover have "0 \<le> (?n + ?w) * (1 + (tot pc_left s + pc_left p - 0))"
        using F(1,2) pc_left_nonneg [of p] tot_left_bounds(1) [of s] by (intro mult_nonneg_nonneg) auto
      ultimately show ?thesis using keep(2) by simp
    qed
  qed
  show ?thesis using nonneg sum bound refs old(2,3) same by (simp add: flat_counts_def Let_def U)
qed

lemma mset_upto_join: "a \<le> b \<Longrightarrow> b \<le> c \<Longrightarrow> mset [a..b - 1] + mset [b..c - 1] = mset [a..(c::int) - 1]"
proof (cases "b = c")
  case False
  assume "a \<le> b" "b \<le> c"
  with False have "[a..c - 1] = [a..b - 1] @ [b..c - 1]" by (intro upto_split1) auto
  then show ?thesis by simp
qed simp

lemma mset_handover:
  fixes A :: "'x multiset"
  assumes "T' + x = T + y" and "A' + y + m = A + x + m'" and "A + T = m"
  shows "A' + T' = m'"
proof -
  have "A' + T' + (x + m) = A' + (T' + x) + m" by (simp add: ac_simps)
  also have "\<dots> = (A' + y + m) + T" by (simp add: assms(1) ac_simps)
  also have "\<dots> = (A + T) + x + m'" unfolding assms(2) by (simp add: ac_simps)
  also have "\<dots> = m' + (x + m)" unfolding assms(3) by (simp add: ac_simps)
  finally show ?thesis by simp
qed

lemma flat_items_loop:
  assumes inv: "flat_inv s" and i: "i < execs (fr_st s)" and st: "run_loop_flat (fr_st s) (fr_pc s i) = (st, p)"
  shows "flat_items (s\<lparr>fr_st := st, fr_pc := (fr_pc s)(i := p)\<rparr>)"
proof -
  note F = flat_inv_facts [OF inv]
  let ?n = "fl_n (fr_st s)" and ?f = "\<lambda>p. mset (todo (fl_n (fr_st s)) p)"
  have same: "fl_n st = ?n" "fl_workers st = fl_workers (fr_st s)" using flat_loop_static [OF st] by auto
  have old: "mset (fl_ran (fr_st s)) + mset (fl_skips (fr_st s)) + tot ?f s = mset [0..min (fl_next (fr_st s)) ?n - 1]"
    using inv by (auto simp: flat_inv_def flat_items_def Let_def)
  have U: "tot ?f (s\<lparr>fr_st := st, fr_pc := (fr_pc s)(i := p)\<rparr>) + ?f (fr_pc s i) = tot ?f s + ?f p"
    by (rule tot_upd [OF i same(2)])
  have *: "mset (fl_ran st) + mset (fl_skips st) + ?f p + mset [0..min (fl_next (fr_st s)) ?n - 1]
      = mset (fl_ran (fr_st s)) + mset (fl_skips (fr_st s)) + ?f (fr_pc s i) + mset [0..min (fl_next st) ?n - 1]"
  proof (cases "fr_pc s i")
    case Fl_tail
    then show ?thesis using st F(4) mset_upto_join [of 0 "fl_next (fr_st s)" ?n] by (auto simp: Let_def min_def ac_simps)
  next
    case (Fl_claim g)
    then show ?thesis
      using st F(4) flat_claim_fits [OF inv i] mset_upto_join [of 0 "fl_next (fr_st s)" "min (fl_next (fr_st s) + g) ?n"]
      by (auto simp: Let_def min_def ac_simps split: if_splits)
  next
    case (Fl_body start j stop)
    then show ?thesis using st F(7) [OF i] by (auto simp: upto_rec1 split: if_splits)
  qed (use st in \<open>auto simp: Let_def\<close>)
  from mset_handover [OF U * old] show ?thesis using same by (simp add: flat_items_def Let_def)
qed

lemma flat_outcome_loop:
  assumes inv: "flat_inv s" and i: "i < execs (fr_st s)" and st: "run_loop_flat (fr_st s) (fr_pc s i) = (st, p)"
  shows "flat_outcome (s\<lparr>fr_st := st, fr_pc := (fr_pc s)(i := p)\<rparr>)"
proof -
  note F = flat_inv_facts [OF inv]
  have same: "fl_n st = fl_n (fr_st s)" "fl_workers st = fl_workers (fr_st s)" "fl_requested st = fl_requested (fr_st s)"
    using flat_loop_static [OF st] by auto
  have old: "int (length (fl_settles (fr_st s))) + tot deciding s = (if fl_done (fr_st s) = fl_n (fr_st s) then 1 else 0)"
    "set (fl_settles (fr_st s)) \<subseteq> {fl_skipped (fr_st s)}"
    "fl_skipped (fr_st s) \<longleftrightarrow> fl_skips (fr_st s) \<noteq> []" "fl_skipped (fr_st s) \<longrightarrow> fl_requested (fr_st s)"
    using inv by (auto simp: flat_inv_def flat_outcome_def Let_def)
  have U: "tot deciding (s\<lparr>fr_st := st, fr_pc := (fr_pc s)(i := p)\<rparr>) = tot deciding s + deciding p - deciding (fr_pc s i)"
    by (rule tot_upd_int [OF i same(2)])
  have dec: "0 \<le> tot deciding s" unfolding tot_def by (intro sum_nonneg) (simp add: deciding_nonneg)
  have quiet: "fl_settles (fr_st s) = []" if "fl_done (fr_st s) < fl_n (fr_st s)" using that old(1) dec by (simp flip: length_0_conv)
  have count: "int (length (fl_settles st)) + (tot deciding s + deciding p - deciding (fr_pc s i))
      = (if fl_done st = fl_n (fr_st s) then 1 else 0)"
    using st old(1) flat_account_fits [OF inv i] by (cases "fr_pc s i") (auto simp: Let_def split: if_splits)
  have agree: "set (fl_settles st) \<subseteq> {fl_skipped st}"
    using st old(2) F(7) [OF i] flat_busy_unsettled [OF inv i] quiet by (cases "fr_pc s i") (auto simp: Let_def split: if_splits)
  have skip: "(fl_skipped st \<longleftrightarrow> fl_skips st \<noteq> []) \<and> (fl_skipped st \<longrightarrow> fl_requested st)"
    using st old(3,4) F(7) [OF i] by (cases "fr_pc s i") (auto simp: Let_def split: if_splits)
  show ?thesis using count agree skip same(1) by (simp add: flat_outcome_def Let_def U)
qed

lemma flat_inv_step:
  assumes "flat_step s s'" and inv: "flat_inv s"
  shows "flat_inv s'"
  using assms(1)
proof cases
  case (fs_loop i st p)
  then have i: "i < execs (fr_st s)" by (simp add: execs_def)
  show ?thesis
    using flat_counts_loop [OF inv i fs_loop(4,3)] flat_items_loop [OF inv i fs_loop(4)] flat_outcome_loop [OF inv i fs_loop(4)]
      flat_pcs_loop [OF inv i fs_loop(4)] flat_loop_static [OF fs_loop(4)] inv fs_loop(1)
    by (simp add: flat_inv_def flat_static_def)
next
  case (fs_leave i)
  then have i: "i < execs (fr_st s)" by (simp add: execs_def)
  have U: "tot f s' + f (fr_pc s i) = tot f s + f Fl_gone" for f :: "flat_pc \<Rightarrow> 'x::comm_monoid_add"
    unfolding fs_leave(1) by (rule tot_upd [OF i]) (simp add: drop_ref_def)
  from U [of pc_left] U [of pc_ref] U [of deciding] U [of "inflight (fl_n (fr_st s))"] U [of "\<lambda>p. mset (todo (fl_n (fr_st s)) p)"]
  have T: "tot pc_left s' = tot pc_left s" "tot pc_ref s' = tot pc_ref s - 1" "tot deciding s' = tot deciding s"
    "tot (inflight (fl_n (fr_st s))) s' = tot (inflight (fl_n (fr_st s))) s"
    "tot (\<lambda>p. mset (todo (fl_n (fr_st s)) p)) s' = tot (\<lambda>p. mset (todo (fl_n (fr_st s)) p)) s"
    using fs_leave(3) by simp_all
  have st: "fr_st s' = drop_ref (fr_st s)" "fr_handle s' = fr_handle s" "fr_token s' = fr_token s" using fs_leave(1) by simp_all
  have ok: "pc_ok (drop_ref st) p = pc_ok st p" for st p by (cases p) (simp_all add: drop_ref_def)
  have pcs: "flat_pcs s'"
    unfolding fs_leave(1) using flat_inv_facts(7) [OF inv] flat_inv_facts(7) [OF inv i] fs_leave(3) by (auto simp: flat_pcs_def ok) (auto simp: execs_def drop_ref_def)
  show ?thesis using inv pcs T st
    unfolding flat_inv_def flat_counts_def flat_items_def flat_outcome_def flat_static_def
    by (auto simp: Let_def drop_ref_def)
next
  case fs_request
  have ok: "pc_ok st p \<Longrightarrow> pc_ok (st\<lparr>fl_requested := True\<rparr>) p" for st p by (cases p) simp_all
  have T: "tot f s' = tot f s" for f :: "flat_pc \<Rightarrow> 'x::comm_monoid_add" using fs_request(1) by (simp add: tot_def execs_def)
  have "flat_pcs s'" using flat_inv_facts(7) [OF inv] fs_request(1) by (auto simp: flat_pcs_def execs_def intro!: ok)
  then show ?thesis using inv fs_request
    unfolding flat_inv_def flat_counts_def flat_items_def flat_outcome_def flat_static_def T
    by (auto simp: Let_def)
next
  case fs_drop
  have ok: "pc_ok (drop_ref st) p = pc_ok st p" for st p by (cases p) (simp_all add: drop_ref_def)
  have T: "tot f s' = tot f s" for f :: "flat_pc \<Rightarrow> 'x::comm_monoid_add" using fs_drop(1) by (simp add: tot_def execs_def drop_ref_def)
  have "flat_pcs s'" using flat_inv_facts(7) [OF inv] fs_drop(1) by (auto simp: flat_pcs_def ok) (auto simp: execs_def drop_ref_def)
  then show ?thesis using inv fs_drop
    unfolding flat_inv_def flat_counts_def flat_items_def flat_outcome_def flat_static_def T
    by (auto simp: Let_def drop_ref_def)
qed

section \<open>Exactly once\<close>

text \<open>Both ways of starting a loop, with the bound on the item count under which the counters cannot wrap.\<close>

definition loop_start :: "int \<Rightarrow> int \<Rightarrow> parallel_options \<Rightarrow> flat_run \<Rightarrow> bool" where
  "loop_start sw n opts s \<longleftrightarrow>
     (parallel_for sw n opts = Some s \<or> parallel_for_async sw n opts = Some s)
     \<and> 3 * n + 2 * effective_workers sw (po_max_workers opts) n < 2 ^ 31"

lemma loop_start_facts:
  assumes "loop_start sw n opts s"
  shows "0 < n" "fl_n (fr_st s) = n" "fl_workers (fr_st s) = effective_workers sw (po_max_workers opts) n"
    "1 \<le> fl_workers (fr_st s)" "fl_workers (fr_st s) \<le> n" "fr_pc s = (\<lambda>_. Fl_top)" "fl_next (fr_st s) = 0"
    "fl_requested (fr_st s) = False"
  using assms effective_workers_bounds [of n sw "po_max_workers opts"]
  by (auto simp: loop_start_def parallel_for_def parallel_for_async_def parallel_state_new_def Let_def split: if_splits)

lemma flat_inv_start:
  assumes "loop_start sw n opts s"
  shows "flat_inv s"
  using assms effective_workers_bounds [of n sw "po_max_workers opts"]
  by (auto simp: loop_start_def parallel_for_def parallel_for_async_def parallel_state_new_def Let_def
      flat_inv_def flat_static_def flat_counts_def flat_items_def flat_outcome_def flat_pcs_def tot_def execs_def split: if_splits)

lemma flat_runs_inv: "flat_runs s0 k s \<Longrightarrow> flat_inv s0 \<Longrightarrow> flat_inv s"
  by (induction rule: flat_runs.induct) (auto intro: flat_inv_step)

lemma flat_step_static:
  "flat_step s s' \<Longrightarrow> fl_n (fr_st s') = fl_n (fr_st s) \<and> fl_workers (fr_st s') = fl_workers (fr_st s) \<and> fr_caller s' = fr_caller s"
  by (cases rule: flat_step.cases) (auto simp: drop_ref_def dest: flat_loop_static)

lemma flat_runs_static:
  "flat_runs s0 k s \<Longrightarrow> fl_n (fr_st s) = fl_n (fr_st s0) \<and> fl_workers (fr_st s) = fl_workers (fr_st s0) \<and> fr_caller s = fr_caller s0"
  by (induction rule: flat_runs.induct) (auto dest: flat_step_static)

definition in_body :: "flat_pc \<Rightarrow> bool" where
  "in_body p \<longleftrightarrow> (\<exists>start i stop. p = Fl_body start i stop)"

lemma flat_settled_facts:
  assumes inv: "flat_inv s" and "fl_settles (fr_st s) \<noteq> []"
  shows "fl_done (fr_st s) = fl_n (fr_st s)" "length (fl_settles (fr_st s)) = 1"
    and "fl_n (fr_st s) \<le> fl_next (fr_st s)" "tot (inflight (fl_n (fr_st s))) s = 0"
proof -
  note F = flat_inv_facts [OF inv]
  have o: "int (length (fl_settles (fr_st s))) + tot deciding s = (if fl_done (fr_st s) = fl_n (fr_st s) then 1 else 0)"
    using inv by (auto simp: flat_inv_def flat_outcome_def Let_def)
  have dec: "0 \<le> tot deciding s" unfolding tot_def by (intro sum_nonneg) (simp add: deciding_nonneg)
  have len: "1 \<le> int (length (fl_settles (fr_st s)))" using assms(2) by (cases "fl_settles (fr_st s)") auto
  show d: "fl_done (fr_st s) = fl_n (fr_st s)" using o dec len by (auto split: if_splits)
  then show "length (fl_settles (fr_st s)) = 1" using o dec len by simp
  show "fl_n (fr_st s) \<le> fl_next (fr_st s)" "tot (inflight (fl_n (fr_st s))) s = 0" using F(5,6) d by (simp_all add: min_def split: if_splits)
qed

lemma flat_all_items:
  assumes inv: "flat_inv s" and zero: "tot (inflight (fl_n (fr_st s))) s = 0"
    and "fl_n (fr_st s) \<le> fl_next (fr_st s)"
  shows "mset (fl_ran (fr_st s)) + mset (fl_skips (fr_st s)) = mset [0..fl_n (fr_st s) - 1]"
    and "i < execs (fr_st s) \<Longrightarrow> \<not> in_body (fr_pc s i)"
proof -
  note F = flat_inv_facts [OF inv]
  have none: "inflight (fl_n (fr_st s)) (fr_pc s j) = 0" if "j < execs (fr_st s)" for j
    using F(8) [OF that] inflight_nonneg [OF F(7) [OF that]] zero by simp
  have "todo (fl_n (fr_st s)) (fr_pc s j) = []" if "j < execs (fr_st s)" for j
    using none [OF that] F(7) [OF that] by (cases "fr_pc s j") auto
  then have "tot (\<lambda>p. mset (todo (fl_n (fr_st s)) p)) s = {#}" by (simp add: tot_def)
  then show "mset (fl_ran (fr_st s)) + mset (fl_skips (fr_st s)) = mset [0..fl_n (fr_st s) - 1]"
    using inv assms(3) by (auto simp: flat_inv_def flat_items_def Let_def)
  show "\<not> in_body (fr_pc s i)" if "i < execs (fr_st s)"
    using none [OF that] F(7) [OF that] by (auto simp: in_body_def)
qed

lemma distinct_mset_below:
  assumes "mset xs \<subseteq># mset ys" "distinct ys"
  shows "distinct xs"
proof -
  have "count (mset xs) a \<le> 1" for a
    using mset_subset_eq_count [OF assms(1), of a] assms(2) unfolding distinct_count_atmost_1
    by (metis le_trans le_numeral_extra(3,4) zero_le_one)
  moreover have "1 \<le> count (mset xs) a" if "a \<in> set xs" for a using that by (simp add: Suc_le_eq)
  ultimately show ?thesis unfolding distinct_count_atmost_1 by (metis count_mset_0_iff le_antisym)
qed

lemma flat_ran_distinct:
  assumes inv: "flat_inv s"
  shows "distinct (fl_ran (fr_st s))" "set (fl_ran (fr_st s)) \<subseteq> {0..<fl_n (fr_st s)}"
proof -
  let ?n = "fl_n (fr_st s)"
  have le: "mset (fl_ran (fr_st s)) \<subseteq># mset [0..min (fl_next (fr_st s)) ?n - 1]"
    using inv by (auto simp: flat_inv_def flat_items_def Let_def simp flip: union_assoc) (metis mset_subset_eq_add_left union_assoc)
  from set_mset_mono [OF this] show "set (fl_ran (fr_st s)) \<subseteq> {0..<?n}" by auto
  show "distinct (fl_ran (fr_st s))"
    by (rule distinct_mset_below [OF le distinct_upto])
qed

section \<open>The loop ends\<close>

text \<open>Every action lowers the weight of the run, so a run of more than the initial weight does not exist.\<close>

fun pc_weight :: "flat_pc \<Rightarrow> int" where
  "pc_weight Fl_gone = 0"
| "pc_weight Fl_exit = 1"
| "pc_weight (Fl_claim g) = 2"
| "pc_weight Fl_tail = 2"
| "pc_weight Fl_load = 3"
| "pc_weight Fl_top = 4"
| "pc_weight (Fl_finish c) = 5"
| "pc_weight Fl_settle = 6"
| "pc_weight (Fl_account k) = 7"
| "pc_weight (Fl_skip start) = 8"
| "pc_weight (Fl_body start i stop) = 8 + (stop - i)"

definition flat_weight :: "flat_run \<Rightarrow> int" where
  "flat_weight s = tot pc_weight s + 8 * (fl_n (fr_st s) - min (fl_next (fr_st s)) (fl_n (fr_st s)))
     + (if fl_requested (fr_st s) then 0 else 1) + (if fr_handle s then 1 else 0)"

lemma flat_weight_nonneg: "flat_inv s \<Longrightarrow> 0 \<le> flat_weight s"
proof -
  assume inv: "flat_inv s"
  have "0 \<le> pc_weight p" if "pc_ok (fr_st s) p" for p using that by (cases p) auto
  then have "0 \<le> tot pc_weight s" unfolding tot_def using flat_inv_facts(7) [OF inv] by (intro sum_nonneg) auto
  then show ?thesis by (simp add: flat_weight_def)
qed

lemma flat_weight_loop:
  assumes inv: "flat_inv s" and i: "i < execs (fr_st s)" and st: "run_loop_flat (fr_st s) (fr_pc s i) = (st, p)"
    and busy: "\<not> flat_idle (fr_pc s i)"
  shows "flat_weight (s\<lparr>fr_st := st, fr_pc := (fr_pc s)(i := p)\<rparr>) < flat_weight s"
proof -
  note F = flat_inv_facts [OF inv]
  have same: "fl_n st = fl_n (fr_st s)" "fl_workers st = fl_workers (fr_st s)" "fl_requested st = fl_requested (fr_st s)"
    using flat_loop_static [OF st] by auto
  have U: "tot pc_weight (s\<lparr>fr_st := st, fr_pc := (fr_pc s)(i := p)\<rparr>) = tot pc_weight s + pc_weight p - pc_weight (fr_pc s i)"
    by (rule tot_upd_int [OF i same(2)])
  have "pc_weight p + 8 * (fl_n (fr_st s) - min (fl_next st) (fl_n (fr_st s)))
      < pc_weight (fr_pc s i) + 8 * (fl_n (fr_st s) - min (fl_next (fr_st s)) (fl_n (fr_st s)))"
    using st F(7) [OF i] F(4) busy flat_claim_fits [OF inv i]
    by (cases "fr_pc s i") (auto simp: Let_def flat_idle_def min_def split: if_splits)
  then show ?thesis by (simp add: flat_weight_def U same)
qed

lemma flat_weight_step:
  assumes "flat_step s s'" and inv: "flat_inv s"
  shows "flat_weight s' < flat_weight s"
  using assms(1)
proof cases
  case (fs_loop i st p)
  then have i: "i < execs (fr_st s)" by (simp add: execs_def)
  show ?thesis using flat_weight_loop [OF inv i fs_loop(4,3)] fs_loop(1) by simp
next
  case (fs_leave i)
  then have i: "i < execs (fr_st s)" by (simp add: execs_def)
  have "tot pc_weight s' = tot pc_weight s + 0 - 1"
    unfolding fs_leave(1) using fs_leave(3) by (subst tot_upd_int [OF i]) (simp_all add: drop_ref_def)
  then show ?thesis using fs_leave(1) by (simp add: flat_weight_def drop_ref_def)
next
  case fs_request
  then show ?thesis by (simp add: flat_weight_def tot_def execs_def)
next
  case fs_drop
  then show ?thesis by (simp add: flat_weight_def tot_def execs_def drop_ref_def)
qed

lemma flat_runs_weight:
  "flat_runs s0 k s \<Longrightarrow> flat_inv s0 \<Longrightarrow> flat_weight s + int k \<le> flat_weight s0"
proof (induction rule: flat_runs.induct)
  case (flat_runs_step k s s')
  from flat_weight_step [OF flat_runs_step(2) flat_runs_inv [OF flat_runs_step(1,4)]] flat_runs_step(3,4)
  show ?case by simp
qed simp

lemma loop_start_weight:
  assumes "loop_start sw n opts s0"
  shows "flat_weight s0 \<le> 8 * n + 4 * fl_workers (fr_st s0) + 2"
  using loop_start_facts [OF assms] by (simp add: flat_weight_def tot_def execs_def)

text \<open>A run that cannot go on has let every executor leave, which the settled block allowed.\<close>

lemma flat_stuck:
  assumes inv: "flat_inv s" and stuck: "\<nexists>s'. flat_step s s'"
  shows "\<forall>i<execs (fr_st s). fr_pc s i = Fl_gone" "length (fl_settles (fr_st s)) = 1" "fl_refs (fr_st s) = 0"
proof -
  note F = flat_inv_facts [OF inv]
  have idle: "flat_idle (fr_pc s i)" if "i < execs (fr_st s)" for i
  proof (rule ccontr)
    assume n: "\<not> flat_idle (fr_pc s i)"
    obtain st p where "run_loop_flat (fr_st s) (fr_pc s i) = (st, p)" by (cases "run_loop_flat (fr_st s) (fr_pc s i)")
    from fs_loop [OF _ n this] stuck that show False by (auto simp: execs_def zless_nat_eq_int_zless)
  qed
  have zero: "tot (inflight (fl_n (fr_st s))) s = 0" "tot deciding s = 0"
    unfolding tot_def using idle by (auto simp: flat_idle_def dest!: idle intro!: sum.neutral)
  have "0 < execs (fr_st s)" using F(2) by (simp add: execs_def)
  then have "fl_n (fr_st s) \<le> fl_next (fr_st s)" using idle [of 0] F(7) [of 0] by (auto simp: flat_idle_def)
  then have "fl_done (fr_st s) = fl_n (fr_st s)" using F(5) zero(1) by simp
  then show one: "length (fl_settles (fr_st s)) = 1" using inv zero(2) by (auto simp: flat_inv_def flat_outcome_def Let_def)
  show gone: "\<forall>i<execs (fr_st s). fr_pc s i = Fl_gone"
  proof (intro allI impI)
    fix i assume i: "i < execs (fr_st s)"
    show "fr_pc s i = Fl_gone"
    proof (rule ccontr)
      assume "fr_pc s i \<noteq> Fl_gone"
      with idle [OF i] have "fr_pc s i = Fl_exit" by (simp add: flat_idle_def)
      moreover have "fl_settles (fr_st s) \<noteq> []" using one by auto
      ultimately have "flat_step s (s\<lparr>fr_st := drop_ref (fr_st s), fr_pc := (fr_pc s)(i := Fl_gone)\<rparr>)"
        using i by (intro fs_leave) (auto simp: execs_def zless_nat_eq_int_zless)
      with stuck show False by blast
    qed
  qed
  have "\<not> fr_handle s" using fs_drop stuck by blast
  moreover have "tot pc_ref s = 0" unfolding tot_def using gone by (auto intro!: sum.neutral)
  ultimately show "fl_refs (fr_st s) = 0" using inv by (auto simp: flat_inv_def flat_counts_def Let_def)
qed

section \<open>Properties\<close>

text \<open>
  (C17) A parallel loop calls its body at most once for each index and only with indices of its range, under
  every interleaving of its executors and of a cancellation request. Its block is settled at most once; once it is, no
  executor is inside the body and every index has been either processed or skipped, exactly once. Settled
  completed means that the body ran for every index; settled cancelled means that some index was skipped and
  the token was requested, which the blocking form never does. (The item count is bounded so that the 32-bit claim
  counter, which the executors overshoot when they find nothing left, cannot wrap.)
\<close>

theorem parallel_for_exactly_once:
  assumes "loop_start sw n opts s0" and "flat_runs s0 k s"
  shows "distinct (fl_ran (fr_st s)) \<and> set (fl_ran (fr_st s)) \<subseteq> {0..<n}
    \<and> length (fl_settles (fr_st s)) \<le> 1
    \<and> (fl_settles (fr_st s) \<noteq> [] \<longrightarrow>
         (\<forall>i. int i < fl_workers (fr_st s) \<longrightarrow> \<not> in_body (fr_pc s i))
         \<and> mset (fl_ran (fr_st s)) + mset (fl_skips (fr_st s)) = mset [0..n - 1])
    \<and> (fl_settles (fr_st s) = [False] \<longrightarrow> mset (fl_ran (fr_st s)) = mset [0..n - 1])
    \<and> (fl_settles (fr_st s) = [True] \<longrightarrow> fl_skips (fr_st s) \<noteq> [] \<and> fl_requested (fr_st s) \<and> fr_token s)"
proof -
  have inv: "flat_inv s" using flat_runs_inv [OF assms(2) flat_inv_start [OF assms(1)]] .
  have n: "fl_n (fr_st s) = n" using flat_runs_static [OF assms(2)] loop_start_facts(2) [OF assms(1)] by simp
  note S = flat_settled_facts [OF inv]
  have out: "set (fl_settles (fr_st s)) \<subseteq> {fl_skipped (fr_st s)}" "fl_skipped (fr_st s) = (fl_skips (fr_st s) \<noteq> [])"
    "fl_skipped (fr_st s) \<longrightarrow> fl_requested (fr_st s)" "fl_requested (fr_st s) \<longrightarrow> fr_token s"
    using inv unfolding flat_inv_def flat_outcome_def flat_counts_def Let_def by blast+
  have all: "mset (fl_ran (fr_st s)) + mset (fl_skips (fr_st s)) = mset [0..n - 1]"
    "int i < fl_workers (fr_st s) \<longrightarrow> \<not> in_body (fr_pc s i)" if "fl_settles (fr_st s) \<noteq> []" for i
    using flat_all_items [OF inv S(4) S(3), OF that that] n by (auto simp: execs_def zless_nat_eq_int_zless)
  have one: "length (fl_settles (fr_st s)) \<le> 1" using S(2) by (cases "fl_settles (fr_st s)") auto
  have completed: "mset (fl_ran (fr_st s)) = mset [0..n - 1]" if "fl_settles (fr_st s) = [False]"
    using all(1) out(1,2) that by auto
  have cancelled: "fl_skips (fr_st s) \<noteq> [] \<and> fl_requested (fr_st s) \<and> fr_token s" if "fl_settles (fr_st s) = [True]"
    using out that by auto
  show ?thesis using flat_ran_distinct [OF inv] n one all completed cancelled by blast
qed

text \<open>
  A parallel loop ends without help from anybody: from its start no run takes more than
  8 n + 4 w + 2 actions, and a run that cannot continue has settled the block exactly once, all
  its executors have left, the caller's wait has returned, and the last reference has been dropped. In
  particular a caller whose helpers never get a worker drains the loop alone: whenever an executor has left
  the loop and the block is not settled, another executor holds claimed items right now.
\<close>

theorem parallel_for_completes:
  assumes "loop_start sw n opts s0" and "flat_runs s0 k s"
  shows "int k \<le> 8 * n + 4 * fl_workers (fr_st s0) + 2
    \<and> ((\<nexists>s'. flat_step s s') \<longrightarrow> length (fl_settles (fr_st s)) = 1 \<and> fl_refs (fr_st s) = 0
           \<and> (\<forall>i. int i < fl_workers (fr_st s) \<longrightarrow> fr_pc s i = Fl_gone))
    \<and> ((\<exists>i. int i < fl_workers (fr_st s) \<and> fr_pc s i = Fl_exit) \<longrightarrow> fl_settles (fr_st s) = [] \<longrightarrow>
           (\<exists>j. int j < fl_workers (fr_st s) \<and> (0 < inflight n (fr_pc s j) \<or> deciding (fr_pc s j) = 1)))"
proof (intro conjI)
  have inv0: "flat_inv s0" by (rule flat_inv_start [OF assms(1)])
  have inv: "flat_inv s" using flat_runs_inv [OF assms(2) inv0] .
  have n: "fl_n (fr_st s) = n" using flat_runs_static [OF assms(2)] loop_start_facts(2) [OF assms(1)] by simp
  note F = flat_inv_facts [OF inv]
  show "int k \<le> 8 * n + 4 * fl_workers (fr_st s0) + 2"
    using flat_runs_weight [OF assms(2) inv0] flat_weight_nonneg [OF inv] loop_start_weight [OF assms(1)] by simp
  show "(\<nexists>s'. flat_step s s') \<longrightarrow> length (fl_settles (fr_st s)) = 1 \<and> fl_refs (fr_st s) = 0
           \<and> (\<forall>i. int i < fl_workers (fr_st s) \<longrightarrow> fr_pc s i = Fl_gone)"
    using flat_stuck [OF inv] by (auto simp: execs_def zless_nat_eq_int_zless)
  show "(\<exists>i. int i < fl_workers (fr_st s) \<and> fr_pc s i = Fl_exit) \<longrightarrow> fl_settles (fr_st s) = [] \<longrightarrow>
           (\<exists>j. int j < fl_workers (fr_st s) \<and> (0 < inflight n (fr_pc s j) \<or> deciding (fr_pc s j) = 1))"
  proof (intro impI, rule ccontr)
    assume ex: "\<exists>i. int i < fl_workers (fr_st s) \<and> fr_pc s i = Fl_exit" and uns: "fl_settles (fr_st s) = []"
      and no: "\<nexists>j. int j < fl_workers (fr_st s) \<and> (0 < inflight n (fr_pc s j) \<or> deciding (fr_pc s j) = 1)"
    have "fl_n (fr_st s) \<le> fl_next (fr_st s)"
      using ex F(7) by (metis pc_ok.simps(8) execs_def zless_nat_eq_int_zless)
    moreover have "inflight n (fr_pc s j) = 0" "deciding (fr_pc s j) = 0" if "j < execs (fr_st s)" for j
    proof -
      have "\<not> 0 < inflight n (fr_pc s j)" "deciding (fr_pc s j) \<noteq> 1" using no that by (auto simp: execs_def zless_nat_eq_int_zless)
      then show "inflight n (fr_pc s j) = 0" "deciding (fr_pc s j) = 0"
        using inflight_nonneg [OF F(7) [OF that]] n by (simp, cases "fr_pc s j", simp_all)
    qed
    then have z: "tot (inflight n) s = 0" "tot deciding s = 0" unfolding tot_def by (auto intro!: sum.neutral)
    ultimately have "fl_done (fr_st s) = fl_n (fr_st s)" using F(5) n by simp
    then show False using inv uns z(2) by (auto simp: flat_inv_def flat_outcome_def Let_def)
  qed
qed

section \<open>Concrete runs\<close>

definition flat_exec :: "nat \<Rightarrow> flat_run \<Rightarrow> flat_run" where
  "flat_exec i s = (case run_loop_flat (fr_st s) (fr_pc s i) of
     (st, p) \<Rightarrow> s\<lparr>fr_st := st, fr_pc := (fr_pc s)(i := p)\<rparr>)"

lemma flat_exec_step: "int i < fl_workers (fr_st s) \<Longrightarrow> \<not> flat_idle (fr_pc s i) \<Longrightarrow> flat_step s (flat_exec i s)"
  unfolding flat_exec_def by (cases "run_loop_flat (fr_st s) (fr_pc s i)") (auto intro: fs_loop)

definition one_item :: parallel_options where
  "one_item = \<lparr>po_max_workers = 0, po_balance = Guided, po_token = False\<rparr>"

lemma one_item_run:
  defines "s0 \<equiv> the (parallel_for 1 1 one_item)"
  shows "loop_start 1 1 one_item s0"
    and "flat_runs s0 8 ((flat_exec 0 ^^ 8) s0)"
    and "fl_settles (fr_st ((flat_exec 0 ^^ 8) s0)) = [False]" "fl_ran (fr_st ((flat_exec 0 ^^ 8) s0)) = [0]"
proof -
  have ev: "parallel_for 1 1 one_item = Some s0"
    "s0 = \<lparr>fr_st = parallel_state_new 1 1 Guided 1, fr_pc = (\<lambda>_. Fl_top), fr_caller = True, fr_token = False, fr_handle = False\<rparr>"
    by (simp_all add: s0_def parallel_for_def one_item_def effective_workers_def)
  show "loop_start 1 1 one_item s0" using ev(1) by (simp add: loop_start_def one_item_def effective_workers_def)
  have go: "flat_runs s0 k ((flat_exec 0 ^^ k) s0)" if "k \<le> 8" for k
    using that
  proof (induction k)
    case (Suc k)
    then have "k \<in> {0, 1, 2, 3, 4, 5, 6, 7}" by auto
    then have "flat_step ((flat_exec 0 ^^ k) s0) (flat_exec 0 ((flat_exec 0 ^^ k) s0))"
      by (intro flat_exec_step) (auto simp: ev(2) flat_exec_def parallel_state_new_def numeral_eq_Suc flat_idle_def
          claim_grain_def signed_divide_int_def wrap_int_def)
    with Suc show ?case by (auto intro: flat_runs_step)
  qed (simp add: flat_runs_start)
  show "flat_runs s0 8 ((flat_exec 0 ^^ 8) s0)" by (rule go) simp
  show "fl_settles (fr_st ((flat_exec 0 ^^ 8) s0)) = [False]" "fl_ran (fr_st ((flat_exec 0 ^^ 8) s0)) = [0]"
    by (simp_all add: ev(2) flat_exec_def parallel_state_new_def numeral_eq_Suc claim_grain_def signed_divide_int_def wrap_int_def)
qed

theorem parallel_for_exactly_once_witness:
  "mset (fl_ran (fr_st ((flat_exec 0 ^^ 8) (the (parallel_for 1 1 one_item))))) = mset [0..1 - 1]"
  using parallel_for_exactly_once [OF one_item_run(1,2)] one_item_run(3) by blast

theorem parallel_for_completes_witness:
  "int 8 \<le> 8 * 1 + 4 * fl_workers (fr_st (the (parallel_for 1 1 one_item))) + 2"
  using parallel_for_completes [OF one_item_run(1,2)] by blast

section \<open>Near the largest int\<close>

definition flat_reaches :: "flat_run \<Rightarrow> flat_run \<Rightarrow> bool" where
  "flat_reaches s0 s \<longleftrightarrow> (\<exists>k. flat_runs s0 k s)"

lemma flat_reaches_exec:
  "flat_reaches s0 s \<Longrightarrow> int i < fl_workers (fr_st s) \<Longrightarrow> \<not> flat_idle (fr_pc s i) \<Longrightarrow> flat_exec i s = s' \<Longrightarrow> flat_reaches s0 s'"
  unfolding flat_reaches_def using flat_runs_step flat_exec_step by blast

lemma flat_reaches_body:
  assumes "flat_reaches s0 s" "int i < fl_workers (fr_st s)" "fr_pc s i = Fl_body a j e" "j \<le> e"
  shows "\<exists>xs. flat_reaches s0 (s\<lparr>fr_st := (fr_st s)\<lparr>fl_ran := fl_ran (fr_st s) @ xs\<rparr>, fr_pc := (fr_pc s)(i := Fl_body a e e)\<rparr>)"
  using assms
proof (induction "nat (e - j)" arbitrary: s j)
  case 0
  then have "s\<lparr>fr_st := (fr_st s)\<lparr>fl_ran := fl_ran (fr_st s) @ []\<rparr>, fr_pc := (fr_pc s)(i := Fl_body a e e)\<rparr> = s"
    by (simp add: fun_upd_idem)
  with 0 show ?case by metis
next
  case (Suc m)
  define t where "t = s\<lparr>fr_st := (fr_st s)\<lparr>fl_ran := fl_ran (fr_st s) @ [j]\<rparr>, fr_pc := (fr_pc s)(i := Fl_body a (j + 1) e)\<rparr>"
  have j: "j < e" "m = nat (e - (j + 1))" using Suc(2) by simp_all
  have "flat_exec i s = t" using j(1) Suc.prems(3) by (simp add: t_def flat_exec_def)
  with Suc.prems have "flat_reaches s0 t" by (intro flat_reaches_exec [of s0 s i t]) (auto simp: flat_idle_def)
  then obtain xs where "flat_reaches s0 (t\<lparr>fr_st := (fr_st t)\<lparr>fl_ran := fl_ran (fr_st t) @ xs\<rparr>, fr_pc := (fr_pc t)(i := Fl_body a e e)\<rparr>)"
    using Suc(1) [OF j(2), of t] Suc.prems j(1) by (auto simp: t_def)
  then have "flat_reaches s0 (s\<lparr>fr_st := (fr_st s)\<lparr>fl_ran := fl_ran (fr_st s) @ j # xs\<rparr>, fr_pc := (fr_pc s)(i := Fl_body a e e)\<rparr>)"
    by (simp add: t_def)
  then show ?case by blast
qed

definition near_max :: "int \<Rightarrow> int \<Rightarrow> bool list \<Rightarrow> int list \<Rightarrow> flat_pc \<Rightarrow> flat_pc \<Rightarrow> flat_run" where
  "near_max nxt dn outcome calls p q =
     \<lparr>fr_st = \<lparr>fl_n = 2147483646, fl_next = nxt, fl_done = dn, fl_skipped = False, fl_requested = False,
        fl_balance = Balanced, fl_workers = 2, fl_refs = 2, fl_settles = outcome, fl_ran = calls, fl_skips = []\<rparr>,
      fr_pc = (\<lambda>_. Fl_top)(0 := p, 1 := q), fr_caller = True, fr_token = False, fr_handle = False\<rparr>"

lemma near_max_grain: "claim_grain Balanced 2147483646 c 2 = 1073741823"
  by (simp add: claim_grain_def signed_divide_int_def)

lemma near_max_wrap: "wrap_int 3221225469 = - 1073741827" "wrap_int 2147483646 = 2147483646" "wrap_int 1073741823 = 1073741823"
  by (simp_all add: wrap_int_def)

lemmas near_max_defs = near_max_def flat_exec_def near_max_grain near_max_wrap fun_upd_twist

lemma flat_exec_idle: "flat_idle (fr_pc s i) \<Longrightarrow> flat_exec i s = s"
  by (auto simp: flat_exec_def flat_idle_def fun_upd_idem)

lemma flat_exec_workers: "fl_workers (fr_st (flat_exec i s)) = fl_workers (fr_st s)"
  using flat_loop_static by (cases "run_loop_flat (fr_st s) (fr_pc s i)") (auto simp: flat_exec_def)

lemma flat_reaches_execs:
  assumes "flat_reaches s0 s" "int i < fl_workers (fr_st s)"
  shows "flat_reaches s0 ((flat_exec i ^^ k) s) \<and> fl_workers (fr_st ((flat_exec i ^^ k) s)) = fl_workers (fr_st s)"
proof (induction k)
  case (Suc k)
  then show ?case
    using flat_reaches_exec [of s0 "(flat_exec i ^^ k) s" i] flat_exec_idle [of "(flat_exec i ^^ k) s" i] assms(2)
    by (cases "flat_idle (fr_pc ((flat_exec i ^^ k) s) i)") (auto simp: flat_exec_workers)
qed (simp add: assms)

lemma near_max_execs:
  assumes "flat_reaches s0 (near_max a b c d p q)" "i < 2" "(flat_exec i ^^ k) (near_max a b c d p q) = t"
  shows "flat_reaches s0 t"
  using flat_reaches_execs [OF assms(1), of i k] assms(2,3) by (simp add: near_max_def)

section \<open>A wrapped claim\<close>

lemma near_max_run:
  defines "s0 \<equiv> near_max 0 0 [] [] Fl_top Fl_top"
  shows "\<exists>calls. flat_reaches s0
    (near_max (-4) 2147483646 [False] (calls @ [- 1073741827]) Fl_exit (Fl_body (- 1073741827) (- 1073741826) (-4)))"
proof -
  let ?g = "1073741823 :: int" and ?n = "2147483646 :: int"
  have 0: "flat_reaches s0 (near_max 0 0 [] [] Fl_top Fl_top)" unfolding flat_reaches_def s0_def by (blast intro: flat_runs_start)
  have 1: "flat_reaches s0 (near_max ?g 0 [] [] (Fl_body 0 0 ?g) Fl_top)"
    by (rule near_max_execs [OF 0, of 0 3]) (simp_all add: near_max_defs numeral_eq_Suc)
  have 2: "flat_reaches s0 (near_max ?n 0 [] [] (Fl_body 0 0 ?g) (Fl_body ?g ?g ?n))"
    by (rule near_max_execs [OF 1, of 1 3]) (simp_all add: near_max_defs numeral_eq_Suc)
  obtain xs where 3: "flat_reaches s0 (near_max ?n 0 [] xs (Fl_body 0 ?g ?g) (Fl_body ?g ?g ?n))"
    using flat_reaches_body [OF 2, of 0 0 0 ?g] by (auto simp: near_max_def fun_upd_twist)
  have 4: "flat_reaches s0 (near_max (- 1073741827) ?g [] xs Fl_exit (Fl_body ?g ?g ?n))"
    by (rule near_max_execs [OF 3, of 0 5]) (simp_all add: near_max_defs numeral_eq_Suc)
  obtain ys where 5: "flat_reaches s0 (near_max (- 1073741827) ?g [] ys Fl_exit (Fl_body ?g ?n ?n))"
    using flat_reaches_body [OF 4, of 1 ?g ?g ?n] by (auto simp: near_max_def fun_upd_twist)
  have 6: "flat_reaches s0 (near_max (- 1073741827) ?n [False] ys Fl_exit Fl_top)"
    by (rule near_max_execs [OF 5, of 1 4]) (simp_all add: near_max_defs numeral_eq_Suc)
  have 7: "flat_reaches s0 (near_max (-4) ?n [False] (ys @ [- 1073741827]) Fl_exit (Fl_body (- 1073741827) (- 1073741826) (-4)))"
    by (rule near_max_execs [OF 6, of 1 4]) (simp_all add: near_max_defs numeral_eq_Suc wrap_int_def)
  then show ?thesis by blast
qed

text \<open>
  Without the bound the claim counter wraps. With two executors, coarse chunks and 2147483646 items, the
  executor that finds nothing left still adds its grain, the counter turns negative, and the other executor,
  having settled the loop, claims a chunk that starts at index -1073741827 and calls the body with it, although the
  loop's block is already settled and a blocked caller may have returned.
\<close>

theorem parallel_for_wraps_near_int_max:
  "\<exists>s0 s. parallel_for 2 2147483646 \<lparr>po_max_workers = 2, po_balance = Balanced, po_token = False\<rparr> = Some s0
     \<and> flat_reaches s0 s \<and> fl_settles (fr_st s) = [False] \<and> - 1073741827 \<in> set (fl_ran (fr_st s))"
proof -
  have "parallel_for 2 2147483646 \<lparr>po_max_workers = 2, po_balance = Balanced, po_token = False\<rparr>
      = Some (near_max 0 0 [] [] Fl_top Fl_top)"
    by (simp add: parallel_for_def effective_workers_def parallel_state_new_def near_max_def fun_upd_idem)
  moreover obtain calls where "flat_reaches (near_max 0 0 [] [] Fl_top Fl_top)
    (near_max (-4) 2147483646 [False] (calls @ [- 1073741827]) Fl_exit (Fl_body (- 1073741827) (- 1073741826) (-4)))"
    using near_max_run by blast
  ultimately show ?thesis by (fastforce simp: near_max_def)
qed
end
