(* ===== verification/Colored_Loop.thy ===== *)
theory Colored_Loop
  imports Parallel_For
begin

text \<open>
  The colored parallel loop (include/ts/parallel_for.h): \<^verbatim>\<open>Colored_state\<close>, its \<^verbatim>\<open>run_loop\<close> and
  \<^verbatim>\<open>parallel_for_colored\<close>. Rounds over bands run one band after the other, the items of one band in parallel. The
  phase and the next unclaimed position share one 64-bit word that claims change by compare-and-swap; the
  executor that finishes a band's last item publishes the next phase and notifies the parked ones. Each
  access to an atomic, each notification and each call of the body is one action.
\<close>

section \<open>The packed word\<close>

unbundle bit_operations_syntax

definition pack_phase :: "int \<Rightarrow> int \<Rightarrow> 64 word" where
  "pack_phase ph idx = push_bit 32 (word_of_int ph) OR word_of_int idx"

definition ph_of :: "64 word \<Rightarrow> int" where
  "ph_of cur = sint (ucast (drop_bit 32 cur) :: 32 word)"

definition idx_of :: "64 word \<Rightarrow> int" where
  "idx_of cur = sint (ucast (cur AND 0xffffffff) :: 32 word)"

section \<open>The loop\<close>

record colored =
  co_bands :: "int list list"
  co_total :: int
  co_phase_next :: "64 word"
  co_band_done :: int
  co_balance :: balance
  co_workers :: int
  co_completed :: nat
  co_ran :: "(int \<times> int) list"

definition band_at :: "colored \<Rightarrow> int \<Rightarrow> int list" where
  "band_at st ph = co_bands st ! (nat ph mod length (co_bands st))"

definition band_size :: "colored \<Rightarrow> int \<Rightarrow> int" where
  "band_size st ph = int (length (band_at st ph))"

datatype colored_pc =
    Co_load
  | Co_cur "64 word"
  | Co_cas "64 word" int
  | Co_wait "64 word"
  | Co_parked "64 word"
  | Co_body int int int int
  | Co_account int int
  | Co_last int
  | Co_publish int
  | Co_notify "64 word"
  | Co_terminal
  | Co_complete
  | Co_exit

text \<open>
  One action of an executor inside \<^verbatim>\<open>run_loop\<close>: the new state, its new position and whether it notified. \<open>fails\<close> lets
  the weak compare-and-swap fail although the word was unchanged. A spinning load that sees the same value leaves
  the executor where it is; \<^verbatim>\<open>phase_next.wait\<close> is the separate \<open>park\<close> below.
\<close>

fun run_loop_colored :: "bool \<Rightarrow> colored \<Rightarrow> colored_pc \<Rightarrow> colored \<times> colored_pc \<times> bool" where
  "run_loop_colored fails st Co_load = (st, Co_cur (co_phase_next st), False)"
| "run_loop_colored fails st (Co_cur cur) =
     (let ph = ph_of cur; idx = idx_of cur in
      if ph \<ge> co_total st then (st, Co_exit, False)
      else if idx \<ge> band_size st ph then (st, Co_wait cur, False)
      else (st, Co_cas cur (claim_grain (co_balance st) (band_size st ph) idx (co_workers st)), False))"
| "run_loop_colored fails st (Co_wait cur) =
     (if co_phase_next st = cur then (st, Co_wait cur, False) else (st, Co_cur (co_phase_next st), False))"
| "run_loop_colored fails st (Co_parked cur) = (st, Co_parked cur, False)"
| "run_loop_colored fails st (Co_cas cur g) =
     (let ph = ph_of cur; idx = idx_of cur; stop = idx + g;
          stop = (if stop > band_size st ph then band_size st ph else stop) in
      if co_phase_next st = cur \<and> \<not> fails
      then (st\<lparr>co_phase_next := pack_phase ph stop\<rparr>, Co_body ph idx idx stop, False)
      else (st, Co_cur (co_phase_next st), False))"
| "run_loop_colored fails st (Co_body ph idx i stop) =
     (if i < stop then (st\<lparr>co_ran := co_ran st @ [(ph, i)]\<rparr>, Co_body ph idx (i + 1) stop, False)
      else (st, Co_account ph (stop - idx), False))"
| "run_loop_colored fails st (Co_account ph k) =
     (st\<lparr>co_band_done := wrap_int (co_band_done st + k)\<rparr>,
      if co_band_done st + k = band_size st ph then Co_last ph else Co_load, False)"
| "run_loop_colored fails st (Co_last ph) =
     (if ph + 1 \<ge> co_total st then (st\<lparr>co_phase_next := pack_phase (co_total st) 0\<rparr>, Co_terminal, False)
      else (st\<lparr>co_band_done := 0\<rparr>, Co_publish ph, False))"
| "run_loop_colored fails st (Co_publish ph) =
     (st\<lparr>co_phase_next := pack_phase (ph + 1) 0\<rparr>, Co_notify (pack_phase (ph + 1) 0), False)"
| "run_loop_colored fails st (Co_notify cur) = (st, Co_cur cur, True)"
| "run_loop_colored fails st Co_terminal = (st, Co_complete, True)"
| "run_loop_colored fails st Co_complete = (st\<lparr>co_completed := co_completed st + 1\<rparr>, Co_exit, False)"
| "run_loop_colored fails st Co_exit = (st, Co_exit, False)"

fun unpark :: "colored_pc \<Rightarrow> colored_pc" where
  "unpark (Co_parked cur) = Co_wait cur"
| "unpark p = p"

definition widest :: "int list list \<Rightarrow> int" where
  "widest bands = foldl (\<lambda>w b. max w (int (length b))) 0 bands"

record colored_run =
  cr_st :: colored
  cr_pc :: "nat \<Rightarrow> colored_pc"

definition parallel_for_colored :: "int \<Rightarrow> int list list \<Rightarrow> int \<Rightarrow> parallel_options \<Rightarrow> colored_run option" where
  "parallel_for_colored sched_workers bands rounds opts =
     (if rounds \<le> 0 \<or> widest bands = 0 then None
      else (let kept = filter (\<lambda>b. b \<noteq> []) bands in
        Some \<lparr>cr_st = \<lparr>co_bands = kept, co_total = rounds * int (length kept), co_phase_next = 0, co_band_done = 0,
                co_balance = po_balance opts,
                co_workers = effective_workers sched_workers (po_max_workers opts) (widest bands),
                co_completed = 0, co_ran = []\<rparr>,
              cr_pc = (\<lambda>_. Co_load)\<rparr>))"

text \<open>An executor that spins on an unchanged word, is parked or has left takes no action.\<close>

definition co_blocked :: "colored \<Rightarrow> colored_pc \<Rightarrow> bool" where
  "co_blocked st p \<longleftrightarrow> (case p of Co_exit \<Rightarrow> True | Co_parked _ \<Rightarrow> True | Co_wait cur \<Rightarrow> cur = co_phase_next st | _ \<Rightarrow> False)"

definition after_notify :: "bool \<Rightarrow> (nat \<Rightarrow> colored_pc) \<Rightarrow> nat \<Rightarrow> colored_pc" where
  "after_notify notified pc = (if notified then (\<lambda>j. unpark (pc j)) else pc)"

inductive colored_step :: "bool \<Rightarrow> colored_run \<Rightarrow> colored_run \<Rightarrow> bool" where
  cs_loop: "int i < co_workers (cr_st s) \<Longrightarrow> \<not> co_blocked (cr_st s) (cr_pc s i) \<Longrightarrow>
     (fails \<longrightarrow> (\<exists>cur g. cr_pc s i = Co_cas cur g)) \<Longrightarrow>
     run_loop_colored fails (cr_st s) (cr_pc s i) = (st, p, notified) \<Longrightarrow>
     colored_step fails s \<lparr>cr_st = st, cr_pc = (after_notify notified (cr_pc s))(i := p)\<rparr>"
| cs_park: "int i < co_workers (cr_st s) \<Longrightarrow> cr_pc s i = Co_wait (co_phase_next (cr_st s)) \<Longrightarrow>
     colored_step False s (s\<lparr>cr_pc := (cr_pc s)(i := Co_parked (co_phase_next (cr_st s)))\<rparr>)"

text \<open>A run counts its actions and, apart from them, the compare-and-swaps that failed for no reason.\<close>

inductive colored_runs :: "colored_run \<Rightarrow> nat \<Rightarrow> nat \<Rightarrow> colored_run \<Rightarrow> bool" for s0 where
  colored_runs_start: "colored_runs s0 0 0 s0"
| colored_runs_step: "colored_runs s0 k j s \<Longrightarrow> colored_step False s s' \<Longrightarrow> colored_runs s0 (Suc k) j s'"
| colored_runs_spurious: "colored_runs s0 k j s \<Longrightarrow> colored_step True s s' \<Longrightarrow> colored_runs s0 k (Suc j) s'"

section \<open>Packing and unpacking\<close>

lemma bit_small_int: "0 \<le> k \<Longrightarrow> k < 2 ^ m \<Longrightarrow> bit (k::int) n \<longleftrightarrow> n < m \<and> bit k n"
  by (metis bit_take_bit_iff take_bit_int_eq_self)

lemma drop_pack:
  assumes "0 \<le> ph" "ph < 2 ^ 31" "0 \<le> idx" "idx < 2 ^ 31"
  shows "drop_bit 32 (pack_phase ph idx) = word_of_int ph"
proof (rule bit_word_eqI)
  fix n assume "n < LENGTH(64)"
  then show "bit (drop_bit 32 (pack_phase ph idx)) n = bit (word_of_int ph :: 64 word) n"
    using bit_small_int [OF assms(1,2), of n] bit_small_int [OF assms(3,4), of "32 + n"]
    by (auto simp: pack_phase_def bit_simps)
qed

lemma low_pack:
  assumes "0 \<le> ph" "ph < 2 ^ 31" "0 \<le> idx" "idx < 2 ^ 31"
  shows "pack_phase ph idx AND 0xffffffff = word_of_int idx"
proof -
  have m: "(0xffffffff :: 64 word) = mask 32" by (simp add: mask_eq_exp_minus_1)
  show ?thesis unfolding m
  proof (rule bit_word_eqI)
    fix n assume "n < LENGTH(64)"
    then show "bit (pack_phase ph idx AND mask 32) n = bit (word_of_int idx :: 64 word) n"
      using bit_small_int [OF assms(3,4), of n] by (auto simp: pack_phase_def bit_simps)
  qed
qed

lemma sint_small: "0 \<le> k \<Longrightarrow> k < 2 ^ 31 \<Longrightarrow> sint (ucast (word_of_int k :: 64 word) :: 32 word) = k"
  by (simp add: unsigned_ucast_eq sint_uint uint_word_of_int_eq take_bit_int_eq_self signed_take_bit_int_eq_self)

lemma unpack [simp]:
  assumes "0 \<le> ph" "ph < 2 ^ 31" "0 \<le> idx" "idx < 2 ^ 31"
  shows "ph_of (pack_phase ph idx) = ph" "idx_of (pack_phase ph idx) = idx"
  using drop_pack [OF assms] low_pack [OF assms] assms by (simp_all add: ph_of_def idx_of_def sint_small)

lemma pack_zero: "pack_phase 0 0 = 0"
  by (simp add: pack_phase_def)

section \<open>The invariant of the colored loop\<close>

fun co_todo :: "colored_pc \<Rightarrow> (int \<times> int) list" where
  "co_todo (Co_body ph idx i stop) = map (Pair ph) [i..stop - 1]"
| "co_todo _ = []"

fun co_inflight :: "colored \<Rightarrow> colored_pc \<Rightarrow> int" where
  "co_inflight st (Co_body ph idx i stop) = stop - idx"
| "co_inflight st (Co_account ph k) = k"
| "co_inflight st (Co_publish ph) = band_size st ph"
| "co_inflight st _ = 0"

fun co_closed :: "colored \<Rightarrow> colored_pc \<Rightarrow> int" where
  "co_closed st (Co_publish ph) = band_size st ph"
| "co_closed st _ = 0"

fun co_closing :: "colored_pc \<Rightarrow> int" where
  "co_closing (Co_last ph) = 1"
| "co_closing (Co_publish ph) = 1"
| "co_closing _ = 0"

fun co_ending :: "colored_pc \<Rightarrow> int" where
  "co_ending Co_terminal = 1"
| "co_ending Co_complete = 1"
| "co_ending _ = 0"

fun co_notifying :: "colored_pc \<Rightarrow> bool" where
  "co_notifying (Co_notify cur) = True"
| "co_notifying Co_terminal = True"
| "co_notifying _ = False"

definition co_ph :: "colored \<Rightarrow> int" where
  "co_ph st = ph_of (co_phase_next st)"

definition co_idx :: "colored \<Rightarrow> int" where
  "co_idx st = idx_of (co_phase_next st)"

fun co_ok :: "colored \<Rightarrow> colored_pc \<Rightarrow> bool" where
  "co_ok st (Co_cur cur) \<longleftrightarrow> ph_of cur \<le> co_ph st"
| "co_ok st (Co_cas cur g) \<longleftrightarrow> 1 \<le> g \<and> ph_of cur < co_total st \<and> idx_of cur < band_size st (ph_of cur)"
| "co_ok st (Co_wait cur) \<longleftrightarrow> ph_of cur < co_total st \<and> band_size st (ph_of cur) \<le> idx_of cur"
| "co_ok st (Co_parked cur) \<longleftrightarrow> ph_of cur < co_total st \<and> band_size st (ph_of cur) \<le> idx_of cur"
| "co_ok st (Co_body ph idx i stop) \<longleftrightarrow>
     ph = co_ph st \<and> ph < co_total st \<and> 0 \<le> idx \<and> idx \<le> i \<and> i \<le> stop \<and> stop \<le> band_size st ph \<and> idx < stop"
| "co_ok st (Co_account ph k) \<longleftrightarrow> ph = co_ph st \<and> ph < co_total st \<and> 0 < k"
| "co_ok st (Co_last ph) \<longleftrightarrow> ph = co_ph st \<and> ph < co_total st \<and> co_band_done st = band_size st ph"
| "co_ok st (Co_publish ph) \<longleftrightarrow> ph = co_ph st \<and> ph + 1 < co_total st \<and> co_band_done st = 0"
| "co_ok st (Co_notify cur) \<longleftrightarrow> ph_of cur \<le> co_ph st"
| "co_ok st Co_terminal \<longleftrightarrow> co_ph st = co_total st"
| "co_ok st Co_complete \<longleftrightarrow> co_ph st = co_total st"
| "co_ok st Co_exit \<longleftrightarrow> co_ph st = co_total st"
| "co_ok st Co_load \<longleftrightarrow> True"

definition co_execs :: "colored \<Rightarrow> nat" where
  "co_execs st = nat (co_workers st)"

definition ctot :: "(colored_pc \<Rightarrow> 'b::comm_monoid_add) \<Rightarrow> colored_run \<Rightarrow> 'b" where
  "ctot f s = (\<Sum>j<co_execs (cr_st s). f (cr_pc s j))"

definition co_items :: "colored \<Rightarrow> int \<Rightarrow> int \<Rightarrow> (int \<times> int) list" where
  "co_items st ph idx = concat (map (\<lambda>p. map (Pair p) [0..band_size st p - 1]) [0..ph - 1]) @ map (Pair ph) [0..idx - 1]"

definition co_static :: "colored \<Rightarrow> bool" where
  "co_static st \<longleftrightarrow> co_bands st \<noteq> [] \<and> (\<forall>b \<in> set (co_bands st). b \<noteq> [] \<and> int (length b) < 2 ^ 30)
     \<and> 0 < co_total st \<and> co_total st < 2 ^ 31 \<and> 1 \<le> co_workers st"

definition co_word :: "colored \<Rightarrow> bool" where
  "co_word st \<longleftrightarrow> co_phase_next st = pack_phase (co_ph st) (co_idx st) \<and> 0 \<le> co_ph st \<and> co_ph st \<le> co_total st \<and> 0 \<le> co_idx st
     \<and> (if co_ph st < co_total st then co_idx st \<le> band_size st (co_ph st) else co_idx st = 0)"

definition co_counts :: "colored_run \<Rightarrow> bool" where
  "co_counts s \<longleftrightarrow> (let st = cr_st s in
     0 \<le> co_band_done st
     \<and> (if co_ph st < co_total st
        then co_band_done st + ctot (co_inflight st) s = co_idx st
          \<and> ctot co_closing s = (if co_band_done st + ctot (co_closed st) s = band_size st (co_ph st) then 1 else 0)
        else ctot (co_inflight st) s = 0 \<and> ctot co_closing s = 0)
     \<and> int (co_completed st) + ctot co_ending s = (if co_ph st = co_total st then 1 else 0))"

definition co_history :: "colored_run \<Rightarrow> bool" where
  "co_history s \<longleftrightarrow> (let st = cr_st s in
     mset (co_ran st) + ctot (\<lambda>p. mset (co_todo p)) s = mset (co_items st (co_ph st) (co_idx st))
     \<and> sorted (map fst (co_ran st)))"

definition co_pcs :: "colored_run \<Rightarrow> bool" where
  "co_pcs s \<longleftrightarrow> (\<forall>i<co_execs (cr_st s). co_ok (cr_st s) (cr_pc s i))"

definition co_wakes :: "colored_run \<Rightarrow> bool" where
  "co_wakes s \<longleftrightarrow> (\<forall>i<co_execs (cr_st s). \<forall>cur. cr_pc s i = Co_parked cur \<longrightarrow> cur \<noteq> co_phase_next (cr_st s) \<longrightarrow>
     (\<exists>j<co_execs (cr_st s). co_notifying (cr_pc s j)))"

definition co_inv :: "colored_run \<Rightarrow> bool" where
  "co_inv s \<longleftrightarrow> co_static (cr_st s) \<and> co_word (cr_st s) \<and> co_counts s \<and> co_history s \<and> co_pcs s \<and> co_wakes s"

lemma band_facts:
  assumes "co_static st"
  shows "0 < band_size st ph" "band_size st ph < 2 ^ 30"
proof -
  have "band_at st ph \<in> set (co_bands st)" using assms by (simp add: band_at_def co_static_def)
  then show "0 < band_size st ph" "band_size st ph < 2 ^ 30" using assms by (auto simp: co_static_def band_size_def)
qed

lemma co_nonneg: "co_static st \<Longrightarrow> co_ok st p \<Longrightarrow> 0 \<le> co_inflight st p" "co_static st \<Longrightarrow> 0 \<le> co_closed st p"
  "0 \<le> co_closing p" "0 \<le> co_ending p" "co_static st \<Longrightarrow> co_ok st p \<Longrightarrow> co_closed st p \<le> co_inflight st p"
  using band_facts(1) [of st] by (cases p; auto intro: less_imp_le)+

lemma ctot_nonneg: "(\<And>j. j < co_execs (cr_st s) \<Longrightarrow> (0::int) \<le> f (cr_pc s j)) \<Longrightarrow> 0 \<le> ctot f s"
  unfolding ctot_def by (intro sum_nonneg) auto

lemma ctot_ge:
  fixes f :: "colored_pc \<Rightarrow> int"
  assumes "i < co_execs (cr_st s)" "\<And>j. j < co_execs (cr_st s) \<Longrightarrow> 0 \<le> f (cr_pc s j)"
  shows "f (cr_pc s i) \<le> ctot f s"
  unfolding ctot_def using assms by (intro member_le_sum) auto

lemma ctot_zero:
  fixes f :: "colored_pc \<Rightarrow> int"
  assumes "ctot f s = 0" "\<And>j. j < co_execs (cr_st s) \<Longrightarrow> 0 \<le> f (cr_pc s j)" "i < co_execs (cr_st s)"
  shows "f (cr_pc s i) = 0"
  using assms sum_nonneg_eq_0_iff [of "{..<co_execs (cr_st s)}" "\<lambda>j. f (cr_pc s j)"] by (auto simp: ctot_def)

lemma ctot_upd:
  fixes f :: "colored_pc \<Rightarrow> 'b::comm_monoid_add"
  assumes "i < co_execs (cr_st s)" "co_workers st = co_workers (cr_st s)" "\<And>q. f (unpark q) = f q"
  shows "ctot f \<lparr>cr_st = st, cr_pc = (after_notify b (cr_pc s))(i := p)\<rparr> + f (cr_pc s i) = ctot f s + f p"
proof -
  have "(\<Sum>j<co_execs (cr_st s). f (after_notify b (cr_pc s) j)) = ctot f s"
    "f (after_notify b (cr_pc s) i) = f (cr_pc s i)"
    unfolding ctot_def after_notify_def by (auto simp: assms(3))
  with sum_fun_upd [OF assms(1), of f "after_notify b (cr_pc s)" p] assms(2) show ?thesis
    by (simp add: ctot_def co_execs_def)
qed

lemma ctot_upd_int:
  fixes f :: "colored_pc \<Rightarrow> int"
  assumes "i < co_execs (cr_st s)" "co_workers st = co_workers (cr_st s)" "\<And>q. f (unpark q) = f q"
  shows "ctot f \<lparr>cr_st = st, cr_pc = (after_notify b (cr_pc s))(i := p)\<rparr> = ctot f s + f p - f (cr_pc s i)"
  using ctot_upd [where f = f and s = s and i = i and st = st and b = b and p = p, OF assms] by simp

lemma co_unpark: "co_inflight st (unpark q) = co_inflight st q" "co_closed st (unpark q) = co_closed st q"
  "co_closing (unpark q) = co_closing q" "co_ending (unpark q) = co_ending q" "co_todo (unpark q) = co_todo q"
  "co_ok st (unpark q) = co_ok st q"
  by (cases q; simp)+

section \<open>What the invariant says at each position\<close>

lemma co_inv_facts:
  assumes inv: "co_inv s"
  shows "co_static (cr_st s)" "0 \<le> co_ph (cr_st s)" "co_ph (cr_st s) \<le> co_total (cr_st s)" "co_total (cr_st s) < 2 ^ 31"
    "0 \<le> co_idx (cr_st s)" "co_idx (cr_st s) < 2 ^ 30" "0 \<le> co_band_done (cr_st s)"
    and "co_ph (cr_st s) < co_total (cr_st s) \<Longrightarrow> co_idx (cr_st s) \<le> band_size (cr_st s) (co_ph (cr_st s))"
    and "co_phase_next (cr_st s) = pack_phase (co_ph (cr_st s)) (co_idx (cr_st s))"
    and "\<And>i. i < co_execs (cr_st s) \<Longrightarrow> co_ok (cr_st s) (cr_pc s i)"
proof -
  show st: "co_static (cr_st s)" and w: "co_phase_next (cr_st s) = pack_phase (co_ph (cr_st s)) (co_idx (cr_st s))"
    and ph: "0 \<le> co_ph (cr_st s)" "co_ph (cr_st s) \<le> co_total (cr_st s)" "0 \<le> co_idx (cr_st s)" "0 \<le> co_band_done (cr_st s)"
    and "\<And>i. i < co_execs (cr_st s) \<Longrightarrow> co_ok (cr_st s) (cr_pc s i)"
    using inv by (auto simp: co_inv_def co_word_def co_counts_def co_pcs_def Let_def)
  show "co_total (cr_st s) < 2 ^ 31" using st by (simp add: co_static_def)
  show le: "co_idx (cr_st s) \<le> band_size (cr_st s) (co_ph (cr_st s))" if "co_ph (cr_st s) < co_total (cr_st s)"
    using inv that by (simp add: co_inv_def co_word_def)
  show "co_idx (cr_st s) < 2 ^ 30"
    using inv band_facts(2) [OF st, of "co_ph (cr_st s)"] by (auto simp: co_inv_def co_word_def split: if_splits)
qed

lemma co_counts_facts:
  assumes inv: "co_inv s"
  shows "co_ph (cr_st s) < co_total (cr_st s) \<Longrightarrow> co_band_done (cr_st s) + ctot (co_inflight (cr_st s)) s = co_idx (cr_st s)"
    and "co_ph (cr_st s) < co_total (cr_st s) \<Longrightarrow> ctot co_closing s =
       (if co_band_done (cr_st s) + ctot (co_closed (cr_st s)) s = band_size (cr_st s) (co_ph (cr_st s)) then 1 else 0)"
    and "\<not> co_ph (cr_st s) < co_total (cr_st s) \<Longrightarrow> ctot (co_inflight (cr_st s)) s = 0 \<and> ctot co_closing s = 0"
    and "int (co_completed (cr_st s)) + ctot co_ending s = (if co_ph (cr_st s) = co_total (cr_st s) then 1 else 0)"
    and "\<And>i. i < co_execs (cr_st s) \<Longrightarrow> co_inflight (cr_st s) (cr_pc s i) \<le> ctot (co_inflight (cr_st s)) s"
    and "\<And>i. i < co_execs (cr_st s) \<Longrightarrow>
       co_inflight (cr_st s) (cr_pc s i) - co_closed (cr_st s) (cr_pc s i) \<le> ctot (co_inflight (cr_st s)) s - ctot (co_closed (cr_st s)) s"
    and "0 \<le> ctot (co_closed (cr_st s)) s" "0 \<le> ctot co_ending s" "0 \<le> ctot co_closing s"
proof -
  note F = co_inv_facts [OF inv]
  show "co_ph (cr_st s) < co_total (cr_st s) \<Longrightarrow> co_band_done (cr_st s) + ctot (co_inflight (cr_st s)) s = co_idx (cr_st s)"
    "co_ph (cr_st s) < co_total (cr_st s) \<Longrightarrow> ctot co_closing s =
       (if co_band_done (cr_st s) + ctot (co_closed (cr_st s)) s = band_size (cr_st s) (co_ph (cr_st s)) then 1 else 0)"
    "\<not> co_ph (cr_st s) < co_total (cr_st s) \<Longrightarrow> ctot (co_inflight (cr_st s)) s = 0 \<and> ctot co_closing s = 0"
    "int (co_completed (cr_st s)) + ctot co_ending s = (if co_ph (cr_st s) = co_total (cr_st s) then 1 else 0)"
    using inv unfolding co_inv_def co_counts_def Let_def by (auto simp only: if_True if_False)
  show "co_inflight (cr_st s) (cr_pc s i) \<le> ctot (co_inflight (cr_st s)) s" if "i < co_execs (cr_st s)" for i
    using that by (intro ctot_ge) (auto intro: co_nonneg F(1,10))
  show "co_inflight (cr_st s) (cr_pc s i) - co_closed (cr_st s) (cr_pc s i)
      \<le> ctot (co_inflight (cr_st s)) s - ctot (co_closed (cr_st s)) s" if "i < co_execs (cr_st s)" for i
    using ctot_ge [OF that, of "\<lambda>p. co_inflight (cr_st s) p - co_closed (cr_st s) p"] co_nonneg(5) [OF F(1) F(10)]
    by (simp add: ctot_def sum_subtractf)
  show "0 \<le> ctot (co_closed (cr_st s)) s" "0 \<le> ctot co_ending s" "0 \<le> ctot co_closing s"
    by (intro ctot_nonneg co_nonneg F(1))+
qed

lemma co_account_fits:
  assumes inv: "co_inv s" and i: "i < co_execs (cr_st s)" and pc: "cr_pc s i = Co_account ph k"
  shows "0 < k" "ph = co_ph (cr_st s)" "ph < co_total (cr_st s)"
    and "co_band_done (cr_st s) + k + ctot (co_closed (cr_st s)) s \<le> band_size (cr_st s) ph"
    and "co_band_done (cr_st s) + k \<le> band_size (cr_st s) ph" "ctot co_closing s = 0"
    and "wrap_int (co_band_done (cr_st s) + k) = co_band_done (cr_st s) + k"
proof -
  note F = co_inv_facts [OF inv] and C = co_counts_facts [OF inv]
  show k: "0 < k" and ph: "ph = co_ph (cr_st s)" "ph < co_total (cr_st s)" using F(10) [OF i] pc by auto
  show le: "co_band_done (cr_st s) + k + ctot (co_closed (cr_st s)) s \<le> band_size (cr_st s) ph"
    using C(1) C(6) [OF i] F(8) ph pc by simp
  then show le2: "co_band_done (cr_st s) + k \<le> band_size (cr_st s) ph" using C(7) by simp
  show "ctot co_closing s = 0" using C(2) ph k le by simp
  show "wrap_int (co_band_done (cr_st s) + k) = co_band_done (cr_st s) + k"
    using le2 k F(7) band_facts(2) [OF F(1), of ph] by (intro wrap_int_id) auto
qed

lemma co_last_facts:
  assumes inv: "co_inv s" and i: "i < co_execs (cr_st s)" and pc: "cr_pc s i = Co_last ph"
  shows "ph = co_ph (cr_st s)" "ph < co_total (cr_st s)" "co_band_done (cr_st s) = band_size (cr_st s) ph"
    and "co_idx (cr_st s) = band_size (cr_st s) ph" "ctot (co_inflight (cr_st s)) s = 0" "ctot (co_closed (cr_st s)) s = 0"
    and "ctot co_closing s = 1"
proof -
  note F = co_inv_facts [OF inv] and C = co_counts_facts [OF inv]
  show ph: "ph = co_ph (cr_st s)" "ph < co_total (cr_st s)" and d: "co_band_done (cr_st s) = band_size (cr_st s) ph"
    using F(10) [OF i] pc by auto
  have nn: "0 \<le> ctot (co_inflight (cr_st s)) s" by (intro ctot_nonneg co_nonneg F)
  show "co_idx (cr_st s) = band_size (cr_st s) ph" and z: "ctot (co_inflight (cr_st s)) s = 0"
    using C(1) F(8) ph d nn by auto
  show zc: "ctot (co_closed (cr_st s)) s = 0" using C(6) [OF i] C(7) z pc by simp
  show "ctot co_closing s = 1" using C(2) ph d zc by simp
qed

lemma co_publish_facts:
  assumes inv: "co_inv s" and i: "i < co_execs (cr_st s)" and pc: "cr_pc s i = Co_publish ph"
  shows "ph = co_ph (cr_st s)" "ph + 1 < co_total (cr_st s)" "co_band_done (cr_st s) = 0"
    and "co_idx (cr_st s) = band_size (cr_st s) ph" "ctot (co_inflight (cr_st s)) s = band_size (cr_st s) ph"
    and "ctot (co_closed (cr_st s)) s = band_size (cr_st s) ph" "ctot co_closing s = 1"
proof -
  note F = co_inv_facts [OF inv] and C = co_counts_facts [OF inv]
  show ph: "ph = co_ph (cr_st s)" "ph + 1 < co_total (cr_st s)" and d: "co_band_done (cr_st s) = 0"
    using F(10) [OF i] pc by auto
  show ix: "co_idx (cr_st s) = band_size (cr_st s) ph" and z: "ctot (co_inflight (cr_st s)) s = band_size (cr_st s) ph"
    using C(1) C(5) [OF i] F(8) ph d pc by auto
  have "co_closed (cr_st s) (cr_pc s i) \<le> ctot (co_closed (cr_st s)) s"
    using i by (intro ctot_ge) (auto intro: co_nonneg F(1))
  then show zc: "ctot (co_closed (cr_st s)) s = band_size (cr_st s) ph" using C(6) [OF i] z pc by simp
  show "ctot co_closing s = 1" using C(2) ph d zc by simp
qed

text \<open>While one executor closes a band no other holds items of it or closes it too.\<close>

lemma co_alone:
  assumes inv: "co_inv s" and i: "i < co_execs (cr_st s)" and "co_closing (cr_pc s i) = 1"
    and j: "j < co_execs (cr_st s)" "j \<noteq> i"
  shows "co_inflight (cr_st s) (cr_pc s j) = 0" "co_closing (cr_pc s j) = 0" "co_todo (cr_pc s j) = []"
proof -
  note F = co_inv_facts [OF inv]
  have two: "f (cr_pc s i) + f (cr_pc s j) \<le> ctot f s" if "\<And>k. k < co_execs (cr_st s) \<Longrightarrow> 0 \<le> f (cr_pc s k)"
    for f :: "colored_pc \<Rightarrow> int"
  proof -
    have "(\<Sum>k\<in>{i, j}. f (cr_pc s k)) \<le> ctot f s" unfolding ctot_def using i j that by (intro sum_mono2) auto
    then show ?thesis using j(2) by simp
  qed
  obtain ph where "cr_pc s i = Co_last ph \<or> cr_pc s i = Co_publish ph" using assms(3) by (cases "cr_pc s i") auto
  then have "ctot (co_inflight (cr_st s)) s = co_inflight (cr_st s) (cr_pc s i) \<and> ctot co_closing s = 1"
    using co_last_facts [OF inv i] co_publish_facts [OF inv i] by auto
  with two [of "co_inflight (cr_st s)"] two [of co_closing] assms(3) co_nonneg(1) [OF F(1) F(10)] co_nonneg(3)
    co_nonneg(1) [OF F(1) F(10) [OF j(1)]] co_nonneg(3) [of "cr_pc s j"]
  show z: "co_inflight (cr_st s) (cr_pc s j) = 0" and "co_closing (cr_pc s j) = 0" by auto
  show "co_todo (cr_pc s j) = []" using z F(10) [OF j(1)] by (cases "cr_pc s j") auto
qed

section \<open>Preservation\<close>

lemma co_loop_static:
  "run_loop_colored fails st p = (st', p', b) \<Longrightarrow>
     co_bands st' = co_bands st \<and> co_total st' = co_total st \<and> co_workers st' = co_workers st \<and> co_balance st' = co_balance st"
  by (cases p) (auto simp: Let_def split: if_splits)

text \<open>Where an action moves the packed word: a claim within the phase, or on to the next one.\<close>

fun co_moves :: "bool \<Rightarrow> colored \<Rightarrow> colored_pc \<Rightarrow> (int \<times> int) option" where
  "co_moves fails st (Co_cas cur g) =
     (if co_phase_next st = cur \<and> \<not> fails then Some (co_ph st, min (co_idx st + g) (band_size st (co_ph st))) else None)"
| "co_moves fails st (Co_last ph) = (if ph + 1 \<ge> co_total st then Some (co_total st, 0) else None)"
| "co_moves fails st (Co_publish ph) = Some (ph + 1, 0)"
| "co_moves fails st _ = None"

lemma co_loop_word:
  assumes inv: "co_inv s" and i: "i < co_execs (cr_st s)" and st: "run_loop_colored fails (cr_st s) (cr_pc s i) = (st, p, b)"
  shows "co_word st"
    and "case co_moves fails (cr_st s) (cr_pc s i) of
       Some (ph, idx) \<Rightarrow> co_ph st = ph \<and> co_idx st = idx \<and> co_phase_next st = pack_phase ph idx
     | None \<Rightarrow> co_phase_next st = co_phase_next (cr_st s) \<and> co_ph st = co_ph (cr_st s) \<and> co_idx st = co_idx (cr_st s)"
proof -
  note F = co_inv_facts [OF inv] and L = co_last_facts [OF inv i] and P = co_publish_facts [OF inv i]
  have same: "co_total st = co_total (cr_st s)" "\<And>q. band_size st q = band_size (cr_st s) q"
    using co_loop_static [OF st] by (simp_all add: band_size_def band_at_def)
  have cas: "co_ph (cr_st s) < co_total (cr_st s) \<and> co_idx (cr_st s) < band_size (cr_st s) (co_ph (cr_st s)) \<and> 1 \<le> g"
    if "cr_pc s i = Co_cas (co_phase_next (cr_st s)) g" for g
    using F(10) [OF i] that by (simp add: co_ph_def co_idx_def)
  have bs: "band_size (cr_st s) q < 2147483648" "0 < band_size (cr_st s) q" for q using band_facts [OF F(1), of q] by auto
  show m: "case co_moves fails (cr_st s) (cr_pc s i) of
       Some (ph, idx) \<Rightarrow> co_ph st = ph \<and> co_idx st = idx \<and> co_phase_next st = pack_phase ph idx
     | None \<Rightarrow> co_phase_next st = co_phase_next (cr_st s) \<and> co_ph st = co_ph (cr_st s) \<and> co_idx st = co_idx (cr_st s)"
  proof (cases "cr_pc s i")
    case (Co_cas cur g)
    show ?thesis
    proof (cases "co_phase_next (cr_st s) = cur \<and> \<not> fails")
      case True
      with cas Co_cas have c: "co_ph (cr_st s) < co_total (cr_st s)" "co_idx (cr_st s) < band_size (cr_st s) (co_ph (cr_st s))" "1 \<le> g"
        by auto
      let ?x = "min (co_idx (cr_st s) + g) (band_size (cr_st s) (co_ph (cr_st s)))"
      have "co_phase_next st = pack_phase (co_ph (cr_st s)) ?x"
        using st True Co_cas by (auto simp: Let_def co_ph_def co_idx_def min_def)
      moreover have "ph_of (pack_phase (co_ph (cr_st s)) ?x) = co_ph (cr_st s)" "idx_of (pack_phase (co_ph (cr_st s)) ?x) = ?x"
        using unpack [of "co_ph (cr_st s)" ?x] c F(2,4,5) bs(1) [of "co_ph (cr_st s)"] by auto
      ultimately show ?thesis using True Co_cas by (simp add: co_ph_def co_idx_def)
    next
      case False
      with st Co_cas show ?thesis by (auto simp: Let_def)
    qed
  next
    case (Co_last ph)
    then show ?thesis using st F(2,3,4) L(1,2) by (auto simp: co_ph_def co_idx_def)
  next
    case (Co_publish ph)
    then show ?thesis using st F(2,3,4) P(1,2) by (auto simp: co_ph_def co_idx_def)
  next
    case (Co_parked cur)
    with st have "st = cr_st s" by simp
    with Co_parked show ?thesis by simp
  qed (use st in \<open>auto simp: Let_def co_ph_def co_idx_def split: if_splits\<close>)
  show "co_word st"
  proof (cases "co_moves fails (cr_st s) (cr_pc s i)")
    case None
    with m inv same show ?thesis by (simp add: co_inv_def co_word_def)
  next
    case (Some pos)
    then obtain ph idx where pos: "co_moves fails (cr_st s) (cr_pc s i) = Some (ph, idx)" by (cases pos) auto
    with m have eq: "co_ph st = ph" "co_idx st = idx" "co_phase_next st = pack_phase ph idx" by auto
    have "0 \<le> ph \<and> ph \<le> co_total (cr_st s) \<and> 0 \<le> idx
        \<and> (if ph < co_total (cr_st s) then idx \<le> band_size (cr_st s) ph else idx = 0)"
      using pos cas L(1,2) P(1,2) F(2,3,5) bs by (cases "cr_pc s i") (auto split: if_splits intro: less_imp_le)
    with eq same show ?thesis by (simp add: co_word_def)
  qed
qed

lemma co_ok_mono:
  assumes "co_ok st p" and "co_bands st' = co_bands st" "co_total st' = co_total st"
    and "co_ph st \<le> co_ph st'" "co_ph st' \<le> co_total st"
    and "co_inflight st p = 0 \<and> co_closing p = 0 \<or> co_ph st' = co_ph st \<and> (co_closing p = 0 \<or> co_band_done st' = co_band_done st)"
  shows "co_ok st' p"
proof -
  have "band_size st' = band_size st" using assms(2) by (simp add: band_size_def band_at_def fun_eq_iff)
  then show ?thesis using assms by (cases p) auto
qed

lemma co_pcs_loop:
  assumes inv: "co_inv s" and i: "i < co_execs (cr_st s)" and st: "run_loop_colored fails (cr_st s) (cr_pc s i) = (st, p, b)"
    and busy: "\<not> co_blocked (cr_st s) (cr_pc s i)"
  shows "co_pcs \<lparr>cr_st = st, cr_pc = (after_notify b (cr_pc s))(i := p)\<rparr>"
proof -
  note F = co_inv_facts [OF inv] and L = co_last_facts [OF inv i] and P = co_publish_facts [OF inv i]
    and A = co_account_fits [OF inv i] and W = co_loop_word [OF inv i st]
  have same: "co_bands st = co_bands (cr_st s)" "co_total st = co_total (cr_st s)" "co_workers st = co_workers (cr_st s)"
    using co_loop_static [OF st] by auto
  have bs: "band_size st q = band_size (cr_st s) q" "0 < band_size (cr_st s) q" for q
    using same band_facts(1) [OF F(1), of q] by (simp_all add: band_size_def band_at_def)
  have cg: "1 \<le> claim_grain bal n c w" for bal n c w
    by (simp add: claim_grain_def Let_def split: balance.split)
  have mine: "co_ok st p"
  proof (cases "cr_pc s i")
    case (Co_cur cur)
    then show ?thesis using st F(10) [OF i] F(3) by (simp add: Let_def not_le split: if_splits) (auto simp: cg)
  next
    case (Co_cas cur g)
    show ?thesis
    proof (cases "co_phase_next (cr_st s) = cur \<and> \<not> fails")
      case True
      then show ?thesis using st Co_cas F(10) [OF i] F(5) same W(2) bs
        by (auto simp: Let_def co_ph_def co_idx_def min_def)
    qed (use st Co_cas in \<open>auto simp: Let_def co_ph_def\<close>)
  next
    case (Co_body ph idx j stop)
    then have "co_ph st = co_ph (cr_st s)" using W(2) by simp
    moreover have "p = (if j < stop then Co_body ph idx (j + 1) stop else Co_account ph (stop - idx))"
      using st Co_body by (simp split: if_splits)
    ultimately show ?thesis using F(10) [OF i] Co_body by (auto simp: same bs(1))
  next
    case (Co_account ph k)
    then have "co_ph st = co_ph (cr_st s)" using W(2) by simp
    moreover have "p = (if co_band_done (cr_st s) + k = band_size (cr_st s) ph then Co_last ph else Co_load)"
      "co_band_done st = co_band_done (cr_st s) + k"
      using st Co_account A(7) [OF Co_account] by auto
    ultimately show ?thesis using A(2,3) [OF Co_account] by (simp add: same bs(1))
  next
    case (Co_last ph)
    show ?thesis
    proof (cases "ph + 1 \<ge> co_total (cr_st s)")
      case True
      then have "p = Co_terminal" "co_ph st = co_total (cr_st s)" using st Co_last W(2) by auto
      then show ?thesis by (simp add: same)
    next
      case False
      then have "p = Co_publish ph" "co_ph st = co_ph (cr_st s)" "co_band_done st = 0" using st Co_last W(2) by auto
      then show ?thesis using L(1) [OF Co_last] False by (simp add: same)
    qed
  next
    case (Co_publish ph)
    then show ?thesis using st W(2) by (auto simp: co_ph_def)
  next
    case (Co_parked cur)
    then show ?thesis using busy by (simp add: co_blocked_def)
  next
    case Co_load
    then have "st = cr_st s" "p = Co_cur (co_phase_next (cr_st s))" using st by auto
    then show ?thesis by (simp add: co_ph_def)
  next
    case (Co_wait cur)
    then have "st = cr_st s" "p = Co_cur (co_phase_next (cr_st s))" using st busy by (auto simp: co_blocked_def)
    then show ?thesis by (simp add: co_ph_def)
  next
    case (Co_notify cur)
    then have "st = cr_st s" "p = Co_cur cur" using st by auto
    then show ?thesis using F(10) [OF i] Co_notify by simp
  next
    case Co_terminal
    then have "st = cr_st s" "p = Co_complete" using st by auto
    then show ?thesis using F(10) [OF i] Co_terminal by simp
  next
    case Co_complete
    then have "co_ph st = co_ph (cr_st s)" "p = Co_exit" using st W(2) by auto
    then show ?thesis using F(10) [OF i] Co_complete by (simp add: same)
  next
    case Co_exit
    then show ?thesis using busy by (simp add: co_blocked_def)
  qed
  have ph: "co_ph (cr_st s) \<le> co_ph st" "co_ph st \<le> co_total (cr_st s)"
    using W F(2,3) L(1,2) P(1,2) by (cases "cr_pc s i"; auto split: if_splits simp: co_word_def)+
  have "co_ok st (cr_pc s j)" if j: "j < co_execs (cr_st s)" "j \<noteq> i" for j
  proof (rule co_ok_mono [OF F(10) [OF j(1)] same(1,2) ph])
    show "co_inflight (cr_st s) (cr_pc s j) = 0 \<and> co_closing (cr_pc s j) = 0
        \<or> co_ph st = co_ph (cr_st s) \<and> (co_closing (cr_pc s j) = 0 \<or> co_band_done st = co_band_done (cr_st s))"
    proof (cases "co_closing (cr_pc s i) = 1")
      case True
      then show ?thesis using co_alone [OF inv i True j] by blast
    next
      case False
      then have "co_moves fails (cr_st s) (cr_pc s i) = None \<or> (\<exists>x. co_moves fails (cr_st s) (cr_pc s i) = Some (co_ph (cr_st s), x))"
        by (cases "cr_pc s i") auto
      then have "co_ph st = co_ph (cr_st s)" using W(2) by auto
      moreover have "co_closing (cr_pc s j) = 0" if "\<exists>ph k. cr_pc s i = Co_account ph k"
        using that A(6) ctot_zero [of co_closing s j] co_nonneg(3) j(1) by auto
      moreover have "co_band_done st = co_band_done (cr_st s)" if "\<nexists>ph k. cr_pc s i = Co_account ph k"
        using st False that by (cases "cr_pc s i") (auto simp: Let_def split: if_splits)
      ultimately show ?thesis by blast
    qed
  qed
  with mine same(3) show ?thesis by (auto simp: co_pcs_def co_execs_def after_notify_def co_unpark)
qed

section \<open>Counts, history and wakeups are kept\<close>

lemma co_blockedD:
  "\<not> co_blocked st p \<Longrightarrow> Co_parked c \<noteq> p" "\<not> co_blocked st p \<Longrightarrow> Co_wait (co_phase_next st) \<noteq> p"
  by (auto simp: co_blocked_def)

lemma co_counts_loop:
  assumes inv: "co_inv s" and i: "i < co_execs (cr_st s)" and st: "run_loop_colored fails (cr_st s) (cr_pc s i) = (st, p, b)"
    and busy: "\<not> co_blocked (cr_st s) (cr_pc s i)"
  shows "co_counts \<lparr>cr_st = st, cr_pc = (after_notify b (cr_pc s))(i := p)\<rparr>"
proof -
  note F = co_inv_facts [OF inv] and C = co_counts_facts [OF inv] and W = co_loop_word [OF inv i st]
  let ?t = "\<lparr>cr_st = st, cr_pc = (after_notify b (cr_pc s))(i := p)\<rparr>"
  have same: "co_bands st = co_bands (cr_st s)" "co_total st = co_total (cr_st s)" "co_workers st = co_workers (cr_st s)"
    using co_loop_static [OF st] by auto
  have bs: "band_size st = band_size (cr_st s)" using same by (simp add: band_size_def band_at_def fun_eq_iff)
  have "co_inflight st q = co_inflight (cr_st s) q" "co_closed st q = co_closed (cr_st s) q" for q
    by (cases q; simp add: bs)+
  then have fl: "co_inflight st = co_inflight (cr_st s)" "co_closed st = co_closed (cr_st s)" by (simp_all add: fun_eq_iff)
  have U: "ctot f ?t = ctot f s + f p - f (cr_pc s i)" if "\<And>q. f (unpark q) = f q" for f :: "colored_pc \<Rightarrow> int"
    by (rule ctot_upd_int [where f = f, OF i same(3)]) (rule that)
  have T: "ctot (co_inflight st) ?t = ctot (co_inflight (cr_st s)) s + co_inflight (cr_st s) p - co_inflight (cr_st s) (cr_pc s i)"
    "ctot (co_closed st) ?t = ctot (co_closed (cr_st s)) s + co_closed (cr_st s) p - co_closed (cr_st s) (cr_pc s i)"
    "ctot co_closing ?t = ctot co_closing s + co_closing p - co_closing (cr_pc s i)"
    "ctot co_ending ?t = ctot co_ending s + co_ending p - co_ending (cr_pc s i)"
    using U [of "co_inflight st"] U [of "co_closed st"] U [of co_closing] U [of co_ending] by (simp_all add: co_unpark fl)
  have G: "co_counts ?t \<longleftrightarrow> 0 \<le> co_band_done st
     \<and> (if co_ph st < co_total (cr_st s)
        then co_band_done st + (ctot (co_inflight (cr_st s)) s + co_inflight (cr_st s) p - co_inflight (cr_st s) (cr_pc s i)) = co_idx st
          \<and> ctot co_closing s + co_closing p - co_closing (cr_pc s i) =
            (if co_band_done st + (ctot (co_closed (cr_st s)) s + co_closed (cr_st s) p - co_closed (cr_st s) (cr_pc s i))
              = band_size (cr_st s) (co_ph st) then 1 else 0)
        else ctot (co_inflight (cr_st s)) s + co_inflight (cr_st s) p - co_inflight (cr_st s) (cr_pc s i) = 0
          \<and> ctot co_closing s + co_closing p - co_closing (cr_pc s i) = 0)
     \<and> int (co_completed st) + (ctot co_ending s + co_ending p - co_ending (cr_pc s i)) = (if co_ph st = co_total (cr_st s) then 1 else 0)"
    by (simp only: co_counts_def Let_def colored_run.simps T same bs)
  consider (move) ph idx where "co_moves fails (cr_st s) (cr_pc s i) = Some (ph, idx)"
    | (stay) "co_moves fails (cr_st s) (cr_pc s i) = None" by (cases "co_moves fails (cr_st s) (cr_pc s i)") auto
  then show ?thesis
  proof cases
    case stay
    then have ph: "co_ph st = co_ph (cr_st s)" "co_idx st = co_idx (cr_st s)" using W(2) by auto
    have d: "co_band_done st + co_inflight (cr_st s) p - co_inflight (cr_st s) (cr_pc s i) = co_band_done (cr_st s)
        \<and> int (co_completed st) + co_ending p - co_ending (cr_pc s i) = int (co_completed (cr_st s))
        \<and> 0 \<le> co_band_done st"
      using st stay F(7) co_account_fits(7,1) [OF inv i] co_last_facts(1,3) [OF inv i] busy
      by (cases "cr_pc s i") (auto simp: Let_def co_blocked_def split: if_splits)
    have cl: "co_ph (cr_st s) < co_total (cr_st s) \<Longrightarrow> ctot co_closing s + co_closing p - co_closing (cr_pc s i) =
        (if co_band_done st + (ctot (co_closed (cr_st s)) s + co_closed (cr_st s) p - co_closed (cr_st s) (cr_pc s i))
            = band_size (cr_st s) (co_ph (cr_st s)) then 1 else 0)"
    proof (cases "cr_pc s i")
      case (Co_account q k)
      note A = co_account_fits [OF inv i Co_account]
      have "co_closed (cr_st s) (cr_pc s j) = 0" if "j < co_execs (cr_st s)" for j
        using ctot_zero [OF A(6) _ that] co_nonneg(3) by (cases "cr_pc s j") auto
      then have "ctot (co_closed (cr_st s)) s = 0" by (simp add: ctot_def)
      then show ?thesis using st Co_account A by (auto split: if_splits)
    next
      case (Co_last q)
      show ?thesis using st stay Co_last co_last_facts [OF inv i Co_last] by (auto split: if_splits)
    qed (use st stay C(2) co_blockedD [OF busy] in \<open>auto simp: Let_def split: if_splits\<close>)
    have q: "co_inflight (cr_st s) p - co_inflight (cr_st s) (cr_pc s i) = 0 \<and> co_closing p = co_closing (cr_pc s i)"
      if "\<not> co_ph (cr_st s) < co_total (cr_st s)"
      using st stay that F(10) [OF i] co_blockedD [OF busy] by (cases "cr_pc s i") (auto simp: Let_def split: if_splits)
    show ?thesis unfolding G ph
    proof (intro conjI)
      show "if co_ph (cr_st s) < co_total (cr_st s)
        then co_band_done st + (ctot (co_inflight (cr_st s)) s + co_inflight (cr_st s) p - co_inflight (cr_st s) (cr_pc s i)) = co_idx (cr_st s)
          \<and> ctot co_closing s + co_closing p - co_closing (cr_pc s i) =
            (if co_band_done st + (ctot (co_closed (cr_st s)) s + co_closed (cr_st s) p - co_closed (cr_st s) (cr_pc s i))
              = band_size (cr_st s) (co_ph (cr_st s)) then 1 else 0)
        else ctot (co_inflight (cr_st s)) s + co_inflight (cr_st s) p - co_inflight (cr_st s) (cr_pc s i) = 0
          \<and> ctot co_closing s + co_closing p - co_closing (cr_pc s i) = 0"
      proof (cases "co_ph (cr_st s) < co_total (cr_st s)")
        case True
        then show ?thesis using d cl [OF True] C(1) [OF True] by (simp only: if_True) linarith
      next
        case False
        then show ?thesis using q [OF False] C(3) [OF False] by simp
      qed
    qed (use d C(4) in linarith)+
  next
    case move
    then have ph: "co_ph st = ph" "co_idx st = idx" using W(2) by auto
    show ?thesis
    proof (cases "cr_pc s i")
      case (Co_cas cur g)
      then have here: "cur = co_phase_next (cr_st s)" "\<not> fails" "ph = co_ph (cr_st s)"
        "idx = min (co_idx (cr_st s) + g) (band_size (cr_st s) ph)" using move by (auto split: if_splits)
      have lt: "ph < co_total (cr_st s)" using F(10) [OF i] Co_cas here by (simp add: co_ph_def)
      have "co_band_done st = co_band_done (cr_st s)" "co_completed st = co_completed (cr_st s)"
        "p = Co_body ph (co_idx (cr_st s)) (co_idx (cr_st s)) idx"
        using st Co_cas here by (auto simp: Let_def co_ph_def co_idx_def)
      then show ?thesis using C(1,2,4) lt F(7) Co_cas here(3) unfolding G by (simp add: ph)
    next
      case (Co_last q)
      then have "ph = co_total (cr_st s)" "p = Co_terminal" "co_band_done st = co_band_done (cr_st s)"
        "co_completed st = co_completed (cr_st s)" using move st by (auto split: if_splits)
      then show ?thesis using co_last_facts [OF inv i Co_last] C(4) F(7) Co_last unfolding G by (simp add: ph)
    next
      case (Co_publish q)
      then have "ph = q + 1" "idx = 0" "p = Co_notify (pack_phase (q + 1) 0)" "co_band_done st = co_band_done (cr_st s)"
        "co_completed st = co_completed (cr_st s)" using move st by auto
      then show ?thesis using co_publish_facts [OF inv i Co_publish] C(4) Co_publish band_facts(1) [OF F(1), of "q + 1"]
        unfolding G by (simp add: ph)
    qed (use move in auto)
  qed
qed

lemma co_items_claim:
  "0 \<le> x \<Longrightarrow> x \<le> y \<Longrightarrow> mset (co_items st ph y) = mset (co_items st ph x) + mset (map (Pair ph) [x..y - 1])"
  using mset_upto_join [of 0 x y] by (simp add: co_items_def flip: mset_map) (simp add: ac_simps flip: image_mset_union)

lemma co_items_next: "0 \<le> ph \<Longrightarrow> co_items st (ph + 1) 0 = co_items st ph (band_size st ph)"
  by (simp add: co_items_def upto_rec2)

lemma co_history_loop:
  assumes inv: "co_inv s" and i: "i < co_execs (cr_st s)" and st: "run_loop_colored fails (cr_st s) (cr_pc s i) = (st, p, b)"
    and busy: "\<not> co_blocked (cr_st s) (cr_pc s i)"
  shows "co_history \<lparr>cr_st = st, cr_pc = (after_notify b (cr_pc s))(i := p)\<rparr>"
proof -
  note F = co_inv_facts [OF inv] and W = co_loop_word [OF inv i st]
  let ?t = "\<lparr>cr_st = st, cr_pc = (after_notify b (cr_pc s))(i := p)\<rparr>" and ?f = "\<lambda>p. mset (co_todo p)"
  have same: "co_bands st = co_bands (cr_st s)" "co_total st = co_total (cr_st s)" "co_workers st = co_workers (cr_st s)"
    using co_loop_static [OF st] by auto
  have bs: "band_size st = band_size (cr_st s)" using same by (simp add: band_size_def band_at_def fun_eq_iff)
  have it: "co_items st = co_items (cr_st s)" by (simp add: co_items_def bs fun_eq_iff)
  have old: "mset (co_ran (cr_st s)) + ctot ?f s = mset (co_items (cr_st s) (co_ph (cr_st s)) (co_idx (cr_st s)))"
    "sorted (map fst (co_ran (cr_st s)))" using inv by (simp_all add: co_inv_def co_history_def Let_def)
  have U: "ctot ?f ?t + ?f (cr_pc s i) = ctot ?f s + ?f p"
    by (rule ctot_upd [where f = ?f, OF i same(3)]) (simp add: co_unpark)
  have below: "fst x \<le> co_ph (cr_st s)" if "x \<in> set (co_ran (cr_st s))" for x
  proof -
    have "x \<in># mset (co_items (cr_st s) (co_ph (cr_st s)) (co_idx (cr_st s)))" using that by (simp flip: old(1))
    then show ?thesis by (auto simp: co_items_def)
  qed
  have ran: "(co_ran st = co_ran (cr_st s)) \<or> (\<exists>idx j stop. cr_pc s i = Co_body (co_ph (cr_st s)) idx j stop
      \<and> j < stop \<and> co_ran st = co_ran (cr_st s) @ [(co_ph (cr_st s), j)])"
    using st F(10) [OF i] by (cases "cr_pc s i") (auto simp: Let_def split: if_splits)
  then have srt: "sorted (map fst (co_ran st))" using old(2) below by (auto simp: sorted_append)
  have "mset (co_ran st) + ?f p + mset (co_items (cr_st s) (co_ph (cr_st s)) (co_idx (cr_st s)))
      = mset (co_ran (cr_st s)) + ?f (cr_pc s i) + mset (co_items (cr_st s) (co_ph st) (co_idx st))"
  proof -
    note np = co_blockedD [OF busy]
    consider (Co_cas) cur g where "cr_pc s i = Co_cas cur g" | (Co_body) ph idx j stop where "cr_pc s i = Co_body ph idx j stop"
      | (Co_last) ph where "cr_pc s i = Co_last ph" | (Co_publish) ph where "cr_pc s i = Co_publish ph"
      | (other) "co_moves fails (cr_st s) (cr_pc s i) = None" "co_todo (cr_pc s i) = []" "co_todo p = []" "co_ran st = co_ran (cr_st s)"
      using st np by (cases "cr_pc s i") (auto simp: Let_def split: if_splits)
    then show ?thesis
    proof cases
    case (Co_cas cur g)
    show ?thesis
    proof (cases "co_phase_next (cr_st s) = cur \<and> \<not> fails")
      case True
      let ?y = "min (co_idx (cr_st s) + g) (band_size (cr_st s) (co_ph (cr_st s)))"
      have pos: "co_ph st = co_ph (cr_st s)" "co_idx st = ?y" using W(2) Co_cas True by simp_all
      have "p = Co_body (co_ph (cr_st s)) (co_idx (cr_st s)) (co_idx (cr_st s)) ?y" "co_ran st = co_ran (cr_st s)"
        using st Co_cas True by (auto simp: Let_def co_ph_def co_idx_def min_def)
      moreover have "co_idx (cr_st s) \<le> ?y" using F(10) [OF i] Co_cas True by (auto simp: co_ph_def co_idx_def)
      ultimately show ?thesis using co_items_claim [OF F(5), of ?y "cr_st s" "co_ph (cr_st s)"] Co_cas
        by (simp add: pos ac_simps)
    next
      case False
      then have "co_ph st = co_ph (cr_st s)" "co_idx st = co_idx (cr_st s)" using W(2) Co_cas by (auto split: if_splits)
      moreover have "co_todo p = []" "co_ran st = co_ran (cr_st s)" using st Co_cas False by (auto simp: Let_def)
      ultimately show ?thesis using Co_cas by simp
    qed
  next
    case (Co_body ph idx j stop)
    then have "co_ph st = co_ph (cr_st s)" "co_idx st = co_idx (cr_st s)" using W(2) by auto
    moreover have "mset (co_ran st) + ?f p = mset (co_ran (cr_st s)) + ?f (cr_pc s i)"
      using st Co_body by (auto simp: upto_rec1 split: if_splits)
    ultimately show ?thesis by simp
  next
    case (Co_last ph)
    note L = co_last_facts [OF inv i Co_last]
    have pl: "co_todo p = []" "co_ran st = co_ran (cr_st s)" using st Co_last by (auto split: if_splits)
    have "co_items (cr_st s) (co_ph st) (co_idx st) = co_items (cr_st s) (co_ph (cr_st s)) (co_idx (cr_st s))"
    proof (cases "ph + 1 \<ge> co_total (cr_st s)")
      case True
      then have "co_ph st = co_ph (cr_st s) + 1" "co_idx st = 0" using W(2) Co_last L(1,2) by auto
      then show ?thesis using co_items_next [OF F(2)] L(1,4) by simp
    next
      case False
      then show ?thesis using W(2) Co_last by auto
    qed
    with pl show ?thesis using Co_last by simp
  next
    case (Co_publish ph)
    note P = co_publish_facts [OF inv i Co_publish]
    have "co_ph st = co_ph (cr_st s) + 1" "co_idx st = 0" using W(2) Co_publish P(1) by auto
    moreover have "co_todo p = []" "co_ran st = co_ran (cr_st s)" using st Co_publish by auto
    ultimately show ?thesis using Co_publish co_items_next [OF F(2)] P(1,4) by simp
  next
    case other
    then show ?thesis using W(2) by simp
  qed
  qed
  from mset_handover [OF U this old(1)] srt show ?thesis by (simp add: co_history_def Let_def it)
qed

section \<open>The invariant holds\<close>

text \<open>
  The word an executor waits on names a fully claimed band, so no claim changes it: only publishing a phase
  does, and the publisher then notifies.
\<close>

lemma unpark_not_parked: "unpark q \<noteq> Co_parked cur"
  by (cases q) auto

lemma co_wakes_loop:
  assumes inv: "co_inv s" and i: "i < co_execs (cr_st s)" and st: "run_loop_colored fails (cr_st s) (cr_pc s i) = (st, p, b)"
    and busy: "\<not> co_blocked (cr_st s) (cr_pc s i)"
  shows "co_wakes \<lparr>cr_st = st, cr_pc = (after_notify b (cr_pc s))(i := p)\<rparr>"
proof -
  let ?t = "\<lparr>cr_st = st, cr_pc = (after_notify b (cr_pc s))(i := p)\<rparr>"
  note F = co_inv_facts [OF inv] and W = co_loop_word [OF inv i st]
  have w: "co_execs st = co_execs (cr_st s)" using co_loop_static [OF st] by (simp add: co_execs_def)
  have "\<exists>k<co_execs (cr_st s). co_notifying (cr_pc ?t k)"
    if j: "j < co_execs (cr_st s)" and pc: "cr_pc ?t j = Co_parked cur" and ne: "cur \<noteq> co_phase_next st" for j cur
  proof -
    have "p \<noteq> Co_parked cur" using st busy by (cases "cr_pc s i") (auto simp: Let_def co_blocked_def split: if_splits)
    with pc have ji: "j \<noteq> i" by auto
    with pc have nb: "\<not> b" "cr_pc s j = Co_parked cur"
      using unpark_not_parked by (auto simp: after_notify_def split: if_splits)
    show ?thesis
    proof (cases "cur = co_phase_next (cr_st s)")
      case False
      then obtain k where k: "k < co_execs (cr_st s)" "co_notifying (cr_pc s k)"
        using inv j nb(2) by (auto simp: co_inv_def co_wakes_def)
      have "k \<noteq> i" using k(2) nb(1) st co_blockedD [OF busy] by (cases "cr_pc s i") auto
      with k nb(1) show ?thesis by (auto simp: after_notify_def intro!: exI [of _ k])
    next
      case True
      with F(10) [OF j] nb(2) have full: "band_size (cr_st s) (co_ph (cr_st s)) \<le> co_idx (cr_st s)"
        by (simp add: co_ph_def co_idx_def)
      have "co_phase_next st \<noteq> co_phase_next (cr_st s)" using True ne by simp
      then have "co_moves fails (cr_st s) (cr_pc s i) \<noteq> None" using W(2) by (cases "co_moves fails (cr_st s) (cr_pc s i)") simp_all
      moreover have "co_moves fails (cr_st s) (cr_pc s i) = None" if "cr_pc s i = Co_cas c g" for c g
        using F(10) [OF i] that full by (auto simp: co_ph_def co_idx_def)
      ultimately have "co_notifying p" using st by (cases "cr_pc s i") (auto split: if_splits)
      with i show ?thesis by (auto intro!: exI [of _ i])
    qed
  qed
  then show ?thesis unfolding co_wakes_def using w by auto
qed

lemma co_inv_step:
  assumes "colored_step fails s s'" and inv: "co_inv s"
  shows "co_inv s'"
  using assms(1)
proof cases
  case (cs_loop i st p b)
  then have i: "i < co_execs (cr_st s)" by (simp add: co_execs_def zless_nat_eq_int_zless)
  note R = inv i cs_loop(5)
  have "co_static st" using inv co_loop_static [OF cs_loop(5)] by (simp add: co_inv_def co_static_def)
  then show ?thesis unfolding cs_loop(1) co_inv_def
    using co_loop_word(1) [OF R] co_counts_loop [OF R cs_loop(3)] co_history_loop [OF R cs_loop(3)]
      co_pcs_loop [OF R cs_loop(3)] co_wakes_loop [OF R cs_loop(3)] by simp
next
  case (cs_park i)
  then have i: "i < co_execs (cr_st s)" by (simp add: co_execs_def zless_nat_eq_int_zless)
  have s': "s' = \<lparr>cr_st = cr_st s, cr_pc = (after_notify False (cr_pc s))(i := Co_parked (co_phase_next (cr_st s)))\<rparr>"
    using cs_park(2) by (simp add: after_notify_def)
  have U: "ctot f s' + f (cr_pc s i) = ctot f s + f (Co_parked (co_phase_next (cr_st s)))" if "\<And>q. f (unpark q) = f q"
    for f :: "colored_pc \<Rightarrow> 'x::comm_monoid_add"
    unfolding s' by (rule ctot_upd [where f = f, OF i]) (simp_all add: that)
  from U [of "co_inflight (cr_st s)"] U [of "co_closed (cr_st s)"] U [of co_closing] U [of co_ending] U [of "\<lambda>p. mset (co_todo p)"]
  have T: "ctot (co_inflight (cr_st s)) s' = ctot (co_inflight (cr_st s)) s" "ctot (co_closed (cr_st s)) s' = ctot (co_closed (cr_st s)) s"
    "ctot co_closing s' = ctot co_closing s" "ctot co_ending s' = ctot co_ending s"
    "ctot (\<lambda>p. mset (co_todo p)) s' = ctot (\<lambda>p. mset (co_todo p)) s"
    using cs_park(4) by (simp_all add: co_unpark)
  have st: "cr_st s' = cr_st s" using s' by simp
  have "co_pcs s'" using inv co_inv_facts(10) [OF inv i] cs_park(4) s' by (auto simp: co_inv_def co_pcs_def after_notify_def)
  moreover have "co_wakes s'" unfolding co_wakes_def
  proof (intro allI impI)
    fix j cur assume j: "j < co_execs (cr_st s')" "cr_pc s' j = Co_parked cur" "cur \<noteq> co_phase_next (cr_st s')"
    then have "j \<noteq> i" using s' by auto
    then obtain k where "k < co_execs (cr_st s)" "co_notifying (cr_pc s k)"
      using inv j s' by (auto simp: co_inv_def co_wakes_def after_notify_def)
    then show "\<exists>k<co_execs (cr_st s'). co_notifying (cr_pc s' k)"
      using cs_park(4) s' by (intro exI [of _ k]) (auto simp: after_notify_def)
  qed
  ultimately show ?thesis using inv unfolding co_inv_def co_counts_def co_history_def Let_def st T by blast
qed

section \<open>Starting\<close>

text \<open>
  A started loop whose bands fit the counters: the phases in 31 bits, and no band so long that a position plus a
  grain could leave the range of \<^verbatim>\<open>int\<close>.
\<close>

definition colored_start :: "int \<Rightarrow> int list list \<Rightarrow> int \<Rightarrow> parallel_options \<Rightarrow> colored_run \<Rightarrow> bool" where
  "colored_start sw bands rounds opts s \<longleftrightarrow> parallel_for_colored sw bands rounds opts = Some s
     \<and> rounds * int (length bands) < 2 ^ 31 \<and> (\<forall>b \<in> set bands. int (length b) < 2 ^ 30)"

lemma widest_ge: "w0 \<le> foldl (\<lambda>w b. max w (int (length b))) w0 bands"
proof (induction bands arbitrary: w0)
  case (Cons b bands)
  show ?case using Cons.IH [of "max w0 (int (length b))"] by simp
qed simp

lemma widest_pos: "widest bands \<noteq> 0 \<Longrightarrow> 0 < widest bands \<and> filter (\<lambda>b. b \<noteq> []) bands \<noteq> []"
proof -
  assume "widest bands \<noteq> 0"
  moreover have "foldl (\<lambda>w b. max w (int (length b))) 0 bands = 0" if "\<forall>b \<in> set bands. b = []"
    using that by (induction bands) auto
  ultimately show ?thesis using widest_ge [of 0 bands] by (auto simp: widest_def filter_empty_conv)
qed

lemma colored_start_facts:
  assumes "colored_start sw bands rounds opts s"
  shows "co_bands (cr_st s) = filter (\<lambda>b. b \<noteq> []) bands" "co_total (cr_st s) = rounds * int (length (co_bands (cr_st s)))"
    and "co_static (cr_st s)" "co_phase_next (cr_st s) = 0" "co_band_done (cr_st s) = 0" "co_completed (cr_st s) = 0"
    and "co_ran (cr_st s) = []" "cr_pc s = (\<lambda>_. Co_load)" "0 < rounds"
proof -
  let ?kept = "filter (\<lambda>b. b \<noteq> []) bands"
  have r: "0 < rounds" and w: "0 < widest bands" "?kept \<noteq> []" and
    eq: "s = \<lparr>cr_st = \<lparr>co_bands = ?kept, co_total = rounds * int (length ?kept), co_phase_next = 0, co_band_done = 0,
        co_balance = po_balance opts, co_workers = effective_workers sw (po_max_workers opts) (widest bands),
        co_completed = 0, co_ran = []\<rparr>, cr_pc = (\<lambda>_. Co_load)\<rparr>"
    using assms widest_pos [of bands] by (auto simp: colored_start_def parallel_for_colored_def Let_def split: if_splits)
  have "rounds * int (length ?kept) \<le> rounds * int (length bands)" using r by (intro mult_left_mono) auto
  then have "rounds * int (length ?kept) < 2 ^ 31" using assms by (simp add: colored_start_def)
  then show "co_static (cr_st s)"
    using assms r w effective_workers_bounds [OF w(1)] by (auto simp: eq co_static_def colored_start_def)
  show "co_bands (cr_st s) = ?kept" "co_total (cr_st s) = rounds * int (length (co_bands (cr_st s)))"
    "co_phase_next (cr_st s) = 0" "co_band_done (cr_st s) = 0" "co_completed (cr_st s) = 0"
    "co_ran (cr_st s) = []" "cr_pc s = (\<lambda>_. Co_load)" "0 < rounds" by (simp_all add: eq r)
qed

lemma co_inv_start:
  assumes "colored_start sw bands rounds opts s"
  shows "co_inv s"
proof -
  note S = colored_start_facts [OF assms]
  have ph: "co_ph (cr_st s) = 0" "co_idx (cr_st s) = 0"
    using unpack [of 0 0] by (simp_all add: co_ph_def co_idx_def S(4) pack_zero)
  have tot: "0 < co_total (cr_st s)" using S(3) by (simp add: co_static_def)
  have z: "ctot f s = 0" if "f Co_load = 0" for f :: "colored_pc \<Rightarrow> int" using that by (simp add: ctot_def S(8))
  have "co_word (cr_st s)" using tot band_facts(1) [OF S(3), of 0] by (simp add: co_word_def ph S(4) pack_zero)
  moreover have "co_counts s" using tot band_facts(1) [OF S(3), of 0]
    by (simp add: co_counts_def Let_def ph S(5,6) z)
  moreover have "co_history s" by (simp add: co_history_def co_items_def Let_def ph S(7,8) ctot_def)
  ultimately show ?thesis using S(3) by (simp add: co_inv_def co_pcs_def co_wakes_def S(8))
qed

lemma colored_runs_inv: "colored_runs s0 k j s \<Longrightarrow> co_inv s0 \<Longrightarrow> co_inv s"
  by (induction rule: colored_runs.induct) (auto intro: co_inv_step)

lemma colored_step_static:
  "colored_step fails s s' \<Longrightarrow> co_bands (cr_st s') = co_bands (cr_st s) \<and> co_total (cr_st s') = co_total (cr_st s)
     \<and> co_workers (cr_st s') = co_workers (cr_st s)"
  by (cases rule: colored_step.cases) (auto dest: co_loop_static)

lemma colored_runs_static:
  "colored_runs s0 k j s \<Longrightarrow> co_bands (cr_st s) = co_bands (cr_st s0) \<and> co_total (cr_st s) = co_total (cr_st s0)
     \<and> co_workers (cr_st s) = co_workers (cr_st s0)"
  by (induction rule: colored_runs.induct) (auto dest: colored_step_static)

section \<open>The loop ends\<close>

text \<open>
  The weight of a run. An executor that works with an outdated word weighs more than one with the current word; publishing
  a phase pays for outdating the others and for waking them, a claimed item pays for the executors whose
  compare-and-swap it makes fail.
\<close>

definition stale :: "64 word \<Rightarrow> 64 word \<Rightarrow> int" where
  "stale v cur = (if cur = v then 0 else 4)"

fun co_weight :: "int \<Rightarrow> 64 word \<Rightarrow> colored_pc \<Rightarrow> int" where
  "co_weight w v Co_exit = 0"
| "co_weight w v (Co_parked cur) = 1 + stale v cur"
| "co_weight w v (Co_wait cur) = 2 + stale v cur"
| "co_weight w v (Co_cas cur g) = 3 + stale v cur"
| "co_weight w v (Co_cur cur) = 4 + stale v cur"
| "co_weight w v Co_load = 5"
| "co_weight w v Co_complete = 1"
| "co_weight w v Co_terminal = 2 + w"
| "co_weight w v (Co_notify cur) = 9 + w"
| "co_weight w v (Co_publish ph) = 10 + 5 * w"
| "co_weight w v (Co_last ph) = 11 + 5 * w"
| "co_weight w v (Co_account ph k) = 12 + 5 * w"
| "co_weight w v (Co_body ph idx i stop) = 13 + 5 * w + (stop - i)"

definition co_all :: "colored \<Rightarrow> int" where
  "co_all st = int (length (co_items st (co_total st) 0))"

definition co_left :: "colored \<Rightarrow> int" where
  "co_left st = co_all st - int (length (co_items st (co_ph st) (co_idx st)))"

definition colored_weight :: "colored_run \<Rightarrow> int" where
  "colored_weight s = ctot (co_weight (co_workers (cr_st s)) (co_phase_next (cr_st s))) s + (12 + 9 * co_workers (cr_st s)) * co_left (cr_st s)"

lemma stale_bounds: "0 \<le> stale v cur" "stale v cur \<le> 4"
  by (simp_all add: stale_def)

lemma co_weight_nonneg: "0 \<le> w \<Longrightarrow> co_ok st p \<Longrightarrow> 0 \<le> co_weight w v p"
  using stale_bounds by (cases p) (auto intro: add_nonneg_nonneg)

lemma co_weight_change: "co_weight w v' p \<le> co_weight w v p + 4"
  by (cases p) (auto simp: stale_def)

lemma co_weight_unpark: "co_weight w v (unpark p) \<le> co_weight w v p + 1"
  by (cases p) auto

lemma co_items_length_claim:
  assumes "0 \<le> x" "x \<le> y"
  shows "int (length (co_items st ph y)) = int (length (co_items st ph x)) + (y - x)"
proof -
  have "size (mset (co_items st ph y)) = size (mset (co_items st ph x) + mset (map (Pair ph) [x..y - 1]))"
    using co_items_claim [OF assms] by simp
  then show ?thesis using assms by simp
qed

lemma co_items_length_phase: "0 \<le> p \<Longrightarrow> p \<le> q \<Longrightarrow> length (co_items st p 0) \<le> length (co_items st q 0)"
proof (cases "p = q")
  case False
  assume "0 \<le> p" "p \<le> q"
  with False have "[0..q - 1] = [0..p - 1] @ [p..q - 1]" by (intro upto_split1) auto
  then show ?thesis by (simp add: co_items_def)
qed simp

lemma co_left_nonneg:
  assumes inv: "co_inv s"
  shows "0 \<le> co_left (cr_st s)"
proof -
  note F = co_inv_facts [OF inv]
  show ?thesis
  proof (cases "co_ph (cr_st s) < co_total (cr_st s)")
    case True
    have "length (co_items (cr_st s) (co_ph (cr_st s)) (co_idx (cr_st s)))
        \<le> length (co_items (cr_st s) (co_ph (cr_st s)) (band_size (cr_st s) (co_ph (cr_st s))))"
      using co_items_length_claim [OF F(5) F(8) [OF True]] F(8) [OF True] by (metis add_increasing2 diff_ge_0_iff_ge of_nat_le_iff order_refl)
    also have "\<dots> = length (co_items (cr_st s) (co_ph (cr_st s) + 1) 0)" using co_items_next [OF F(2)] by simp
    also have "\<dots> \<le> length (co_items (cr_st s) (co_total (cr_st s)) 0)" using F(2) True by (intro co_items_length_phase) auto
    finally show ?thesis by (simp add: co_left_def co_all_def)
  next
    case False
    then have "co_ph (cr_st s) = co_total (cr_st s)" "co_idx (cr_st s) = 0"
      using F(3) inv by (auto simp: co_inv_def co_word_def)
    then show ?thesis by (simp add: co_left_def co_all_def)
  qed
qed

lemma sum_upd_le:
  fixes f g :: "nat \<Rightarrow> int"
  assumes "i < w" "\<And>j. j < w \<Longrightarrow> j \<noteq> i \<Longrightarrow> g j \<le> f j + e" "0 \<le> e"
  shows "(\<Sum>j<w. g j) \<le> (\<Sum>j<w. f j) + g i - f i + int w * e"
proof -
  have "(\<Sum>j<w. g j) = g i + (\<Sum>j\<in>{..<w} - {i}. g j)" using assms(1) by (intro sum.remove) auto
  also have "(\<Sum>j\<in>{..<w} - {i}. g j) \<le> (\<Sum>j\<in>{..<w} - {i}. f j + e)" using assms(2) by (intro sum_mono) auto
  also have "\<dots> = (\<Sum>j\<in>{..<w} - {i}. f j) + int (w - 1) * e" using assms(1) by (simp add: sum.distrib)
  also have "int (w - 1) * e \<le> int w * e" using assms(3) by (intro mult_right_mono) auto
  finally have "(\<Sum>j<w. g j) \<le> g i + (\<Sum>j\<in>{..<w} - {i}. f j) + int w * e" by simp
  moreover have "(\<Sum>j<w. f j) = f i + (\<Sum>j\<in>{..<w} - {i}. f j)" using assms(1) by (intro sum.remove) auto
  ultimately show ?thesis by simp
qed

lemma colored_weight_quiet:
  assumes st: "run_loop_colored fails st0 q = (st, p, b)" and "co_moves fails st0 q = None" and busy: "\<not> co_blocked st0 q"
    and "co_ok st0 q" "1 \<le> w"
  shows "co_weight w (co_phase_next st0) p + w * (if b then 1 else 0) \<le> co_weight w (co_phase_next st0) q + (if fails then 1 else -1)"
  using st assms(2,4,5) busy stale_bounds
  by (cases q) (auto simp: Let_def stale_def co_blocked_def split: if_splits)

lemma claim_pays:
  assumes "1 \<le> (k::int)" "1 \<le> w" "e \<le> w * 4"
  shows "13 + 5 * w + k + e + (12 + 9 * w) * (L - k) \<le> 3 + (12 + 9 * w) * L + -1"
proof -
  have "(11 + 9 * w) * 1 \<le> (11 + 9 * w) * k" using assms by (intro mult_left_mono) auto
  then show ?thesis using assms(3) by (simp add: algebra_simps)
qed

lemma colored_weight_loop:
  assumes inv: "co_inv s" and i: "i < co_execs (cr_st s)" and st: "run_loop_colored fails (cr_st s) (cr_pc s i) = (st, p, b)"
    and busy: "\<not> co_blocked (cr_st s) (cr_pc s i)"
  shows "colored_weight \<lparr>cr_st = st, cr_pc = (after_notify b (cr_pc s))(i := p)\<rparr>
    \<le> colored_weight s + (if fails then 1 else -1)"
proof -
  note F = co_inv_facts [OF inv] and W = co_loop_word [OF inv i st]
  let ?t = "\<lparr>cr_st = st, cr_pc = (after_notify b (cr_pc s))(i := p)\<rparr>"
  let ?w = "co_workers (cr_st s)" and ?v = "co_phase_next (cr_st s)" and ?v' = "co_phase_next st"
  have same: "co_bands st = co_bands (cr_st s)" "co_total st = co_total (cr_st s)" "co_workers st = ?w"
    using co_loop_static [OF st] by auto
  have w: "1 \<le> ?w" "int (co_execs (cr_st s)) = ?w" using F(1) by (simp_all add: co_static_def co_execs_def)
  have it: "co_items st = co_items (cr_st s)" using same by (simp add: co_items_def band_size_def band_at_def fun_eq_iff)
  define e where "e = (if ?v' = ?v then 0 else 4) + (if b then 1 else (0::int))"
  have "ctot (co_weight ?w ?v') ?t \<le> ctot (co_weight ?w ?v) s + co_weight ?w ?v' p - co_weight ?w ?v (cr_pc s i) + ?w * e"
  proof -
    have each: "co_weight ?w ?v' (cr_pc ?t j) \<le> co_weight ?w ?v (cr_pc s j) + e" if "j \<noteq> i" for j
      using that co_weight_change [of ?w ?v' "cr_pc s j" ?v] co_weight_change [of ?w ?v' "unpark (cr_pc s j)" ?v]
        co_weight_unpark [of ?w ?v "cr_pc s j"] by (auto simp: e_def after_notify_def)
    have "0 \<le> e" by (simp add: e_def)
    from sum_upd_le [where g = "\<lambda>j. co_weight ?w ?v' (cr_pc ?t j)" and f = "\<lambda>j. co_weight ?w ?v (cr_pc s j)", OF i each this] show ?thesis using w(2) same(3) by (simp add: ctot_def co_execs_def)
  qed
  moreover have "co_weight ?w ?v' p + ?w * e + (12 + 9 * ?w) * co_left st
      \<le> co_weight ?w ?v (cr_pc s i) + (12 + 9 * ?w) * co_left (cr_st s) + (if fails then 1 else -1)"
  proof (cases "co_moves fails (cr_st s) (cr_pc s i)")
    case None
    then have v: "?v' = ?v" and left: "co_left st = co_left (cr_st s)" using W(2) by (simp_all add: co_left_def co_all_def it same)
    have "co_weight ?w ?v p + ?w * (if b then 1 else 0) \<le> co_weight ?w ?v (cr_pc s i) + (if fails then 1 else -1)"
      using colored_weight_quiet [OF st None busy] F(10) [OF i] w(1) by blast
    then show ?thesis by (simp add: v left e_def)
  next
    case (Some pos)
    then obtain ph idx where pos: "co_moves fails (cr_st s) (cr_pc s i) = Some (ph, idx)" by (cases pos) auto
    with W(2) have at: "co_ph st = ph" "co_idx st = idx" by auto
    have e: "e \<le> 4 \<and> \<not> b" using st pos by (cases "cr_pc s i") (auto simp: e_def Let_def split: if_splits)
    then have we: "?w * e \<le> ?w * 4" using w(1) by (intro mult_left_mono) auto
    show ?thesis
    proof (cases "cr_pc s i")
      case (Co_cas cur g)
      have here: "cur = ?v" "\<not> fails" "ph = co_ph (cr_st s)" "idx = min (co_idx (cr_st s) + g) (band_size (cr_st s) ph)"
        using pos Co_cas by (auto split: if_splits)
      have lt: "co_idx (cr_st s) < idx" using F(10) [OF i] Co_cas here by (auto simp: co_ph_def co_idx_def)
      have "p = Co_body ph (co_idx (cr_st s)) (co_idx (cr_st s)) idx"
        using st Co_cas here by (auto simp: Let_def co_ph_def co_idx_def)
      moreover have left: "co_left st = co_left (cr_st s) - (idx - co_idx (cr_st s))"
        using co_items_length_claim [OF F(5), of idx "cr_st s" ph] lt here(3) by (simp add: co_left_def co_all_def it same at)
      ultimately show ?thesis
        using claim_pays [of "idx - co_idx (cr_st s)" ?w "?w * e" "co_left (cr_st s)"] lt we here(1,2) Co_cas w(1) by (simp add: stale_def)
    next
      case (Co_last q)
      note L = co_last_facts [OF inv i Co_last]
      have "ph = co_ph (cr_st s) + 1" "idx = 0" "p = Co_terminal" using pos st Co_last L(1,2) by (auto split: if_splits)
      moreover from this have "co_left st = co_left (cr_st s)"
        using co_items_next [OF F(2), of "cr_st s"] L(1,4) by (simp add: co_left_def co_all_def it same at)
      ultimately show ?thesis using Co_last w(1) by auto (use we in linarith)+
    next
      case (Co_publish q)
      note P = co_publish_facts [OF inv i Co_publish]
      have "ph = co_ph (cr_st s) + 1" "idx = 0" "p = Co_notify (pack_phase (q + 1) 0)" using pos st Co_publish P(1) by auto
      moreover from this have "co_left st = co_left (cr_st s)"
        using co_items_next [OF F(2), of "cr_st s"] P(1,4) by (simp add: co_left_def co_all_def it same at)
      ultimately show ?thesis using Co_publish w(1) by auto (use we e in linarith)+
    qed (use pos in auto)
  qed
  ultimately show ?thesis by (simp add: colored_weight_def same(3)) 
qed

lemma colored_weight_step:
  assumes "colored_step fails s s'" and inv: "co_inv s"
  shows "colored_weight s' \<le> colored_weight s + (if fails then 1 else -1)"
  using assms(1)
proof cases
  case (cs_loop i st p b)
  then have i: "i < co_execs (cr_st s)" by (simp add: co_execs_def zless_nat_eq_int_zless)
  show ?thesis unfolding cs_loop(1) by (rule colored_weight_loop [OF inv i cs_loop(5,3)])
next
  case (cs_park i)
  then have i: "i < co_execs (cr_st s)" by (simp add: co_execs_def zless_nat_eq_int_zless)
  let ?f = "co_weight (co_workers (cr_st s)) (co_phase_next (cr_st s))"
  have "(\<Sum>j<co_execs (cr_st s). ?f (((cr_pc s)(i := Co_parked (co_phase_next (cr_st s)))) j)) + ?f (cr_pc s i)
      = ctot ?f s + ?f (Co_parked (co_phase_next (cr_st s)))"
    unfolding ctot_def by (rule sum_fun_upd [OF i])
  then show ?thesis using cs_park by (simp add: colored_weight_def ctot_def stale_def)
qed

lemma colored_runs_weight:
  "colored_runs s0 k j s \<Longrightarrow> co_inv s0 \<Longrightarrow> colored_weight s + int k \<le> colored_weight s0 + int j"
proof (induction rule: colored_runs.induct)
  case (colored_runs_step k j s s')
  then show ?case using colored_weight_step [OF colored_runs_step(2) colored_runs_inv [OF colored_runs_step(1,4)]] by simp
next
  case (colored_runs_spurious k j s s')
  then show ?case using colored_weight_step [OF colored_runs_spurious(2) colored_runs_inv [OF colored_runs_spurious(1,4)]] by simp
qed simp

lemma colored_weight_nonneg:
  assumes inv: "co_inv s"
  shows "0 \<le> colored_weight s"
proof -
  note F = co_inv_facts [OF inv]
  have w: "1 \<le> co_workers (cr_st s)" using F(1) by (simp add: co_static_def)
  have "0 \<le> ctot (co_weight (co_workers (cr_st s)) (co_phase_next (cr_st s))) s"
    using w by (intro ctot_nonneg co_weight_nonneg [OF _ F(10)]) auto
  moreover have "0 \<le> (12 + 9 * co_workers (cr_st s)) * co_left (cr_st s)"
    using w co_left_nonneg [OF inv] by (intro mult_nonneg_nonneg) auto
  ultimately show ?thesis by (simp add: colored_weight_def)
qed

text \<open>An executor that cannot act is parked or gone, and a parked one always has somebody left to wake it.\<close>

lemma colored_stuck:
  assumes inv: "co_inv s" and stuck: "\<nexists>s'. colored_step False s s'"
  shows "\<forall>i<co_execs (cr_st s). cr_pc s i = Co_exit" "co_completed (cr_st s) = 1" "co_ph (cr_st s) = co_total (cr_st s)"
proof -
  note F = co_inv_facts [OF inv] and C = co_counts_facts [OF inv]
  have blocked: "co_blocked (cr_st s) (cr_pc s i)" if "i < co_execs (cr_st s)" for i
  proof (rule ccontr)
    assume n: "\<not> co_blocked (cr_st s) (cr_pc s i)"
    obtain st p b where "run_loop_colored False (cr_st s) (cr_pc s i) = (st, p, b)" using prod_cases3 by blast
    from cs_loop [OF _ n _ this] stuck that show False by (auto simp: co_execs_def zless_nat_eq_int_zless)
  qed
  have cases: "cr_pc s i = Co_exit \<or> (\<exists>cur. cr_pc s i = Co_parked cur)" if "i < co_execs (cr_st s)" for i
    using blocked [OF that] cs_park [of i s] stuck that
    by (cases "cr_pc s i") (auto simp: co_blocked_def co_execs_def zless_nat_eq_int_zless)
  have quiet: "f (cr_pc s i) = 0" if "i < co_execs (cr_st s)" "f Co_exit = 0" "\<And>cur. f (Co_parked cur) = 0"
    for f :: "colored_pc \<Rightarrow> int" and i using cases [OF that(1)] that(2,3) by auto
  then have z: "ctot f s = 0" if "f Co_exit = 0" "\<And>cur. f (Co_parked cur) = 0" for f :: "colored_pc \<Rightarrow> int"
    unfolding ctot_def using that by (intro sum.neutral) auto
  have "cr_pc s i \<noteq> Co_parked cur" if i: "i < co_execs (cr_st s)" for i cur
  proof
    assume p: "cr_pc s i = Co_parked cur"
    have "\<not> co_notifying (cr_pc s k)" if "k < co_execs (cr_st s)" for k using cases [OF that] by auto
    then have "cur = co_phase_next (cr_st s)" using inv i p by (auto simp: co_inv_def co_wakes_def)
    then have at: "co_ph (cr_st s) < co_total (cr_st s)" "band_size (cr_st s) (co_ph (cr_st s)) \<le> co_idx (cr_st s)"
      using F(10) [OF i] p by (auto simp: co_ph_def co_idx_def)
    have "co_band_done (cr_st s) = band_size (cr_st s) (co_ph (cr_st s))"
      using C(1) [OF at(1)] z [of "co_inflight (cr_st s)"] F(8) [OF at(1)] at(2) by simp
    with C(2) [OF at(1)] z [of "co_closed (cr_st s)"] z [of co_closing] show False by simp
  qed
  then show ex: "\<forall>i<co_execs (cr_st s). cr_pc s i = Co_exit" using cases by blast
  have "0 < co_execs (cr_st s)" using F(1) by (simp add: co_static_def co_execs_def)
  with ex F(10) [of 0] show ph: "co_ph (cr_st s) = co_total (cr_st s)" by simp
  show "co_completed (cr_st s) = 1" using C(4) z [of co_ending] ph by simp
qed

section \<open>Properties\<close>

text \<open>The body calls of a whole colored run: every position of every phase, where phase \<open>p\<close> runs band \<open>p\<close> modulo the bands.\<close>

definition colored_calls :: "int list list \<Rightarrow> int \<Rightarrow> (int \<times> int) list" where
  "colored_calls bands rounds = (let kept = filter (\<lambda>b. b \<noteq> []) bands in
     concat (map (\<lambda>p. map (Pair p) [0..int (length (kept ! (nat p mod length kept))) - 1]) [0..rounds * int (length kept) - 1]))"

lemma co_items_calls:
  assumes "colored_start sw bands rounds opts s0" and "colored_runs s0 k j s"
  shows "co_items (cr_st s) (co_total (cr_st s)) 0 = colored_calls bands rounds"
  using colored_start_facts(1,2) [OF assms(1)] colored_runs_static [OF assms(2)]
  by (simp add: co_items_def colored_calls_def band_size_def band_at_def Let_def)

lemma co_items_distinct: "distinct (co_items st ph idx)"
proof -
  have "distinct (concat (map (\<lambda>p. map (Pair p) [0..band_size st p - 1]) ps))" if "distinct ps" for ps
    using that by (induction ps) (auto simp: distinct_map inj_on_def)
  then show ?thesis by (auto simp: co_items_def distinct_map inj_on_def)
qed

lemma co_items_set:
  "(q, x) \<in> set (co_items st ph idx) \<longleftrightarrow> 0 \<le> q \<and> q < ph \<and> 0 \<le> x \<and> x < band_size st q \<or> q = ph \<and> 0 \<le> x \<and> x < idx"
  by (auto simp: co_items_def image_iff)

lemma co_items_before: "0 \<le> q \<Longrightarrow> q < ph \<Longrightarrow> 0 \<le> x \<Longrightarrow> x < band_size st q \<Longrightarrow> (q, x) \<in> set (co_items st ph idx)"
  by (simp add: co_items_set)

lemma co_body_phase:
  assumes inv: "co_inv s" and i: "i < co_execs (cr_st s)" and pc: "cr_pc s i = Co_body ph a c stop"
    and "0 \<le> q" "q < ph" "0 \<le> x" "x < band_size (cr_st s) q"
  shows "(q, x) \<in> set (co_ran (cr_st s))"
proof -
  note F = co_inv_facts [OF inv]
  have ph: "ph = co_ph (cr_st s)" using F(10) [OF i] pc by simp
  have eq: "mset (co_ran (cr_st s)) + ctot (\<lambda>p. mset (co_todo p)) s = mset (co_items (cr_st s) (co_ph (cr_st s)) (co_idx (cr_st s)))"
    using inv by (simp add: co_inv_def co_history_def Let_def)
  have "(q, x) \<in># mset (co_ran (cr_st s)) + ctot (\<lambda>p. mset (co_todo p)) s"
    unfolding eq using co_items_before assms(4-7) ph by simp
  moreover have "(q, x) \<notin># mset (co_todo (cr_pc s j))" if "j < co_execs (cr_st s)" for j
    using F(10) [OF that] ph assms(5) by (cases "cr_pc s j") auto
  ultimately show ?thesis by (auto simp: ctot_def set_mset_sum)
qed

text \<open>
  (C18) The bands of a colored loop run one after the other and each item of a band once per round. Under every
  interleaving the calls of the body are distinct and in the order of their phases; an executor that is
  inside the body of a phase finds every item of every earlier phase done (no stale claim crosses a phase change); the
  block is completed at most once, and once it is, the body was called exactly for every item of every phase.
\<close>

theorem colored_bands_sequential:
  assumes "colored_start sw bands rounds opts s0" and "colored_runs s0 k j s"
  shows "distinct (co_ran (cr_st s)) \<and> sorted (map fst (co_ran (cr_st s)))
    \<and> set (co_ran (cr_st s)) \<subseteq> set (colored_calls bands rounds)
    \<and> (\<forall>i ph a c stop q x. int i < co_workers (cr_st s) \<longrightarrow> cr_pc s i = Co_body ph a c stop \<longrightarrow>
         0 \<le> q \<longrightarrow> q < ph \<longrightarrow> 0 \<le> x \<longrightarrow> x < band_size (cr_st s) q \<longrightarrow> (q, x) \<in> set (co_ran (cr_st s)))
    \<and> co_completed (cr_st s) \<le> 1
    \<and> (co_completed (cr_st s) = 1 \<longrightarrow> mset (co_ran (cr_st s)) = mset (colored_calls bands rounds))"
proof (intro conjI)
  have inv: "co_inv s" by (rule colored_runs_inv [OF assms(2) co_inv_start [OF assms(1)]])
  note F = co_inv_facts [OF inv] and C = co_counts_facts [OF inv]
  have eq: "mset (co_ran (cr_st s)) + ctot (\<lambda>p. mset (co_todo p)) s = mset (co_items (cr_st s) (co_ph (cr_st s)) (co_idx (cr_st s)))"
    and srt: "sorted (map fst (co_ran (cr_st s)))" using inv by (simp_all add: co_inv_def co_history_def Let_def)
  show "sorted (map fst (co_ran (cr_st s)))" by (rule srt)
  have le: "mset (co_ran (cr_st s)) \<subseteq># mset (co_items (cr_st s) (co_ph (cr_st s)) (co_idx (cr_st s)))"
    by (simp flip: eq)
  show "distinct (co_ran (cr_st s))" by (rule distinct_mset_below [OF le co_items_distinct])
  have "set (co_items (cr_st s) (co_ph (cr_st s)) (co_idx (cr_st s))) \<subseteq> set (co_items (cr_st s) (co_total (cr_st s)) 0)"
  proof (cases "co_ph (cr_st s) < co_total (cr_st s)")
    case True
    then show ?thesis using F(2) F(8) [OF True] by (auto simp: co_items_set)
  next
    case False
    then have "co_ph (cr_st s) = co_total (cr_st s)" "co_idx (cr_st s) = 0" using F(3) inv by (auto simp: co_inv_def co_word_def)
    then show ?thesis by simp
  qed
  with set_mset_mono [OF le] show "set (co_ran (cr_st s)) \<subseteq> set (colored_calls bands rounds)"
    using co_items_calls [OF assms] by auto
  show "\<forall>i ph a c stop q x. int i < co_workers (cr_st s) \<longrightarrow> cr_pc s i = Co_body ph a c stop \<longrightarrow>
         0 \<le> q \<longrightarrow> q < ph \<longrightarrow> 0 \<le> x \<longrightarrow> x < band_size (cr_st s) q \<longrightarrow> (q, x) \<in> set (co_ran (cr_st s))"
    using co_body_phase [OF inv] by (auto simp: co_execs_def zless_nat_eq_int_zless)
  have one: "int (co_completed (cr_st s)) \<le> (if co_ph (cr_st s) = co_total (cr_st s) then 1 else 0)" using C(4,8) by linarith
  then show "co_completed (cr_st s) \<le> 1" by (auto split: if_splits)
  show "co_completed (cr_st s) = 1 \<longrightarrow> mset (co_ran (cr_st s)) = mset (colored_calls bands rounds)"
  proof
    assume "co_completed (cr_st s) = 1"
    with one have ph: "co_ph (cr_st s) = co_total (cr_st s)" by (auto split: if_splits)
    then have ix: "co_idx (cr_st s) = 0" and z: "ctot (co_inflight (cr_st s)) s = 0" using inv C(3) by (auto simp: co_inv_def co_word_def)
    have "co_todo (cr_pc s i) = []" if "i < co_execs (cr_st s)" for i
      using F(10) [OF that] ph by (cases "cr_pc s i") auto
    then have "ctot (\<lambda>p. mset (co_todo p)) s = {#}" by (simp add: ctot_def)
    then show "mset (co_ran (cr_st s)) = mset (colored_calls bands rounds)" using eq ph ix co_items_calls [OF assms] by simp
  qed
qed

text \<open>
  A colored loop ends. With \<open>N\<close> body calls to make and \<open>w\<close> executors, no run takes more than
  (12 + 9 w) N + 5 w actions, not counting compare-and-swaps that fail spuriously and at most one more action for each
  of those; and a run that cannot continue has completed the block exactly once with every executor gone. In
  particular no executor stays parked: a notification is never lost, although claims change the word without one.
\<close>

theorem colored_completes:
  assumes "colored_start sw bands rounds opts s0" and "colored_runs s0 k j s"
  shows "int k \<le> (12 + 9 * co_workers (cr_st s0)) * int (length (colored_calls bands rounds)) + 5 * co_workers (cr_st s0) + int j
    \<and> ((\<nexists>s'. colored_step False s s') \<longrightarrow> co_completed (cr_st s) = 1
          \<and> (\<forall>i. int i < co_workers (cr_st s) \<longrightarrow> cr_pc s i = Co_exit))"
proof
  have inv0: "co_inv s0" by (rule co_inv_start [OF assms(1)])
  have inv: "co_inv s" by (rule colored_runs_inv [OF assms(2) inv0])
  note S = colored_start_facts [OF assms(1)]
  have w: "1 \<le> co_workers (cr_st s0)" using S(3) by (simp add: co_static_def)
  have "co_left (cr_st s0) \<le> int (length (colored_calls bands rounds))"
    using co_items_calls [OF assms(1) colored_runs_start] by (simp add: co_left_def co_all_def)
  then have "colored_weight s0 \<le> (12 + 9 * co_workers (cr_st s0)) * int (length (colored_calls bands rounds)) + 5 * co_workers (cr_st s0)"
    using w unfolding colored_weight_def by (simp add: ctot_def S(8) co_execs_def mult_left_mono)
  then show "int k \<le> (12 + 9 * co_workers (cr_st s0)) * int (length (colored_calls bands rounds)) + 5 * co_workers (cr_st s0) + int j"
    using colored_runs_weight [OF assms(2) inv0] colored_weight_nonneg [OF inv] by linarith
  show "(\<nexists>s'. colored_step False s s') \<longrightarrow> co_completed (cr_st s) = 1
          \<and> (\<forall>i. int i < co_workers (cr_st s) \<longrightarrow> cr_pc s i = Co_exit)"
    using colored_stuck [OF inv] by (auto simp: co_execs_def zless_nat_eq_int_zless)
qed

section \<open>A concrete run\<close>

definition one_band :: colored_run where
  "one_band = \<lparr>cr_st = \<lparr>co_bands = [[7]], co_total = 1, co_phase_next = 0, co_band_done = 0, co_balance = Guided,
     co_workers = 1, co_completed = 0, co_ran = []\<rparr>, cr_pc = (\<lambda>_. Co_load)\<rparr>"

definition colored_exec :: "colored_run \<Rightarrow> colored_run" where
  "colored_exec s = (case run_loop_colored False (cr_st s) (cr_pc s 0) of
     (st, p, b) \<Rightarrow> \<lparr>cr_st = st, cr_pc = (after_notify b (cr_pc s))(0 := p)\<rparr>)"

lemma one_band_start: "colored_start 1 [[7]] 1 one_item one_band"
  by (simp add: colored_start_def parallel_for_colored_def one_item_def one_band_def widest_def effective_workers_def)

lemma colored_exec_runs:
  assumes "colored_runs s0 k j s" "0 < co_workers (cr_st s)" "\<not> co_blocked (cr_st s) (cr_pc s 0)" "colored_exec s = s'"
  shows "colored_runs s0 (Suc k) j s'"
proof -
  obtain st p b where r: "run_loop_colored False (cr_st s) (cr_pc s 0) = (st, p, b)" using prod_cases3 by blast
  have "colored_step False s s'"
    using cs_loop [OF _ assms(3) _ r] assms(2,4) by (simp add: colored_exec_def r)
  then show ?thesis by (rule colored_runs_step [OF assms(1)])
qed

lemma one_band_words: "ph_of 0 = 0" "idx_of 0 = 0" "ph_of (pack_phase 0 1) = 0" "idx_of (pack_phase 0 1) = 1" "ph_of (pack_phase 1 0) = 1"
  using unpack [of 0 0] pack_zero by (auto)

lemma one_band_run:
  "colored_runs one_band 9 0 ((colored_exec ^^ 9) one_band)"
  "co_completed (cr_st ((colored_exec ^^ 9) one_band)) = 1"
proof -
  note ev = one_band_def colored_exec_def after_notify_def numeral_eq_Suc one_band_words band_size_def band_at_def claim_grain_def
    signed_divide_int_def wrap_int_def
  have go: "colored_runs one_band k 0 ((colored_exec ^^ k) one_band)" if "k \<le> 9" for k
    using that
  proof (induction k)
    case (Suc k)
    then have "k \<in> {0, 1, 2, 3, 4, 5, 6, 7, 8}" by auto
    then have "0 < co_workers (cr_st ((colored_exec ^^ k) one_band))
        \<and> \<not> co_blocked (cr_st ((colored_exec ^^ k) one_band)) (cr_pc ((colored_exec ^^ k) one_band) 0)"
      by (auto simp: ev co_blocked_def)
    with Suc show ?case by (auto intro: colored_exec_runs)
  qed (simp add: colored_runs_start)
  show "colored_runs one_band 9 0 ((colored_exec ^^ 9) one_band)" by (rule go) simp
  show "co_completed (cr_st ((colored_exec ^^ 9) one_band)) = 1" by (simp add: ev)
qed

theorem colored_bands_sequential_witness:
  "mset (co_ran (cr_st ((colored_exec ^^ 9) one_band))) = mset (colored_calls [[7]] 1)"
  using colored_bands_sequential [OF one_band_start one_band_run(1)] one_band_run(2) by blast

theorem colored_completes_witness:
  "int 9 \<le> (12 + 9 * co_workers (cr_st one_band)) * int (length (colored_calls [[7]] 1)) + 5 * co_workers (cr_st one_band) + int 0"
  using colored_completes [OF one_band_start one_band_run(1)] by blast
end
