(* ===== verification/Timer.thy ===== *)
theory Timer
  imports Macrame_Prelude "HOL-Library.Product_Lexorder" "HOL-Library.Signed_Division"
begin

text \<open>
  The timer (src/timer.cpp, include/ts/timer.h): the deadline heap of \<^verbatim>\<open>Timer_service\<close>, \<^verbatim>\<open>arm\<close>, \<^verbatim>\<open>cancel\<close>,
  \<^verbatim>\<open>shutdown\<close> and the timer thread's \<^verbatim>\<open>run\<close> and \<^verbatim>\<open>park\<close> (with the condition variable of the portable branch),
  \<^verbatim>\<open>sleep_until\<close>, and the grid arithmetic of \<^verbatim>\<open>Periodic\<close>. Every critical section of the mutex is one action, as is
  every delivery and every wake call made outside it; clock readings only grow. The binary heap of the standard
  library is a list in heap order, since only its front and the order of its pops are visible.
\<close>

section \<open>State\<close>

record entry =
  te_deadline :: int
  te_serial :: nat
  te_block :: block_id

datatype timer_pc = T_run | T_parked "int option" | T_deliver "block_id list" | T_exited

record timer =
  ti_heap :: "entry list"
  ti_serial :: nat
  ti_live :: int
  ti_stopping :: bool
  ti_thread :: "timer_pc option"
  ti_is_live :: "block_id \<Rightarrow> bool"
  ti_delivered :: "block_id \<Rightarrow> bool"
  ti_external :: int

definition timer_new :: timer where
  "timer_new = \<lparr>ti_heap = [], ti_serial = 0, ti_live = 0, ti_stopping = False, ti_thread = None,
     ti_is_live = (\<lambda>_. False), ti_delivered = (\<lambda>_. False), ti_external = 0\<rparr>"

section \<open>The heap\<close>

definition heap_key :: "entry \<Rightarrow> int \<times> nat" where
  "heap_key e = (te_deadline e, te_serial e)"

definition later :: "entry \<Rightarrow> entry \<Rightarrow> bool" where
  "later a b = (if te_deadline a \<noteq> te_deadline b then te_deadline a > te_deadline b else te_serial a > te_serial b)"

definition push_heap :: "entry \<Rightarrow> entry list \<Rightarrow> entry list" where
  "push_heap e h = insort_key heap_key e h"

text \<open>The inner loop of \<^verbatim>\<open>run\<close>: pop every entry whose deadline has passed.\<close>

fun pop_due :: "int \<Rightarrow> entry list \<Rightarrow> entry list \<times> entry list" where
  "pop_due now [] = ([], [])"
| "pop_due now (e # h) =
     (if te_deadline e \<le> now then (let (due, rest) = pop_due now h in (e # due, rest)) else ([], e # h))"

section \<open>Operations\<close>

definition arm :: "int \<Rightarrow> block_id \<Rightarrow> timer \<Rightarrow> timer \<times> bool" where
  "arm deadline b t =
     (let t = (if ti_thread t = None then t\<lparr>ti_stopping := False, ti_thread := Some T_run\<rparr> else t);
          earlier = (ti_heap t = [] \<or> deadline < te_deadline (hd (ti_heap t))) in
      (t\<lparr>ti_is_live := (ti_is_live t)(b := True), ti_live := ti_live t + 1, ti_external := ti_external t + 1,
         ti_heap := push_heap \<lparr>te_deadline = deadline, te_serial = ti_serial t, te_block = b\<rparr> (ti_heap t),
         ti_serial := ti_serial t + 1\<rparr>, earlier))"

text \<open>Take a live wait out of the timer's hands; the caller delivers it.\<close>

definition take_wait :: "block_id \<Rightarrow> timer \<Rightarrow> timer" where
  "take_wait b t = t\<lparr>ti_is_live := (ti_is_live t)(b := False), ti_delivered := (ti_delivered t)(b := True), ti_live := ti_live t - 1\<rparr>"

definition timer_cancel :: "block_id \<Rightarrow> timer \<Rightarrow> timer \<times> block_id list" where
  "timer_cancel b t = (if ti_is_live t b then (take_wait b t, [b]) else (t, []))"

definition deliver :: "timer \<Rightarrow> timer" where
  "deliver t = t\<lparr>ti_external := ti_external t - 1\<rparr>"

fun fire_due :: "entry list \<Rightarrow> timer \<Rightarrow> timer \<times> block_id list" where
  "fire_due [] t = (t, [])"
| "fire_due (e # due) t =
     (if ti_is_live t (te_block e)
      then (let (t', fire) = fire_due due (take_wait (te_block e) t) in (t', te_block e # fire))
      else fire_due due t)"

text \<open>One critical section of \<^verbatim>\<open>run\<close>, with the two clock readings it makes.\<close>

definition run_once :: "int \<Rightarrow> int \<Rightarrow> timer \<Rightarrow> timer" where
  "run_once now later_now t =
     (if ti_stopping t then t\<lparr>ti_thread := Some T_exited\<rparr>
      else if ti_heap t = [] then t\<lparr>ti_thread := Some (T_parked None)\<rparr>
      else if now < te_deadline (hd (ti_heap t)) then t\<lparr>ti_thread := Some (T_parked (Some (te_deadline (hd (ti_heap t)))))\<rparr>
      else (let (due, rest) = pop_due later_now (ti_heap t); (t', fire) = fire_due due (t\<lparr>ti_heap := rest\<rparr>) in
        t'\<lparr>ti_thread := Some (T_deliver fire)\<rparr>))"

definition timer_wake :: "timer \<Rightarrow> timer" where
  "timer_wake t = (case ti_thread t of Some (T_parked _) \<Rightarrow> t\<lparr>ti_thread := Some T_run\<rparr> | _ \<Rightarrow> t)"

definition drop_entry :: "entry \<Rightarrow> timer \<Rightarrow> timer" where
  "drop_entry e t = (if ti_is_live t (te_block e)
     then t\<lparr>ti_is_live := (ti_is_live t)(te_block e := False), ti_external := ti_external t - 1\<rparr> else t)"

definition timer_shutdown :: "bool \<Rightarrow> timer \<Rightarrow> (timer \<times> bool) result" where
  "timer_shutdown check_armed t =
     (if ti_thread t = None then Inr (t, False)
      else if check_armed \<and> ti_live t \<noteq> 0 then Inl Timer_still_armed
      else (let t' = fold drop_entry (ti_heap t) (t\<lparr>ti_stopping := True\<rparr>) in
        Inr (t'\<lparr>ti_heap := [], ti_live := 0\<rparr>, True)))"

text \<open>How a sleep begins: fatal without workers, settled in the call, or to be armed.\<close>

datatype sleep_start = Settled_in_call | To_arm

definition sleep_until :: "bool \<Rightarrow> bool \<Rightarrow> int \<Rightarrow> int \<Rightarrow> sleep_start result" where
  "sleep_until single_threaded requested now deadline =
     (if single_threaded then Inl Timer_no_workers
      else if requested \<or> deadline \<le> now then Inr Settled_in_call else Inr To_arm)"

section \<open>Periodic\<close>

record periodic =
  pd_period :: int
  pd_next :: int

definition periodic_new :: "int \<Rightarrow> int \<Rightarrow> periodic result" where
  "periodic_new now period = (if period \<le> 0 then Inl Periodic_bad_period else Inr \<lparr>pd_period = period, pd_next = now + period\<rparr>)"

definition periodic_advance :: "bool \<Rightarrow> int \<Rightarrow> periodic \<Rightarrow> periodic \<times> int" where
  "periodic_advance requested now p =
     (if requested then (p, 0)
      else (let due = 1 + wrap_int ((now - pd_next p) sdiv pd_period p) in (p\<lparr>pd_next := pd_next p + pd_period p * due\<rparr>, due)))"

definition periodic_next :: "bool \<Rightarrow> bool \<Rightarrow> int \<Rightarrow> periodic \<Rightarrow> sleep_start result" where
  "periodic_next single_threaded requested now p =
     (if single_threaded then Inl Timer_no_workers
      else if requested \<or> pd_next p \<le> now then Inr Settled_in_call else Inr To_arm)"

definition periodic_reset :: "int \<Rightarrow> periodic \<Rightarrow> periodic" where
  "periodic_reset now p = p\<lparr>pd_next := now + pd_period p\<rparr>"

section \<open>Runs\<close>

text \<open>
  The service among its callers: the clock, the wake calls not yet made, the waits a cancel callback has taken and not
  yet delivered, a shutdown that waits to join, and, for the statements, which blocks were armed for which deadline, submitted
  (and whether the timer thread or a cancel did so) and dropped. A block is armed once.
\<close>

record timer_sys =
  ts_t :: timer
  ts_now :: int
  ts_wakes :: nat
  ts_cancelling :: "block_id list"
  ts_joining :: bool
  ts_deadline :: "block_id \<Rightarrow> int"
  ts_armed :: "block_id list"
  ts_submitted :: "(block_id \<times> bool) list"
  ts_dropped :: "block_id list"

definition timer_sys_new :: "int \<Rightarrow> timer_sys" where
  "timer_sys_new now = \<lparr>ts_t = timer_new, ts_now = now, ts_wakes = 0, ts_cancelling = [], ts_joining = False,
     ts_deadline = (\<lambda>_. 0), ts_armed = [], ts_submitted = [], ts_dropped = []\<rparr>"

definition heap_blocks :: "timer \<Rightarrow> block_id list" where
  "heap_blocks t = map te_block (ti_heap t)"

definition live_blocks :: "timer \<Rightarrow> block_id list" where
  "live_blocks t = filter (ti_is_live t) (heap_blocks t)"

definition firing :: "timer \<Rightarrow> block_id list" where
  "firing t = (case ti_thread t of Some (T_deliver bs) \<Rightarrow> bs | _ \<Rightarrow> [])"

inductive timer_step :: "timer_sys \<Rightarrow> timer_sys \<Rightarrow> bool" where
  tk_arm: "b \<notin> set (ts_armed s) \<Longrightarrow> arm d b (ts_t s) = (t, earlier) \<Longrightarrow>
     timer_step s (s\<lparr>ts_t := t, ts_wakes := ts_wakes s + (if earlier then 1 else 0), ts_deadline := (ts_deadline s)(b := d),
       ts_armed := ts_armed s @ [b]\<rparr>)"
| tk_wake: "0 < ts_wakes s \<Longrightarrow> timer_step s (s\<lparr>ts_t := timer_wake (ts_t s), ts_wakes := ts_wakes s - 1\<rparr>)"
| tk_cancel: "b \<in> set (ts_armed s) \<Longrightarrow> timer_cancel b (ts_t s) = (t, bs) \<Longrightarrow>
     timer_step s (s\<lparr>ts_t := t, ts_cancelling := ts_cancelling s @ bs\<rparr>)"
| tk_deliver_cancelled: "ts_cancelling s = xs @ b # ys \<Longrightarrow>
     timer_step s (s\<lparr>ts_t := deliver (ts_t s), ts_cancelling := xs @ ys, ts_submitted := ts_submitted s @ [(b, False)]\<rparr>)"
| tk_run: "ti_thread (ts_t s) = Some T_run \<Longrightarrow> ts_now s \<le> n \<Longrightarrow>
     timer_step s (s\<lparr>ts_t := run_once (ts_now s) n (ts_t s), ts_now := n\<rparr>)"
| tk_deliver_due: "ti_thread (ts_t s) = Some (T_deliver (b # bs)) \<Longrightarrow>
     timer_step s (s\<lparr>ts_t := (deliver (ts_t s))\<lparr>ti_thread := Some (T_deliver bs)\<rparr>, ts_submitted := ts_submitted s @ [(b, True)]\<rparr>)"
| tk_again: "ti_thread (ts_t s) = Some (T_deliver []) \<Longrightarrow>
     timer_step s (s\<lparr>ts_t := (ts_t s)\<lparr>ti_thread := Some T_run\<rparr>\<rparr>)"
| tk_unpark: "ti_thread (ts_t s) = Some (T_parked od) \<Longrightarrow>
     timer_step s (s\<lparr>ts_t := (ts_t s)\<lparr>ti_thread := Some T_run\<rparr>\<rparr>)"
| tk_time: "ts_now s \<le> n \<Longrightarrow> timer_step s (s\<lparr>ts_now := n\<rparr>)"
| tk_shutdown: "\<not> ts_joining s \<Longrightarrow> timer_shutdown chk (ts_t s) = Inr (t, True) \<Longrightarrow>
     timer_step s (s\<lparr>ts_t := t, ts_wakes := ts_wakes s + 1, ts_joining := True, ts_dropped := ts_dropped s @ live_blocks (ts_t s)\<rparr>)"
| tk_join: "ts_joining s \<Longrightarrow> ti_thread (ts_t s) = Some T_exited \<Longrightarrow>
     timer_step s (s\<lparr>ts_t := (ts_t s)\<lparr>ti_thread := None\<rparr>, ts_joining := False\<rparr>)"

inductive timer_reach :: "timer_sys \<Rightarrow> bool" where
  timer_start: "timer_reach (timer_sys_new now)"
| timer_next: "timer_reach s \<Longrightarrow> timer_step s s' \<Longrightarrow> timer_reach s'"

section \<open>The loops\<close>

lemma pop_due_split: "pop_due now h = (takeWhile (\<lambda>e. te_deadline e \<le> now) h, dropWhile (\<lambda>e. te_deadline e \<le> now) h)"
  by (induction h) auto

lemma later_heap_key: "later a b \<longleftrightarrow> heap_key b < heap_key a"
  by (auto simp: later_def heap_key_def)

lemma takeWhile_sorted_filter:
  "sorted (map heap_key h) \<Longrightarrow> takeWhile (\<lambda>e. te_deadline e \<le> now) h = filter (\<lambda>e. te_deadline e \<le> now) h
     \<and> dropWhile (\<lambda>e. te_deadline e \<le> now) h = filter (\<lambda>e. now < te_deadline e) h"
proof (induction h)
  case (Cons e h)
  show ?case
  proof (cases "te_deadline e \<le> now")
    case False
    have "now < te_deadline x" if "x \<in> set h" for x
      using Cons.prems that False by (fastforce simp: heap_key_def)
    then have "filter (\<lambda>e. te_deadline e \<le> now) (e # h) = []" "filter (\<lambda>e. now < te_deadline e) (e # h) = e # h"
      using False by (fastforce simp: filter_empty_conv filter_id_conv)+
    then show ?thesis using False by simp
  qed (use Cons in auto)
qed simp

lemma take_wait_simps [simp]:
  "ti_heap (take_wait b t) = ti_heap t" "ti_serial (take_wait b t) = ti_serial t" "ti_stopping (take_wait b t) = ti_stopping t"
  "ti_thread (take_wait b t) = ti_thread t" "ti_external (take_wait b t) = ti_external t" "ti_live (take_wait b t) = ti_live t - 1"
  "ti_is_live (take_wait b t) = (ti_is_live t)(b := False)" "ti_delivered (take_wait b t) = (ti_delivered t)(b := True)"
  by (simp_all add: take_wait_def)

lemma fire_due_effect:
  assumes "fire_due due t = (t', fire)" "distinct (map te_block due)"
  shows "fire = filter (ti_is_live t) (map te_block due)
    \<and> ti_is_live t' = (\<lambda>b. ti_is_live t b \<and> b \<notin> set (map te_block due))
    \<and> ti_delivered t' = (\<lambda>b. ti_delivered t b \<or> b \<in> set fire)
    \<and> ti_live t' = ti_live t - int (length fire)
    \<and> ti_heap t' = ti_heap t \<and> ti_serial t' = ti_serial t \<and> ti_stopping t' = ti_stopping t
    \<and> ti_thread t' = ti_thread t \<and> ti_external t' = ti_external t"
  using assms
proof (induction due t arbitrary: t' fire rule: fire_due.induct)
  case (2 e due t)
  show ?case
  proof (cases "ti_is_live t (te_block e)")
    case True
    then obtain rest where r: "fire_due due (take_wait (te_block e) t) = (t', rest)" "fire = te_block e # rest"
      using 2(3) by (auto split: prod.splits)
    have ne: "\<forall>x \<in> set due. te_block x \<noteq> te_block e" using 2(4) by (metis distinct.simps(2) image_eqI list.simps(9) set_map)
    then have eq: "filter ((ti_is_live t)(te_block e := False)) (map te_block due) = filter (ti_is_live t) (map te_block due)"
      by (intro filter_cong) auto
    have d: "distinct (map te_block due)" using 2(4) by simp
    note IH = 2(1) [OF True r(1) d, unfolded take_wait_simps eq]
    have "ti_is_live t' = (\<lambda>b. ti_is_live t b \<and> b \<notin> set (map te_block (e # due)))"
      "ti_delivered t' = (\<lambda>b. ti_delivered t b \<or> b \<in> set fire)" using IH r(2) by (auto simp: fun_eq_iff)
    with IH r(2) True show ?thesis by simp
  next
    case False
    with 2(2) [OF False, of t' fire] 2(3,4) show ?thesis by (auto simp: fun_eq_iff)
  qed
qed auto

lemma drop_entry_simps [simp]:
  "ti_heap (drop_entry e t) = ti_heap t" "ti_serial (drop_entry e t) = ti_serial t" "ti_stopping (drop_entry e t) = ti_stopping t"
  "ti_thread (drop_entry e t) = ti_thread t" "ti_live (drop_entry e t) = ti_live t" "ti_delivered (drop_entry e t) = ti_delivered t"
  "ti_is_live (drop_entry e t) = (ti_is_live t)(te_block e := False)"
  "ti_external (drop_entry e t) = ti_external t - (if ti_is_live t (te_block e) then 1 else 0)"
  by (auto simp: drop_entry_def fun_eq_iff)

lemma drop_entries_effect:
  assumes "distinct (map te_block h)"
  shows "ti_is_live (fold drop_entry h t) = (\<lambda>b. ti_is_live t b \<and> b \<notin> set (map te_block h))
    \<and> ti_external (fold drop_entry h t) = ti_external t - int (length (filter (ti_is_live t) (map te_block h)))
    \<and> ti_delivered (fold drop_entry h t) = ti_delivered t \<and> ti_heap (fold drop_entry h t) = ti_heap t
    \<and> ti_serial (fold drop_entry h t) = ti_serial t \<and> ti_stopping (fold drop_entry h t) = ti_stopping t
    \<and> ti_thread (fold drop_entry h t) = ti_thread t \<and> ti_live (fold drop_entry h t) = ti_live t"
  using assms
proof (induction h arbitrary: t)
  case (Cons e h)
  have ne: "\<forall>x \<in> set h. te_block x \<noteq> te_block e" using Cons.prems by (metis distinct.simps(2) image_eqI list.simps(9) set_map)
  then have eq: "filter ((ti_is_live t)(te_block e := False)) (map te_block h) = filter (ti_is_live t) (map te_block h)"
    by (intro filter_cong) auto
  have d: "distinct (map te_block h)" using Cons.prems by simp
  note IH = Cons.IH [of "drop_entry e t", OF d, unfolded drop_entry_simps eq]
  have "ti_is_live (fold drop_entry (e # h) t) = (\<lambda>b. ti_is_live t b \<and> b \<notin> set (map te_block (e # h)))"
    using IH by (auto simp: fun_eq_iff)
  with IH show ?case by simp
qed simp

lemma push_heap_facts:
  "set (push_heap e h) = insert e (set h)" "mset (map te_block (push_heap e h)) = add_mset (te_block e) (mset (map te_block h))"
  "sorted (map heap_key h) \<Longrightarrow> sorted (map heap_key (push_heap e h))"
  by (simp_all add: push_heap_def set_insort_key sorted_insort_key)

lemma push_heap_hd:
  assumes "sorted (map heap_key h)"
  shows "te_deadline (hd (push_heap e h)) = (if h = [] \<or> te_deadline e < te_deadline (hd h) then te_deadline e else te_deadline (hd h))"
  using assms by (cases h) (auto simp: push_heap_def heap_key_def)

section \<open>The invariant\<close>

definition heap_ok :: "timer_sys \<Rightarrow> bool" where
  "heap_ok s \<longleftrightarrow> sorted (map heap_key (ti_heap (ts_t s))) \<and> distinct (heap_blocks (ts_t s))
     \<and> set (heap_blocks (ts_t s)) \<subseteq> set (ts_armed s) \<and> (\<forall>e \<in> set (ti_heap (ts_t s)). te_deadline e = ts_deadline s (te_block e))
     \<and> (\<forall>b. ti_is_live (ts_t s) b \<longrightarrow> b \<in> set (heap_blocks (ts_t s)))"

text \<open>Every armed wait is in exactly one place, and the counters count.\<close>

definition waits_ok :: "timer_sys \<Rightarrow> bool" where
  "waits_ok s \<longleftrightarrow> distinct (ts_armed s)
     \<and> mset (ts_armed s) = mset (live_blocks (ts_t s)) + mset (firing (ts_t s)) + mset (ts_cancelling s)
         + mset (map fst (ts_submitted s)) + mset (ts_dropped s)
     \<and> ti_live (ts_t s) = int (length (live_blocks (ts_t s)))
     \<and> ti_external (ts_t s) = int (length (live_blocks (ts_t s)) + length (firing (ts_t s)) + length (ts_cancelling s))
     \<and> (\<forall>b. ti_delivered (ts_t s) b \<longleftrightarrow> b \<in> set (firing (ts_t s)) \<union> set (ts_cancelling s) \<union> fst ` set (ts_submitted s))"

definition due_ok :: "timer_sys \<Rightarrow> bool" where
  "due_ok s \<longleftrightarrow> (\<forall>b \<in> set (firing (ts_t s)). ts_deadline s b \<le> ts_now s) \<and> (\<forall>b. (b, True) \<in> set (ts_submitted s) \<longrightarrow> ts_deadline s b \<le> ts_now s)"

text \<open>A parked thread is early enough for the head of the heap, or a wake call is on its way.\<close>

definition park_ok :: "timer_sys \<Rightarrow> bool" where
  "park_ok s \<longleftrightarrow> (\<forall>od. ti_thread (ts_t s) = Some (T_parked od) \<longrightarrow> 0 < ts_wakes s \<or>
     (\<not> ti_stopping (ts_t s) \<and> (ti_heap (ts_t s) \<noteq> [] \<longrightarrow> (\<exists>d. od = Some d \<and> d \<le> te_deadline (hd (ti_heap (ts_t s)))))))"

definition timer_inv :: "timer_sys \<Rightarrow> bool" where
  "timer_inv s \<longleftrightarrow> heap_ok s \<and> waits_ok s \<and> due_ok s \<and> park_ok s"

lemmas timer_inv_defs = heap_ok_def waits_ok_def due_ok_def park_ok_def

lemma timer_inv_parts: "timer_inv s \<Longrightarrow> heap_ok s" "timer_inv s \<Longrightarrow> waits_ok s" "timer_inv s \<Longrightarrow> due_ok s" "timer_inv s \<Longrightarrow> park_ok s"
  by (simp_all add: timer_inv_def)

text \<open>Steps that only move the timer thread, the clock or a wake call.\<close>

lemma timer_inv_frame:
  assumes inv: "timer_inv s" and "ti_heap t = ti_heap (ts_t s)" "ti_is_live t = ti_is_live (ts_t s)" "ti_live t = ti_live (ts_t s)"
    "ti_external t = ti_external (ts_t s)" "ti_delivered t = ti_delivered (ts_t s)" "firing t = firing (ts_t s)" "ts_now s \<le> n"
    and "park_ok (s\<lparr>ts_t := t, ts_now := n, ts_wakes := w, ts_joining := j\<rparr>)"
  shows "timer_inv (s\<lparr>ts_t := t, ts_now := n, ts_wakes := w, ts_joining := j\<rparr>)"
proof -
  have "heap_blocks t = heap_blocks (ts_t s)" "live_blocks t = live_blocks (ts_t s)"
    using assms(2,3) by (simp_all add: heap_blocks_def live_blocks_def)
  then show ?thesis using assms timer_inv_parts [OF inv]
    by (auto simp: timer_inv_def heap_ok_def waits_ok_def due_ok_def intro: order.trans)
qed

lemma arm_inv:
  assumes inv: "timer_inv s" and b: "b \<notin> set (ts_armed s)" and a: "arm d b (ts_t s) = (t, earlier)"
  shows "timer_inv (s\<lparr>ts_t := t, ts_wakes := ts_wakes s + (if earlier then 1 else 0), ts_deadline := (ts_deadline s)(b := d),
       ts_armed := ts_armed s @ [b]\<rparr>)"
proof -
  note H = timer_inv_parts(1) [OF inv, unfolded heap_ok_def] and W = timer_inv_parts(2) [OF inv, unfolded waits_ok_def]
    and D = timer_inv_parts(3) [OF inv, unfolded due_ok_def] and K = timer_inv_parts(4) [OF inv, unfolded park_ok_def]
  let ?e = "\<lparr>te_deadline = d, te_serial = ti_serial (ts_t s), te_block = b\<rparr>"
  let ?h = "ti_heap (ts_t s)"
  have t: "ti_heap t = push_heap ?e ?h" "ti_is_live t = (ti_is_live (ts_t s))(b := True)" "ti_live t = ti_live (ts_t s) + 1"
    "ti_external t = ti_external (ts_t s) + 1" "ti_delivered t = ti_delivered (ts_t s)"
    "earlier = (?h = [] \<or> d < te_deadline (hd ?h))"
    "ti_thread t = (if ti_thread (ts_t s) = None then Some T_run else ti_thread (ts_t s))"
    "ti_thread (ts_t s) \<noteq> None \<Longrightarrow> ti_stopping t = ti_stopping (ts_t s)"
    using a by (auto simp: arm_def Let_def split: if_splits)
  have fi: "firing t = firing (ts_t s)" by (simp add: firing_def t(7))
  have bh: "b \<notin> set (heap_blocks (ts_t s))" using H b by blast
  have mb: "mset (heap_blocks t) = add_mset b (mset (heap_blocks (ts_t s)))"
    using push_heap_facts(2) [of ?e ?h] by (simp add: heap_blocks_def t(1))
  have live: "ti_is_live t b" using t(2) by simp
  have "filter_mset (ti_is_live t) (mset (heap_blocks (ts_t s))) = filter_mset (ti_is_live (ts_t s)) (mset (heap_blocks (ts_t s)))"
    using bh by (intro filter_mset_cong) (auto simp: t(2))
  then have ml: "mset (live_blocks t) = add_mset b (mset (live_blocks (ts_t s)))"
    using live by (simp add: live_blocks_def mb)
  then have ll: "length (live_blocks t) = length (live_blocks (ts_t s)) + 1" by (metis Suc_eq_plus1 size_add_mset size_mset)
  have nb: "b \<notin> set (firing (ts_t s))" "\<And>x. (b, x) \<notin> set (ts_submitted s)"
  proof -
    have "b \<notin># mset (firing (ts_t s)) + mset (map fst (ts_submitted s))" using W b by (metis set_mset_mset union_iff)
    then show "b \<notin> set (firing (ts_t s))" "\<And>x. (b, x) \<notin> set (ts_submitted s)" by (force simp: image_iff)+
  qed
  let ?s = "s\<lparr>ts_t := t, ts_wakes := ts_wakes s + (if earlier then 1 else 0), ts_deadline := (ts_deadline s)(b := d),
       ts_armed := ts_armed s @ [b]\<rparr>"
  have "heap_ok ?s"
  proof -
    have "distinct (heap_blocks t)" using H bh mset_eq_imp_distinct_iff [of "heap_blocks t" "b # heap_blocks (ts_t s)"] mb by simp
    moreover have hb: "set (heap_blocks t) = insert b (set (heap_blocks (ts_t s)))" using arg_cong [OF mb, of set_mset] by simp
    moreover have "te_deadline e = ((ts_deadline s)(b := d)) (te_block e)" if "e \<in> set (ti_heap t)" for e
    proof -
      have "e = ?e \<or> e \<in> set ?h \<and> te_block e \<noteq> b"
        using that bh push_heap_facts(1) [of ?e ?h] by (auto simp: t(1) heap_blocks_def)
      then show ?thesis using H by auto
    qed
    ultimately show ?thesis using H push_heap_facts(3) [of ?h ?e] by (auto simp: heap_ok_def t(1,2))
  qed
  moreover have "waits_ok ?s" using W b ml ll fi t(3,4,5) by (simp add: waits_ok_def ac_simps)
  moreover have "due_ok ?s" using D nb by (auto simp: due_ok_def fi)
  moreover have "park_ok ?s"
    using K t(6,7,8) push_heap_hd [of ?h ?e] H by (auto simp: park_ok_def t(1) split: if_splits)
  ultimately show ?thesis by (simp add: timer_inv_def)
qed

lemma heap_split: "mset h = mset (filter (\<lambda>e. te_deadline e \<le> n) h) + mset (filter (\<lambda>e. n < te_deadline e) h)"
  by (induction h) auto

lemma run_once_inv:
  assumes inv: "timer_inv s" and run: "ti_thread (ts_t s) = Some T_run" and n: "ts_now s \<le> n"
  shows "timer_inv (s\<lparr>ts_t := run_once (ts_now s) n (ts_t s), ts_now := n\<rparr>)"
proof -
  note H = timer_inv_parts(1) [OF inv, unfolded heap_ok_def] and W = timer_inv_parts(2) [OF inv, unfolded waits_ok_def]
    and D = timer_inv_parts(3) [OF inv, unfolded due_ok_def]
  let ?t = "ts_t s" and ?h = "ti_heap (ts_t s)"
  have f0: "firing ?t = []" by (simp add: firing_def run)
  show ?thesis
  proof (cases "\<not> ti_stopping ?t \<and> ?h \<noteq> [] \<and> \<not> ts_now s < te_deadline (hd ?h)")
    case False
    define pc where "pc = (if ti_stopping ?t then T_exited else if ?h = [] then T_parked None else T_parked (Some (te_deadline (hd ?h))))"
    have pc: "run_once (ts_now s) n ?t = ?t\<lparr>ti_thread := Some pc\<rparr>" using False by (auto simp: run_once_def pc_def)
    have "park_ok (s\<lparr>ts_t := ?t\<lparr>ti_thread := Some pc\<rparr>, ts_now := n, ts_wakes := ts_wakes s, ts_joining := ts_joining s\<rparr>)"
      by (auto simp: park_ok_def pc_def)
    then show ?thesis using timer_inv_frame [OF inv, where t = "?t\<lparr>ti_thread := Some pc\<rparr>" and n = n and w = "ts_wakes s" and j = "ts_joining s"] n pc f0
      by (auto simp: firing_def pc_def)
  next
    case True
    define due rest where "due = filter (\<lambda>e. te_deadline e \<le> n) ?h" and "rest = filter (\<lambda>e. n < te_deadline e) ?h"
    obtain t' fire where fd: "fire_due due (?t\<lparr>ti_heap := rest\<rparr>) = (t', fire)" by fastforce
    have pd: "pop_due n ?h = (due, rest)" using takeWhile_sorted_filter [of ?h n] H by (simp add: pop_due_split due_def rest_def)
    have ro: "run_once (ts_now s) n ?t = t'\<lparr>ti_thread := Some (T_deliver fire)\<rparr>"
      using True fd pd by (auto simp: run_once_def)
    have dd: "distinct (map te_block due)" using H by (simp add: due_def heap_blocks_def distinct_map inj_on_def)
    note E = fire_due_effect [OF fd dd, simplified]
    let ?u = "t'\<lparr>ti_thread := Some (T_deliver fire)\<rparr>"
    have hb: "heap_blocks ?u = map te_block rest" "mset (heap_blocks ?t) = mset (map te_block due) + mset (map te_block rest)"
      using E arg_cong [OF heap_split [of ?h n], of "image_mset te_block"] by (simp_all add: heap_blocks_def due_def rest_def)
    have disj: "set (map te_block due) \<inter> set (map te_block rest) = {}"
    proof -
      have "distinct (map te_block due @ map te_block rest)"
        using H hb(2) mset_eq_imp_distinct_iff [of "heap_blocks ?t" "map te_block due @ map te_block rest"] by simp
      then show ?thesis by auto
    qed
    have lb: "live_blocks ?u = filter (ti_is_live ?t) (map te_block rest)"
      using disj E unfolding live_blocks_def hb(1) by (intro filter_cong) auto
    have ml: "mset (live_blocks ?t) = mset fire + mset (live_blocks ?u)"
      unfolding lb using E by (simp add: live_blocks_def hb(2))
    have ll: "length (live_blocks ?t) = length fire + length (live_blocks ?u)" using arg_cong [OF ml, of size] by simp
    have dead: "ts_deadline s b \<le> n" if "b \<in> set fire" for b
      using that E H by (auto simp: due_def)
    let ?s = "s\<lparr>ts_t := ?u, ts_now := n\<rparr>"
    have "heap_ok ?s"
    proof -
      have "sorted (map heap_key rest)" "distinct (map te_block rest)" "set rest \<subseteq> set ?h"
        using H by (auto simp: rest_def heap_blocks_def sorted_filter distinct_map inj_on_def)
      moreover have "b \<in> set (map te_block rest)" if "ti_is_live t' b" for b
      proof -
        have "b \<in># mset (heap_blocks ?t)" "b \<notin> set (map te_block due)" using that E H by auto
        then show ?thesis unfolding hb(2) by auto
      qed
      ultimately show ?thesis using H E hb(1) by (auto simp: heap_ok_def heap_blocks_def)
    qed
    moreover have "waits_ok ?s"
    proof -
      have "firing ?u = fire" "ti_delivered ?u = (\<lambda>b. ti_delivered ?t b \<or> b \<in> set fire)" "ti_live ?u = ti_live ?t - int (length fire)"
        "ti_external ?u = ti_external ?t" using fire_due_effect [OF fd dd] by (simp_all add: firing_def)
      with W ml ll f0 show ?thesis by (auto simp: waits_ok_def ac_simps)
    qed
    moreover have "due_ok ?s" using D dead n by (auto simp: due_ok_def firing_def intro: order.trans)
    moreover have "park_ok ?s" by (simp add: park_ok_def)
    ultimately show ?thesis by (simp add: timer_inv_def ro)
  qed
qed

section \<open>The remaining steps\<close>

lemma filter_take_one:
  assumes "distinct xs" "b \<in> set xs" "P b" "\<forall>x. Q x \<longleftrightarrow> P x \<and> x \<noteq> b"
  shows "mset (filter P xs) = add_mset b (mset (filter Q xs))"
  using assms(1,2)
proof (induction xs)
  case (Cons x xs)
  show ?case
  proof (cases "x = b")
    case True
    then have "filter P xs = filter Q xs" using Cons.prems assms(4) by (intro filter_cong) auto
    with True assms(3,4) show ?thesis by simp
  qed (use Cons assms(4) in auto)
qed simp

lemma cancel_inv_timer:
  assumes inv: "timer_inv s" and c: "timer_cancel b (ts_t s) = (t, bs)"
  shows "timer_inv (s\<lparr>ts_t := t, ts_cancelling := ts_cancelling s @ bs\<rparr>)"
proof (cases "ti_is_live (ts_t s) b")
  case True
  note H = timer_inv_parts(1) [OF inv, unfolded heap_ok_def] and W = timer_inv_parts(2) [OF inv, unfolded waits_ok_def]
  have t: "t = take_wait b (ts_t s)" "bs = [b]" using c True by (auto simp: timer_cancel_def)
  have hb: "heap_blocks t = heap_blocks (ts_t s)" "firing t = firing (ts_t s)" by (simp_all add: t heap_blocks_def firing_def)
  have "mset (live_blocks (ts_t s)) = add_mset b (mset (live_blocks t))"
  proof -
    have "\<forall>x. ti_is_live t x \<longleftrightarrow> ti_is_live (ts_t s) x \<and> x \<noteq> b" by (simp add: t(1))
    from filter_take_one [OF _ _ True this] show ?thesis using H True hb(1) by (simp add: live_blocks_def)
  qed
  moreover from this have "length (live_blocks (ts_t s)) = length (live_blocks t) + 1" by (metis Suc_eq_plus1 size_add_mset size_mset)
  ultimately have "waits_ok (s\<lparr>ts_t := t, ts_cancelling := ts_cancelling s @ bs\<rparr>)"
    using W hb(2) by (auto simp: waits_ok_def t ac_simps)
  moreover have "heap_ok (s\<lparr>ts_t := t, ts_cancelling := ts_cancelling s @ bs\<rparr>)"
    using H hb(1) by (auto simp: heap_ok_def t)
  ultimately show ?thesis using timer_inv_parts(3,4) [OF inv] hb(2) by (simp add: timer_inv_def due_ok_def park_ok_def t)
next
  case False
  then have "s\<lparr>ts_t := t, ts_cancelling := ts_cancelling s @ bs\<rparr> = s" using c by (auto simp: timer_cancel_def)
  then show ?thesis using inv by simp
qed

lemma deliver_cancelled_inv:
  assumes inv: "timer_inv s" and c: "ts_cancelling s = xs @ b # ys"
  shows "timer_inv (s\<lparr>ts_t := deliver (ts_t s), ts_cancelling := xs @ ys, ts_submitted := ts_submitted s @ [(b, False)]\<rparr>)"
proof -
  have same: "heap_blocks (deliver (ts_t s)) = heap_blocks (ts_t s)" "live_blocks (deliver (ts_t s)) = live_blocks (ts_t s)"
    "firing (deliver (ts_t s)) = firing (ts_t s)" by (simp_all add: deliver_def heap_blocks_def live_blocks_def firing_def)
  show ?thesis using timer_inv_parts [OF inv] c
    unfolding timer_inv_def heap_ok_def waits_ok_def due_ok_def park_ok_def
    by (auto simp: same ac_simps) (force simp: deliver_def image_iff)+
qed

lemma deliver_due_inv:
  assumes inv: "timer_inv s" and c: "ti_thread (ts_t s) = Some (T_deliver (b # bs))"
  shows "timer_inv (s\<lparr>ts_t := (deliver (ts_t s))\<lparr>ti_thread := Some (T_deliver bs)\<rparr>, ts_submitted := ts_submitted s @ [(b, True)]\<rparr>)"
proof -
  let ?u = "(deliver (ts_t s))\<lparr>ti_thread := Some (T_deliver bs)\<rparr>"
  have same: "heap_blocks ?u = heap_blocks (ts_t s)" "live_blocks ?u = live_blocks (ts_t s)" "firing ?u = bs" "firing (ts_t s) = b # bs"
    by (simp_all add: deliver_def heap_blocks_def live_blocks_def firing_def c)
  show ?thesis using timer_inv_parts [OF inv]
    unfolding timer_inv_def heap_ok_def waits_ok_def due_ok_def park_ok_def
    by (auto simp: same ac_simps) (force simp: deliver_def image_iff)+
qed

lemma shutdown_inv:
  assumes inv: "timer_inv s" and sh: "timer_shutdown chk (ts_t s) = Inr (t, True)"
  shows "timer_inv (s\<lparr>ts_t := t, ts_wakes := ts_wakes s + 1, ts_joining := True, ts_dropped := ts_dropped s @ live_blocks (ts_t s)\<rparr>)"
proof -
  note H = timer_inv_parts(1) [OF inv, unfolded heap_ok_def] and W = timer_inv_parts(2) [OF inv, unfolded waits_ok_def]
  have dist: "distinct (map te_block (ti_heap (ts_t s)))" using H by (simp add: heap_blocks_def)
  note E = drop_entries_effect [OF dist, of "(ts_t s)\<lparr>ti_stopping := True\<rparr>", simplified]
  have t: "ti_heap t = []" "ti_live t = 0" "ti_is_live t = (\<lambda>b. False)" "ti_delivered t = ti_delivered (ts_t s)"
    "ti_thread t = ti_thread (ts_t s)" "ti_external t = ti_external (ts_t s) - int (length (live_blocks (ts_t s)))"
    using sh E H by (auto simp: timer_shutdown_def live_blocks_def heap_blocks_def Let_def fun_eq_iff split: if_splits)
  have "heap_blocks t = []" "live_blocks t = []" "firing t = firing (ts_t s)"
    by (simp_all add: heap_blocks_def live_blocks_def firing_def t)
  with W timer_inv_parts(3) [OF inv] show ?thesis
    unfolding timer_inv_def heap_ok_def waits_ok_def due_ok_def park_ok_def by (auto simp: t ac_simps)
qed

lemma timer_inv_step:
  assumes "timer_step s s'" and inv: "timer_inv s"
  shows "timer_inv s'"
  using assms(1)
proof cases
  case (tk_arm b d t earlier)
  then show ?thesis using arm_inv [OF inv] by simp
next
  case tk_wake
  have "park_ok (s\<lparr>ts_t := timer_wake (ts_t s), ts_now := ts_now s, ts_wakes := ts_wakes s - 1, ts_joining := ts_joining s\<rparr>)"
    by (auto simp: park_ok_def timer_wake_def split: option.splits timer_pc.splits)
  then show ?thesis using timer_inv_frame [OF inv, where t = "timer_wake (ts_t s)" and n = "ts_now s" and w = "ts_wakes s - 1" and j = "ts_joining s"]
    unfolding tk_wake(1) by (auto simp: timer_wake_def firing_def split: option.splits timer_pc.splits)
next
  case (tk_cancel b t bs)
  then show ?thesis using cancel_inv_timer [OF inv] by simp
next
  case (tk_deliver_cancelled xs b ys)
  then show ?thesis using deliver_cancelled_inv [OF inv] by simp
next
  case (tk_run n)
  then show ?thesis using run_once_inv [OF inv] by simp
next
  case (tk_deliver_due b bs)
  then show ?thesis using deliver_due_inv [OF inv] by simp
next
  case tk_again
  then show ?thesis using timer_inv_frame [OF inv, where t = "(ts_t s)\<lparr>ti_thread := Some T_run\<rparr>" and n = "ts_now s" and w = "ts_wakes s" and j = "ts_joining s"]
    by (simp add: firing_def park_ok_def)
next
  case (tk_unpark od)
  then show ?thesis using timer_inv_frame [OF inv, where t = "(ts_t s)\<lparr>ti_thread := Some T_run\<rparr>" and n = "ts_now s" and w = "ts_wakes s" and j = "ts_joining s"]
    by (simp add: firing_def park_ok_def)
next
  case (tk_time n)
  then show ?thesis using timer_inv_frame [OF inv, where t = "ts_t s" and n = n and w = "ts_wakes s" and j = "ts_joining s"] timer_inv_parts(4) [OF inv]
    by (simp add: park_ok_def)
next
  case (tk_shutdown chk t)
  then show ?thesis using shutdown_inv [OF inv] by simp
next
  case tk_join
  then show ?thesis using timer_inv_frame [OF inv, where t = "(ts_t s)\<lparr>ti_thread := None\<rparr>" and n = "ts_now s" and w = "ts_wakes s" and j = False]
    by (simp add: firing_def park_ok_def)
qed

lemma timer_reach_inv: "timer_reach s \<Longrightarrow> timer_inv s"
proof (induction rule: timer_reach.induct)
  case (timer_start now)
  show ?case by (simp add: timer_sys_new_def timer_new_def timer_inv_def timer_inv_defs heap_blocks_def live_blocks_def firing_def)
qed (rule timer_inv_step)

section \<open>Properties\<close>

lemma le_div_grid:
  assumes "0 < (P::int)"
  shows "k * P \<le> x \<longleftrightarrow> k \<le> x div P"
proof
  assume "k * P \<le> x"
  then have "(k * P) div P \<le> x div P" using assms by (intro zdiv_mono1)
  then show "k \<le> x div P" using assms by simp
next
  assume "k \<le> x div P"
  then have "k * P \<le> x div P * P" using assms by (intro mult_right_mono) auto
  also have "\<dots> \<le> x" using assms by (simp add: minus_mod_eq_div_mult [symmetric])
  finally show "k * P \<le> x" .
qed

text \<open>
  (C19) Every wait is settled by exactly one party. In every reachable state each armed wait is in exactly one place: still
  live in the heap, taken by the timer thread and about to be delivered, taken by a cancel and about to be delivered,
  submitted to the scheduler, or dropped by a shutdown; none is submitted twice. What the timer thread submits is due. The
  count of external waits is the number of live and in-flight waits at every moment, so the deadlock net never sees
  a wait that is neither queued nor counted; and the destructor's \<^verbatim>\<open>timer_delivered\<close> flag is set exactly for those whose body runs.
\<close>

theorem timer_settles_once:
  assumes "timer_reach s"
  shows "distinct (live_blocks (ts_t s) @ firing (ts_t s) @ ts_cancelling s @ map fst (ts_submitted s) @ ts_dropped s)
    \<and> set (ts_armed s) = set (live_blocks (ts_t s) @ firing (ts_t s) @ ts_cancelling s @ map fst (ts_submitted s) @ ts_dropped s)
    \<and> (\<forall>b. (b, True) \<in> set (ts_submitted s) \<longrightarrow> ts_deadline s b \<le> ts_now s)
    \<and> ti_external (ts_t s) = ti_live (ts_t s) + int (length (firing (ts_t s)) + length (ts_cancelling s))
    \<and> (\<forall>b. ti_delivered (ts_t s) b \<longleftrightarrow> b \<in> set (firing (ts_t s) @ ts_cancelling s @ map fst (ts_submitted s)))"
proof -
  let ?all = "live_blocks (ts_t s) @ firing (ts_t s) @ ts_cancelling s @ map fst (ts_submitted s) @ ts_dropped s"
  note W = timer_inv_parts(2) [OF timer_reach_inv [OF assms], unfolded waits_ok_def]
    and D = timer_inv_parts(3) [OF timer_reach_inv [OF assms], unfolded due_ok_def]
  have m: "mset (ts_armed s) = mset ?all" using W by (simp add: ac_simps)
  then have "distinct ?all" "set (ts_armed s) = set ?all"
    using W mset_eq_imp_distinct_iff [OF m] mset_eq_setD [OF m] by blast+
  with W D show ?thesis by auto
qed

text \<open>
  The timer never oversleeps. Whenever the timer thread is parked, a wake call is on its way, or no shutdown is
  pending and it will time out no later than the earliest deadline in the heap. And each time it looks, it takes
  exactly the waits that are due, in the order of their deadlines and, among equal deadlines, of their arming.
\<close>

theorem timer_never_oversleeps:
  assumes "timer_reach s"
  shows "(\<forall>od. ti_thread (ts_t s) = Some (T_parked od) \<longrightarrow> ts_wakes s = 0 \<longrightarrow> \<not> ti_stopping (ts_t s)
      \<and> (\<forall>e \<in> set (ti_heap (ts_t s)). \<exists>d. od = Some d \<and> d \<le> te_deadline e))
    \<and> pop_due now (ti_heap (ts_t s)) = (filter (\<lambda>e. te_deadline e \<le> now) (ti_heap (ts_t s)), filter (\<lambda>e. now < te_deadline e) (ti_heap (ts_t s)))
    \<and> sorted_wrt (\<lambda>a b. \<not> later a b) (fst (pop_due now (ti_heap (ts_t s))))"
proof -
  note H = timer_inv_parts(1) [OF timer_reach_inv [OF assms], unfolded heap_ok_def]
    and K = timer_inv_parts(4) [OF timer_reach_inv [OF assms], unfolded park_ok_def]
  have srt: "sorted (map heap_key (ti_heap (ts_t s)))" using H by blast
  have first: "te_deadline (hd (ti_heap (ts_t s))) \<le> te_deadline e" if "e \<in> set (ti_heap (ts_t s))" for e
    using srt that by (cases "ti_heap (ts_t s)") (auto simp: heap_key_def)
  have pd: "pop_due now (ti_heap (ts_t s)) = (filter (\<lambda>e. te_deadline e \<le> now) (ti_heap (ts_t s)), filter (\<lambda>e. now < te_deadline e) (ti_heap (ts_t s)))"
    using takeWhile_sorted_filter [OF srt] by (simp add: pop_due_split)
  have "sorted (map heap_key (filter (\<lambda>e. te_deadline e \<le> now) (ti_heap (ts_t s))))" by (rule sorted_filter [OF srt])
  then have "sorted_wrt (\<lambda>a b. \<not> later a b) (filter (\<lambda>e. te_deadline e \<le> now) (ti_heap (ts_t s)))"
    by (simp add: later_heap_key sorted_map not_less)
  moreover have "\<exists>d. od = Some d \<and> d \<le> te_deadline e"
    if "ti_thread (ts_t s) = Some (T_parked od)" "ts_wakes s = 0" "e \<in> set (ti_heap (ts_t s))" for od e
    using K that first [OF that(3)] by (cases "ti_heap (ts_t s)") (auto intro: order.trans)
  ultimately show ?thesis using K pd by auto
qed

text \<open>
  A tick reports exactly the grid points that have passed. When the deadline of a \<^verbatim>\<open>Periodic\<close> has
  passed and the token is not requested, \<^verbatim>\<open>advance\<close> returns the number of grid points from the
  pending one up to now, and leaves the first grid point after now pending: the grid never drifts, however late the delivery.
  With the token requested it returns 0 and leaves the grid alone. (The count is bounded by the 32-bit result.)
\<close>

theorem periodic_counts_grid_points:
  assumes "0 < pd_period p" "pd_next p \<le> now" "(now - pd_next p) div pd_period p < 2 ^ 31 - 1"
  shows "snd (periodic_advance False now p) = int (card {k::nat. pd_next p + int k * pd_period p \<le> now})
    \<and> (\<exists>k::nat. pd_next (fst (periodic_advance False now p)) = pd_next p + int k * pd_period p)
    \<and> now < pd_next (fst (periodic_advance False now p))
    \<and> pd_next (fst (periodic_advance False now p)) - pd_period p \<le> now
    \<and> periodic_advance True now p = (p, 0)"
proof -
  let ?q = "(now - pd_next p) div pd_period p" and ?P = "pd_period p"
  have q: "0 \<le> ?q" using assms by (simp add: pos_imp_zdiv_nonneg_iff)
  have s: "(now - pd_next p) sdiv ?P = ?q" using assms by (auto simp: signed_divide_int_def sgn_if)
  have w: "wrap_int ?q = ?q" using assms q by (intro wrap_int_id) auto
  have adv: "periodic_advance False now p = (p\<lparr>pd_next := pd_next p + ?P * (1 + ?q)\<rparr>, 1 + ?q)"
    by (simp add: periodic_advance_def s w Let_def)
  have "{k::nat. pd_next p + int k * ?P \<le> now} = {..nat ?q}"
  proof (intro set_eqI)
    fix k :: nat
    have "pd_next p + int k * ?P \<le> now \<longleftrightarrow> int k * ?P \<le> now - pd_next p" by linarith
    also have "\<dots> \<longleftrightarrow> int k \<le> ?q" by (rule le_div_grid [OF assms(1)])
    finally show "k \<in> {k::nat. pd_next p + int k * ?P \<le> now} \<longleftrightarrow> k \<in> {..nat ?q}" using q by (simp add: nat_le_iff le_nat_iff)
  qed
  then have c: "int (card {k::nat. pd_next p + int k * ?P \<le> now}) = 1 + ?q" using q by simp
  have "now - pd_next p = ?P * ?q + (now - pd_next p) mod ?P" "(now - pd_next p) mod ?P < ?P" "0 \<le> (now - pd_next p) mod ?P"
    using assms(1) by simp_all
  then have "now < pd_next p + ?P * (1 + ?q)" "pd_next p + ?P * (1 + ?q) - ?P \<le> now"
    unfolding distrib_left mult_1_right by linarith+
  moreover have "\<exists>k::nat. pd_next p + ?P * (1 + ?q) = pd_next p + int k * ?P"
    using q by (intro exI [of _ "nat (1 + ?q)"]) (simp add: algebra_simps)
  ultimately show ?thesis using c by (simp add: adv) (simp add: periodic_advance_def)
qed

text \<open>
  Shutting the timer down. With the check on, shutdown reports the misuse exactly when the thread runs and some wait is
  still live; otherwise it drops every live wait, releases their external-wait counts and leaves the heap empty. A sleep
  without workers is refused, and one whose deadline has passed or whose token is requested settles in the call.
\<close>

theorem timer_shutdown_exact:
  assumes "timer_reach s"
  shows "(timer_shutdown chk (ts_t s) = Inl Timer_still_armed \<longleftrightarrow> ti_thread (ts_t s) \<noteq> None \<and> chk \<and> live_blocks (ts_t s) \<noteq> [])
    \<and> (\<forall>t. timer_shutdown chk (ts_t s) = Inr (t, True) \<longrightarrow> ti_heap t = [] \<and> ti_live t = 0 \<and> ti_stopping t
         \<and> (\<forall>b. \<not> ti_is_live t b) \<and> ti_external t = int (length (firing (ts_t s)) + length (ts_cancelling s)))
    \<and> (sleep_until single requested now deadline = Inl Timer_no_workers \<longleftrightarrow> single)
    \<and> (sleep_until single requested now deadline = Inr To_arm \<longleftrightarrow> \<not> single \<and> \<not> requested \<and> now < deadline)"
proof (intro conjI allI impI)
  note W = timer_inv_parts(2) [OF timer_reach_inv [OF assms], unfolded waits_ok_def]
    and H = timer_inv_parts(1) [OF timer_reach_inv [OF assms], unfolded heap_ok_def]
  show "timer_shutdown chk (ts_t s) = Inl Timer_still_armed \<longleftrightarrow> ti_thread (ts_t s) \<noteq> None \<and> chk \<and> live_blocks (ts_t s) \<noteq> []"
    using W by (auto simp: timer_shutdown_def Let_def)
  show "sleep_until single requested now deadline = Inl Timer_no_workers \<longleftrightarrow> single"
    "sleep_until single requested now deadline = Inr To_arm \<longleftrightarrow> \<not> single \<and> \<not> requested \<and> now < deadline"
    by (auto simp: sleep_until_def)
  fix t assume sh: "timer_shutdown chk (ts_t s) = Inr (t, True)"
  have dist: "distinct (map te_block (ti_heap (ts_t s)))" using H by (simp add: heap_blocks_def)
  have eq: "t = (fold drop_entry (ti_heap (ts_t s)) ((ts_t s)\<lparr>ti_stopping := True\<rparr>))\<lparr>ti_heap := [], ti_live := 0\<rparr>"
    using sh by (auto simp: timer_shutdown_def Let_def split: if_splits)
  note E = drop_entries_effect [OF dist, of "(ts_t s)\<lparr>ti_stopping := True\<rparr>"]
  show "ti_heap t = []" "ti_live t = 0" "ti_stopping t" using E by (simp_all add: eq)
  show "\<not> ti_is_live t b" for b using E H by (auto simp: eq heap_blocks_def)
  show "ti_external t = int (length (firing (ts_t s)) + length (ts_cancelling s))"
    using E W by (simp add: eq live_blocks_def heap_blocks_def)
qed

section \<open>A concrete run\<close>

text \<open>Two sleeps are armed, the thread fires the first one and a cancel takes the second.\<close>

definition armed_two :: timer_sys where
  "armed_two = \<lparr>ts_t = fst (arm 20 2 (fst (arm 10 1 timer_new))), ts_now = 0, ts_wakes = 1, ts_cancelling = [], ts_joining = False,
     ts_deadline = (\<lambda>_. 0)(1 := 10, 2 := 20), ts_armed = [1, 2], ts_submitted = [], ts_dropped = []\<rparr>"

definition fired_one :: timer_sys where
  "fired_one = armed_two\<lparr>ts_t := run_once 12 13 (ts_t armed_two), ts_now := 13\<rparr>"

lemma armed_two_reach: "timer_reach armed_two"
proof -
  let ?s = "(timer_sys_new 0)\<lparr>ts_t := fst (arm 10 1 timer_new), ts_wakes := 1, ts_deadline := (\<lambda>_. 0)(1 := 10), ts_armed := [1]\<rparr>"
  have "timer_step (timer_sys_new 0) ?s"
    using tk_arm [of 1 "timer_sys_new 0" 10 "fst (arm 10 1 timer_new)" True]
    by (simp add: timer_sys_new_def arm_def timer_new_def)
  then have s: "timer_reach ?s" by (rule timer_next [OF timer_start])
  have "timer_step ?s armed_two"
    using tk_arm [of 2 ?s 20 "fst (arm 20 2 (fst (arm 10 1 timer_new)))" False]
    by (simp add: timer_sys_new_def arm_def timer_new_def armed_two_def push_heap_def heap_key_def)
  with s show ?thesis by (rule timer_next)
qed

lemma fired_one_reach: "timer_reach fired_one"
proof -
  have "timer_step armed_two (armed_two\<lparr>ts_now := 12\<rparr>)" by (rule tk_time) (simp add: armed_two_def)
  from timer_next [OF armed_two_reach this] have "timer_reach (armed_two\<lparr>ts_now := 12\<rparr>)" .
  moreover have "timer_step (armed_two\<lparr>ts_now := 12\<rparr>) fired_one"
    using tk_run [of "armed_two\<lparr>ts_now := 12\<rparr>" 13] by (simp add: fired_one_def armed_two_def arm_def timer_new_def)
  ultimately show ?thesis by (rule timer_next)
qed

lemmas timer_demo = fired_one_def armed_two_def run_once_def arm_def timer_new_def push_heap_def heap_key_def firing_def live_blocks_def heap_blocks_def take_wait_def

theorem timer_settles_once_witness: "distinct (live_blocks (ts_t fired_one) @ firing (ts_t fired_one)) \<and> firing (ts_t fired_one) = [1]
    \<and> live_blocks (ts_t fired_one) = [2] \<and> ti_external (ts_t fired_one) = 2"
  using timer_settles_once [OF fired_one_reach] by (simp add: timer_demo)

theorem timer_never_oversleeps_witness: "fst (pop_due 15 (ti_heap (ts_t armed_two))) = filter (\<lambda>e. te_deadline e \<le> 15) (ti_heap (ts_t armed_two))"
  using timer_never_oversleeps [OF armed_two_reach, of 15] by simp

theorem periodic_counts_grid_points_witness:
  "snd (periodic_advance False 35 \<lparr>pd_period = 10, pd_next = 10\<rparr>) = int (card {k::nat. 10 + int k * 10 \<le> 35})"
  using periodic_counts_grid_points [of "\<lparr>pd_period = 10, pd_next = 10\<rparr>" 35] by simp

theorem timer_shutdown_exact_witness: "timer_shutdown True (ts_t armed_two) = Inl Timer_still_armed"
  using timer_shutdown_exact [OF armed_two_reach, of True] by (simp add: timer_demo)
end
