(* ===== verification/Cancel_Source.thy ===== *)
theory Cancel_Source
  imports Macrame_Prelude
begin

text \<open>
  Cancellation (include/ts/cancellation.h): the shared \<^verbatim>\<open>Cancel_state\<close>, \<^verbatim>\<open>request_cancel\<close> and the constructor and
  destructor of \<^verbatim>\<open>Cancel_callback\<close>. Every critical section of the state's mutex is one action; the invocation of a
  callback runs user code outside the lock, so a thread is a stack of invocations in progress, and
  inside an invocation the thread may itself request, register and destroy. A callback is identified by its address,
  and no two callbacks of a run share one.
\<close>

section \<open>State\<close>

type_synonym thread = nat
type_synonym callback = nat

record cancel_state =
  cn_requested :: bool
  cn_callbacks :: "callback list"
  cn_firing :: "callback option"
  cn_firing_thread :: thread

text \<open>
  What a thread is inside of: an invocation from the loop of \<^verbatim>\<open>request_cancel\<close>, an invocation from a
  constructor, or a destructor waiting for an invocation on another thread.
\<close>

datatype frame = Rq_firing callback | Ct_firing callback | Ds_wait callback

text \<open>The stages of a callback object, with the thread that is constructing, destroying or has destroyed it.\<close>

datatype life = Absent | Building thread | Alive | Dying thread | Gone thread

record cancel_run =
  cx_state :: cancel_state
  cx_stack :: "thread \<Rightarrow> frame list"
  cx_life :: "callback \<Rightarrow> life"
  cx_fired :: "callback list"

definition cancel_state_new :: cancel_state where
  "cancel_state_new = \<lparr>cn_requested = False, cn_callbacks = [], cn_firing = None, cn_firing_thread = 0\<rparr>"

definition cancel_run_new :: cancel_run where
  "cancel_run_new = \<lparr>cx_state = cancel_state_new, cx_stack = (\<lambda>_. []), cx_life = (\<lambda>_. Absent), cx_fired = []\<rparr>"

definition is_cancel_requested :: "cancel_state option \<Rightarrow> bool" where
  "is_cancel_requested token = (case token of None \<Rightarrow> False | Some st \<Rightarrow> cn_requested st)"

section \<open>Operations\<close>

text \<open>
  The head of the loop of \<^verbatim>\<open>request_cancel\<close>, under the lock: take the last registered callback and
  begin its invocation, or return when none is left. The thread's own frame has been popped already.
\<close>

definition request_next :: "thread \<Rightarrow> cancel_run \<Rightarrow> cancel_run" where
  "request_next t s = (let st = cx_state s in
     if cn_callbacks st = [] then s
     else (let cb = last (cn_callbacks st) in
       s\<lparr>cx_state := st\<lparr>cn_callbacks := butlast (cn_callbacks st), cn_firing := Some cb, cn_firing_thread := t\<rparr>,
         cx_stack := (cx_stack s)(t := Rq_firing cb # cx_stack s t),
         cx_fired := cx_fired s @ [cb]\<rparr>))"

definition request_cancel :: "thread \<Rightarrow> cancel_run \<Rightarrow> cancel_run" where
  "request_cancel t s =
     (if cn_requested (cx_state s) then s
      else request_next t (s\<lparr>cx_state := (cx_state s)\<lparr>cn_requested := True\<rparr>\<rparr>))"

text \<open>An invocation from the loop has returned: clear \<^verbatim>\<open>firing\<close>, notify, go round the loop.\<close>

definition request_resume :: "thread \<Rightarrow> cancel_run \<Rightarrow> cancel_run" where
  "request_resume t s = request_next t
     (s\<lparr>cx_state := (cx_state s)\<lparr>cn_firing := None\<rparr>, cx_stack := (cx_stack s)(t := tl (cx_stack s t))\<rparr>)"

definition callback_new :: "thread \<Rightarrow> callback \<Rightarrow> cancel_run \<Rightarrow> cancel_run" where
  "callback_new t cb s = (let st = cx_state s in
     if cn_requested st
     then s\<lparr>cx_stack := (cx_stack s)(t := Ct_firing cb # cx_stack s t), cx_life := (cx_life s)(cb := Building t),
            cx_fired := cx_fired s @ [cb]\<rparr>
     else s\<lparr>cx_state := st\<lparr>cn_callbacks := cn_callbacks st @ [cb]\<rparr>, cx_life := (cx_life s)(cb := Alive)\<rparr>)"

definition callback_new_return :: "thread \<Rightarrow> callback \<Rightarrow> cancel_run \<Rightarrow> cancel_run" where
  "callback_new_return t cb s =
     s\<lparr>cx_stack := (cx_stack s)(t := tl (cx_stack s t)), cx_life := (cx_life s)(cb := Alive)\<rparr>"

definition callback_delete :: "thread \<Rightarrow> callback \<Rightarrow> cancel_run \<Rightarrow> cancel_run" where
  "callback_delete t cb s = (let st = cx_state s in
     if cb \<in> set (cn_callbacks st)
     then s\<lparr>cx_state := st\<lparr>cn_callbacks := remove1 cb (cn_callbacks st)\<rparr>, cx_life := (cx_life s)(cb := Gone t)\<rparr>
     else if cn_firing st = Some cb \<and> cn_firing_thread st \<noteq> t
     then s\<lparr>cx_stack := (cx_stack s)(t := Ds_wait cb # cx_stack s t), cx_life := (cx_life s)(cb := Dying t)\<rparr>
     else s\<lparr>cx_life := (cx_life s)(cb := Gone t)\<rparr>)"

definition callback_delete_wake :: "thread \<Rightarrow> callback \<Rightarrow> cancel_run \<Rightarrow> cancel_run" where
  "callback_delete_wake t cb s =
     s\<lparr>cx_stack := (cx_stack s)(t := tl (cx_stack s t)), cx_life := (cx_life s)(cb := Gone t)\<rparr>"

section \<open>Runs\<close>

text \<open>User code runs outside every call or inside an invocation, not in a waiting destructor.\<close>

definition in_user_code :: "frame list \<Rightarrow> bool" where
  "in_user_code fs = (case fs of Ds_wait _ # _ \<Rightarrow> False | _ \<Rightarrow> True)"

inductive cancel_step :: "cancel_run \<Rightarrow> cancel_run \<Rightarrow> bool" where
  cn_request: "in_user_code (cx_stack s t) \<Longrightarrow> cancel_step s (request_cancel t s)"
| cn_resume: "cx_stack s t = Rq_firing cb # fs \<Longrightarrow> cancel_step s (request_resume t s)"
| cn_new: "in_user_code (cx_stack s t) \<Longrightarrow> cx_life s cb = Absent \<Longrightarrow> cancel_step s (callback_new t cb s)"
| cn_new_return: "cx_stack s t = Ct_firing cb # fs \<Longrightarrow> cancel_step s (callback_new_return t cb s)"
| cn_delete: "in_user_code (cx_stack s t) \<Longrightarrow> cx_life s cb = Alive \<Longrightarrow> cancel_step s (callback_delete t cb s)"
| cn_wake: "cx_stack s t = Ds_wait cb # fs \<Longrightarrow> cn_firing (cx_state s) \<noteq> Some cb \<Longrightarrow>
     cancel_step s (callback_delete_wake t cb s)"

inductive cancel_reach :: "cancel_run \<Rightarrow> bool" where
  cancel_start: "cancel_reach cancel_run_new"
| cancel_next: "cancel_reach s \<Longrightarrow> cancel_step s s' \<Longrightarrow> cancel_reach s'"

section \<open>The invariant\<close>

definition rq_frames :: "frame list \<Rightarrow> frame list" where
  "rq_frames fs = filter (\<lambda>f. case f of Rq_firing _ \<Rightarrow> True | _ \<Rightarrow> False) fs"

definition busy_frames :: "callback \<Rightarrow> frame list \<Rightarrow> frame list" where
  "busy_frames cb fs = filter (\<lambda>f. f = Ct_firing cb \<or> f = Ds_wait cb) fs"

text \<open>The loop's invocation is the only one of its kind, on the thread the state names.\<close>

definition firing_ok :: "cancel_run \<Rightarrow> bool" where
  "firing_ok s \<longleftrightarrow> (\<forall>t. rq_frames (cx_stack s t) =
     (case cn_firing (cx_state s) of Some cb \<Rightarrow> if t = cn_firing_thread (cx_state s) then [Rq_firing cb] else [] | None \<Rightarrow> []))"

text \<open>A callback under construction or destruction is the business of exactly the thread its stage names.\<close>

definition busy_ok :: "cancel_run \<Rightarrow> bool" where
  "busy_ok s \<longleftrightarrow> (\<forall>cb t. busy_frames cb (cx_stack s t) =
     (case cx_life s cb of
        Building u \<Rightarrow> if t = u then [Ct_firing cb] else []
      | Dying u \<Rightarrow> if t = u then [Ds_wait cb] else []
      | _ \<Rightarrow> []))"

definition firing_life :: "cancel_run \<Rightarrow> bool" where
  "firing_life s \<longleftrightarrow> (\<forall>cb. cn_firing (cx_state s) = Some cb \<longrightarrow> cb \<in> set (cx_fired s)
     \<and> (case cx_life s cb of Alive \<Rightarrow> True | Dying u \<Rightarrow> u \<noteq> cn_firing_thread (cx_state s)
          | Gone u \<Rightarrow> u = cn_firing_thread (cx_state s) | _ \<Rightarrow> False))"

definition constructed :: "life \<Rightarrow> bool" where
  "constructed l = (case l of Absent \<Rightarrow> False | Gone _ \<Rightarrow> False | _ \<Rightarrow> True)"

lemma constructed_simps [simp]:
  "\<not> constructed Absent" "constructed (Building t)" "constructed Alive" "constructed (Dying t)" "\<not> constructed (Gone t)"
  by (simp_all add: constructed_def)

definition lists_ok :: "cancel_run \<Rightarrow> bool" where
  "lists_ok s \<longleftrightarrow> distinct (cx_fired s @ cn_callbacks (cx_state s))
     \<and> (\<forall>cb \<in> set (cn_callbacks (cx_state s)). cx_life s cb = Alive)
     \<and> (\<forall>cb. constructed (cx_life s cb) \<longrightarrow> cb \<in> set (cx_fired s) \<or> cb \<in> set (cn_callbacks (cx_state s)))
     \<and> (\<forall>cb \<in> set (cx_fired s). cx_life s cb \<noteq> Absent)"

definition request_ok :: "cancel_run \<Rightarrow> bool" where
  "request_ok s \<longleftrightarrow> (if cn_requested (cx_state s) then cn_firing (cx_state s) = None \<longrightarrow> cn_callbacks (cx_state s) = []
     else cx_fired s = [] \<and> cn_firing (cx_state s) = None)"

definition cancel_inv :: "cancel_run \<Rightarrow> bool" where
  "cancel_inv s \<longleftrightarrow> firing_ok s \<and> busy_ok s \<and> firing_life s \<and> lists_ok s \<and> request_ok s"

lemma rq_frames_simps [simp]:
  "rq_frames [] = []" "rq_frames (Rq_firing cb # fs) = Rq_firing cb # rq_frames fs"
  "rq_frames (Ct_firing cb # fs) = rq_frames fs" "rq_frames (Ds_wait cb # fs) = rq_frames fs"
  by (simp_all add: rq_frames_def)

lemma busy_frames_simps [simp]:
  "busy_frames c [] = []" "busy_frames c (Rq_firing cb # fs) = busy_frames c fs"
  "busy_frames c (Ct_firing cb # fs) = (if c = cb then Ct_firing cb # busy_frames c fs else busy_frames c fs)"
  "busy_frames c (Ds_wait cb # fs) = (if c = cb then Ds_wait cb # busy_frames c fs else busy_frames c fs)"
  by (auto simp: busy_frames_def)

text \<open>Going round the loop: nothing fires when it starts.\<close>

lemma request_next_inv:
  assumes "firing_ok s" "busy_ok s" "lists_ok s" "cn_requested (cx_state s)" "cn_firing (cx_state s) = None"
  shows "cancel_inv (request_next t s)"
proof (cases "cn_callbacks (cx_state s) = []")
  case True
  with assms show ?thesis by (simp add: request_next_def cancel_inv_def firing_life_def request_ok_def)
next
  case False
  then obtain ys cb where cs: "cn_callbacks (cx_state s) = ys @ [cb]" by (meson rev_exhaust)
  then have alive: "cx_life s cb = Alive" using assms(3) by (simp add: lists_ok_def)
  have "firing_ok (request_next t s)" using assms(1,5) cs by (simp add: request_next_def firing_ok_def Let_def)
  moreover have "busy_ok (request_next t s)" using assms(2) cs by (simp add: request_next_def busy_ok_def Let_def)
  moreover have "lists_ok (request_next t s)" using assms(3) cs alive by (auto simp: request_next_def lists_ok_def Let_def)
  ultimately show ?thesis using cs assms(4) alive
    by (simp add: cancel_inv_def firing_life_def request_ok_def request_next_def Let_def)
qed

lemma cancel_inv_parts:
  assumes "cancel_inv s"
  shows "firing_ok s" "busy_ok s" "firing_life s" "lists_ok s" "request_ok s"
  using assms by (simp_all add: cancel_inv_def)

lemma busy_frames_at: "busy_ok s \<Longrightarrow> busy_frames cb (cx_stack s t) =
     (case cx_life s cb of Building u \<Rightarrow> if t = u then [Ct_firing cb] else [] | Dying u \<Rightarrow> if t = u then [Ds_wait cb] else [] | _ \<Rightarrow> [])"
  by (simp add: busy_ok_def)

lemma firing_frames_at: "firing_ok s \<Longrightarrow> rq_frames (cx_stack s t) =
     (case cn_firing (cx_state s) of Some cb \<Rightarrow> if t = cn_firing_thread (cx_state s) then [Rq_firing cb] else [] | None \<Rightarrow> [])"
  by (simp add: firing_ok_def)

lemma cancel_inv_step:
  assumes "cancel_step s s'" and inv: "cancel_inv s"
  shows "cancel_inv s'"
  using assms(1)
proof cases
  case (cn_request t)
  show ?thesis
  proof (cases "cn_requested (cx_state s)")
    case False
    then have "cn_firing (cx_state s) = None" using inv by (simp add: cancel_inv_def request_ok_def)
    with False have "cancel_inv (request_next t (s\<lparr>cx_state := (cx_state s)\<lparr>cn_requested := True\<rparr>\<rparr>))"
      using cancel_inv_parts [OF inv] by (intro request_next_inv) (simp_all add: firing_ok_def busy_ok_def lists_ok_def)
    then show ?thesis using False cn_request(1) by (simp add: request_cancel_def)
  qed (use inv cn_request in \<open>simp add: request_cancel_def\<close>)
next
  case (cn_resume t cb fs)
  have "cn_firing (cx_state s) = Some cb \<and> cn_firing_thread (cx_state s) = t \<and> rq_frames fs = []"
    using firing_frames_at [OF cancel_inv_parts(1) [OF inv], of t] cn_resume(2) by (auto split: option.splits if_splits)
  moreover have "cn_requested (cx_state s)" using inv calculation by (auto simp: cancel_inv_def request_ok_def split: if_splits)
  moreover have "busy_frames c fs = (case cx_life s c of Building u \<Rightarrow> if t = u then [Ct_firing c] else []
      | Dying u \<Rightarrow> if t = u then [Ds_wait c] else [] | _ \<Rightarrow> [])" for c
    using busy_frames_at [OF cancel_inv_parts(2) [OF inv], of c t] cn_resume(2) by simp
  ultimately show ?thesis unfolding cn_resume(1) request_resume_def using cancel_inv_parts [OF inv] cn_resume(2)
    by (intro request_next_inv) (auto simp: firing_ok_def busy_ok_def lists_ok_def split: if_splits)
next
  case (cn_new t cb)
  note P = cancel_inv_parts [OF inv]
  have fresh: "cb \<notin> set (cx_fired s)" "cb \<notin> set (cn_callbacks (cx_state s))" "cn_firing (cx_state s) \<noteq> Some cb"
    using P(3,4) cn_new(3) by (auto simp: lists_ok_def firing_life_def)
  have none: "busy_frames cb (cx_stack s u) = []" for u using busy_frames_at [OF P(2)] cn_new(3) by simp
  show ?thesis
  proof (cases "cn_requested (cx_state s)")
    case True
    then have s': "s' = s\<lparr>cx_stack := (cx_stack s)(t := Ct_firing cb # cx_stack s t), cx_life := (cx_life s)(cb := Building t),
            cx_fired := cx_fired s @ [cb]\<rparr>" using cn_new(1) by (simp add: callback_new_def)
    have "firing_ok s'" using P(1) by (simp add: s' firing_ok_def cong: option.case_cong)
    moreover have "busy_ok s'" using P(2) none by (auto simp: s' busy_ok_def)
    moreover have "firing_life s'" using P(3) fresh by (auto simp: s' firing_life_def cong: life.case_cong)
    moreover have "lists_ok s'" using P(4) fresh by (auto simp: s' lists_ok_def constructed_def)
    ultimately show ?thesis using P(5) True by (simp add: s' cancel_inv_def request_ok_def)
  next
    case False
    then have s': "s' = s\<lparr>cx_state := (cx_state s)\<lparr>cn_callbacks := cn_callbacks (cx_state s) @ [cb]\<rparr>, cx_life := (cx_life s)(cb := Alive)\<rparr>"
      using cn_new(1) by (simp add: callback_new_def Let_def)
    have "firing_ok s'" using P(1) by (simp add: s' firing_ok_def cong: option.case_cong)
    moreover have "busy_ok s'" using P(2) none by (auto simp: s' busy_ok_def)
    moreover have "firing_life s'" using P(3) fresh by (auto simp: s' firing_life_def cong: life.case_cong)
    moreover have "lists_ok s'" using P(4) fresh by (auto simp: s' lists_ok_def constructed_def)
    ultimately show ?thesis using P(5) False by (simp add: s' cancel_inv_def request_ok_def)
  qed
next
  case (cn_new_return t cb fs)
  note P = cancel_inv_parts [OF inv]
  have life: "cx_life s cb = Building t" "busy_frames cb fs = []"
    using busy_frames_at [OF P(2), of cb t] cn_new_return(2) by (auto split: life.splits if_splits)
  have none: "busy_frames cb (cx_stack s u) = []" if "u \<noteq> t" for u using busy_frames_at [OF P(2), of cb u] life that by simp
  have s': "s' = s\<lparr>cx_stack := (cx_stack s)(t := fs), cx_life := (cx_life s)(cb := Alive)\<rparr>"
    using cn_new_return by (simp add: callback_new_return_def)
  have "firing_ok s'" using P(1) firing_frames_at [OF P(1), of t] cn_new_return(2) by (simp add: s' firing_ok_def cong: option.case_cong)
  moreover have "busy_frames c fs = (case cx_life s c of Building u \<Rightarrow> if t = u then [Ct_firing c] else []
      | Dying u \<Rightarrow> if t = u then [Ds_wait c] else [] | _ \<Rightarrow> [])" if "c \<noteq> cb" for c
    using busy_frames_at [OF P(2), of c t] cn_new_return(2) that by simp
  then have "busy_ok s'" using P(2) none life(2) by (auto simp: s' busy_ok_def)
  moreover have "firing_life s'" using P(3) by (auto simp: s' firing_life_def cong: life.case_cong)
  moreover have "lists_ok s'" using P(4) life by (auto simp: s' lists_ok_def constructed_def)
  ultimately show ?thesis using P(5) by (simp add: s' cancel_inv_def request_ok_def)
next
  case (cn_delete t cb)
  note P = cancel_inv_parts [OF inv]
  have none: "busy_frames cb (cx_stack s u) = []" for u using busy_frames_at [OF P(2)] cn_delete(3) by simp
  consider (registered) "cb \<in> set (cn_callbacks (cx_state s))"
    | (wait) "cb \<notin> set (cn_callbacks (cx_state s))" "cn_firing (cx_state s) = Some cb" "cn_firing_thread (cx_state s) \<noteq> t"
    | (done_with) "cb \<notin> set (cn_callbacks (cx_state s))" "cn_firing (cx_state s) = Some cb \<longrightarrow> cn_firing_thread (cx_state s) = t"
    by blast
  then show ?thesis
  proof cases
    case registered
    then have s': "s' = s\<lparr>cx_state := (cx_state s)\<lparr>cn_callbacks := remove1 cb (cn_callbacks (cx_state s))\<rparr>, cx_life := (cx_life s)(cb := Gone t)\<rparr>"
      using cn_delete(1) by (simp add: callback_delete_def Let_def)
    have nf: "cb \<notin> set (cx_fired s)" using P(4) registered by (auto simp: lists_ok_def)
    have "firing_ok s'" using P(1) by (simp add: s' firing_ok_def cong: option.case_cong)
    moreover have "busy_ok s'" using P(2) none by (auto simp: s' busy_ok_def)
    moreover have "firing_life s'" using P(3) nf by (auto simp: s' firing_life_def cong: life.case_cong)
    moreover have "lists_ok s'" using P(4) nf by (auto simp: s' lists_ok_def constructed_def set_remove1_eq)
    ultimately show ?thesis using P(5) by (auto simp: s' cancel_inv_def request_ok_def)
  next
    case wait
    then have s': "s' = s\<lparr>cx_stack := (cx_stack s)(t := Ds_wait cb # cx_stack s t), cx_life := (cx_life s)(cb := Dying t)\<rparr>"
      using cn_delete(1) by (simp add: callback_delete_def Let_def)
    have "firing_ok s'" using P(1) by (simp add: s' firing_ok_def cong: option.case_cong)
    moreover have "busy_ok s'" using P(2) none by (auto simp: s' busy_ok_def)
    moreover have "firing_life s'" using P(3) wait by (auto simp: s' firing_life_def cong: life.case_cong)
    moreover have "lists_ok s'" using P(4) wait P(3) by (auto simp: s' lists_ok_def constructed_def firing_life_def)
    ultimately show ?thesis using P(5) by (simp add: s' cancel_inv_def request_ok_def)
  next
    case done_with
    then have s': "s' = s\<lparr>cx_life := (cx_life s)(cb := Gone t)\<rparr>"
      using cn_delete(1) by (auto simp: callback_delete_def Let_def)
    have "firing_ok s'" using P(1) by (simp add: s' firing_ok_def cong: option.case_cong)
    moreover have "busy_ok s'" using P(2) none by (auto simp: s' busy_ok_def)
    moreover have "firing_life s'" using P(3) done_with by (auto simp: s' firing_life_def cong: life.case_cong)
    moreover have "lists_ok s'" using P(4) done_with by (auto simp: s' lists_ok_def constructed_def)
    ultimately show ?thesis using P(5) by (simp add: s' cancel_inv_def request_ok_def)
  qed
next
  case (cn_wake t cb fs)
  note P = cancel_inv_parts [OF inv]
  have life: "cx_life s cb = Dying t" "busy_frames cb fs = []"
    using busy_frames_at [OF P(2), of cb t] cn_wake(2) by (auto split: life.splits if_splits)
  have none: "busy_frames cb (cx_stack s u) = []" if "u \<noteq> t" for u using busy_frames_at [OF P(2), of cb u] life that by simp
  have s': "s' = s\<lparr>cx_stack := (cx_stack s)(t := fs), cx_life := (cx_life s)(cb := Gone t)\<rparr>"
    using cn_wake by (simp add: callback_delete_wake_def)
  have "firing_ok s'" using P(1) firing_frames_at [OF P(1), of t] cn_wake(2) by (simp add: s' firing_ok_def cong: option.case_cong)
  moreover have "busy_frames c fs = (case cx_life s c of Building u \<Rightarrow> if t = u then [Ct_firing c] else []
      | Dying u \<Rightarrow> if t = u then [Ds_wait c] else [] | _ \<Rightarrow> [])" if "c \<noteq> cb" for c
    using busy_frames_at [OF P(2), of c t] cn_wake(2) that by simp
  then have "busy_ok s'" using P(2) none life(2) by (auto simp: s' busy_ok_def)
  moreover have "firing_life s'" using P(3) cn_wake(3) by (auto simp: s' firing_life_def cong: life.case_cong)
  moreover have "lists_ok s'" using P(4) life by (auto simp: s' lists_ok_def constructed_def)
  ultimately show ?thesis using P(5) by (simp add: s' cancel_inv_def request_ok_def)
qed

lemma cancel_reach_inv: "cancel_reach s \<Longrightarrow> cancel_inv s"
proof (induction rule: cancel_reach.induct)
  case cancel_start
  show ?case by (simp add: cancel_inv_def cancel_run_new_def cancel_state_new_def firing_ok_def busy_ok_def
      firing_life_def lists_ok_def request_ok_def constructed_def)
qed (rule cancel_inv_step)


text \<open>The one thread that ever runs the loop never waits in a destructor.\<close>

definition wait_ok :: "cancel_run \<Rightarrow> bool" where
  "wait_ok s \<longleftrightarrow> (\<forall>cb u. cx_life s cb = Dying u \<longrightarrow> u \<noteq> cn_firing_thread (cx_state s))"

lemma request_next_thread:
  "cn_firing_thread (cx_state (request_next t s)) = cn_firing_thread (cx_state s) \<or> cn_firing_thread (cx_state (request_next t s)) = t"
  "cx_life (request_next t s) = cx_life s"
  by (simp_all add: request_next_def Let_def)

lemma wait_ok_step:
  assumes "cancel_step s s'" and inv: "cancel_inv s" and w: "wait_ok s"
  shows "wait_ok s'"
  using assms(1)
proof cases
  case (cn_request t)
  show ?thesis
  proof (cases "cn_requested (cx_state s)")
    case False
    have "constructed (cx_life s cb) \<longrightarrow> cx_life s cb = Alive" for cb
      using False cancel_inv_parts(4,5) [OF inv] by (auto simp: lists_ok_def request_ok_def)
    then have "cx_life s cb \<noteq> Dying u" for cb u using constructed_simps(4) [of u] life.distinct by metis
    then show ?thesis using False cn_request(1) by (simp add: wait_ok_def request_cancel_def request_next_thread)
  qed (use w cn_request in \<open>simp add: request_cancel_def\<close>)
next
  case (cn_resume t cb fs)
  have "cn_firing_thread (cx_state s) = t"
    using firing_frames_at [OF cancel_inv_parts(1) [OF inv], of t] cn_resume(2) by (auto split: option.splits if_splits)
  then show ?thesis using w request_next_thread(1) [of t "s\<lparr>cx_state := (cx_state s)\<lparr>cn_firing := None\<rparr>, cx_stack := (cx_stack s)(t := tl (cx_stack s t))\<rparr>"]
    unfolding cn_resume(1) wait_ok_def request_resume_def request_next_thread(2) by auto
next
  case (cn_new t cb)
  then show ?thesis using w by (auto simp: wait_ok_def callback_new_def Let_def)
next
  case (cn_new_return t cb fs)
  then show ?thesis using w by (auto simp: wait_ok_def callback_new_return_def)
next
  case (cn_delete t cb)
  then show ?thesis using w by (auto simp: wait_ok_def callback_delete_def Let_def)
next
  case (cn_wake t cb fs)
  then show ?thesis using w by (auto simp: wait_ok_def callback_delete_wake_def)
qed

lemma cancel_reach_wait: "cancel_reach s \<Longrightarrow> wait_ok s"
proof (induction rule: cancel_reach.induct)
  case cancel_start
  show ?case by (simp add: wait_ok_def cancel_run_new_def)
qed (auto intro: wait_ok_step cancel_reach_inv)

section \<open>Properties\<close>

text \<open>
  (C20) A callback is invoked at most once, only after a request, and never missed. In every reachable state no callback
  has been invoked twice and none before the request; once cancellation was requested and the requesting thread
  is not inside one of its invocations, the registration list is empty and every callback that exists, whenever
  it was registered, has been invoked or is being invoked by its constructor.
\<close>

theorem cancel_fires_once:
  assumes "cancel_reach s"
  shows "distinct (cx_fired s) \<and> (cx_fired s \<noteq> [] \<longrightarrow> cn_requested (cx_state s))
    \<and> (cn_requested (cx_state s) \<longrightarrow> (\<forall>t cb. Rq_firing cb \<notin> set (cx_stack s t)) \<longrightarrow>
         cn_callbacks (cx_state s) = [] \<and> (\<forall>cb. constructed (cx_life s cb) \<longrightarrow> cb \<in> set (cx_fired s)))"
proof -
  note P = cancel_inv_parts [OF cancel_reach_inv [OF assms]]
  have "cn_callbacks (cx_state s) = []" if "cn_requested (cx_state s)" "\<forall>t cb. Rq_firing cb \<notin> set (cx_stack s t)"
  proof -
    have "rq_frames (cx_stack s t) = []" for t using that(2) by (auto simp: rq_frames_def filter_empty_conv split: frame.splits)
    then have "cn_firing (cx_state s) = None" using firing_frames_at [OF P(1), of "cn_firing_thread (cx_state s)"] by (auto split: option.splits)
    then show ?thesis using P(5) that(1) by (simp add: request_ok_def)
  qed
  with P(4,5) show ?thesis by (auto simp: lists_ok_def request_ok_def split: if_splits)
qed

text \<open>
  Destroying a callback is safe against its invocation. While the loop invokes a callback, the
  object still exists (its destructor may be waiting on another thread) or was destroyed from inside that very
  invocation, by the invoking thread. A destructor that waits does so for an invocation on another thread, and that
  thread is not itself waiting in a destructor: no thread waits for itself and waits do not form a cycle.
\<close>

theorem cancel_destroy_safe:
  assumes "cancel_reach s"
  shows "(\<forall>t cb. Rq_firing cb \<in> set (cx_stack s t) \<longrightarrow> (\<forall>u. cx_life s cb = Gone u \<longrightarrow> u = t) \<and> cx_life s cb \<noteq> Absent)
    \<and> (\<forall>t cb. Ds_wait cb \<in> set (cx_stack s t) \<longrightarrow> cn_firing (cx_state s) = Some cb \<longrightarrow>
         (\<exists>u. u \<noteq> t \<and> Rq_firing cb \<in> set (cx_stack s u) \<and> (\<forall>c. Ds_wait c \<notin> set (cx_stack s u))))"
proof -
  note P = cancel_inv_parts [OF cancel_reach_inv [OF assms]]
  have at: "cn_firing (cx_state s) = Some cb \<and> cn_firing_thread (cx_state s) = t" if "Rq_firing cb \<in> set (cx_stack s t)" for t cb
  proof -
    have "Rq_firing cb \<in> set (rq_frames (cx_stack s t))" using that by (simp add: rq_frames_def)
    then show ?thesis using firing_frames_at [OF P(1), of t] by (auto split: option.splits if_splits)
  qed
  have dying: "cx_life s c = Dying t" if "Ds_wait c \<in> set (cx_stack s t)" for c t
  proof -
    have "Ds_wait c \<in> set (busy_frames c (cx_stack s t))" using that by (simp add: busy_frames_def)
    then show ?thesis using busy_frames_at [OF P(2), of c t] by (auto split: life.splits if_splits)
  qed
  show ?thesis
  proof (intro conjI allI impI)
    fix t cb assume "Rq_firing cb \<in> set (cx_stack s t)"
    from at [OF this] P(3) show "u = t" if "cx_life s cb = Gone u" for u using that by (auto simp: firing_life_def)
    from at [OF \<open>Rq_firing cb \<in> set (cx_stack s t)\<close>] P(3) show "cx_life s cb \<noteq> Absent" by (auto simp: firing_life_def)
  next
    fix t cb assume d: "Ds_wait cb \<in> set (cx_stack s t)" and f: "cn_firing (cx_state s) = Some cb"
    let ?u = "cn_firing_thread (cx_state s)"
    have "?u \<noteq> t" using cancel_reach_wait [OF assms] dying [OF d] by (auto simp: wait_ok_def)
    moreover have "Rq_firing cb \<in> set (cx_stack s ?u)"
      using firing_frames_at [OF P(1), of ?u] f by (auto simp: rq_frames_def dest!: arg_cong [of _ _ set])
    moreover have "Ds_wait c \<notin> set (cx_stack s ?u)" for c using dying [of c ?u] cancel_reach_wait [OF assms] by (auto simp: wait_ok_def)
    ultimately show "\<exists>u. u \<noteq> t \<and> Rq_firing cb \<in> set (cx_stack s u) \<and> (\<forall>c. Ds_wait c \<notin> set (cx_stack s u))" by blast
  qed
qed

section \<open>A concrete run\<close>

text \<open>Thread 0 registers callback 7 and requests; while it fires, thread 1 destroys it and has to wait.\<close>

definition cancel_demo :: cancel_run where
  "cancel_demo = callback_delete 1 7 (request_cancel 0 (callback_new 0 7 cancel_run_new))"

lemma cancel_demo_reach: "cancel_reach cancel_demo"
proof -
  have "cancel_reach (callback_new 0 7 cancel_run_new)"
    by (rule cancel_next [OF cancel_start cn_new]) (simp_all add: cancel_run_new_def in_user_code_def)
  then have "cancel_reach (request_cancel 0 (callback_new 0 7 cancel_run_new))"
    by (rule cancel_next [OF _ cn_request]) (simp add: cancel_run_new_def cancel_state_new_def callback_new_def in_user_code_def)
  then show ?thesis unfolding cancel_demo_def
    by (rule cancel_next [OF _ cn_delete])
       (simp_all add: cancel_run_new_def cancel_state_new_def callback_new_def request_cancel_def request_next_def in_user_code_def)
qed

lemmas cancel_demo_simps = cancel_demo_def cancel_run_new_def cancel_state_new_def callback_new_def request_cancel_def request_next_def callback_delete_def

theorem cancel_fires_once_witness: "distinct (cx_fired cancel_demo) \<and> cx_fired cancel_demo = [7] \<and> cn_requested (cx_state cancel_demo)"
  using cancel_fires_once [OF cancel_demo_reach] by (simp add: cancel_demo_simps)

theorem cancel_destroy_safe_witness: "\<exists>u. u \<noteq> 1 \<and> Rq_firing 7 \<in> set (cx_stack cancel_demo u)"
  using cancel_destroy_safe [OF cancel_demo_reach] by (auto simp: cancel_demo_simps)

end
