(* ===== verification/Circular_Wait.thy ===== *)
theory Circular_Wait
  imports Access_Context
begin

text \<open>
  The circular-wait detector (src/guarded.cpp): one process-wide registry of edges from a held pipe to an
  awaited pipe, recorded when a coroutine suspends on a pipe while it holds grants and cleared when it
  resumes. Recording checks, under the registry mutex, whether the new edge closes a cycle. The text of
  the report is not modelled; the edge it names is.
\<close>

section \<open>State and operations\<close>

record wait_edge =
  we_held :: pipe_id
  we_awaited :: pipe_id
  we_ticket :: addr
  we_waiter :: "block_id option"

text \<open>\<^verbatim>\<open>wait_reaches\<close>: the depth-bounded search along the recorded edges.\<close>

function wait_reaches :: "wait_edge list \<Rightarrow> pipe_id \<Rightarrow> pipe_id \<Rightarrow> int \<Rightarrow> bool" where
  "wait_reaches es from target depth =
     (if from = target then True
      else if depth > 64 then False
      else list_ex (\<lambda>e. we_held e = from \<and> wait_reaches es (we_awaited e) target (depth + 1)) es)"
  by pat_completeness auto
termination
  by (relation "measure (\<lambda>(es, from, target, depth). nat (65 - depth))") auto

declare wait_reaches.simps [simp del]

text \<open>The edge whose task the report names next to the suspending one.\<close>

definition counterpart :: "wait_edge list \<Rightarrow> pipe_id \<Rightarrow> wait_edge option" where
  "counterpart es awaited = find (\<lambda>e. we_held e = awaited) es"

text \<open>
  \<^verbatim>\<open>circular_wait_record\<close>: for every held pipe and, inside, every awaited one, the check and then the
  insertion. The accumulator is the registry with the \<^verbatim>\<open>recorded\<close> flag.
\<close>

fun record_awaited ::
  "addr \<Rightarrow> block_id option \<Rightarrow> pipe_id \<Rightarrow> pipe_id option list \<Rightarrow> wait_edge list \<times> bool \<Rightarrow> (wait_edge list \<times> bool) result"
where
  "record_awaited ticket waiter held [] acc = Inr acc"
| "record_awaited ticket waiter held (None # ps) acc = record_awaited ticket waiter held ps acc"
| "record_awaited ticket waiter held (Some a # ps) (es, recorded) =
     (if wait_reaches es a held 0 then Inl Circular_wait
      else record_awaited ticket waiter held ps
        (es @ [\<lparr>we_held = held, we_awaited = a, we_ticket = ticket, we_waiter = waiter\<rparr>], True))"

fun record_held ::
  "addr \<Rightarrow> block_id option \<Rightarrow> pipe_id list \<Rightarrow> pipe_id option list \<Rightarrow> wait_edge list \<times> bool \<Rightarrow> (wait_edge list \<times> bool) result"
where
  "record_held ticket waiter [] awaited acc = Inr acc"
| "record_held ticket waiter (h # hs) awaited acc =
     (case record_awaited ticket waiter h awaited acc of
        Inl e \<Rightarrow> Inl e
      | Inr acc' \<Rightarrow> record_held ticket waiter hs awaited acc')"

definition circular_wait_record ::
  "access_context option \<Rightarrow> addr \<Rightarrow> block_id option \<Rightarrow> pipe_id option list \<Rightarrow> wait_edge list \<Rightarrow> (wait_edge list \<times> bool) result"
where
  "circular_wait_record held ticket waiter awaited es =
     (case held of
        None \<Rightarrow> Inr (es, False)
      | Some ctx \<Rightarrow>
          if awaited = [] then Inr (es, False)
          else record_held ticket waiter (ctx_epochs ctx) awaited (es, False))"

definition circular_wait_clear :: "addr \<Rightarrow> wait_edge list \<Rightarrow> wait_edge list" where
  "circular_wait_clear ticket es = filter (\<lambda>e. we_ticket e \<noteq> ticket) es"

section \<open>The waits-for relation\<close>

definition waits_for :: "wait_edge list \<Rightarrow> (pipe_id \<times> pipe_id) set" where
  "waits_for es = (\<lambda>e. (we_held e, we_awaited e)) ` set es"

lemma waits_for_simps [simp]:
  "waits_for [] = {}"
  "waits_for (es @ fs) = waits_for es \<union> waits_for fs"
  "waits_for (e # es) = insert (we_held e, we_awaited e) (waits_for es)"
  by (auto simp: waits_for_def)

lemma waits_for_first_edge:
  "(x, y) \<in> waits_for es ^^ Suc n \<longleftrightarrow> (\<exists>e \<in> set es. we_held e = x \<and> (we_awaited e, y) \<in> waits_for es ^^ n)"
proof -
  have "waits_for es ^^ Suc n = waits_for es O waits_for es ^^ n" by (simp add: relpow_commute)
  then show ?thesis by (auto simp: waits_for_def relcomp_unfold)
qed

text \<open>The search finds exactly the chains of at most 65 edges.\<close>

lemma wait_reaches_chain:
  assumes "depth \<le> 65"
  shows "wait_reaches es from target depth \<longleftrightarrow>
    (\<exists>n. int n \<le> 65 - depth \<and> (from, target) \<in> waits_for es ^^ n)"
  using assms
proof (induction es "from" target depth rule: wait_reaches.induct)
  case (1 es "from" target depth)
  show ?case
  proof (cases "from = target")
    case True
    then have "(from, target) \<in> waits_for es ^^ 0" by simp
    moreover have "int 0 \<le> 65 - depth" using "1.prems" by simp
    ultimately have "\<exists>n. int n \<le> 65 - depth \<and> (from, target) \<in> waits_for es ^^ n" by blast
    then show ?thesis using True by (subst wait_reaches.simps) (simp del: relpow.simps)
  next
    case ne: False
    show ?thesis
    proof (cases "depth > 64")
      case True
      have "n = 0" if "int n \<le> 65 - depth" for n using that True by linarith
      then have "\<not> (\<exists>n. int n \<le> 65 - depth \<and> (from, target) \<in> waits_for es ^^ n)" using ne by fastforce
      then show ?thesis using ne True by (subst wait_reaches.simps) simp
    next
      case False
      have IH: "wait_reaches es (we_awaited e) target (depth + 1) \<longleftrightarrow>
          (\<exists>n. int n \<le> 65 - (depth + 1) \<and> (we_awaited e, target) \<in> waits_for es ^^ n)"
        if "e \<in> set es" "we_held e = from" for e
        using "1.IH" [OF ne False that(1)] False by simp
      have "wait_reaches es from target depth \<longleftrightarrow>
          (\<exists>e \<in> set es. we_held e = from \<and>
             (\<exists>n. int n \<le> 65 - (depth + 1) \<and> (we_awaited e, target) \<in> waits_for es ^^ n))"
        using ne False IH by (subst wait_reaches.simps) (auto simp: list_ex_iff)
      also have "\<dots> \<longleftrightarrow> (\<exists>n. int (Suc n) \<le> 65 - depth \<and> (from, target) \<in> waits_for es ^^ Suc n)"
        unfolding waits_for_first_edge by (auto simp: algebra_simps)
      also have "\<dots> \<longleftrightarrow> (\<exists>n. int n \<le> 65 - depth \<and> (from, target) \<in> waits_for es ^^ n)"
        using ne by (metis not0_implies_Suc relpow_0_E)
      finally show ?thesis .
    qed
  qed
qed

section \<open>Short cycles\<close>

definition no_short_cycle :: "(pipe_id \<times> pipe_id) set \<Rightarrow> bool" where
  "no_short_cycle R \<longleftrightarrow> (\<forall>n x. 0 < n \<and> n \<le> 66 \<longrightarrow> (x, x) \<notin> R ^^ n)"

lemma relpow_insert_split:
  "(x, y) \<in> insert (h, a) R ^^ n \<Longrightarrow>
     (x, y) \<in> R ^^ n \<or> (\<exists>i j. i + j < n \<and> (x, h) \<in> R ^^ i \<and> (a, y) \<in> R ^^ j)"
proof (induction n arbitrary: y)
  case (Suc n)
  then obtain z where z: "(x, z) \<in> insert (h, a) R ^^ n" "(z, y) \<in> insert (h, a) R" by auto
  from Suc.IH [OF z(1)] consider "(x, z) \<in> R ^^ n"
    | i j where "i + j < n" "(x, h) \<in> R ^^ i" "(a, z) \<in> R ^^ j" by blast
  then show ?case
  proof cases
    case 1
    show ?thesis
    proof (cases "(z, y) \<in> R")
      case True
      with 1 show ?thesis by auto
    next
      case False
      with z(2) 1 have "(x, h) \<in> R ^^ n" "(a, y) \<in> R ^^ 0" by auto
      then show ?thesis by (metis add_0_right lessI)
    qed
  next
    case 2
    show ?thesis
    proof (cases "(z, y) \<in> R")
      case True
      with 2(3) have "(a, y) \<in> R ^^ Suc j" by auto
      moreover have "i + Suc j < Suc n" using 2(1) by simp
      ultimately show ?thesis using 2(2) by blast
    next
      case False
      with z(2) have "(a, y) \<in> R ^^ 0" by auto
      moreover have "i + 0 < Suc n" using 2(1) by simp
      ultimately show ?thesis using 2(2) by blast
    qed
  qed
qed simp

lemma no_short_cycle_insert:
  assumes "no_short_cycle R" and "\<And>n. n \<le> 65 \<Longrightarrow> (a, h) \<notin> R ^^ n"
  shows "no_short_cycle (insert (h, a) R)"
  unfolding no_short_cycle_def
proof (intro allI impI notI)
  fix n x assume n: "0 < n \<and> n \<le> 66" and cyc: "(x, x) \<in> insert (h, a) R ^^ n"
  have "(x, x) \<notin> R ^^ n" using assms(1) n unfolding no_short_cycle_def by blast
  then obtain i j where ij: "i + j < n" "(x, h) \<in> R ^^ i" "(a, x) \<in> R ^^ j"
    using relpow_insert_split [OF cyc] by blast
  then have "(a, h) \<in> R ^^ (j + i)" by (auto simp: relpow_add)
  moreover have "j + i \<le> 65" using ij(1) n by simp
  ultimately show False using assms(2) by blast
qed

lemma relpow_subset: "(S :: (pipe_id \<times> pipe_id) set) \<subseteq> R \<Longrightarrow> S ^^ n \<subseteq> R ^^ n"
  by (induction n) auto

lemma no_short_cycle_subset: "no_short_cycle R \<Longrightarrow> S \<subseteq> R \<Longrightarrow> no_short_cycle S"
  unfolding no_short_cycle_def by (meson relpow_subset subsetD)

text \<open>A cycle can be cut down to one that visits no pipe twice.\<close>

lemma cycle_bounded_by_domain:
  assumes "finite R" and "(x, x) \<in> R\<^sup>+"
  shows "\<exists>n y. 0 < n \<and> n \<le> card (Domain R) \<and> (y, y) \<in> R ^^ n"
proof -
  define P where "P n \<longleftrightarrow> 0 < n \<and> (\<exists>y. (y, y) \<in> R ^^ n)" for n
  have "\<exists>n. P n" using assms(2) unfolding P_def trancl_power by blast
  then have "P (LEAST n. P n)" by (rule LeastI_ex)
  moreover define n where "n = (LEAST n. P n)"
  ultimately obtain y where n: "0 < n" and y: "(y, y) \<in> R ^^ n" unfolding P_def by blast
  obtain f where f: "f 0 = y" "f n = y" "\<And>i. i < n \<Longrightarrow> (f i, f (Suc i)) \<in> R"
    using y unfolding relpow_fun_conv by blast
  have walk: "(f i, f (i + k)) \<in> R ^^ k" if "i + k \<le> n" for i k
    using that by (induction k) (auto intro!: relcompI f(3))
  have "inj_on f {..<n}"
  proof (rule linorder_inj_onI)
    fix i j assume ij: "i < j" "j \<in> {..<n}"
    show "f i \<noteq> f j"
    proof
      assume eq: "f i = f j"
      have "(f i, f i) \<in> R ^^ (j - i)" using walk [of i "j - i"] ij eq by simp
      then have "P (j - i)" using ij by (auto simp: P_def)
      then have "n \<le> j - i" unfolding n_def by (rule Least_le)
      then show False using ij by auto
    qed
  qed auto
  moreover have "f ` {..<n} \<subseteq> Domain R" using f(3) by auto
  ultimately have "n \<le> card (Domain R)"
    using card_inj_on_le [of f "{..<n}" "Domain R"] assms(1) by (simp add: finite_Domain)
  then show ?thesis using n y by blast
qed

lemma no_short_cycle_acyclic:
  assumes "no_short_cycle R" and "finite R" and "card (Domain R) \<le> 66"
  shows "acyclic R"
  unfolding acyclic_def
proof (intro allI notI)
  fix x assume "(x, x) \<in> R\<^sup>+"
  from cycle_bounded_by_domain [OF assms(2) this] obtain n y
    where "0 < n" "n \<le> card (Domain R)" "(y, y) \<in> R ^^ n" by blast
  then show False using assms(1,3) unfolding no_short_cycle_def by fastforce
qed

lemma acyclic_no_short_cycle: "acyclic R \<Longrightarrow> no_short_cycle R"
  unfolding acyclic_def no_short_cycle_def by (meson relpow_imp_rtrancl trancl_power)

section \<open>What the operations do to the relation\<close>

definition new_edges :: "addr \<Rightarrow> block_id option \<Rightarrow> pipe_id \<Rightarrow> pipe_id option list \<Rightarrow> wait_edge list" where
  "new_edges ticket waiter h awaited =
     map (\<lambda>a. \<lparr>we_held = h, we_awaited = a, we_ticket = ticket, we_waiter = waiter\<rparr>) (List.map_filter id awaited)"

lemma new_edges_simps [simp]:
  "new_edges t w h [] = []"
  "new_edges t w h (None # ps) = new_edges t w h ps"
  "new_edges t w h (Some a # ps) = \<lparr>we_held = h, we_awaited = a, we_ticket = t, we_waiter = w\<rparr> # new_edges t w h ps"
  by (auto simp: new_edges_def map_filter_simps)

lemma record_awaited_ok:
  assumes "record_awaited t w h ps (es, r) = Inr (es', r')"
  shows "es' = es @ new_edges t w h ps" and "r' \<longleftrightarrow> r \<or> new_edges t w h ps \<noteq> []"
  using assms by (induction t w h ps "(es, r)" arbitrary: es r rule: record_awaited.induct) (auto split: if_splits)

definition all_new_edges :: "addr \<Rightarrow> block_id option \<Rightarrow> pipe_id list \<Rightarrow> pipe_id option list \<Rightarrow> wait_edge list" where
  "all_new_edges ticket waiter hs awaited = concat (map (\<lambda>h. new_edges ticket waiter h awaited) hs)"

lemma record_held_ok:
  assumes "record_held t w hs ps (es, r) = Inr (es', r')"
  shows "es' = es @ all_new_edges t w hs ps \<and> (r' \<longleftrightarrow> r \<or> all_new_edges t w hs ps \<noteq> [])"
  using assms
proof (induction hs arbitrary: es r)
  case (Cons h hs)
  then obtain es1 r1 where one: "record_awaited t w h ps (es, r) = Inr (es1, r1)"
    and rest: "record_held t w hs ps (es1, r1) = Inr (es', r')" by (auto split: sum.splits)
  from record_awaited_ok [OF one] Cons.IH [OF rest] show ?case by (simp add: all_new_edges_def)
qed (auto simp: all_new_edges_def)


text \<open>The check before every insertion keeps the registry free of short cycles.\<close>

lemma record_awaited_no_short_cycle:
  assumes "record_awaited t w h ps (es, r) = Inr (es', r')" and "no_short_cycle (waits_for es)"
  shows "no_short_cycle (waits_for es')"
  using assms
proof (induction t w h ps "(es, r)" arbitrary: es r rule: record_awaited.induct)
  case (3 t w h a ps es r)
  then have "\<not> wait_reaches es a h 0" and rest: "record_awaited t w h ps
      (es @ [\<lparr>we_held = h, we_awaited = a, we_ticket = t, we_waiter = w\<rparr>], True) = Inr (es', r')"
    by (auto split: if_splits)
  then have "(a, h) \<notin> waits_for es ^^ n" if "n \<le> 65" for n
    using that by (auto simp: wait_reaches_chain)
  then have "no_short_cycle (insert (h, a) (waits_for es))" by (rule no_short_cycle_insert [OF "3.prems"(2)])
  then show ?case using "3.hyps" [OF \<open>\<not> wait_reaches es a h 0\<close> rest] by simp
qed auto

lemma record_held_no_short_cycle:
  assumes "record_held t w hs ps (es, r) = Inr (es', r')" and "no_short_cycle (waits_for es)"
  shows "no_short_cycle (waits_for es')"
  using assms
proof (induction hs arbitrary: es r)
  case (Cons h hs)
  then obtain es1 r1 where one: "record_awaited t w h ps (es, r) = Inr (es1, r1)"
    and rest: "record_held t w hs ps (es1, r1) = Inr (es', r')" by (auto split: sum.splits)
  show ?case by (rule Cons.IH [OF rest record_awaited_no_short_cycle [OF one Cons.prems(2)]])
qed simp




section \<open>Suspensions and resumptions in any order\<close>

text \<open>
  Awaiters record (a record that faults ends the process) and clear, in any order; each step is one
  critical section of the registry mutex.
\<close>

inductive wait_reach :: "wait_edge list \<Rightarrow> bool" where
  wr_start: "wait_reach []"
| wr_record: "wait_reach es \<Longrightarrow> circular_wait_record held ticket waiter awaited es = Inr (es', recorded) \<Longrightarrow> wait_reach es'"
| wr_clear: "wait_reach es \<Longrightarrow> wait_reach (circular_wait_clear ticket es)"

lemma finite_waits_for [simp]: "finite (waits_for es)"
  by (simp add: waits_for_def)

lemma wait_reach_no_short_cycle: "wait_reach es \<Longrightarrow> no_short_cycle (waits_for es)"
proof (induction rule: wait_reach.induct)
  case wr_start
  show ?case by (simp add: acyclic_no_short_cycle acyclic_def)
next
  case (wr_record es held ticket waiter awaited es' recorded)
  then show ?case
    by (auto simp: circular_wait_record_def split: option.splits if_splits dest: record_held_no_short_cycle)
next
  case (wr_clear es ticket)
  then show ?case
    by (elim no_short_cycle_subset) (auto simp: waits_for_def circular_wait_clear_def)
qed

section \<open>Properties\<close>


text \<open>
  No circular wait survives in the registry: whatever suspensions and resumptions happened, no
  chain of at most 66 recorded edges leads back to its start, and with at most 66 pipes held there
  is no cycle at all.
\<close>

theorem circular_wait_registry_acyclic:
  assumes "wait_reach es"
  shows "(\<forall>n x. 0 < n \<and> n \<le> 66 \<longrightarrow> (x, x) \<notin> waits_for es ^^ n)
    \<and> (card (we_held ` set es) \<le> 66 \<longrightarrow> acyclic (waits_for es))"
proof -
  have short: "no_short_cycle (waits_for es)" by (rule wait_reach_no_short_cycle [OF assms])
  moreover have "Domain (waits_for es) = we_held ` set es" by (force simp: waits_for_def)
  ultimately show ?thesis using no_short_cycle_acyclic [OF short] by (simp add: no_short_cycle_def)
qed

text \<open>
  Resuming takes back exactly what suspending recorded: with an unused ticket, clearing it after
  a successful record restores the registry, and the \<^verbatim>\<open>recorded\<close> flag says whether there is anything to
  clear, so skipping the clear when it is unset leaves nothing behind.
\<close>

theorem circular_wait_clear_undoes:
  assumes "ticket \<notin> we_ticket ` set es"
    and "circular_wait_record held ticket waiter awaited es = Inr (es', recorded)"
  shows "circular_wait_clear ticket es' = es \<and> (recorded \<longleftrightarrow> es' \<noteq> es)"
proof -
  have keep: "circular_wait_clear ticket es = es"
    using assms(1) by (auto simp: circular_wait_clear_def filter_id_conv)
  have gone: "circular_wait_clear ticket (all_new_edges ticket waiter hs awaited) = []" for hs
    by (auto simp: circular_wait_clear_def all_new_edges_def new_edges_def filter_empty_conv)
  show ?thesis
    using assms(2) keep gone
    by (auto simp: circular_wait_record_def circular_wait_clear_def split: option.splits if_splits dest!: record_held_ok)
qed

text \<open>
  Unless a task awaits what it holds itself, the report of a fault names the task that waits in turn:
  the awaited pipe has a recorded edge out of it.
\<close>

lemma fault_names_counterpart:
  assumes "wait_reaches es awaited held 0" and "awaited \<noteq> held"
  shows "\<exists>e. counterpart es awaited = Some e \<and> we_held e = awaited"
proof -
  obtain e where "e \<in> set es" "we_held e = awaited"
    using assms by (subst (asm) wait_reaches.simps) (auto simp: list_ex_iff)
  then have "counterpart es awaited \<noteq> None" by (auto simp: counterpart_def find_None_iff)
  then show ?thesis by (auto simp: counterpart_def find_Some_iff)
qed

section \<open>Beyond the depth bound\<close>

text \<open>
  A ring of 67 pipes: the last suspension closes it, and the search gives up one edge too early. The
  detector records the edge, so the circular wait goes unreported.
\<close>

definition long_chain :: "nat \<Rightarrow> wait_edge list" where
  "long_chain n = map (\<lambda>i. \<lparr>we_held = i, we_awaited = Suc i, we_ticket = i, we_waiter = None\<rparr>) [0..<n]"

definition holds :: "pipe_id \<Rightarrow> access_context" where
  "holds p = [\<lparr>ent_instance = p, ent_mode = Read_write, ent_epoch = Some p, ent_captured = 0, ent_rank = 0\<rparr>]"

lemma ctx_epochs_holds [simp]: "ctx_epochs (holds p) = [p]"
  by (simp add: holds_def ctx_epochs_def map_filter_simps)

lemma waits_for_long_chain: "waits_for (long_chain n) = {(i, Suc i) | i. i < n}"
  by (auto simp: waits_for_def long_chain_def image_image)

lemma long_chain_walk: "(x, y) \<in> waits_for (long_chain n) ^^ k \<Longrightarrow> y = x + k"
proof (induction k arbitrary: y)
  case (Suc k)
  then obtain z where "(x, z) \<in> waits_for (long_chain n) ^^ k" "(z, y) \<in> waits_for (long_chain n)" by auto
  with Suc.IH [of z] show ?case by (auto simp: waits_for_long_chain)
qed simp

lemma long_chain_Suc:
  "circular_wait_record (Some (holds n)) n None [Some (Suc n)] (long_chain n) = Inr (long_chain (Suc n), True)"
proof -
  have "\<not> wait_reaches (long_chain n) (Suc n) n 0"
    using long_chain_walk [of "Suc n" n] by (auto simp: wait_reaches_chain)
  then show ?thesis by (simp add: circular_wait_record_def) (simp add: long_chain_def)
qed

lemma wait_reach_long_chain: "wait_reach (long_chain n)"
proof (induction n)
  case 0
  show ?case using wr_start by (simp add: long_chain_def)
next
  case (Suc n)
  show ?case by (rule wr_record [OF Suc.IH long_chain_Suc])
qed

theorem circular_wait_depth_bound:
  "\<exists>es'. circular_wait_record (Some (holds 66)) 66 None [Some 0] (long_chain 66) = Inr (es', True)
     \<and> wait_reach es' \<and> (0, 0) \<in> (waits_for es')\<^sup>+"
proof -
  have "(0, 66) \<notin> waits_for (long_chain 66) ^^ n" if "n \<le> 65" for n
    using long_chain_walk [of 0 66 n 66] that by auto
  then have far: "\<not> wait_reaches (long_chain 66) 0 66 0" by (auto simp: wait_reaches_chain)
  let ?es = "long_chain 66 @ [\<lparr>we_held = 66, we_awaited = 0, we_ticket = 66, we_waiter = None\<rparr>]"
  have rec: "circular_wait_record (Some (holds 66)) 66 None [Some 0] (long_chain 66) = Inr (?es, True)"
    using far by (simp add: circular_wait_record_def)
  have "n \<le> 66 \<Longrightarrow> (0, n) \<in> (waits_for ?es)\<^sup>*" for n
  proof (induction n)
    case (Suc n)
    moreover have "(n, Suc n) \<in> waits_for ?es" using Suc.prems by (simp add: waits_for_long_chain)
    ultimately show ?case by (meson Suc_leD rtrancl.rtrancl_into_rtrancl)
  qed simp
  then have "(0, 66) \<in> (waits_for ?es)\<^sup>*" by simp
  moreover have "(66, 0) \<in> waits_for ?es" by simp
  ultimately have "(0, 0) \<in> (waits_for ?es)\<^sup>+" by (rule rtrancl_into_trancl1)
  then show ?thesis using rec wr_record [OF wait_reach_long_chain rec] by blast
qed

section \<open>Witnesses\<close>



theorem circular_wait_registry_acyclic_witness: "acyclic (waits_for (long_chain 2))"
proof -
  have "card (we_held ` set (long_chain 2)) \<le> 66" by (simp add: long_chain_def card_insert_if numeral_2_eq_2)
  then show ?thesis using circular_wait_registry_acyclic [OF wait_reach_long_chain [of 2]] by blast
qed

theorem circular_wait_clear_undoes_witness:
  "circular_wait_clear 1 (long_chain 2) = long_chain 1 \<and> (True \<longleftrightarrow> long_chain 2 \<noteq> long_chain 1)"
proof -
  have rec: "circular_wait_record (Some (holds 1)) 1 None [Some (Suc 1)] (long_chain 1) = Inr (long_chain 2, True)"
    using long_chain_Suc [of 1] by (simp add: numeral_2_eq_2)
  have "(1::nat) \<notin> we_ticket ` set (long_chain 1)" by (simp add: long_chain_def)
  from circular_wait_clear_undoes [OF this rec] show ?thesis .
qed

end
