(* ===== verification/Suspension_Registry.thy ===== *)
theory Suspension_Registry
  imports Access_Context "HOL-Library.Monad_Syntax"
begin

text \<open>
  The registry of live suspensions (include/ts/detail/suspension_registry.h): records embedded in the
  awaiters, linked into one of 64 doubly linked lists chosen by the record's address. The records live
  in an explicit store, since linking and unlinking update the neighbours through pointers. Each
  operation holds its shard's mutex; the address is a plain number.
\<close>

section \<open>State and operations\<close>

record suspension_record =
  sr_prev :: "addr option"
  sr_next :: "addr option"
  sr_shard :: nat
  sr_task :: "block_id option"
  sr_held :: "pipe_id list"

definition max_held :: nat where
  "max_held = 4"

definition suspension_shard_count :: nat where
  "suspension_shard_count = 64"

record suspension_registry =
  sg_records :: "addr \<Rightarrow> suspension_record"
  sg_heads :: "nat \<Rightarrow> addr option"

definition fresh_record :: suspension_record where
  "fresh_record = \<lparr>sr_prev = None, sr_next = None, sr_shard = 0, sr_task = None, sr_held = []\<rparr>"

definition registry_new :: suspension_registry where
  "registry_new = \<lparr>sg_records = (\<lambda>_. fresh_record), sg_heads = (\<lambda>_. None)\<rparr>"

definition suspension_shard_of :: "addr \<Rightarrow> nat" where
  "suspension_shard_of record = drop_bit 6 record mod suspension_shard_count"

definition capture_epoch :: "pipe_id \<Rightarrow> suspension_record \<Rightarrow> suspension_record" where
  "capture_epoch epoch r = (if length (sr_held r) < max_held then r\<lparr>sr_held := sr_held r @ [epoch]\<rparr> else r)"

definition suspension_capture_held :: "access_context option \<Rightarrow> suspension_record \<Rightarrow> suspension_record" where
  "suspension_capture_held cur r =
     (case cur of None \<Rightarrow> r | Some ctx \<Rightarrow> fold capture_epoch (ctx_epochs ctx) r)"

definition set_prev :: "addr \<Rightarrow> addr option \<Rightarrow> suspension_registry \<Rightarrow> suspension_registry" where
  "set_prev a p g = g\<lparr>sg_records := (sg_records g)(a := (sg_records g a)\<lparr>sr_prev := p\<rparr>)\<rparr>"

definition set_next :: "addr \<Rightarrow> addr option \<Rightarrow> suspension_registry \<Rightarrow> suspension_registry" where
  "set_next a n g = g\<lparr>sg_records := (sg_records g)(a := (sg_records g a)\<lparr>sr_next := n\<rparr>)\<rparr>"

definition set_head :: "nat \<Rightarrow> addr option \<Rightarrow> suspension_registry \<Rightarrow> suspension_registry" where
  "set_head i h g = g\<lparr>sg_heads := (sg_heads g)(i := h)\<rparr>"

definition suspension_link ::
  "block_id option \<Rightarrow> access_context option \<Rightarrow> addr \<Rightarrow> suspension_registry \<Rightarrow> suspension_registry" where
  "suspension_link running cur a g =
     (let shard = suspension_shard_of a;
          r = (suspension_capture_held cur ((sg_records g a)\<lparr>sr_task := running\<rparr>))\<lparr>sr_shard := shard\<rparr>;
          g1 = g\<lparr>sg_records := (sg_records g)(a := r)\<rparr>;
          head = sg_heads g1 shard;
          g2 = set_next a head (set_prev a None g1);
          g3 = (case head of None \<Rightarrow> g2 | Some h \<Rightarrow> set_prev h (Some a) g2)
      in set_head shard (Some a) g3)"

definition suspension_unlink :: "addr \<Rightarrow> suspension_registry \<Rightarrow> suspension_registry" where
  "suspension_unlink a g =
     (let r = sg_records g a;
          g1 = (case sr_prev r of
                  Some p \<Rightarrow> set_next p (sr_next r) g
                | None \<Rightarrow> if sg_heads g (sr_shard r) = Some a then set_head (sr_shard r) (sr_next r) g else g);
          g2 = (case sr_next r of Some n \<Rightarrow> set_prev n (sr_prev r) g1 | None \<Rightarrow> g1)
      in set_next a None (set_prev a None g2))"

text \<open>\<^verbatim>\<open>suspension_count\<close>: the inner loop follows the links and would not return on a circular list.\<close>

partial_function (option) count_from :: "suspension_registry \<Rightarrow> addr option \<Rightarrow> nat \<Rightarrow> nat option" where
  "count_from g p n = (case p of None \<Rightarrow> Some n | Some a \<Rightarrow> count_from g (sr_next (sg_records g a)) (Suc n))"

fun count_shards :: "suspension_registry \<Rightarrow> nat list \<Rightarrow> nat \<Rightarrow> nat option" where
  "count_shards g [] n = Some n"
| "count_shards g (i # is) n = Option.bind (count_from g (sg_heads g i) n) (count_shards g is)"

definition suspension_count :: "suspension_registry \<Rightarrow> nat option" where
  "suspension_count g = count_shards g [0..<suspension_shard_count] 0"

lemmas registry_op_defs = set_prev_def set_next_def set_head_def

section \<open>The lists behind the links\<close>

text \<open>\<open>dll r prev p as\<close>: from \<open>p\<close> the links spell out \<open>as\<close>, and every record points back to its predecessor.\<close>

fun dll :: "(addr \<Rightarrow> suspension_record) \<Rightarrow> addr option \<Rightarrow> addr option \<Rightarrow> addr list \<Rightarrow> bool" where
  "dll r prev p [] \<longleftrightarrow> p = None"
| "dll r prev p (a # as) \<longleftrightarrow> p = Some a \<and> sr_prev (r a) = prev \<and> dll r (Some a) (sr_next (r a)) as"

text \<open>
  The registry represents one list per shard: the shard's live suspensions, newest first. A record
  outside every list has null links.
\<close>

definition represents :: "suspension_registry \<Rightarrow> (nat \<Rightarrow> addr list) \<Rightarrow> bool" where
  "represents g L \<longleftrightarrow>
     (\<forall>i. dll (sg_records g) None (sg_heads g i) (L i) \<and> distinct (L i)
        \<and> (\<forall>a \<in> set (L i). i = suspension_shard_of a \<and> sr_shard (sg_records g a) = i))
     \<and> (\<forall>a. a \<notin> set (L (suspension_shard_of a)) \<longrightarrow>
          sr_prev (sg_records g a) = None \<and> sr_next (sg_records g a) = None)"

lemma dll_cong:
  "(\<And>a. a \<in> set as \<Longrightarrow> sr_prev (r a) = sr_prev (r' a) \<and> sr_next (r a) = sr_next (r' a)) \<Longrightarrow>
     dll r prev p as = dll r' prev p as"
  by (induction as arbitrary: prev p) auto

lemma fold_capture:
  "fold capture_epoch es r = r\<lparr>sr_held := sr_held r @ take (max_held - length (sr_held r)) es\<rparr>"
  by (induction es arbitrary: r) (auto simp: capture_epoch_def take_Cons' Suc_diff_Suc)

lemma capture_links [simp]:
  "sr_prev (suspension_capture_held cur r) = sr_prev r"
  "sr_next (suspension_capture_held cur r) = sr_next r"
  by (simp_all add: suspension_capture_held_def fold_capture split: option.split)

lemma represents_new: "represents registry_new (\<lambda>_. [])"
  by (simp add: represents_def registry_new_def fresh_record_def)

lemma shard_bound: "suspension_shard_of a < suspension_shard_count"
  by (simp add: suspension_shard_of_def suspension_shard_count_def)

text \<open>Linking: the fields after it, and the lists.\<close>

lemma link_fields:
  fixes g a running cur
  defines "g' \<equiv> suspension_link running cur a g" and "i \<equiv> suspension_shard_of a"
  assumes "sg_heads g i \<noteq> Some a"
  shows "sg_heads g' = (sg_heads g)(i := Some a)"
    and "sr_prev (sg_records g' b) =
      (if b = a then None else if sg_heads g i = Some b then Some a else sr_prev (sg_records g b))"
    and "sr_next (sg_records g' b) = (if b = a then sg_heads g i else sr_next (sg_records g b))"
    and "sr_shard (sg_records g' b) = (if b = a then i else sr_shard (sg_records g b))"
  using assms
  by (auto simp: suspension_link_def Let_def registry_op_defs i_def split: option.split)

lemma represents_link:
  assumes rep: "represents g L" and new: "a \<notin> set (L (suspension_shard_of a))"
  defines "i \<equiv> suspension_shard_of a"
  shows "represents (suspension_link running cur a g) (L(i := a # L i))"
proof -
  let ?g = "suspension_link running cur a g"
  have old: "dll (sg_records g) None (sg_heads g k) (L k)" "distinct (L k)"
    "\<And>b. b \<in> set (L k) \<Longrightarrow> k = suspension_shard_of b \<and> sr_shard (sg_records g b) = k" for k
    using rep by (auto simp: represents_def)
  have head: "sg_heads g i \<noteq> Some a"
  proof
    assume "sg_heads g i = Some a"
    then show False using old(1) [of i] new i_def by (cases "L i") auto
  qed
  note f = link_fields [OF head [unfolded i_def], of running cur, folded i_def]
  have out: "b \<noteq> a \<and> sg_heads g i \<noteq> Some b" if "b \<in> set (L k)" "k \<noteq> i" for b k
  proof -
    have "sg_heads g i = Some b \<Longrightarrow> b \<in> set (L i)" using old(1) [of i] by (cases "L i") auto
    then show ?thesis using that old(3) [of b k] old(3) [of b i] by (auto simp: i_def)
  qed
  have others: "dll (sg_records ?g) None (sg_heads ?g k) (L k)" if "k \<noteq> i" for k
  proof -
    have "dll (sg_records ?g) None (sg_heads g k) (L k) = dll (sg_records g) None (sg_heads g k) (L k)"
      using that by (intro dll_cong) (auto simp: f out)
    then show ?thesis using old(1) that by (simp add: f)
  qed
  have this_list: "dll (sg_records ?g) None (Some a) (a # L i)"
  proof (cases "L i")
    case Nil
    then show ?thesis using old(1) [of i] by (simp add: f)
  next
    case (Cons h t)
    then have hd: "sg_heads g i = Some h" using old(1) [of i] by simp
    have "dll (sg_records ?g) (Some h) p t = dll (sg_records g) (Some h) p t" for p
      using Cons old(2) [of i] new hd by (intro dll_cong) (auto simp: f i_def)
    then show ?thesis using old(1) [of i] Cons new hd by (auto simp: f i_def)
  qed
  show ?thesis
    unfolding represents_def
  proof (intro conjI allI ballI impI)
    fix k
    show "dll (sg_records ?g) None (sg_heads ?g k) ((L(i := a # L i)) k)"
      using others this_list by (cases "k = i") (auto simp: f)
    show "distinct ((L(i := a # L i)) k)" using old(2) [of k] new by (auto simp: i_def)
    fix b assume "b \<in> set ((L(i := a # L i)) k)"
    then show "k = suspension_shard_of b" "sr_shard (sg_records ?g b) = k"
      using old(3) [of b k] new by (auto simp: f i_def split: if_splits)
  next
    fix b assume "b \<notin> set ((L(i := a # L i)) (suspension_shard_of b))"
    then have b: "b \<noteq> a" "b \<notin> set (L (suspension_shard_of b))" by (auto simp: i_def split: if_splits)
    moreover have "sg_heads g i \<noteq> Some b"
    proof
      assume "sg_heads g i = Some b"
      then have "b \<in> set (L i)" using old(1) [of i] by (cases "L i") auto
      then show False using b(2) old(3) [of b i] by auto
    qed
    ultimately show "sr_prev (sg_records ?g b) = None" "sr_next (sg_records ?g b) = None"
      using rep by (auto simp: f represents_def)
  qed
qed

section \<open>Unlinking\<close>

lemma dll_mid:
  "dll r prev p (xs @ a # ys) \<Longrightarrow>
     sr_prev (r a) = (if xs = [] then prev else Some (last xs))
     \<and> sr_next (r a) = (case ys of [] \<Rightarrow> None | y # _ \<Rightarrow> Some y)
     \<and> p = Some (hd (xs @ [a]))"
proof (induction xs arbitrary: prev p)
  case Nil
  then show ?case by (cases ys) auto
qed auto

lemma dll_bypass:
  assumes "dll r prev p (xs @ a # ys)" and "distinct (xs @ a # ys)" and "prev \<notin> Some ` set (xs @ a # ys)"
    and pr: "\<And>b. b \<in> set (xs @ ys) \<Longrightarrow> sr_prev (r' b) = (if sr_next (r a) = Some b then sr_prev (r a) else sr_prev (r b))"
    and nx: "\<And>b. b \<in> set (xs @ ys) \<Longrightarrow> sr_next (r' b) = (if sr_prev (r a) = Some b then sr_next (r a) else sr_next (r b))"
  shows "dll r' prev (if xs = [] then sr_next (r a) else p) (xs @ ys)"
  using assms
proof (induction xs arbitrary: prev p)
  case Nil
  show ?case
  proof (cases ys)
    case Nil
    then show ?thesis using Nil.prems(1) by simp
  next
    case (Cons y zs)
    have "dll r' (Some y) (sr_next (r y)) zs = dll r (Some y) (sr_next (r y)) zs"
      using Nil.prems Cons by (intro dll_cong) auto
    then show ?thesis using Nil.prems Cons by auto
  qed
next
  case (Cons x xs)
  have IH: "dll r' (Some x) (if xs = [] then sr_next (r a) else sr_next (r x)) (xs @ ys)"
    using Cons.prems by (intro Cons.IH) auto
  have "sr_prev (r' x) = sr_prev (r x)"
    using Cons.prems(2) Cons.prems(4) [of x] dll_mid [OF Cons.prems(1)] by (cases ys) auto
  moreover have "sr_next (r' x) = (if xs = [] then sr_next (r a) else sr_next (r x))"
    using Cons.prems(2) Cons.prems(5) [of x] dll_mid [OF Cons.prems(1)] last_in_set [of xs] by auto
  ultimately show ?case using IH Cons.prems(1) by simp
qed

lemma unlink_fields:
  fixes g a
  defines "g' \<equiv> suspension_unlink a g" and "r \<equiv> sg_records g a"
  assumes "sr_prev r \<noteq> Some a" and "sr_next r \<noteq> Some a"
  shows "sg_heads g' = (if sr_prev r = None \<and> sg_heads g (sr_shard r) = Some a
      then (sg_heads g)(sr_shard r := sr_next r) else sg_heads g)"
    and "sr_prev (sg_records g' b) =
      (if b = a then None else if sr_next r = Some b then sr_prev r else sr_prev (sg_records g b))"
    and "sr_next (sg_records g' b) =
      (if b = a then None else if sr_prev r = Some b then sr_next r else sr_next (sg_records g b))"
    and "sr_shard (sg_records g' b) = sr_shard (sg_records g b)"
  using assms
  by (auto simp: suspension_unlink_def Let_def registry_op_defs split: option.split)

text \<open>Unlinking a record that is not linked changes no list, and leaves the record as it is.\<close>

lemma represents_unlink_idle:
  assumes rep: "represents g L" and idle: "a \<notin> set (L (suspension_shard_of a))"
  shows "represents (suspension_unlink a g) L"
proof -
  have null: "sr_prev (sg_records g a) = None" "sr_next (sg_records g a) = None"
    using rep idle by (auto simp: represents_def)
  have "sg_heads g i \<noteq> Some a" for i
  proof
    assume "sg_heads g i = Some a"
    moreover have "dll (sg_records g) None (sg_heads g i) (L i)" using rep by (simp add: represents_def)
    ultimately have "a \<in> set (L i)" by (cases "L i") auto
    then show False using rep idle by (auto simp: represents_def)
  qed
  then have "suspension_unlink a g = set_next a None (set_prev a None g)"
    using null by (simp add: suspension_unlink_def Let_def)
  also have "(sg_records g a)\<lparr>sr_prev := None, sr_next := None\<rparr> = sg_records g a"
    using null by (cases "sg_records g a") simp
  then have "set_next a None (set_prev a None g) = g" by (simp add: registry_op_defs)
  finally show ?thesis using rep by simp
qed

lemma represents_unlink:
  assumes rep: "represents g L" and live: "a \<in> set (L (suspension_shard_of a))"
  defines "i \<equiv> suspension_shard_of a"
  shows "represents (suspension_unlink a g) (L(i := remove1 a (L i)))"
proof -
  let ?g = "suspension_unlink a g" and ?r = "sg_records g"
  have old: "dll ?r None (sg_heads g k) (L k)" "distinct (L k)"
    "\<And>b. b \<in> set (L k) \<Longrightarrow> k = suspension_shard_of b \<and> sr_shard (?r b) = k" for k
    using rep by (auto simp: represents_def)
  obtain xs ys where split: "L i = xs @ a # ys" using live i_def by (metis split_list)
  have a_out: "a \<notin> set xs" "a \<notin> set ys" using old(2) [of i] split by auto
  have rem: "remove1 a (L i) = xs @ ys" using a_out split by (simp add: remove1_append)
  note mid = dll_mid [OF old(1) [of i, unfolded split]]
  have nn: "sr_prev (?r a) \<noteq> Some a" "sr_next (?r a) \<noteq> Some a"
    using mid a_out last_in_set [of xs] by (auto split: list.splits)
  have near: "sr_prev (?r a) = Some b \<Longrightarrow> b \<in> set (L i)" "sr_next (?r a) = Some b \<Longrightarrow> b \<in> set (L i)" for b
    using mid split last_in_set [of xs] by (auto split: if_splits list.splits)
  have shard: "sr_shard (?r a) = i" using old(3) [of a i] split by simp
  note f = unlink_fields [OF nn, unfolded shard]
  have "sr_prev (?r a) = None \<and> sg_heads g i = Some a \<longleftrightarrow> xs = []"
    using mid old(1) [of i] split by (cases xs) auto
  then have heads: "sg_heads ?g = (if xs = [] then (sg_heads g)(i := sr_next (?r a)) else sg_heads g)"
    using f(1) by auto
  have this_list: "dll (sg_records ?g) None (if xs = [] then sr_next (?r a) else sg_heads g i) (xs @ ys)"
    using old(1,2) [of i] a_out unfolding split by (intro dll_bypass) (auto simp: f)
  have others: "dll (sg_records ?g) None (sg_heads g k) (L k)" if "k \<noteq> i" for k
  proof -
    have "b \<noteq> a \<and> sr_prev (?r a) \<noteq> Some b \<and> sr_next (?r a) \<noteq> Some b" if "b \<in> set (L k)" for b
    proof -
      have "b \<notin> set (L i)" using old(3) [of b k] old(3) [of b i] that \<open>k \<noteq> i\<close> by blast
      then show ?thesis using near [of b] split by auto
    qed
    then have "dll (sg_records ?g) None (sg_heads g k) (L k) = dll ?r None (sg_heads g k) (L k)"
      by (intro dll_cong) (simp add: f)
    then show ?thesis using old(1) by simp
  qed
  show ?thesis
    unfolding represents_def rem
  proof (intro conjI allI ballI impI)
    fix k
    show "dll (sg_records ?g) None (sg_heads ?g k) ((L(i := xs @ ys)) k)"
      using others [of k] this_list by (cases "k = i") (auto simp: heads)
    show "distinct ((L(i := xs @ ys)) k)" using old(2) [of k] old(2) [of i] split by auto
    fix b assume "b \<in> set ((L(i := xs @ ys)) k)"
    then have "b \<in> set (L k)" using split by (auto split: if_splits)
    then show "k = suspension_shard_of b" "sr_shard (sg_records ?g b) = k"
      using old(3) [of b k] by (auto simp: f)
  next
    fix b assume b: "b \<notin> set ((L(i := xs @ ys)) (suspension_shard_of b))"
    show "sr_prev (sg_records ?g b) = None" "sr_next (sg_records ?g b) = None"
    proof (atomize (full), cases "b = a")
      case False
      then have "b \<notin> set (L (suspension_shard_of b))" using b split by (auto split: if_splits)
      moreover from this have "b \<notin> set (L i)" using old(3) by auto
      ultimately show "sr_prev (sg_records ?g b) = None \<and> sr_next (sg_records ?g b) = None"
        using rep near False by (auto simp: f represents_def)
    qed (simp add: f)
  qed
qed

section \<open>Counting\<close>

lemma count_from_dll: "dll (sg_records g) prev p as \<Longrightarrow> count_from g p n = Some (n + length as)"
proof (induction as arbitrary: prev p n)
  case Nil
  then show ?case by (subst count_from.simps) simp
next
  case (Cons a as)
  then show ?case by (subst count_from.simps) auto
qed

lemma count_shards_represents:
  "represents g L \<Longrightarrow> count_shards g is n = Some (n + (\<Sum>i\<leftarrow>is. length (L i)))"
proof (induction "is" arbitrary: n)
  case (Cons i "is")
  have "count_from g (sg_heads g i) n = Some (n + length (L i))"
    using Cons.prems by (intro count_from_dll [of _ None]) (simp add: represents_def)
  then show ?case using Cons by simp
qed simp

definition live_of :: "(nat \<Rightarrow> addr list) \<Rightarrow> addr set" where
  "live_of L = {a. a \<in> set (L (suspension_shard_of a))}"

lemma represents_card:
  assumes "represents g L"
  shows "(\<Sum>i\<leftarrow>[0..<suspension_shard_count]. length (L i)) = card (live_of L)"
proof -
  have "live_of L = (\<Union>i \<in> {..<suspension_shard_count}. set (L i))"
    using assms shard_bound by (auto simp: live_of_def represents_def)
  moreover have "card (\<Union>i \<in> {..<suspension_shard_count}. set (L i)) = sum (\<lambda>i. card (set (L i))) {..<suspension_shard_count}"
    using assms by (intro card_UN_disjoint) (auto simp: represents_def, metis)
  moreover have "card (set (L i)) = length (L i)" for i
    using assms by (simp add: represents_def distinct_card)
  ultimately show ?thesis by (simp add: sum_list_distinct_conv_sum_set atLeast0LessThan)
qed

section \<open>Suspensions in any order\<close>

text \<open>
  Awaiters link their record when they suspend and unlink it when they resume, wherever that happens;
  an awaiter that never suspended may unlink as well. The abstract state is the set of linked records.
\<close>

inductive suspension_reach :: "suspension_registry \<Rightarrow> addr set \<Rightarrow> bool" where
  sr_start: "suspension_reach registry_new {}"
| sr_link: "suspension_reach g S \<Longrightarrow> a \<notin> S \<Longrightarrow> suspension_reach (suspension_link running cur a g) (insert a S)"
| sr_unlink: "suspension_reach g S \<Longrightarrow> suspension_reach (suspension_unlink a g) (S - {a})"

lemma suspension_reach_represents:
  "suspension_reach g S \<Longrightarrow> \<exists>L. represents g L \<and> live_of L = S"
proof (induction rule: suspension_reach.induct)
  case sr_start
  show ?case using represents_new by (auto simp: live_of_def)
next
  case (sr_link g S a running cur)
  then obtain L where L: "represents g L" "live_of L = S" by blast
  with sr_link.hyps(2) have "a \<notin> set (L (suspension_shard_of a))" by (auto simp: live_of_def)
  moreover have "live_of (L(suspension_shard_of a := a # L (suspension_shard_of a))) = insert a S"
    using L(2) by (auto simp: live_of_def)
  ultimately show ?case using represents_link [OF L(1)] by blast
next
  case (sr_unlink g S a)
  then obtain L where L: "represents g L" "live_of L = S" by blast
  show ?case
  proof (cases "a \<in> S")
    case True
    then have "a \<in> set (L (suspension_shard_of a))" using L(2) by (auto simp: live_of_def)
    moreover have "distinct (L (suspension_shard_of a))" using L(1) by (simp add: represents_def)
    ultimately have "live_of (L(suspension_shard_of a := remove1 a (L (suspension_shard_of a)))) = S - {a}"
      using L(2) by (auto simp: live_of_def)
    then show ?thesis using represents_unlink [OF L(1) \<open>a \<in> set (L (suspension_shard_of a))\<close>] by blast
  next
    case False
    then have "a \<notin> set (L (suspension_shard_of a))" using L(2) by (auto simp: live_of_def)
    from represents_unlink_idle [OF L(1) this] show ?thesis using L(2) False by auto
  qed
qed

section \<open>Properties\<close>

text \<open>
  (C31) The linked lists implement a set of live suspensions: after any sequence of links and unlinks
  each live record is on the list of its shard exactly once and nothing else is on any list, the
  links are consistent in both directions, and the count returns and is the number of live suspensions.
\<close>

theorem suspension_registry_refines_set:
  assumes "suspension_reach g S"
  shows "suspension_count g = Some (card S)
    \<and> (\<exists>L. \<forall>i. dll (sg_records g) None (sg_heads g i) (L i) \<and> distinct (L i)
         \<and> set (L i) = {a \<in> S. suspension_shard_of a = i})"
proof -
  obtain L where L: "represents g L" "live_of L = S" using suspension_reach_represents [OF assms] by blast
  have "suspension_count g = Some (card S)"
    unfolding suspension_count_def count_shards_represents [OF L(1)] represents_card [OF L(1)] L(2) by simp
  moreover have "set (L i) = {a \<in> S. suspension_shard_of a = i}" for i
    using L by (auto simp: live_of_def represents_def)
  ultimately show ?thesis using L(1) by (auto simp: represents_def)
qed

text \<open>
  Unlinking undoes linking: after a suspension and its resumption every list head and every link
  of every other record is what it was, and the record's own links are null again.
\<close>

theorem suspension_unlink_undoes_link:
  fixes running cur
  assumes "suspension_reach g S" and "a \<notin> S"
  defines "g' \<equiv> suspension_unlink a (suspension_link running cur a g)"
  shows "sg_heads g' = sg_heads g \<and> (\<forall>b. sr_prev (sg_records g' b) = sr_prev (sg_records g b)
    \<and> sr_next (sg_records g' b) = sr_next (sg_records g b))"
proof -
  obtain L where L: "represents g L" "live_of L = S" using suspension_reach_represents [OF assms(1)] by blast
  let ?i = "suspension_shard_of a" and ?g = "suspension_link running cur a g"
  have out: "a \<notin> set (L ?i)" using L(2) assms(2) by (auto simp: live_of_def)
  have list: "dll (sg_records g) None (sg_heads g ?i) (L ?i)" using L(1) by (simp add: represents_def)
  have head: "sg_heads g ?i \<noteq> Some a" using list out by (cases "L ?i") auto
  have null: "sr_prev (sg_records g a) = None" "sr_next (sg_records g a) = None"
    using L(1) out by (auto simp: represents_def)
  have first: "sr_prev (sg_records g h) = None" if "sg_heads g ?i = Some h" for h
    using list that by (cases "L ?i") auto
  note f = link_fields [OF head, of running cur]
  have "sr_prev (sg_records ?g a) \<noteq> Some a" "sr_next (sg_records ?g a) \<noteq> Some a" using head by (auto simp: f)
  note u = unlink_fields [OF this]
  show ?thesis unfolding g'_def using null first by (auto simp: u f fun_eq_iff)
qed

section \<open>Witnesses\<close>

lemma demo_suspensions: "suspension_reach (suspension_link None None 64 (suspension_link None None 4160 registry_new)) {64, 4160}"
  by (rule sr_link sr_start)+ auto

theorem suspension_registry_refines_set_witness:
  "suspension_count (suspension_link None None 64 (suspension_link None None 4160 registry_new)) = Some 2"
  using suspension_registry_refines_set [OF demo_suspensions] by simp

theorem suspension_unlink_undoes_link_witness:
  "sg_heads (suspension_unlink 64 (suspension_link None None 64 registry_new)) = sg_heads registry_new"
  using suspension_unlink_undoes_link [OF sr_start, of 64 None None] by simp
end
