(* ===== verification/Versioned.thy ===== *)
theory Versioned
  imports Complex_Main Journal Access_Context Pipe
begin

text \<open>
  \<^verbatim>\<open>Versioned<T>\<close> (include/ts/versioned.h): two replicas of an object behind one guarded front. Producers
  stage commands; a publish cuts the journal, applies the batch to the shadow, swaps the replicas under a
  write grant on the front and then brings the new shadow up to date under a read grant. With
  \<^verbatim>\<open>History::current_and_previous\<close> a third replica keeps the version before the current one. What a
  command does is an argument: \<open>run\<close> when it is applied to build the version, \<open>rerun\<close> when the resync
  replays it, so that a nondeterministic command is one with \<open>rerun \<noteq> run\<close>.
\<close>

section \<open>State\<close>

datatype resync = Replay | Copy | Overwrite

datatype history = Current | Current_and_previous

record version_stamps =
  previous_published :: int
  current_published :: int
  current_serial :: "64 word"

text \<open>
  The signals of the publish chain: the triggered one of \<^verbatim>\<open>init\<close>, and per publish (numbered in the order
  they take their place in the chain) the returned gate \<^verbatim>\<open>swapped\<close> and the internal \<^verbatim>\<open>shadow_ready\<close>.
\<close>

datatype chain_signal = Ready | Swapped nat | Shadow_ready nat

record ('c, 't) versioned =
  vs_history :: history
  vs_policy :: resync
  vs_inst :: addr
  vs_front :: 't
  vs_shadow :: 't
  vs_previous :: 't
  vs_stamps :: version_stamps
  vs_journal :: "'c journal"
  vs_batch :: "'c list"
  vs_chain :: chain_signal
  vs_last_publish :: chain_signal
  vs_copy :: "('t \<Rightarrow> 't \<Rightarrow> 't) option"
  vs_hash :: "('t \<Rightarrow> nat) option"

section \<open>Operations\<close>

text \<open>The constructors with \<^verbatim>\<open>init\<close>: every replica starts as the default value \<open>t\<close>; \<open>now\<close> is the clock.\<close>

definition default_resync :: "history \<Rightarrow> resync" where
  "default_resync h = (if h = Current then Replay else Copy)"

definition versioned_new :: "history \<Rightarrow> resync \<Rightarrow> addr \<Rightarrow> 't \<Rightarrow> int \<Rightarrow> ('c, 't) versioned result" where
  "versioned_new h policy inst t now =
     (if h = Current_and_previous \<and> policy = Replay then Inl Versioned_replay_history
      else Inr \<lparr>vs_history = h, vs_policy = policy, vs_inst = inst, vs_front = t, vs_shadow = t, vs_previous = t,
        vs_stamps = \<lparr>previous_published = now, current_published = now, current_serial = 0\<rparr>,
        vs_journal = journal_new, vs_batch = [], vs_chain = Ready, vs_last_publish = Ready,
        vs_copy = None, vs_hash = None\<rparr>)"

definition set_copy :: "('t \<Rightarrow> 't \<Rightarrow> 't) \<Rightarrow> ('c, 't) versioned \<Rightarrow> ('c, 't) versioned" where
  "set_copy f v = v\<lparr>vs_copy := Some f\<rparr>"

definition set_divergence_check :: "('t \<Rightarrow> nat) \<Rightarrow> ('c, 't) versioned \<Rightarrow> ('c, 't) versioned" where
  "set_divergence_check h v = v\<lparr>vs_hash := Some h\<rparr>"

definition versioned_discard :: "('c, 't) versioned \<Rightarrow> ('c, 't) versioned" where
  "versioned_discard v = v\<lparr>vs_journal := clear_staged (vs_journal v)\<rparr>"

text \<open>\<^verbatim>\<open>publish\<close>, up to the attachment of phase 1: publish \<open>n\<close> takes its place in the chain.\<close>

definition publish :: "nat \<Rightarrow> ('c, 't) versioned \<Rightarrow> ('c, 't) versioned \<times> chain_signal" where
  "publish n v = (v\<lparr>vs_chain := Shadow_ready n, vs_last_publish := Swapped n\<rparr>, vs_chain v)"

text \<open>The head of phase 1: nothing to publish, or a batch in the slot.\<close>

definition phase1 :: "bool \<Rightarrow> ('c, 't) versioned \<Rightarrow> ('c, 't) versioned \<times> bool" where
  "phase1 cancelled v =
     (if cancelled then (v, False)
      else let (batch, j) = cut (vs_journal v) in
        (v\<lparr>vs_journal := j, vs_batch := batch\<rparr>, batch \<noteq> []))"

text \<open>One round of the loop of \<^verbatim>\<open>apply_to_shadow\<close>, and of the replay loop of the resync.\<close>

definition apply_command :: "('c \<Rightarrow> 't \<Rightarrow> 't) \<Rightarrow> nat \<Rightarrow> ('c, 't) versioned \<Rightarrow> ('c, 't) versioned" where
  "apply_command f k v = v\<lparr>vs_shadow := f (vs_batch v ! k) (vs_shadow v)\<rparr>"

definition swap_replicas :: "int \<Rightarrow> ('c, 't) versioned \<Rightarrow> ('c, 't) versioned" where
  "swap_replicas now v =
     (let w = v\<lparr>vs_front := vs_shadow v, vs_shadow := vs_front v\<rparr> in
      if vs_history v = Current_and_previous
      then w\<lparr>vs_shadow := vs_previous w, vs_previous := vs_shadow w,
             vs_stamps := \<lparr>previous_published = current_published (vs_stamps w), current_published = now,
               current_serial = current_serial (vs_stamps w) + 1\<rparr>\<rparr>
      else w)"

text \<open>\<^verbatim>\<open>start_resync\<close>: either done at once, or a read job is submitted (the flag).\<close>

definition start_resync :: "('c, 't) versioned \<Rightarrow> ('c, 't) versioned \<times> bool" where
  "start_resync v = (if vs_policy v = Overwrite then (v\<lparr>vs_batch := []\<rparr>, False) else (v, True))"

text \<open>The rest of the resync job: the copy, or the check after the replay; then the slot is cleared.\<close>

definition resync_copy :: "bool \<Rightarrow> ('c, 't) versioned \<Rightarrow> ('c, 't) versioned result" where
  "resync_copy copy_assignable v =
     (case vs_copy v of
        Some f \<Rightarrow> Inr (v\<lparr>vs_shadow := f (vs_shadow v) (vs_front v)\<rparr>)
      | None \<Rightarrow> if copy_assignable then Inr (v\<lparr>vs_shadow := vs_front v\<rparr>) else Inl Versioned_needs_copy)"

definition divergence_check :: "('c, 't) versioned \<Rightarrow> unit result" where
  "divergence_check v =
     (case vs_hash v of
        None \<Rightarrow> Inr ()
      | Some h \<Rightarrow> if vs_policy v = Replay \<and> h (vs_front v) \<noteq> h (vs_shadow v) then Inl Versioned_divergence else Inr ())"

definition resync_finish :: "bool \<Rightarrow> ('c, 't) versioned \<Rightarrow> ('c, 't) versioned result" where
  "resync_finish copy_assignable v =
     (case (if vs_policy v = Replay then Inr v else resync_copy copy_assignable v) of
        Inl e \<Rightarrow> Inl e
      | Inr w \<Rightarrow> (case divergence_check w of Inl e \<Rightarrow> Inl e | Inr _ \<Rightarrow> Inr (w\<lparr>vs_batch := []\<rparr>)))"

text \<open>The entry of \<^verbatim>\<open>publish_into\<close> as publish \<open>n\<close>: the checks and the place in the chain.\<close>

definition publish_into ::
  "epoch_store \<Rightarrow> access_context option \<Rightarrow> (chain_signal \<Rightarrow> bool) \<Rightarrow> addr \<Rightarrow> nat \<Rightarrow> ('c, 't) versioned \<Rightarrow> ('c, 't) versioned result"
where
  "publish_into epochs ctx settled front n v =
     (if front \<noteq> vs_inst v then Inl Versioned_not_front
      else case access_check epochs ctx front Read_write of
        Inl e \<Rightarrow> Inl e
      | Inr _ \<Rightarrow>
          if \<not> settled (vs_chain v) then Inl Versioned_unresolved_publish
          else Inr (v\<lparr>vs_chain := Shadow_ready n\<rparr>))"

text \<open>
  The destructor: the checks before and after it waits for the chain and for the front's pipe to
  become idle.
\<close>

definition versioned_destroy :: "(chain_signal \<Rightarrow> bool) \<Rightarrow> ('c, 't) versioned \<Rightarrow> unit result" where
  "versioned_destroy settled v =
     (if \<not> settled (vs_last_publish v) then Inl Versioned_publish_in_flight
      else if has_staged (vs_journal v) then Inl Versioned_lost_writes
      else journal_destroy (vs_journal v))"

section \<open>Reading two versions\<close>


text \<open>
  \<^verbatim>\<open>read_last_versions\<close>: lent when the calling context grants the front, fatal in a task that would
  block, and otherwise a read turn on the front's pipe; \<open>enforced\<close> is \<^verbatim>\<open>rule_enforced(in_task_sync)\<close>.
\<close>

datatype version_read = Lent | Take_turn

definition read_last_versions ::
  "epoch_store \<Rightarrow> access_context option \<Rightarrow> bool \<Rightarrow> bool \<Rightarrow> ('c, 't) versioned \<Rightarrow> version_read result" where
  "read_last_versions epochs ctx in_task enforced v =
     (if (case ctx of None \<Rightarrow> False | Some c \<Rightarrow> ctx_grants epochs c (vs_inst v) Read_only) then Inr Lent
      else if in_task \<and> enforced then Inl Version_read_in_task
      else Inr Take_turn)"

text \<open>
  The context a \<^verbatim>\<open>Version_view\<close> installs: the running one, the front when the view took its own turn
  (\<open>held\<close>: its pipe and rank), and the previous version.
\<close>

definition view_context ::
  "epoch_store \<Rightarrow> access_context option \<Rightarrow> addr \<Rightarrow> addr \<Rightarrow> (pipe_id \<times> nat) option \<Rightarrow> access_context result" where
  "view_context epochs running current previous held =
     (let ctx = (case running of None \<Rightarrow> [] | Some c \<Rightarrow> c) in
      case (case held of None \<Rightarrow> Inr ctx | Some (p, rank) \<Rightarrow> ctx_add epochs ctx current Read_only (Some p) rank) of
        Inl e \<Rightarrow> Inl e
      | Inr ctx' \<Rightarrow> ctx_add epochs ctx' previous Read_only None 0)"

section \<open>Publishes under way\<close>

text \<open>
  Where a publish stands. \<open>Gated\<close>: phase 1 attached to the previous publish's \<^verbatim>\<open>shadow_ready\<close>;
  \<open>Submitted\<close>: it may run; \<open>Flip_cut\<close>: a graph node's publish past its entry checks; \<open>Applying k\<close>: \<open>k\<close>
  commands applied to the shadow; \<open>Swap_queued\<close>: the write access submitted; \<open>Resync_queued\<close> and
  \<open>Resyncing k\<close>: the read job; \<open>Finished\<close>: \<^verbatim>\<open>shadow_ready\<close> triggered.
\<close>

datatype publish_pc =
  Gated | Submitted | Flip_cut | Applying nat | Swap_queued | Resync_queued | Resyncing nat | Finished

record publication =
  pb_prev :: chain_signal
  pb_flip :: "block_id option"
  pb_pc :: publish_pc

text \<open>
  The accesses in the front's pipe, by block: readers, the write access of a publish before and after
  its swap, its resync job, a graph node before and inside its publish, and a body that only has
  to release.
\<close>

datatype job =
  Read_job | Swap_job nat | Swapped_job nat | Resync_job nat | Flip_job | Flip_publish nat | Done_job access

fun job_mode :: "job \<Rightarrow> access" where
  "job_mode Read_job = Read_only"
| "job_mode (Resync_job n) = Read_only"
| "job_mode (Done_job m) = m"
| "job_mode _ = Read_write"

definition link :: "block_id \<Rightarrow> access \<Rightarrow> pipe_entry" where
  "link b m = Task_link \<lparr>lk_owner = b, lk_pipe = 0, lk_index = 0, lk_mode = m\<rparr>"

text \<open>
  The whole: the object, the front's pipe with its users, the publishes, and the triggered signals.
  The last two fields are bookkeeping: the batches swapped in so far, and the graph nodes that
  entered the pipe with every earlier publish synced.
\<close>

record ('c, 't) versioned_run =
  vr_obj :: "('c, 't) versioned"
  vr_pipe :: pipe_run
  vr_job :: "block_id \<rightharpoonup> job"
  vr_pubs :: "publication list"
  vr_settled :: "chain_signal set"
  vr_batches :: "'c list list"
  vr_synced :: "block_id set"

abbreviation (input) at_pc :: "('c, 't) versioned_run \<Rightarrow> nat \<Rightarrow> publish_pc \<Rightarrow> bool" where
  "at_pc s n pc \<equiv> n < length (vr_pubs s) \<and> pb_pc (vr_pubs s ! n) = pc"

definition set_pub_pc :: "nat \<Rightarrow> publish_pc \<Rightarrow> ('c, 't) versioned_run \<Rightarrow> ('c, 't) versioned_run" where
  "set_pub_pc n pc s = s\<lparr>vr_pubs := (vr_pubs s)[n := (vr_pubs s ! n)\<lparr>pb_pc := pc\<rparr>]\<rparr>"

definition set_job :: "block_id \<Rightarrow> job \<Rightarrow> ('c, 't) versioned_run \<Rightarrow> ('c, 't) versioned_run" where
  "set_job b j s = s\<lparr>vr_job := (vr_job s)(b \<mapsto> j)\<rparr>"

definition trigger :: "chain_signal \<Rightarrow> ('c, 't) versioned_run \<Rightarrow> ('c, 't) versioned_run" where
  "trigger g s = s\<lparr>vr_settled := insert g (vr_settled s)\<rparr>"

definition enter_job :: "block_id \<Rightarrow> job \<Rightarrow> ('c, 't) versioned_run \<Rightarrow> ('c, 't) versioned_run" where
  "enter_job b j s = s\<lparr>vr_pipe := run_enter (vr_pipe s) (link b (job_mode j)), vr_job := (vr_job s)(b \<mapsto> j)\<rparr>"

definition leave_job :: "block_id \<Rightarrow> job \<Rightarrow> ('c, 't) versioned_run \<Rightarrow> ('c, 't) versioned_run" where
  "leave_job b j s = s\<lparr>vr_pipe := run_release (vr_pipe s) (link b (job_mode j)), vr_job := (vr_job s)(b := None)\<rparr>"

definition holding :: "('c, 't) versioned_run \<Rightarrow> block_id \<Rightarrow> job \<Rightarrow> bool" where
  "holding s b j \<longleftrightarrow> vr_job s b = Some j \<and> link b (job_mode j) \<in># run_holders (vr_pipe s)"

text \<open>Phase 2, by the write access of a dynamic publish or inside a graph node: swap and start the resync.\<close>

definition swap_phase :: "int \<Rightarrow> nat \<Rightarrow> block_id \<Rightarrow> ('c, 't) versioned_run \<Rightarrow> ('c, 't) versioned_run" where
  "swap_phase now n r s =
     (let (v, job) = start_resync (swap_replicas now (vr_obj s));
          s' = s\<lparr>vr_obj := v, vr_batches := vr_batches s @ [vs_batch (vr_obj s)]\<rparr>
      in if job then enter_job r (Resync_job n) (set_pub_pc n Resync_queued s')
         else trigger (Shadow_ready n) (set_pub_pc n Finished s'))"

definition versioned_run_new :: "('c, 't) versioned \<Rightarrow> nat \<Rightarrow> ('c, 't) versioned_run" where
  "versioned_run_new v rank = \<lparr>vr_obj = v, vr_pipe = run_init rank, vr_job = Map.empty, vr_pubs = [],
     vr_settled = {Ready}, vr_batches = [], vr_synced = {}\<rparr>"

definition all_synced :: "('c, 't) versioned_run \<Rightarrow> bool" where
  "all_synced s \<longleftrightarrow> (\<forall>n < length (vr_pubs s). pb_flip (vr_pubs s ! n) = None \<longrightarrow> Swapped n \<in> vr_settled s)
     \<and> (\<forall>b. vr_job s b \<noteq> Some Flip_job \<and> (\<forall>n. vr_job s b \<noteq> Some (Flip_publish n)))"

inductive versioned_step ::
  "('c \<Rightarrow> 't \<Rightarrow> 't) \<Rightarrow> ('c \<Rightarrow> 't \<Rightarrow> 't) \<Rightarrow> bool \<Rightarrow> ('c, 't) versioned_run \<Rightarrow> ('c, 't) versioned_run \<Rightarrow> bool"
  for run rerun copy_assignable where
  vn_journal: "versioned_step run rerun copy_assignable s (s\<lparr>vr_obj := (vr_obj s)\<lparr>vs_journal := j\<rparr>\<rparr>)"
| vn_publish: "publish (length (vr_pubs s)) (vr_obj s) = (v, prev) \<Longrightarrow>
     versioned_step run rerun copy_assignable s (s\<lparr>vr_obj := v, vr_synced := {},
       vr_pubs := vr_pubs s @ [\<lparr>pb_prev = prev, pb_flip = None, pb_pc = Gated\<rparr>]\<rparr>)"
| vn_submit: "at_pc s n Gated \<Longrightarrow> pb_prev (vr_pubs s ! n) \<in> vr_settled s \<Longrightarrow>
     versioned_step run rerun copy_assignable s (set_pub_pc n Submitted s)"
| vn_skip: "at_pc s n Submitted \<Longrightarrow> phase1 token (vr_obj s) = (v, False) \<Longrightarrow>
     versioned_step run rerun copy_assignable s
       (trigger (Shadow_ready n) (trigger (Swapped n) (set_pub_pc n Finished (s\<lparr>vr_obj := v\<rparr>))))"
| vn_begin: "at_pc s n Submitted \<Longrightarrow> phase1 token (vr_obj s) = (v, True) \<Longrightarrow>
     versioned_step run rerun copy_assignable s (set_pub_pc n (Applying 0) (s\<lparr>vr_obj := v\<rparr>))"
| vn_apply: "at_pc s n (Applying k) \<Longrightarrow> k < length (vs_batch (vr_obj s)) \<Longrightarrow>
     versioned_step run rerun copy_assignable s (set_pub_pc n (Applying (Suc k)) (s\<lparr>vr_obj := apply_command run k (vr_obj s)\<rparr>))"
| vn_enqueue: "at_pc s n (Applying (length (vs_batch (vr_obj s)))) \<Longrightarrow> pb_flip (vr_pubs s ! n) = None \<Longrightarrow> vr_job s b = None \<Longrightarrow>
     versioned_step run rerun copy_assignable s (enter_job b (Swap_job n) (set_pub_pc n Swap_queued s))"
| vn_swap: "at_pc s n Swap_queued \<Longrightarrow> holding s b (Swap_job n) \<Longrightarrow> vr_job s r = None \<Longrightarrow>
     versioned_step run rerun copy_assignable s (set_job b (Swapped_job n) (swap_phase now n r s))"
| vn_gate: "vr_job s b = Some (Swapped_job n) \<Longrightarrow>
     versioned_step run rerun copy_assignable s (set_job b (Done_job Read_write) (trigger (Swapped n) s))"
| vn_resync: "at_pc s n Resync_queued \<Longrightarrow> holding s b (Resync_job n) \<Longrightarrow>
     versioned_step run rerun copy_assignable s (set_pub_pc n (Resyncing 0) s)"
| vn_replay: "at_pc s n (Resyncing k) \<Longrightarrow> vs_policy (vr_obj s) = Replay \<Longrightarrow> k < length (vs_batch (vr_obj s)) \<Longrightarrow>
     versioned_step run rerun copy_assignable s (set_pub_pc n (Resyncing (Suc k)) (s\<lparr>vr_obj := apply_command rerun k (vr_obj s)\<rparr>))"
| vn_resynced: "at_pc s n (Resyncing k) \<Longrightarrow> vr_job s b = Some (Resync_job n) \<Longrightarrow>
     (vs_policy (vr_obj s) = Replay \<Longrightarrow> k = length (vs_batch (vr_obj s))) \<Longrightarrow>
     resync_finish copy_assignable (vr_obj s) = Inr v \<Longrightarrow>
     versioned_step run rerun copy_assignable s
       (trigger (Shadow_ready n) (set_job b (Done_job Read_only) (set_pub_pc n Finished (s\<lparr>vr_obj := v\<rparr>))))"
| vn_read: "vr_job s b = None \<Longrightarrow> versioned_step run rerun copy_assignable s (enter_job b Read_job s)"
| vn_release: "holding s b j \<Longrightarrow> j = Read_job \<or> (\<exists>m. j = Done_job m) \<Longrightarrow>
     versioned_step run rerun copy_assignable s (leave_job b j s)"
| vn_flip_enter: "vr_job s b = None \<Longrightarrow>
     versioned_step run rerun copy_assignable s
       (enter_job b Flip_job (s\<lparr>vr_synced := (if all_synced s then insert b (vr_synced s) else vr_synced s - {b})\<rparr>))"
| vn_flip: "holding s b Flip_job \<Longrightarrow>
     publish_into epochs ctx (\<lambda>g. g \<in> vr_settled s) front (length (vr_pubs s)) (vr_obj s) = Inr v \<Longrightarrow>
     versioned_step run rerun copy_assignable s (set_job b (Flip_publish (length (vr_pubs s))) (s\<lparr>vr_obj := v,
       vr_pubs := vr_pubs s @ [\<lparr>pb_prev = vs_chain (vr_obj s), pb_flip = Some b, pb_pc = Flip_cut\<rparr>]\<rparr>))"
| vn_flip_skip: "at_pc s n Flip_cut \<Longrightarrow> vr_job s b = Some (Flip_publish n) \<Longrightarrow> phase1 False (vr_obj s) = (v, False) \<Longrightarrow>
     versioned_step run rerun copy_assignable s
       (trigger (Shadow_ready n) (set_job b (Done_job Read_write) (set_pub_pc n Finished (s\<lparr>vr_obj := v\<rparr>))))"
| vn_flip_begin: "at_pc s n Flip_cut \<Longrightarrow> phase1 False (vr_obj s) = (v, True) \<Longrightarrow>
     versioned_step run rerun copy_assignable s (set_pub_pc n (Applying 0) (s\<lparr>vr_obj := v\<rparr>))"
| vn_flip_swap: "at_pc s n (Applying (length (vs_batch (vr_obj s)))) \<Longrightarrow> holding s b (Flip_publish n) \<Longrightarrow> vr_job s r = None \<Longrightarrow>
     versioned_step run rerun copy_assignable s (set_job b (Done_job Read_write) (swap_phase now n r s))"

inductive versioned_reach ::
  "('c \<Rightarrow> 't \<Rightarrow> 't) \<Rightarrow> ('c \<Rightarrow> 't \<Rightarrow> 't) \<Rightarrow> bool \<Rightarrow> 't \<Rightarrow> ('c, 't) versioned_run \<Rightarrow> bool"
  for run rerun copy_assignable t where
  vr_start: "versioned_new h policy inst t now = Inr v \<Longrightarrow>
     versioned_reach run rerun copy_assignable t
       (versioned_run_new (v\<lparr>vs_copy := copy, vs_hash := hash\<rparr>) rank)"
| vr_step: "versioned_reach run rerun copy_assignable t s \<Longrightarrow> versioned_step run rerun copy_assignable s s' \<Longrightarrow>
     versioned_reach run rerun copy_assignable t s'"

section \<open>Properties of reading two versions\<close>


text \<open>A grant on an object lasts when further objects are declared.\<close>

lemma ctx_add_keeps:
  "ctx_add epochs ctx inst mode epoch rank = Inr ctx' \<Longrightarrow> ctx_grants epochs ctx a m \<Longrightarrow> ctx_grants epochs ctx' a m"
  by (auto simp: ctx_add_def ctx_grants_iff split: if_splits)

text \<open>
  A version view grants what it shows: whether it was lent by a context that grants the front or took
  its own turn, the context it installs grants reading the current and the previous version and
  everything the running context granted; and it faults exactly when the two (or, lent, the one)
  further entries do not fit.
\<close>

theorem version_view_grants_both:
  assumes "case held of None \<Rightarrow> ctx_grants epochs ctx current Read_only | Some _ \<Rightarrow> True"
  shows "(\<exists>ctx'. view_context epochs (Some ctx) current previous held = Inr ctx'
      \<and> ctx_grants epochs ctx' current Read_only \<and> ctx_grants epochs ctx' previous Read_only
      \<and> (\<forall>a m. ctx_grants epochs ctx a m \<longrightarrow> ctx_grants epochs ctx' a m))
    \<or> (view_context epochs (Some ctx) current previous held = Inl Access_context_overflow
      \<and> (length ctx = max_entries \<or> (held \<noteq> None \<and> Suc (length ctx) = max_entries)))"
proof (cases held)
  case None
  show ?thesis
  proof (cases "ctx_add epochs ctx previous Read_only None 0")
    case (Inl e)
    then show ?thesis using None by (auto simp: view_context_def ctx_add_def split: if_splits)
  next
    case (Inr ctx')
    then show ?thesis
      using None assms ctx_add_keeps [OF Inr] ctx_add_fresh_grants [OF Inr] by (simp add: view_context_def)
  qed
next
  case (Some pr)
  obtain p rank where held: "held = Some (p, rank)" using Some by (cases pr) auto
  show ?thesis
  proof (cases "ctx_add epochs ctx current Read_only (Some p) rank")
    case (Inl e)
    then show ?thesis using held by (auto simp: view_context_def ctx_add_def split: if_splits)
  next
    case first: (Inr ctx1)
    show ?thesis
    proof (cases "ctx_add epochs ctx1 previous Read_only None 0")
      case (Inl e)
      then have "length ctx1 = max_entries" "e = Access_context_overflow" by (auto simp: ctx_add_def split: if_splits)
      then show ?thesis using held first Inl by (auto simp: view_context_def ctx_add_def split: if_splits)
    next
      case (Inr ctx')
      then show ?thesis
        using held first ctx_add_keeps [OF Inr] ctx_add_keeps [OF first] ctx_add_fresh_grants [OF Inr]
          ctx_add_fresh_grants [OF first] by (simp add: view_context_def)
    qed
  qed
qed


theorem version_view_grants_both_witness:
  "\<exists>ctx'. view_context (\<lambda>_. 0) (Some []) 9 10 (Some (3, 0)) = Inr ctx' \<and> ctx_grants (\<lambda>_. 0) ctx' 10 Read_only"
  using version_view_grants_both [where held = "Some (3, 0)" and epochs = "\<lambda>_. 0" and ctx = "[]" and current = 9 and previous = 10] by (auto simp: max_entries_def)
end
