(* ===== verification/Versioned_Run.thy ===== *)
theory Versioned_Run
  imports Versioned
begin

text \<open>
  What holds of a versioned object in use, whatever the interleaving of publishes, graph publishes,
  resyncs, readers and producers: the publish chain admits one publish at a time to the shadow and
  the batch slot, the front is always a whole published version, a reader sees one version for as
  long as it holds its grant, and a graph publish ordered after synced publishes never faults.
\<close>

lemmas versioned_defs = set_pub_pc_def set_job_def trigger_def enter_job_def leave_job_def swap_phase_def
  apply_command_def start_resync_def publish_def phase1_def

section \<open>The publish chain\<close>

text \<open>
  Publishes before \<open>f\<close> have finished, publish \<open>f\<close> is the one under way (if any), the later ones wait;
  each waits for the one before it, and the chain's end is the last one.
\<close>

definition chain_ok :: "publication list \<Rightarrow> chain_signal set \<Rightarrow> chain_signal \<Rightarrow> nat \<Rightarrow> bool" where
  "chain_ok pubs settled chain f \<longleftrightarrow>
     f \<le> length pubs
     \<and> (\<forall>i < f. pb_pc (pubs ! i) = Finished)
     \<and> (\<forall>i. f < i \<and> i < length pubs \<longrightarrow> pb_pc (pubs ! i) = Gated)
     \<and> (f < length pubs \<longrightarrow> pb_pc (pubs ! f) \<noteq> Finished)
     \<and> chain = (if pubs = [] then Ready else Shadow_ready (length pubs - 1))
     \<and> (\<forall>i < length pubs. pb_prev (pubs ! i) = (if i = 0 then Ready else Shadow_ready (i - 1)))
     \<and> Ready \<in> settled
     \<and> (\<forall>i. Shadow_ready i \<in> settled \<longleftrightarrow> i < f)"

definition current_pc :: "publication list \<Rightarrow> nat \<Rightarrow> publish_pc" where
  "current_pc pubs f = (if f < length pubs then pb_pc (pubs ! f) else Finished)"

lemma chain_ok_active:
  "chain_ok pubs settled chain f \<Longrightarrow> n < length pubs \<Longrightarrow> pb_pc (pubs ! n) \<noteq> Gated \<Longrightarrow> pb_pc (pubs ! n) \<noteq> Finished \<Longrightarrow> n = f"
  unfolding chain_ok_def by (metis nat_neq_iff)

lemma chain_ok_released:
  assumes "chain_ok pubs settled chain f" and "n < length pubs" and "pb_pc (pubs ! n) = Gated"
    and "pb_prev (pubs ! n) \<in> settled"
  shows "n = f"
proof (cases "n = 0")
  case True
  then show ?thesis using assms unfolding chain_ok_def by (cases "f = 0") force+
next
  case False
  then have "n - 1 < f" using assms unfolding chain_ok_def by simp
  moreover have "\<not> n < f" using assms unfolding chain_ok_def by force
  ultimately show ?thesis by simp
qed

lemma chain_ok_move:
  assumes "chain_ok pubs settled chain f" and "f < length pubs" and "pc \<noteq> Finished"
  shows "chain_ok (pubs[f := (pubs ! f)\<lparr>pb_pc := pc\<rparr>]) settled chain f"
    and "current_pc (pubs[f := (pubs ! f)\<lparr>pb_pc := pc\<rparr>]) f = pc"
  using assms unfolding chain_ok_def current_pc_def by (auto simp: nth_list_update)

lemma chain_ok_finish:
  assumes "chain_ok pubs settled chain f" and "f < length pubs"
  shows "chain_ok (pubs[f := (pubs ! f)\<lparr>pb_pc := Finished\<rparr>]) (insert (Shadow_ready f) settled) chain (Suc f)"
    and "current_pc (pubs[f := (pubs ! f)\<lparr>pb_pc := Finished\<rparr>]) (Suc f) \<in> {Gated, Finished}"
  using assms unfolding chain_ok_def current_pc_def by (auto simp: nth_list_update less_Suc_eq)

lemma chain_ok_append:
  assumes "chain_ok pubs settled chain f" and "pb_prev p = chain" and "pb_pc p \<noteq> Finished"
    and "pb_pc p = Gated \<or> f = length pubs"
  shows "chain_ok (pubs @ [p]) settled (Shadow_ready (length pubs)) f"
    and "current_pc (pubs @ [p]) f = (if f = length pubs then pb_pc p else current_pc pubs f)"
  using assms unfolding chain_ok_def current_pc_def by (auto simp: nth_append less_Suc_eq)

lemma chain_ok_gate:
  "chain_ok pubs settled chain f \<Longrightarrow> chain_ok pubs (insert (Swapped n) settled) chain f"
  unfolding chain_ok_def by simp

lemma chain_ok_done:
  "chain_ok pubs settled chain f \<Longrightarrow> chain \<in> settled \<longleftrightarrow> f = length pubs"
  unfolding chain_ok_def by (cases pubs) auto

section \<open>What the replicas hold\<close>

text \<open>
  The front is the fold of the published batches, and the previous version that of all but the last; the
  shadow equals the front except while a publish works on it. Under \<open>Overwrite\<close> the shadow may be anything
  between publishes.
\<close>

definition version :: "('c \<Rightarrow> 't \<Rightarrow> 't) \<Rightarrow> 't \<Rightarrow> 'c list list \<Rightarrow> 't" where
  "version run t bs = fold run (concat bs) t"

lemma version_snoc [simp]: "version run t (bs @ [b]) = fold run b (version run t bs)"
  by (simp add: version_def)

fun shadow_ok :: "('c \<Rightarrow> 't \<Rightarrow> 't) \<Rightarrow> ('c \<Rightarrow> 't \<Rightarrow> 't) \<Rightarrow> 't \<Rightarrow> ('c, 't) versioned \<Rightarrow> 'c list list \<Rightarrow> publish_pc \<Rightarrow> bool" where
  "shadow_ok run rerun t v bs (Applying k) \<longleftrightarrow> vs_batch v \<noteq> [] \<and> k \<le> length (vs_batch v)
     \<and> (\<exists>u. (vs_policy v \<noteq> Overwrite \<longrightarrow> u = vs_front v) \<and> vs_shadow v = fold run (take k (vs_batch v)) u)"
| "shadow_ok run rerun t v bs Swap_queued \<longleftrightarrow> vs_batch v \<noteq> []
     \<and> (\<exists>u. (vs_policy v \<noteq> Overwrite \<longrightarrow> u = vs_front v) \<and> vs_shadow v = fold run (vs_batch v) u)"
| "shadow_ok run rerun t v bs Resync_queued \<longleftrightarrow> vs_policy v \<noteq> Overwrite \<and> bs \<noteq> [] \<and> last bs = vs_batch v
     \<and> (vs_policy v = Replay \<longrightarrow> vs_shadow v = version run t (butlast bs))"
| "shadow_ok run rerun t v bs (Resyncing k) \<longleftrightarrow> vs_policy v \<noteq> Overwrite \<and> bs \<noteq> [] \<and> last bs = vs_batch v
     \<and> (vs_policy v = Replay \<longrightarrow> k \<le> length (vs_batch v)
          \<and> vs_shadow v = fold rerun (take k (vs_batch v)) (version run t (butlast bs)))"
| "shadow_ok run rerun t v bs _ \<longleftrightarrow> vs_batch v = [] \<and> (vs_policy v \<noteq> Overwrite \<longrightarrow> vs_shadow v = vs_front v)"

definition data_ok :: "('c \<Rightarrow> 't \<Rightarrow> 't) \<Rightarrow> ('c \<Rightarrow> 't \<Rightarrow> 't) \<Rightarrow> 't \<Rightarrow> ('c, 't) versioned \<Rightarrow> 'c list list \<Rightarrow> publish_pc \<Rightarrow> bool" where
  "data_ok run rerun t v bs pc \<longleftrightarrow>
     vs_front v = version run t bs
     \<and> (vs_history v = Current_and_previous \<longrightarrow> vs_policy v \<noteq> Replay
          \<and> vs_previous v = version run t (butlast bs) \<and> current_serial (vs_stamps v) = word_of_nat (length bs))
     \<and> shadow_ok run rerun t v bs pc"

text \<open>
  What the header asks of the user. \<open>Replay\<close>: the commands are deterministic. \<open>Copy\<close>: a custom copy
  copies. \<open>Overwrite\<close>: every published batch overwrites the whole state.
\<close>

definition contract :: "('c \<Rightarrow> 't \<Rightarrow> 't) \<Rightarrow> ('c \<Rightarrow> 't \<Rightarrow> 't) \<Rightarrow> ('c, 't) versioned \<Rightarrow> 'c list list \<Rightarrow> bool" where
  "contract run rerun v bs \<longleftrightarrow>
     (vs_policy v = Replay \<longrightarrow> rerun = run)
     \<and> (vs_policy v = Copy \<longrightarrow> (\<forall>f. vs_copy v = Some f \<longrightarrow> (\<forall>d s. f d s = s)))
     \<and> (vs_policy v = Overwrite \<longrightarrow> (\<forall>b \<in> set bs. \<forall>u w. fold run b u = fold run b w))"

lemma data_ok_journal [simp]:
  "data_ok run rerun t (v\<lparr>vs_journal := j\<rparr>) bs pc = data_ok run rerun t v bs pc"
  "data_ok run rerun t (v\<lparr>vs_chain := c\<rparr>) bs pc = data_ok run rerun t v bs pc"
  "data_ok run rerun t (v\<lparr>vs_last_publish := c\<rparr>) bs pc = data_ok run rerun t v bs pc"
  by (cases pc; simp add: data_ok_def)+

lemma data_ok_idle:
  "pc \<in> {Gated, Submitted, Flip_cut, Finished} \<Longrightarrow> pc' \<in> {Gated, Submitted, Flip_cut, Finished} \<Longrightarrow>
     data_ok run rerun t v bs pc = data_ok run rerun t v bs pc'"
  by (auto simp: data_ok_def)

text \<open>Phase 1 begins.\<close>

lemma data_ok_phase1:
  assumes "data_ok run rerun t v bs pc" and "pc = Submitted \<or> pc = Flip_cut" and "phase1 token v = (w, go)"
  shows "data_ok run rerun t w bs (if go then Applying 0 else pc)" and "vs_chain w = vs_chain v"
  using assms by (auto simp: phase1_def data_ok_def Let_def cut_eq split: if_splits)

lemma data_ok_apply:
  assumes "data_ok run rerun t v bs (Applying k)" and "k < length (vs_batch v)"
  shows "data_ok run rerun t (apply_command run k v) bs (Applying (Suc k))"
  using assms by (auto simp: data_ok_def apply_command_def take_Suc_conv_app_nth)

lemma data_ok_enqueue:
  "data_ok run rerun t v bs (Applying (length (vs_batch v))) \<Longrightarrow> data_ok run rerun t v bs Swap_queued"
  by (auto simp: data_ok_def)

lemma data_ok_swap:
  assumes ok: "data_ok run rerun t v bs Swap_queued" and start: "start_resync (swap_replicas now v) = (w, job)"
    and con: "contract run rerun v (bs @ [vs_batch v])"
  shows "data_ok run rerun t w (bs @ [vs_batch v]) (if job then Resync_queued else Finished)"
proof -
  obtain u where u: "vs_policy v \<noteq> Overwrite \<Longrightarrow> u = vs_front v" "vs_shadow v = fold run (vs_batch v) u"
    using ok by (auto simp: data_ok_def)
  have front: "vs_front v = version run t bs" using ok by (simp add: data_ok_def)
  have "vs_shadow v = fold run (vs_batch v) (version run t bs)"
  proof (cases "vs_policy v = Overwrite")
    case True
    then show ?thesis using u(2) con unfolding contract_def by fastforce
  next
    case False
    then show ?thesis using u front by simp
  qed
  then show ?thesis
    using ok start front
    by (auto simp: data_ok_def start_resync_def swap_replicas_def Let_def split: if_splits)
qed

lemma data_ok_resync: "data_ok run rerun t v bs Resync_queued \<Longrightarrow> data_ok run rerun t v bs (Resyncing 0)"
  by (auto simp: data_ok_def)

lemma data_ok_replay:
  assumes "data_ok run rerun t v bs (Resyncing k)" and "k < length (vs_batch v)"
  shows "data_ok run rerun t (apply_command rerun k v) bs (Resyncing (Suc k))"
  using assms by (auto simp: data_ok_def apply_command_def take_Suc_conv_app_nth)

text \<open>At the end of a replay of deterministic commands the replicas agree.\<close>

lemma replayed_equal:
  assumes "data_ok run rerun t v bs (Resyncing (length (vs_batch v)))" and "vs_policy v = Replay" and "rerun = run"
  shows "vs_shadow v = vs_front v"
proof -
  have "bs \<noteq> []" "last bs = vs_batch v" using assms(1) by (auto simp: data_ok_def)
  then have bs: "bs = butlast bs @ [vs_batch v]" by (metis append_butlast_last_id)
  have "vs_front v = version run t bs" using assms(1) by (simp add: data_ok_def)
  also have "\<dots> = fold run (vs_batch v) (version run t (butlast bs))" by (subst bs) simp
  finally show ?thesis using assms by (simp add: data_ok_def)
qed

lemma data_ok_resynced:
  assumes ok: "data_ok run rerun t v bs (Resyncing k)"
    and fin: "vs_policy v = Replay \<Longrightarrow> k = length (vs_batch v)"
    and res: "resync_finish copy_assignable v = Inr w" and con: "contract run rerun v bs"
  shows "data_ok run rerun t w bs Finished"
proof (cases "vs_policy v")
  case Replay
  then have "vs_shadow v = vs_front v"
    using replayed_equal [OF _ Replay] ok fin con by (simp add: contract_def)
  then show ?thesis using Replay ok res
    by (auto simp: data_ok_def resync_finish_def split: sum.splits)
next
  case Copy
  then show ?thesis using ok res con
    by (auto simp: data_ok_def resync_finish_def resync_copy_def contract_def split: sum.splits option.splits if_splits)
next
  case Overwrite
  then show ?thesis using ok by (simp add: data_ok_def)
qed

section \<open>Both together, under any interleaving\<close>

definition run_ok :: "('c \<Rightarrow> 't \<Rightarrow> 't) \<Rightarrow> ('c \<Rightarrow> 't \<Rightarrow> 't) \<Rightarrow> 't \<Rightarrow> ('c, 't) versioned_run \<Rightarrow> nat \<Rightarrow> bool" where
  "run_ok run rerun t s f \<longleftrightarrow>
     chain_ok (vr_pubs s) (vr_settled s) (vs_chain (vr_obj s)) f
     \<and> (contract run rerun (vr_obj s) (vr_batches s) \<longrightarrow>
          data_ok run rerun t (vr_obj s) (vr_batches s) (current_pc (vr_pubs s) f))"

lemma swap_phase_obj:
  "vr_pubs (swap_phase now n r s) = (vr_pubs s)[n := (vr_pubs s ! n)\<lparr>pb_pc :=
     (if vs_policy (vr_obj s) = Overwrite then Finished else Resync_queued)\<rparr>]"
  "vr_settled (swap_phase now n r s) =
     (if vs_policy (vr_obj s) = Overwrite then insert (Shadow_ready n) (vr_settled s) else vr_settled s)"
  "vr_batches (swap_phase now n r s) = vr_batches s @ [vs_batch (vr_obj s)]"
  "vr_obj (swap_phase now n r s) = fst (start_resync (swap_replicas now (vr_obj s)))"
  "vr_job (swap_phase now n r s) =
     (if vs_policy (vr_obj s) = Overwrite then vr_job s else (vr_job s)(r \<mapsto> Resync_job n))"
  "vr_pipe (swap_phase now n r s) =
     (if vs_policy (vr_obj s) = Overwrite then vr_pipe s else run_enter (vr_pipe s) (link r Read_only))"
  "vr_synced (swap_phase now n r s) = vr_synced s"
  by (auto simp: swap_phase_def start_resync_def swap_replicas_def Let_def trigger_def set_pub_pc_def enter_job_def)

lemma contract_back:
  "vs_policy w = vs_policy v \<Longrightarrow> vs_copy w = vs_copy v \<Longrightarrow> set bs \<subseteq> set bs' \<Longrightarrow>
     contract run rerun w bs' \<Longrightarrow> contract run rerun v bs"
  unfolding contract_def by auto

lemma contract_shadow [simp]: "contract run rerun (v\<lparr>vs_shadow := x\<rparr>) bs = contract run rerun v bs"
  by (simp add: contract_def)

lemma phase1_fields: "phase1 token v = (w, go) \<Longrightarrow> vs_policy w = vs_policy v \<and> vs_copy w = vs_copy v \<and> vs_chain w = vs_chain v"
  by (auto simp: phase1_def Let_def cut_eq split: if_splits)

lemma swap_fields: "start_resync (swap_replicas now v) = (w, job) \<Longrightarrow>
   vs_policy w = vs_policy v \<and> vs_copy w = vs_copy v \<and> vs_chain w = vs_chain v \<and> (job \<longleftrightarrow> vs_policy v \<noteq> Overwrite)"
  by (auto simp: start_resync_def swap_replicas_def Let_def split: if_splits)

lemma resync_fields: "resync_finish ca v = Inr w \<Longrightarrow>
   vs_policy w = vs_policy v \<and> vs_copy w = vs_copy v \<and> vs_chain w = vs_chain v"
  by (auto simp: resync_finish_def resync_copy_def split: sum.splits option.splits if_splits)

lemma publish_into_fields: "publish_into epochs ctx settled front n v = Inr w \<Longrightarrow>
   w = v\<lparr>vs_chain := Shadow_ready n\<rparr> \<and> settled (vs_chain v)"
  by (auto simp: publish_into_def split: sum.splits if_splits)

text \<open>The moves of the publish under way.\<close>

lemma run_ok_active:
  "run_ok run rerun t s f \<Longrightarrow> at_pc s n pc \<Longrightarrow> pc \<noteq> Gated \<Longrightarrow> pc \<noteq> Finished \<Longrightarrow> n = f \<and> current_pc (vr_pubs s) f = pc"
  using chain_ok_active [of "vr_pubs s" "vr_settled s" "vs_chain (vr_obj s)" f n]
  unfolding run_ok_def current_pc_def by simp

lemma run_ok_move:
  assumes "run_ok run rerun t s f" and "f < length (vr_pubs s)" and "pc \<noteq> Finished"
    and "vs_chain v = vs_chain (vr_obj s)"
    and "contract run rerun v (vr_batches s) \<Longrightarrow> contract run rerun (vr_obj s) (vr_batches s)"
    and "data_ok run rerun t (vr_obj s) (vr_batches s) (current_pc (vr_pubs s) f) \<Longrightarrow> data_ok run rerun t v (vr_batches s) pc"
  shows "run_ok run rerun t (set_pub_pc f pc (s\<lparr>vr_obj := v\<rparr>)) f"
  using assms chain_ok_move [of "vr_pubs s" _ _ f pc] unfolding run_ok_def by (auto simp: set_pub_pc_def)

lemma run_ok_finish:
  assumes "run_ok run rerun t s f" and "f < length (vr_pubs s)"
    and "vs_chain v = vs_chain (vr_obj s)"
    and "contract run rerun v (vr_batches s) \<Longrightarrow> contract run rerun (vr_obj s) (vr_batches s)"
    and "contract run rerun v (vr_batches s) \<Longrightarrow>
      data_ok run rerun t (vr_obj s) (vr_batches s) (current_pc (vr_pubs s) f) \<Longrightarrow> data_ok run rerun t v (vr_batches s) Finished"
  shows "run_ok run rerun t (trigger (Shadow_ready f) (set_pub_pc f Finished (s\<lparr>vr_obj := v\<rparr>))) (Suc f)"
  using assms chain_ok_finish [of "vr_pubs s" "vr_settled s" "vs_chain (vr_obj s)" f]
    data_ok_idle [of "current_pc ((vr_pubs s)[f := (vr_pubs s ! f)\<lparr>pb_pc := Finished\<rparr>]) (Suc f)" Finished run rerun t v]
  unfolding run_ok_def by (auto simp: set_pub_pc_def trigger_def)

lemma run_ok_swap:
  assumes ok: "run_ok run rerun t s f" and f: "f < length (vr_pubs s)"
    and pc: "current_pc (vr_pubs s) f = Swap_queued \<or> current_pc (vr_pubs s) f = Applying (length (vs_batch (vr_obj s)))"
  shows "\<exists>f'. run_ok run rerun t (swap_phase now f r s) f'"
proof -
  obtain w job where start: "start_resync (swap_replicas now (vr_obj s)) = (w, job)" by fastforce
  note fields = swap_fields [OF start]
  let ?bs = "vr_batches s @ [vs_batch (vr_obj s)]"
  have data: "data_ok run rerun t w ?bs (if job then Resync_queued else Finished)" if "contract run rerun w ?bs"
  proof -
    have "contract run rerun (vr_obj s) (vr_batches s)" "contract run rerun (vr_obj s) ?bs"
      using contract_back [OF _ _ _ that, of "vr_obj s"] fields by auto
    moreover from this(1) have "data_ok run rerun t (vr_obj s) (vr_batches s) Swap_queued"
      using ok pc data_ok_enqueue unfolding run_ok_def by auto
    ultimately show ?thesis using data_ok_swap [OF _ start] by blast
  qed
  have chain: "chain_ok (vr_pubs s) (vr_settled s) (vs_chain (vr_obj s)) f" using ok by (simp add: run_ok_def)
  show ?thesis
  proof (cases "vs_policy (vr_obj s) = Overwrite")
    case True
    have "run_ok run rerun t (swap_phase now f r s) (Suc f)"
      using True fields start data chain_ok_finish [OF chain f]
        data_ok_idle [of "current_pc ((vr_pubs s)[f := (vr_pubs s ! f)\<lparr>pb_pc := Finished\<rparr>]) (Suc f)" Finished run rerun t w]
      unfolding run_ok_def by (auto simp: swap_phase_obj)
    then show ?thesis ..
  next
    case False
    have "run_ok run rerun t (swap_phase now f r s) f"
      using False fields start data chain_ok_move [OF chain f, of Resync_queued]
      unfolding run_ok_def by (auto simp: swap_phase_obj)
    then show ?thesis ..
  qed
qed

text \<open>What the invariant does not look at: the pipe, the jobs, the gates and the bookkeeping of synced nodes.\<close>

lemma run_ok_other [simp]:
  "run_ok run rerun t (set_job b j s) f = run_ok run rerun t s f"
  "run_ok run rerun t (enter_job b j s) f = run_ok run rerun t s f"
  "run_ok run rerun t (leave_job b j s) f = run_ok run rerun t s f"
  "run_ok run rerun t (s\<lparr>vr_synced := y\<rparr>) f = run_ok run rerun t s f"
  by (simp_all add: run_ok_def set_job_def enter_job_def leave_job_def)

lemma run_ok_gate: "run_ok run rerun t s f \<Longrightarrow> run_ok run rerun t (trigger (Swapped n) s) f"
  unfolding run_ok_def using chain_ok_gate by (simp add: trigger_def)

lemma trigger_commute: "trigger g (set_job b j s) = set_job b j (trigger g s)" "trigger g (trigger h s) = trigger h (trigger g s)"
  by (simp_all add: trigger_def set_job_def insert_commute)

lemma run_ok_step:
  assumes ok: "run_ok run rerun t s f" and "versioned_step run rerun ca s s'"
  shows "\<exists>f'. run_ok run rerun t s' f'"
  using assms(2)
proof cases
  case (vn_journal j)
  then show ?thesis using ok by (auto simp: run_ok_def contract_def)
next
  case (vn_publish v prev)
  have "chain_ok (vr_pubs s) (vr_settled s) (vs_chain (vr_obj s)) f" using ok by (simp add: run_ok_def)
  then show ?thesis
    using ok vn_publish chain_ok_append [of "vr_pubs s" "vr_settled s" _ f "\<lparr>pb_prev = prev, pb_flip = None, pb_pc = Gated\<rparr>"]
      data_ok_idle [of Gated Finished run rerun t]
    by (intro exI [of _ f]) (auto simp: run_ok_def publish_def contract_def current_pc_def)
next
  case (vn_submit n)
  then have "n = f" using ok chain_ok_released unfolding run_ok_def by blast
  then have "run_ok run rerun t (set_pub_pc f Submitted (s\<lparr>vr_obj := vr_obj s\<rparr>)) f"
    using vn_submit ok by (intro run_ok_move) (auto simp: current_pc_def data_ok_def)
  then show ?thesis using vn_submit \<open>n = f\<close> by auto
next
  case (vn_skip n token v)
  then have n: "n = f" "current_pc (vr_pubs s) f = Submitted" using run_ok_active [OF ok, of n Submitted] by auto
  have "run_ok run rerun t (trigger (Shadow_ready f) (set_pub_pc f Finished (s\<lparr>vr_obj := v\<rparr>))) (Suc f)"
    using vn_skip n ok data_ok_phase1 [of run rerun t "vr_obj s" "vr_batches s" Submitted token v False]
      phase1_fields [OF vn_skip(3)] data_ok_idle [of Submitted Finished run rerun t]
    by (intro run_ok_finish) (auto intro: contract_back)
  then show ?thesis using vn_skip n run_ok_gate by (metis trigger_commute(2))
next
  case (vn_begin n token v)
  then have n: "n = f" "current_pc (vr_pubs s) f = Submitted" using run_ok_active [OF ok, of n Submitted] by auto
  have "run_ok run rerun t (set_pub_pc f (Applying 0) (s\<lparr>vr_obj := v\<rparr>)) f"
    using vn_begin n ok data_ok_phase1 [of run rerun t "vr_obj s" "vr_batches s" Submitted token v True]
      phase1_fields [OF vn_begin(3)]
    by (intro run_ok_move) (auto intro: contract_back)
  then show ?thesis using vn_begin n by auto
next
  case (vn_apply n k)
  then have n: "n = f" "current_pc (vr_pubs s) f = Applying k" using run_ok_active [OF ok, of n "Applying k"] by auto
  have "run_ok run rerun t (set_pub_pc f (Applying (Suc k)) (s\<lparr>vr_obj := apply_command run k (vr_obj s)\<rparr>)) f"
    using vn_apply n ok data_ok_apply [of run rerun t "vr_obj s" "vr_batches s" k]
    by (intro run_ok_move) (auto simp: apply_command_def intro: contract_back)
  then show ?thesis using vn_apply n by auto
next
  case (vn_enqueue n b)
  then have n: "n = f" "current_pc (vr_pubs s) f = Applying (length (vs_batch (vr_obj s)))" using run_ok_active [OF ok, of n "Applying (length (vs_batch (vr_obj s)))"] by auto
  have "run_ok run rerun t (set_pub_pc f Swap_queued (s\<lparr>vr_obj := vr_obj s\<rparr>)) f"
    using vn_enqueue n ok data_ok_enqueue [of run rerun t "vr_obj s"] by (intro run_ok_move) auto
  then show ?thesis using vn_enqueue n by auto
next
  case (vn_swap n b r now)
  then have n: "n = f" "current_pc (vr_pubs s) f = Swap_queued" using run_ok_active [OF ok, of n Swap_queued] by auto
  then show ?thesis using vn_swap run_ok_swap [OF ok] by auto
next
  case (vn_gate b n)
  then show ?thesis using run_ok_gate [OF ok] by auto
next
  case (vn_resync n b)
  then have n: "n = f" "current_pc (vr_pubs s) f = Resync_queued" using run_ok_active [OF ok, of n Resync_queued] by auto
  have "run_ok run rerun t (set_pub_pc f (Resyncing 0) (s\<lparr>vr_obj := vr_obj s\<rparr>)) f"
    using vn_resync n ok data_ok_resync [of run rerun t "vr_obj s"] by (intro run_ok_move) auto
  then show ?thesis using vn_resync n by auto
next
  case (vn_replay n k)
  then have n: "n = f" "current_pc (vr_pubs s) f = Resyncing k" using run_ok_active [OF ok, of n "Resyncing k"] by auto
  have "run_ok run rerun t (set_pub_pc f (Resyncing (Suc k)) (s\<lparr>vr_obj := apply_command rerun k (vr_obj s)\<rparr>)) f"
    using vn_replay n ok data_ok_replay [of run rerun t "vr_obj s" "vr_batches s" k]
    by (intro run_ok_move) (auto simp: apply_command_def intro: contract_back)
  then show ?thesis using vn_replay n by auto
next
  case (vn_resynced n k b v)
  then have n: "n = f" "current_pc (vr_pubs s) f = Resyncing k" using run_ok_active [OF ok, of n "Resyncing k"] by auto
  note fields = resync_fields [OF vn_resynced(5)]
  have keep: "contract run rerun v (vr_batches s) \<Longrightarrow> contract run rerun (vr_obj s) (vr_batches s)"
    using fields by (auto intro: contract_back)
  have "run_ok run rerun t (trigger (Shadow_ready f) (set_pub_pc f Finished (s\<lparr>vr_obj := v\<rparr>))) (Suc f)"
    using vn_resynced n ok fields data_ok_resynced [OF _ vn_resynced(4,5), of run rerun t "vr_batches s"] keep
    by (intro run_ok_finish) auto
  then show ?thesis using vn_resynced n by (auto simp: trigger_commute)
next
  case (vn_read b)
  then show ?thesis using ok by auto
next
  case (vn_release b j)
  then show ?thesis using ok by auto
next
  case (vn_flip_enter b)
  then show ?thesis using ok by auto
next
  case (vn_flip b epochs ctx front v)
  note v = publish_into_fields [OF vn_flip(3)]
  have chain: "chain_ok (vr_pubs s) (vr_settled s) (vs_chain (vr_obj s)) f" using ok by (simp add: run_ok_def)
  with v have f: "f = length (vr_pubs s)" using chain_ok_done by auto
  have "run_ok run rerun t (s\<lparr>vr_obj := v,
       vr_pubs := vr_pubs s @ [\<lparr>pb_prev = vs_chain (vr_obj s), pb_flip = Some b, pb_pc = Flip_cut\<rparr>]\<rparr>) f"
    using ok v f chain_ok_append [OF chain, of "\<lparr>pb_prev = vs_chain (vr_obj s), pb_flip = Some b, pb_pc = Flip_cut\<rparr>"]
      data_ok_idle [of Flip_cut Finished run rerun t]
    by (auto simp: run_ok_def contract_def current_pc_def)
  then show ?thesis using vn_flip by auto
next
  case (vn_flip_skip n b v)
  then have n: "n = f" "current_pc (vr_pubs s) f = Flip_cut" using run_ok_active [OF ok, of n Flip_cut] by auto
  have "run_ok run rerun t (trigger (Shadow_ready f) (set_pub_pc f Finished (s\<lparr>vr_obj := v\<rparr>))) (Suc f)"
    using vn_flip_skip n ok data_ok_phase1 [of run rerun t "vr_obj s" "vr_batches s" Flip_cut False v False]
      phase1_fields [OF vn_flip_skip(4)] data_ok_idle [of Flip_cut Finished run rerun t]
    by (intro run_ok_finish) (auto intro: contract_back)
  then show ?thesis using vn_flip_skip n by (auto simp: trigger_commute)
next
  case (vn_flip_begin n v)
  then have n: "n = f" "current_pc (vr_pubs s) f = Flip_cut" using run_ok_active [OF ok, of n Flip_cut] by auto
  have "run_ok run rerun t (set_pub_pc f (Applying 0) (s\<lparr>vr_obj := v\<rparr>)) f"
    using vn_flip_begin n ok data_ok_phase1 [of run rerun t "vr_obj s" "vr_batches s" Flip_cut False v True]
      phase1_fields [OF vn_flip_begin(3)]
    by (intro run_ok_move) (auto intro: contract_back)
  then show ?thesis using vn_flip_begin n by auto
next
  case (vn_flip_swap n b r now)
  then have n: "n = f" "current_pc (vr_pubs s) f = Applying (length (vs_batch (vr_obj s)))" using run_ok_active [OF ok, of n "Applying (length (vs_batch (vr_obj s)))"] by auto
  then show ?thesis using vn_flip_swap run_ok_swap [OF ok] by auto
qed

lemma run_ok_reach: "versioned_reach run rerun ca t s \<Longrightarrow> \<exists>f. run_ok run rerun t s f"
proof (induction rule: versioned_reach.induct)
  case (vr_start h policy inst now v copy hash rank)
  then show ?case
    by (intro exI [of _ 0]) (auto simp: run_ok_def versioned_run_new_def versioned_new_def chain_ok_def data_ok_def
        current_pc_def version_def split: if_splits)
next
  case (vr_step s s')
  then obtain f where "run_ok run rerun t s f" by blast
  from run_ok_step [OF this vr_step.hyps(2)] show ?case .
qed
end
