(* ===== verification/Pipe_Order.thy ===== *)
theory Pipe_Order
  imports Pipe
begin

text \<open>
  The order of entries in one pipe, as a client that reasons about several of its own accesses needs it:
  everybody inside is ahead of a writer that enters, and nobody overtakes.
\<close>

section \<open>Who is ahead of whom in the front's pipe\<close>

definition inside :: "pipe_run \<Rightarrow> pipe_entry multiset" where
  "inside P = run_holders P + mset (pp_queue (run_pipe P))"

text \<open>\<open>ahead P x y\<close>: \<open>y\<close> is queued, and \<open>x\<close> holds a grant or is queued before it.\<close>

definition ahead :: "pipe_run \<Rightarrow> pipe_entry \<Rightarrow> pipe_entry \<Rightarrow> bool" where
  "ahead P x y \<longleftrightarrow> y \<in> set (pp_queue (run_pipe P)) \<and>
     (x \<in># run_holders P \<or> (\<exists>us vs. pp_queue (run_pipe P) = us @ x # vs \<and> y \<in> set vs))"

lemma run_inv_pipe: "run_inv P \<Longrightarrow> pipe_inv (run_pipe P) (run_holders P)"
  by (simp add: run_inv_def)

lemma inside_enter: "run_inv P \<Longrightarrow> inside (run_enter P e) = add_mset e (inside P)"
  using pw.enter_conserves [OF run_inv_pipe, of P e]
  by (auto simp: inside_def run_enter_def Let_def add.commute split: prod.split)

lemma inside_release:
  assumes "run_inv P" and "h \<in># run_holders P"
  shows "inside (run_release P h) = inside P - {#h#}"
proof -
  obtain p' gs idle where re: "release_and_redispatch (run_pipe P) (en_mode h) = (p', gs, idle)" by (metis prod_cases3)
  from pw.release_conserves [OF run_inv_pipe [OF assms(1)] assms(2) re] show ?thesis
    by (simp add: inside_def run_release_def re Let_def add.commute)
qed

lemma run_enter_cases:
  assumes "run_inv P"
  obtains (now) "pp_queue (run_pipe P) = []" "admissible (run_pipe P) (en_mode e)"
      "run_holders (run_enter P e) = add_mset e (run_holders P)" "pp_queue (run_pipe (run_enter P e)) = []"
  | (later) "run_holders (run_enter P e) = run_holders P"
      "pp_queue (run_pipe (run_enter P e)) = pp_queue (run_pipe P) @ [e]"
proof (cases "pp_queue (run_pipe P) = [] \<and> admissible (run_pipe P) (en_mode e)")
  case True
  then have "pipe_enter (run_pipe P) e = (admit_locked (run_pipe P) e, True)" by (simp add: pipe_enter_def)
  then show ?thesis using True by (intro now) (simp_all add: run_enter_def admit_locked_def)
next
  case False
  then have "pipe_enter (run_pipe P) e = (queue_push (run_pipe P) e, False)" by (auto simp: pipe_enter_def)
  then show ?thesis by (intro later) (simp_all add: run_enter_def queue_push_def)
qed

lemma ahead_enter:
  assumes "run_inv P" and "ahead P x y"
  shows "ahead (run_enter P e) x y"
  using assms(1)
proof (cases rule: run_enter_cases [of P e])
  case now
  then show ?thesis using assms(2) by (simp add: ahead_def)
next
  case later
  then show ?thesis using assms(2) by (fastforce simp: ahead_def)
qed

text \<open>A writer that enters is behind everybody inside.\<close>

lemma ahead_new:
  assumes inv: "run_inv P" and x: "x \<in># inside P" and w: "en_mode e = Read_write"
  shows "ahead (run_enter P e) x e"
  using inv
proof (cases rule: run_enter_cases [of P e])
  case now
  then have "run_holders P = {#}"
    using run_inv_pipe [OF inv] w by (auto simp: pipe_inv_def grants_ok_def admissible_def split: if_splits)
  then show ?thesis using now x by (simp add: inside_def)
next
  case later
  then show ?thesis using x split_list [of x "pp_queue (run_pipe P)"]
    by (fastforce simp: ahead_def inside_def)
qed

lemma count_le_1_distinct: "(\<And>z. count (mset xs) z \<le> 1) \<Longrightarrow> distinct xs"
proof (induction xs)
  case (Cons x xs)
  have "count (mset xs) z \<le> 1" for z by (rule le_trans [OF _ Cons.prems [of z]]) simp
  moreover have "count (mset xs) x = 0" using Cons.prems [of x] by simp
  ultimately show ?case using Cons.IH by (simp add: count_mset_0_iff)
qed simp

lemma queued_before_split:
  assumes "us @ x # vs = gs @ q" and "y \<in> set vs" and "x \<notin> set gs"
  shows "y \<in> set q \<and> (\<exists>us' vs'. q = us' @ x # vs' \<and> y \<in> set vs')"
proof -
  from assms(1) consider zs where "us = gs @ zs" "zs @ x # vs = q" | zs where "us @ zs = gs" "x # vs = zs @ q"
    by (auto simp: append_eq_append_conv2)
  then show ?thesis
  proof cases
    case 1
    then show ?thesis using assms(2) by auto
  next
    case 2
    then have "zs = []" using assms(3) by (cases zs) auto
    then show ?thesis using 2 assms(2) by (metis append_Nil list.set_intros(2))
  qed
qed

text \<open>Nobody overtakes: while \<open>x\<close> stays inside, a writer behind it stays queued behind it.\<close>

lemma ahead_release:
  assumes inv: "run_inv P" and one: "\<And>z. count (inside P) z \<le> 1" and ah: "ahead P x y"
    and h: "h \<in># run_holders P" "h \<noteq> x" and y: "en_mode y = Read_write" "x \<noteq> y"
  shows "ahead (run_release P h) x y"
proof -
  let ?H = "run_holders P" and ?Q = "pp_queue (run_pipe P)"
  obtain p' gs idle where re: "release_and_redispatch (run_pipe P) (en_mode h) = (p', gs, idle)" by (metis prod_cases3)
  note pinv = run_inv_pipe [OF inv]
  have queue: "?Q = gs @ pp_queue p'" by (rule pw.release_waiting [OF pinv h(1) re])
  have holders: "run_holders (run_release P h) = ?H - {#h#} + mset gs" "run_pipe (run_release P h) = p'"
    by (simp_all add: run_release_def re)
  have inv': "pipe_inv p' (?H - {#h#} + mset gs)" by (rule pw.release_keeps [OF pinv h(1) re])
  have dist: "distinct ?Q"
    using one by (intro count_le_1_distinct) (metis add_leE count_union inside_def)
  have x_stays: "x \<in># ?H \<Longrightarrow> x \<in># ?H - {#h#}" using h(2) by (simp add: in_diff_count)
  have yq: "y \<in> set ?Q" using ah by (simp add: ahead_def)
  have no_gs: "y \<notin> set gs"
  proof
    assume "y \<in> set gs"
    then have alone: "?H - {#h#} + mset gs = {#y#}"
      using pw.writer_alone [OF inv', of y] y(1) by simp
    have "x \<in># ?H - {#h#} + mset gs"
    proof (cases "x \<in># ?H")
      case True
      then show ?thesis using x_stays by simp
    next
      case False
      then obtain us vs where q: "?Q = us @ x # vs" "y \<in> set vs" using ah by (auto simp: ahead_def)
      have "x \<in> set gs"
      proof (rule ccontr)
        assume "x \<notin> set gs"
        with queued_before_split [of us x vs gs "pp_queue p'" y] q queue dist have "y \<in> set (pp_queue p')" by simp
        then show False using \<open>y \<in> set gs\<close> dist queue by auto
      qed
      then show ?thesis by simp
    qed
    then show False using alone y(2) by simp
  qed
  then have y_waits: "y \<in> set (pp_queue p')" using yq queue by auto
  show ?thesis
  proof (cases "x \<in># ?H \<or> x \<in> set gs")
    case True
    then show ?thesis using x_stays y_waits by (auto simp: ahead_def holders)
  next
    case False
    then obtain us vs where q: "?Q = us @ x # vs" "y \<in> set vs" using ah by (auto simp: ahead_def)
    then show ?thesis
      using queued_before_split [of us x vs gs "pp_queue p'" y] queue dist False by (auto simp: ahead_def holders)
  qed
qed
end
