(* ===== verification/Versioned_Order.thy ===== *)
theory Versioned_Order
  imports Versioned_Run Pipe_Order
begin

text \<open>
  The accesses a versioned object has in its front's pipe: which jobs exist for a publish at each point
  of its way, and in which order they stand. From it: readers see one version under their grant, and a
  graph publish ordered after synced publishes finds the chain resolved.
\<close>

section \<open>The jobs in the pipe\<close>

lemma run_fields [simp]:
  "vr_obj (set_pub_pc n pc s) = vr_obj s" "vr_pipe (set_pub_pc n pc s) = vr_pipe s" "vr_job (set_pub_pc n pc s) = vr_job s"
  "vr_pubs (set_pub_pc n pc s) = (vr_pubs s)[n := (vr_pubs s ! n)\<lparr>pb_pc := pc\<rparr>]"
  "vr_settled (set_pub_pc n pc s) = vr_settled s" "vr_batches (set_pub_pc n pc s) = vr_batches s"
  "vr_synced (set_pub_pc n pc s) = vr_synced s" "vr_obj (set_job b j s) = vr_obj s" "vr_pipe (set_job b j s) = vr_pipe s"
  "vr_job (set_job b j s) = (vr_job s)(b \<mapsto> j)" "vr_pubs (set_job b j s) = vr_pubs s"
  "vr_settled (set_job b j s) = vr_settled s" "vr_batches (set_job b j s) = vr_batches s"
  "vr_synced (set_job b j s) = vr_synced s" "vr_obj (trigger g s) = vr_obj s" "vr_pipe (trigger g s) = vr_pipe s"
  "vr_job (trigger g s) = vr_job s" "vr_pubs (trigger g s) = vr_pubs s"
  "vr_settled (trigger g s) = insert g (vr_settled s)" "vr_batches (trigger g s) = vr_batches s"
  "vr_synced (trigger g s) = vr_synced s" "vr_obj (enter_job b j s) = vr_obj s"
  "vr_pipe (enter_job b j s) = run_enter (vr_pipe s) (link b (job_mode j))"
  "vr_job (enter_job b j s) = (vr_job s)(b \<mapsto> j)" "vr_pubs (enter_job b j s) = vr_pubs s"
  "vr_settled (enter_job b j s) = vr_settled s" "vr_batches (enter_job b j s) = vr_batches s"
  "vr_synced (enter_job b j s) = vr_synced s" "vr_obj (leave_job b j s) = vr_obj s"
  "vr_pipe (leave_job b j s) = run_release (vr_pipe s) (link b (job_mode j))"
  "vr_job (leave_job b j s) = (vr_job s)(b := None)" "vr_pubs (leave_job b j s) = vr_pubs s"
  "vr_settled (leave_job b j s) = vr_settled s" "vr_batches (leave_job b j s) = vr_batches s"
  "vr_synced (leave_job b j s) = vr_synced s"
  by (simp_all add: set_pub_pc_def set_job_def trigger_def enter_job_def leave_job_def)

lemma link_mode [simp]: "en_mode (link b m) = m" and link_inject [simp]: "link b m = link b' m' \<longleftrightarrow> b = b' \<and> m = m'"
  by (auto simp: link_def)

definition jobs_ok :: "('c, 't) versioned_run \<Rightarrow> bool" where
  "jobs_ok s \<longleftrightarrow> run_inv (vr_pipe s) \<and> finite (dom (vr_job s))
     \<and> inside (vr_pipe s) = image_mset (\<lambda>b. link b (job_mode (the (vr_job s b)))) (mset_set (dom (vr_job s)))"

lemma jobs_ok_member:
  assumes "jobs_ok s"
  shows "x \<in># inside (vr_pipe s) \<longleftrightarrow> (\<exists>b j. vr_job s b = Some j \<and> x = link b (job_mode j))"
  using assms by (auto simp: jobs_ok_def dom_def) force

lemma jobs_ok_once:
  assumes "jobs_ok s"
  shows "count (inside (vr_pipe s)) z \<le> 1"
proof -
  have "inj_on (\<lambda>b. link b (job_mode (the (vr_job s b)))) (dom (vr_job s))" by (rule inj_onI) simp
  then have "inside (vr_pipe s) = mset_set ((\<lambda>b. link b (job_mode (the (vr_job s b)))) ` dom (vr_job s))"
    using assms by (simp add: jobs_ok_def image_mset_mset_set)
  then show ?thesis by (simp add: count_mset_set')
qed

lemma jobs_ok_enter:
  assumes "jobs_ok s" and "vr_job s b = None"
  shows "jobs_ok (enter_job b j s)"
proof -
  have "b \<notin> dom (vr_job s)" using assms(2) by auto
  then have "image_mset (\<lambda>c. link c (job_mode (the (((vr_job s)(b \<mapsto> j)) c)))) (mset_set (dom (vr_job s))) =
      image_mset (\<lambda>c. link c (job_mode (the (vr_job s c)))) (mset_set (dom (vr_job s)))"
    using assms(1) by (intro image_mset_cong) (auto simp: jobs_ok_def)
  then show ?thesis
    using assms \<open>b \<notin> dom (vr_job s)\<close> by (simp add: jobs_ok_def enter_job_def run_inv_enter inside_enter)
qed

lemma jobs_ok_leave:
  assumes ok: "jobs_ok s" and h: "holding s b j"
  shows "jobs_ok (leave_job b j s)"
proof -
  have job: "vr_job s b = Some j" and held: "link b (job_mode j) \<in># run_holders (vr_pipe s)"
    using h by (auto simp: holding_def)
  have fin: "finite (dom (vr_job s))" using ok by (simp add: jobs_ok_def)
  have "b \<in> dom (vr_job s)" using job by auto
  then have "mset_set (dom (vr_job s)) = add_mset b (mset_set (dom (vr_job s) - {b}))"
    using fin by (rule mset_set.remove [rotated])
  moreover have "image_mset (\<lambda>c. link c (job_mode (the (((vr_job s)(b := None)) c)))) (mset_set (dom (vr_job s) - {b})) =
      image_mset (\<lambda>c. link c (job_mode (the (vr_job s c)))) (mset_set (dom (vr_job s) - {b}))"
    using fin by (intro image_mset_cong) auto
  ultimately show ?thesis
    using ok job held by (simp add: jobs_ok_def leave_job_def run_inv_release inside_release)
qed

lemma jobs_ok_set:
  assumes ok: "jobs_ok s" and job: "vr_job s b = Some j" and mode: "job_mode j' = job_mode j"
  shows "jobs_ok (set_job b j' s)"
proof -
  have "dom ((vr_job s)(b \<mapsto> j')) = dom (vr_job s)" using job by auto
  moreover have "image_mset (\<lambda>c. link c (job_mode (the (((vr_job s)(b \<mapsto> j')) c)))) (mset_set (dom (vr_job s))) =
      image_mset (\<lambda>c. link c (job_mode (the (vr_job s c)))) (mset_set (dom (vr_job s)))"
    using job mode by (intro image_mset_cong) auto
  ultimately show ?thesis using ok by (simp add: jobs_ok_def set_job_def)
qed

lemma jobs_ok_other [simp]:
  "jobs_ok (set_pub_pc n pc s) = jobs_ok s" "jobs_ok (trigger g s) = jobs_ok s" "jobs_ok (s\<lparr>vr_settled := g'\<rparr>) = jobs_ok s"
  "jobs_ok (s\<lparr>vr_obj := v\<rparr>) = jobs_ok s"
  "jobs_ok (s\<lparr>vr_pubs := ps\<rparr>) = jobs_ok s" "jobs_ok (s\<lparr>vr_synced := y\<rparr>) = jobs_ok s" "jobs_ok (s\<lparr>vr_batches := bs\<rparr>) = jobs_ok s"
  by (simp_all add: jobs_ok_def set_pub_pc_def trigger_def)

lemma jobs_ok_swap: "jobs_ok s \<Longrightarrow> vr_job s r = None \<Longrightarrow> jobs_ok (swap_phase now n r s)"
  unfolding swap_phase_def Let_def
  by (auto split: prod.split intro!: jobs_ok_enter)

lemma jobs_ok_step:
  assumes ok: "jobs_ok s" and "versioned_step run rerun ca s s'"
  shows "jobs_ok s'"
  using assms(2)
proof cases
  case (vn_swap n b r now)
  have "vr_job (swap_phase now n r s) b = Some (Swap_job n)"
    using vn_swap by (auto simp: swap_phase_obj holding_def)
  then show ?thesis using vn_swap jobs_ok_set [OF jobs_ok_swap [OF ok vn_swap(4)], of now n b] by simp
next
  case (vn_flip_swap n b r now)
  have "vr_job (swap_phase now n r s) b = Some (Flip_publish n)"
    using vn_flip_swap by (auto simp: swap_phase_obj holding_def)
  then show ?thesis using vn_flip_swap jobs_ok_set [OF jobs_ok_swap [OF ok vn_flip_swap(4)], of now n b] by simp
qed (use ok in \<open>auto intro!: jobs_ok_enter jobs_ok_leave jobs_ok_set simp: holding_def\<close>)

section \<open>The jobs of a publish\<close>

fun job_pub :: "job \<Rightarrow> nat option" where
  "job_pub (Swap_job n) = Some n"
| "job_pub (Swapped_job n) = Some n"
| "job_pub (Resync_job n) = Some n"
| "job_pub (Flip_publish n) = Some n"
| "job_pub _ = None"

definition jobs_for :: "(block_id \<rightharpoonup> job) \<Rightarrow> nat \<Rightarrow> (block_id \<times> job) set" where
  "jobs_for job n = {(b, j). job b = Some j \<and> job_pub j = Some n}"

lemma jobs_for_upd [simp]:
  "jobs_for (job(b \<mapsto> j)) n = {x \<in> jobs_for job n. fst x \<noteq> b} \<union> (if job_pub j = Some n then {(b, j)} else {})"
  "jobs_for (job(b := None)) n = {x \<in> jobs_for job n. fst x \<noteq> b}"
  by (auto simp: jobs_for_def split: if_splits)

lemma jobs_for_fresh: "job b = None \<Longrightarrow> {x \<in> jobs_for job n. fst x \<noteq> b} = jobs_for job n"
  by (auto simp: jobs_for_def)

lemma jobs_for_other: "job b = Some j \<Longrightarrow> job_pub j \<noteq> Some n \<Longrightarrow> {x \<in> jobs_for job n. fst x \<noteq> b} = jobs_for job n"
  by (auto simp: jobs_for_def)

text \<open>
  After the swap: one resync job, besides the write access that has yet to trigger the gate; and the gate
  of a dynamic publish is triggered or that access is still there.
\<close>

definition resync_jobs :: "(block_id \<times> job) set \<Rightarrow> nat \<Rightarrow> bool" where
  "resync_jobs J n \<longleftrightarrow> (\<exists>b. (b, Resync_job n) \<in> J \<and> (\<forall>x \<in> J. x = (b, Resync_job n) \<or> snd x = Swapped_job n))"

definition gate_pending :: "(block_id \<times> job) set \<Rightarrow> bool \<Rightarrow> nat \<Rightarrow> block_id option \<Rightarrow> bool" where
  "gate_pending J gate n flip \<longleftrightarrow> (flip = None \<longrightarrow> gate \<or> (\<exists>b. (b, Swapped_job n) \<in> J))"

text \<open>
  \<open>pub_ok J gate n flip pc\<close>: the jobs publish \<open>n\<close> has in the pipe at \<open>pc\<close>, and that its gate is not
  triggered before its swap.
\<close>

fun pub_ok :: "(block_id \<times> job) set \<Rightarrow> bool \<Rightarrow> nat \<Rightarrow> block_id option \<Rightarrow> publish_pc \<Rightarrow> bool" where
  "pub_ok J gate n None Gated \<longleftrightarrow> J = {} \<and> \<not> gate"
| "pub_ok J gate n None Submitted \<longleftrightarrow> J = {} \<and> \<not> gate"
| "pub_ok J gate n None (Applying k) \<longleftrightarrow> J = {} \<and> \<not> gate"
| "pub_ok J gate n None Swap_queued \<longleftrightarrow> (\<exists>b. J = {(b, Swap_job n)}) \<and> \<not> gate"
| "pub_ok J gate n (Some b) Flip_cut \<longleftrightarrow> J = {(b, Flip_publish n)} \<and> \<not> gate"
| "pub_ok J gate n (Some b) (Applying k) \<longleftrightarrow> J = {(b, Flip_publish n)} \<and> \<not> gate"
| "pub_ok J gate n flip Resync_queued \<longleftrightarrow> resync_jobs J n \<and> gate_pending J gate n flip"
| "pub_ok J gate n flip (Resyncing k) \<longleftrightarrow> resync_jobs J n \<and> gate_pending J gate n flip"
| "pub_ok J gate n flip Finished \<longleftrightarrow> (\<forall>x \<in> J. snd x = Swapped_job n) \<and> gate_pending J gate n flip"
| "pub_ok J gate n flip pc \<longleftrightarrow> False"

lemma pub_ok_swap:
  assumes "pub_ok J gate n flip Swap_queued" and "(b, j) \<in> J"
  shows "J = {(b, Swap_job n)}"
  using assms by (cases flip) auto

lemma resync_jobs_only: "resync_jobs J n \<Longrightarrow> x \<in> J \<Longrightarrow> snd x = Resync_job n \<or> snd x = Swapped_job n"
  by (auto simp: resync_jobs_def)

lemma pub_ok_flip:
  assumes "pub_ok J gate n flip pc" and "(b, Flip_publish n) \<in> J"
  shows "J = {(b, Flip_publish n)}" and "flip = Some b"
  using assms resync_jobs_only [of J n "(b, Flip_publish n)"] by (cases flip; cases pc; fastforce)+

lemma pub_ok_gate:
  assumes ok: "pub_ok (jobs_for job n) gate n flip pc" and job: "job b = Some (Swapped_job n)"
  shows "pub_ok {x \<in> jobs_for job n. fst x \<noteq> b} True n flip pc"
proof -
  have J: "(b, Swapped_job n) \<in> jobs_for job n" using job by (simp add: jobs_for_def)
  have r: "r \<noteq> b" if "(r, Resync_job n) \<in> jobs_for job n" for r using that job by (auto simp: jobs_for_def)
  from ok J have "(\<exists>k. pc = Resyncing k) \<or> pc = Resync_queued \<or> pc = Finished" by (cases flip; cases pc) auto
  moreover have "resync_jobs {x \<in> jobs_for job n. fst x \<noteq> b} n" if rs: "resync_jobs (jobs_for job n) n"
  proof -
    obtain r' where "(r', Resync_job n) \<in> jobs_for job n"
      "\<forall>x \<in> jobs_for job n. x = (r', Resync_job n) \<or> snd x = Swapped_job n" using rs by (auto simp: resync_jobs_def)
    then show ?thesis unfolding resync_jobs_def using r [of r'] by (intro exI [of _ r']) auto
  qed
  ultimately show ?thesis using ok by (elim disjE exE) (simp_all add: gate_pending_def)
qed

lemma pub_ok_resynced:
  assumes "resync_jobs J n" and "(b, Resync_job n) \<in> J" and "x \<in> J" and "fst x \<noteq> b"
  shows "snd x = Swapped_job n"
proof -
  obtain r where r: "\<forall>x \<in> J. x = (r, Resync_job n) \<or> snd x = Swapped_job n" using assms(1) by (auto simp: resync_jobs_def)
  with assms(2) have "r = b" by fastforce
  then show ?thesis using r assms(3,4) by auto
qed

definition pubs_ok :: "('c, 't) versioned_run \<Rightarrow> bool" where
  "pubs_ok s \<longleftrightarrow>
     (\<forall>n < length (vr_pubs s).
        pub_ok (jobs_for (vr_job s) n) (Swapped n \<in> vr_settled s) n (pb_flip (vr_pubs s ! n)) (pb_pc (vr_pubs s ! n)))
     \<and> (\<forall>n \<ge> length (vr_pubs s). jobs_for (vr_job s) n = {} \<and> Swapped n \<notin> vr_settled s)"

text \<open>The publish whose gate the destructor looks at is a dynamic one, if there is any.\<close>

definition last_ok :: "('c, 't) versioned_run \<Rightarrow> bool" where
  "last_ok s \<longleftrightarrow> Ready \<in> vr_settled s \<and> (vs_last_publish (vr_obj s) = Ready \<or>
     (\<exists>n < length (vr_pubs s). pb_flip (vr_pubs s ! n) = None \<and> vs_last_publish (vr_obj s) = Swapped n))"

lemma pubs_okD: "pubs_ok s \<Longrightarrow> at_pc s n pc \<Longrightarrow>
    pub_ok (jobs_for (vr_job s) n) (Swapped n \<in> vr_settled s) n (pb_flip (vr_pubs s ! n)) pc"
  unfolding pubs_ok_def by blast

lemma pubs_ok_job: "pubs_ok s \<Longrightarrow> vr_job s b = Some j \<Longrightarrow> job_pub j = Some n \<Longrightarrow> n < length (vr_pubs s) \<and> (b, j) \<in> jobs_for (vr_job s) n"
  unfolding pubs_ok_def jobs_for_def by (metis (mono_tags, lifting) case_prodI empty_iff mem_Collect_eq not_less)

text \<open>A step changes the jobs, the gate and the point of one publish only.\<close>

lemma pubs_ok_change:
  assumes ok: "pubs_ok s" and n: "n < length (vr_pubs s)" and len: "length (vr_pubs s') = length (vr_pubs s)"
    and rest: "\<And>m. m \<noteq> n \<Longrightarrow> jobs_for (vr_job s') m = jobs_for (vr_job s) m
      \<and> (Swapped m \<in> vr_settled s' \<longleftrightarrow> Swapped m \<in> vr_settled s) \<and> vr_pubs s' ! m = vr_pubs s ! m"
    and here: "pub_ok (jobs_for (vr_job s') n) (Swapped n \<in> vr_settled s') n (pb_flip (vr_pubs s' ! n)) (pb_pc (vr_pubs s' ! n))"
  shows "pubs_ok s'"
  unfolding pubs_ok_def len
proof (intro conjI allI impI)
  fix m assume "m < length (vr_pubs s)"
  then show "pub_ok (jobs_for (vr_job s') m) (Swapped m \<in> vr_settled s') m (pb_flip (vr_pubs s' ! m)) (pb_pc (vr_pubs s' ! m))"
    using ok rest [of m] here unfolding pubs_ok_def by (cases "m = n") simp_all
next
  fix m assume "length (vr_pubs s) \<le> m"
  then show "jobs_for (vr_job s') m = {}" "Swapped m \<notin> vr_settled s'"
    using ok rest [of m] n unfolding pubs_ok_def by (cases "m = n"; simp)+
qed

lemma pubs_ok_same:
  assumes "pubs_ok s" and "vr_pubs s' = vr_pubs s" and "vr_settled s' = vr_settled s"
    and "\<And>m. jobs_for (vr_job s') m = jobs_for (vr_job s) m"
  shows "pubs_ok s'"
  using assms unfolding pubs_ok_def by simp

lemma pubs_ok_append:
  assumes ok: "pubs_ok s" and "vr_pubs s' = vr_pubs s @ [p]" and "vr_settled s' = vr_settled s"
    and "\<And>m. m \<noteq> length (vr_pubs s) \<Longrightarrow> jobs_for (vr_job s') m = jobs_for (vr_job s) m"
    and "pub_ok (jobs_for (vr_job s') (length (vr_pubs s))) False (length (vr_pubs s)) (pb_flip p) (pb_pc p)"
  shows "pubs_ok s'"
  unfolding pubs_ok_def
proof (intro conjI allI impI)
  fix m assume "m < length (vr_pubs s')"
  then show "pub_ok (jobs_for (vr_job s') m) (Swapped m \<in> vr_settled s') m (pb_flip (vr_pubs s' ! m)) (pb_pc (vr_pubs s' ! m))"
    using assms unfolding pubs_ok_def by (cases "m = length (vr_pubs s)") (auto simp: nth_append)
next
  fix m assume "length (vr_pubs s') \<le> m"
  then show "jobs_for (vr_job s') m = {}" "Swapped m \<notin> vr_settled s'"
    using assms unfolding pubs_ok_def by auto
qed

lemma pubs_ok_step:
  assumes ok: "pubs_ok s" and "versioned_step run rerun ca s s'"
  shows "pubs_ok s'"
  using assms(2)
proof cases
  case (vn_journal j)
  then show ?thesis using ok by (auto elim: pubs_ok_same)
next
  case (vn_publish v prev)
  have "jobs_for (vr_job s) (length (vr_pubs s)) = {}" using ok by (simp add: pubs_ok_def)
  then show ?thesis using vn_publish by (intro pubs_ok_append [OF ok]) auto
next
  case (vn_submit n)
  from pubs_okD [OF ok vn_submit(2)] show ?thesis
    using vn_submit by (intro pubs_ok_change [OF ok, of n]) (cases "pb_flip (vr_pubs s ! n)"; auto)+
next
  case (vn_skip n token v)
  from pubs_okD [OF ok vn_skip(2)] show ?thesis
    using vn_skip by (intro pubs_ok_change [OF ok, of n]) (cases "pb_flip (vr_pubs s ! n)"; auto simp: gate_pending_def)+
next
  case (vn_begin n token v)
  from pubs_okD [OF ok vn_begin(2)] show ?thesis
    using vn_begin by (intro pubs_ok_change [OF ok, of n]) (cases "pb_flip (vr_pubs s ! n)"; auto)+
next
  case (vn_apply n k)
  from pubs_okD [OF ok vn_apply(2)] show ?thesis
    using vn_apply by (intro pubs_ok_change [OF ok, of n]) (cases "pb_flip (vr_pubs s ! n)"; auto)+
next
  case (vn_enqueue n b)
  from pubs_okD [OF ok vn_enqueue(2)] show ?thesis
    using vn_enqueue jobs_for_fresh [of "vr_job s" b] by (intro pubs_ok_change [OF ok, of n]) auto
next
  case (vn_swap n b r now)
  have job: "vr_job s b = Some (Swap_job n)" using vn_swap by (simp add: holding_def)
  then have r: "r \<noteq> b" using vn_swap by auto
  have "(b, Swap_job n) \<in> jobs_for (vr_job s) n" using pubs_ok_job [OF ok job, of n] by simp
  then have J: "jobs_for (vr_job s) n = {(b, Swap_job n)}" by (rule pub_ok_swap [OF pubs_okD [OF ok vn_swap(2)]])
  show ?thesis
    using vn_swap J job r jobs_for_fresh [of "vr_job s" r] jobs_for_other [of "vr_job s" b, OF job]
    by (intro pubs_ok_change [OF ok, of n]) (auto simp: swap_phase_obj gate_pending_def resync_jobs_def)
next
  case (vn_gate b n)
  note n = pubs_ok_job [OF ok vn_gate(2), of n, simplified]
  have "pub_ok (jobs_for (vr_job s) n) (Swapped n \<in> vr_settled s) n (pb_flip (vr_pubs s ! n)) (pb_pc (vr_pubs s ! n))"
    using pubs_okD [OF ok, of n] n by simp
  from pub_ok_gate [OF this vn_gate(2)] show ?thesis
    using vn_gate(1) n jobs_for_other [of "vr_job s" b, OF vn_gate(2)]
    by (intro pubs_ok_change [OF ok, of n]) auto
next
  case (vn_resync n b)
  from pubs_okD [OF ok vn_resync(2)] show ?thesis
    using vn_resync by (intro pubs_ok_change [OF ok, of n]) auto
next
  case (vn_replay n k)
  from pubs_okD [OF ok vn_replay(2)] show ?thesis
    using vn_replay by (intro pubs_ok_change [OF ok, of n]) auto
next
  case (vn_resynced n k b v)
  have J: "(b, Resync_job n) \<in> jobs_for (vr_job s) n" using pubs_ok_job [OF ok vn_resynced(3), of n] by simp
  have here: "resync_jobs (jobs_for (vr_job s) n) n"
    "gate_pending (jobs_for (vr_job s) n) (Swapped n \<in> vr_settled s) n (pb_flip (vr_pubs s ! n))"
    using pubs_okD [OF ok vn_resynced(2)] by simp_all
  have "gate_pending {x \<in> jobs_for (vr_job s) n. fst x \<noteq> b} (Swapped n \<in> vr_settled s) n (pb_flip (vr_pubs s ! n))"
    using here(2) vn_resynced(3) by (auto simp: gate_pending_def jobs_for_def)
  then show ?thesis
    using vn_resynced(1,2) jobs_for_other [of "vr_job s" b, OF vn_resynced(3)] pub_ok_resynced [OF here(1) J]
    by (intro pubs_ok_change [OF ok, of n]) auto
next
  case (vn_read b)
  then show ?thesis using jobs_for_fresh [of "vr_job s" b] by (intro pubs_ok_same [OF ok]) auto
next
  case (vn_release b j)
  then have "vr_job s b = Some j" "job_pub j = None" by (auto simp: holding_def)
  then show ?thesis using vn_release jobs_for_other [of "vr_job s" b j] by (intro pubs_ok_same [OF ok]) auto
next
  case (vn_flip_enter b)
  then show ?thesis using jobs_for_fresh [of "vr_job s" b] by (intro pubs_ok_same [OF ok]) auto
next
  case (vn_flip b epochs ctx front v)
  then have job: "vr_job s b = Some Flip_job" by (simp add: holding_def)
  have "jobs_for (vr_job s) (length (vr_pubs s)) = {}" using ok by (simp add: pubs_ok_def)
  then show ?thesis using vn_flip jobs_for_other [of "vr_job s" b, OF job] by (intro pubs_ok_append [OF ok]) auto
next
  case (vn_flip_skip n b v)
  from pubs_okD [OF ok vn_flip_skip(2)] show ?thesis
    using vn_flip_skip pubs_ok_job [OF ok vn_flip_skip(3), of n] jobs_for_other [of "vr_job s" b, OF vn_flip_skip(3)]
    by (intro pubs_ok_change [OF ok, of n]) (cases "pb_flip (vr_pubs s ! n)"; auto simp: gate_pending_def)+
next
  case (vn_flip_begin n v)
  from pubs_okD [OF ok vn_flip_begin(2)] show ?thesis
    using vn_flip_begin by (intro pubs_ok_change [OF ok, of n]) (cases "pb_flip (vr_pubs s ! n)"; auto)+
next
  case (vn_flip_swap n b r now)
  then have job: "vr_job s b = Some (Flip_publish n)" and r: "r \<noteq> b" by (auto simp: holding_def)
  have mem: "(b, Flip_publish n) \<in> jobs_for (vr_job s) n" using pubs_ok_job [OF ok job, of n] by simp
  note J = pub_ok_flip [OF pubs_okD [OF ok vn_flip_swap(2)] mem]
  show ?thesis
    using vn_flip_swap J r jobs_for_fresh [of "vr_job s" r] jobs_for_other [of "vr_job s" b, OF job]
    by (intro pubs_ok_change [OF ok, of n]) (auto simp: swap_phase_obj gate_pending_def resync_jobs_def)
qed

section \<open>Graph publishes behind synced ones\<close>

definition flipping :: "job option \<Rightarrow> bool" where
  "flipping j \<longleftrightarrow> j = Some Flip_job \<or> (\<exists>n. j = Some (Flip_publish n))"

text \<open>
  A graph node that entered with everything synced is ahead of every other graph node, and whatever
  publish is unfinished has its resync job ahead of the node.
\<close>

definition order_ok :: "('c, 't) versioned_run \<Rightarrow> bool" where
  "order_ok s \<longleftrightarrow> (\<forall>b \<in> vr_synced s. vr_job s b = Some Flip_job \<longrightarrow>
     (\<forall>b'. b' \<noteq> b \<and> flipping (vr_job s b') \<longrightarrow> ahead (vr_pipe s) (link b Read_write) (link b' Read_write))
     \<and> (\<forall>n < length (vr_pubs s). pb_pc (vr_pubs s ! n) \<noteq> Finished \<longrightarrow>
          (\<exists>r. vr_job s r = Some (Resync_job n) \<and> ahead (vr_pipe s) (link r Read_only) (link b Read_write))))"

lemma ahead_not_holder:
  assumes "jobs_ok s" and "ahead (vr_pipe s) x y"
  shows "y \<notin># run_holders (vr_pipe s)"
proof
  assume "y \<in># run_holders (vr_pipe s)"
  moreover have "y \<in># mset (pp_queue (run_pipe (vr_pipe s)))" using assms(2) by (simp add: ahead_def)
  ultimately have "2 \<le> count (inside (vr_pipe s)) y"
    unfolding inside_def count_union by (metis Suc_leI add_mono count_greater_zero_iff numeral_2_eq_2 plus_1_eq_Suc One_nat_def)
  then show False using jobs_ok_once [OF assms(1), of y] by simp
qed

lemma order_ok_mono:
  assumes ok: "order_ok s" and "vr_synced s' \<subseteq> vr_synced s"
    and flip: "\<And>b. vr_job s' b = Some Flip_job \<Longrightarrow> vr_job s b = Some Flip_job"
    and flips: "\<And>b. flipping (vr_job s' b) \<Longrightarrow> flipping (vr_job s b)"
    and pubs: "\<And>n. n < length (vr_pubs s') \<Longrightarrow> pb_pc (vr_pubs s' ! n) \<noteq> Finished \<Longrightarrow>
      n < length (vr_pubs s) \<and> pb_pc (vr_pubs s ! n) \<noteq> Finished
      \<and> (\<forall>r. vr_job s r = Some (Resync_job n) \<longrightarrow> vr_job s' r = Some (Resync_job n))"
    and keep: "\<And>b j y. vr_job s b = Some j \<Longrightarrow> j = Flip_job \<or> (\<exists>n. j = Resync_job n) \<Longrightarrow> en_mode y = Read_write \<Longrightarrow>
      y \<noteq> link b (job_mode j) \<Longrightarrow> ahead (vr_pipe s) (link b (job_mode j)) y \<Longrightarrow> ahead (vr_pipe s') (link b (job_mode j)) y"
  shows "order_ok s'"
  unfolding order_ok_def
proof (intro ballI impI conjI allI)
  fix b b' assume b: "b \<in> vr_synced s'" "vr_job s' b = Some Flip_job" and b': "b' \<noteq> b \<and> flipping (vr_job s' b')"
  have "ahead (vr_pipe s) (link b Read_write) (link b' Read_write)"
    using ok b b' flips assms(2) flip unfolding order_ok_def by blast
  then show "ahead (vr_pipe s') (link b Read_write) (link b' Read_write)"
    using keep [of b Flip_job "link b' Read_write"] flip [OF b(2)] b' by simp
next
  fix b n assume b: "b \<in> vr_synced s'" "vr_job s' b = Some Flip_job"
    and n: "n < length (vr_pubs s')" "pb_pc (vr_pubs s' ! n) \<noteq> Finished"
  obtain r where r: "vr_job s r = Some (Resync_job n)" "ahead (vr_pipe s) (link r Read_only) (link b Read_write)"
    using ok b pubs [OF n] assms(2) flip unfolding order_ok_def by blast
  then have "ahead (vr_pipe s') (link r Read_only) (link b Read_write)"
    using keep [of r "Resync_job n" "link b Read_write"] by simp
  then show "\<exists>r. vr_job s' r = Some (Resync_job n) \<and> ahead (vr_pipe s') (link r Read_only) (link b Read_write)"
    using pubs [OF n] r by blast
qed

lemma pub_ok_synced:
  assumes "pub_ok (jobs_for job n) gate n flip pc" and "flip = None \<Longrightarrow> gate"
    and "\<And>b. \<not> flipping (job b)" and "pc \<noteq> Finished"
  shows "\<exists>r. job r = Some (Resync_job n)"
proof -
  have none: "(b, Flip_publish n) \<notin> jobs_for job n" for b using assms(3) by (auto simp: jobs_for_def flipping_def)
  have "(\<exists>k. pc = Resyncing k) \<or> pc = Resync_queued"
    using assms(1,2,4) none by (cases flip; cases pc) auto
  then show ?thesis using assms(1) by (auto simp: jobs_for_def resync_jobs_def)
qed

lemma order_ok_flip_enter:
  assumes ok: "order_ok s" and jobs: "jobs_ok s" and pubs: "pubs_ok s" and b: "vr_job s b = None"
    and s': "s' = enter_job b Flip_job (s\<lparr>vr_synced := (if all_synced s then insert b (vr_synced s) else vr_synced s - {b})\<rparr>)"
  shows "order_ok s'"
proof -
  have inv: "run_inv (vr_pipe s)" using jobs by (simp add: jobs_ok_def)
  have new: "ahead (vr_pipe s') (link c (job_mode j)) (link b Read_write)" if "vr_job s c = Some j" for c j
    using ahead_new [OF inv, of "link c (job_mode j)" "link b Read_write"] jobs_ok_member [OF jobs] that by (auto simp: s')
  have old: "ahead (vr_pipe s') x y" if "ahead (vr_pipe s) x y" for x y
    using ahead_enter [OF inv that] by (simp add: s')
  show ?thesis
    unfolding order_ok_def
  proof (intro ballI impI conjI allI)
    fix c c' assume c: "c \<in> vr_synced s'" "vr_job s' c = Some Flip_job" and c': "c' \<noteq> c \<and> flipping (vr_job s' c')"
    show "ahead (vr_pipe s') (link c Read_write) (link c' Read_write)"
    proof (cases "c = b")
      case True
      then have "all_synced s" using c by (auto simp: s' split: if_splits)
      then show ?thesis using c' True by (auto simp: s' all_synced_def flipping_def)
    next
      case False
      then have *: "c \<in> vr_synced s" "vr_job s c = Some Flip_job" using c by (auto simp: s' split: if_splits)
      show ?thesis
      proof (cases "c' = b")
        case True
        then show ?thesis using new [OF *(2)] by simp
      next
        case False
        then have "flipping (vr_job s c')" using c' by (simp add: s')
        then show ?thesis using ok * c' old unfolding order_ok_def by blast
      qed
    qed
  next
    fix c n assume c: "c \<in> vr_synced s'" "vr_job s' c = Some Flip_job"
      and "n < length (vr_pubs s')" "pb_pc (vr_pubs s' ! n) \<noteq> Finished"
    then have n: "n < length (vr_pubs s)" "pb_pc (vr_pubs s ! n) \<noteq> Finished" by (auto simp: s')
    have "\<exists>r. vr_job s r = Some (Resync_job n) \<and> ahead (vr_pipe s') (link r Read_only) (link c Read_write)"
    proof (cases "c = b")
      case True
      then have sync: "all_synced s" using c by (auto simp: s' split: if_splits)
      have "\<exists>r. vr_job s r = Some (Resync_job n)"
        using pub_ok_synced [OF pubs_okD [OF pubs]] n sync by (auto simp: all_synced_def flipping_def)
      then show ?thesis using new True by fastforce
    next
      case False
      then have "c \<in> vr_synced s" "vr_job s c = Some Flip_job" using c by (auto simp: s' split: if_splits)
      then show ?thesis using ok n old unfolding order_ok_def by blast
    qed
    then obtain r where r: "vr_job s r = Some (Resync_job n)" "ahead (vr_pipe s') (link r Read_only) (link c Read_write)"
      by blast
    then have "vr_job s' r = Some (Resync_job n)" using b by (auto simp: s')
    then show "\<exists>r. vr_job s' r = Some (Resync_job n) \<and> ahead (vr_pipe s') (link r Read_only) (link c Read_write)"
      using r(2) by blast
  qed
qed

lemma order_ok_step:
  assumes ok: "order_ok s" and jobs: "jobs_ok s" and pubs: "pubs_ok s" and "versioned_step run rerun ca s s'"
  shows "order_ok s'"
proof -
  have inv: "run_inv (vr_pipe s)" using jobs by (simp add: jobs_ok_def)
  show ?thesis
    using assms(4)
  proof cases
    case (vn_publish v prev)
    then show ?thesis by (simp add: order_ok_def)
  next
    case (vn_release b j)
    show ?thesis
    proof (rule order_ok_mono [OF ok])
      fix c i y assume c: "vr_job s c = Some i" "i = Flip_job \<or> (\<exists>n. i = Resync_job n)" "en_mode y = Read_write"
        "y \<noteq> link c (job_mode i)" "ahead (vr_pipe s) (link c (job_mode i)) y"
      then have "link b (job_mode j) \<noteq> link c (job_mode i)" using vn_release by (auto simp: holding_def)
      then show "ahead (vr_pipe s') (link c (job_mode i)) y"
        using ahead_release [OF inv jobs_ok_once [OF jobs] c(5)] vn_release c by (auto simp: holding_def)
    qed (use vn_release in \<open>auto simp: flipping_def holding_def split: if_splits\<close>)
  next
    case (vn_flip_enter b)
    then show ?thesis by (intro order_ok_flip_enter [OF ok jobs pubs])
  next
    case (vn_flip b epochs ctx front v)
    have "vr_job s c \<noteq> Some Flip_job" if "c \<in> vr_synced s" "c \<noteq> b" for c
    proof
      assume "vr_job s c = Some Flip_job"
      then have "ahead (vr_pipe s) (link c Read_write) (link b Read_write)"
        using ok that vn_flip unfolding order_ok_def by (auto simp: holding_def flipping_def)
      from ahead_not_holder [OF jobs this] show False using vn_flip by (simp add: holding_def)
    qed
    then show ?thesis using vn_flip by (auto simp: order_ok_def)
  next
    case (vn_swap n b r now)
    then show ?thesis
      by (intro order_ok_mono [OF ok])
        (auto simp: swap_phase_obj flipping_def holding_def nth_list_update ahead_enter [OF inv] split: if_splits)
  next
    case (vn_flip_swap n b r now)
    then show ?thesis
      by (intro order_ok_mono [OF ok])
        (auto simp: swap_phase_obj flipping_def holding_def nth_list_update ahead_enter [OF inv] split: if_splits)
  next
    case (vn_resynced n k b v)
    have other: "m = n" if "vr_job s b = Some (Resync_job m)" for m using that vn_resynced by simp
    then show ?thesis using vn_resynced
      by (intro order_ok_mono [OF ok]) (auto simp: flipping_def nth_list_update split: if_splits)
  qed (intro order_ok_mono [OF ok]; auto simp: flipping_def holding_def nth_list_update ahead_enter [OF inv] split: if_splits)+
qed

lemma last_ok_mono:
  assumes "last_ok s" and "vr_settled s \<subseteq> vr_settled s'" and "vs_last_publish (vr_obj s') = vs_last_publish (vr_obj s)"
    and "length (vr_pubs s) \<le> length (vr_pubs s')"
    and "\<And>n. n < length (vr_pubs s) \<Longrightarrow> pb_flip (vr_pubs s' ! n) = pb_flip (vr_pubs s ! n)"
  shows "last_ok s'"
  using assms unfolding last_ok_def by (metis less_le_trans subsetD)

lemma last_publish_kept:
  "phase1 token v = (w, go) \<Longrightarrow> vs_last_publish w = vs_last_publish v"
  "resync_finish ca v = Inr w \<Longrightarrow> vs_last_publish w = vs_last_publish v"
  "vs_last_publish (apply_command f k v) = vs_last_publish v"
  "vs_last_publish (fst (start_resync (swap_replicas now v))) = vs_last_publish v"
  by (auto simp: phase1_def Let_def cut_eq resync_finish_def resync_copy_def apply_command_def start_resync_def
      swap_replicas_def split: if_splits sum.splits option.splits)

lemma last_ok_step:
  assumes "last_ok s" and "versioned_step run rerun ca s s'"
  shows "last_ok s'"
  using assms(2)
proof cases
  case (vn_publish v prev)
  have "pb_flip (vr_pubs s' ! length (vr_pubs s)) = None" "vs_last_publish (vr_obj s') = Swapped (length (vr_pubs s))"
    "length (vr_pubs s) < length (vr_pubs s')" using vn_publish by (auto simp: publish_def)
  moreover have "Ready \<in> vr_settled s'" using assms(1) vn_publish by (simp add: last_ok_def)
  ultimately show ?thesis unfolding last_ok_def by blast
next
  case (vn_flip b epochs ctx front v)
  then show ?thesis using publish_into_fields [OF vn_flip(3)]
    by (intro last_ok_mono [OF assms(1)]) (auto simp: nth_append)
qed (intro last_ok_mono [OF assms(1)];
     auto simp: nth_list_update swap_phase_obj last_publish_kept split: if_splits)+

lemma versioned_invariants:
  "versioned_reach run rerun ca t s \<Longrightarrow> jobs_ok s \<and> pubs_ok s \<and> order_ok s \<and> last_ok s"
proof (induction rule: versioned_reach.induct)
  case (vr_start h policy inst now v copy hash rank)
  then have "vs_last_publish v = Ready" by (auto simp: versioned_new_def split: if_splits)
  moreover have "inside (run_init rank) = {#}" by (simp add: inside_def run_init_def pipe_init_def)
  ultimately show ?case
    by (simp add: versioned_run_new_def jobs_ok_def pubs_ok_def order_ok_def last_ok_def jobs_for_def run_inv_init)
next
  case (vr_step s s')
  then show ?case using jobs_ok_step pubs_ok_step order_ok_step last_ok_step by blast
qed

section \<open>Properties\<close>

text \<open>
  (C21) The front is always a whole published version. Whatever the interleaving of publishes, graph
  publishes, resyncs, readers and producers, under the resync policy's contract: the front is the
  initial value with the commands of all published batches run over it in order; with two versions
  kept, the previous one is the same without the last batch and the serial counts the publishes; and
  when no publish is under way the two replicas are equal and the batch slot is empty (except that
  \<^verbatim>\<open>overwrite\<close> leaves the shadow stale).
\<close>

theorem versioned_front_is_fold:
  assumes "versioned_reach run rerun copy_assignable t s" and "contract run rerun (vr_obj s) (vr_batches s)"
  shows "vs_front (vr_obj s) = fold run (concat (vr_batches s)) t
    \<and> (vs_history (vr_obj s) = Current_and_previous \<longrightarrow>
         vs_previous (vr_obj s) = fold run (concat (butlast (vr_batches s))) t
         \<and> current_serial (vs_stamps (vr_obj s)) = word_of_nat (length (vr_batches s)))
    \<and> ((\<forall>p \<in> set (vr_pubs s). pb_pc p = Finished) \<longrightarrow> vs_batch (vr_obj s) = []
         \<and> (vs_policy (vr_obj s) \<noteq> Overwrite \<longrightarrow> vs_shadow (vr_obj s) = vs_front (vr_obj s)))"
proof -
  obtain f where ok: "run_ok run rerun t s f" using run_ok_reach [OF assms(1)] by blast
  then have data: "data_ok run rerun t (vr_obj s) (vr_batches s) (current_pc (vr_pubs s) f)"
    using assms(2) by (simp add: run_ok_def)
  have "current_pc (vr_pubs s) f = Finished" if "\<forall>p \<in> set (vr_pubs s). pb_pc p = Finished"
    using that by (auto simp: current_pc_def)
  then show ?thesis using data unfolding data_ok_def version_def by auto
qed

lemma writer_excludes_reader:
  assumes "versioned_reach run rerun ca t s" and "holding s b Read_job" and "holding s w j" and "job_mode j = Read_write"
  shows False
proof -
  have "pipe_inv (run_pipe (vr_pipe s)) (run_holders (vr_pipe s))"
    using versioned_invariants [OF assms(1)] by (simp add: jobs_ok_def run_inv_def)
  from pw.writer_alone [OF this, of "link w Read_write"] assms(2-4) show False by (auto simp: holding_def)
qed

text \<open>
  A snapshot is stable. While a reader holds its read grant on the front no step of any publish, graph
  publish or resync changes the current version, the previous one or the stamps it reads.
\<close>

theorem versioned_reader_stable:
  assumes "versioned_reach run rerun copy_assignable t s" and "versioned_step run rerun copy_assignable s s'"
    and "holding s b Read_job"
  shows "vs_front (vr_obj s') = vs_front (vr_obj s) \<and> vs_previous (vr_obj s') = vs_previous (vr_obj s)
    \<and> vs_stamps (vr_obj s') = vs_stamps (vr_obj s)"
  using assms(2)
proof cases
  case (vn_swap n w r now)
  then show ?thesis using writer_excludes_reader [OF assms(1,3) vn_swap(3)] by simp
next
  case (vn_flip_swap n w r now)
  then show ?thesis using writer_excludes_reader [OF assms(1,3) vn_flip_swap(3)] by simp
next
  case (vn_flip w epochs ctx front v)
  then show ?thesis using publish_into_fields [OF vn_flip(3)] by simp
qed (auto simp: publish_def phase1_def Let_def cut_eq apply_command_def resync_finish_def resync_copy_def
       split: if_splits sum.splits option.splits)

text \<open>
  A graph publish ordered after synced publishes never faults. If a graph node entered the front's
  pipe when the gate of every earlier dynamic publish was triggered and no other graph publish was
  pending, and no dynamic publish was issued since, then once it holds its grant the chain is
  resolved: with its access granted, the entry of \<^verbatim>\<open>publish_into\<close> succeeds.
\<close>

theorem versioned_flip_never_faults:
  assumes "versioned_reach run rerun copy_assignable t s" and "b \<in> vr_synced s" and "holding s b Flip_job"
    and "access_check epochs ctx (vs_inst (vr_obj s)) Read_write = Inr u"
  shows "\<exists>v. publish_into epochs ctx (\<lambda>g. g \<in> vr_settled s) (vs_inst (vr_obj s)) n (vr_obj s) = Inr v"
proof -
  note inv = versioned_invariants [OF assms(1)]
  obtain f where "run_ok run rerun t s f" using run_ok_reach [OF assms(1)] by blast
  then have chain: "chain_ok (vr_pubs s) (vr_settled s) (vs_chain (vr_obj s)) f" by (simp add: run_ok_def)
  have "f = length (vr_pubs s)"
  proof (rule ccontr)
    assume "f \<noteq> length (vr_pubs s)"
    then have "f < length (vr_pubs s)" "pb_pc (vr_pubs s ! f) \<noteq> Finished" using chain by (auto simp: chain_ok_def)
    then obtain r where "ahead (vr_pipe s) (link r Read_only) (link b Read_write)"
      using inv assms(2,3) unfolding order_ok_def holding_def by blast
    then show False using ahead_not_holder inv assms(3) by (auto simp: holding_def)
  qed
  then have "vs_chain (vr_obj s) \<in> vr_settled s" using chain_ok_done [OF chain] by simp
  then show ?thesis using assms(4) by (simp add: publish_into_def)
qed

text \<open>
  The divergence check never fires on deterministic commands: at the end of every replay the two
  replicas are equal, so whatever hash is installed the resync completes.
\<close>

theorem versioned_replay_converges:
  assumes "versioned_reach run run copy_assignable t s" and "vs_policy (vr_obj s) = Replay"
    and "n < length (vr_pubs s)" and "pb_pc (vr_pubs s ! n) = Resyncing (length (vs_batch (vr_obj s)))"
  shows "vs_shadow (vr_obj s) = vs_front (vr_obj s)
    \<and> resync_finish copy_assignable (vr_obj s) = Inr ((vr_obj s)\<lparr>vs_batch := []\<rparr>)"
proof -
  obtain f where ok: "run_ok run run t s f" using run_ok_reach [OF assms(1)] by blast
  have "current_pc (vr_pubs s) f = Resyncing (length (vs_batch (vr_obj s)))"
    using run_ok_active [OF ok, of n "Resyncing (length (vs_batch (vr_obj s)))"] assms(3,4) by simp
  then have "data_ok run run t (vr_obj s) (vr_batches s) (Resyncing (length (vs_batch (vr_obj s))))"
    using ok assms(2) by (simp add: run_ok_def contract_def)
  from replayed_equal [OF this assms(2)] have "vs_shadow (vr_obj s) = vs_front (vr_obj s)" by simp
  then show ?thesis using assms(2) by (simp add: resync_finish_def divergence_check_def split: option.split)
qed

text \<open>
  The destructor waits for everything. Once the chain's last signal is triggered and the front's pipe
  is empty, every publish has finished, the gate of every dynamic publish is triggered, and the
  destructor faults only for commands still staged or for a live recorder.
\<close>

theorem versioned_destroy_quiesced:
  assumes "versioned_reach run rerun copy_assignable t s" and "vs_chain (vr_obj s) \<in> vr_settled s"
    and "pp_queue (run_pipe (vr_pipe s)) = []" and "run_holders (vr_pipe s) = {#}"
  shows "(\<forall>p \<in> set (vr_pubs s). pb_pc p = Finished)
    \<and> (\<forall>n < length (vr_pubs s). pb_flip (vr_pubs s ! n) = None \<longrightarrow> Swapped n \<in> vr_settled s)
    \<and> versioned_destroy (\<lambda>g. g \<in> vr_settled s) (vr_obj s) =
        (if has_staged (vs_journal (vr_obj s)) then Inl Versioned_lost_writes else journal_destroy (vs_journal (vr_obj s)))"
proof -
  note inv = versioned_invariants [OF assms(1)]
  obtain f where "run_ok run rerun t s f" using run_ok_reach [OF assms(1)] by blast
  then have chain: "chain_ok (vr_pubs s) (vr_settled s) (vs_chain (vr_obj s)) f" by (simp add: run_ok_def)
  then have "f = length (vr_pubs s)" using chain_ok_done assms(2) by blast
  then have fin: "pb_pc (vr_pubs s ! n) = Finished" if "n < length (vr_pubs s)" for n
    using chain that by (simp add: chain_ok_def)
  have "inside (vr_pipe s) = {#}" using assms(3,4) by (simp add: inside_def)
  then have "vr_job s b = None" for b using jobs_ok_member [of s] inv by (metis empty_iff option.exhaust set_mset_empty)
  then have none: "jobs_for (vr_job s) n = {}" for n by (simp add: jobs_for_def)
  have gates: "Swapped n \<in> vr_settled s" if "n < length (vr_pubs s)" "pb_flip (vr_pubs s ! n) = None" for n
    using pubs_okD [of s n Finished] inv that fin none by (simp add: gate_pending_def)
  then have "vs_last_publish (vr_obj s) \<in> vr_settled s" using inv by (auto simp: last_ok_def)
  then show ?thesis using fin gates by (auto simp: versioned_destroy_def in_set_conv_nth)
qed

section \<open>Witnesses\<close>

text \<open>A number starting at 10; one publish of the command ``add 4'' from its start to its end.\<close>

definition snap_demo_object :: "(nat, nat) versioned" where
  "snap_demo_object = \<lparr>vs_history = Current, vs_policy = Replay, vs_inst = 9, vs_front = 10, vs_shadow = 10, vs_previous = 10,
     vs_stamps = \<lparr>previous_published = 0, current_published = 0, current_serial = 0\<rparr>,
     vs_journal = journal_new, vs_batch = [], vs_chain = Ready, vs_last_publish = Ready, vs_copy = None, vs_hash = None\<rparr>"

definition snap_demo_staged :: "(nat, nat) versioned_run" where
  "snap_demo_staged = (versioned_run_new snap_demo_object 0)\<lparr>vr_obj := snap_demo_object\<lparr>vs_journal := \<lparr>jn_slots = [[4]], jn_free = []\<rparr>\<rparr>\<rparr>"

definition snap_demo_published :: "(nat, nat) versioned_run" where
  "snap_demo_published = snap_demo_staged\<lparr>vr_obj := fst (publish 0 (vr_obj snap_demo_staged)), vr_synced := {},
     vr_pubs := [\<lparr>pb_prev = Ready, pb_flip = None, pb_pc = Gated\<rparr>]\<rparr>"

definition snap_demo_begun :: "(nat, nat) versioned_run" where
  "snap_demo_begun = (let s = set_pub_pc 0 Submitted snap_demo_published in set_pub_pc 0 (Applying 0) (s\<lparr>vr_obj := fst (phase1 False (vr_obj s))\<rparr>))"

definition snap_demo_queued :: "(nat, nat) versioned_run" where
  "snap_demo_queued = enter_job 1 (Swap_job 0) (set_pub_pc 0 Swap_queued
     (set_pub_pc 0 (Applying 1) (snap_demo_begun\<lparr>vr_obj := apply_command (+) 0 (vr_obj snap_demo_begun)\<rparr>)))"

definition snap_demo_swapped :: "(nat, nat) versioned_run" where
  "snap_demo_swapped = set_job 1 (Swapped_job 0) (swap_phase 5 0 2 snap_demo_queued)"

definition snap_demo_replayed :: "(nat, nat) versioned_run" where
  "snap_demo_replayed = (let s = leave_job 1 (Done_job Read_write) (set_job 1 (Done_job Read_write) (trigger (Swapped 0) snap_demo_swapped));
       u = set_pub_pc 0 (Resyncing 0) s
     in set_pub_pc 0 (Resyncing 1) (u\<lparr>vr_obj := apply_command (+) 0 (vr_obj u)\<rparr>))"


abbreviation (input) snap_demo_reach :: "(nat, nat) versioned_run \<Rightarrow> bool" where
  "snap_demo_reach \<equiv> versioned_reach (+) (+) True 10"

lemma snap_demo_start_reach: "snap_demo_reach (versioned_run_new snap_demo_object 0)"
proof -
  have "versioned_new Current Replay 9 10 0 = Inr snap_demo_object" by (simp add: versioned_new_def snap_demo_object_def)
  from vr_start [OF this, where copy = None and hash = None] show ?thesis by (simp add: snap_demo_object_def)
qed

lemma snap_demo_staged_reach: "snap_demo_reach snap_demo_staged"
  using vr_step [OF snap_demo_start_reach vn_journal [of _ _ _ _ "\<lparr>jn_slots = [[4]], jn_free = []\<rparr>"]]
  by (simp add: snap_demo_staged_def versioned_run_new_def)

lemma snap_demo_published_reach: "snap_demo_reach snap_demo_published"
proof -
  have "publish (length (vr_pubs snap_demo_staged)) (vr_obj snap_demo_staged) = (fst (publish 0 (vr_obj snap_demo_staged)), Ready)"
    by (simp add: snap_demo_staged_def snap_demo_object_def versioned_run_new_def publish_def)
  from vr_step [OF snap_demo_staged_reach vn_publish [OF this]] show ?thesis
    by (simp add: snap_demo_published_def) (simp add: snap_demo_staged_def versioned_run_new_def)
qed

lemma snap_demo_begun_reach: "snap_demo_reach snap_demo_begun"
proof -
  let ?s = "set_pub_pc 0 Submitted snap_demo_published"
  have "at_pc snap_demo_published 0 Gated" "pb_prev (vr_pubs snap_demo_published ! 0) \<in> vr_settled snap_demo_published"
    by (simp_all add: snap_demo_published_def snap_demo_staged_def versioned_run_new_def)
  from vr_step [OF snap_demo_published_reach vn_submit [OF this]] have s: "snap_demo_reach ?s" .
  have "at_pc ?s 0 Submitted" by (simp add: snap_demo_published_def)
  moreover have "phase1 False (vr_obj ?s) = (fst (phase1 False (vr_obj ?s)), True)"
    by (simp add: snap_demo_published_def snap_demo_staged_def publish_def phase1_def cut_eq)
  ultimately show ?thesis unfolding snap_demo_begun_def Let_def by (rule vr_step [OF s vn_begin])
qed

lemma snap_demo_queued_reach: "snap_demo_reach snap_demo_queued"
proof -
  let ?s = "set_pub_pc 0 (Applying (Suc 0)) (snap_demo_begun\<lparr>vr_obj := apply_command (+) 0 (vr_obj snap_demo_begun)\<rparr>)"
  have "at_pc snap_demo_begun 0 (Applying 0)" "0 < length (vs_batch (vr_obj snap_demo_begun))" by code_simp+
  from vr_step [OF snap_demo_begun_reach vn_apply [OF this]] have s: "snap_demo_reach ?s" .
  have "at_pc ?s 0 (Applying (length (vs_batch (vr_obj ?s))))" "pb_flip (vr_pubs ?s ! 0) = None" "vr_job ?s 1 = None"
    by code_simp+
  from vr_step [OF s vn_enqueue [OF this]] show ?thesis by (simp add: snap_demo_queued_def)
qed

lemma snap_demo_swapped_reach: "snap_demo_reach snap_demo_swapped"
proof -
  have "at_pc snap_demo_queued 0 Swap_queued" "holding snap_demo_queued 1 (Swap_job 0)" "vr_job snap_demo_queued 2 = None" by code_simp+
  from vr_step [OF snap_demo_queued_reach vn_swap [OF this]] show ?thesis by (simp add: snap_demo_swapped_def)
qed

lemma snap_demo_replayed_reach: "snap_demo_reach snap_demo_replayed"
proof -
  let ?a = "set_job 1 (Done_job Read_write) (trigger (Swapped 0) snap_demo_swapped)"
  let ?b = "leave_job 1 (Done_job Read_write) ?a"
  let ?c = "set_pub_pc 0 (Resyncing 0) ?b"
  have "vr_job snap_demo_swapped 1 = Some (Swapped_job 0)" by code_simp
  from vr_step [OF snap_demo_swapped_reach vn_gate [OF this]] have a: "snap_demo_reach ?a" .
  have "holding ?a 1 (Done_job Read_write)" by code_simp
  from vr_step [OF a vn_release [OF this]] have b: "snap_demo_reach ?b" by simp
  have "at_pc ?b 0 Resync_queued" "holding ?b 2 (Resync_job 0)" by code_simp+
  from vr_step [OF b vn_resync [OF this]] have c: "snap_demo_reach ?c" .
  have "at_pc ?c 0 (Resyncing 0)" "vs_policy (vr_obj ?c) = Replay" "0 < length (vs_batch (vr_obj ?c))" by code_simp+
  from vr_step [OF c vn_replay [OF this]] show ?thesis by (simp add: snap_demo_replayed_def Let_def)
qed

theorem versioned_front_is_fold_witness: "vs_front (vr_obj snap_demo_swapped) = fold (+) [4] 10"
proof -
  have "vr_batches snap_demo_swapped = [[4]]" "vs_policy (vr_obj snap_demo_swapped) = Replay" by code_simp+
  then show ?thesis using versioned_front_is_fold [OF snap_demo_swapped_reach] by (simp add: contract_def)
qed

lemma snap_demo_reader:
  "snap_demo_reach (enter_job 3 Read_job (versioned_run_new snap_demo_object 0))"
  by (rule vr_step [OF snap_demo_start_reach vn_read]) (simp add: versioned_run_new_def)

theorem versioned_reader_stable_witness:
  "vs_front (vr_obj (enter_job 4 Flip_job ((enter_job 3 Read_job (versioned_run_new snap_demo_object 0))\<lparr>vr_synced := {4}\<rparr>))) =
     vs_front (vr_obj (enter_job 3 Read_job (versioned_run_new snap_demo_object 0)))"
proof -
  let ?s = "enter_job 3 Read_job (versioned_run_new snap_demo_object 0)"
  have free: "vr_job ?s 4 = None" by code_simp
  have "all_synced ?s" by (simp add: all_synced_def enter_job_def versioned_run_new_def)
  then have "versioned_step (+) (+) True ?s (enter_job 4 Flip_job (?s\<lparr>vr_synced := {4}\<rparr>))"
    using vn_flip_enter [of ?s 4 "(+)" "(+)" True, OF free] by (simp add: versioned_run_new_def)
  moreover have "holding ?s 3 Read_job" by code_simp
  ultimately show ?thesis using versioned_reader_stable [OF snap_demo_reader] by blast
qed

theorem versioned_flip_never_faults_witness:
  "\<exists>v. publish_into (\<lambda>_. 0) (Some [\<lparr>ent_instance = 9, ent_mode = Read_write, ent_epoch = None, ent_captured = 0, ent_rank = 0\<rparr>])
     (\<lambda>g. g \<in> {Ready}) 9 0 snap_demo_object = Inr v"
proof -
  let ?s = "enter_job 4 Flip_job ((versioned_run_new snap_demo_object 0)\<lparr>vr_synced := {4}\<rparr>)"
  have free: "vr_job (versioned_run_new snap_demo_object 0) 4 = None" by (simp add: versioned_run_new_def)
  have "all_synced (versioned_run_new snap_demo_object 0)" by (simp add: all_synced_def versioned_run_new_def)
  then have s: "snap_demo_reach ?s"
    using vr_step [OF snap_demo_start_reach vn_flip_enter [OF free]] by (simp add: versioned_run_new_def)
  have "4 \<in> vr_synced ?s" "holding ?s 4 Flip_job" by code_simp+
  moreover have "access_check (\<lambda>_. 0) (Some [\<lparr>ent_instance = 9, ent_mode = Read_write, ent_epoch = None, ent_captured = 0,
      ent_rank = 0\<rparr>]) (vs_inst (vr_obj ?s)) Read_write = Inr ()" by code_simp
  ultimately show ?thesis
    using versioned_flip_never_faults [OF s, of 4] by (fastforce simp: versioned_run_new_def snap_demo_object_def)
qed

theorem versioned_replay_converges_witness:
  "vs_shadow (vr_obj snap_demo_replayed) = 14 \<and> vs_shadow (vr_obj snap_demo_replayed) = vs_front (vr_obj snap_demo_replayed)"
proof -
  have "vs_policy (vr_obj snap_demo_replayed) = Replay" "0 < length (vr_pubs snap_demo_replayed)"
    "pb_pc (vr_pubs snap_demo_replayed ! 0) = Resyncing (length (vs_batch (vr_obj snap_demo_replayed)))"
    "vs_shadow (vr_obj snap_demo_replayed) = 14" by code_simp+
  then show ?thesis using versioned_replay_converges [OF snap_demo_replayed_reach] by blast
qed

theorem versioned_destroy_quiesced_witness:
  "versioned_destroy (\<lambda>g. g \<in> vr_settled snap_demo_staged) (vr_obj snap_demo_staged) = Inl Versioned_lost_writes"
proof -
  have "vs_chain (vr_obj snap_demo_staged) \<in> vr_settled snap_demo_staged" "pp_queue (run_pipe (vr_pipe snap_demo_staged)) = []"
    "run_holders (vr_pipe snap_demo_staged) = {#}" "has_staged (vs_journal (vr_obj snap_demo_staged))" by code_simp+
  then show ?thesis using versioned_destroy_quiesced [OF snap_demo_staged_reach] by simp
qed
end
