(* ===== verification/Event_Bus.thy ===== *)
theory Event_Bus
  imports Deferred
begin

text \<open>
  The event bus (include/ts/event_bus.h): producers stage events and subscriptions, one dispatch applies the
  staged batch to the board and calls every handler. Event types are numbers, an event is a value of any
  type, and a call of a handler is recorded as a pair of the subscription's id and the event. A
  \<^verbatim>\<open>Sub_control\<close> exists once per subscription, so its \<^verbatim>\<open>dead\<close> flag is a set of ids; ids count up from one
  and are taken as unbounded (64 bits in the code).
\<close>

section \<open>The board\<close>

record subscription =
  sb_id :: nat
  sb_owner :: "addr option"

record 'e event_lane =
  ln_events :: "'e list"
  ln_subs :: "subscription list"

record 'e board =
  bd_index :: "nat \<rightharpoonup> nat"
  bd_lanes :: "'e event_lane list"

definition board_new :: "'e board" where
  "board_new = \<lparr>bd_index = Map.empty, bd_lanes = []\<rparr>"

text \<open>\<^verbatim>\<open>Board::lane<E>()\<close>: the lane of a type, created at its first use.\<close>

definition board_lane :: "nat \<Rightarrow> 'e board \<Rightarrow> 'e board \<times> nat" where
  "board_lane t b =
     (case bd_index b t of
        Some i \<Rightarrow> (b, i)
      | None \<Rightarrow> (b\<lparr>bd_index := (bd_index b)(t \<mapsto> length (bd_lanes b)),
                  bd_lanes := bd_lanes b @ [\<lparr>ln_events = [], ln_subs = []\<rparr>]\<rparr>, length (bd_lanes b)))"

definition update_lane :: "nat \<Rightarrow> ('e event_lane \<Rightarrow> 'e event_lane) \<Rightarrow> 'e board \<Rightarrow> 'e board" where
  "update_lane t f b = (let (b', i) = board_lane t b in b'\<lparr>bd_lanes := (bd_lanes b')[i := f (bd_lanes b' ! i)]\<rparr>)"

text \<open>
  \<^verbatim>\<open>dispatch_and_clear\<close>. \<open>live\<close> is what the loop finds when it visits a subscription: not tombstoned and,
  if pinned, the owner locked; \<open>reap\<close> is what \<^verbatim>\<open>erase_if\<close> finds afterwards. Both read shared flags, so they
  are inputs.
\<close>

definition dispatch_and_clear ::
  "(subscription \<Rightarrow> bool) \<Rightarrow> (subscription \<Rightarrow> bool) \<Rightarrow> 'e event_lane \<Rightarrow> 'e event_lane \<times> (nat \<times> 'e) list" where
  "dispatch_and_clear live reap l =
     (l\<lparr>ln_subs := filter (\<lambda>s. \<not> reap s) (ln_subs l), ln_events := []\<rparr>,
      concat (map (\<lambda>s. if live s then map (Pair (sb_id s)) (ln_events l) else []) (ln_subs l)))"

definition dispatch_all ::
  "(subscription \<Rightarrow> bool) \<Rightarrow> (subscription \<Rightarrow> bool) \<Rightarrow> 'e board \<Rightarrow> 'e board \<times> (nat \<times> 'e) list" where
  "dispatch_all live reap b =
     (b\<lparr>bd_lanes := map (\<lambda>l. fst (dispatch_and_clear live reap l)) (bd_lanes b)\<rparr>,
      concat (map (\<lambda>l. snd (dispatch_and_clear live reap l)) (bd_lanes b)))"

definition lane_remove :: "nat \<Rightarrow> 'e event_lane \<Rightarrow> 'e event_lane" where
  "lane_remove i l = l\<lparr>ln_subs := filter (\<lambda>s. sb_id s \<noteq> i) (ln_subs l)\<rparr>"

definition board_remove :: "nat \<Rightarrow> nat \<Rightarrow> 'e board \<Rightarrow> 'e board" where
  "board_remove t i b =
     (case bd_index b t of
        None \<Rightarrow> b
      | Some k \<Rightarrow> b\<lparr>bd_lanes := (bd_lanes b)[k := lane_remove i (bd_lanes b ! k)]\<rparr>)"

section \<open>Staged commands\<close>

datatype 'e bus_command = Publish_event nat 'e | Install nat subscription

text \<open>What a staged closure does at the cut; an install checks its tombstone.\<close>

fun run_command :: "nat set \<Rightarrow> 'e bus_command \<Rightarrow> 'e board \<Rightarrow> 'e board" where
  "run_command dead (Publish_event t e) b = update_lane t (\<lambda>l. l\<lparr>ln_events := ln_events l @ [e]\<rparr>) b"
| "run_command dead (Install t s) b =
     (if sb_id s \<in> dead then b else update_lane t (\<lambda>l. l\<lparr>ln_subs := ln_subs l @ [s]\<rparr>) b)"

section \<open>The bus\<close>

record 'e event_bus =
  eb_board :: "'e board"
  eb_staged :: "'e bus_command deferred"
  eb_publisher :: "nat list"
  eb_next_id :: nat

definition event_bus_new :: "pipe_id \<Rightarrow> addr \<Rightarrow> nat \<Rightarrow> 'e event_bus result" where
  "event_bus_new p a workers =
     (case parallel_mint journal_new workers of
        Inl f \<Rightarrow> Inl f
      | Inr (j, slots) \<Rightarrow> Inr \<lparr>eb_board = board_new, eb_staged = (deferred_new p a)\<lparr>df_journal := j\<rparr>,
          eb_publisher = slots, eb_next_id = 1\<rparr>)"

definition bus_stage :: "int \<Rightarrow> 'e bus_command \<Rightarrow> 'e event_bus \<Rightarrow> 'e event_bus result" where
  "bus_stage worker c u =
     (case parallel_stage (df_journal (eb_staged u)) (eb_publisher u) worker c of
        Inl f \<Rightarrow> Inl f
      | Inr j \<Rightarrow> Inr (u\<lparr>eb_staged := (eb_staged u)\<lparr>df_journal := j\<rparr>\<rparr>))"

definition bus_publish :: "int \<Rightarrow> nat \<Rightarrow> 'e \<Rightarrow> 'e event_bus \<Rightarrow> 'e event_bus result" where
  "bus_publish worker t e u = bus_stage worker (Publish_event t e) u"

text \<open>\<^verbatim>\<open>add_subscription\<close>: the connection is its type and id.\<close>

definition add_subscription :: "int \<Rightarrow> nat \<Rightarrow> addr option \<Rightarrow> 'e event_bus \<Rightarrow> ('e event_bus \<times> nat) result" where
  "add_subscription worker t owner u =
     (let i = eb_next_id u in
      case bus_stage worker (Install t \<lparr>sb_id = i, sb_owner = owner\<rparr>) (u\<lparr>eb_next_id := i + 1\<rparr>) of
        Inl f \<Rightarrow> Inl f
      | Inr u' \<Rightarrow> Inr (u', i))"

text \<open>
  \<^verbatim>\<open>Dispatch_fn\<close>, run by \<open>current\<close> while it owns the board's write grant: the commit takes its inline arm,
  then every lane is dispatched.
\<close>

definition dispatch_fn ::
  "nat set \<Rightarrow> (subscription \<Rightarrow> bool) \<Rightarrow> (subscription \<Rightarrow> bool) \<Rightarrow> epoch_store \<Rightarrow> block_id \<Rightarrow> access_context option \<Rightarrow>
     'e event_bus \<Rightarrow> ('e event_bus \<times> (nat \<times> 'e) list) result" where
  "dispatch_fn dead live reap epochs current ctx u =
     (case commit (run_command dead) epochs (Some current) (Some current) ctx False 0 (eb_staged u) (eb_board u) of
        Inl f \<Rightarrow> Inl f
      | Inr (d, b, _) \<Rightarrow>
          let (b', calls) = dispatch_all live reap b in Inr (u\<lparr>eb_staged := d, eb_board := b'\<rparr>, calls))"

section \<open>A bus in use\<close>

text \<open>
  Publishers and subscribers stage at any time; a disconnect tombstones first and removes under the
  board's grant later; owners die at any time; a dispatch is one step under the board's grant,
  during which further tombstones and deaths may land. The last five fields are bookkeeping:
  the type of every connection, the ids whose disconnect has returned, all handler calls, per type all events that were in a dispatched cut, and per subscription how
  many of these came before the cut that installed it.
\<close>

record 'e bus_run =
  br_bus :: "'e event_bus"
  br_dead :: "nat set"
  br_gone :: "addr set"
  br_type :: "nat \<Rightarrow> nat"
  br_removed :: "nat set"
  br_calls :: "(nat \<times> 'e) list"
  br_events :: "nat \<Rightarrow> 'e list"
  br_from :: "nat \<Rightarrow> nat"

definition owner_gone :: "addr set \<Rightarrow> subscription \<Rightarrow> bool" where
  "owner_gone gone s \<longleftrightarrow> (case sb_owner s of None \<Rightarrow> False | Some a \<Rightarrow> a \<in> gone)"

definition events_of :: "nat \<Rightarrow> 'e bus_command list \<Rightarrow> 'e list" where
  "events_of t cs = concat (map (\<lambda>c. case c of Publish_event t' e \<Rightarrow> if t' = t then [e] else [] | Install _ _ \<Rightarrow> []) cs)"

definition installs_of :: "'e bus_command list \<Rightarrow> (nat \<times> subscription) list" where
  "installs_of cs = concat (map (\<lambda>c. case c of Publish_event _ _ \<Rightarrow> [] | Install t s \<Rightarrow> [(t, s)]) cs)"

abbreviation (input) staged_of :: "'e event_bus \<Rightarrow> 'e bus_command list" where
  "staged_of u \<equiv> concat (jn_slots (df_journal (eb_staged u)))"

inductive bus_step :: "'e bus_run \<Rightarrow> 'e bus_run \<Rightarrow> bool" where
  bs_publish: "bus_publish worker t e (br_bus r) = Inr u \<Longrightarrow> bus_step r (r\<lparr>br_bus := u\<rparr>)"
| bs_subscribe: "add_subscription worker t owner (br_bus r) = Inr (u, i) \<Longrightarrow>
     bus_step r (r\<lparr>br_bus := u, br_type := (br_type r)(i := t)\<rparr>)"
| bs_tombstone: "bus_step r (r\<lparr>br_dead := insert i (br_dead r)\<rparr>)"
| bs_remove: "i \<in> br_dead r \<Longrightarrow>
     bus_step r (r\<lparr>br_bus := (br_bus r)\<lparr>eb_board := board_remove (br_type r i) i (eb_board (br_bus r))\<rparr>,
       br_removed := insert i (br_removed r)\<rparr>)"
| bs_owner_dies: "bus_step r (r\<lparr>br_gone := insert a (br_gone r)\<rparr>)"
| bs_dispatch: "br_dead r \<subseteq> dead \<Longrightarrow> dead \<subseteq> dead' \<Longrightarrow> br_gone r \<subseteq> gone' \<Longrightarrow>
     (\<And>s. sb_id s \<in> dead \<or> owner_gone (br_gone r) s \<Longrightarrow> \<not> live s) \<Longrightarrow> (\<And>s. \<not> live s \<Longrightarrow> reap s) \<Longrightarrow>
     (\<And>s. reap s \<Longrightarrow> sb_id s \<in> dead' \<or> owner_gone gone' s) \<Longrightarrow>
     dispatch_fn dead live reap epochs current ctx (br_bus r) = Inr (u, calls) \<Longrightarrow>
     bus_step r (r\<lparr>br_bus := u, br_dead := dead', br_gone := gone', br_calls := br_calls r @ calls,
       br_events := (\<lambda>t. br_events r t @ events_of t (staged_of (br_bus r))),
       br_from := (\<lambda>i. case map_of (map (\<lambda>x. (sb_id (snd x), fst x)) (installs_of (staged_of (br_bus r)))) i of
          None \<Rightarrow> br_from r i | Some t \<Rightarrow> length (br_events r t))\<rparr>)"

inductive bus_reach :: "'e bus_run \<Rightarrow> bool" where
  br_start: "event_bus_new p a workers = Inr u \<Longrightarrow>
     bus_reach \<lparr>br_bus = u, br_dead = {}, br_gone = {}, br_type = (\<lambda>_. 0), br_removed = {},
       br_calls = [], br_events = (\<lambda>_. []), br_from = (\<lambda>_. 0)\<rparr>"
| br_step: "bus_reach r \<Longrightarrow> bus_step r r' \<Longrightarrow> bus_reach r'"

section \<open>Lanes by type\<close>

definition lane_at :: "'e board \<Rightarrow> nat \<Rightarrow> 'e event_lane" where
  "lane_at b t = (case bd_index b t of None \<Rightarrow> \<lparr>ln_events = [], ln_subs = []\<rparr> | Some i \<Rightarrow> bd_lanes b ! i)"

definition board_ok :: "'e board \<Rightarrow> bool" where
  "board_ok b \<longleftrightarrow> (\<forall>t i. bd_index b t = Some i \<longrightarrow> i < length (bd_lanes b))
     \<and> (\<forall>t t' i. bd_index b t = Some i \<and> bd_index b t' = Some i \<longrightarrow> t = t')
     \<and> (\<forall>i < length (bd_lanes b). \<exists>t. bd_index b t = Some i)"

lemma board_ok_new: "board_ok board_new" "lane_at board_new t = \<lparr>ln_events = [], ln_subs = []\<rparr>"
  by (simp_all add: board_ok_def board_new_def lane_at_def)

lemma board_okD:
  assumes "board_ok b"
  shows "bd_index b t = Some i \<Longrightarrow> i < length (bd_lanes b)"
    and "bd_index b t = Some i \<Longrightarrow> bd_index b t' = Some i \<Longrightarrow> t = t'"
    and "i < length (bd_lanes b) \<Longrightarrow> \<exists>t. bd_index b t = Some i"
  using assms unfolding board_ok_def by blast+

lemma board_lane_ok:
  assumes ok: "board_ok b" and bl: "board_lane t b = (b', i)"
  shows "board_ok b'" and "bd_index b' t = Some i" and "i < length (bd_lanes b')" and "lane_at b' t' = lane_at b t'"
proof -
  have "board_ok b' \<and> bd_index b' t = Some i \<and> i < length (bd_lanes b') \<and> lane_at b' t' = lane_at b t'"
  proof (cases "bd_index b t")
    case (Some k)
    then show ?thesis using bl ok board_okD(1) [OF ok Some] by (simp add: board_lane_def)
  next
    case None
    let ?n = "length (bd_lanes b)"
    have b': "b' = b\<lparr>bd_index := (bd_index b)(t \<mapsto> ?n), bd_lanes := bd_lanes b @ [\<lparr>ln_events = [], ln_subs = []\<rparr>]\<rparr>"
      and i: "i = ?n" using None bl by (auto simp: board_lane_def)
    have "board_ok b'"
      unfolding board_ok_def
    proof (intro conjI allI impI)
      fix u k assume "bd_index b' u = Some k"
      then show "k < length (bd_lanes b')" using board_okD(1) [OF ok, of u k] by (auto simp: b' less_SucI split: if_splits)
    next
      fix u u' k assume "bd_index b' u = Some k \<and> bd_index b' u' = Some k"
      then show "u = u'" using board_okD(1) [OF ok, of u k] board_okD(1) [OF ok, of u' k] board_okD(2) [OF ok, of u k u']
        by (auto simp: b' split: if_splits)
    next
      fix k assume k: "k < length (bd_lanes b')"
      show "\<exists>u. bd_index b' u = Some k"
      proof (cases "k = ?n")
        case True
        then show ?thesis by (auto simp: b')
      next
        case False
        then obtain u where "bd_index b u = Some k" using k board_okD(3) [OF ok, of k] by (auto simp: b')
        then show ?thesis using None by (intro exI [of _ u]) (auto simp: b')
      qed
    qed
    moreover have "lane_at b' t' = lane_at b t'"
      using None board_okD(1) [OF ok, of t'] by (auto simp: b' lane_at_def nth_append split: option.splits)
    ultimately show ?thesis by (simp add: b' i)
  qed
  then show "board_ok b'" "bd_index b' t = Some i" "i < length (bd_lanes b')" "lane_at b' t' = lane_at b t'" by auto
qed

lemma update_lane_ok:
  assumes "board_ok b"
  shows "board_ok (update_lane t f b)"
    and "lane_at (update_lane t f b) t' = (if t' = t then f (lane_at b t) else lane_at b t')"
proof -
  obtain b' i where bl: "board_lane t b = (b', i)" by fastforce
  note ok = board_lane_ok [OF assms bl]
  show "board_ok (update_lane t f b)"
    using ok(1) by (simp add: update_lane_def bl board_ok_def)
  have "bd_index b' t' \<noteq> Some i" if "t' \<noteq> t" using ok(1,2) that unfolding board_ok_def by blast
  moreover have "lane_at b' t = bd_lanes b' ! i" using ok(2) by (simp add: lane_at_def)
  moreover have "k < length (bd_lanes b')" if "bd_index b' t' = Some k" for k using ok(1) that by (simp add: board_ok_def)
  ultimately show "lane_at (update_lane t f b) t' = (if t' = t then f (lane_at b t) else lane_at b t')"
    using ok(2,3) ok(4) [of t] ok(4) [of t']
    by (auto simp: update_lane_def bl lane_at_def split: option.splits)
qed

text \<open>A cut adds to each lane the published events of its type and the subscriptions not yet tombstoned.\<close>

lemma events_of_simps [simp]:
  "events_of t [] = []"
  "events_of t (Publish_event t' e # cs) = (if t' = t then e # events_of t cs else events_of t cs)"
  "events_of t (Install t' s # cs) = events_of t cs"
  "events_of t (cs @ ds) = events_of t cs @ events_of t ds"
  by (simp_all add: events_of_def)

lemma installs_of_simps [simp]:
  "installs_of [] = []" "installs_of (Publish_event t e # cs) = installs_of cs"
  "installs_of (Install t s # cs) = (t, s) # installs_of cs"
  "installs_of (cs @ ds) = installs_of cs @ installs_of ds"
  by (simp_all add: installs_of_def)

definition installed :: "nat set \<Rightarrow> nat \<Rightarrow> 'e bus_command list \<Rightarrow> subscription list" where
  "installed dead t cs = map snd (filter (\<lambda>x. fst x = t \<and> sb_id (snd x) \<notin> dead) (installs_of cs))"

lemma cut_lanes:
  assumes "board_ok b"
  shows "board_ok (fold (run_command dead) cs b)
    \<and> lane_at (fold (run_command dead) cs b) t =
        (lane_at b t)\<lparr>ln_events := ln_events (lane_at b t) @ events_of t cs,
                      ln_subs := ln_subs (lane_at b t) @ installed dead t cs\<rparr>"
  using assms
proof (induction cs arbitrary: b)
  case (Cons c cs)
  then show ?case
    using update_lane_ok [OF Cons.prems] by (cases c) (auto simp: installed_def)
qed (simp add: installed_def)

section \<open>Calls\<close>

definition calls_for :: "nat \<Rightarrow> (nat \<times> 'e) list \<Rightarrow> 'e list" where
  "calls_for i cs = map snd (filter (\<lambda>x. fst x = i) cs)"

lemma calls_for_simps [simp]:
  "calls_for i [] = []" "calls_for i (cs @ ds) = calls_for i cs @ calls_for i ds"
  "calls_for i (map (Pair j) es) = (if j = i then es else [])"
  by (simp_all add: calls_for_def filter_map comp_def)

lemma calls_for_concat: "calls_for i (concat xs) = concat (map (calls_for i) xs)"
  by (induction xs) auto

text \<open>One lane: the subscription with the id, if it is live, gets all events of the cut in order.\<close>

definition sub_calls :: "(subscription \<Rightarrow> bool) \<Rightarrow> 'e list \<Rightarrow> subscription list \<Rightarrow> (nat \<times> 'e) list" where
  "sub_calls live es ss = concat (map (\<lambda>s. if live s then map (Pair (sb_id s)) es else []) ss)"

lemma lane_calls: "snd (dispatch_and_clear live reap l) = sub_calls live (ln_events l) (ln_subs l)"
  by (simp add: dispatch_and_clear_def sub_calls_def)

lemma sub_calls_none: "(\<And>s. s \<in> set ss \<Longrightarrow> sb_id s = i \<Longrightarrow> \<not> live s) \<Longrightarrow> calls_for i (sub_calls live es ss) = []"
  by (induction ss) (auto simp: sub_calls_def)

lemma sub_calls_absent: "i \<notin> sb_id ` set ss \<Longrightarrow> calls_for i (sub_calls live es ss) = []"
  by (rule sub_calls_none) (metis imageI)

lemma sub_calls_one:
  "distinct (map sb_id ss) \<Longrightarrow> s \<in> set ss \<Longrightarrow> calls_for (sb_id s) (sub_calls live es ss) = (if live s then es else [])"
proof (induction ss)
  case (Cons a ss)
  show ?case
  proof (cases "s = a")
    case True
    have "calls_for (sb_id s) (sub_calls live es ss) = []" using Cons.prems True by (intro sub_calls_absent) simp
    then show ?thesis using True by (simp add: sub_calls_def)
  next
    case False
    then have "s \<in> set ss" using Cons.prems by simp
    moreover have "sb_id s \<noteq> sb_id a"
    proof
      assume "sb_id s = sb_id a"
      then have "sb_id a \<in> sb_id ` set ss" using \<open>s \<in> set ss\<close> by (metis imageI)
      then show False using Cons.prems(1) by simp
    qed
    ultimately show ?thesis using Cons by (auto simp: sub_calls_def)
  qed
qed simp

lemma concat_single:
  "k < n \<Longrightarrow> (\<And>j. j < n \<Longrightarrow> j \<noteq> k \<Longrightarrow> f j = []) \<Longrightarrow> concat (map f [0..<n]) = f k"
proof (induction n)
  case (Suc n)
  have "concat (map f [0..<n]) = []" if "k = n" using Suc.prems(2) that by auto
  then show ?case using Suc by (cases "k = n") auto
qed simp

text \<open>Each subscription is on one lane, once.\<close>

definition subs_ok :: "'e board \<Rightarrow> bool" where
  "subs_ok b \<longleftrightarrow> (\<forall>t. distinct (map sb_id (ln_subs (lane_at b t))))
     \<and> (\<forall>t t'. t \<noteq> t' \<longrightarrow> sb_id ` set (ln_subs (lane_at b t)) \<inter> sb_id ` set (ln_subs (lane_at b t')) = {})"

lemma dispatch_all_lane:
  assumes "board_ok b"
  shows "board_ok (fst (dispatch_all live reap b))"
    and "lane_at (fst (dispatch_all live reap b)) t =
      (lane_at b t)\<lparr>ln_subs := filter (\<lambda>s. \<not> reap s) (ln_subs (lane_at b t)), ln_events := []\<rparr>"
  using assms by (auto simp: dispatch_all_def board_ok_def lane_at_def dispatch_and_clear_def split: option.splits)

lemma dispatch_all_calls:
  assumes ok: "board_ok b" and subs: "subs_ok b" and s: "s \<in> set (ln_subs (lane_at b t))"
  shows "calls_for (sb_id s) (snd (dispatch_all live reap b)) = (if live s then ln_events (lane_at b t) else [])"
proof -
  obtain k where k: "bd_index b t = Some k" using s by (auto simp: lane_at_def split: option.splits)
  have len: "k < length (bd_lanes b)" using ok k by (simp add: board_ok_def)
  let ?f = "\<lambda>j. calls_for (sb_id s) (snd (dispatch_and_clear live reap (bd_lanes b ! j)))"
  have other: "?f j = []" if "j < length (bd_lanes b)" "j \<noteq> k" for j
  proof -
    obtain t' where t': "bd_index b t' = Some j" using board_okD(3) [OF ok] \<open>j < length (bd_lanes b)\<close> by blast
    then have "t' \<noteq> t" using k \<open>j \<noteq> k\<close> by auto
    then have "sb_id s \<notin> sb_id ` set (ln_subs (lane_at b t'))" using subs s unfolding subs_ok_def by blast
    then show ?thesis using t' unfolding lane_calls by (intro sub_calls_absent) (simp add: lane_at_def)
  qed
  have "map (\<lambda>l. calls_for (sb_id s) (snd (dispatch_and_clear live reap l))) (bd_lanes b) = map ?f [0..<length (bd_lanes b)]"
    by (rule nth_equalityI) simp_all
  then have "calls_for (sb_id s) (snd (dispatch_all live reap b)) = concat (map ?f [0..<length (bd_lanes b)])"
    by (simp add: dispatch_all_def calls_for_concat comp_def)
  also have "\<dots> = ?f k" by (rule concat_single [OF len other])
  also have "\<dots> = (if live s then ln_events (lane_at b t) else [])"
  proof -
    have "lane_at b t = bd_lanes b ! k" using k by (simp add: lane_at_def)
    moreover have "distinct (map sb_id (ln_subs (lane_at b t)))" using subs unfolding subs_ok_def by blast
    ultimately show ?thesis using s unfolding lane_calls by (simp add: sub_calls_one)
  qed
  finally show ?thesis .
qed

lemma dispatch_all_no_calls:
  assumes ok: "board_ok b" and none: "\<And>t s. s \<in> set (ln_subs (lane_at b t)) \<Longrightarrow> sb_id s = i \<Longrightarrow> \<not> live s"
  shows "calls_for i (snd (dispatch_all live reap b)) = []"
proof -
  have "calls_for i (snd (dispatch_and_clear live reap l)) = []" if "l \<in> set (bd_lanes b)" for l
  proof -
    obtain k where "k < length (bd_lanes b)" "l = bd_lanes b ! k" using \<open>l \<in> set (bd_lanes b)\<close> by (auto simp: in_set_conv_nth)
    moreover then obtain t where "bd_index b t = Some k" using board_okD(3) [OF ok] by blast
    ultimately have "l = lane_at b t" by (simp add: lane_at_def)
    then have dead: "\<And>s. s \<in> set (ln_subs l) \<Longrightarrow> sb_id s = i \<Longrightarrow> \<not> live s" using none by blast
    then show ?thesis unfolding lane_calls by (rule sub_calls_none)
  qed
  then show ?thesis by (simp add: dispatch_all_def calls_for_concat)
qed

section \<open>The invariant of a bus in use\<close>

definition publisher_ok :: "'e event_bus \<Rightarrow> bool" where
  "publisher_ok u \<longleftrightarrow> eb_publisher u \<noteq> [] \<and> set (eb_publisher u) \<subseteq> {..<length (jn_slots (df_journal (eb_staged u)))}"

definition on_lane :: "'e board \<Rightarrow> nat \<Rightarrow> nat \<Rightarrow> bool" where
  "on_lane b t i \<longleftrightarrow> i \<in> sb_id ` set (ln_subs (lane_at b t))"

text \<open>
  Staged installs have fresh ids, each once; ids are below the counter; and a subscription that is
  neither tombstoned nor orphaned has received every event of its type since its install's cut.
\<close>

definition bus_ok ::
  "'e event_bus \<Rightarrow> nat set \<Rightarrow> addr set \<Rightarrow> (nat \<Rightarrow> nat) \<Rightarrow> nat set \<Rightarrow> (nat \<times> 'e) list \<Rightarrow> (nat \<Rightarrow> 'e list) \<Rightarrow> (nat \<Rightarrow> nat) \<Rightarrow> bool"
where
  "bus_ok u dead gone ty removed calls events since \<longleftrightarrow>
     board_ok (eb_board u) \<and> subs_ok (eb_board u) \<and> publisher_ok u
     \<and> (\<forall>t. ln_events (lane_at (eb_board u) t) = [])
     \<and> distinct (map (sb_id \<circ> snd) (installs_of (staged_of u)))
     \<and> (\<forall>t s. (t, s) \<in> set (installs_of (staged_of u)) \<longrightarrow> sb_id s < eb_next_id u \<and> ty (sb_id s) = t
          \<and> calls_for (sb_id s) calls = [] \<and> (\<forall>t'. \<not> on_lane (eb_board u) t' (sb_id s)))
     \<and> (\<forall>t i. on_lane (eb_board u) t i \<longrightarrow> i < eb_next_id u \<and> ty i = t)
     \<and> (\<forall>i. eb_next_id u \<le> i \<longrightarrow> calls_for i calls = [])
     \<and> (\<forall>i t. i \<in> removed \<longrightarrow> i \<in> dead \<and> \<not> on_lane (eb_board u) t i)
     \<and> (\<forall>t s. s \<in> set (ln_subs (lane_at (eb_board u) t)) \<longrightarrow> sb_id s \<notin> dead \<longrightarrow> \<not> owner_gone gone s \<longrightarrow>
          since (sb_id s) \<le> length (events t) \<and> calls_for (sb_id s) calls = drop (since (sb_id s)) (events t))"

definition bus_inv :: "'e bus_run \<Rightarrow> bool" where
  "bus_inv r \<longleftrightarrow> bus_ok (br_bus r) (br_dead r) (br_gone r) (br_type r) (br_removed r) (br_calls r) (br_events r) (br_from r)"

lemma add_slots_publisher:
  "add_slots n j = Inr (j', ss) \<Longrightarrow> set (jn_free j) \<subseteq> {..<length (jn_slots j)} \<Longrightarrow> concat (jn_slots j) = [] \<Longrightarrow>
     length ss = n \<and> set ss \<subseteq> {..<length (jn_slots j')} \<and> length (jn_slots j) \<le> length (jn_slots j') \<and> concat (jn_slots j') = []"
proof (induction n arbitrary: j ss)
  case (Suc n)
  then obtain j1 k ss1 where one: "add_slot j = Inr (j1, k)" and rest: "add_slots n j1 = Inr (j', ss1)" and ss: "ss = k # ss1"
    by (auto split: sum.splits)
  have mint: "recorder_mint j = Inr (j1, Some k)" using one by (simp add: recorder_mint_def)
  note slots = recorder_mint_slots [OF mint Suc.prems(2)]
  have "concat (jn_slots j1) = []"
    using one Suc.prems(3) by (auto simp: add_slot_def split: if_splits list.splits)
  from Suc.IH [OF rest slots(3) this] show ?case using slots ss by auto
qed simp

lemma bus_stage_effect:
  assumes "bus_stage worker c u = Inr u'" and "publisher_ok u"
  shows "mset (staged_of u') = add_mset c (mset (staged_of u))" and "eb_board u' = eb_board u"
    and "eb_next_id u' = eb_next_id u" and "publisher_ok u'"
proof -
  let ?j = "df_journal (eb_staged u)"
  let ?k = "eb_publisher u ! lane (eb_publisher u) worker"
  have "lane (eb_publisher u) worker < length (eb_publisher u)"
    using assms(2) by (auto simp: lane_def publisher_ok_def)
  then have k: "?k < length (jn_slots ?j)" using assms(2) nth_mem by (fastforce simp: publisher_ok_def)
  have u': "u' = u\<lparr>eb_staged := (eb_staged u)\<lparr>df_journal := stage_slot ?j ?k c\<rparr>\<rparr>"
    using assms by (auto simp: bus_stage_def parallel_stage_def publisher_ok_def)
  have "mset (concat (xs[k := xs ! k @ [c]])) = add_mset c (mset (concat xs))" if "k < length xs" for k xs
    using that by (induction xs arbitrary: k) (auto simp: nth_Cons split: nat.splits)
  from this [OF k] show "mset (staged_of u') = add_mset c (mset (staged_of u))" by (simp add: u' stage_slot_def)
  show "eb_board u' = eb_board u" "eb_next_id u' = eb_next_id u" by (simp_all add: u')
  show "publisher_ok u'" using assms(2) by (simp add: u' publisher_ok_def stage_slot_def)
qed

lemma mset_installs:
  fixes cs ds :: "'a bus_command list"
  shows "mset cs = mset ds \<Longrightarrow> mset (installs_of cs) = mset (installs_of ds)"
proof -
  have "mset (installs_of cs) = (\<Sum>c \<in># mset cs. mset (installs_of [c]))" for cs :: "'a bus_command list"
  proof (induction cs)
    case (Cons c cs)
    then show ?case using installs_of_simps(4) [of "[c]" cs] by simp
  qed simp
  then show "mset cs = mset ds \<Longrightarrow> mset (installs_of cs) = mset (installs_of ds)" by metis
qed

lemma bus_stage_installs:
  assumes "bus_stage worker c u = Inr u'" and "publisher_ok u"
  shows "mset (installs_of (staged_of u')) = mset (installs_of [c]) + mset (installs_of (staged_of u))"
proof -
  have "mset (staged_of u') = mset (c # staged_of u)" using bus_stage_effect(1) [OF assms] by simp
  from mset_installs [OF this] show ?thesis by (cases c) simp_all
qed

section \<open>The steps keep the invariant\<close>

lemma bus_okD:
  assumes "bus_ok u dead gone ty removed calls events since"
  shows "board_ok (eb_board u)" and "subs_ok (eb_board u)" and "publisher_ok u" and "ln_events (lane_at (eb_board u) t) = []"
    and "distinct (map (sb_id \<circ> snd) (installs_of (staged_of u)))"
    and "(t, s) \<in> set (installs_of (staged_of u)) \<Longrightarrow> sb_id s < eb_next_id u \<and> ty (sb_id s) = t
      \<and> calls_for (sb_id s) calls = [] \<and> (\<forall>t'. \<not> on_lane (eb_board u) t' (sb_id s))"
    and "on_lane (eb_board u) t i \<Longrightarrow> i < eb_next_id u \<and> ty i = t"
    and "eb_next_id u \<le> i \<Longrightarrow> calls_for i calls = []"
    and "i \<in> removed \<Longrightarrow> i \<in> dead \<and> \<not> on_lane (eb_board u) t i"
    and "s \<in> set (ln_subs (lane_at (eb_board u) t)) \<Longrightarrow> sb_id s \<notin> dead \<Longrightarrow> \<not> owner_gone gone s \<Longrightarrow>
      since (sb_id s) \<le> length (events t) \<and> calls_for (sb_id s) calls = drop (since (sb_id s)) (events t)"
  using assms unfolding bus_ok_def by blast+

lemma bus_ok_stage:
  assumes inv: "bus_ok u dead gone ty0 removed calls events since" and board: "eb_board u' = eb_board u" and pub: "publisher_ok u'"
    and ins: "mset (installs_of (staged_of u')) = mset new + mset (installs_of (staged_of u))"
    and new: "new = [] \<and> eb_next_id u' = eb_next_id u \<and> ty = ty0 \<or>
      (\<exists>t s. new = [(t, s)] \<and> sb_id s = eb_next_id u \<and> eb_next_id u' = Suc (eb_next_id u) \<and> ty = ty0(sb_id s := t))"
  shows "bus_ok u' dead gone ty removed calls events since"
proof -
  let ?ins = "installs_of (staged_of u)" and ?ins' = "installs_of (staged_of u')"
  note D = bus_okD [OF inv]
  have set: "set ?ins' = set new \<union> set ?ins" using ins by (metis set_mset_mset set_mset_union)
  have "mset (map (sb_id \<circ> snd) ?ins') = mset (map (sb_id \<circ> snd) (new @ ?ins))" using ins by simp
  moreover have "distinct (map (sb_id \<circ> snd) (new @ ?ins))" using new D(5,6) by fastforce
  ultimately have dist: "distinct (map (sb_id \<circ> snd) ?ins')" by (metis mset_eq_imp_distinct_iff)
  have next_le: "eb_next_id u \<le> eb_next_id u'" using new by auto
  have ty: "ty i = ty0 i" if "i < eb_next_id u" for i using new that by auto
  have staged: "sb_id s < eb_next_id u' \<and> ty (sb_id s) = t \<and> calls_for (sb_id s) calls = []
      \<and> (\<forall>t'. \<not> on_lane (eb_board u) t' (sb_id s))" if "(t, s) \<in> set ?ins'" for t s
  proof (cases "(t, s) \<in> set ?ins")
    case True
    then show ?thesis using D(6) [OF True] next_le ty by auto
  next
    case False
    then have "(t, s) \<in> set new" using that set by auto
    then have n: "new = [(t, s)]" "sb_id s = eb_next_id u" "eb_next_id u' = Suc (eb_next_id u)" "ty (sb_id s) = t"
      using new by auto
    have "\<not> on_lane (eb_board u) t' (sb_id s)" for t' using D(7) n(2) by (metis less_irrefl)
    then show ?thesis using n D(8) by simp
  qed
  have known: "i < eb_next_id u' \<and> ty i = t" if "on_lane (eb_board u) t i" for i t
    using D(7) [OF that] next_le ty by auto
  have later: "calls_for i calls = []" if "eb_next_id u' \<le> i" for i using D(8) next_le that by simp
  show ?thesis
    unfolding bus_ok_def board
    using D(1,2,4,9,10) pub dist staged known later by blast
qed

text \<open>The board after the cut of a dispatch.\<close>

lemma cut_board:
  fixes dead :: "nat set"
  assumes inv: "bus_ok u dead0 gone ty removed calls events since"
  defines "cs \<equiv> staged_of u" and "b \<equiv> eb_board u"
  defines "b1 \<equiv> fold (run_command dead) cs b"
  shows "board_ok b1" and "ln_events (lane_at b1 t) = events_of t cs"
    and "ln_subs (lane_at b1 t) = ln_subs (lane_at b t) @ installed dead t cs" and "subs_ok b1"
proof -
  note D = bus_okD [OF inv]
  have lanes: "board_ok b1 \<and> lane_at b1 t = (lane_at b t)\<lparr>ln_events := ln_events (lane_at b t) @ events_of t cs,
      ln_subs := ln_subs (lane_at b t) @ installed dead t cs\<rparr>" for t
    unfolding b1_def using cut_lanes D(1) by (simp add: b_def)
  show "board_ok b1" using lanes by blast
  show "ln_events (lane_at b1 t) = events_of t cs" for t using lanes D(4) by (simp add: b_def)
  show subs: "ln_subs (lane_at b1 t) = ln_subs (lane_at b t) @ installed dead t cs" for t using lanes by simp
  have ins: "s \<in> set (installed dead t cs) \<Longrightarrow> (t, s) \<in> set (installs_of cs)" for s t by (auto simp: installed_def)
  have fresh: "sb_id ` set (installed dead t cs) \<inter> sb_id ` set (ln_subs (lane_at b t')) = {}" for t t'
    using D(6) ins unfolding b_def cs_def on_lane_def by (fastforce dest: ins)
  have one: "distinct (map sb_id (installed dead t cs))" for t
    using distinct_map_filter [OF D(5)] by (simp add: installed_def cs_def)
  have typed: "ty i = t" if "i \<in> sb_id ` set (installed dead t cs)" for i t
    using that D(6) ins by (auto simp: cs_def)
  have apart: "sb_id ` set (installed dead t cs) \<inter> sb_id ` set (installed dead t' cs) = {}" if "t \<noteq> t'" for t t'
  proof (rule ccontr)
    assume "\<not> ?thesis"
    then obtain i where "i \<in> sb_id ` set (installed dead t cs)" "i \<in> sb_id ` set (installed dead t' cs)" by blast
    then show False using typed [of i t] typed [of i t'] that by simp
  qed
  show "subs_ok b1"
    unfolding subs_ok_def
  proof (intro conjI allI impI)
    fix t
    have "distinct (map sb_id (ln_subs (lane_at b t)))" using D(2) unfolding subs_ok_def b_def by blast
    then show "distinct (map sb_id (ln_subs (lane_at b1 t)))" using one [of t] fresh [of t t] by (auto simp: subs)
  next
    fix t t' :: nat assume ne: "t \<noteq> t'"
    have "sb_id ` set (ln_subs (lane_at b t)) \<inter> sb_id ` set (ln_subs (lane_at b t')) = {}"
      using D(2) ne unfolding subs_ok_def b_def by blast
    then show "sb_id ` set (ln_subs (lane_at b1 t)) \<inter> sb_id ` set (ln_subs (lane_at b1 t')) = {}"
      using apart [OF ne] fresh [of t t'] fresh [of t' t]
      by (simp add: subs image_Un Int_Un_distrib Int_Un_distrib2 Int_commute)
  qed
qed

lemma dispatch_fn_effect:
  assumes "dispatch_fn dead live reap epochs current ctx u = Inr (u', calls)"
  defines "b1 \<equiv> fold (run_command dead) (staged_of u) (eb_board u)"
  shows "eb_board u' = fst (dispatch_all live reap b1)" and "calls = snd (dispatch_all live reap b1)"
    and "staged_of u' = []" and "eb_next_id u' = eb_next_id u" and "publisher_ok u \<Longrightarrow> publisher_ok u'"
proof -
  let ?commit = "commit (run_command dead) epochs (Some current) (Some current) ctx False 0 (eb_staged u) (eb_board u)"
  obtain c where c: "?commit = Inr c" using assms(1) by (cases ?commit) (auto simp: dispatch_fn_def)
  obtain d b out where com: "?commit = Inr (d, b, out)" using c by (cases c) auto
  have u': "u' = u\<lparr>eb_staged := d, eb_board := fst (dispatch_all live reap b)\<rparr>" and calls: "calls = snd (dispatch_all live reap b)"
    using assms(1) com by (auto simp: dispatch_fn_def split_def Let_def)
  from com have "apply_under_grant (run_command dead) epochs ctx (eb_staged u) (eb_board u) = Inr (d, b)"
    by (auto simp: commit_def split: sum.splits)
  note eff = apply_under_grant_result [OF this]
  have b: "b = b1" using eff(2) by (simp add: b1_def cut_eq)
  show "eb_board u' = fst (dispatch_all live reap b1)" "calls = snd (dispatch_all live reap b1)" using u' calls b by simp_all
  show "staged_of u' = []" "eb_next_id u' = eb_next_id u" using u' eff(1) by (simp_all add: clear_staged_def)
  show "publisher_ok u \<Longrightarrow> publisher_ok u'" using u' eff(1) by (simp add: publisher_ok_def clear_staged_def)
qed

lemma install_key:
  assumes "distinct (map (sb_id \<circ> snd) ins)" and "(t, s) \<in> set ins"
  shows "map_of (map (\<lambda>x. (sb_id (snd x), fst x)) ins) (sb_id s) = Some t"
proof -
  have "distinct (map fst (map (\<lambda>x. (sb_id (snd x), fst x)) ins))" using assms(1) by (simp add: comp_def)
  then show ?thesis by (rule map_of_is_SomeI) (use assms(2) in force)
qed

lemma bus_ok_dispatch:
  assumes inv: "bus_ok u dead0 gone0 ty removed calls events since" and sub: "dead0 \<subseteq> dead" "dead \<subseteq> dead'" "gone0 \<subseteq> gone'"
    and live: "\<And>s. sb_id s \<in> dead \<or> owner_gone gone0 s \<Longrightarrow> \<not> live s" and reap: "\<And>s. \<not> live s \<Longrightarrow> reap s"
    and fn: "dispatch_fn dead live reap epochs current ctx u = Inr (u', new)"
  shows "bus_ok u' dead' gone' ty removed (calls @ new) (\<lambda>t. events t @ events_of t (staged_of u))
    (\<lambda>i. case map_of (map (\<lambda>x. (sb_id (snd x), fst x)) (installs_of (staged_of u))) i of
        None \<Rightarrow> since i | Some t \<Rightarrow> length (events t))"
proof -
  let ?cs = "staged_of u" and ?b = "eb_board u"
  let ?b1 = "fold (run_command dead) ?cs ?b"
  note D = bus_okD [OF inv] and cb = cut_board [OF inv, of dead] and E = dispatch_fn_effect [OF fn]
  have lanes: "ln_subs (lane_at (eb_board u') t) = filter (\<lambda>s. \<not> reap s) (ln_subs (lane_at ?b1 t))"
    "ln_events (lane_at (eb_board u') t) = []" for t
    unfolding E(1) dispatch_all_lane(2) [OF cb(1)] by simp_all
  have subset: "set (ln_subs (lane_at (eb_board u') t)) \<subseteq> set (ln_subs (lane_at ?b1 t))" for t using lanes by auto
  have on1: "i < eb_next_id u \<and> ty i = t \<and> i \<notin> removed" if i: "i \<in> sb_id ` set (ln_subs (lane_at ?b1 t))" for i t
  proof (cases "on_lane ?b t i")
    case True
    then show ?thesis using D(7,9) by blast
  next
    case False
    then obtain s where s: "i = sb_id s" "(t, s) \<in> set (installs_of ?cs)" "sb_id s \<notin> dead"
      using i False unfolding cb(3) on_lane_def by (auto simp: installed_def)
    then show ?thesis using D(6) [OF s(2)] D(9) [of i t] sub(1) by auto
  qed
  have on: "i < eb_next_id u' \<and> ty i = t \<and> i \<notin> removed" if "on_lane (eb_board u') t i" for i t
    using that subset on1 E(4) unfolding on_lane_def by (metis image_mono subsetD)
  have subs: "subs_ok (eb_board u')"
    using cb(4) subset unfolding subs_ok_def lanes by (auto simp: distinct_map_filter) blast
  have quiet: "calls_for i (calls @ new) = []" if "eb_next_id u' \<le> i" for i
  proof -
    have "calls_for i new = []" unfolding E(2)
      using on1 that E(4) by (intro dispatch_all_no_calls [OF cb(1)]) (metis imageI leD)
    then show ?thesis using D(8) that E(4) by simp
  qed
  have deliver: "(case map_of (map (\<lambda>x. (sb_id (snd x), fst x)) (installs_of ?cs)) (sb_id s) of
        None \<Rightarrow> since (sb_id s) | Some t \<Rightarrow> length (events t)) \<le> length (events t @ events_of t ?cs)
      \<and> calls_for (sb_id s) (calls @ new) = drop (case map_of (map (\<lambda>x. (sb_id (snd x), fst x)) (installs_of ?cs)) (sb_id s) of
        None \<Rightarrow> since (sb_id s) | Some t \<Rightarrow> length (events t)) (events t @ events_of t ?cs)"
    if s: "s \<in> set (ln_subs (lane_at (eb_board u') t))" and "sb_id s \<notin> dead'" "\<not> owner_gone gone' s" for t s
  proof -
    have s1: "s \<in> set (ln_subs (lane_at ?b1 t))" and "live s" using s lanes reap by auto
    then have got: "calls_for (sb_id s) new = events_of t ?cs"
      unfolding E(2) using dispatch_all_calls [OF cb(1,4) s1] cb(2) by simp
    show ?thesis
    proof (cases "s \<in> set (ln_subs (lane_at ?b t))")
      case True
      have "sb_id s \<notin> (\<lambda>x. sb_id (snd x)) ` set (installs_of ?cs)"
      proof
        assume "sb_id s \<in> (\<lambda>x. sb_id (snd x)) ` set (installs_of ?cs)"
        then obtain t' s' where "(t', s') \<in> set (installs_of ?cs)" "sb_id s' = sb_id s" by auto
        from D(6) [OF this(1)] this(2) True show False unfolding on_lane_def by (metis imageI)
      qed
      then have "map_of (map (\<lambda>x. (sb_id (snd x), fst x)) (installs_of ?cs)) (sb_id s) = None"
        by (auto simp: map_of_eq_None_iff image_image)
      moreover have "\<not> owner_gone gone0 s" using that(3) sub(3) by (auto simp: owner_gone_def split: option.splits)
      moreover have "sb_id s \<notin> dead0" using that(2) sub by auto
      ultimately show ?thesis using D(10) [OF True] got by simp
    next
      case False
      then have ins: "(t, s) \<in> set (installs_of ?cs)" using s1 unfolding cb(3) by (auto simp: installed_def)
      show ?thesis using install_key [OF D(5) ins] D(6) [OF ins] got by simp
    qed
  qed
  show ?thesis
    unfolding bus_ok_def
  proof (intro conjI allI impI)
    show "board_ok (eb_board u')" unfolding E(1) by (rule dispatch_all_lane(1) [OF cb(1)])
    show "subs_ok (eb_board u')" by (rule subs)
    show "publisher_ok u'" by (rule E(5) [OF D(3)])
    show "distinct (map (sb_id \<circ> snd) (installs_of (staged_of u')))" unfolding E(3) by simp
    fix t show "ln_events (lane_at (eb_board u') t) = []" by (rule lanes)
  next
    fix i t assume "i \<in> removed"
    then show "i \<in> dead'" "\<not> on_lane (eb_board u') t i" using D(9) [of i] sub on by blast+
  next
    fix t s assume "s \<in> set (ln_subs (lane_at (eb_board u') t))" "sb_id s \<notin> dead'" "\<not> owner_gone gone' s"
    note deliver [OF this]
    then show "(case map_of (map (\<lambda>x. (sb_id (snd x), fst x)) (installs_of ?cs)) (sb_id s) of
        None \<Rightarrow> since (sb_id s) | Some t \<Rightarrow> length (events t)) \<le> length (events t @ events_of t ?cs)"
      "calls_for (sb_id s) (calls @ new) = drop (case map_of (map (\<lambda>x. (sb_id (snd x), fst x)) (installs_of ?cs)) (sb_id s) of
        None \<Rightarrow> since (sb_id s) | Some t \<Rightarrow> length (events t)) (events t @ events_of t ?cs)" by blast+
  qed (use E(3) on quiet in auto)
qed

lemma board_remove_lane:
  assumes "board_ok b"
  shows "board_ok (board_remove t i b)"
    and "lane_at (board_remove t i b) t' = (if t' = t then lane_remove i (lane_at b t) else lane_at b t')"
proof -
  show "board_ok (board_remove t i b)"
    using assms by (auto simp: board_remove_def board_ok_def split: option.splits)
  show "lane_at (board_remove t i b) t' = (if t' = t then lane_remove i (lane_at b t) else lane_at b t')"
  proof (cases "bd_index b t")
    case None
    then show ?thesis by (simp add: board_remove_def lane_at_def lane_remove_def)
  next
    case (Some k)
    have "bd_index b t' \<noteq> Some k" if "t' \<noteq> t" using board_okD(2) [OF assms Some] that by blast
    then show ?thesis using Some board_okD(1) [OF assms Some]
      by (auto simp: board_remove_def lane_at_def split: option.splits)
  qed
qed

lemma bus_ok_remove:
  assumes inv: "bus_ok u dead gone ty removed calls events since" and i: "i \<in> dead"
  shows "bus_ok (u\<lparr>eb_board := board_remove (ty i) i (eb_board u)\<rparr>) dead gone ty (insert i removed) calls events since"
proof -
  note D = bus_okD [OF inv]
  let ?b = "board_remove (ty i) i (eb_board u)"
  note R = board_remove_lane [OF D(1), of "ty i" i]
  have subs: "set (ln_subs (lane_at ?b t)) \<subseteq> set (ln_subs (lane_at (eb_board u) t))" for t
    by (auto simp: R lane_remove_def)
  have on: "on_lane (eb_board u) t k \<and> k \<noteq> i" if "on_lane ?b t k" for t k
  proof -
    have "on_lane (eb_board u) t k" using that subs unfolding on_lane_def by blast
    moreover have "k \<noteq> i"
    proof
      assume "k = i"
      then have "t = ty i" using D(7) calculation by blast
      then show False using that \<open>k = i\<close> by (auto simp: on_lane_def R lane_remove_def)
    qed
    ultimately show ?thesis by blast
  qed
  have ok: "subs_ok ?b"
    unfolding subs_ok_def
  proof (intro conjI allI impI)
    fix t
    have "distinct (map sb_id (ln_subs (lane_at (eb_board u) t)))" using D(2) unfolding subs_ok_def by blast
    then show "distinct (map sb_id (ln_subs (lane_at ?b t)))"
      by (cases "t = ty i") (simp_all add: R lane_remove_def distinct_map_filter)
  next
    fix t t' :: nat assume ne: "t \<noteq> t'"
    have "sb_id ` set (ln_subs (lane_at (eb_board u) t)) \<inter> sb_id ` set (ln_subs (lane_at (eb_board u) t')) = {}"
      using D(2) ne unfolding subs_ok_def by blast
    with image_mono [OF subs, of sb_id t] image_mono [OF subs, of sb_id t']
    show "sb_id ` set (ln_subs (lane_at ?b t)) \<inter> sb_id ` set (ln_subs (lane_at ?b t')) = {}" by blast
  qed
  have absent: "\<not> on_lane ?b t' (sb_id s)" if "(t, s) \<in> set (installs_of (staged_of u))" for t t' s
    using D(6) [OF that] on by blast
  have clear: "ln_events (lane_at ?b t) = []" for t using D(4) by (simp add: R lane_remove_def)
  show ?thesis
    unfolding bus_ok_def
  proof (intro conjI allI impI)
    fix t s assume s: "s \<in> set (ln_subs (lane_at (eb_board (u\<lparr>eb_board := ?b\<rparr>)) t))" "sb_id s \<notin> dead" "\<not> owner_gone gone s"
    then have "s \<in> set (ln_subs (lane_at (eb_board u) t))" using subs by auto
    from D(10) [OF this s(2,3)] show "since (sb_id s) \<le> length (events t)"
      "calls_for (sb_id s) calls = drop (since (sb_id s)) (events t)" by blast+
  qed (use R(1) ok D(3) clear D(5) D(8) i in \<open>auto simp: publisher_ok_def dest: on absent D(6) D(7) D(9)\<close>)
qed

lemma bus_inv_step:
  assumes inv: "bus_inv r" and "bus_step r r'"
  shows "bus_inv r'"
  using assms(2)
proof cases
  case (bs_publish worker t e u)
  have ok: "bus_ok (br_bus r) (br_dead r) (br_gone r) (br_type r) (br_removed r) (br_calls r) (br_events r) (br_from r)"
    using inv by (simp add: bus_inv_def)
  have stage: "bus_stage worker (Publish_event t e) (br_bus r) = Inr u" using bs_publish by (simp add: bus_publish_def)
  note eff = bus_stage_effect [OF stage bus_okD(3) [OF ok]]
  have "mset (installs_of (staged_of u)) = mset [] + mset (installs_of (staged_of (br_bus r)))"
    using bus_stage_installs [OF stage bus_okD(3) [OF ok]] by simp
  from bus_ok_stage [OF ok eff(2,4) this] eff(3) show ?thesis using bs_publish by (simp add: bus_inv_def)
next
  case (bs_subscribe worker t owner u i)
  have ok: "bus_ok (br_bus r) (br_dead r) (br_gone r) (br_type r) (br_removed r) (br_calls r) (br_events r) (br_from r)"
    using inv by (simp add: bus_inv_def)
  let ?u = "(br_bus r)\<lparr>eb_next_id := Suc (eb_next_id (br_bus r))\<rparr>" and ?s = "\<lparr>sb_id = eb_next_id (br_bus r), sb_owner = owner\<rparr>"
  have stage: "bus_stage worker (Install t ?s) ?u = Inr u" and i: "i = eb_next_id (br_bus r)"
    using bs_subscribe by (auto simp: add_subscription_def Let_def split: sum.splits)
  have pub: "publisher_ok ?u" using bus_okD(3) [OF ok] by (simp add: publisher_ok_def)
  note eff = bus_stage_effect [OF stage pub]
  have "mset (installs_of (staged_of u)) = mset [(t, ?s)] + mset (installs_of (staged_of (br_bus r)))"
    using bus_stage_installs [OF stage pub] by simp
  moreover have "eb_board u = eb_board (br_bus r)" using eff(2) by simp
  ultimately show ?thesis
    using bus_ok_stage [OF ok _ eff(4), of "[(t, ?s)]" "(br_type r)(i := t)"] eff(3) bs_subscribe i by (simp add: bus_inv_def)
next
  case (bs_tombstone i)
  then show ?thesis using inv unfolding bus_inv_def bus_ok_def by auto
next
  case (bs_remove i)
  then show ?thesis using inv bus_ok_remove unfolding bus_inv_def by fastforce
next
  case (bs_owner_dies a)
  have "\<not> owner_gone (insert a (br_gone r)) s \<Longrightarrow> \<not> owner_gone (br_gone r) s" for s
    by (auto simp: owner_gone_def split: option.splits)
  then show ?thesis using inv bs_owner_dies unfolding bus_inv_def bus_ok_def by simp
next
  case (bs_dispatch dead dead' gone' live reap epochs current ctx u calls)
  have ok: "bus_ok (br_bus r) (br_dead r) (br_gone r) (br_type r) (br_removed r) (br_calls r) (br_events r) (br_from r)"
    using inv by (simp add: bus_inv_def)
  from bus_ok_dispatch [OF ok bs_dispatch(2,3,4,5,6,8)] show ?thesis using bs_dispatch(1) by (simp add: bus_inv_def)
qed

lemma bus_inv_reach: "bus_reach r \<Longrightarrow> bus_inv r"
proof (induction rule: bus_reach.induct)
  case (br_start p a workers u)
  obtain j slots where mint: "parallel_mint journal_new workers = Inr (j, slots)"
    and u: "u = \<lparr>eb_board = board_new, eb_staged = (deferred_new p a)\<lparr>df_journal := j\<rparr>, eb_publisher = slots, eb_next_id = 1\<rparr>"
    using br_start by (auto simp: event_bus_new_def split: sum.splits)
  have slots: "length slots = workers + 1 \<and> set slots \<subseteq> {..<length (jn_slots j)} \<and> concat (jn_slots j) = []"
    using add_slots_publisher [OF mint [unfolded parallel_mint_def]] by (simp add: journal_new_def)
  then have "staged_of u = []" "publisher_ok u" by (auto simp: u publisher_ok_def)
  moreover have "lane_at (eb_board u) t = \<lparr>ln_events = [], ln_subs = []\<rparr>" "board_ok (eb_board u)" for t
    using board_ok_new by (simp_all add: u)
  ultimately show ?case
    unfolding bus_inv_def bus_ok_def bus_run.simps by (simp add: subs_ok_def on_lane_def del: concat_eq_Nil_conv)
next
  case (br_step r r')
  show ?case by (rule bus_inv_step [OF br_step.IH br_step.hyps(2)])
qed

section \<open>Properties\<close>

text \<open>
  (C22) Delivery is exact. Whatever the order of publishes, subscriptions, disconnects, owner deaths and
  dispatches: a subscription on the board that is not tombstoned and whose owner (if any) lives has
  been called with every event of its type from the cut that installed it on, each once and in the
  order of the cuts, and with nothing else; between dispatches no event is left on a lane.
\<close>

theorem event_bus_exact_delivery:
  assumes "bus_reach r" and "s \<in> set (ln_subs (lane_at (eb_board (br_bus r)) t))"
    and "sb_id s \<notin> br_dead r" and "\<not> owner_gone (br_gone r) s"
  shows "map snd (filter (\<lambda>c. fst c = sb_id s) (br_calls r)) = drop (br_from r (sb_id s)) (br_events r t)
    \<and> br_from r (sb_id s) \<le> length (br_events r t) \<and> ln_events (lane_at (eb_board (br_bus r)) t) = []"
proof -
  have "bus_ok (br_bus r) (br_dead r) (br_gone r) (br_type r) (br_removed r) (br_calls r) (br_events r) (br_from r)"
    using bus_inv_reach [OF assms(1)] by (simp add: bus_inv_def)
  from bus_okD(10) [OF this assms(2-4)] bus_okD(4) [OF this] show ?thesis by (simp add: calls_for_def)
qed

lemma bus_step_tombstoned:
  assumes "bus_reach r" and "bus_step r r'" and "i \<in> br_dead r"
  shows "calls_for i (br_calls r') = calls_for i (br_calls r) \<and> i \<in> br_dead r' \<and> br_removed r \<subseteq> br_removed r'"
  using assms(2)
proof cases
  case (bs_dispatch dead dead' gone' live reap epochs current ctx u calls)
  have ok: "bus_ok (br_bus r) (br_dead r) (br_gone r) (br_type r) (br_removed r) (br_calls r) (br_events r) (br_from r)"
    using bus_inv_reach [OF assms(1)] by (simp add: bus_inv_def)
  have "calls_for i calls = []"
    unfolding dispatch_fn_effect(2) [OF bs_dispatch(8)]
    using bs_dispatch(2,5) assms(3) by (intro dispatch_all_no_calls cut_board(1) [OF ok]) auto
  then show ?thesis using bs_dispatch(1-3) assms(3) by auto
qed (use assms(3) in auto)

text \<open>
  A disconnect is final. From the moment a connection's tombstone is set no dispatch calls its
  handler again, and once \<^verbatim>\<open>disconnect\<close> has removed its entry no later dispatch puts it back on the
  board, even if its install was still staged at the time.
\<close>

theorem event_bus_disconnect_final:
  assumes "bus_reach r" and "bus_step\<^sup>*\<^sup>* r r'" and "i \<in> br_dead r"
  shows "map snd (filter (\<lambda>c. fst c = i) (br_calls r')) = map snd (filter (\<lambda>c. fst c = i) (br_calls r))
    \<and> (i \<in> br_removed r \<longrightarrow> (\<forall>t. i \<notin> sb_id ` set (ln_subs (lane_at (eb_board (br_bus r')) t))))"
proof -
  have "bus_reach r' \<and> calls_for i (br_calls r') = calls_for i (br_calls r) \<and> i \<in> br_dead r' \<and> br_removed r \<subseteq> br_removed r'"
    using assms(2)
  proof (induction rule: rtranclp_induct)
    case base
    then show ?case using assms(1,3) by simp
  next
    case (step r1 r2)
    then show ?case using bus_step_tombstoned [of r1 r2 i] bus_reach.br_step by fastforce
  qed
  moreover from this have "bus_inv r'" using bus_inv_reach by blast
  ultimately show ?thesis
    unfolding bus_inv_def bus_ok_def on_lane_def calls_for_def by blast
qed

section \<open>Witnesses\<close>

text \<open>One worker-less bus: a subscription to type 7, one event, one dispatch.\<close>

definition bus_demo_bus :: "nat event_bus" where
  "bus_demo_bus = \<lparr>eb_board = board_new, eb_staged = \<lparr>df_pipe = 3, df_inst = 9, df_journal = \<lparr>jn_slots = [[]], jn_free = []\<rparr>,
     df_last_commit = None\<rparr>, eb_publisher = [0], eb_next_id = 1\<rparr>"

definition bus_demo_start :: "nat bus_run" where
  "bus_demo_start = \<lparr>br_bus = bus_demo_bus, br_dead = {}, br_gone = {}, br_type = (\<lambda>_. 0), br_removed = {}, br_calls = [],
     br_events = (\<lambda>_. []), br_from = (\<lambda>_. 0)\<rparr>"

definition bus_demo_commands :: "nat bus_command list" where
  "bus_demo_commands = [Install 7 \<lparr>sb_id = 1, sb_owner = None\<rparr>, Publish_event 7 42]"

definition bus_demo_staged :: "nat bus_run" where
  "bus_demo_staged = bus_demo_start\<lparr>br_bus := bus_demo_bus\<lparr>eb_next_id := 2,
     eb_staged := (eb_staged bus_demo_bus)\<lparr>df_journal := \<lparr>jn_slots = [bus_demo_commands], jn_free = []\<rparr>\<rparr>\<rparr>,
     br_type := (\<lambda>_. 0)(1 := 7)\<rparr>"

definition bus_demo_dispatched :: "nat bus_run" where
  "bus_demo_dispatched = bus_demo_staged\<lparr>br_bus := bus_demo_bus\<lparr>eb_next_id := 2, eb_board := \<lparr>bd_index = [7 \<mapsto> 0],
       bd_lanes = [\<lparr>ln_events = [], ln_subs = [\<lparr>sb_id = 1, sb_owner = None\<rparr>]\<rparr>]\<rparr>\<rparr>,
     br_calls := [(1, 42)], br_events := (\<lambda>t. if t = 7 then [42] else []), br_from := (\<lambda>_. 0)\<rparr>"

lemma bus_demo_start_reach: "bus_reach bus_demo_start"
proof -
  have "event_bus_new 3 9 0 = Inr bus_demo_bus"
    by (simp add: event_bus_new_def parallel_mint_def add_slot_def journal_new_def bus_demo_bus_def deferred_new_def max_slots_def)
  from br_start [OF this] show ?thesis by (simp add: bus_demo_start_def)
qed

lemma bus_demo_staged_reach: "bus_reach bus_demo_staged"
proof -
  let ?u = "bus_demo_bus\<lparr>eb_next_id := 2, eb_staged := (eb_staged bus_demo_bus)\<lparr>df_journal :=
      \<lparr>jn_slots = [[Install 7 \<lparr>sb_id = 1, sb_owner = None\<rparr>]], jn_free = []\<rparr>\<rparr>\<rparr>"
  let ?r = "bus_demo_start\<lparr>br_bus := ?u, br_type := (\<lambda>_. 0)(1 := 7)\<rparr>"
  have "add_subscription (-1) 7 None (br_bus bus_demo_start) = Inr (?u, 1)"
    by (simp add: bus_demo_start_def bus_demo_bus_def add_subscription_def bus_stage_def parallel_stage_def lane_def stage_slot_def)
  from br_step [OF bus_demo_start_reach bs_subscribe [OF this]] have r: "bus_reach ?r"
    by (simp add: bus_demo_start_def)
  have "bus_publish (-1) 7 42 (br_bus ?r) = Inr (br_bus bus_demo_staged)"
    by (simp add: bus_demo_staged_def bus_demo_start_def bus_demo_bus_def bus_demo_commands_def bus_publish_def bus_stage_def parallel_stage_def
        lane_def stage_slot_def)
  from br_step [OF r bs_publish [OF this]] show ?thesis by (simp add: bus_demo_staged_def bus_demo_start_def)
qed

lemma bus_demo_dispatched_reach: "bus_reach bus_demo_dispatched"
proof -
  let ?ctx = "Some [\<lparr>ent_instance = 9, ent_mode = Read_write, ent_epoch = None, ent_captured = 0, ent_rank = 0\<rparr>]"
  have fn: "dispatch_fn {} (\<lambda>_. True) (\<lambda>_. False) (\<lambda>_. 0) 1 ?ctx (br_bus bus_demo_staged) = Inr (br_bus bus_demo_dispatched, [(1, 42)])"
    by (simp add: bus_demo_dispatched_def bus_demo_staged_def bus_demo_start_def bus_demo_bus_def bus_demo_commands_def dispatch_fn_def commit_def
        apply_under_grant_def access_check_def ctx_check_def entry_stale_def cut_eq clear_staged_def update_lane_def
        board_lane_def board_new_def dispatch_all_def dispatch_and_clear_def)
  have none: "br_dead bus_demo_staged \<subseteq> {}" "br_gone bus_demo_staged \<subseteq> {}" "br_dead bus_demo_staged = {}" "br_gone bus_demo_staged = {}"
    by (simp_all add: bus_demo_staged_def bus_demo_start_def)
  have "bus_step bus_demo_staged (bus_demo_staged\<lparr>br_bus := br_bus bus_demo_dispatched, br_dead := {}, br_gone := {},
      br_calls := br_calls bus_demo_staged @ [(1, 42)],
      br_events := (\<lambda>t. br_events bus_demo_staged t @ events_of t (staged_of (br_bus bus_demo_staged))),
      br_from := (\<lambda>i. case map_of (map (\<lambda>x. (sb_id (snd x), fst x)) (installs_of (staged_of (br_bus bus_demo_staged)))) i of
          None \<Rightarrow> br_from bus_demo_staged i | Some t \<Rightarrow> length (br_events bus_demo_staged t))\<rparr>)"
    by (rule bs_dispatch [OF _ _ _ _ _ _ fn]) (use none in \<open>auto simp: owner_gone_def split: option.splits\<close>)
  from br_step [OF bus_demo_staged_reach this] show ?thesis
    by (simp add: bus_demo_dispatched_def bus_demo_staged_def bus_demo_start_def bus_demo_commands_def fun_eq_iff if_distrib cong: if_cong)
qed

theorem event_bus_exact_delivery_witness:
  "map snd (filter (\<lambda>c. fst c = 1) (br_calls bus_demo_dispatched)) = [42]"
proof -
  let ?s = "\<lparr>sb_id = 1, sb_owner = None\<rparr>"
  have "?s \<in> set (ln_subs (lane_at (eb_board (br_bus bus_demo_dispatched)) 7))" "sb_id ?s \<notin> br_dead bus_demo_dispatched"
    "\<not> owner_gone (br_gone bus_demo_dispatched) ?s" "br_events bus_demo_dispatched 7 = [42]" "br_from bus_demo_dispatched 1 = 0"
    by (simp_all add: bus_demo_dispatched_def bus_demo_staged_def bus_demo_start_def lane_at_def owner_gone_def)
  then show ?thesis using event_bus_exact_delivery [OF bus_demo_dispatched_reach, of ?s 7] by simp
qed

theorem event_bus_disconnect_final_witness:
  "1 \<notin> sb_id ` set (ln_subs (lane_at (board_remove 7 1 (eb_board (br_bus bus_demo_dispatched))) 7))"
proof -
  let ?r = "bus_demo_dispatched\<lparr>br_dead := insert 1 (br_dead bus_demo_dispatched)\<rparr>"
  let ?r' = "?r\<lparr>br_bus := (br_bus ?r)\<lparr>eb_board := board_remove (br_type ?r 1) 1 (eb_board (br_bus ?r))\<rparr>,
       br_removed := insert 1 (br_removed ?r)\<rparr>"
  have r: "bus_reach ?r" by (rule br_step [OF bus_demo_dispatched_reach bs_tombstone])
  have dead: "1 \<in> br_dead ?r" by simp
  have r': "bus_reach ?r'" by (rule br_step [OF r bs_remove [OF dead]])
  have "br_type ?r 1 = 7" by (simp add: bus_demo_dispatched_def bus_demo_staged_def)
  then show ?thesis using event_bus_disconnect_final [OF r' rtranclp.rtrancl_refl, of 1] by simp
qed
end
