(* ===== verification/Rules.thy ===== *)
theory Rules
  imports Macrame_Prelude
begin

text \<open>
  The rule policy (include/ts/rules.h): which waiting-rule checks a build contains and how a scope opts out
  of one. A set of rules is a 32-bit mask; the relaxation of the running scope is thread-local and
  travels with a coroutine's segments.
\<close>

unbundle bit_operations_syntax

section \<open>Masks\<close>

type_synonym rule = "32 word"

definition in_task_sync :: rule where "in_task_sync = 0x01"
definition await_under_guard :: rule where "await_under_guard = 0x02"
definition access_rank :: rule where "access_rank = 0x04"
definition circular_wait :: rule where "circular_wait = 0x08"
definition deadlock_net :: rule where "deadlock_net = 0x10"
definition all_rules :: rule where "all_rules = 0x1F"

definition advisory :: rule where
  "advisory = in_task_sync OR access_rank OR circular_wait"

definition rule_not :: "rule \<Rightarrow> rule" where
  "rule_not a = NOT a AND all_rules"

definition any_rule :: "rule \<Rightarrow> bool" where
  "any_rule r \<longleftrightarrow> r \<noteq> 0"

text \<open>The build: \<open>TS_ENABLED_RULES\<close> (with its default) and \<open>TS_SAFETY_CHECKS\<close>.\<close>

record build =
  bl_enabled :: rule
  bl_safety :: bool

definition default_enabled :: "bool \<Rightarrow> rule" where
  "default_enabled safety = (if safety then all_rules else await_under_guard)"

definition rules_available :: "bool \<Rightarrow> rule" where
  "rules_available safety = (if safety then all_rules else all_rules AND NOT circular_wait AND NOT access_rank)"

definition rules_effective :: "build \<Rightarrow> rule" where
  "rules_effective b = bl_enabled b AND rules_available (bl_safety b)"

definition rule_compiled_in :: "build \<Rightarrow> rule \<Rightarrow> bool" where
  "rule_compiled_in b r = any_rule (r AND rules_effective b)"

section \<open>Relaxation\<close>

text \<open>The process-wide baseline and the thread-local bits, by thread.\<close>

record relaxation =
  rx_default :: rule
  rx_tls :: "nat \<Rightarrow> rule"

definition relaxed_bits :: "nat \<Rightarrow> relaxation \<Rightarrow> rule" where
  "relaxed_bits t x = rx_tls x t OR rx_default x"

definition rule_relaxed :: "nat \<Rightarrow> relaxation \<Rightarrow> rule \<Rightarrow> bool" where
  "rule_relaxed t x r = any_rule (relaxed_bits t x AND r AND advisory)"

definition rule_enforced :: "build \<Rightarrow> nat \<Rightarrow> relaxation \<Rightarrow> rule \<Rightarrow> bool" where
  "rule_enforced b t x r \<longleftrightarrow> rule_compiled_in b r \<and> \<not> rule_relaxed t x r"

definition set_default_relaxed_rules :: "rule \<Rightarrow> relaxation \<Rightarrow> relaxation" where
  "set_default_relaxed_rules rs x = x\<lparr>rx_default := rs AND advisory\<rparr>"

definition relaxed_store :: "nat \<Rightarrow> rule \<Rightarrow> relaxation \<Rightarrow> relaxation" where
  "relaxed_store t bits x = x\<lparr>rx_tls := (rx_tls x)(t := bits)\<rparr>"

text \<open>\<^verbatim>\<open>Relaxed_scope\<close>: the constructor returns the saved bits; the flag is its \<^verbatim>\<open>TS_ENSURE\<close> diagnosis.\<close>

definition relaxed_scope_enter :: "nat \<Rightarrow> rule \<Rightarrow> relaxation \<Rightarrow> relaxation \<times> rule \<times> bool" where
  "relaxed_scope_enter t rs x =
     (relaxed_store t (rx_tls x t OR (rs AND advisory)) x, rx_tls x t, any_rule (rs AND rule_not advisory))"

definition relaxed_scope_exit :: "nat \<Rightarrow> rule \<Rightarrow> relaxation \<Rightarrow> relaxation" where
  "relaxed_scope_exit t prev x = relaxed_store t prev x"

text \<open>\<^verbatim>\<open>Relaxed_carrier\<close>, in a coroutine's promise, and \<^verbatim>\<open>Inherited_relaxed_scope\<close>, around a helper's chunk.\<close>

record relaxed_carrier =
  rc_bits :: rule
  rc_prev :: rule

definition carrier_new :: "nat \<Rightarrow> relaxation \<Rightarrow> relaxed_carrier" where
  "carrier_new t x = \<lparr>rc_bits = rx_tls x t, rc_prev = 0\<rparr>"

definition carrier_enter :: "nat \<Rightarrow> relaxed_carrier \<Rightarrow> relaxation \<Rightarrow> relaxed_carrier \<times> relaxation" where
  "carrier_enter t c x = (c\<lparr>rc_prev := rx_tls x t\<rparr>, relaxed_store t (rc_bits c) x)"

definition carrier_exit :: "nat \<Rightarrow> relaxed_carrier \<Rightarrow> relaxation \<Rightarrow> relaxed_carrier \<times> relaxation" where
  "carrier_exit t c x = (c\<lparr>rc_bits := rx_tls x t\<rparr>, relaxed_store t (rc_prev c) x)"

definition snapshot_relaxed :: "nat \<Rightarrow> relaxation \<Rightarrow> rule" where
  "snapshot_relaxed t x = rx_tls x t"

definition inherited_relaxed_enter :: "nat \<Rightarrow> rule \<Rightarrow> relaxation \<Rightarrow> relaxation \<times> rule" where
  "inherited_relaxed_enter t bits x = (relaxed_store t bits x, rx_tls x t)"

definition inherited_relaxed_exit :: "nat \<Rightarrow> rule \<Rightarrow> relaxation \<Rightarrow> relaxation" where
  "inherited_relaxed_exit t prev x = relaxed_store t prev x"

lemmas rule_bits = in_task_sync_def await_under_guard_def access_rank_def circular_wait_def deadlock_net_def all_rules_def

section \<open>A coroutine's segments\<close>

text \<open>
  The body of a coroutine opens and closes relaxed scopes; its suspensions split it into segments, each
  resumed on some thread. A segment runs between \<open>carrier_enter\<close> and \<open>carrier_exit\<close>; the open scopes'
  saved bits live in the frame (the stack). \<open>seen\<close> collects the bits in force after each operation.
\<close>

datatype scope_op = Open_scope rule | Close_scope

fun scope_op_on :: "nat \<Rightarrow> scope_op \<Rightarrow> relaxation \<times> rule list \<Rightarrow> relaxation \<times> rule list" where
  "scope_op_on t (Open_scope rs) (x, stack) =
     (let (x', prev, _) = relaxed_scope_enter t rs x in (x', prev # stack))"
| "scope_op_on t Close_scope (x, stack) =
     (case stack of [] \<Rightarrow> (x, []) | prev # rest \<Rightarrow> (relaxed_scope_exit t prev x, rest))"

fun scope_ops_on :: "nat \<Rightarrow> scope_op list \<Rightarrow> relaxation \<times> rule list \<Rightarrow> (relaxation \<times> rule list) \<times> rule list" where
  "scope_ops_on t [] s = (s, [])"
| "scope_ops_on t (p # ps) s =
     (let s' = scope_op_on t p s; (s'', seen) = scope_ops_on t ps s' in (s'', rx_tls (fst s') t # seen))"

definition run_segment ::
  "nat \<Rightarrow> scope_op list \<Rightarrow> relaxed_carrier \<Rightarrow> relaxation \<times> rule list \<Rightarrow> relaxed_carrier \<times> (relaxation \<times> rule list) \<times> rule list" where
  "run_segment t ps c s =
     (let (c1, x1) = carrier_enter t c (fst s);
          ((x2, stack), seen) = scope_ops_on t ps (x1, snd s);
          (c2, x3) = carrier_exit t c1 x2
      in (c2, (x3, stack), seen))"

fun run_segments ::
  "(nat \<times> scope_op list) list \<Rightarrow> relaxed_carrier \<Rightarrow> relaxation \<times> rule list \<Rightarrow> relaxed_carrier \<times> (relaxation \<times> rule list) \<times> rule list" where
  "run_segments [] c s = (c, s, [])"
| "run_segments ((t, ps) # rest) c s =
     (let (c', s', seen) = run_segment t ps c s; (c'', s'', seen') = run_segments rest c' s' in (c'', s'', seen @ seen'))"

text \<open>The reference: the same operations without suspensions, on the bits alone.\<close>

fun plain_op :: "scope_op \<Rightarrow> rule \<times> rule list \<Rightarrow> rule \<times> rule list" where
  "plain_op (Open_scope rs) (bits, stack) = (bits OR (rs AND advisory), bits # stack)"
| "plain_op Close_scope (bits, stack) = (case stack of [] \<Rightarrow> (bits, []) | prev # rest \<Rightarrow> (prev, rest))"

fun plain_ops :: "scope_op list \<Rightarrow> rule \<times> rule list \<Rightarrow> (rule \<times> rule list) \<times> rule list" where
  "plain_ops [] s = (s, [])"
| "plain_ops (p # ps) s = (let s' = plain_op p s; (s'', seen) = plain_ops ps s' in (s'', fst s' # seen))"

lemma plain_ops_append:
  "plain_ops (ps @ qs) s =
     (let (s', seen) = plain_ops ps s; (s'', seen') = plain_ops qs s' in (s'', seen @ seen'))"
  by (induction ps arbitrary: s) (auto simp: Let_def split: prod.splits)

lemma scope_op_plain:
  "scope_op_on t p (x, stack) =
     (relaxed_store t (fst (plain_op p (rx_tls x t, stack))) x, snd (plain_op p (rx_tls x t, stack)))"
  by (cases p) (auto simp: relaxed_scope_enter_def relaxed_scope_exit_def relaxed_store_def split: list.splits)

lemma relaxed_store_simps [simp]:
  "rx_tls (relaxed_store t b x) t = b" "relaxed_store t b (relaxed_store t c x) = relaxed_store t b x"
  "relaxed_store t (rx_tls x t) x = x"
  by (simp_all add: relaxed_store_def)

lemma scope_ops_plain:
  "scope_ops_on t ps (x, stack) =
     (let ((bits, stack'), seen) = plain_ops ps (rx_tls x t, stack) in ((relaxed_store t bits x, stack'), seen))"
  by (induction ps arbitrary: x stack) (auto simp: scope_op_plain Let_def split: prod.splits)

lemma run_segment_plain:
  "run_segment t ps c (x, stack) =
     (let ((bits, stack'), seen) = plain_ops ps (rc_bits c, stack) in (c\<lparr>rc_prev := rx_tls x t, rc_bits := bits\<rparr>, (x, stack'), seen))"
  by (simp add: run_segment_def carrier_enter_def carrier_exit_def scope_ops_plain Let_def split: prod.splits)

section \<open>Single rules\<close>

lemma single_bit: "any_rule (w AND 2 ^ n) \<longleftrightarrow> bit w n"
  by (simp add: any_rule_def and_exp_eq_0_iff_not_bit)

lemma single_bits:
  "any_rule (w AND 1) \<longleftrightarrow> bit w 0" "any_rule (w AND 2) \<longleftrightarrow> bit w (Suc 0)" "any_rule (w AND 4) \<longleftrightarrow> bit w 2"
  "any_rule (w AND 8) \<longleftrightarrow> bit w 3" "any_rule (w AND 16) \<longleftrightarrow> bit w 4"
  using single_bit [of w 0] single_bit [of w 1] single_bit [of w 2] single_bit [of w 3] single_bit [of w 4] by simp_all

lemma compiled_mask: "rule_compiled_in b r = any_rule (bl_enabled b AND (r AND rules_available (bl_safety b)))"
  by (simp add: rule_compiled_in_def rules_effective_def ac_simps)

lemma relaxed_mask: "rule_relaxed t x r = any_rule (relaxed_bits t x AND (r AND advisory))"
  by (simp add: rule_relaxed_def ac_simps)

lemma rule_masks:
  "in_task_sync AND rules_available s = 2 ^ 0" "await_under_guard AND rules_available s = 2 ^ 1"
  "access_rank AND rules_available s = (if s then 2 ^ 2 else 0)" "circular_wait AND rules_available s = (if s then 2 ^ 3 else 0)"
  "deadlock_net AND rules_available s = 2 ^ 4"
  "in_task_sync AND advisory = 2 ^ 0" "await_under_guard AND advisory = 0" "access_rank AND advisory = 2 ^ 2"
  "circular_wait AND advisory = 2 ^ 3" "deadlock_net AND advisory = 0"
  by (simp_all add: rules_available_def advisory_def rule_bits)

lemma any_rule_0 [simp]: "\<not> any_rule 0"
  by (simp add: any_rule_def)

section \<open>Properties\<close>

text \<open>
  The table of rules is what the checks do. In every build and whatever is relaxed: in a task's
  \<^verbatim>\<open>sync()\<close> the check is enforced exactly when its bit is enabled and no scope or default relaxes it; rank
  and circular-wait checks need the safety build as well; the guard rule and the deadlock net are
  enforced exactly when their bits are enabled, and nothing can relax them.
\<close>

theorem rules_table_exact:
  "(rule_enforced b t x in_task_sync \<longleftrightarrow> bit (bl_enabled b) 0 \<and> \<not> bit (relaxed_bits t x) 0)
   \<and> (rule_enforced b t x await_under_guard \<longleftrightarrow> bit (bl_enabled b) 1)
   \<and> (rule_enforced b t x access_rank \<longleftrightarrow> bl_safety b \<and> bit (bl_enabled b) 2 \<and> \<not> bit (relaxed_bits t x) 2)
   \<and> (rule_enforced b t x circular_wait \<longleftrightarrow> bl_safety b \<and> bit (bl_enabled b) 3 \<and> \<not> bit (relaxed_bits t x) 3)
   \<and> (rule_enforced b t x deadlock_net \<longleftrightarrow> bit (bl_enabled b) 4)"
  by (cases "bl_safety b") (simp_all add: rule_enforced_def compiled_mask relaxed_mask rule_masks single_bits)

text \<open>
  Relaxation follows the coroutine, not the thread. However a coroutine's body is cut into segments and
  on whatever threads they are resumed, the bits in force after each of its scope operations are those
  of the uninterrupted run from its creator's relaxation, and no thread's own bits are changed.
\<close>

theorem relaxation_follows_coroutine:
  "run_segments segs c (x, stack) =
     (let ((bits, stack'), seen) = plain_ops (concat (map snd segs)) (rc_bits c, stack)
      in (fst (run_segments segs c (x, stack)), (x, stack'), seen))
   \<and> rc_bits (fst (run_segments segs c (x, stack))) = fst (fst (plain_ops (concat (map snd segs)) (rc_bits c, stack)))"
proof (induction segs arbitrary: c stack)
  case (Cons seg segs)
  obtain t ps where seg: "seg = (t, ps)" by fastforce
  obtain bits stack' seen where one: "plain_ops ps (rc_bits c, stack) = ((bits, stack'), seen)" by (metis surj_pair)
  let ?c = "c\<lparr>rc_prev := rx_tls x t, rc_bits := bits\<rparr>"
  obtain c2 s2 seen2 where rest: "run_segments segs ?c (x, stack') = (c2, s2, seen2)" by (metis prod_cases3)
  obtain bits3 stack3 seen3 where two: "plain_ops (concat (map snd segs)) (bits, stack') = ((bits3, stack3), seen3)" by (metis surj_pair)
  from Cons.IH [of ?c stack'] show ?case
    by (simp add: seg run_segment_plain one rest two plain_ops_append)
qed simp

end
