(* ===== verification/Frame_Gate.thy ===== *)
theory Frame_Gate
  imports Macrame_Prelude
begin

text \<open>
  The frame gate (include/ts/frame_gate.h): tasks await the current frame's signal, the frame loop exchanges
  it for a fresh one and launches a task that triggers the old one. Signals are numbered by the frame
  they belong to. \<open>external\<close> is the deadlock net's count of waits that a thread outside the pool ends.
\<close>

section \<open>State and operations\<close>

record frame_gate =
  fg_current :: nat
  fg_pending :: bool
  fg_priority :: priority

definition frame_gate_new :: frame_gate where
  "frame_gate_new = \<lparr>fg_current = 0, fg_pending = False, fg_priority = Low\<rparr>"

definition gate_next :: "nat \<Rightarrow> frame_gate \<Rightarrow> frame_gate \<times> nat \<times> nat" where
  "gate_next external g =
     (if fg_pending g then (g, external, fg_current g)
      else (g\<lparr>fg_pending := True\<rparr>, external + 1, fg_current g))"

text \<open>\<^verbatim>\<open>open\<close>: the signal its release task triggers, and that task's priority.\<close>

definition gate_open :: "nat \<Rightarrow> frame_gate \<Rightarrow> frame_gate \<times> nat \<times> nat \<times> priority" where
  "gate_open external g =
     (g\<lparr>fg_current := Suc (fg_current g), fg_pending := False\<rparr>,
      (if fg_pending g then external - 1 else external), fg_current g, fg_priority g)"

definition set_release_priority :: "priority \<Rightarrow> frame_gate \<Rightarrow> frame_gate" where
  "set_release_priority p g = g\<lparr>fg_priority := p\<rparr>"

section \<open>The gate in use\<close>

text \<open>
  Tasks take handles, the frame loop opens, the launched release tasks run in any order. Other waits of
  the program (\<open>base\<close>) keep their own registrations. \<open>gs_taken\<close> are the handles somebody took.
\<close>

record gate_state =
  gs_gate :: frame_gate
  gs_external :: nat
  gs_launched :: "nat set"
  gs_settled :: "nat set"
  gs_taken :: "nat set"

inductive gate_step :: "gate_state \<Rightarrow> gate_state \<Rightarrow> bool" where
  gt_next: "gate_next (gs_external s) (gs_gate s) = (g, e, h) \<Longrightarrow>
     gate_step s (s\<lparr>gs_gate := g, gs_external := e, gs_taken := insert h (gs_taken s)\<rparr>)"
| gt_open: "gate_open (gs_external s) (gs_gate s) = (g, e, h, p) \<Longrightarrow>
     gate_step s (s\<lparr>gs_gate := g, gs_external := e, gs_launched := insert h (gs_launched s)\<rparr>)"
| gt_release: "h \<in> gs_launched s \<Longrightarrow>
     gate_step s (s\<lparr>gs_launched := gs_launched s - {h}, gs_settled := insert h (gs_settled s)\<rparr>)"
| gt_priority: "gate_step s (s\<lparr>gs_gate := set_release_priority p (gs_gate s)\<rparr>)"

inductive gate_reach :: "nat \<Rightarrow> gate_state \<Rightarrow> bool" for base where
  gr_start: "gate_reach base \<lparr>gs_gate = frame_gate_new, gs_external = base, gs_launched = {}, gs_settled = {}, gs_taken = {}\<rparr>"
| gr_step: "gate_reach base s \<Longrightarrow> gate_step s s' \<Longrightarrow> gate_reach base s'"

definition gate_inv :: "nat \<Rightarrow> gate_state \<Rightarrow> bool" where
  "gate_inv base s \<longleftrightarrow>
     gs_launched s \<union> gs_settled s = {..<fg_current (gs_gate s)} \<and> gs_launched s \<inter> gs_settled s = {}
     \<and> gs_taken s \<subseteq> {..fg_current (gs_gate s)}
     \<and> (fg_pending (gs_gate s) \<longleftrightarrow> fg_current (gs_gate s) \<in> gs_taken s)
     \<and> gs_external s = base + (if fg_pending (gs_gate s) then 1 else 0)"

lemma gate_inv_step:
  assumes "gate_inv base s" and "gate_step s s'"
  shows "gate_inv base s'"
  using assms(2)
proof cases
  case (gt_next g e h)
  then show ?thesis using assms(1) by (auto simp: gate_inv_def gate_next_def split: if_splits)
next
  case (gt_open g e h p)
  have "Suc (fg_current (gs_gate s)) \<notin> gs_taken s" using assms(1) by (auto simp: gate_inv_def)
  then show ?thesis using assms(1) gt_open
    by (auto simp: gate_inv_def gate_open_def lessThan_Suc split: if_splits)
next
  case (gt_release h)
  then show ?thesis using assms(1) by (auto simp: gate_inv_def)
next
  case (gt_priority p)
  then show ?thesis using assms(1) by (simp add: gate_inv_def set_release_priority_def)
qed

lemma gate_inv_reach: "gate_reach base s \<Longrightarrow> gate_inv base s"
proof (induction rule: gate_reach.induct)
  case gr_start
  show ?case by (simp add: gate_inv_def frame_gate_new_def)
next
  case (gr_step s s')
  show ?case by (rule gate_inv_step [OF gr_step.IH gr_step.hyps(2)])
qed

section \<open>Properties\<close>

text \<open>
  No frame boundary is missed. A handle that was taken belongs to the current frame, and then is not
  settled, or the boundary that ended its frame has launched its release, which has run or is still
  to run; it settles exactly once. And the deadlock net counts one external wait exactly while somebody
  waits for the coming boundary.
\<close>

theorem frame_gate_no_missed_boundary:
  assumes "gate_reach base s" and "h \<in> gs_taken s"
  shows "(h = fg_current (gs_gate s) \<and> h \<notin> gs_settled s \<and> h \<notin> gs_launched s
        \<or> h < fg_current (gs_gate s) \<and> (h \<in> gs_launched s \<longleftrightarrow> h \<notin> gs_settled s))
    \<and> gs_external s = base + (if fg_current (gs_gate s) \<in> gs_taken s then 1 else 0)"
proof -
  have inv: "gate_inv base s" by (rule gate_inv_reach [OF assms(1)])
  then have "h \<le> fg_current (gs_gate s)" using assms(2) by (auto simp: gate_inv_def)
  moreover have "k \<in> gs_launched s \<or> k \<in> gs_settled s \<longleftrightarrow> k < fg_current (gs_gate s)" for k
    using inv unfolding gate_inv_def by blast
  moreover have "\<not> (k \<in> gs_launched s \<and> k \<in> gs_settled s)" for k using inv unfolding gate_inv_def by blast
  ultimately show ?thesis using inv unfolding gate_inv_def by (metis le_neq_implies_less less_irrefl)
qed

theorem frame_gate_no_missed_boundary_witness:
  "0 < fg_current (fst (gate_open 1 (fst (gate_next 0 frame_gate_new))))"
proof -
  let ?s0 = "\<lparr>gs_gate = frame_gate_new, gs_external = 0, gs_launched = {}, gs_settled = {}, gs_taken = {}\<rparr>"
  let ?s1 = "\<lparr>gs_gate = fst (gate_next 0 frame_gate_new), gs_external = 1, gs_launched = {}, gs_settled = {}, gs_taken = {0}\<rparr>"
  let ?s2 = "\<lparr>gs_gate = fst (gate_open 1 (fst (gate_next 0 frame_gate_new))), gs_external = 0, gs_launched = {0},
      gs_settled = {}, gs_taken = {0}\<rparr>"
  have "gate_step ?s0 ?s1"
    using gt_next [of ?s0 "fst (gate_next 0 frame_gate_new)" 1 0] by (simp add: gate_next_def frame_gate_new_def)
  then have s1: "gate_reach 0 ?s1" by (rule gr_step [OF gr_start])
  have "gate_step ?s1 ?s2"
    using gt_open [of ?s1 "fst (gate_open 1 (fst (gate_next 0 frame_gate_new)))" 0 0 Low]
    by (simp add: gate_open_def gate_next_def frame_gate_new_def)
  then have s2: "gate_reach 0 ?s2" by (rule gr_step [OF s1])
  have "0 \<in> gs_taken ?s2" by simp
  from frame_gate_no_missed_boundary [OF s2 this] show ?thesis by auto
qed

end
