(* ===== verification/Access_Op.thy ===== *)
theory Access_Op
  imports Pipe_Cascade Pipe_Order Access_Context
begin

text \<open>
  The attended access (include/ts/guarded.h, \<^verbatim>\<open>Access_op\<close>; \<^verbatim>\<open>pipe_try_inline\<close> of src/guarded.cpp): an operation over
  one to eight guarded objects that lives in its caller's frame. It sorts its objects once, may be fired
  any number of times, and each firing first probes all pipes at once, then borrows what the calling task
  already holds, and only then queues. This theory holds the operations; \<open>Access_Op_Run\<close> runs an op beside the
  other users of its pipes.
\<close>

section \<open>State\<close>

text \<open>\<^verbatim>\<open>Op_target\<close>, and the parallel arrays \<^verbatim>\<open>pipes\<close>, \<^verbatim>\<open>link_modes\<close> and \<^verbatim>\<open>decl_index\<close> as one array of slots.\<close>

record op_target =
  tg_pipe :: pipe_id
  tg_inst :: addr

record op_slot =
  sl_pipe :: pipe_id
  sl_mode :: access
  sl_decl :: nat

text \<open>
  \<open>op_modes\<close> are the declared modes (\<^verbatim>\<open>Traits::declared_modes\<close>, fixed by the op's type); \<open>op_settle_sync\<close> is
  \<^verbatim>\<open>State::settle_synchronously\<close> and \<open>op_settled_sync\<close> the op's \<^verbatim>\<open>settled_sync_\<close>.
\<close>

record access_op =
  op_block :: tcb
  op_modes :: "access list"
  op_slots :: "op_slot list"
  op_insts :: "addr list"
  op_epochs :: "pipe_id list"
  op_ranks :: "nat list"
  op_bound :: bool
  op_started :: bool
  op_consumed :: bool
  op_queued :: bool
  op_settle_sync :: bool
  op_settled_sync :: bool

section \<open>Operations\<close>

text \<open>\<^verbatim>\<open>State::State()\<close>: caller-owned, with the settle thunk on the \<^verbatim>\<open>on_complete\<close> seam.\<close>

definition op_new :: "access list \<Rightarrow> access_op" where
  "op_new modes = \<lparr>op_block = make_bare_block\<lparr>has_execute := True, has_on_complete := True,
       flags := default_flags\<lparr>fl_caller_owned := True\<rparr>\<rparr>,
     op_modes = modes, op_slots = replicate (length modes) \<lparr>sl_pipe = 0, sl_mode = Read_only, sl_decl = 0\<rparr>,
     op_insts = replicate (length modes) 0, op_epochs = replicate (length modes) 0,
     op_ranks = replicate (length modes) 0, op_bound = False, op_started = False, op_consumed = False,
     op_queued = False, op_settle_sync = False, op_settled_sync = False\<rparr>"

text \<open>
  The insertion sort of \<^verbatim>\<open>bind_targets\<close>: the scan for the position, the shift of the tail and the store;
  slots \<open>0..<n\<close> of the array are filled.
\<close>

function find_slot :: "op_slot list \<Rightarrow> nat \<Rightarrow> pipe_id \<Rightarrow> nat \<Rightarrow> nat" where
  "find_slot xs n p i = (if i < n \<and> sl_pipe (xs ! i) < p then find_slot xs n p (Suc i) else i)"
  by pat_completeness auto
termination by (relation "measure (\<lambda>(xs, n, p, i). n - i)") auto

declare find_slot.simps [simp del]

fun shift_slots :: "nat \<Rightarrow> nat \<Rightarrow> op_slot list \<Rightarrow> op_slot list" where
  "shift_slots i 0 xs = xs"
| "shift_slots i (Suc j) xs = (if Suc j > i then shift_slots i j (xs[Suc j := xs ! j]) else xs)"

definition insert_slot :: "op_slot \<Rightarrow> nat \<Rightarrow> op_slot list \<Rightarrow> op_slot list result" where
  "insert_slot x n xs =
     (let i = find_slot xs n (sl_pipe x) 0 in
      if i < n \<and> sl_pipe (xs ! i) = sl_pipe x then Inl Op_same_object_twice
      else Inr ((shift_slots i n xs)[i := x]))"

fun insert_slots :: "op_slot list \<Rightarrow> nat \<Rightarrow> op_slot list \<Rightarrow> op_slot list result" where
  "insert_slots [] n xs = Inr xs"
| "insert_slots (x # todo) n xs =
     (case insert_slot x n xs of Inl e \<Rightarrow> Inl e | Inr xs' \<Rightarrow> insert_slots todo (Suc n) xs')"

text \<open>The slots in declaration order, as the loop of \<^verbatim>\<open>bind_targets\<close> meets them.\<close>

definition declared_slots :: "op_target list \<Rightarrow> access list \<Rightarrow> op_slot list" where
  "declared_slots tgs modes =
     map (\<lambda>k. \<lparr>sl_pipe = tg_pipe (tgs ! k), sl_mode = modes ! k, sl_decl = k\<rparr>) [0..<length tgs]"

definition bind_targets :: "(pipe_id \<Rightarrow> nat) \<Rightarrow> op_target list \<Rightarrow> access_op \<Rightarrow> access_op result" where
  "bind_targets rank tgs op =
     (case insert_slots (declared_slots tgs (op_modes op)) 0 (op_slots op) of
        Inl e \<Rightarrow> Inl e
      | Inr xs \<Rightarrow> Inr (op\<lparr>op_slots := xs, op_insts := map tg_inst tgs, op_epochs := map tg_pipe tgs,
          op_ranks := map (rank \<circ> tg_pipe) tgs\<rparr>))"

text \<open>In flight: fired and not yet settled.\<close>

definition op_in_flight :: "access_op \<Rightarrow> bool" where
  "op_in_flight op \<longleftrightarrow> op_started op \<and> \<not> ready (op_block op)"

text \<open>\<^verbatim>\<open>bind\<close>, and the bound constructors (which bind a fresh op with the caller's options).\<close>

definition op_bind :: "(pipe_id \<Rightarrow> nat) \<Rightarrow> op_target list \<Rightarrow> access_op \<Rightarrow> access_op result" where
  "op_bind rank tgs op =
     (if op_in_flight op then Inl Op_in_flight
      else case bind_targets rank tgs op of Inl e \<Rightarrow> Inl e | Inr op' \<Rightarrow> Inr (op'\<lparr>op_bound := True\<rparr>))"

definition op_make ::
  "(pipe_id \<Rightarrow> nat) \<Rightarrow> op_target list \<Rightarrow> access list \<Rightarrow> priority \<Rightarrow> bool \<Rightarrow> access_op result" where
  "op_make rank tgs modes pri queued =
     (let op = op_new modes; blk = op_block op in
      bind_targets rank tgs
        (op\<lparr>op_block := blk\<lparr>flags := (flags blk)\<lparr>fl_priority := pri\<rparr>\<rparr>, op_bound := True, op_queued := queued\<rparr>))"

text \<open>
  \<^verbatim>\<open>bind_links\<close>: one link per slot the calling context does not already grant. \<open>ctx\<close> is \<^verbatim>\<open>None\<close> when nothing may
  be lent (or no context is installed).
\<close>

fun link_slots ::
  "epoch_store \<Rightarrow> access_context option \<Rightarrow> addr list \<Rightarrow> block_id \<Rightarrow> op_slot list \<Rightarrow> pipe_link list \<Rightarrow> pipe_link list result"
where
  "link_slots epochs ctx insts b [] links = Inr links"
| "link_slots epochs ctx insts b (x # xs) links =
     (let inst = insts ! sl_decl x;
          own = link_slots epochs ctx insts b xs
            (links @ [\<lparr>lk_owner = b, lk_pipe = sl_pipe x, lk_index = length links, lk_mode = sl_mode x\<rparr>])
      in case ctx of
           None \<Rightarrow> own
         | Some c \<Rightarrow>
             if ctx_grants epochs c inst (sl_mode x) then link_slots epochs ctx insts b xs links
             else if sl_mode x = Read_write \<and> ctx_grants epochs c inst Read_only then Inl Op_lend_read_to_writer
             else own)"

definition op_bind_links ::
  "epoch_store \<Rightarrow> access_context option \<Rightarrow> bool \<Rightarrow> block_id \<Rightarrow> access_op \<Rightarrow> access_op result" where
  "op_bind_links epochs ctx lend b op =
     (case link_slots epochs (if lend then ctx else None) (op_insts op) b (op_slots op) [] of
        Inl e \<Rightarrow> Inl e
      | Inr links \<Rightarrow> (let blk = op_block op in
          Inr (op\<lparr>op_block := blk\<lparr>pipe_links := links, flags := (flags blk)\<lparr>fl_all_lent := (links = [])\<rparr>\<rparr>\<rparr>)))"

text \<open>
  \<^verbatim>\<open>pipe_try_inline\<close> up to the call of the body: with every pipe of the block locked, admit on all of them
  or on none.
\<close>

definition inline_free :: "(pipe_id \<Rightarrow> pipe) \<Rightarrow> pipe_link \<Rightarrow> bool" where
  "inline_free pipes l \<longleftrightarrow> pp_queue (pipes (lk_pipe l)) = [] \<and> admissible (pipes (lk_pipe l)) (lk_mode l)"

definition admit_links :: "pipe_link list \<Rightarrow> (pipe_id \<Rightarrow> pipe) \<Rightarrow> pipe_id \<Rightarrow> pipe" where
  "admit_links = fold (\<lambda>l ps. ps(lk_pipe l := admit_locked (ps (lk_pipe l)) (Task_link l)))"

definition pipe_try_inline :: "tcb \<Rightarrow> (pipe_id \<Rightarrow> pipe) \<Rightarrow> (tcb \<times> (pipe_id \<Rightarrow> pipe)) option" where
  "pipe_try_inline blk pipes =
     (if list_all (inline_free pipes) (pipe_links blk)
      then Some (blk\<lparr>pipes_entered := pipe_count blk\<rparr>, admit_links (pipe_links blk) pipes)
      else None)"

text \<open>\<^verbatim>\<open>start\<close> up to \<^verbatim>\<open>fire\<close>: the state of a settled cycle is cleared.\<close>

definition op_start :: "access_op \<Rightarrow> access_op result" where
  "op_start op =
     (if \<not> op_bound op then Inl Op_unbound
      else if op_in_flight op then Inl Op_in_flight
      else Inr ((if op_started op
         then op\<lparr>op_block := (op_block op)\<lparr>completed := False, cancelled := False, ready := False,
                body_claimed := False, prereq_cancelled := False, num_locks := 0, pipes_entered := 0,
                result_ptr := None\<rparr>, op_consumed := False\<rparr>
         else op)\<lparr>op_started := True, op_settled_sync := False\<rparr>))"

text \<open>\<^verbatim>\<open>State::run\<close> before and after the body, \<^verbatim>\<open>run_body\<close>'s grant set, and \<^verbatim>\<open>op_settle\<close>.\<close>

datatype op_run_start = Op_cancel access_op | Op_body access_op

definition op_run :: "bool \<Rightarrow> access_op \<Rightarrow> op_run_start result" where
  "op_run token op =
     (case claim (op_block op) of
        Inl e \<Rightarrow> Inl e
      | Inr blk \<Rightarrow>
          if token \<or> prereq_cancelled blk then Inr (Op_cancel (op\<lparr>op_block := blk\<rparr>))
          else Inr (Op_body (op\<lparr>op_block := blk\<lparr>num_locks := execution_flag + 1\<rparr>\<rparr>)))"

fun grant_all :: "epoch_store \<Rightarrow> (addr \<times> access \<times> pipe_id \<times> nat) list \<Rightarrow> access_context \<Rightarrow> access_context result" where
  "grant_all epochs [] ctx = Inr ctx"
| "grant_all epochs ((a, m, p, r) # gs) ctx =
     (case ctx_add epochs ctx a m (Some p) r of Inl e \<Rightarrow> Inl e | Inr ctx' \<Rightarrow> grant_all epochs gs ctx')"

definition op_run_body :: "epoch_store \<Rightarrow> access_op \<Rightarrow> access_context result" where
  "op_run_body epochs op = grant_all epochs (zip (op_insts op) (zip (op_modes op) (zip (op_epochs op) (op_ranks op)))) []"

definition op_body_result :: "nat option \<Rightarrow> access_op \<Rightarrow> access_op" where
  "op_body_result r op = op\<lparr>op_block := (op_block op)\<lparr>result_ptr := r\<rparr>,
     op_settle_sync := (op_settle_sync op \<and> num_locks (op_block op) = execution_flag + 1)\<rparr>"

definition op_body_release :: "access_op \<Rightarrow> access_op \<times> bool" where
  "op_body_release op =
     (op\<lparr>op_block := (op_block op)\<lparr>num_locks := num_locks (op_block op) - 1\<rparr>\<rparr>,
      num_locks (op_block op) = execution_flag + 1)"

definition op_settle :: "bool \<Rightarrow> access_op \<Rightarrow> access_op \<times> (nat \<times> nat option \<times> bool) list" where
  "op_settle cancel op =
     (let blk = op_block op; blk' = blk\<lparr>completed := True, cancelled := cancel, ready := True\<rparr> in
      if op_settle_sync op then (op\<lparr>op_block := blk'\<rparr>, [])
      else (op\<lparr>op_block := blk'\<lparr>continuations := []\<rparr>\<rparr>,
            map (\<lambda>c. (c, if cancel then None else result_ptr blk, cancel)) (continuations blk)))"

text \<open>
  Waiting from inside a task is diagnosed; the sharper message names a pipe of the op that the waiter
  holds itself.
\<close>

definition blocking_sync_diagnose :: "access_context option \<Rightarrow> tcb \<Rightarrow> fatal" where
  "blocking_sync_diagnose ctx blk =
     (case ctx of
        None \<Rightarrow> In_task_sync
      | Some c \<Rightarrow> (case List.find (\<lambda>l. holds_epoch c (lk_pipe l)) (pipe_links blk) of
          None \<Rightarrow> In_task_sync | Some l \<Rightarrow> Sync_on_held_object (lk_pipe l)))"

text \<open>\<^verbatim>\<open>wait_settled\<close>: the checks before the wait; the callers below run once the op is \<open>ready\<close>.\<close>

definition op_wait_settled :: "access_context option \<Rightarrow> bool \<Rightarrow> access_op \<Rightarrow> unit result" where
  "op_wait_settled ctx in_task_enforced op =
     (if \<not> op_started op then Inl Op_never_started
      else if in_task_enforced then Inl (blocking_sync_diagnose ctx (op_block op))
      else Inr ())"

definition op_sync :: "access_op \<Rightarrow> nat result" where
  "op_sync op = (if cancelled (op_block op) then Inl Op_cancelled else Inr (the (result_ptr (op_block op))))"

definition op_take :: "access_op \<Rightarrow> (access_op \<times> nat) result" where
  "op_take op =
     (if cancelled (op_block op) then Inl Op_cancelled
      else if op_consumed op then Inl Op_consumed
      else Inr (op\<lparr>op_consumed := True\<rparr>, the (result_ptr (op_block op))))"

definition op_try_take :: "access_op \<Rightarrow> (access_op \<times> nat option) result" where
  "op_try_take op =
     (if \<not> op_started op then Inl Op_never_started
      else if \<not> ready (op_block op) \<or> cancelled (op_block op) \<or> op_consumed op then Inr (op, None)
      else Inr (op\<lparr>op_consumed := True\<rparr>, Some (the (result_ptr (op_block op)))))"

definition op_as_optional :: "access_op \<Rightarrow> unit result" where
  "op_as_optional op = (if \<not> op_started op then Inl Op_never_started else Inr ())"

text \<open>
  The destructor before it waits: nothing to do (\<open>None\<close>), or the wait, with the flag that an early destruction
  was reported.
\<close>

definition op_destroy :: "access_context option \<Rightarrow> bool \<Rightarrow> access_op \<Rightarrow> bool option result" where
  "op_destroy ctx in_task_enforced op =
     (if \<not> op_started op \<or> op_settled_sync op then Inr None
      else if ready (op_block op) then Inr (Some False)
      else if in_task_enforced then Inl (blocking_sync_diagnose ctx (op_block op))
      else Inr (Some True))"

section \<open>Binding sorts the objects\<close>

lemma find_slot_range: "i \<le> n \<Longrightarrow> i \<le> find_slot xs n p i \<and> find_slot xs n p i \<le> n"
proof (induction xs n p i rule: find_slot.induct)
  case (1 xs n p i)
  then show ?case by (subst (1 2) find_slot.simps) (fastforce intro: less_imp_le)
qed

lemma find_slot_below: "i \<le> j \<Longrightarrow> j < find_slot xs n p i \<Longrightarrow> sl_pipe (xs ! j) < p"
proof (induction xs n p i rule: find_slot.induct)
  case (1 xs n p i)
  show ?case
  proof (cases "i < n \<and> sl_pipe (xs ! i) < p")
    case True
    then have "find_slot xs n p i = find_slot xs n p (Suc i)" by (subst find_slot.simps) simp
    with 1 True show ?thesis by (cases "i = j") auto
  next
    case False
    then have "find_slot xs n p i = i" by (subst find_slot.simps) auto
    with 1 show ?thesis by simp
  qed
qed

lemma find_slot_stop: "find_slot xs n p i < n \<Longrightarrow> \<not> sl_pipe (xs ! find_slot xs n p i) < p"
proof (induction xs n p i rule: find_slot.induct)
  case (1 xs n p i)
  then show ?case by (auto simp: find_slot.simps [of xs n p i] split: if_splits)
qed

lemma shift_slots_spec:
  assumes "i \<le> n" and "n < length xs"
  shows "length (shift_slots i n xs) = length xs
    \<and> (\<forall>j < length xs. shift_slots i n xs ! j = (if i < j \<and> j \<le> n then xs ! (j - 1) else xs ! j))"
  using assms
proof (induction i n xs rule: shift_slots.induct)
  case (2 i j xs)
  show ?case
  proof (cases "i = Suc j")
    case False
    with 2 show ?thesis by (auto simp: nth_list_update le_Suc_eq)
  qed auto
qed auto

text \<open>The filled part of the array after one insertion.\<close>

lemma insert_slot_ok:
  assumes "insert_slot x n xs = Inr ys" and "n < length xs" and "sorted_wrt (<) (map sl_pipe (take n xs))"
  shows "length ys = length xs" and "mset (take (Suc n) ys) = add_mset x (mset (take n xs))"
    and "sorted_wrt (<) (map sl_pipe (take (Suc n) ys))"
proof -
  let ?i = "find_slot xs n (sl_pipe x) 0"
  have i: "?i \<le> n" using find_slot_range [of 0 n xs] by simp
  have ys: "ys = (shift_slots ?i n xs)[?i := x]" and ne: "?i < n \<Longrightarrow> sl_pipe (xs ! ?i) \<noteq> sl_pipe x"
    using assms(1) by (auto simp: insert_slot_def Let_def split: if_splits)
  note sh = shift_slots_spec [OF i assms(2)]
  then show len: "length ys = length xs" by (simp add: ys)
  have split: "take (Suc n) ys = take ?i xs @ x # drop ?i (take n xs)"
  proof (rule nth_equalityI)
    show "length (take (Suc n) ys) = length (take ?i xs @ x # drop ?i (take n xs))"
      using i assms(2) len by simp
    fix j assume "j < length (take (Suc n) ys)"
    then have "j \<le> n" using len assms(2) by simp
    then show "take (Suc n) ys ! j = (take ?i xs @ x # drop ?i (take n xs)) ! j"
      using i assms(2) sh by (cases j ?i rule: linorder_cases) (simp_all add: ys nth_append nth_Cons')
  qed
  have parts: "take n xs = take ?i xs @ drop ?i (take n xs)"
    using append_take_drop_id [of ?i "take n xs"] i by (simp add: min.absorb2)
  have "mset (take n xs) = mset (take ?i xs) + mset (drop ?i (take n xs))"
    using arg_cong [OF parts, of mset] by simp
  then show "mset (take (Suc n) ys) = add_mset x (mset (take n xs))" by (simp add: split)
  have below: "sl_pipe y < sl_pipe x" if "y \<in> set (take ?i xs)" for y
    using that find_slot_below [of 0 _ xs n "sl_pipe x"] by (auto simp: in_set_conv_nth)
  have above: "sl_pipe x < sl_pipe y" if "y \<in> set (drop ?i (take n xs))" for y
  proof -
    from that obtain j where "j < length (drop ?i (take n xs))" "y = drop ?i (take n xs) ! j"
      by (metis in_set_conv_nth)
    then have j: "?i + j < n" "y = xs ! (?i + j)" using assms(2) by auto
    have "sl_pipe x < sl_pipe (xs ! ?i)" using find_slot_stop [of xs n "sl_pipe x" 0] ne j(1) by fastforce
    moreover have "sl_pipe (xs ! ?i) \<le> sl_pipe (xs ! (?i + j))"
      using assms(3) j(1) assms(2) by (cases "j = 0") (auto simp: sorted_wrt_iff_nth_less intro!: less_imp_le)
    ultimately show ?thesis using j(2) by simp
  qed
  have srt: "sorted_wrt (<) (map sl_pipe (take ?i xs)) \<and> sorted_wrt (<) (map sl_pipe (drop ?i (take n xs)))"
    using assms(3) arg_cong [OF parts, of "map sl_pipe"] by (metis map_append sorted_wrt_append)
  show "sorted_wrt (<) (map sl_pipe (take (Suc n) ys))"
    unfolding split using srt below above by (auto simp: sorted_wrt_append intro: less_trans)
qed

lemma insert_slot_twice:
  assumes "n < length xs" and "sorted_wrt (<) (map sl_pipe (take n xs))"
  shows "insert_slot x n xs = Inl e \<longleftrightarrow> e = Op_same_object_twice \<and> sl_pipe x \<in> sl_pipe ` set (take n xs)"
proof -
  let ?i = "find_slot xs n (sl_pipe x) 0"
  have "?i < n \<and> sl_pipe (xs ! ?i) = sl_pipe x" if "sl_pipe x \<in> sl_pipe ` set (take n xs)"
  proof -
    from that obtain j where j: "j < n" "sl_pipe (xs ! j) = sl_pipe x" using assms(1) by (auto simp: in_set_conv_nth)
    have "?i \<le> j" using find_slot_below [of 0 j xs n "sl_pipe x"] j(2) by (metis less_irrefl not_le zero_le)
    moreover have "sl_pipe (xs ! ?i) \<le> sl_pipe (xs ! j)"
      using \<open>?i \<le> j\<close> assms j(1) by (cases "?i = j") (auto simp: sorted_wrt_iff_nth_less intro!: less_imp_le)
    ultimately show ?thesis using find_slot_stop [of xs n "sl_pipe x" 0] j by fastforce
  qed
  moreover have "sl_pipe x \<in> sl_pipe ` set (take n xs)" if "?i < n" "sl_pipe (xs ! ?i) = sl_pipe x"
    using that assms(1) by (metis image_eqI in_set_conv_nth length_take min.absorb4 nth_take)
  ultimately show ?thesis by (auto simp: insert_slot_def Let_def)
qed

lemma insert_slots_spec:
  assumes "n + length todo \<le> length xs" and "sorted_wrt (<) (map sl_pipe (take n xs))"
  shows "case insert_slots todo n xs of
      Inl e \<Rightarrow> e = Op_same_object_twice \<and> \<not> distinct (map sl_pipe (take n xs @ todo))
    | Inr ys \<Rightarrow> length ys = length xs \<and> mset (take (n + length todo) ys) = mset (take n xs @ todo)
        \<and> sorted_wrt (<) (map sl_pipe (take (n + length todo) ys))"
  using assms
proof (induction todo n xs rule: insert_slots.induct)
  case (2 x todo n xs)
  have n: "n < length xs" using "2.prems"(1) by simp
  show ?case
  proof (cases "insert_slot x n xs")
    case (Inl e)
    then have "e = Op_same_object_twice" "sl_pipe x \<in> sl_pipe ` set (take n xs)"
      using insert_slot_twice [OF n "2.prems"(2), of x e] by simp_all
    with Inl show ?thesis by auto
  next
    case (Inr ys)
    note ok = insert_slot_ok [OF Inr n "2.prems"(2)]
    have "distinct (map sl_pipe (take (Suc n) ys @ todo)) = distinct (map sl_pipe (take n xs @ x # todo))"
    proof -
      have "mset (map sl_pipe (take (Suc n) ys @ todo)) = mset (map sl_pipe (take n xs @ x # todo))"
        using ok(2) by simp
      then show ?thesis by (metis mset_eq_imp_distinct_iff)
    qed
    then show ?thesis using "2.IH" [OF Inr] "2.prems"(1) ok Inr by (auto split: sum.splits)
  qed
qed auto

section \<open>Links of a bound op\<close>

text \<open>
  What the static types and \<^verbatim>\<open>bind_targets\<close> guarantee: at most eight objects, and once bound one slot per
  object, in ascending pipe order.
\<close>

definition op_wf :: "access_op \<Rightarrow> bool" where
  "op_wf op \<longleftrightarrow> length (op_modes op) \<le> max_entries \<and> length (op_slots op) = length (op_modes op)
     \<and> (op_bound op \<longrightarrow> length (op_insts op) = length (op_modes op) \<and> length (op_epochs op) = length (op_modes op)
          \<and> length (op_ranks op) = length (op_modes op)
          \<and> sorted_wrt (<) (map sl_pipe (op_slots op))
          \<and> mset (op_slots op) = mset (map (\<lambda>k. \<lparr>sl_pipe = op_epochs op ! k, sl_mode = op_modes op ! k, sl_decl = k\<rparr>)
              [0..<length (op_modes op)]))"

lemma op_wf_slots:
  assumes "op_wf op" and "op_bound op"
  shows "set (op_slots op) = (\<lambda>k. \<lparr>sl_pipe = op_epochs op ! k, sl_mode = op_modes op ! k, sl_decl = k\<rparr>)
    ` {0..<length (op_modes op)}"
proof -
  from assms have "mset (op_slots op) = mset (map (\<lambda>k. \<lparr>sl_pipe = op_epochs op ! k, sl_mode = op_modes op ! k,
      sl_decl = k\<rparr>) [0..<length (op_modes op)])" by (simp add: op_wf_def del: mset_map)
  from mset_eq_setD [OF this] show ?thesis by simp
qed

lemma op_wf_new: "length modes \<le> max_entries \<Longrightarrow> op_wf (op_new modes)"
  by (simp add: op_wf_def op_new_def)

lemma bind_targets_cases:
  assumes "op_wf op" and "length tgs = length (op_modes op)"
  shows "case bind_targets rank tgs op of
      Inl e \<Rightarrow> e = Op_same_object_twice \<and> \<not> distinct (map tg_pipe tgs)
    | Inr op' \<Rightarrow> distinct (map tg_pipe tgs) \<and> op_wf (op'\<lparr>op_bound := True\<rparr>) \<and> op_epochs op' = map tg_pipe tgs
        \<and> op_insts op' = map tg_inst tgs \<and> op_modes op' = op_modes op \<and> op_block op' = op_block op"
proof -
  let ?d = "declared_slots tgs (op_modes op)"
  have len: "length ?d = length (op_slots op)" using assms by (simp add: declared_slots_def op_wf_def)
  have pipes: "map sl_pipe ?d = map tg_pipe tgs"
    by (rule nth_equalityI) (simp_all add: declared_slots_def)
  note spec = insert_slots_spec [of 0 ?d "op_slots op", simplified, unfolded len, OF order_refl]
  show ?thesis
  proof (cases "insert_slots ?d 0 (op_slots op)")
    case (Inl e)
    with spec show ?thesis by (simp add: bind_targets_def pipes)
  next
    case (Inr ys)
    with spec have ylen: "length ys = length (op_slots op)" by simp
    then have "take (length (op_slots op)) ys = ys" by simp
    with spec Inr ylen have ys: "length ys = length (op_slots op)" "mset ys = mset ?d" "sorted_wrt (<) (map sl_pipe ys)"
      by simp_all
    have "?d = map (\<lambda>k. \<lparr>sl_pipe = map tg_pipe tgs ! k, sl_mode = op_modes op ! k, sl_decl = k\<rparr>) [0..<length tgs]"
      by (rule nth_equalityI) (simp_all add: declared_slots_def)
    moreover have "distinct (map tg_pipe tgs)"
    proof -
      have "distinct (map sl_pipe ys)" using ys(3) by (simp add: strict_sorted_iff)
      moreover have "mset (map sl_pipe ys) = mset (map tg_pipe tgs)" using ys(2) pipes by (metis mset_map)
      ultimately show ?thesis by (metis mset_eq_imp_distinct_iff)
    qed
    ultimately show ?thesis using Inr ys assms by (simp add: bind_targets_def op_wf_def)
  qed
qed

text \<open>The links of the slots that are not lent, numbered from \<open>k\<close>.\<close>

definition slot_lent :: "epoch_store \<Rightarrow> access_context option \<Rightarrow> addr list \<Rightarrow> op_slot \<Rightarrow> bool" where
  "slot_lent epochs ctx insts x \<longleftrightarrow> (\<exists>c. ctx = Some c \<and> ctx_grants epochs c (insts ! sl_decl x) (sl_mode x))"

definition lend_refused :: "epoch_store \<Rightarrow> access_context option \<Rightarrow> addr list \<Rightarrow> op_slot \<Rightarrow> bool" where
  "lend_refused epochs ctx insts x \<longleftrightarrow> \<not> slot_lent epochs ctx insts x \<and> sl_mode x = Read_write
     \<and> (\<exists>c. ctx = Some c \<and> ctx_grants epochs c (insts ! sl_decl x) Read_only)"

definition slot_link :: "block_id \<Rightarrow> nat \<times> op_slot \<Rightarrow> pipe_link" where
  "slot_link b = (\<lambda>(i, x). \<lparr>lk_owner = b, lk_pipe = sl_pipe x, lk_index = i, lk_mode = sl_mode x\<rparr>)"

lemma link_slots_Cons:
  "link_slots epochs ctx insts b (x # xs) links =
     (if lend_refused epochs ctx insts x then Inl Op_lend_read_to_writer
      else link_slots epochs ctx insts b xs (links @ (if slot_lent epochs ctx insts x then [] else [slot_link b (length links, x)])))"
proof (cases ctx)
  case (Some c)
  then show ?thesis
    by (cases "ctx_grants epochs c (insts ! sl_decl x) (sl_mode x)")
      (simp_all add: Let_def slot_lent_def lend_refused_def slot_link_def)
qed (simp add: Let_def slot_lent_def lend_refused_def slot_link_def)

lemma link_slots_spec:
  "link_slots epochs ctx insts b xs links =
     (if \<exists>x \<in> set xs. lend_refused epochs ctx insts x then Inl Op_lend_read_to_writer
      else Inr (links @ map (slot_link b) (enumerate (length links) (filter (\<lambda>x. \<not> slot_lent epochs ctx insts x) xs))))"
proof (induction xs arbitrary: links)
  case (Cons x xs)
  show ?case unfolding link_slots_Cons Cons.IH by simp
qed simp

lemma slot_links_modes:
  "(\<lambda>l. (lk_pipe l, lk_mode l)) ` set (map (slot_link b) (enumerate 0 ys)) = (\<lambda>x. (sl_pipe x, sl_mode x)) ` set ys"
proof -
  have "map (\<lambda>l. (lk_pipe l, lk_mode l)) (map (slot_link b) (enumerate 0 ys)) = map (\<lambda>x. (sl_pipe x, sl_mode x)) ys"
    by (rule nth_equalityI) (simp_all add: nth_enumerate_eq slot_link_def)
  then show ?thesis by (metis image_set)
qed

lemma slot_links_canonical:
  assumes "sorted_wrt (<) (map sl_pipe xs)" and "length xs < 2 ^ 8"
  shows "canonical_links b (map (slot_link b) (enumerate 0 (filter P xs)))"
proof -
  have "map (lk_pipe \<circ> slot_link b) (enumerate 0 ys) = map sl_pipe ys" for ys
    by (rule nth_equalityI) (simp_all add: nth_enumerate_eq slot_link_def)
  moreover have "sorted_wrt (<) (map sl_pipe (filter P xs))" using assms(1) by (simp add: sorted_wrt_map sorted_wrt_filter)
  moreover have "length (filter P xs) < 2 ^ 8" using assms(2) by (meson le_less_trans length_filter_le)
  ultimately show ?thesis
    by (simp add: canonical_links_def nth_enumerate_eq) (simp add: slot_link_def)
qed

text \<open>
  Binding an access is exact. \<^verbatim>\<open>bind_targets\<close> refuses exactly the sets of objects in which one is passed
  twice; otherwise, when nothing is lent, \<^verbatim>\<open>bind_links\<close> gives the links the cascade requires: own, numbered from
  0, in ascending pipe order whatever the order of declaration, and exactly the declared pipes with their modes.
\<close>

theorem access_op_bind_exact:
  assumes "op_wf op" and "length tgs = length (op_modes op)"
  shows "(bind_targets rank tgs op = Inl e \<longleftrightarrow> e = Op_same_object_twice \<and> \<not> distinct (map tg_pipe tgs))
    \<and> (distinct (map tg_pipe tgs) \<longrightarrow> (\<exists>op' op''. bind_targets rank tgs op = Inr op'
         \<and> op_bind_links epochs ctx False b op' = Inr op''
         \<and> canonical_links b (pipe_links (op_block op''))
         \<and> (\<lambda>l. (lk_pipe l, lk_mode l)) ` set (pipe_links (op_block op'')) = set (zip (map tg_pipe tgs) (op_modes op))))"
proof -
  note cases = bind_targets_cases [OF assms, of rank]
  have "bind_targets rank tgs op = Inl e \<longleftrightarrow> e = Op_same_object_twice \<and> \<not> distinct (map tg_pipe tgs)"
    using cases by (cases "bind_targets rank tgs op") auto
  moreover have "\<exists>op' op''. bind_targets rank tgs op = Inr op' \<and> op_bind_links epochs ctx False b op' = Inr op''
      \<and> canonical_links b (pipe_links (op_block op''))
      \<and> (\<lambda>l. (lk_pipe l, lk_mode l)) ` set (pipe_links (op_block op'')) = set (zip (map tg_pipe tgs) (op_modes op))"
    if dist: "distinct (map tg_pipe tgs)"
  proof -
    from cases dist obtain op' where op': "bind_targets rank tgs op = Inr op'" and wf: "op_wf (op'\<lparr>op_bound := True\<rparr>)"
      and eq: "op_epochs op' = map tg_pipe tgs" "op_modes op' = op_modes op"
      by (cases "bind_targets rank tgs op") auto
    have none: "slot_lent epochs None insts x = False" "lend_refused epochs None insts x = False" for insts x
      by (simp_all add: slot_lent_def lend_refused_def)
    let ?ls = "map (slot_link b) (enumerate 0 (op_slots op'))"
    have bl: "\<exists>op''. op_bind_links epochs ctx False b op' = Inr op'' \<and> pipe_links (op_block op'') = ?ls"
      by (simp add: op_bind_links_def link_slots_spec none Let_def)
    have "(\<lambda>l. (lk_pipe l, lk_mode l)) ` set ?ls = (\<lambda>x. (sl_pipe x, sl_mode x)) ` set (op_slots op')"
      by (rule slot_links_modes)
    also have "\<dots> = (\<lambda>k. (map tg_pipe tgs ! k, op_modes op ! k)) ` {0..<length tgs}"
    proof -
      have "set (op_slots op') = (\<lambda>k. \<lparr>sl_pipe = map tg_pipe tgs ! k, sl_mode = op_modes op ! k, sl_decl = k\<rparr>) ` {0..<length tgs}"
        using op_wf_slots [OF wf] eq assms(2) by simp
      then show ?thesis by (simp add: image_image)
    qed
    also have "\<dots> = set (zip (map tg_pipe tgs) (op_modes op))"
      using assms(2) by (force simp: set_zip image_iff)
    finally have "(\<lambda>l. (lk_pipe l, lk_mode l)) ` set ?ls = set (zip (map tg_pipe tgs) (op_modes op))" .
    moreover have "canonical_links b ?ls"
      using slot_links_canonical [of "op_slots op'" b "\<lambda>_. True"] wf by (simp add: op_wf_def max_entries_def)
    ultimately show ?thesis using op' bl by metis
  qed
  ultimately show ?thesis by blast
qed

section \<open>Lending\<close>

text \<open>
  (C26) Lending is exact. With the calling task's grants \<open>c\<close>, \<^verbatim>\<open>bind_links(true)\<close> faults exactly when some object is to be
  written that the caller only reads; otherwise an object of the op keeps a link of its own exactly when the
  caller does not hold it strongly enough, the links that remain are canonical, and the block is marked all-lent
  exactly when none remains.
\<close>

theorem access_op_lending_exact:
  fixes epochs :: epoch_store and c :: access_context
  assumes "op_wf op" and "op_bound op"
  defines "lent \<equiv> \<lambda>k. ctx_grants epochs c (op_insts op ! k) (op_modes op ! k)"
    and "n \<equiv> length (op_modes op)"
  shows "(op_bind_links epochs (Some c) True b op = Inl Op_lend_read_to_writer \<longleftrightarrow>
         (\<exists>k < n. op_modes op ! k = Read_write \<and> \<not> lent k \<and> ctx_grants epochs c (op_insts op ! k) Read_only))
    \<and> (\<forall>op'. op_bind_links epochs (Some c) True b op = Inr op' \<longrightarrow>
         canonical_links b (pipe_links (op_block op'))
         \<and> (\<lambda>l. (lk_pipe l, lk_mode l)) ` set (pipe_links (op_block op')) =
             (\<lambda>k. (op_epochs op ! k, op_modes op ! k)) ` {k. k < n \<and> \<not> lent k}
         \<and> (fl_all_lent (flags (op_block op')) \<longleftrightarrow> (\<forall>k < n. lent k)))"
proof -
  let ?x = "\<lambda>k. \<lparr>sl_pipe = op_epochs op ! k, sl_mode = op_modes op ! k, sl_decl = k\<rparr>"
  have slots: "set (op_slots op) = ?x ` {0..<n}"
    using op_wf_slots [OF assms(1,2)] by (simp add: n_def)
  have srt: "sorted_wrt (<) (map sl_pipe (op_slots op))" "length (op_slots op) < 2 ^ 8"
    using assms(1,2) by (auto simp: op_wf_def max_entries_def)
  have lent: "slot_lent epochs (Some c) (op_insts op) (?x k) = lent k" for k by (simp add: slot_lent_def lent_def)
  let ?own = "filter (\<lambda>x. \<not> slot_lent epochs (Some c) (op_insts op) x) (op_slots op)"
  let ?ls = "map (slot_link b) (enumerate 0 ?own)"
  have own: "set ?own = ?x ` {k. k < n \<and> \<not> lent k}" using slots lent by auto
  have "(\<lambda>l. (lk_pipe l, lk_mode l)) ` set ?ls = (\<lambda>x. (sl_pipe x, sl_mode x)) ` set ?own"
      by (rule slot_links_modes)
  then have img: "(\<lambda>l. (lk_pipe l, lk_mode l)) ` set ?ls = (\<lambda>k. (op_epochs op ! k, op_modes op ! k)) ` {k. k < n \<and> \<not> lent k}"
    unfolding own by (simp add: image_image)
  have "?own = [] \<longleftrightarrow> set ?own = {}" by (simp only: set_empty)
  also have "\<dots> \<longleftrightarrow> (\<forall>k < n. lent k)" unfolding own by auto
  finally have empty: "?own = [] \<longleftrightarrow> (\<forall>k < n. lent k)" .
  have refused: "(\<exists>x \<in> set (op_slots op). lend_refused epochs (Some c) (op_insts op) x) \<longleftrightarrow>
      (\<exists>k < n. op_modes op ! k = Read_write \<and> \<not> lent k \<and> ctx_grants epochs c (op_insts op ! k) Read_only)"
    unfolding slots by (auto simp: lend_refused_def lent)
  have bind: "op_bind_links epochs (Some c) True b op =
      (if \<exists>x \<in> set (op_slots op). lend_refused epochs (Some c) (op_insts op) x then Inl Op_lend_read_to_writer
       else Inr (op\<lparr>op_block := (op_block op)\<lparr>pipe_links := ?ls,
         flags := (flags (op_block op))\<lparr>fl_all_lent := (?own = [])\<rparr>\<rparr>\<rparr>))"
    by (simp add: op_bind_links_def link_slots_spec Let_def enumerate_eq_zip)
  have can: "canonical_links b ?ls" by (rule slot_links_canonical [OF srt])
  show ?thesis unfolding bind refused [symmetric]
    by (cases "\<exists>x \<in> set (op_slots op). lend_refused epochs (Some c) (op_insts op) x")
      (simp_all add: img can empty del: set_map)
qed

section \<open>The inline probe\<close>

text \<open>Entering the pipes of a list of links one after the other, with the list of immediate grants.\<close>

definition enter_links :: "pipe_link list \<Rightarrow> (pipe_id \<Rightarrow> pipe) \<Rightarrow> pipe_id \<Rightarrow> pipe" where
  "enter_links = fold (\<lambda>l ps. ps(lk_pipe l := fst (pipe_enter (ps (lk_pipe l)) (Task_link l))))"

lemma enter_links_free:
  assumes "distinct (map lk_pipe ls)" and "\<forall>l \<in> set ls. inline_free pipes l"
  shows "enter_links ls pipes = admit_links ls pipes"
  using assms
proof (induction ls arbitrary: pipes)
  case (Cons l ls)
  let ?ps = "pipes(lk_pipe l := admit_locked (pipes (lk_pipe l)) (Task_link l))"
  have "inline_free ?ps k = inline_free pipes k" if "k \<in> set ls" for k
  proof -
    have "lk_pipe k \<noteq> lk_pipe l" using Cons.prems(1) that by (metis distinct.simps(2) imageI list.simps(9) set_map)
    then show ?thesis by (simp add: inline_free_def)
  qed
  then have "enter_links ls ?ps = admit_links ls ?ps" using Cons by simp
  moreover have "pipe_enter (pipes (lk_pipe l)) (Task_link l) = (admit_locked (pipes (lk_pipe l)) (Task_link l), True)"
    using Cons.prems(2) by (simp add: inline_free_def pipe_enter_def)
  ultimately show ?case by (simp add: enter_links_def admit_links_def)
qed (simp add: enter_links_def admit_links_def)

text \<open>
  (C25) The inline probe is the cascade in one go. For canonical links, the probe succeeds exactly when every pipe
  would grant its link at once, and then the pipes are what entering them one after the other in canonical order makes
  of them; otherwise nothing is changed (there is no new state). So running inline never overtakes a queued entry
  and gives no grant the queue would not have given.
\<close>

theorem try_inline_is_cascade:
  assumes "canonical_links b (pipe_links blk)"
  shows "pipe_try_inline blk pipes =
    (if \<forall>l \<in> set (pipe_links blk). snd (pipe_enter (pipes (lk_pipe l)) (Task_link l))
     then Some (blk\<lparr>pipes_entered := pipe_count blk\<rparr>, enter_links (pipe_links blk) pipes) else None)"
proof -
  have dist: "distinct (map lk_pipe (pipe_links blk))" using assms by (simp add: canonical_links_def strict_sorted_iff)
  have "inline_free pipes l \<longleftrightarrow> snd (pipe_enter (pipes (lk_pipe l)) (Task_link l))" for l
    by (simp add: inline_free_def pipe_enter_def)
  then show ?thesis using enter_links_free [OF dist, of pipes] by (auto simp: pipe_try_inline_def list_all_iff)
qed

section \<open>A concrete op\<close>

text \<open>Object 90 behind pipe 9 is written, object 40 behind pipe 4 is read; the caller already reads object 40.\<close>

definition op_demo_targets :: "op_target list" where
  "op_demo_targets = [\<lparr>tg_pipe = 9, tg_inst = 90\<rparr>, \<lparr>tg_pipe = 4, tg_inst = 40\<rparr>]"

definition op_demo :: access_op where
  "op_demo = projr (op_make (\<lambda>_. 1) op_demo_targets [Read_write, Read_only] Normal False)"

definition op_demo_grants :: access_context where
  "op_demo_grants = [\<lparr>ent_instance = 40, ent_mode = Read_only, ent_epoch = Some 4, ent_captured = 0, ent_rank = 1\<rparr>]"

lemma op_demo_make: "op_make (\<lambda>_. 1) op_demo_targets [Read_write, Read_only] Normal False = Inr op_demo"
  by code_simp

lemma op_demo_state:
  "op_bound op_demo" "op_modes op_demo = [Read_write, Read_only]" "op_insts op_demo = [90, 40]" "op_epochs op_demo = [9, 4]"
  by code_simp+

lemma op_demo_wf: "op_wf op_demo"
proof -
  let ?op = "op_new [Read_write, Read_only]"
  let ?blk = "op_block ?op"
  let ?o = "?op\<lparr>op_block := ?blk\<lparr>flags := (flags ?blk)\<lparr>fl_priority := Normal\<rparr>\<rparr>, op_bound := True, op_queued := False\<rparr>"
  have "op_wf (?o\<lparr>op_bound := False\<rparr>)" by (simp add: op_wf_def op_new_def max_entries_def)
  then have "case bind_targets (\<lambda>_. 1) op_demo_targets (?o\<lparr>op_bound := False\<rparr>) of Inl e \<Rightarrow> True | Inr op' \<Rightarrow> op_wf (op'\<lparr>op_bound := True\<rparr>)"
    using bind_targets_cases [of "?o\<lparr>op_bound := False\<rparr>" op_demo_targets "\<lambda>_. 1"]
    by (auto simp: op_demo_targets_def op_new_def split: sum.splits)
  moreover have "bind_targets (\<lambda>_. 1) op_demo_targets (?o\<lparr>op_bound := False\<rparr>) = Inr (op_demo\<lparr>op_bound := False\<rparr>)" by code_simp
  moreover have "op_demo\<lparr>op_bound := True\<rparr> = op_demo" by code_simp
  ultimately show ?thesis by simp
qed

theorem access_op_bind_exact_witness:
  "\<exists>op' op''. bind_targets (\<lambda>_. 1) op_demo_targets (op_new [Read_write, Read_only]) = Inr op'
     \<and> op_bind_links (\<lambda>_. 0) None False 5 op' = Inr op'' \<and> canonical_links 5 (pipe_links (op_block op''))
     \<and> (\<lambda>l. (lk_pipe l, lk_mode l)) ` set (pipe_links (op_block op'')) = {(9, Read_write), (4, Read_only)}"
proof -
  have "op_modes (op_new [Read_write, Read_only]) = [Read_write, Read_only]" by (simp add: op_new_def)
  then show ?thesis
    using access_op_bind_exact [of "op_new [Read_write, Read_only]" op_demo_targets "\<lambda>_. 1" Op_unbound "\<lambda>_. 0" None 5]
    by (simp add: op_wf_new max_entries_def op_demo_targets_def)
qed

theorem access_op_lending_exact_witness:
  "(\<lambda>l. (lk_pipe l, lk_mode l)) ` set (pipe_links (op_block (projr (op_bind_links (\<lambda>_. 0) (Some op_demo_grants) True 5 op_demo)))) =
     {(9, Read_write)}"
proof -
  have "\<not> isl (op_bind_links (\<lambda>_. 0) (Some op_demo_grants) True 5 op_demo)" by code_simp
  then obtain op' where ok: "op_bind_links (\<lambda>_. 0) (Some op_demo_grants) True 5 op_demo = Inr op'"
    by (cases "op_bind_links (\<lambda>_. 0) (Some op_demo_grants) True 5 op_demo") auto
  let ?lent = "\<lambda>k. ctx_grants (\<lambda>_. 0) op_demo_grants (op_insts op_demo ! k) (op_modes op_demo ! k)"
  have "{k. k < length (op_modes op_demo) \<and> \<not> ?lent k} = {0}"
  proof -
    have "\<not> ?lent 0" "?lent 1" by code_simp+
    then show ?thesis by (auto simp: op_demo_state less_Suc_eq)
  qed
  then show ?thesis
    using access_op_lending_exact [OF op_demo_wf op_demo_state(1), of "\<lambda>_. 0" op_demo_grants 5]
    by (simp add: ok op_demo_state)
qed

theorem try_inline_is_cascade_witness:
  "pipe_try_inline (make_piped [\<lparr>lk_owner = 5, lk_pipe = 4, lk_index = 0, lk_mode = Read_only\<rparr>]) (\<lambda>_. pipe_init 0) =
     Some ((make_piped [\<lparr>lk_owner = 5, lk_pipe = 4, lk_index = 0, lk_mode = Read_only\<rparr>])\<lparr>pipes_entered := 1\<rparr>,
       (\<lambda>_. pipe_init 0)(4 := (pipe_init 0)\<lparr>active_readers := 1\<rparr>))"
proof -
  let ?l = "\<lparr>lk_owner = 5, lk_pipe = 4, lk_index = 0, lk_mode = Read_only\<rparr>"
  have "canonical_links 5 (pipe_links (make_piped [?l]))" by (simp add: canonical_links_def make_piped_def)
  from try_inline_is_cascade [OF this, of "\<lambda>_. pipe_init 0"] show ?thesis
    by (simp add: make_piped_def enter_links_def pipe_enter_def admissible_def admit_locked_def pipe_init_def)
qed

section \<open>Multi-object async\<close>

text \<open>
  \<^verbatim>\<open>async_build_modes\<close>: the block of a detached access over several objects. Its insertion sort works in place: element \<open>k\<close> is
  read before the shift overwrites it. \<open>sort_slots m k\<close> runs the remaining \<open>m\<close> rounds.
\<close>

fun sort_slots :: "nat \<Rightarrow> nat \<Rightarrow> op_slot list \<Rightarrow> op_slot list result" where
  "sort_slots 0 k xs = Inr xs"
| "sort_slots (Suc m) k xs = (case insert_slot (xs ! k) k xs of Inl e \<Rightarrow> Inl e | Inr ys \<Rightarrow> sort_slots m (Suc k) ys)"

definition async_build :: "block_id \<Rightarrow> priority \<Rightarrow> op_target list \<Rightarrow> access list \<Rightarrow> tcb result" where
  "async_build b pri tgs modes =
     (case sort_slots (length tgs) 0 (declared_slots tgs modes) of
        Inl e \<Rightarrow> Inl e
      | Inr xs \<Rightarrow> (let blk = make_piped (map (slot_link b) (enumerate 0 xs)) in
          Inr (blk\<lparr>flags := (flags blk)\<lparr>fl_priority := pri\<rparr>\<rparr>)))"

lemma insert_slot_tail:
  assumes "insert_slot x n xs = Inr ys" and "n < length xs"
  shows "drop (Suc n) ys = drop (Suc n) xs"
proof -
  let ?i = "find_slot xs n (sl_pipe x) 0"
  have i: "?i \<le> n" using find_slot_range [of 0 n xs] by simp
  have "ys = (shift_slots ?i n xs)[?i := x]" using assms(1) by (auto simp: insert_slot_def Let_def split: if_splits)
  then show ?thesis using shift_slots_spec [OF i assms(2)] i by (intro nth_equalityI) auto
qed

lemma sort_slots_spec:
  assumes "k + m = length xs" and "sorted_wrt (<) (map sl_pipe (take k xs))"
  shows "case sort_slots m k xs of
      Inl e \<Rightarrow> e = Op_same_object_twice \<and> \<not> distinct (map sl_pipe xs)
    | Inr ys \<Rightarrow> mset ys = mset xs \<and> sorted_wrt (<) (map sl_pipe ys)"
  using assms
proof (induction m k xs rule: sort_slots.induct)
  case (2 m k xs)
  have k: "k < length xs" using "2.prems"(1) by simp
  have xs: "xs = take k xs @ xs ! k # drop (Suc k) xs" by (rule id_take_nth_drop [OF k])
  show ?case
  proof (cases "insert_slot (xs ! k) k xs")
    case (Inl e)
    then have e: "e = Op_same_object_twice" and dup: "sl_pipe (xs ! k) \<in> sl_pipe ` set (take k xs)"
      using insert_slot_twice [OF k "2.prems"(2), of "xs ! k" e] by simp_all
    have "\<not> distinct (map sl_pipe (take k xs @ xs ! k # drop (Suc k) xs))" using dup by auto
    then have "\<not> distinct (map sl_pipe xs)" using xs by metis
    with Inl e show ?thesis by simp
  next
    case (Inr ys)
    note ok = insert_slot_ok [OF Inr k "2.prems"(2)] and tail = insert_slot_tail [OF Inr k]
    have "mset ys = mset (take (Suc k) ys) + mset (drop (Suc k) ys)" by (metis append_take_drop_id mset_append)
    also have "\<dots> = mset (take k xs @ xs ! k # drop (Suc k) xs)" using ok(2) tail by simp
    finally have mset: "mset ys = mset xs" using xs by simp
    then have "distinct (map sl_pipe ys) = distinct (map sl_pipe xs)" by (metis mset_eq_imp_distinct_iff mset_map)
    moreover have "Suc k + m = length ys" using ok(1) "2.prems"(1) by simp
    ultimately show ?thesis using "2.IH" [OF Inr _ ok(3)] mset Inr by (auto split: sum.splits)
  qed
qed simp

text \<open>
  A detached access meets the cascade's contract. \<^verbatim>\<open>ts::async\<close> over several objects faults exactly when an object
  is passed twice; otherwise it builds a block the cascade accepts (own links numbered from 0 in ascending pipe order, one
  lock per link, nothing claimed or settled), whose links are exactly the declared pipes and modes in whatever order they
  were declared. So everything proved of the cascade holds for it.
\<close>

theorem async_build_meets_contract:
  assumes "length tgs = length modes" and "length tgs \<le> max_entries"
  shows "(async_build b pri tgs modes = Inl e \<longleftrightarrow> e = Op_same_object_twice \<and> \<not> distinct (map tg_pipe tgs))
    \<and> (distinct (map tg_pipe tgs) \<longrightarrow> (\<exists>blk. async_build b pri tgs modes = Inr blk \<and> fresh_piped b blk
         \<and> (\<lambda>l. (lk_pipe l, lk_mode l)) ` set (pipe_links blk) = set (zip (map tg_pipe tgs) modes)))"
proof -
  let ?d = "declared_slots tgs modes"
  have len: "length ?d = length tgs" by (simp add: declared_slots_def)
  have pipes: "map sl_pipe ?d = map tg_pipe tgs" by (rule nth_equalityI) (simp_all add: declared_slots_def)
  have img: "(\<lambda>x. (sl_pipe x, sl_mode x)) ` set ?d = set (zip (map tg_pipe tgs) modes)"
    using assms(1) by (force simp: set_zip declared_slots_def image_iff)
  have spec: "case sort_slots (length tgs) 0 ?d of
      Inl e \<Rightarrow> e = Op_same_object_twice \<and> \<not> distinct (map sl_pipe ?d)
    | Inr ys \<Rightarrow> mset ys = mset ?d \<and> sorted_wrt (<) (map sl_pipe ys)"
    by (rule sort_slots_spec) (simp_all add: len)
  show ?thesis
  proof (cases "sort_slots (length tgs) 0 ?d")
    case (Inl e')
    with spec show ?thesis by (auto simp: async_build_def pipes)
  next
    case (Inr ys)
    with spec have ys: "mset ys = mset ?d" "sorted_wrt (<) (map sl_pipe ys)" by simp_all
    let ?ls = "map (slot_link b) (enumerate 0 ys)"
    have n: "length ys < 2 ^ 8" using mset_eq_length [OF ys(1)] len assms(2) by (simp add: max_entries_def)
    have can: "canonical_links b ?ls" using slot_links_canonical [OF ys(2) n, of b "\<lambda>_. True"] by simp
    have dist: "distinct (map tg_pipe tgs)"
    proof -
      have "distinct (map sl_pipe ys)" using ys(2) by (simp add: strict_sorted_iff)
      moreover have "mset (map sl_pipe ys) = mset (map tg_pipe tgs)" using ys(1) pipes by (metis mset_map)
      ultimately show ?thesis by (metis mset_eq_imp_distinct_iff)
    qed
    let ?blk = "(make_piped ?ls)\<lparr>flags := (flags (make_piped ?ls))\<lparr>fl_priority := pri\<rparr>\<rparr>"
    have blk: "async_build b pri tgs modes = Inr ?blk" using Inr by (simp add: async_build_def Let_def)
    have "fresh_piped b ?blk"
      using can by (simp add: fresh_piped_def make_piped_def make_bare_block_def default_flags_def)
    moreover have "(\<lambda>l. (lk_pipe l, lk_mode l)) ` set (pipe_links ?blk) = set (zip (map tg_pipe tgs) modes)"
      using slot_links_modes [of b ys] img ys(1) by (simp add: make_piped_def del: set_map) (metis set_mset_mset)
    ultimately show ?thesis using blk dist by auto
  qed
qed

theorem async_build_meets_contract_witness:
  "\<exists>blk. async_build 5 Normal op_demo_targets [Read_write, Read_only] = Inr blk \<and> fresh_piped 5 blk"
  using async_build_meets_contract [of op_demo_targets "[Read_write, Read_only]" 5 Normal Op_unbound]
  by (auto simp: op_demo_targets_def max_entries_def)

section \<open>A single object\<close>

text \<open>
  \<^verbatim>\<open>Guarded::launch\<close>, behind \<^verbatim>\<open>async\<close>: the block of a detached access to one object, before it enters the pipe. The destructor of
  \<^verbatim>\<open>Guarded\<close>: fatal while a compiled graph refers to the object, else it returns once the pipe is idle.
\<close>

definition guarded_launch :: "block_id \<Rightarrow> priority \<Rightarrow> pipe_id \<Rightarrow> access \<Rightarrow> tcb" where
  "guarded_launch b pri p mode =
     (let blk = make_piped [\<lparr>lk_owner = b, lk_pipe = p, lk_index = 0, lk_mode = mode\<rparr>] in
      blk\<lparr>flags := (flags blk)\<lparr>fl_priority := pri\<rparr>\<rparr>)"

definition guarded_destroy :: "pipe \<Rightarrow> bool result" where
  "guarded_destroy p = (if graph_refs p \<noteq> 0 then Inl Guarded_graph_refs else Inr (pipe_idle p))"

lemma guarded_launch_contract: "fresh_piped b (guarded_launch b pri p mode) \<and> num_locks (guarded_launch b pri p mode) = 1"
  by (simp add: guarded_launch_def fresh_piped_def make_piped_def make_bare_block_def default_flags_def canonical_links_def Let_def)

text \<open>The destructor returns only when every access that ever entered the pipe has had its turn and released.\<close>

theorem guarded_destroy_safe:
  assumes "pipe_reach s" and "guarded_destroy (run_pipe s) = Inr True"
  shows "run_holders s = {#} \<and> mset (run_released s) = mset (run_entered s)"
proof -
  have idle: "pipe_idle (run_pipe s)" using assms(2) by (auto simp: guarded_destroy_def split: if_splits)
  have inv: "run_inv s" by (rule run_inv_reach [OF assms(1)])
  then have none: "run_holders s = {#}"
    using idle by (auto simp: run_inv_def pipe_inv_def grants_ok_def pipe_idle_def split: if_splits)
  then show ?thesis using inv idle by (simp add: run_inv_def pipe_idle_def)
qed

theorem guarded_destroy_safe_witness:
  "run_holders (run_release (run_release demo_run demo_write) demo_read) = {#}"
proof -
  let ?u = "run_release demo_run demo_write" and ?t = "run_release (run_release demo_run demo_write) demo_read"
  have u: "run_holders ?u = {#demo_read#}" and d: "guarded_destroy (run_pipe ?t) = Inr True"
    by (simp_all add: demo_run_def run_enter_def run_release_def run_init_def pipe_init_def demo_read_def
        demo_write_def pipe_defs collect_admissions.simps guarded_destroy_def)
  have "pipe_reach ?t"
    by (rule reach_step [OF reach_step [OF demo_run_reach step_release] step_release]) (simp_all add: demo_run_state u)
  from guarded_destroy_safe [OF this d] show ?thesis by simp
qed

end
