(* ===== verification/Access_Op_Run.thy ===== *)
theory Access_Op_Run
  imports Access_Op
begin

text \<open>
  One attended access beside everybody else who uses its pipes. The op is bound, fired, refired, awaited, consumed
  and destroyed by its owner; its links take part in the pipes' FIFO order with the entries of any number of other
  users, whose steps are arbitrary. A step is one critical section or one atomic operation of some thread.
\<close>

section \<open>State and steps\<close>

text \<open>
  Where the firing stands: \<open>Op_probe\<close>, \<open>Op_lend\<close>, \<open>Op_reprobe\<close> are the three attempts of \<^verbatim>\<open>fire\<close>; \<open>Op_entering i\<close> and
  \<open>Op_waiting i\<close> the cascade at link \<open>i\<close>; \<open>Op_cascaded\<close>: all turns came, releases outstanding; \<open>Op_dispatched\<close>:
  \<^verbatim>\<open>execute\<close> is called inline or by a worker; \<open>Op_running\<close>, \<open>Op_ended\<close>: the body; \<open>Op_children\<close>: it returned but nested
  work is pending; \<open>Op_advancing i c\<close>: \<^verbatim>\<open>advance_pipe_links\<close> at link \<open>i\<close>, outcome \<open>c\<close>; \<open>Op_gone\<close>: destroyed.
\<close>

datatype op_pc =
    Op_idle | Op_probe | Op_lend | Op_reprobe | Op_entering nat | Op_waiting nat | Op_cascaded | Op_dispatched
  | Op_running | Op_ended | Op_children | Op_advancing nat bool | Op_gone

text \<open>
  \<open>os_turns\<close>: turns that fired and whose lock release is to come; \<open>os_children\<close>: nested work not settled yet. The
  last four fields are bookkeeping of the current firing: the objects lent to it, how often it was executed, how many
  values were handed out, and what the body returned.
\<close>

record op_sys =
  os_pipes :: "pipe_id \<Rightarrow> pipe_run"
  os_op :: access_op
  os_pc :: op_pc
  os_turns :: nat
  os_children :: nat
  os_lent :: "nat set"
  os_bodies :: nat
  os_taken :: nat
  os_value :: "nat option"

definition own :: "block_id \<Rightarrow> pipe_entry \<Rightarrow> bool" where
  "own b e \<longleftrightarrow> (\<exists>l. e = Task_link l \<and> lk_owner l = b)"

abbreviation (input) links_of_op :: "op_sys \<Rightarrow> pipe_link list" where
  "links_of_op s \<equiv> pipe_links (op_block (os_op s))"

definition set_block :: "tcb \<Rightarrow> op_sys \<Rightarrow> op_sys" where
  "set_block blk s = s\<lparr>os_op := (os_op s)\<lparr>op_block := blk\<rparr>\<rparr>"

text \<open>The pipes after a successful probe: \<open>pipes\<close> is what \<^verbatim>\<open>pipe_try_inline\<close> left, the rest is bookkeeping.\<close>

definition note_admitted :: "pipe_link list \<Rightarrow> (pipe_id \<Rightarrow> pipe) \<Rightarrow> (pipe_id \<Rightarrow> pipe_run) \<Rightarrow> pipe_id \<Rightarrow> pipe_run" where
  "note_admitted ls pipes P p =
     (let es = map Task_link (filter (\<lambda>l. lk_pipe l = p) ls) in
      (P p)\<lparr>run_pipe := pipes p, run_holders := run_holders (P p) + mset es,
        run_entered := run_entered (P p) @ es, run_granted := run_granted (P p) @ es\<rparr>)"

text \<open>One probe of \<^verbatim>\<open>fire\<close>: admitted everywhere and executed on the spot, or on to the next attempt.\<close>

definition fire_probe :: "access_op \<Rightarrow> op_pc \<Rightarrow> op_sys \<Rightarrow> op_sys" where
  "fire_probe op otherwise s =
     (case pipe_try_inline (op_block op) (\<lambda>p. run_pipe (os_pipes s p)) of
        Some (blk, pipes) \<Rightarrow> s\<lparr>os_op := op\<lparr>op_block := blk, op_settle_sync := True\<rparr>,
          os_pipes := note_admitted (pipe_links blk) pipes (os_pipes s), os_pc := Op_dispatched\<rparr>
      | None \<Rightarrow> s\<lparr>os_op := op\<lparr>op_settle_sync := False\<rparr>, os_pc := otherwise\<rparr>)"

definition seed_locks :: "access_op \<Rightarrow> access_op" where
  "seed_locks op = op\<lparr>op_block := (op_block op)\<lparr>num_locks := word_of_nat (pipe_count (op_block op))\<rparr>\<rparr>"

text \<open>The middle of \<^verbatim>\<open>fire\<close>: lend what the caller holds, then run, probe again, or queue.\<close>

definition fire_lent :: "nat set \<Rightarrow> access_op \<Rightarrow> op_sys \<Rightarrow> op_sys" where
  "fire_lent lent op s =
     (if pipe_links (op_block op) = []
      then s\<lparr>os_op := op\<lparr>op_settle_sync := True\<rparr>, os_pc := Op_dispatched, os_lent := lent\<rparr>
      else s\<lparr>os_op := seed_locks op, os_lent := lent,
             os_pc := (if \<not> op_queued op \<and> pipe_count (op_block op) < length (op_modes op) then Op_reprobe else Op_entering 0)\<rparr>)"

text \<open>What a released lock of the op's block triggers.\<close>

fun after_release :: "release_next \<Rightarrow> op_pc \<Rightarrow> op_pc" where
  "after_release Next_dispatch pc = Op_dispatched"
| "after_release Next_op_settle pc = Op_advancing 0 False"
| "after_release Next_complete pc = Op_advancing 0 False"
| "after_release Next_enter_pipes pc = Op_entering 0"
| "after_release Next_none pc = pc"

inductive op_step :: "block_id \<Rightarrow> op_sys \<Rightarrow> op_sys \<Rightarrow> bool" for b where
  os_other_enter: "\<not> own b e \<Longrightarrow> op_step b s (s\<lparr>os_pipes := (os_pipes s)(p := run_enter (os_pipes s p) e)\<rparr>)"
| os_other_release: "h \<in># run_holders (os_pipes s p) \<Longrightarrow> \<not> own b h \<Longrightarrow>
     op_step b s (s\<lparr>os_pipes := (os_pipes s)(p := run_release (os_pipes s p) h)\<rparr>)"
| os_bind: "os_pc s = Op_idle \<Longrightarrow> length tgs = length (op_modes (os_op s)) \<Longrightarrow> op_bind rank tgs (os_op s) = Inr op \<Longrightarrow>
     op_step b s (s\<lparr>os_op := op\<rparr>)"
| os_start: "os_pc s \<noteq> Op_gone \<Longrightarrow> op_start (os_op s) = Inr op \<Longrightarrow>
     op_step b s (s\<lparr>os_op := op, os_pc := (if op_queued op then Op_lend else Op_probe), os_lent := {}, os_bodies := 0,
       os_taken := 0, os_value := None\<rparr>)"
| os_probe: "os_pc s = Op_probe \<Longrightarrow> op_bind_links epochs ctx False b (os_op s) = Inr op \<Longrightarrow>
     op_step b s (fire_probe (seed_locks op) Op_lend s)"
| os_lend: "os_pc s = Op_lend \<Longrightarrow> op_bind_links epochs ctx True b (os_op s) = Inr op \<Longrightarrow>
     lent = {k. k < length (op_modes op) \<and>
       (\<exists>c. ctx = Some c \<and> ctx_grants epochs c (op_insts op ! k) (op_modes op ! k))} \<Longrightarrow>
     op_step b s (fire_lent lent op s)"
| os_reprobe: "os_pc s = Op_reprobe \<Longrightarrow> op_step b s (fire_probe (os_op s) (Op_entering 0) s)"
| os_enter: "os_pc s = Op_entering i \<Longrightarrow> links_of_op s ! i = l \<Longrightarrow>
     op_step b s ((set_block ((op_block (os_op s))\<lparr>pipes_entered := Suc i\<rparr>) s)\<lparr>
       os_pipes := (os_pipes s)(lk_pipe l := run_enter (os_pipes s (lk_pipe l)) (Task_link l)), os_pc := Op_waiting i\<rparr>)"
| os_turn: "os_pc s = Op_waiting i \<Longrightarrow> links_of_op s ! i = l \<Longrightarrow> Task_link l \<in># run_holders (os_pipes s (lk_pipe l)) \<Longrightarrow>
     op_step b s (s\<lparr>os_pc := (if Suc i < length (links_of_op s) then Op_entering (Suc i) else Op_cascaded),
       os_turns := Suc (os_turns s)\<rparr>)"
| os_turn_release: "os_turns s = Suc k \<Longrightarrow> release_lock (op_block (os_op s)) False = (blk, nxt) \<Longrightarrow>
     op_step b s ((set_block blk s)\<lparr>os_turns := k, os_pc := after_release nxt (os_pc s)\<rparr>)"
| os_cancel: "os_pc s = Op_dispatched \<Longrightarrow> op_run token (os_op s) = Inr (Op_cancel op) \<Longrightarrow>
     op_step b s (s\<lparr>os_op := op, os_bodies := Suc (os_bodies s), os_pc := Op_advancing 0 True\<rparr>)"
| os_run: "os_pc s = Op_dispatched \<Longrightarrow> op_run token (os_op s) = Inr (Op_body op) \<Longrightarrow>
     op_step b s (s\<lparr>os_op := op, os_bodies := Suc (os_bodies s), os_pc := Op_running\<rparr>)"
| os_child: "os_pc s = Op_running \<Longrightarrow> os_children s < 2 ^ 30 \<Longrightarrow>
     op_step b s ((set_block ((op_block (os_op s))\<lparr>num_locks := num_locks (op_block (os_op s)) + 1\<rparr>) s)\<lparr>
       os_children := Suc (os_children s)\<rparr>)"
| os_child_done: "os_children s = Suc k \<Longrightarrow> release_lock (op_block (os_op s)) c = (blk, nxt) \<Longrightarrow>
     op_step b s ((set_block blk s)\<lparr>os_children := k, os_pc := after_release nxt (os_pc s)\<rparr>)"
| os_body_end: "os_pc s = Op_running \<Longrightarrow>
     op_step b s (s\<lparr>os_op := op_body_result r (os_op s), os_value := r, os_pc := Op_ended\<rparr>)"
| os_body_release: "os_pc s = Op_ended \<Longrightarrow> op_body_release (os_op s) = (op, fin) \<Longrightarrow>
     op_step b s (s\<lparr>os_op := op, os_pc := (if fin then Op_advancing 0 False else Op_children)\<rparr>)"
| os_advance: "os_pc s = Op_advancing i c \<Longrightarrow> i < pipes_entered (op_block (os_op s)) \<Longrightarrow> links_of_op s ! i = l \<Longrightarrow>
     op_step b s (s\<lparr>os_pipes := (os_pipes s)(lk_pipe l := run_release (os_pipes s (lk_pipe l)) (Task_link l)),
       os_pc := Op_advancing (Suc i) c\<rparr>)"
| os_settle: "os_pc s = Op_advancing i c \<Longrightarrow> i \<ge> pipes_entered (op_block (os_op s)) \<Longrightarrow> op_settle c (os_op s) = (op, conts) \<Longrightarrow>
     op_step b s (s\<lparr>os_op := op\<lparr>op_settled_sync := op_settle_sync op\<rparr>, os_pc := Op_idle\<rparr>)"
| os_attach: "op_started (os_op s) \<Longrightarrow> os_pc s \<noteq> Op_gone \<Longrightarrow> attach (op_block (os_op s)) c = (blk, fired) \<Longrightarrow>
     op_step b s (set_block blk s)"
| os_take: "ready (op_block (os_op s)) \<Longrightarrow> op_take (os_op s) = Inr (op, v) \<Longrightarrow>
     op_step b s (s\<lparr>os_op := op, os_taken := Suc (os_taken s)\<rparr>)"
| os_try_take: "op_try_take (os_op s) = Inr (op, Some v) \<Longrightarrow>
     op_step b s (s\<lparr>os_op := op, os_taken := Suc (os_taken s)\<rparr>)"
| os_destroy: "op_destroy ctx f (os_op s) = Inr w \<Longrightarrow> (w \<noteq> None \<longrightarrow> ready (op_block (os_op s))) \<Longrightarrow>
     op_step b s (s\<lparr>os_pc := Op_gone\<rparr>)"

definition op_sys_new :: "(pipe_id \<Rightarrow> nat) \<Rightarrow> access_op \<Rightarrow> op_sys" where
  "op_sys_new ranks op = \<lparr>os_pipes = (\<lambda>p. run_init (ranks p)), os_op = op, os_pc = Op_idle, os_turns = 0, os_children = 0,
     os_lent = {}, os_bodies = 0, os_taken = 0, os_value = None\<rparr>"

text \<open>An op starts unbound (\<^verbatim>\<open>Access_op()\<close>) or dormant on its objects; at most eight objects, by its type.\<close>

inductive op_reach :: "block_id \<Rightarrow> op_sys \<Rightarrow> bool" for b where
  or_unbound: "length modes \<le> max_entries \<Longrightarrow> op_reach b (op_sys_new ranks (op_new modes))"
| or_dormant: "length modes \<le> max_entries \<Longrightarrow> length tgs = length modes \<Longrightarrow> op_make ranks tgs modes pri queued = Inr op \<Longrightarrow>
     op_reach b (op_sys_new ranks op)"
| or_step: "op_reach b s \<Longrightarrow> op_step b s t \<Longrightarrow> op_reach b t"

section \<open>The op's links in the pipes\<close>

text \<open>The links that are inside their pipes, and those that hold their grant, at a program point.\<close>

fun span_links :: "op_pc \<Rightarrow> pipe_link list \<Rightarrow> pipe_link list" where
  "span_links Op_idle ls = []"
| "span_links Op_probe ls = []"
| "span_links Op_lend ls = []"
| "span_links Op_reprobe ls = []"
| "span_links Op_gone ls = []"
| "span_links (Op_entering i) ls = take i ls"
| "span_links (Op_waiting i) ls = take (Suc i) ls"
| "span_links (Op_advancing i c) ls = drop i ls"
| "span_links _ ls = ls"

fun held_links :: "op_pc \<Rightarrow> pipe_link list \<Rightarrow> pipe_link list" where
  "held_links (Op_waiting i) ls = take i ls"
| "held_links pc ls = span_links pc ls"

definition spans :: "block_id \<Rightarrow> (pipe_id \<Rightarrow> pipe_run) \<Rightarrow> pipe_link list \<Rightarrow> pipe_link list \<Rightarrow> bool" where
  "spans b P ins held \<longleftrightarrow> (\<forall>p. run_inv (P p))
     \<and> (\<forall>p. filter_mset (own b) (inside (P p)) = mset (map Task_link (filter (\<lambda>l. lk_pipe l = p) ins)))
     \<and> (\<forall>l \<in> set held. Task_link l \<in># run_holders (P (lk_pipe l)))"

lemma spans_new: "spans b (\<lambda>p. run_init (r p)) [] []"
  by (simp add: spans_def run_inv_init) (simp add: inside_def run_init_def pipe_init_def)

lemma spans_other_enter:
  assumes "spans b P ins held" and "\<not> own b e"
  shows "spans b (P(p := run_enter (P p) e)) ins held"
proof -
  have inv: "run_inv (P p)" using assms(1) by (simp add: spans_def)
  have "x \<in># run_holders (run_enter (P p) e)" if "x \<in># run_holders (P p)" for x
    using that by (auto simp: run_enter_def Let_def split: prod.split)
  then show ?thesis using assms inv by (auto simp: spans_def run_inv_enter inside_enter)
qed

lemma spans_other_release:
  assumes "spans b P ins held" and "h \<in># run_holders (P p)" and "\<not> own b h" and "\<forall>l \<in> set held. lk_owner l = b"
  shows "spans b (P(p := run_release (P p) h)) ins held"
proof -
  have inv: "run_inv (P p)" using assms(1) by (simp add: spans_def)
  have "x \<in># run_holders (run_release (P p) h)" if "x \<in># run_holders (P p)" "x \<noteq> h" for x
    using that by (auto simp: run_release_def Let_def in_diff_count split: prod.split)
  moreover have "Task_link l \<noteq> h" if "l \<in> set held" for l using that assms(3,4) by (auto simp: own_def)
  ultimately show ?thesis
    using assms inv by (auto simp: spans_def run_inv_release inside_release)
qed

lemma spans_enter:
  assumes "spans b P ins held" and "lk_owner l = b"
  shows "spans b (P(lk_pipe l := run_enter (P (lk_pipe l)) (Task_link l))) (ins @ [l]) held"
proof -
  have inv: "run_inv (P (lk_pipe l))" using assms(1) by (simp add: spans_def)
  have "x \<in># run_holders (run_enter (P (lk_pipe l)) (Task_link l))" if "x \<in># run_holders (P (lk_pipe l))" for x
    using that by (auto simp: run_enter_def Let_def split: prod.split)
  moreover have "own b (Task_link l)" using assms(2) by (simp add: own_def)
  ultimately show ?thesis using assms inv by (auto simp: spans_def run_inv_enter inside_enter)
qed

lemma spans_leave:
  assumes "spans b P (l # ins) (l # ins)" and "lk_owner l = b" and "lk_pipe l \<notin> lk_pipe ` set ins"
  shows "spans b (P(lk_pipe l := run_release (P (lk_pipe l)) (Task_link l))) ins ins"
proof -
  have inv: "run_inv (P (lk_pipe l))" and h: "Task_link l \<in># run_holders (P (lk_pipe l))"
    using assms(1) by (simp_all add: spans_def)
  have "own b (Task_link l)" using assms(2) by (simp add: own_def)
  with assms inv h show ?thesis
    by (auto simp: spans_def run_inv_release inside_release image_iff)
qed

section \<open>The probe admits all links\<close>

lemma filter_pipe_single:
  "distinct (map lk_pipe ls) \<Longrightarrow> l \<in> set ls \<Longrightarrow> filter (\<lambda>k. lk_pipe k = lk_pipe l) ls = [l]"
proof (induction ls)
  case (Cons k ls)
  have none: "filter (\<lambda>j. lk_pipe j = lk_pipe k) ls = []"
    using Cons.prems(1) by (auto simp: filter_empty_conv image_iff)
  show ?case
  proof (cases "k = l")
    case True
    with none show ?thesis by simp
  next
    case False
    with Cons.prems have "lk_pipe k \<noteq> lk_pipe l" "l \<in> set ls" by (auto simp: image_iff)
    with Cons show ?thesis by simp
  qed
qed simp

lemma admit_links_apply:
  assumes "distinct (map lk_pipe ls)"
  shows "l \<in> set ls \<Longrightarrow> admit_links ls pipes (lk_pipe l) = admit_locked (pipes (lk_pipe l)) (Task_link l)"
    and "p \<notin> lk_pipe ` set ls \<Longrightarrow> admit_links ls pipes p = pipes p"
proof -
  have other: "p \<notin> lk_pipe ` set ls \<Longrightarrow> admit_links ls pipes p = pipes p" for ls pipes p
    unfolding admit_links_def by (induction ls arbitrary: pipes) auto
  then show "p \<notin> lk_pipe ` set ls \<Longrightarrow> admit_links ls pipes p = pipes p" .
  show "l \<in> set ls \<Longrightarrow> admit_links ls pipes (lk_pipe l) = admit_locked (pipes (lk_pipe l)) (Task_link l)"
    using assms
  proof (induction ls arbitrary: pipes)
    case (Cons k ls)
    let ?ps = "pipes(lk_pipe k := admit_locked (pipes (lk_pipe k)) (Task_link k))"
    have step: "admit_links (k # ls) pipes = admit_links ls ?ps" by (simp add: admit_links_def)
    show ?case
    proof (cases "k = l")
      case True
      then show ?thesis unfolding step using Cons.prems(2) by (simp add: other)
    next
      case False
      with Cons.prems have "lk_pipe k \<noteq> lk_pipe l" "l \<in> set ls" by (auto simp: image_iff)
      with Cons show ?thesis by (simp add: step)
    qed
  qed simp
qed

lemma note_admitted_apply:
  assumes "distinct (map lk_pipe ls)" and "\<forall>l \<in> set ls. inline_free (\<lambda>p. run_pipe (P p)) l"
  shows "l \<in> set ls \<Longrightarrow> note_admitted ls (admit_links ls (\<lambda>p. run_pipe (P p))) P (lk_pipe l) = run_enter (P (lk_pipe l)) (Task_link l)"
    and "p \<notin> lk_pipe ` set ls \<Longrightarrow> note_admitted ls (admit_links ls (\<lambda>p. run_pipe (P p))) P p = P p"
proof -
  assume l: "l \<in> set ls"
  then have "inline_free (\<lambda>p. run_pipe (P p)) l" using assms(2) by simp
  then have "pipe_enter (run_pipe (P (lk_pipe l))) (Task_link l) = (admit_locked (run_pipe (P (lk_pipe l))) (Task_link l), True)"
    by (simp add: inline_free_def pipe_enter_def)
  then show "note_admitted ls (admit_links ls (\<lambda>p. run_pipe (P p))) P (lk_pipe l) = run_enter (P (lk_pipe l)) (Task_link l)"
    using filter_pipe_single [OF assms(1) l] admit_links_apply(1) [OF assms(1) l]
    by (simp add: note_admitted_def Let_def run_enter_def)
next
  assume p: "p \<notin> lk_pipe ` set ls"
  then have "filter (\<lambda>l. lk_pipe l = p) ls = []" by (auto simp: filter_empty_conv)
  then show "note_admitted ls (admit_links ls (\<lambda>p. run_pipe (P p))) P p = P p"
    using admit_links_apply(2) [OF assms(1) p] by (simp add: note_admitted_def Let_def)
qed

lemma canonical_pipes_distinct: "canonical_links b ls \<Longrightarrow> distinct (map lk_pipe ls)"
  by (simp add: canonical_links_def strict_sorted_iff)

lemma canonical_links_owner: "canonical_links b ls \<Longrightarrow> l \<in> set ls \<Longrightarrow> lk_owner l = b"
  by (auto simp: canonical_links_def in_set_conv_nth)

lemma spans_probe:
  assumes "spans b P [] []" and "canonical_links b ls" and free: "list_all (inline_free (\<lambda>p. run_pipe (P p))) ls"
  shows "spans b (note_admitted ls (admit_links ls (\<lambda>p. run_pipe (P p))) P) ls ls"
proof -
  note dist = canonical_pipes_distinct [OF assms(2)]
  note ap = note_admitted_apply [OF dist, of P] 
  have fr: "\<forall>l \<in> set ls. inline_free (\<lambda>p. run_pipe (P p)) l" using free by (simp add: list_all_iff)
  let ?Q = "note_admitted ls (admit_links ls (\<lambda>p. run_pipe (P p))) P"
  have inv: "run_inv (P p)" "filter_mset (own b) (inside (P p)) = {#}" for p using assms(1) by (simp_all add: spans_def)
  have "run_inv (?Q p) \<and> filter_mset (own b) (inside (?Q p)) = mset (map Task_link (filter (\<lambda>l. lk_pipe l = p) ls))" for p
  proof (cases "p \<in> lk_pipe ` set ls")
    case True
    then obtain l where l: "l \<in> set ls" "p = lk_pipe l" by auto
    have "own b (Task_link l)" using canonical_links_owner [OF assms(2) l(1)] by (simp add: own_def)
    then show ?thesis
      using inv l ap(1) [OF fr l(1)] filter_pipe_single [OF dist l(1)] by (simp add: run_inv_enter inside_enter)
  next
    case False
    then have "filter (\<lambda>l. lk_pipe l = p) ls = []" by (auto simp: filter_empty_conv)
    with False show ?thesis using inv ap(2) [OF fr] by simp
  qed
  moreover have "Task_link l \<in># run_holders (?Q (lk_pipe l))" if "l \<in> set ls" for l
  proof -
    have "inline_free (\<lambda>p. run_pipe (P p)) l" using fr that by simp
    then show ?thesis
      by (simp add: ap(1) [OF fr that] run_enter_def inline_free_def pipe_enter_def)
  qed
  ultimately show ?thesis by (simp add: spans_def)
qed

section \<open>The state of the op\<close>

fun resting :: "op_pc \<Rightarrow> bool" where
  "resting Op_idle = True" | "resting Op_gone = True" | "resting _ = False"

text \<open>The links are those of this firing.\<close>

fun linked :: "op_pc \<Rightarrow> bool" where
  "linked Op_idle = False" | "linked Op_gone = False" | "linked Op_probe = False" | "linked Op_lend = False" | "linked _ = True"

text \<open>Not executed yet; and: the body has returned.\<close>

fun early :: "op_pc \<Rightarrow> bool" where
  "early Op_probe = True" | "early Op_lend = True" | "early Op_reprobe = True" | "early (Op_entering i) = True"
| "early (Op_waiting i) = True" | "early Op_cascaded = True" | "early Op_dispatched = True" | "early _ = False"

fun returned :: "op_pc \<Rightarrow> bool" where
  "returned Op_ended = True" | "returned Op_children = True" | "returned (Op_advancing i c) = (\<not> c)" | "returned _ = False"

fun pc_ok :: "op_pc \<Rightarrow> tcb \<Rightarrow> nat \<Rightarrow> nat \<Rightarrow> bool" where
  "pc_ok (Op_entering i) blk turns kids = (i < pipe_count blk \<and> turns \<le> i \<and> kids = 0 \<and> pipes_entered blk = i
     \<and> num_locks blk = word_of_nat (pipe_count blk - i + turns))"
| "pc_ok (Op_waiting i) blk turns kids = (i < pipe_count blk \<and> turns \<le> i \<and> kids = 0 \<and> pipes_entered blk = Suc i
     \<and> num_locks blk = word_of_nat (pipe_count blk - i + turns))"
| "pc_ok Op_cascaded blk turns kids = (0 < turns \<and> turns \<le> pipe_count blk \<and> kids = 0 \<and> pipes_entered blk = pipe_count blk
     \<and> num_locks blk = word_of_nat turns)"
| "pc_ok Op_reprobe blk turns kids = (turns = 0 \<and> kids = 0 \<and> pipes_entered blk = 0 \<and> 0 < pipe_count blk
     \<and> num_locks blk = word_of_nat (pipe_count blk))"
| "pc_ok Op_probe blk turns kids = (turns = 0 \<and> kids = 0 \<and> pipes_entered blk = 0)"
| "pc_ok Op_lend blk turns kids = (turns = 0 \<and> kids = 0 \<and> pipes_entered blk = 0)"
| "pc_ok Op_running blk turns kids = (turns = 0 \<and> kids \<le> 2 ^ 30 \<and> pipes_entered blk = pipe_count blk
     \<and> num_locks blk = word_of_nat (2 ^ 31 + Suc kids))"
| "pc_ok Op_ended blk turns kids = (turns = 0 \<and> kids \<le> 2 ^ 30 \<and> pipes_entered blk = pipe_count blk
     \<and> num_locks blk = word_of_nat (2 ^ 31 + Suc kids))"
| "pc_ok Op_children blk turns kids = (turns = 0 \<and> 0 < kids \<and> kids \<le> 2 ^ 30 \<and> pipes_entered blk = pipe_count blk
     \<and> num_locks blk = word_of_nat (2 ^ 31 + kids))"
| "pc_ok (Op_advancing i c) blk turns kids = (turns = 0 \<and> kids = 0 \<and> pipes_entered blk = pipe_count blk \<and> i \<le> pipe_count blk)"
| "pc_ok Op_dispatched blk turns kids = (turns = 0 \<and> kids = 0 \<and> pipes_entered blk = pipe_count blk)"
| "pc_ok _ blk turns kids = (turns = 0 \<and> kids = 0)"

text \<open>Every object of the op is lent or has a link in its mode.\<close>

definition links_ok :: "block_id \<Rightarrow> access_op \<Rightarrow> nat set \<Rightarrow> bool" where
  "links_ok b op lent \<longleftrightarrow> canonical_links b (pipe_links (op_block op))
     \<and> (\<forall>k < length (op_modes op). k \<in> lent \<or> (\<exists>l \<in> set (pipe_links (op_block op)).
          lk_pipe l = op_epochs op ! k \<and> lk_mode l = op_modes op ! k))"

definition life_ok :: "op_pc \<Rightarrow> access_op \<Rightarrow> nat \<Rightarrow> nat \<Rightarrow> nat option \<Rightarrow> bool" where
  "life_ok pc op bodies taken v \<longleftrightarrow>
     (op_started op \<longrightarrow> op_bound op)
     \<and> (\<not> resting pc \<longrightarrow> op_started op \<and> \<not> ready (op_block op) \<and> \<not> op_settled_sync op)
     \<and> (resting pc \<and> op_started op \<longrightarrow> ready (op_block op) \<and> bodies = 1 \<and> (cancelled (op_block op) \<or> result_ptr (op_block op) = v))
     \<and> (\<not> op_started op \<longrightarrow> \<not> ready (op_block op) \<and> \<not> body_claimed (op_block op) \<and> pipes_entered (op_block op) = 0
          \<and> \<not> op_settled_sync op \<and> bodies = 0)
     \<and> taken = (if op_consumed op then 1 else 0) \<and> (op_consumed op \<longrightarrow> ready (op_block op))
     \<and> (early pc \<longrightarrow> bodies = 0 \<and> \<not> body_claimed (op_block op)) \<and> (\<not> early pc \<and> \<not> resting pc \<longrightarrow> bodies = 1)
     \<and> (returned pc \<longrightarrow> result_ptr (op_block op) = v)"

definition op_inv :: "block_id \<Rightarrow> op_sys \<Rightarrow> bool" where
  "op_inv b s \<longleftrightarrow> spans b (os_pipes s) (span_links (os_pc s) (links_of_op s)) (held_links (os_pc s) (links_of_op s))
     \<and> (linked (os_pc s) \<longrightarrow> links_ok b (os_op s) (os_lent s))
     \<and> pc_ok (os_pc s) (op_block (os_op s)) (os_turns s) (os_children s)
     \<and> op_wf (os_op s) \<and> fl_caller_owned (flags (op_block (os_op s)))
     \<and> life_ok (os_pc s) (os_op s) (os_bodies s) (os_taken s) (os_value s)"

section \<open>The steps keep the invariant\<close>

lemma op_inv_new:
  assumes "op_wf op" and "fl_caller_owned (flags (op_block op))" and "\<not> op_started op" and "\<not> op_consumed op"
    and "\<not> op_settled_sync op" and "\<not> ready (op_block op)" and "\<not> body_claimed (op_block op)" and "pipes_entered (op_block op) = 0"
  shows "op_inv b (op_sys_new r op)"
  using assms by (simp add: op_inv_def op_sys_new_def spans_new life_ok_def)

lemma op_make_facts:
  assumes "length modes \<le> max_entries" and "length tgs = length modes" and "op_make r tgs modes pri queued = Inr op"
  shows "op_wf op \<and> op_bound op \<and> fl_caller_owned (flags (op_block op)) \<and> \<not> op_started op \<and> \<not> op_consumed op \<and> \<not> op_settled_sync op
    \<and> \<not> ready (op_block op) \<and> \<not> body_claimed (op_block op) \<and> pipes_entered (op_block op) = 0"
proof -
  let ?blk = "(op_block (op_new modes))\<lparr>flags := (flags (op_block (op_new modes)))\<lparr>fl_priority := pri\<rparr>\<rparr>"
  let ?o = "(op_new modes)\<lparr>op_block := ?blk, op_queued := queued\<rparr>"
  have wf: "op_wf ?o" using op_wf_new [OF assms(1)] by (simp add: op_wf_def)
  have eq: "bind_targets r tgs (?o\<lparr>op_bound := True\<rparr>) = map_sum id (\<lambda>op. op\<lparr>op_bound := True\<rparr>) (bind_targets r tgs ?o)"
    by (simp add: bind_targets_def split: sum.split)
  from assms(3) have "bind_targets r tgs (?o\<lparr>op_bound := True\<rparr>) = Inr op"
    by (simp add: op_make_def Let_def op_new_def)
  with eq obtain op' where op': "bind_targets r tgs ?o = Inr op'" "op = op'\<lparr>op_bound := True\<rparr>"
    by (cases "bind_targets r tgs ?o") auto
  have len: "length tgs = length (op_modes ?o)" using assms(2) by (simp add: op_new_def)
  from bind_targets_cases [OF wf len, of r] have "op_wf op" by (simp add: op')
  moreover have "op_block op = ?blk" "op_started op = op_started ?o" "op_consumed op = op_consumed ?o" "op_settled_sync op = op_settled_sync ?o"
    using op' by (auto simp: bind_targets_def split: sum.splits)
  ultimately show ?thesis using op'(2) by (simp add: op_new_def make_bare_block_def)
qed

lemma op_bind_facts:
  assumes "op_wf op" and "length tgs = length (op_modes op)" and "op_bind r tgs op = Inr op'"
  shows "op_wf op'" and "op_bound op'" and "op_block op' = op_block op" and "op_started op' = op_started op"
    and "op_consumed op' = op_consumed op" and "op_settled_sync op' = op_settled_sync op"
proof -
  from assms(3) obtain o1 where o1: "bind_targets r tgs op = Inr o1" "op' = o1\<lparr>op_bound := True\<rparr>"
    by (auto simp: op_bind_def split: if_splits sum.splits)
  from bind_targets_cases [OF assms(1,2), of r] o1 show "op_wf op'" by simp
  show "op_bound op'" "op_block op' = op_block op" "op_started op' = op_started op"
    "op_consumed op' = op_consumed op" "op_settled_sync op' = op_settled_sync op"
    using o1 by (auto simp: bind_targets_def split: sum.splits)
qed

text \<open>The links \<^verbatim>\<open>bind_links\<close> leaves, and what it does not touch.\<close>

lemma op_bind_links_facts:
  assumes "op_bind_links epochs ctx lend b op = Inr op'"
  shows "op' = op\<lparr>op_block := op_block op'\<rparr>" and "num_locks (op_block op') = num_locks (op_block op)"
    and "pipes_entered (op_block op') = pipes_entered (op_block op)" and "ready (op_block op') = ready (op_block op)"
    and "body_claimed (op_block op') = body_claimed (op_block op)"
    and "fl_caller_owned (flags (op_block op')) = fl_caller_owned (flags (op_block op))"
    and "cancelled (op_block op') = cancelled (op_block op)" and "result_ptr (op_block op') = result_ptr (op_block op)"
  using assms by (auto simp: op_bind_links_def Let_def split: sum.splits)

lemma op_bind_links_ok:
  assumes "op_wf op" and "op_bound op" and "op_bind_links epochs ctx lend b op = Inr op'"
  shows "links_ok b op' {k. k < length (op_modes op') \<and>
    lend \<and> (\<exists>c. ctx = Some c \<and> ctx_grants epochs c (op_insts op' ! k) (op_modes op' ! k))}"
proof -
  let ?ctx = "if lend then ctx else None"
  let ?x = "\<lambda>k. \<lparr>sl_pipe = op_epochs op ! k, sl_mode = op_modes op ! k, sl_decl = k\<rparr>"
  let ?ls = "map (slot_link b) (enumerate 0 (filter (\<lambda>x. \<not> slot_lent epochs ?ctx (op_insts op) x) (op_slots op)))"
  have same: "op_modes op' = op_modes op" "op_insts op' = op_insts op" "op_epochs op' = op_epochs op"
    and ls: "pipe_links (op_block op') = ?ls"
    using assms(3) by (auto simp: op_bind_links_def Let_def link_slots_spec split: if_splits)
  have srt: "sorted_wrt (<) (map sl_pipe (op_slots op))" "length (op_slots op) < 2 ^ 8"
    using assms(1,2) by (auto simp: op_wf_def max_entries_def)
  have own: "\<exists>l \<in> set ?ls. lk_pipe l = op_epochs op ! k \<and> lk_mode l = op_modes op ! k"
    if k: "k < length (op_modes op)" "\<not> slot_lent epochs ?ctx (op_insts op) (?x k)" for k
  proof -
    have "?x k \<in> set (op_slots op)" using op_wf_slots [OF assms(1,2)] k(1) by auto
    with k(2) have "(op_epochs op ! k, op_modes op ! k) \<in>
        (\<lambda>x. (sl_pipe x, sl_mode x)) ` set (filter (\<lambda>x. \<not> slot_lent epochs ?ctx (op_insts op) x) (op_slots op))"
      by (force intro!: image_eqI [where x = "?x k"])
    then have "(op_epochs op ! k, op_modes op ! k) \<in> (\<lambda>l. (lk_pipe l, lk_mode l)) ` set ?ls"
      unfolding slot_links_modes .
    then show ?thesis by (auto simp del: set_map)
  qed
  have "lend \<and> (\<exists>c. ctx = Some c \<and> ctx_grants epochs c (op_insts op ! k) (op_modes op ! k))"
    if "slot_lent epochs ?ctx (op_insts op) (?x k)" for k using that by (auto simp: slot_lent_def split: if_splits)
  with own have "(lend \<and> (\<exists>c. ctx = Some c \<and> ctx_grants epochs c (op_insts op ! k) (op_modes op ! k)))
      \<or> (\<exists>l \<in> set ?ls. lk_pipe l = op_epochs op ! k \<and> lk_mode l = op_modes op ! k)"
    if "k < length (op_modes op)" for k using that by blast
  moreover have "canonical_links b ?ls" by (rule slot_links_canonical [OF srt])
  ultimately show ?thesis unfolding links_ok_def same ls by blast
qed

section \<open>Preservation, step by step\<close>

lemma release_child:
  assumes "fl_caller_owned (flags blk)" and "num_locks blk = word_of_nat (2 ^ 31 + Suc m)" and "Suc m < 2 ^ 31" and "pipe_count blk < 2 ^ 8"
  shows "release_lock blk c = ((if c then blk\<lparr>prereq_cancelled := True\<rparr> else blk)\<lparr>num_locks := word_of_nat (2 ^ 31 + m)\<rparr>,
    if m = 0 then Next_op_settle else Next_none)"
proof -
  let ?w = "word_of_nat (2 ^ 31 + m) :: 32 word"
  have dec: "num_locks blk = ?w + 1" using assms(2) by simp
  have "?w \<noteq> word_of_nat 0" using assms(3) by (subst word_of_nat_eq_32) auto
  then have nz: "?w \<noteq> 0" by simp
  have fl: "?w = execution_flag \<longleftrightarrow> m = 0"
    unfolding execution_flag_nat using assms(3) by (subst word_of_nat_eq_32) auto
  have pc: "?w \<noteq> word_of_nat (pipe_count blk)" using assms(3,4) by (subst word_of_nat_eq_32) auto
  show ?thesis using assms(1) nz fl pc unfolding release_lock_def Let_def by (simp add: dec execution_flag_def del: of_nat_add)
qed

lemma linked_count: "op_inv b s \<Longrightarrow> linked (os_pc s) \<Longrightarrow> pipe_count (op_block (os_op s)) < 2 ^ 8"
  by (simp add: op_inv_def links_ok_def canonical_links_def)

lemma held_owner:
  assumes "op_inv b s" and "l \<in> set (held_links (os_pc s) (links_of_op s))"
  shows "lk_owner l = b"
proof -
  have "linked (os_pc s)" "l \<in> set (links_of_op s)"
    using assms(2) by (cases "os_pc s"; auto dest: in_set_takeD in_set_dropD)+
  then show ?thesis using assms(1) by (auto simp: op_inv_def links_ok_def intro: canonical_links_owner)
qed

lemma op_inv_other_enter:
  assumes "op_inv b s" and "\<not> own b e"
  shows "op_inv b (s\<lparr>os_pipes := (os_pipes s)(p := run_enter (os_pipes s p) e)\<rparr>)"
  using assms spans_other_enter [of b "os_pipes s", OF _ assms(2)] by (simp add: op_inv_def)

lemma op_inv_other_release:
  assumes "op_inv b s" and "h \<in># run_holders (os_pipes s p)" and "\<not> own b h"
  shows "op_inv b (s\<lparr>os_pipes := (os_pipes s)(p := run_release (os_pipes s p) h)\<rparr>)"
proof -
  have "\<forall>l \<in> set (held_links (os_pc s) (links_of_op s)). lk_owner l = b" using held_owner [OF assms(1)] by blast
  then show ?thesis using assms(1) spans_other_release [of b "os_pipes s", OF _ assms(2,3)] by (simp add: op_inv_def)
qed

lemma op_inv_bind:
  assumes "op_inv b s" and "os_pc s = Op_idle" and "length tgs = length (op_modes (os_op s))" and "op_bind rank tgs (os_op s) = Inr op"
  shows "op_inv b (s\<lparr>os_op := op\<rparr>)"
proof -
  have wf: "op_wf (os_op s)" using assms(1) by (simp add: op_inv_def)
  note f = op_bind_facts [OF wf assms(3,4)]
  show ?thesis using assms(1,2) f by (simp add: op_inv_def life_ok_def)
qed

lemma op_inv_start:
  assumes inv: "op_inv b s" and "os_pc s \<noteq> Op_gone" and st: "op_start (os_op s) = Inr op"
  shows "op_inv b (s\<lparr>os_op := op, os_pc := (if op_queued op then Op_lend else Op_probe), os_lent := {}, os_bodies := 0,
       os_taken := 0, os_value := None\<rparr>)"
proof -
  have nf: "op_bound (os_op s)" "\<not> op_in_flight (os_op s)" using st by (auto simp: op_start_def split: if_splits)
  then have "resting (os_pc s)" using inv by (auto simp: op_inv_def life_ok_def op_in_flight_def)
  then have idle: "os_pc s = Op_idle" using assms(2) by (cases "os_pc s") auto
  show ?thesis
  proof (cases "op_started (os_op s)")
    case True
    then show ?thesis using inv idle st nf by (auto simp: op_inv_def life_ok_def op_start_def op_wf_def)
  next
    case False
    then have "ready (op_block (os_op s)) = False" "op_consumed (os_op s) = False"
      using inv by (auto simp: op_inv_def life_ok_def)
    with False show ?thesis using inv idle st nf by (auto simp: op_inv_def life_ok_def op_start_def op_wf_def)
  qed
qed

text \<open>A probe of an op whose links are fresh, from a point at which none of them is in a pipe.\<close>

lemma op_inv_fire_probe:
  assumes inv: "op_inv b s" and pc: "span_links (os_pc s) (links_of_op s) = []" "early (os_pc s)" "os_turns s = 0" "os_children s = 0"
    and op: "links_ok b op (os_lent s)" "op_wf op" "fl_caller_owned (flags (op_block op))"
      "op_started op" "op_bound op" "\<not> op_consumed op" "\<not> op_settled_sync op"
      "\<not> ready (op_block op)" "\<not> body_claimed (op_block op)"
    and other: "early otherwise" "span_links otherwise (pipe_links (op_block op)) = []" "held_links otherwise (pipe_links (op_block op)) = []"
      "pc_ok otherwise (op_block op) 0 0"
  shows "op_inv b (fire_probe op otherwise s)"
proof -
  have sp: "spans b (os_pipes s) [] []" using inv pc(1) by (simp add: op_inv_def spans_def)
  have can: "canonical_links b (pipe_links (op_block op))" using op(1) by (simp add: links_ok_def)
  have b0: "os_bodies s = 0" "os_taken s = 0" using inv pc(2) op(6) by (cases "os_pc s"; auto simp: op_inv_def life_ok_def)+
  have nrest: "\<not> resting otherwise" "\<not> returned otherwise" using other(1) by (cases otherwise; simp)+
  show ?thesis
  proof (cases "list_all (inline_free (\<lambda>p. run_pipe (os_pipes s p))) (pipe_links (op_block op))")
    case True
    note spans_probe [OF sp can True]
    with True op pc b0 show ?thesis
      by (simp add: fire_probe_def pipe_try_inline_def op_inv_def life_ok_def links_ok_def op_wf_def)
  next
    case False
    with sp op pc b0 other nrest show ?thesis
      by (simp add: fire_probe_def pipe_try_inline_def op_inv_def life_ok_def links_ok_def op_wf_def)
  qed
qed

section \<open>Preservation: firing and cascading\<close>

lemma early_facts:
  assumes "op_inv b s" and "early (os_pc s)"
  shows "op_started (os_op s)" "op_bound (os_op s)" "\<not> ready (op_block (os_op s))" "\<not> op_consumed (os_op s)" "\<not> op_settled_sync (os_op s)"
    "\<not> body_claimed (op_block (os_op s))" "os_bodies s = 0" "os_taken s = 0" "op_wf (os_op s)" "fl_caller_owned (flags (op_block (os_op s)))"
  using assms by (cases "os_pc s"; auto simp: op_inv_def life_ok_def)+

lemma links_ok_mono: "links_ok b op {} \<Longrightarrow> links_ok b op lent"
  by (auto simp: links_ok_def)

lemma op_bind_links_same:
  assumes "op_bind_links epochs ctx lend b op = Inr op'"
  shows "op_started op' = op_started op" "op_bound op' = op_bound op" "op_consumed op' = op_consumed op"
    "op_settled_sync op' = op_settled_sync op" "op_wf op' = op_wf op" "op_modes op' = op_modes op" "op_insts op' = op_insts op"
  using assms by (auto simp: op_bind_links_def Let_def op_wf_def split: sum.splits)

lemma op_inv_probe:
  assumes inv: "op_inv b s" and pc: "os_pc s = Op_probe" and bl: "op_bind_links epochs ctx False b (os_op s) = Inr op"
  shows "op_inv b (fire_probe (seed_locks op) Op_lend s)"
proof -
  have e: "early (os_pc s)" by (simp add: pc)
  note ef = early_facts [OF inv e] and f = op_bind_links_facts [OF bl] and same = op_bind_links_same [OF bl]
  have pe: "os_turns s = 0" "os_children s = 0" "pipes_entered (op_block (os_op s)) = 0" using inv pc by (auto simp: op_inv_def)
  have lk: "links_ok b op (os_lent s)" using links_ok_mono op_bind_links_ok [OF ef(9,2) bl] by simp
  show ?thesis
    by (rule op_inv_fire_probe [OF inv])
      (use pc pe lk same ef f(2-) in \<open>simp_all add: seed_locks_def links_ok_def op_wf_def\<close>)
qed

lemma op_inv_lend:
  assumes inv: "op_inv b s" and pc: "os_pc s = Op_lend" and bl: "op_bind_links epochs ctx True b (os_op s) = Inr op"
    and lent: "lent = {k. k < length (op_modes op) \<and> (\<exists>c. ctx = Some c \<and> ctx_grants epochs c (op_insts op ! k) (op_modes op ! k))}"
  shows "op_inv b (fire_lent lent op s)"
proof -
  have e: "early (os_pc s)" by (simp add: pc)
  note ef = early_facts [OF inv e] and f = op_bind_links_facts [OF bl] and same = op_bind_links_same [OF bl]
  have pe: "os_turns s = 0" "os_children s = 0" "pipes_entered (op_block (os_op s)) = 0" using inv pc by (auto simp: op_inv_def)
  have lk: "links_ok b op lent" using op_bind_links_ok [OF ef(9,2) bl] by (simp add: lent)
  have sp: "spans b (os_pipes s) [] []" using inv pc by (simp add: op_inv_def)
  show ?thesis using pe lk same ef f(2-) sp
    by (cases "pipe_links (op_block op) = []") (simp_all add: fire_lent_def op_inv_def seed_locks_def links_ok_def op_wf_def life_ok_def)
qed

lemma op_inv_reprobe:
  assumes inv: "op_inv b s" and pc: "os_pc s = Op_reprobe"
  shows "op_inv b (fire_probe (os_op s) (Op_entering 0) s)"
proof -
  have e: "early (os_pc s)" by (simp add: pc)
  note ef = early_facts [OF inv e]
  have pe: "os_turns s = 0" "os_children s = 0" "pc_ok (Op_entering 0) (op_block (os_op s)) 0 0" "links_ok b (os_op s) (os_lent s)"
    using inv pc by (auto simp: op_inv_def)
  show ?thesis
    by (rule op_inv_fire_probe [OF inv]) (use pc pe ef in simp_all)
qed

lemma op_inv_enter:
  assumes inv: "op_inv b s" and pc: "os_pc s = Op_entering i" and l: "links_of_op s ! i = l"
  shows "op_inv b ((set_block ((op_block (os_op s))\<lparr>pipes_entered := Suc i\<rparr>) s)\<lparr>
       os_pipes := (os_pipes s)(lk_pipe l := run_enter (os_pipes s (lk_pipe l)) (Task_link l)), os_pc := Op_waiting i\<rparr>)"
proof -
  have i: "i < length (links_of_op s)" using inv pc by (simp add: op_inv_def)
  have lk: "links_ok b (os_op s) (os_lent s)" using inv pc by (simp add: op_inv_def)
  have owner: "lk_owner l = b" using lk i l by (auto simp: links_ok_def intro: canonical_links_owner)
  have "spans b (os_pipes s) (take i (links_of_op s)) (take i (links_of_op s))" using inv pc by (simp add: op_inv_def)
  from spans_enter [OF this owner] have "spans b ((os_pipes s)(lk_pipe l := run_enter (os_pipes s (lk_pipe l)) (Task_link l)))
      (take (Suc i) (links_of_op s)) (take i (links_of_op s))" using i l by (simp add: take_Suc_conv_app_nth)
  then show ?thesis using inv pc by (auto simp: op_inv_def set_block_def links_ok_def life_ok_def op_wf_def)
qed

lemma op_inv_turn:
  assumes inv: "op_inv b s" and pc: "os_pc s = Op_waiting i" and l: "links_of_op s ! i = l"
    and held: "Task_link l \<in># run_holders (os_pipes s (lk_pipe l))"
  shows "op_inv b (s\<lparr>os_pc := (if Suc i < length (links_of_op s) then Op_entering (Suc i) else Op_cascaded), os_turns := Suc (os_turns s)\<rparr>)"
proof -
  have i: "i < length (links_of_op s)" using inv pc by (simp add: op_inv_def)
  have sp: "spans b (os_pipes s) (take (Suc i) (links_of_op s)) (take i (links_of_op s))" using inv pc by (simp add: op_inv_def)
  then have sp': "spans b (os_pipes s) (take (Suc i) (links_of_op s)) (take (Suc i) (links_of_op s))"
    using held l i by (auto simp: spans_def take_Suc_conv_app_nth)
  show ?thesis
  proof (cases "Suc i < length (links_of_op s)")
    case True
    then have "length (links_of_op s) - Suc i + Suc (os_turns s) = length (links_of_op s) - i + os_turns s" by simp
    then have "pc_ok (Op_entering (Suc i)) (op_block (os_op s)) (Suc (os_turns s)) (os_children s)"
      using inv pc True unfolding op_inv_def pc pc_ok.simps by simp
    with True sp' show ?thesis using inv pc by (auto simp: op_inv_def life_ok_def simp del: pc_ok.simps)
  next
    case False
    then have n: "length (links_of_op s) = Suc i" using i by simp
    then have "take (Suc i) (links_of_op s) = links_of_op s" by simp
    with n sp' show ?thesis using inv pc by (auto simp: op_inv_def life_ok_def)
  qed
qed

lemma op_inv_turn_release:
  assumes inv: "op_inv b s" and k: "os_turns s = Suc k" and rel: "release_lock (op_block (os_op s)) False = (blk, nxt)"
  shows "op_inv b ((set_block blk s)\<lparr>os_turns := k, os_pc := after_release nxt (os_pc s)\<rparr>)"
proof -
  let ?blk = "op_block (os_op s)" and ?n = "pipe_count (op_block (os_op s))"
  have ok: "pc_ok (os_pc s) ?blk (os_turns s) (os_children s)" using inv by (simp add: op_inv_def)
  have pcs: "(\<exists>i. os_pc s = Op_entering i) \<or> (\<exists>i. os_pc s = Op_waiting i) \<or> os_pc s = Op_cascaded"
    using ok k by (cases "os_pc s") auto
  have n: "?n < 2 ^ 8" using linked_count [OF inv] pcs by auto
  from pcs show ?thesis
  proof (elim disjE exE)
    fix i assume pc: "os_pc s = Op_entering i"
    then have locks: "num_locks ?blk = word_of_nat (Suc (?n - i + k))" and i: "i < ?n" "Suc k \<le> i" using ok k by auto
    have "release_lock ?blk False = (?blk\<lparr>num_locks := word_of_nat (?n - i + k)\<rparr>, Next_none)"
      using release_lock_pre [OF locks] n i by simp
    with rel have "blk = ?blk\<lparr>num_locks := word_of_nat (?n - i + k)\<rparr>" "nxt = Next_none" by auto
    with pc i k show ?thesis using inv by (auto simp: op_inv_def set_block_def links_ok_def life_ok_def op_wf_def)
  next
    fix i assume pc: "os_pc s = Op_waiting i"
    then have locks: "num_locks ?blk = word_of_nat (Suc (?n - i + k))" and i: "i < ?n" "Suc k \<le> i" using ok k by auto
    have "release_lock ?blk False = (?blk\<lparr>num_locks := word_of_nat (?n - i + k)\<rparr>, Next_none)"
      using release_lock_pre [OF locks] n i by simp
    with rel have "blk = ?blk\<lparr>num_locks := word_of_nat (?n - i + k)\<rparr>" "nxt = Next_none" by auto
    with pc i k show ?thesis using inv by (auto simp: op_inv_def set_block_def links_ok_def life_ok_def op_wf_def)
  next
    assume pc: "os_pc s = Op_cascaded"
    then have locks: "num_locks ?blk = word_of_nat (Suc k)" and t: "Suc k \<le> ?n" using ok k by auto
    have "release_lock ?blk False = (?blk\<lparr>num_locks := word_of_nat k\<rparr>, if k = 0 then Next_dispatch else Next_none)"
      using release_lock_pre [OF locks] n t by simp
    with rel have "blk = ?blk\<lparr>num_locks := word_of_nat k\<rparr>" "nxt = (if k = 0 then Next_dispatch else Next_none)" by auto
    with pc t k show ?thesis using inv by (auto simp: op_inv_def set_block_def links_ok_def life_ok_def op_wf_def)
  qed
qed

section \<open>Preservation: running, settling, consuming\<close>

lemma op_inv_cancel:
  assumes inv: "op_inv b s" and pc: "os_pc s = Op_dispatched" and run: "op_run token (os_op s) = Inr (Op_cancel op)"
  shows "op_inv b (s\<lparr>os_op := op, os_bodies := Suc (os_bodies s), os_pc := Op_advancing 0 True\<rparr>)"
proof -
  have "op = (os_op s)\<lparr>op_block := (op_block (os_op s))\<lparr>body_claimed := True\<rparr>\<rparr>"
    using run by (auto simp: op_run_def claim_def split: if_splits)
  then show ?thesis using inv pc by (auto simp: op_inv_def links_ok_def life_ok_def op_wf_def)
qed

lemma op_inv_run:
  assumes inv: "op_inv b s" and pc: "os_pc s = Op_dispatched" and run: "op_run token (os_op s) = Inr (Op_body op)"
  shows "op_inv b (s\<lparr>os_op := op, os_bodies := Suc (os_bodies s), os_pc := Op_running\<rparr>)"
proof -
  have "op = (os_op s)\<lparr>op_block := (op_block (os_op s))\<lparr>body_claimed := True, num_locks := execution_flag + 1\<rparr>\<rparr>"
    using run by (auto simp: op_run_def claim_def split: if_splits)
  moreover have "execution_flag + 1 = word_of_nat (2 ^ 31 + Suc 0)" by (simp add: execution_flag_def)
  ultimately show ?thesis using inv pc by (auto simp: op_inv_def links_ok_def life_ok_def op_wf_def simp del: of_nat_add of_nat_Suc)
qed

lemma op_inv_child:
  assumes inv: "op_inv b s" and pc: "os_pc s = Op_running" and k: "os_children s < 2 ^ 30"
  shows "op_inv b ((set_block ((op_block (os_op s))\<lparr>num_locks := num_locks (op_block (os_op s)) + 1\<rparr>) s)\<lparr>os_children := Suc (os_children s)\<rparr>)"
proof -
  have "num_locks (op_block (os_op s)) = word_of_nat (2 ^ 31 + Suc (os_children s))" using inv pc by (simp add: op_inv_def)
  then have "num_locks (op_block (os_op s)) + 1 = word_of_nat (2 ^ 31 + Suc (Suc (os_children s)))" by simp
  with k show ?thesis using inv pc
    by (auto simp: op_inv_def set_block_def links_ok_def life_ok_def op_wf_def simp del: of_nat_add of_nat_Suc)
qed

text \<open>A new block that differs only in its locks and continuations.\<close>

lemma op_inv_same_block:
  assumes inv: "op_inv b s" and agree: "pipe_links blk = links_of_op s" "ready blk = ready (op_block (os_op s))"
      "cancelled blk = cancelled (op_block (os_op s))" "result_ptr blk = result_ptr (op_block (os_op s))"
      "body_claimed blk = body_claimed (op_block (os_op s))" "flags blk = flags (op_block (os_op s))"
      "pipes_entered blk = pipes_entered (op_block (os_op s))"
    and ok: "pc_ok pc blk t k" and pc: "pc = os_pc s \<or> os_pc s = Op_children \<and> pc = Op_advancing 0 False"
  shows "op_inv b ((set_block blk s)\<lparr>os_turns := t, os_children := k, os_pc := pc\<rparr>)"
  using pc
proof
  assume "pc = os_pc s"
  then show ?thesis using inv ok agree by (simp add: op_inv_def set_block_def links_ok_def life_ok_def op_wf_def del: pc_ok.simps)
next
  assume "os_pc s = Op_children \<and> pc = Op_advancing 0 False"
  then show ?thesis using inv ok agree by (auto simp: op_inv_def set_block_def links_ok_def life_ok_def op_wf_def simp del: pc_ok.simps)
qed

lemma op_inv_child_done:
  assumes inv: "op_inv b s" and k: "os_children s = Suc k" and rel: "release_lock (op_block (os_op s)) c = (blk, nxt)"
  shows "op_inv b ((set_block blk s)\<lparr>os_children := k, os_pc := after_release nxt (os_pc s)\<rparr>)"
proof -
  let ?blk = "op_block (os_op s)"
  have ok: "pc_ok (os_pc s) ?blk (os_turns s) (os_children s)" and co: "fl_caller_owned (flags ?blk)" using inv by (auto simp: op_inv_def)
  have pcs: "os_pc s = Op_running \<or> os_pc s = Op_ended \<or> os_pc s = Op_children" using ok k by (cases "os_pc s") auto
  have n: "pipe_count ?blk < 2 ^ 8" using linked_count [OF inv] pcs by auto
  show ?thesis
  proof (cases "os_pc s = Op_children")
    case True
    then have locks: "num_locks ?blk = word_of_nat (2 ^ 31 + Suc k)" and "Suc k \<le> 2 ^ 30" using ok k by auto
    then have "release_lock ?blk c = ((if c then ?blk\<lparr>prereq_cancelled := True\<rparr> else ?blk)\<lparr>num_locks := word_of_nat (2 ^ 31 + k)\<rparr>,
        if k = 0 then Next_op_settle else Next_none)" by (intro release_child [OF co locks _ n]) simp
    with rel have blk: "blk = (if c then ?blk\<lparr>prereq_cancelled := True\<rparr> else ?blk)\<lparr>num_locks := word_of_nat (2 ^ 31 + k)\<rparr>"
      and nxt: "nxt = (if k = 0 then Next_op_settle else Next_none)" by auto
    have "pc_ok (after_release nxt (os_pc s)) blk (os_turns s) k"
      using ok k True by (simp add: blk nxt del: of_nat_add of_nat_Suc)
    then have "op_inv b ((set_block blk s)\<lparr>os_turns := os_turns s, os_children := k, os_pc := after_release nxt (os_pc s)\<rparr>)"
      by (intro op_inv_same_block [OF inv]) (use True in \<open>simp_all add: blk nxt\<close>)
    then show ?thesis by (simp add: set_block_def)
  next
    case False
    with pcs have pc: "os_pc s = Op_running \<or> os_pc s = Op_ended" by simp
    then have locks: "num_locks ?blk = word_of_nat (2 ^ 31 + Suc (Suc k))" and "Suc k \<le> 2 ^ 30" using ok k by auto
    then have "release_lock ?blk c = ((if c then ?blk\<lparr>prereq_cancelled := True\<rparr> else ?blk)\<lparr>num_locks := word_of_nat (2 ^ 31 + Suc k)\<rparr>,
        Next_none)" by (subst release_child [OF co locks _ n]) simp_all
    with rel have blk: "blk = (if c then ?blk\<lparr>prereq_cancelled := True\<rparr> else ?blk)\<lparr>num_locks := word_of_nat (2 ^ 31 + Suc k)\<rparr>"
      and nxt: "nxt = Next_none" by auto
    have "pc_ok (os_pc s) blk (os_turns s) k"
      using ok k pc by (elim disjE) (simp_all add: blk nxt del: of_nat_add of_nat_Suc)
    then have "op_inv b ((set_block blk s)\<lparr>os_turns := os_turns s, os_children := k, os_pc := os_pc s\<rparr>)"
      by (intro op_inv_same_block [OF inv]) (simp_all add: blk)
    then show ?thesis by (simp add: set_block_def nxt)
  qed
qed

lemma op_inv_body_end:
  assumes inv: "op_inv b s" and pc: "os_pc s = Op_running"
  shows "op_inv b (s\<lparr>os_op := op_body_result r (os_op s), os_value := r, os_pc := Op_ended\<rparr>)"
  using inv pc by (auto simp: op_inv_def links_ok_def life_ok_def op_wf_def op_body_result_def simp del: of_nat_add of_nat_Suc)

lemma op_inv_body_release:
  assumes inv: "op_inv b s" and pc: "os_pc s = Op_ended" and rel: "op_body_release (os_op s) = (op, fin)"
  shows "op_inv b (s\<lparr>os_op := op, os_pc := (if fin then Op_advancing 0 False else Op_children)\<rparr>)"
proof -
  let ?k = "os_children s"
  have locks: "num_locks (op_block (os_op s)) = word_of_nat (2 ^ 31 + Suc ?k)" and k: "?k \<le> 2 ^ 30" using inv pc by (auto simp: op_inv_def)
  have flag: "execution_flag + 1 = word_of_nat (2 ^ 31 + Suc 0)" by (simp add: execution_flag_def)
  have "num_locks (op_block (os_op s)) = execution_flag + 1 \<longleftrightarrow> ?k = 0"
    unfolding locks flag by (subst word_of_nat_eq_32) (use k in auto)
  moreover have "num_locks (op_block (os_op s)) - 1 = word_of_nat (2 ^ 31 + ?k)" using locks by simp
  ultimately have "op = (os_op s)\<lparr>op_block := (op_block (os_op s))\<lparr>num_locks := word_of_nat (2 ^ 31 + ?k)\<rparr>\<rparr>" "fin \<longleftrightarrow> ?k = 0"
    using rel by (auto simp: op_body_release_def)
  then show ?thesis using inv pc k
    by (auto simp: op_inv_def links_ok_def life_ok_def op_wf_def simp del: of_nat_add of_nat_Suc)
qed

lemma op_inv_advance:
  assumes inv: "op_inv b s" and pc: "os_pc s = Op_advancing i c" and i: "i < pipes_entered (op_block (os_op s))" and l: "links_of_op s ! i = l"
  shows "op_inv b (s\<lparr>os_pipes := (os_pipes s)(lk_pipe l := run_release (os_pipes s (lk_pipe l)) (Task_link l)), os_pc := Op_advancing (Suc i) c\<rparr>)"
proof -
  have n: "i < length (links_of_op s)" using inv pc i by (simp add: op_inv_def)
  then have d: "drop i (links_of_op s) = l # drop (Suc i) (links_of_op s)" using Cons_nth_drop_Suc [OF n] l by simp
  have can: "canonical_links b (links_of_op s)" using inv pc by (simp add: op_inv_def links_ok_def)
  have owner: "lk_owner l = b" using canonical_links_owner [OF can] n l by auto
  have "distinct (map lk_pipe (drop i (links_of_op s)))" using canonical_pipes_distinct [OF can] by (simp add: drop_map [symmetric])
  then have fresh: "lk_pipe l \<notin> lk_pipe ` set (drop (Suc i) (links_of_op s))" by (simp add: d)
  have "spans b (os_pipes s) (l # drop (Suc i) (links_of_op s)) (l # drop (Suc i) (links_of_op s))"
    using inv pc by (simp add: op_inv_def d)
  from spans_leave [OF this owner fresh] n show ?thesis using inv pc by (auto simp: op_inv_def life_ok_def)
qed

lemma op_inv_settle:
  assumes inv: "op_inv b s" and pc: "os_pc s = Op_advancing i c" and i: "i \<ge> pipes_entered (op_block (os_op s))"
    and st: "op_settle c (os_op s) = (op, conts)"
  shows "op_inv b (s\<lparr>os_op := op\<lparr>op_settled_sync := op_settle_sync op\<rparr>, os_pc := Op_idle\<rparr>)"
proof -
  have "drop i (links_of_op s) = []" using inv pc i by (simp add: op_inv_def)
  then show ?thesis using inv pc st
    by (auto simp: op_inv_def life_ok_def op_settle_def Let_def op_wf_def split: if_splits)
qed

lemma op_inv_attach:
  assumes inv: "op_inv b s" and at: "attach (op_block (os_op s)) c = (blk, fired)"
  shows "op_inv b (set_block blk s)"
proof -
  let ?blk = "op_block (os_op s)"
  have blk: "blk = ?blk\<lparr>continuations := continuations blk\<rparr>" using at by (auto simp: attach_def split: if_splits)
  have "pc_ok (os_pc s) (?blk\<lparr>continuations := continuations blk\<rparr>) (os_turns s) (os_children s)"
    using inv by (cases "os_pc s") (simp_all add: op_inv_def)
  then have "pc_ok (os_pc s) blk (os_turns s) (os_children s)" by (subst blk)
  then have "op_inv b ((set_block blk s)\<lparr>os_turns := os_turns s, os_children := os_children s, os_pc := os_pc s\<rparr>)"
    by (intro op_inv_same_block [OF inv]) (use at in \<open>auto simp: attach_def split: if_splits\<close>)
  then show ?thesis by (simp add: set_block_def)
qed

lemma op_inv_consume:
  assumes inv: "op_inv b s" and "ready (op_block (os_op s))" and "\<not> op_consumed (os_op s)"
  shows "op_inv b (s\<lparr>os_op := (os_op s)\<lparr>op_consumed := True\<rparr>, os_taken := Suc (os_taken s)\<rparr>)"
  using assms by (auto simp: op_inv_def links_ok_def life_ok_def op_wf_def)

text \<open>Whenever the destructor gets past its wait, the op is at rest.\<close>

lemma destroy_resting:
  assumes inv: "op_inv b s" and "op_destroy ctx f (os_op s) = Inr w" and "w \<noteq> None \<longrightarrow> ready (op_block (os_op s))"
  shows "resting (os_pc s)"
proof (rule ccontr)
  assume "\<not> resting (os_pc s)"
  then have "op_started (os_op s)" "\<not> ready (op_block (os_op s))" "\<not> op_settled_sync (os_op s)"
    using inv by (auto simp: op_inv_def life_ok_def)
  with assms(2,3) show False by (auto simp: op_destroy_def split: if_splits)
qed

lemma op_inv_destroy:
  assumes inv: "op_inv b s" and "resting (os_pc s)"
  shows "op_inv b (s\<lparr>os_pc := Op_gone\<rparr>)"
  using assms by (cases "os_pc s") (auto simp: op_inv_def life_ok_def)

lemma op_inv_step: "op_step b s t \<Longrightarrow> op_inv b s \<Longrightarrow> op_inv b t"
proof (induction rule: op_step.induct)
  case (os_take s op v)
  then have "op = (os_op s)\<lparr>op_consumed := True\<rparr>" "\<not> op_consumed (os_op s)" by (auto simp: op_take_def split: if_splits)
  with os_take show ?case using op_inv_consume by simp
next
  case (os_try_take s op v)
  then have "op = (os_op s)\<lparr>op_consumed := True\<rparr>" "\<not> op_consumed (os_op s)" "ready (op_block (os_op s))"
    by (auto simp: op_try_take_def split: if_splits)
  with os_try_take show ?case using op_inv_consume by simp
next
  case (os_destroy ctx f s w)
  then show ?case by (intro op_inv_destroy destroy_resting)
qed ((blast intro: op_inv_other_enter op_inv_other_release op_inv_bind op_inv_start op_inv_probe op_inv_lend op_inv_reprobe
    op_inv_enter op_inv_turn op_inv_turn_release op_inv_cancel op_inv_run op_inv_child op_inv_child_done op_inv_body_end
    op_inv_body_release op_inv_advance op_inv_settle op_inv_attach)+)

lemma op_inv_reach: "op_reach b s \<Longrightarrow> op_inv b s"
proof (induction rule: op_reach.induct)
  case (or_unbound modes ranks)
  then show ?case by (intro op_inv_new op_wf_new) (simp_all add: op_new_def make_bare_block_def)
next
  case (or_dormant modes tgs ranks pri queued op)
  from op_make_facts [OF this] show ?case by (intro op_inv_new) auto
next
  case (or_step s t)
  then show ?case by (blast intro: op_inv_step)
qed

section \<open>Properties of an attended access\<close>

lemma holder_exclusive:
  assumes "run_inv P" and "h \<in># run_holders P"
  shows "if en_mode h = Read_write then run_holders P = {#h#} else (\<forall>e \<in># run_holders P. en_mode e = Read_only)"
  using run_inv_pipe [OF assms(1)] assms(2)
  by (cases "en_mode h") (auto simp: pipe_inv_def grants_ok_def is_read_def split: if_splits)

lemma access_op_runs:
  assumes "op_inv b s" and "os_pc s = Op_dispatched"
  shows "\<exists>r. op_run token (os_op s) = Inr r"
  using assms by (auto simp: op_inv_def life_ok_def op_run_def claim_def)

lemma waiting_blocked:
  assumes inv: "op_inv b s" and pc: "os_pc s = Op_waiting i"
    and waits: "Task_link (links_of_op s ! i) \<notin># run_holders (os_pipes s (lk_pipe (links_of_op s ! i)))"
  shows "\<exists>h. h \<in># run_holders (os_pipes s (lk_pipe (links_of_op s ! i))) \<and> \<not> own b h"
proof -
  let ?ls = "links_of_op s" and ?l = "links_of_op s ! i"
  let ?P = "os_pipes s (lk_pipe ?l)"
  have i: "i < length ?ls" and can: "canonical_links b ?ls" and ri: "run_inv ?P"
    and fil: "filter_mset (own b) (inside ?P) = mset (map Task_link (filter (\<lambda>k. lk_pipe k = lk_pipe ?l) (take (Suc i) ?ls)))"
    using inv pc by (auto simp: op_inv_def links_ok_def spans_def)
  have "distinct (map lk_pipe (take (Suc i) ?ls))" using canonical_pipes_distinct [OF can] by (simp add: take_map [symmetric])
  then have "filter (\<lambda>k. lk_pipe k = lk_pipe ?l) (take (Suc i) ?ls) = [?l]"
    by (rule filter_pipe_single) (simp add: i take_Suc_conv_app_nth)
  with fil have one: "filter_mset (own b) (inside ?P) = {#Task_link ?l#}" by simp
  have only: "x = Task_link ?l" if "x \<in># inside ?P" "own b x" for x
  proof -
    have "x \<in># filter_mset (own b) (inside ?P)" using that by simp
    then show ?thesis unfolding one by simp
  qed
  have "Task_link ?l \<in># inside ?P" using one by (metis filter_mset_eq_conv in_diffD mset_subset_eqD multiset_filter_subset union_single_eq_member)
  then have "pp_queue (run_pipe ?P) \<noteq> []" using waits by (auto simp: inside_def)
  then have "run_holders ?P \<noteq> {#}"
    using run_inv_pipe [OF ri] grants_ok_blocked_held
    by (cases "pp_queue (run_pipe ?P)") (auto simp: pipe_inv_def head_blocked_def)
  then obtain h where h: "h \<in># run_holders ?P" by blast
  then have "\<not> own b h" using only [of h] waits by (auto simp: inside_def)
  with h show ?thesis by blast
qed

lemma op_moveI:
  "op_step b s t \<Longrightarrow> os_pc t \<noteq> os_pc s \<or> os_turns t < os_turns s \<Longrightarrow>
     \<exists>t. op_step b s t \<and> (os_pc t \<noteq> os_pc s \<or> os_turns t < os_turns s)"
  by blast

text \<open>
  (C12) The body runs under all of its grants. From the moment the body starts until its last nested child has
  settled, every object the op declared is covered: the calling task lent it at the firing, or the op's own link
  holds the object's pipe in the declared mode, alone when it writes and beside readers only when it reads, whatever the
  other users of the pipes do.
\<close>

theorem access_op_body_covered:
  assumes "op_reach b s" and "os_pc s \<in> {Op_running, Op_ended, Op_children}" and "k < length (op_modes (os_op s))" and "k \<notin> os_lent s"
  shows "\<exists>l. lk_owner l = b \<and> lk_mode l = op_modes (os_op s) ! k
    \<and> Task_link l \<in># run_holders (os_pipes s (op_epochs (os_op s) ! k))
    \<and> (if op_modes (os_op s) ! k = Read_write then run_holders (os_pipes s (op_epochs (os_op s) ! k)) = {#Task_link l#}
       else (\<forall>e \<in># run_holders (os_pipes s (op_epochs (os_op s) ! k)). en_mode e = Read_only))"
proof -
  note inv = op_inv_reach [OF assms(1)]
  have lk: "links_ok b (os_op s) (os_lent s)" and sp: "spans b (os_pipes s) (links_of_op s) (links_of_op s)"
    using inv assms(2) by (auto simp: op_inv_def)
  from lk assms(3,4) obtain l where l: "l \<in> set (links_of_op s)" "lk_pipe l = op_epochs (os_op s) ! k" "lk_mode l = op_modes (os_op s) ! k"
    by (auto simp: links_ok_def)
  have "lk_owner l = b" using lk l(1) by (auto simp: links_ok_def intro: canonical_links_owner)
  moreover have "Task_link l \<in># run_holders (os_pipes s (lk_pipe l))" "run_inv (os_pipes s (lk_pipe l))"
    using sp l(1) by (auto simp: spans_def)
  ultimately show ?thesis using holder_exclusive [of "os_pipes s (lk_pipe l)" "Task_link l"] l(2,3) by (metis en_mode.simps(1))
qed

text \<open>
  (C14) A settled op leaves nothing behind. Whenever the op is at rest, and in particular whenever its destructor gets
  past its wait, none of its links is in any pipe, as a holder or in a queue, no turn and no nested child still refers to
  its block, and a fired op has settled.
\<close>

theorem access_op_destroy_safe:
  assumes "op_reach b s" and "op_destroy ctx f (os_op s) = Inr w" and "w \<noteq> None \<longrightarrow> ready (op_block (os_op s))"
  shows "(\<forall>e \<in># inside (os_pipes s p). \<not> own b e) \<and> os_turns s = 0 \<and> os_children s = 0
    \<and> (op_started (os_op s) \<longrightarrow> ready (op_block (os_op s)))"
proof -
  note inv = op_inv_reach [OF assms(1)]
  have rest: "resting (os_pc s)" by (rule destroy_resting [OF inv assms(2,3)])
  then have "filter_mset (own b) (inside (os_pipes s p)) = {#}" "os_turns s = 0" "os_children s = 0"
    using inv by (cases "os_pc s"; auto simp: op_inv_def spans_def)+
  moreover from this(1) have "\<forall>e \<in># inside (os_pipes s p). \<not> own b e"
    by (metis (mono_tags, lifting) empty_iff mem_Collect_eq set_mset_empty set_mset_filter)
  ultimately show ?thesis using inv rest by (auto simp: op_inv_def life_ok_def)
qed

text \<open>
  A firing executes once and its result is handed out at most once. The body is claimed without a fault, it is run
  or skipped exactly once per firing, at most one value leaves the op per firing, and a value that \<^verbatim>\<open>take\<close> returns
  after the op settled is what this firing's body returned.
\<close>

theorem access_op_consumed_once:
  assumes "op_reach b s"
  shows "os_bodies s \<le> 1 \<and> os_taken s \<le> 1
    \<and> (os_pc s = Op_dispatched \<longrightarrow> (\<exists>r. op_run token (os_op s) = Inr r))
    \<and> (ready (op_block (os_op s)) \<longrightarrow> os_bodies s = 1)
    \<and> (\<forall>op v. ready (op_block (os_op s)) \<longrightarrow> op_take (os_op s) = Inr (op, v) \<longrightarrow> os_taken s = 0
         \<and> (\<forall>r. os_value s = Some r \<longrightarrow> v = r))"
proof -
  note inv = op_inv_reach [OF assms]
  have run: "\<exists>r. op_run token (os_op s) = Inr r" if "os_pc s = Op_dispatched"
    using inv that by (auto simp: op_inv_def life_ok_def op_run_def claim_def)
  have rest: "resting (os_pc s)" "op_started (os_op s)" if "ready (op_block (os_op s))"
    using inv that by (auto simp: op_inv_def life_ok_def)
  have "os_bodies s \<le> 1"
    using inv by (cases "os_pc s"; cases "op_started (os_op s)") (auto simp: op_inv_def life_ok_def)
  moreover have "os_taken s \<le> 1" using inv by (auto simp: op_inv_def life_ok_def)
  moreover have "os_bodies s = 1 \<and> (\<forall>op v. op_take (os_op s) = Inr (op, v) \<longrightarrow> os_taken s = 0 \<and> (\<forall>r. os_value s = Some r \<longrightarrow> v = r))"
    if "ready (op_block (os_op s))"
    using inv rest [OF that] that by (auto simp: op_inv_def life_ok_def op_take_def split: if_splits)
  ultimately show ?thesis using run by blast
qed


lemma firing_moves:
  assumes inv: "op_inv b s" and pcs: "os_pc s \<in> {Op_probe, Op_lend, Op_reprobe, Op_cascaded} \<union> range Op_entering"
  shows "\<exists>t. op_step b s t \<and> (os_pc t \<noteq> os_pc s \<or> os_turns t < os_turns s)"
proof (cases "os_pc s")
  case Op_probe
  obtain op where bl: "op_bind_links (\<lambda>_. 0) None False b (os_op s) = Inr op"
    by (auto simp: op_bind_links_def link_slots_spec lend_refused_def Let_def)
  show ?thesis by (rule op_moveI [OF os_probe [OF Op_probe bl]]) (simp add: Op_probe fire_probe_def split: option.split)
next
  case Op_lend
  obtain op where bl: "op_bind_links (\<lambda>_. 0) None True b (os_op s) = Inr op"
    by (auto simp: op_bind_links_def link_slots_spec lend_refused_def Let_def)
  show ?thesis by (rule op_moveI [OF os_lend [OF Op_lend bl refl]]) (simp add: Op_lend fire_lent_def)
next
  case Op_reprobe
  show ?thesis by (rule op_moveI [OF os_reprobe [OF Op_reprobe]]) (simp add: Op_reprobe fire_probe_def split: option.split)
next
  case (Op_entering i)
  show ?thesis by (rule op_moveI [OF os_enter [OF Op_entering refl]]) (simp add: Op_entering)
next
  case Op_cascaded
  then obtain k where k: "os_turns s = Suc k" using inv by (cases "os_turns s") (auto simp: op_inv_def)
  obtain blk nxt where rl: "release_lock (op_block (os_op s)) False = (blk, nxt)" by (metis surj_pair)
  show ?thesis by (rule op_moveI [OF os_turn_release [OF k rl]]) (simp add: k)
qed (use pcs in auto)

lemma running_moves:
  assumes inv: "op_inv b s" and pcs: "early (os_pc s) = (os_pc s = Op_dispatched)" and "\<not> resting (os_pc s)" "os_pc s \<noteq> Op_children"
  shows "\<exists>t. op_step b s t \<and> (os_pc t \<noteq> os_pc s \<or> os_turns t < os_turns s)"
proof (cases "os_pc s")
  case Op_dispatched
  from access_op_runs [OF inv Op_dispatched, of False] obtain r where r: "op_run False (os_op s) = Inr r" by blast
  show ?thesis
  proof (cases r)
    case (Op_cancel op)
    show ?thesis by (rule op_moveI [OF os_cancel [OF Op_dispatched r [unfolded Op_cancel]]]) (simp add: Op_dispatched)
  next
    case (Op_body op)
    show ?thesis by (rule op_moveI [OF os_run [OF Op_dispatched r [unfolded Op_body]]]) (simp add: Op_dispatched)
  qed
next
  case Op_running
  show ?thesis by (rule op_moveI [OF os_body_end [OF Op_running]]) (simp add: Op_running)
next
  case Op_ended
  obtain op fin where rl: "op_body_release (os_op s) = (op, fin)" by (metis surj_pair)
  show ?thesis by (rule op_moveI [OF os_body_release [OF Op_ended rl]]) (simp add: Op_ended)
next
  case (Op_advancing i c)
  show ?thesis
  proof (cases "i < pipes_entered (op_block (os_op s))")
    case True
    show ?thesis by (rule op_moveI [OF os_advance [OF Op_advancing True refl]]) (simp add: Op_advancing)
  next
    case False
    obtain op conts where st: "op_settle c (os_op s) = (op, conts)" by (metis surj_pair)
    have ge: "i \<ge> pipes_entered (op_block (os_op s))" using False by simp
    show ?thesis by (rule op_moveI [OF os_settle [OF Op_advancing ge st]]) (simp add: Op_advancing)
  qed
qed (use pcs assms(3,4) in auto)

text \<open>
  (C13) An access is never stuck on its own. A firing that has not settled can make its next move, unless it waits for a
  turn in a pipe that somebody else holds, or its body has returned and nested children are outstanding.
\<close>

theorem access_op_never_stuck:
  assumes "op_reach b s" and "\<not> resting (os_pc s)"
  shows "(\<exists>t. op_step b s t \<and> (os_pc t \<noteq> os_pc s \<or> os_turns t < os_turns s))
    \<or> (\<exists>i h. os_pc s = Op_waiting i \<and> h \<in># run_holders (os_pipes s (lk_pipe (links_of_op s ! i))) \<and> \<not> own b h)
    \<or> (os_pc s = Op_children \<and> os_children s > 0)"
proof (cases "os_pc s")
  case (Op_waiting i)
  let ?l = "links_of_op s ! i"
  show ?thesis
  proof (cases "Task_link ?l \<in># run_holders (os_pipes s (lk_pipe ?l))")
    case True
    have "\<exists>t. op_step b s t \<and> (os_pc t \<noteq> os_pc s \<or> os_turns t < os_turns s)"
      by (rule op_moveI [OF os_turn [OF Op_waiting refl True]]) (simp add: Op_waiting)
    then show ?thesis by blast
  next
    case False
    then show ?thesis using waiting_blocked [OF op_inv_reach [OF assms(1)] Op_waiting False] Op_waiting by blast
  qed
next
  case Op_children
  then show ?thesis using op_inv_reach [OF assms(1)] by (simp add: op_inv_def)
qed (use firing_moves [OF op_inv_reach [OF assms(1)]] running_moves [OF op_inv_reach [OF assms(1)]] assms(2) in auto)


section \<open>A concrete firing\<close>

text \<open>The op of \<open>op_demo\<close> is fired with both pipes free, so it runs inline.\<close>

definition op_run_start_demo :: op_sys where
  "op_run_start_demo = op_sys_new (\<lambda>_. 1) op_demo"

definition op_run_fired :: op_sys where
  "op_run_fired = op_run_start_demo\<lparr>os_op := projr (op_start op_demo), os_pc := Op_probe\<rparr>"

definition op_run_bound :: access_op where
  "op_run_bound = projr (op_bind_links (\<lambda>_. 0) None False 5 (os_op op_run_fired))"

definition op_run_admitted :: op_sys where
  "op_run_admitted = fire_probe (seed_locks op_run_bound) Op_lend op_run_fired"

definition op_run_body_demo :: op_sys where
  "op_run_body_demo = op_run_admitted\<lparr>os_op := (case projr (op_run False (os_op op_run_admitted)) of Op_body op \<Rightarrow> op | Op_cancel op \<Rightarrow> op),
     os_bodies := 1, os_pc := Op_running\<rparr>"

lemma op_run_start_reach: "op_reach 5 op_run_start_demo"
  unfolding op_run_start_demo_def
  by (rule or_dormant [OF _ _ op_demo_make]) (simp_all add: max_entries_def op_demo_targets_def)

lemma op_run_fired_reach: "op_reach 5 op_run_fired"
proof -
  have st: "op_start (os_op op_run_start_demo) = Inr (projr (op_start op_demo))"
    "op_queued (projr (op_start op_demo)) = False" "os_pc op_run_start_demo \<noteq> Op_gone" by code_simp+
  from or_step [OF op_run_start_reach os_start [OF st(3,1)]] show ?thesis
    by (simp add: st(2) op_run_fired_def op_run_start_demo_def op_sys_new_def)
qed

lemma op_run_admitted_reach: "op_reach 5 op_run_admitted"
proof -
  have pc: "os_pc op_run_fired = Op_probe" by (simp add: op_run_fired_def)
  have "op_bind_links (\<lambda>_. 0) None False 5 (os_op op_run_fired) = Inr op_run_bound" by code_simp
  from or_step [OF op_run_fired_reach os_probe [OF pc this]] show ?thesis unfolding op_run_admitted_def .
qed

lemma op_run_body_reach: "op_reach 5 op_run_body_demo"
proof -
  have pc: "os_pc op_run_admitted = Op_dispatched" "os_bodies op_run_admitted = 0" by code_simp+
  have "op_run False (os_op op_run_admitted) = Inr (Op_body (os_op op_run_body_demo))" by code_simp
  from or_step [OF op_run_admitted_reach os_run [OF pc(1) this]] show ?thesis
    by (simp add: pc op_run_body_demo_def)
qed

theorem access_op_body_covered_witness:
  "\<exists>l. lk_owner l = 5 \<and> run_holders (os_pipes op_run_body_demo 9) = {#Task_link l#}"
proof -
  have "os_pc op_run_body_demo \<in> {Op_running, Op_ended, Op_children}" by (simp add: op_run_body_demo_def)
  moreover have "op_modes (os_op op_run_body_demo) = [Read_write, Read_only]" "op_epochs (os_op op_run_body_demo) = [9, 4]" by code_simp+
  moreover have "0 \<notin> os_lent op_run_body_demo" by code_simp
  ultimately show ?thesis using access_op_body_covered [OF op_run_body_reach, of 0] by auto
qed

theorem access_op_destroy_safe_witness:
  "filter_mset (own 5) (inside (os_pipes op_run_start_demo 9)) = {#} \<and> os_turns op_run_start_demo = 0"
proof -
  have "op_destroy None False (os_op op_run_start_demo) = Inr None" by code_simp
  then show ?thesis using access_op_destroy_safe [OF op_run_start_reach, of None False None 9]
    by simp
qed

theorem access_op_consumed_once_witness:
  "\<exists>r. op_run False (os_op op_run_admitted) = Inr r"
proof -
  have "os_pc op_run_admitted = Op_dispatched" by code_simp
  then show ?thesis using access_op_consumed_once [OF op_run_admitted_reach, of False] by blast
qed

theorem access_op_never_stuck_witness:
  "\<exists>t. op_step 5 op_run_body_demo t \<and> (os_pc t \<noteq> Op_running \<or> os_turns t < os_turns op_run_body_demo)"
proof -
  have pc: "os_pc op_run_body_demo = Op_running" by (simp add: op_run_body_demo_def)
  then show ?thesis using access_op_never_stuck [OF op_run_body_reach] by simp
qed

end
