(* ===== verification/Coroutine.thy ===== *)
theory Coroutine
  imports Rules Circular_Wait Task_Block
begin

text \<open>
  Coroutine support (include/ts/coroutine_support.h): the promise fused with the control block, the bracket around each
  segment of a body, the rules checked at every \<^verbatim>\<open>co_await\<close>, the guards a coroutine holds and the ways an await yields
  its result. The frame the compiler generates is not modelled; a body is the sequence of operations it performs. The
  thread-local slots the code swaps are one record per thread.
\<close>

section \<open>State\<close>

text \<open>The thread-local slots: \<^verbatim>\<open>Current_task\<close>, \<^verbatim>\<open>Scope_children\<close> (whose list is installed) and \<^verbatim>\<open>current_access\<close>.\<close>

record ambient =
  am_task :: "block_id option"
  am_scope :: "block_id option"
  am_access :: "access_context option"

record coro =
  co_block :: tcb
  co_guard_depth :: "8 word"
  co_access :: "access_context option"
  co_prev_task :: "block_id option"
  co_prev_scope :: "block_id option"
  co_relaxed :: relaxed_carrier

text \<open>Every block by address; one that is not a coroutine's (\<^verbatim>\<open>flags.coroutine\<close> unset) has no use for the other fields.\<close>

record coro_env =
  ce_frames :: "block_id \<Rightarrow> coro"
  ce_threads :: "nat \<Rightarrow> ambient"
  ce_relax :: relaxation

definition set_frame :: "block_id \<Rightarrow> (coro \<Rightarrow> coro) \<Rightarrow> coro_env \<Rightarrow> coro_env" where
  "set_frame k f s = s\<lparr>ce_frames := (ce_frames s)(k := f (ce_frames s k))\<rparr>"

definition set_ambient :: "nat \<Rightarrow> (ambient \<Rightarrow> ambient) \<Rightarrow> coro_env \<Rightarrow> coro_env" where
  "set_ambient t f s = s\<lparr>ce_threads := (ce_threads s)(t := f (ce_threads s t))\<rparr>"

text \<open>\<^verbatim>\<open>Coroutine_block\<close>: the priority comes from the task that created the frame.\<close>

definition coroutine_block_new :: "tcb option \<Rightarrow> tcb" where
  "coroutine_block_new creator =
     make_bare_block\<lparr>flags := default_flags\<lparr>fl_coroutine := True,
       fl_priority := (case creator of Some b \<Rightarrow> fl_priority (flags b) | None \<Rightarrow> fl_priority default_flags)\<rparr>\<rparr>"

section \<open>Segments\<close>

text \<open>
  \<^verbatim>\<open>enter_segment\<close> and \<^verbatim>\<open>exit_segment\<close>. The slot \<^verbatim>\<open>Current_task\<close> owns a reference to the frame's block while the
  segment runs.
\<close>

definition enter_segment :: "block_id \<Rightarrow> nat \<Rightarrow> coro_env \<Rightarrow> coro_env" where
  "enter_segment self t s =
     (let a = ce_threads s t;
          (rc, x) = carrier_enter t (co_relaxed (ce_frames s self)) (ce_relax s)
      in set_ambient t (\<lambda>a. a\<lparr>am_task := Some self, am_scope := Some self\<rparr>)
           (set_frame self (\<lambda>c. c\<lparr>co_block := intrusive_inc (co_block c), co_prev_task := am_task a, co_prev_scope := am_scope a,
                co_relaxed := rc\<rparr>) (s\<lparr>ce_relax := x\<rparr>)))"

definition exit_segment :: "block_id \<Rightarrow> nat \<Rightarrow> coro_env \<Rightarrow> coro_env" where
  "exit_segment self t s =
     (let c = ce_frames s self;
          (rc, x) = carrier_exit t (co_relaxed c) (ce_relax s)
      in set_ambient t (\<lambda>a. a\<lparr>am_task := co_prev_task c, am_scope := co_prev_scope c\<rparr>)
           (set_frame self (\<lambda>c. c\<lparr>co_block := fst (intrusive_dec (co_block c)), co_prev_task := None, co_relaxed := rc\<rparr>)
             (s\<lparr>ce_relax := x\<rparr>)))"

text \<open>\<^verbatim>\<open>Promise_base\<close>'s constructor, on thread \<open>t\<close>: the body's first segment starts at once.\<close>

definition promise_new :: "block_id \<Rightarrow> nat \<Rightarrow> coro_env \<Rightarrow> coro_env" where
  "promise_new self t s =
     (let a = ce_threads s t;
          blk = coroutine_block_new (map_option (\<lambda>k. co_block (ce_frames s k)) (am_task a))
      in enter_segment self t
           (set_frame self (\<lambda>_. \<lparr>co_block = blk\<lparr>refcount := 1, num_locks := execution_flag + 1\<rparr>, co_guard_depth = 0,
              co_access = am_access a, co_prev_task = None, co_prev_scope = None, co_relaxed = carrier_new t (ce_relax s)\<rparr>) s))"

text \<open>
  \<^verbatim>\<open>resume_with_access\<close> around \<^verbatim>\<open>h.resume()\<close>: the part before it returns what the scope on the resuming thread's stack
  saved, the part after it restores that.
\<close>

definition resume_begin :: "block_id \<Rightarrow> nat \<Rightarrow> coro_env \<Rightarrow> coro_env \<times> access_context option" where
  "resume_begin self t s =
     (let s1 = enter_segment self t s;
          (a, saved) = inherited_scope_enter (am_access (ce_threads s1 t)) (co_access (ce_frames s1 self))
      in (set_ambient t (\<lambda>m. m\<lparr>am_access := a\<rparr>) s1, saved))"

definition resume_end :: "nat \<Rightarrow> access_context option \<Rightarrow> access_context option \<Rightarrow> coro_env \<Rightarrow> coro_env" where
  "resume_end t inherited saved s =
     set_ambient t (\<lambda>m. m\<lparr>am_access := inherited_scope_exit (am_access m) inherited saved\<rparr>) s"

text \<open>\<^verbatim>\<open>return_value\<close> and \<^verbatim>\<open>Final_awaiter::await_suspend\<close>; the flag says the frame is destroyed here.\<close>

definition return_value :: "block_id \<Rightarrow> nat option \<Rightarrow> coro_env \<Rightarrow> coro_env" where
  "return_value self r s =
     (case r of None \<Rightarrow> s | Some v \<Rightarrow> set_frame self (\<lambda>c. c\<lparr>co_block := (co_block c)\<lparr>result_ptr := Some v\<rparr>\<rparr>) s)"

definition final_suspend :: "block_id \<Rightarrow> nat \<Rightarrow> coro_env \<Rightarrow> (coro_env \<times> settle_effects \<times> bool) result" where
  "final_suspend self t s =
     (let s1 = exit_segment self t s;
          c = co_block (ce_frames s1 self);
          c1 = c\<lparr>num_locks := num_locks c - 1\<rparr>
      in case (if num_locks c = execution_flag + 1 then settle c1 False else Inr (c1, no_effects)) of
           Inl e \<Rightarrow> Inl e
         | Inr (c2, eff) \<Rightarrow> (case intrusive_dec c2 of (c3, dead) \<Rightarrow>
             Inr (set_frame self (\<lambda>k. k\<lparr>co_block := c3\<rparr>) s1, eff, dead)))"

section \<open>The rules of an await\<close>

definition current_coroutine_block :: "nat \<Rightarrow> coro_env \<Rightarrow> block_id option" where
  "current_coroutine_block t s =
     (case am_task (ce_threads s t) of
        None \<Rightarrow> None
      | Some k \<Rightarrow> if fl_coroutine (flags (co_block (ce_frames s k))) then Some k else None)"

text \<open>A build without the rule has no counter.\<close>

definition current_guard_depth :: "build \<Rightarrow> nat \<Rightarrow> coro_env \<Rightarrow> 8 word" where
  "current_guard_depth b t s =
     (if \<not> rule_compiled_in b await_under_guard then 0
      else case current_coroutine_block t s of None \<Rightarrow> 0 | Some k \<Rightarrow> co_guard_depth (ce_frames s k))"

definition guard_depth_add :: "build \<Rightarrow> nat \<Rightarrow> 8 word \<Rightarrow> coro_env \<Rightarrow> coro_env result" where
  "guard_depth_add b t delta s =
     (if \<not> rule_compiled_in b await_under_guard then Inr s
      else case current_coroutine_block t s of
        None \<Rightarrow> Inl Guard_outside_coroutine
      | Some k \<Rightarrow> Inr (set_frame k (\<lambda>c. c\<lparr>co_guard_depth := co_guard_depth c + delta\<rparr>) s))"

definition check_await_under_guard :: "build \<Rightarrow> nat \<Rightarrow> coro_env \<Rightarrow> unit result" where
  "check_await_under_guard b t s =
     (if rule_compiled_in b await_under_guard \<and> current_guard_depth b t s > 0 \<and> rule_enforced b t (ce_relax s) await_under_guard
      then Inl Await_under_guard else Inr ())"

definition reentrant_under_held_grant :: "(pipe_id \<Rightarrow> pipe) \<Rightarrow> block_id option \<Rightarrow> tcb \<Rightarrow> bool" where
  "reentrant_under_held_grant pipes running blk \<longleftrightarrow>
     fl_all_lent (flags blk)
     \<or> (pipe_links blk \<noteq> [] \<and> list_all (\<lambda>l. writer_owner (pipes (lk_pipe l)) = running) (pipe_links blk))"

text \<open>\<^verbatim>\<open>check_access_rank\<close>, for one pipe (with the awaited instance where the caller knows it) and for an awaited block.\<close>

definition check_access_rank ::
  "build \<Rightarrow> nat \<Rightarrow> relaxation \<Rightarrow> epoch_store \<Rightarrow> access_context option \<Rightarrow> (pipe_id \<Rightarrow> nat) \<Rightarrow> pipe_id option \<Rightarrow> addr option \<Rightarrow> unit result"
where
  "check_access_rank b t x epochs cur ranks p inst =
     (case (p, cur) of
        (Some p, Some ctx) \<Rightarrow>
          if \<not> rule_enforced b t x access_rank then Inr ()
          else if (case inst of None \<Rightarrow> False | Some i \<Rightarrow> ctx_check epochs ctx i Read_only \<noteq> Grant_none) then Inr ()
          else (let held = ctx_rank_state epochs ctx in
            if rs_held held = 0 then Inr ()
            else if rs_any_unranked held \<or> ranks p = 0 \<or> ranks p \<le> rs_max held then Inl Rank_violation else Inr ())
      | _ \<Rightarrow> Inr ())"

fun check_access_ranks ::
  "build \<Rightarrow> nat \<Rightarrow> relaxation \<Rightarrow> epoch_store \<Rightarrow> access_context option \<Rightarrow> (pipe_id \<Rightarrow> nat) \<Rightarrow> pipe_id option list \<Rightarrow> unit result"
where
  "check_access_ranks b t x epochs cur ranks [] = Inr ()"
| "check_access_ranks b t x epochs cur ranks (p # ps) =
     (case check_access_rank b t x epochs cur ranks p None of
        Inl e \<Rightarrow> Inl e | Inr _ \<Rightarrow> check_access_ranks b t x epochs cur ranks ps)"

text \<open>\<^verbatim>\<open>Task_awaiter::await_ready\<close> and \<^verbatim>\<open>Access_awaiter::await_ready\<close>, which is never ready.\<close>

definition task_await_ready ::
  "build \<Rightarrow> nat \<Rightarrow> (pipe_id \<Rightarrow> pipe) \<Rightarrow> tcb \<Rightarrow> coro_env \<Rightarrow> bool result" where
  "task_await_ready b t pipes core s =
     (let a = ce_threads s t;
          checked = (if reentrant_under_held_grant pipes (am_task a) core then Inr ()
            else case check_await_under_guard b t s of
                Inl e \<Rightarrow> Inl e
              | Inr _ \<Rightarrow> check_access_ranks b t (ce_relax s) (write_epoch \<circ> pipes) (am_access a) (pp_rank \<circ> pipes)
                  (map (Some \<circ> lk_pipe) (pipe_links core)))
      in case checked of Inl e \<Rightarrow> Inl e | Inr _ \<Rightarrow> Inr (ready core))"

definition access_await_ready ::
  "build \<Rightarrow> nat \<Rightarrow> (pipe_id \<Rightarrow> pipe) \<Rightarrow> pipe_id \<Rightarrow> addr \<Rightarrow> coro_env \<Rightarrow> bool result" where
  "access_await_ready b t pipes p inst s =
     (case check_await_under_guard b t s of
        Inl e \<Rightarrow> Inl e
      | Inr _ \<Rightarrow> (case check_access_rank b t (ce_relax s) (write_epoch \<circ> pipes) (am_access (ce_threads s t)) (pp_rank \<circ> pipes)
            (Some p) (Some inst) of
          Inl e \<Rightarrow> Inl e | Inr _ \<Rightarrow> Inr False))"

text \<open>\<^verbatim>\<open>Multi_access_awaiter::await_ready\<close>: the same checks for every object of the set.\<close>

definition multi_await_ready ::
  "build \<Rightarrow> nat \<Rightarrow> (pipe_id \<Rightarrow> pipe) \<Rightarrow> pipe_id list \<Rightarrow> coro_env \<Rightarrow> bool result" where
  "multi_await_ready b t pipes ps s =
     (case check_await_under_guard b t s of
        Inl e \<Rightarrow> Inl e
      | Inr _ \<Rightarrow> (case check_access_ranks b t (ce_relax s) (write_epoch \<circ> pipes) (am_access (ce_threads s t)) (pp_rank \<circ> pipes)
            (map Some ps) of
          Inl e \<Rightarrow> Inl e | Inr _ \<Rightarrow> Inr False))"

section \<open>Guards\<close>

text \<open>
  \<^verbatim>\<open>Access_guard\<close> and \<^verbatim>\<open>Multi_access_guard\<close>: the constructor adopts pipes the awaiter has acquired (each with its object),
  extends the installed context and installs the result; the destructor restores and names the pipes to release.
\<close>

record guard =
  gd_objs :: "(addr \<times> pipe_id) list"
  gd_mode :: access
  gd_prev :: "access_context option"

fun add_all :: "(pipe_id \<Rightarrow> pipe) \<Rightarrow> access \<Rightarrow> (addr \<times> pipe_id) list \<Rightarrow> access_context \<Rightarrow> access_context result" where
  "add_all pipes m [] ctx = Inr ctx"
| "add_all pipes m ((obj, p) # ops) ctx =
     (case ctx_add (write_epoch \<circ> pipes) ctx obj m (Some p) (pp_rank (pipes p)) of
        Inl e \<Rightarrow> Inl e | Inr ctx' \<Rightarrow> add_all pipes m ops ctx')"

definition guard_new ::
  "build \<Rightarrow> nat \<Rightarrow> (pipe_id \<Rightarrow> pipe) \<Rightarrow> access \<Rightarrow> (addr \<times> pipe_id) list \<Rightarrow> coro_env \<Rightarrow> (coro_env \<times> guard) result" where
  "guard_new b t pipes m objs s =
     (let cur = am_access (ce_threads s t) in
      case add_all pipes m objs (case cur of None \<Rightarrow> [] | Some c \<Rightarrow> c) of
        Inl e \<Rightarrow> Inl e
      | Inr ctx \<Rightarrow> (case guard_depth_add b t 1 (set_ambient t (\<lambda>a. a\<lparr>am_access := Some ctx\<rparr>) s) of
          Inl e \<Rightarrow> Inl e | Inr s' \<Rightarrow> Inr (s', \<lparr>gd_objs = objs, gd_mode = m, gd_prev = cur\<rparr>)))"

definition guard_destroy ::
  "build \<Rightarrow> nat \<Rightarrow> guard \<Rightarrow> coro_env \<Rightarrow> (coro_env \<times> (pipe_id \<times> access) list) result" where
  "guard_destroy b t g s =
     (case guard_depth_add b t (-1) (set_ambient t (\<lambda>a. a\<lparr>am_access := gd_prev g\<rparr>) s) of
        Inl e \<Rightarrow> Inl e | Inr s' \<Rightarrow> Inr (s', map (\<lambda>p. (p, gd_mode g)) (sort (map snd (gd_objs g)))))"

section \<open>Ranks exclude circular waits\<close>











definition no_relaxation :: relaxation where
  "no_relaxation = \<lparr>rx_default = 0, rx_tls = (\<lambda>_. 0)\<rparr>"



section \<open>A grant whose window has closed\<close>

text \<open>
  A detached coroutine keeps its creator's snapshot. Here the creator wrote object 0 and released it: pipe 0 is idle and the
  entry stale. Another task holds object 1 and awaits object 0, which is free for it.
\<close>

definition creator_entry :: pipe_entry where
  "creator_entry = Task_link \<lparr>lk_owner = 5, lk_pipe = 0, lk_index = 0, lk_mode = Read_write\<rparr>"

definition closed_window :: pipe_run where
  "closed_window = run_release (run_enter (run_init 1) creator_entry) creator_entry"

definition stale_snapshot :: access_context where
  "stale_snapshot = [\<lparr>ent_instance = 0, ent_mode = Read_write, ent_epoch = Some 0, ent_captured = 1, ent_rank = 1\<rparr>]"

definition other_wait :: "wait_edge list" where
  "other_wait = [\<lparr>we_held = 1, we_awaited = 0, we_ticket = 8, we_waiter = Some 6\<rparr>]"

text \<open>
  (C39) The detector counts closed grants. A coroutine that only carries a stale snapshot of object 0 (every access through it
  would fault, the pipe is idle, and the rank check counts nothing as held) suspends on pipe 1, whose holder waits for pipe 0:
  \<^verbatim>\<open>circular_wait_record\<close> reports a circular wait, although no task but the one suspended first holds anything.
\<close>

theorem circular_wait_counts_stale_grants:
  "pipe_reach closed_window \<and> run_holders closed_window = {#}
   \<and> (\<forall>m. ctx_check (\<lambda>_. write_epoch (run_pipe closed_window)) stale_snapshot 0 m = Stale)
   \<and> rs_held (ctx_rank_state (\<lambda>_. write_epoch (run_pipe closed_window)) stale_snapshot) = 0
   \<and> wait_reach other_wait
   \<and> circular_wait_record (Some stale_snapshot) 9 (Some 7) [Some 1] other_wait = Inl Circular_wait"
proof (intro conjI)
  have enter: "run_holders (run_enter (run_init 1) creator_entry) = {#creator_entry#}"
    by (simp add: run_enter_def run_init_def pipe_init_def creator_entry_def pipe_defs)
  show "pipe_reach closed_window"
    unfolding closed_window_def
    by (rule reach_step [OF reach_step [OF reach_init step_enter] step_release]) (simp add: enter del: One_nat_def)
  have epoch: "write_epoch (run_pipe closed_window) = 2" and "run_holders closed_window = {#}"
    by (simp_all add: closed_window_def run_release_def run_enter_def run_init_def pipe_init_def creator_entry_def pipe_defs
        collect_admissions.simps)
  then show "run_holders closed_window = {#}" by simp
  show "\<forall>m. ctx_check (\<lambda>_. write_epoch (run_pipe closed_window)) stale_snapshot 0 m = Stale"
    by (simp add: ctx_check_def stale_snapshot_def entry_stale_def epoch)
  show "rs_held (ctx_rank_state (\<lambda>_. write_epoch (run_pipe closed_window)) stale_snapshot) = 0"
    by (simp add: ctx_rank_state_def stale_snapshot_def entry_stale_def epoch)
  have "circular_wait_record (Some (holds 1)) 8 (Some 6) [Some 0] [] = Inr (other_wait, True)"
    by (simp add: circular_wait_record_def wait_reaches.simps other_wait_def)
  then show "wait_reach other_wait" by (rule wr_record [OF wr_start])
  have "ctx_epochs stale_snapshot = [0]" by (simp add: ctx_epochs_def stale_snapshot_def map_filter_simps)
  moreover have "wait_reaches other_wait 1 0 0"
    by (subst wait_reaches.simps) (simp add: other_wait_def, subst wait_reaches.simps, simp)
  ultimately show "circular_wait_record (Some stale_snapshot) 9 (Some 7) [Some 1] other_wait = Inl Circular_wait"
    by (simp add: circular_wait_record_def)
qed

section \<open>A body cut into segments\<close>

text \<open>
  What a body does, one operation after the other: it opens and closes relaxed scopes, takes a guard (its acquire may be
  deferred), drops the innermost one, and awaits tasks. An await that is not ready, and a deferred acquire, suspend; the
  number is the thread that resumes. Between any two operations other work changes the slots of other threads. The pipes are
  given with each operation, as it finds them.
\<close>

datatype body_op =
    Scope scope_op
  | Take_guard access "(addr \<times> pipe_id) list" bool nat
  | Drop_guard
  | Await tcb nat
  | Elsewhere nat ambient

record coro_body =
  bd_env :: coro_env
  bd_thread :: nat
  bd_inherit :: "access_context option"
  bd_saved :: "access_context option"
  bd_guards :: "guard list"
  bd_stack :: "rule list"

text \<open>A suspension: \<^verbatim>\<open>exit_segment\<close>, \<^verbatim>\<open>h.resume()\<close> returns on the old thread, and the new one resumes.\<close>

definition suspend_to :: "block_id \<Rightarrow> nat \<Rightarrow> coro_body \<Rightarrow> coro_body" where
  "suspend_to self u st =
     (let s1 = resume_end (bd_thread st) (bd_inherit st) (bd_saved st) (exit_segment self (bd_thread st) (bd_env st));
          (s2, saved) = resume_begin self u s1
      in st\<lparr>bd_env := s2, bd_thread := u, bd_inherit := co_access (ce_frames s1 self), bd_saved := saved\<rparr>)"

definition take_guard ::
  "build \<Rightarrow> (pipe_id \<Rightarrow> pipe) \<Rightarrow> access \<Rightarrow> (addr \<times> pipe_id) list \<Rightarrow> coro_body \<Rightarrow> coro_body result" where
  "take_guard b pipes m objs st =
     (case guard_new b (bd_thread st) pipes m objs (bd_env st) of
        Inl e \<Rightarrow> Inl e
      | Inr (s, g) \<Rightarrow> Inr (st\<lparr>bd_env := s, bd_guards := g # bd_guards st\<rparr>))"

fun body_step :: "build \<Rightarrow> block_id \<Rightarrow> (pipe_id \<Rightarrow> pipe) \<times> body_op \<Rightarrow> coro_body \<Rightarrow> coro_body result" where
  "body_step b self (pipes, Scope p) st =
     (let (x, stack) = scope_op_on (bd_thread st) p (ce_relax (bd_env st), bd_stack st)
      in Inr (st\<lparr>bd_env := (bd_env st)\<lparr>ce_relax := x\<rparr>, bd_stack := stack\<rparr>))"
| "body_step b self (pipes, Take_guard m objs deferred u) st =
     (case (case objs of
              [(obj, p)] \<Rightarrow> access_await_ready b (bd_thread st) pipes p obj (bd_env st)
            | _ \<Rightarrow> multi_await_ready b (bd_thread st) pipes (map snd objs) (bd_env st)) of
        Inl e \<Rightarrow> Inl e
      | Inr _ \<Rightarrow> take_guard b pipes m objs (if deferred then suspend_to self u st else st))"
| "body_step b self (pipes, Drop_guard) st =
     (case bd_guards st of
        [] \<Rightarrow> Inr st
      | g # gs \<Rightarrow> (case guard_destroy b (bd_thread st) g (bd_env st) of
          Inl e \<Rightarrow> Inl e
        | Inr (s, released) \<Rightarrow> Inr (st\<lparr>bd_env := s, bd_guards := gs\<rparr>)))"
| "body_step b self (pipes, Await core u) st =
     (case task_await_ready b (bd_thread st) pipes core (bd_env st) of
        Inl e \<Rightarrow> Inl e
      | Inr rdy \<Rightarrow> Inr (if rdy then st else suspend_to self u st))"
| "body_step b self (pipes, Elsewhere u a) st =
     Inr (if u = bd_thread st then st else st\<lparr>bd_env := set_ambient u (\<lambda>_. a) (bd_env st)\<rparr>)"

text \<open>The running task and the access context a method called at this point would see, the guard counter, and the live guards.\<close>

type_synonym sighting = "block_id option \<times> access_context option \<times> 8 word \<times> guard list"

definition seen_by :: "block_id \<Rightarrow> coro_body \<Rightarrow> sighting" where
  "seen_by self st =
     (am_task (ce_threads (bd_env st) (bd_thread st)), am_access (ce_threads (bd_env st) (bd_thread st)),
      co_guard_depth (ce_frames (bd_env st) self), bd_guards st)"

fun body_run ::
  "build \<Rightarrow> block_id \<Rightarrow> ((pipe_id \<Rightarrow> pipe) \<times> body_op) list \<Rightarrow> coro_body
     \<Rightarrow> (coro_body \<times> sighting list) result" where
  "body_run b self [] st = Inr (st, [])"
| "body_run b self (p # ps) st =
     (case body_step b self p st of
        Inl e \<Rightarrow> Inl e
      | Inr st' \<Rightarrow> (case body_run b self ps st' of Inl e \<Rightarrow> Inl e | Inr (st'', seen) \<Rightarrow> Inr (st'', seen_by self st' # seen)))"

definition body_start :: "block_id \<Rightarrow> nat \<Rightarrow> coro_env \<Rightarrow> coro_body" where
  "body_start self t s =
     \<lparr>bd_env = promise_new self t s, bd_thread = t, bd_inherit = None, bd_saved = None, bd_guards = [], bd_stack = []\<rparr>"







lemmas env_op_defs = set_frame_def set_ambient_def enter_segment_def exit_segment_def resume_begin_def resume_end_def
  inherited_scope_enter_def inherited_scope_exit_def carrier_enter_def carrier_exit_def Let_def


lemma guard_rule_unrelaxed: "rule_enforced b t x await_under_guard = rule_compiled_in b await_under_guard"
  by (simp add: rule_enforced_def relaxed_mask rule_masks)


lemma current_block_access [simp]:
  "current_coroutine_block t (set_ambient t (\<lambda>a. a\<lparr>am_access := x\<rparr>) s) = current_coroutine_block t s"
  by (simp add: current_coroutine_block_def set_ambient_def split: option.split)










text \<open>
  A coroutine created on thread 0 under a grant on object 3 awaits an unsettled task, wakes on thread 1, takes a write guard on
  object 8 there and drops it.
\<close>

definition demo_coro_env :: coro_env where
  "demo_coro_env = \<lparr>ce_frames = (\<lambda>_. \<lparr>co_block = make_bare_block, co_guard_depth = 0, co_access = None, co_prev_task = None,
     co_prev_scope = None, co_relaxed = \<lparr>rc_bits = 0, rc_prev = 0\<rparr>\<rparr>),
     ce_threads = (\<lambda>t. \<lparr>am_task = None, am_scope = None, am_access = (if t = 0 then
       Some [\<lparr>ent_instance = 3, ent_mode = Read_only, ent_epoch = Some 30, ent_captured = 0, ent_rank = 1\<rparr>] else None)\<rparr>),
     ce_relax = no_relaxation\<rparr>"




section \<open>Two gaps\<close>

text \<open>
  (C40) A coroutine with no snapshot of its own. Its creator ran no task, so \<^verbatim>\<open>Inherited_access_scope\<close> installs nothing when the frame
  is resumed, and the context of the resuming thread stays in force: a \<^verbatim>\<open>Signal::trigger()\<close> in the body of a task resumes the
  frame right there.

  A coroutine created without grants runs under the grants of whatever task resumes it.
\<close>

theorem unowned_frame_borrows_grants:
  assumes "am_access (ce_threads s t) = None" and "u \<noteq> t" and "am_access (ce_threads s u) = Some c"
  shows "(let st = suspend_to self u (body_start self t s) in
    fst (snd (seen_by self st)) = Some c \<and> co_access (ce_frames (bd_env st) self) = None)"
  using assms
  by (simp add: suspend_to_def body_start_def promise_new_def seen_by_def env_op_defs)

text \<open>Thread 1 has no grants and creates the frame; it resumes on thread 0, in a task with a read grant on object 3.\<close>

theorem unowned_frame_borrows_grants_witness:
  "access_check (\<lambda>_. 0) (fst (snd (seen_by 5 (suspend_to 5 0 (body_start 5 1 demo_coro_env))))) 3 Read_only = Inr ()"
  using unowned_frame_borrows_grants [of demo_coro_env 1 0 "[\<lparr>ent_instance = 3, ent_mode = Read_only, ent_epoch = Some 30,
      ent_captured = 0, ent_rank = 1\<rparr>]" 5]
  by (simp add: demo_coro_env_def access_check_def ctx_check_def entry_stale_def Let_def)

text \<open>
  The reentrancy exemption. The coroutine holds a write guard on object 8 (pipe 80), starts \<^verbatim>\<open>obj.async(fn)\<close> on the same object,
  whose link queues behind that guard, and awaits it. A shipping build has the guard rule and nothing else.
\<close>

definition shipping_build :: build where
  "shipping_build = \<lparr>bl_enabled = default_enabled False, bl_safety = False\<rparr>"

definition own_hold :: pipe_entry where
  "own_hold = Hold \<lparr>hn_pipe = 80, hn_mode = Read_write, hn_on_acquired = 1, hn_grant_owner = Some 5\<rparr>"

definition own_job :: pipe_link where
  "own_job = \<lparr>lk_owner = 9, lk_pipe = 80, lk_index = 0, lk_mode = Read_write\<rparr>"

definition own_job_run :: pipe_run where
  "own_job_run = run_enter (run_enter (run_init 2) own_hold) (Task_link own_job)"

definition own_job_pipe :: pipe where
  "own_job_pipe = \<lparr>pp_queue = [Task_link own_job], active_readers = 0, writer_active = True, write_epoch = 1, graph_refs = 0,
     pp_rank = 2, writer_owner = Some 5\<rparr>"

definition own_job_body :: "((pipe_id \<Rightarrow> pipe) \<times> body_op) list" where
  "own_job_body = [(\<lambda>_. pipe_init 2, Take_guard Read_write [(8, 80)] False 0), (\<lambda>_. own_job_pipe, Await (make_bare_block\<lparr>pipe_links := [own_job]\<rparr>) 1)]"

text \<open>
  (C38) The exemption lets a guard cross a suspension. The job's link is queued behind the coroutine's own hold, the only holder,
  so it cannot run; yet the await passes the guard rule, which the build enforces, and suspends with the guard live: the frame
  waits for a turn that only its own guard's release would bring.
\<close>

theorem exemption_suspends_under_guard:
  "pipe_reach own_job_run \<and> run_holders own_job_run = {#own_hold#} \<and> run_pipe own_job_run = own_job_pipe
   \<and> rule_enforced shipping_build t x await_under_guard
   \<and> (case body_run shipping_build 5 own_job_body (body_start 5 0 demo_coro_env) of
        Inl e \<Rightarrow> False
      | Inr (st, seen) \<Rightarrow> bd_thread st = 1 \<and> length (bd_guards st) = 1 \<and> co_guard_depth (ce_frames (bd_env st) 5) = 1)"
proof (intro conjI)
  show "pipe_reach own_job_run" unfolding own_job_run_def by (blast intro: reach_init reach_step step_enter)
  show "run_holders own_job_run = {#own_hold#}" "run_pipe own_job_run = own_job_pipe"
    by (simp_all add: own_job_run_def run_enter_def run_init_def pipe_init_def own_hold_def own_job_def own_job_pipe_def pipe_defs)
  show "rule_enforced shipping_build t x await_under_guard"
    unfolding guard_rule_unrelaxed
    by (simp add: rule_compiled_in_def rules_effective_def shipping_build_def default_enabled_def rules_available_def
        rule_bits any_rule_def)
  show "case body_run shipping_build 5 own_job_body (body_start 5 0 demo_coro_env) of
        Inl e \<Rightarrow> False
      | Inr (st, seen) \<Rightarrow> bd_thread st = 1 \<and> length (bd_guards st) = 1 \<and> co_guard_depth (ce_frames (bd_env st) 5) = 1"
    by code_simp
qed

end
