(* ===== verification/Await_Run.thy ===== *)
theory Await_Run
  imports Coroutine
begin

text \<open>
  One coroutine that suspends and wakes, under any interleaving (include/ts/coroutine_support.h): the awaiters of a task, of one
  object's access and of several objects' accesses, with the two-state handshake between \<^verbatim>\<open>await_suspend\<close> and the completion
  callback, the acquire chain of \<^verbatim>\<open>Multi_access_awaiter::drive\<close>, and the release of the guard. The blocks it awaits are
  settled, and the pipes entered and released, by other threads at any moment.
\<close>

section \<open>The awaiters\<close>

text \<open>The constructor of \<^verbatim>\<open>Multi_access_awaiter\<close>: insertion by pipe address, an object listed twice is fatal.\<close>

fun insert_pipe :: "pipe_id \<Rightarrow> pipe_id list \<Rightarrow> pipe_id list result" where
  "insert_pipe p [] = Inr [p]"
| "insert_pipe p (q # qs) =
     (if q < p then (case insert_pipe p qs of Inl e \<Rightarrow> Inl e | Inr rs \<Rightarrow> Inr (q # rs))
      else if q = p then Inl Guard_same_object_twice
      else Inr (p # q # qs))"

fun insert_pipes :: "pipe_id list \<Rightarrow> pipe_id list \<Rightarrow> pipe_id list result" where
  "insert_pipes [] ps = Inr ps"
| "insert_pipes (p # raw) ps = (case insert_pipe p ps of Inl e \<Rightarrow> Inl e | Inr qs \<Rightarrow> insert_pipes raw qs)"

definition multi_awaiter_new :: "pipe_id list \<Rightarrow> pipe_id list result" where
  "multi_awaiter_new raw = insert_pipes raw []"

datatype target = On_task block_id | On_pipe pipe_id access | On_pipes "pipe_id list" access

fun target_pipes :: "target \<Rightarrow> pipe_id list" where
  "target_pipes (On_task b) = []"
| "target_pipes (On_pipe p m) = [p]"
| "target_pipes (On_pipes ps m) = ps"

fun target_mode :: "target \<Rightarrow> access" where
  "target_mode (On_task b) = Read_only"
| "target_mode (On_pipe p m) = m"
| "target_mode (On_pipes ps m) = m"

text \<open>
  Where the frame's own control is: in the body on a thread, in \<^verbatim>\<open>await_suspend\<close> before the pipe of some index is acquired
  (the callback attached), before the final exchange of the handshake, suspended, in a guard's destructor, or past its
  \<^verbatim>\<open>co_return\<close>.
\<close>

datatype coro_pc = Body nat | Publish nat nat | Swap nat | Parked | Releasing nat | Returned

text \<open>
  \<open>as_calls\<close> are the callbacks that were fired and have not run yet (thread and captured index), \<open>as_drives\<close> the calls of
  \<^verbatim>\<open>drive\<close> under way in such callbacks, \<open>as_resumes\<close> the resumes handed to a thread's \<^verbatim>\<open>Resume_queue\<close>. \<open>as_held\<close> are the
  indices of the awaiter's pipes that it has acquired. The two counters are for the statements.
\<close>

record await_sys =
  as_self :: block_id
  as_pc :: coro_pc
  as_target :: target
  as_state :: nat
  as_held :: "nat list"
  as_calls :: "(nat \<times> nat) list"
  as_drives :: "(nat \<times> nat) list"
  as_resumes :: "nat list"
  as_blocks :: "block_id \<Rightarrow> tcb"
  as_pipes :: "pipe_id \<Rightarrow> pipe_run"
  as_awaits :: nat
  as_wakes :: nat

text \<open>
  A callback is a number: 0 for any other party's, \<open>Suc k\<close> for this awaiter's at index \<open>k\<close>. The entry with which the
  awaiter acquires its \<open>k\<close>-th pipe:
\<close>

definition own_entry :: "await_sys \<Rightarrow> nat \<Rightarrow> pipe_entry" where
  "own_entry s k = Hold \<lparr>hn_pipe = target_pipes (as_target s) ! k, hn_mode = target_mode (as_target s), hn_on_acquired = Suc k,
     hn_grant_owner = Some (as_self s)\<rparr>"

fun foreign :: "pipe_entry \<Rightarrow> bool" where
  "foreign (Task_link l) = True"
| "foreign (Hold n) = (hn_on_acquired n = 0)"

fun own_index :: "pipe_entry \<Rightarrow> nat option" where
  "own_index (Task_link l) = None"
| "own_index (Hold n) = (case hn_on_acquired n of 0 \<Rightarrow> None | Suc k \<Rightarrow> Some k)"

definition put_block :: "block_id \<Rightarrow> tcb \<Rightarrow> await_sys \<Rightarrow> await_sys" where
  "put_block b blk s = s\<lparr>as_blocks := (as_blocks s)(b := blk)\<rparr>"

definition put_pipe :: "pipe_id \<Rightarrow> pipe_run \<Rightarrow> await_sys \<Rightarrow> await_sys" where
  "put_pipe p r s = s\<lparr>as_pipes := (as_pipes s)(p := r)\<rparr>"

section \<open>Operations\<close>

text \<open>The callback's half of the handshake, on thread \<open>u\<close>: \<^verbatim>\<open>state_.exchange(1)\<close>, and the resume if that returned 2.\<close>

definition wake_frame :: "nat \<Rightarrow> await_sys \<Rightarrow> await_sys" where
  "wake_frame u s =
     (let s1 = s\<lparr>as_state := 1\<rparr> in if as_state s = 2 then s1\<lparr>as_resumes := as_resumes s @ [u]\<rparr> else s1)"

text \<open>The tail of \<^verbatim>\<open>await_suspend\<close>: \<^verbatim>\<open>state_.exchange(2)\<close>; the body goes on at once if the callback has fired.\<close>

definition swap :: "nat \<Rightarrow> await_sys \<Rightarrow> await_sys" where
  "swap t s =
     (let s1 = s\<lparr>as_state := 2\<rparr> in
      if as_state s = 1 then s1\<lparr>as_pc := Body t, as_wakes := Suc (as_wakes s)\<rparr> else s1\<lparr>as_pc := Parked\<rparr>)"

definition begin_await :: "nat \<Rightarrow> target \<Rightarrow> await_sys \<Rightarrow> await_sys" where
  "begin_await t tg s = s\<lparr>as_pc := Publish t 0, as_target := tg, as_state := 0, as_held := [], as_awaits := Suc (as_awaits s)\<rparr>"

text \<open>\<^verbatim>\<open>core_->attach\<close> in \<^verbatim>\<open>Task_awaiter::await_suspend\<close>; a settled block runs the callback in the call.\<close>

definition publish_task :: "nat \<Rightarrow> block_id \<Rightarrow> await_sys \<Rightarrow> await_sys" where
  "publish_task t b s =
     (let (blk, fired) = attach (as_blocks s b) (Suc 0);
          s1 = put_block b blk s
      in (if fired = [] then s1 else wake_frame t s1)\<lparr>as_pc := Swap t\<rparr>)"

text \<open>\<^verbatim>\<open>pipe_acquire\<close> of the awaiter's \<open>k\<close>-th pipe; the flag is its result.\<close>

definition acquire_own :: "nat \<Rightarrow> await_sys \<Rightarrow> await_sys \<times> bool" where
  "acquire_own k s =
     (let p = target_pipes (as_target s) ! k; e = own_entry s k;
          got = snd (pipe_enter (run_pipe (as_pipes s p)) e);
          s1 = put_pipe p (run_enter (as_pipes s p) e) s
      in (if got then s1\<lparr>as_held := as_held s @ [k]\<rparr> else s1, got))"

definition publish_pipe :: "nat \<Rightarrow> await_sys \<Rightarrow> await_sys" where
  "publish_pipe t s =
     (case acquire_own 0 s of
        (s1, True) \<Rightarrow> s1\<lparr>as_pc := Body t, as_wakes := Suc (as_wakes s)\<rparr>
      | (s1, False) \<Rightarrow> s1\<lparr>as_pc := Swap t\<rparr>)"

text \<open>One round of \<^verbatim>\<open>drive\<close>, called from \<^verbatim>\<open>await_suspend\<close> and from a callback.\<close>

definition drive_here :: "nat \<Rightarrow> nat \<Rightarrow> await_sys \<Rightarrow> await_sys" where
  "drive_here t k s =
     (if k < length (target_pipes (as_target s))
      then (case acquire_own k s of (s1, True) \<Rightarrow> s1\<lparr>as_pc := Publish t (Suc k)\<rparr> | (s1, False) \<Rightarrow> s1\<lparr>as_pc := Swap t\<rparr>)
      else (wake_frame t s)\<lparr>as_pc := Swap t\<rparr>)"

definition drive_there :: "nat \<Rightarrow> nat \<Rightarrow> await_sys \<Rightarrow> await_sys" where
  "drive_there u k s =
     (let s0 = s\<lparr>as_drives := remove1 (u, k) (as_drives s)\<rparr> in
      if k < length (target_pipes (as_target s))
      then (case acquire_own k s0 of (s1, True) \<Rightarrow> s1\<lparr>as_drives := (u, Suc k) # as_drives s1\<rparr> | (s1, False) \<Rightarrow> s1)
      else wake_frame u s0)"

text \<open>A fired callback runs: \<^verbatim>\<open>on_acquired\<close> and the continuation of \<^verbatim>\<open>attach\<close> wake, the multi-object one drives on.\<close>

definition run_call :: "nat \<Rightarrow> nat \<Rightarrow> await_sys \<Rightarrow> await_sys" where
  "run_call u k s =
     (let calls = remove1 (u, k) (as_calls s) in
      case as_target s of
        On_task b \<Rightarrow> wake_frame u (s\<lparr>as_calls := calls\<rparr>)
      | On_pipe p m \<Rightarrow> wake_frame u (s\<lparr>as_held := as_held s @ [k], as_calls := calls\<rparr>)
      | On_pipes ps m \<Rightarrow> s\<lparr>as_held := as_held s @ [k], as_calls := calls, as_drives := (u, Suc k) # as_drives s\<rparr>)"

text \<open>\<^verbatim>\<open>Resume_queue\<close> reaches the item: the frame runs on thread \<open>u\<close> from \<^verbatim>\<open>await_resume\<close> on.\<close>

definition run_resume :: "nat \<Rightarrow> await_sys \<Rightarrow> await_sys" where
  "run_resume u s = s\<lparr>as_resumes := remove1 u (as_resumes s), as_pc := Body u, as_wakes := Suc (as_wakes s)\<rparr>"

text \<open>A settle on thread \<open>u\<close>, and a release by another party; what they fire for this awaiter becomes a call.\<close>

definition settle_there :: "nat \<Rightarrow> block_id \<Rightarrow> tcb \<Rightarrow> settle_effects \<Rightarrow> await_sys \<Rightarrow> await_sys" where
  "settle_there u b blk eff s =
     (put_block b blk s)\<lparr>as_calls := as_calls s @ map (\<lambda>c. (u, c - 1)) (filter (\<lambda>c. c \<noteq> 0) (map fst (eff_conts eff)))\<rparr>"

definition granted_by :: "pipe_run \<Rightarrow> pipe_entry \<Rightarrow> pipe_entry list" where
  "granted_by r h = fst (snd (release_and_redispatch (run_pipe r) (en_mode h)))"

definition release_at :: "nat \<Rightarrow> pipe_id \<Rightarrow> pipe_entry \<Rightarrow> await_sys \<Rightarrow> await_sys" where
  "release_at u p h s =
     (put_pipe p (run_release (as_pipes s p) h) s)
       \<lparr>as_calls := as_calls s @ map (Pair u) (List.map_filter own_index (granted_by (as_pipes s p) h))\<rparr>"

text \<open>The guard's destructor releases the held pipes one by one.\<close>

definition release_own :: "nat \<Rightarrow> await_sys \<Rightarrow> await_sys" where
  "release_own t s =
     (case as_held s of
        [] \<Rightarrow> s\<lparr>as_pc := Body t\<rparr>
      | k # ks \<Rightarrow> (release_at t (target_pipes (as_target s) ! k) (own_entry s k) s)\<lparr>as_held := ks\<rparr>)"

section \<open>Steps\<close>

text \<open>
  An await begins only without a live guard: that is what the check at \<^verbatim>\<open>co_await\<close> entry enforces. A ready task does not
  suspend, so it is no step.
\<close>

inductive await_step :: "await_sys \<Rightarrow> await_sys \<Rightarrow> bool" where
  st_await_task: "as_pc s = Body t \<Longrightarrow> as_held s = [] \<Longrightarrow> \<not> ready (as_blocks s b) \<Longrightarrow> await_step s (begin_await t (On_task b) s)"
| st_await_pipe: "as_pc s = Body t \<Longrightarrow> as_held s = [] \<Longrightarrow> await_step s (begin_await t (On_pipe p m) s)"
| st_await_pipes: "as_pc s = Body t \<Longrightarrow> as_held s = [] \<Longrightarrow> multi_awaiter_new raw = Inr ps \<Longrightarrow>
     await_step s (begin_await t (On_pipes ps m) s)"
| st_publish_task: "as_pc s = Publish t k \<Longrightarrow> as_target s = On_task b \<Longrightarrow> await_step s (publish_task t b s)"
| st_publish_pipe: "as_pc s = Publish t k \<Longrightarrow> as_target s = On_pipe p m \<Longrightarrow> await_step s (publish_pipe t s)"
| st_publish_pipes: "as_pc s = Publish t k \<Longrightarrow> as_target s = On_pipes ps m \<Longrightarrow> await_step s (drive_here t k s)"
| st_swap: "as_pc s = Swap t \<Longrightarrow> await_step s (swap t s)"
| st_call: "(u, k) \<in> set (as_calls s) \<Longrightarrow> await_step s (run_call u k s)"
| st_drive: "(u, k) \<in> set (as_drives s) \<Longrightarrow> await_step s (drive_there u k s)"
| st_resume: "u \<in> set (as_resumes s) \<Longrightarrow> await_step s (run_resume u s)"
| st_drop: "as_pc s = Body t \<Longrightarrow> as_held s \<noteq> [] \<Longrightarrow> await_step s (s\<lparr>as_pc := Releasing t\<rparr>)"
| st_release: "as_pc s = Releasing t \<Longrightarrow> await_step s (release_own t s)"
| st_return: "as_pc s = Body t \<Longrightarrow> as_held s = [] \<Longrightarrow> await_step s (s\<lparr>as_pc := Returned\<rparr>)"
| st_settle: "settle (as_blocks s b) c = Inr (blk, eff) \<Longrightarrow> await_step s (settle_there u b blk eff s)"
| st_attach: "await_step s (put_block b (fst (attach (as_blocks s b) 0)) s)"
| st_enter: "foreign e \<Longrightarrow> await_step s (put_pipe p (run_enter (as_pipes s p) e) s)"
| st_leave: "foreign h \<Longrightarrow> h \<in># run_holders (as_pipes s p) \<Longrightarrow> await_step s (release_at u p h s)"

text \<open>The coroutine's body runs on some thread; nobody awaits or holds anything yet.\<close>

definition await_new :: "block_id \<Rightarrow> nat \<Rightarrow> await_sys" where
  "await_new self t = \<lparr>as_self = self, as_pc = Body t, as_target = On_task 0, as_state = 0, as_held = [], as_calls = [], as_drives = [],
     as_resumes = [], as_blocks = (\<lambda>_. make_bare_block), as_pipes = (\<lambda>_. run_init 0), as_awaits = 0, as_wakes = 0\<rparr>"

inductive await_reach :: "block_id \<Rightarrow> await_sys \<Rightarrow> bool" for self where
  ar_start: "await_reach self (await_new self t)"
| ar_step: "await_reach self s \<Longrightarrow> await_step s s' \<Longrightarrow> await_reach self s'"

section \<open>The wake token\<close>

text \<open>
  While the coroutine waits, exactly one party owes it the wake: the block that stores the callback, the pipe that queues its
  hold, a thread about to run the callback or driving the acquire chain, or nobody any more because the callback has exchanged.
\<close>

datatype token = No_token | In_block | In_queue nat | In_call nat nat | In_drive nat nat | Fired

definition own_conts :: "tcb \<Rightarrow> nat list" where
  "own_conts b = filter (\<lambda>c. c \<noteq> 0) (continuations b)"

definition own_queued :: "pipe_run \<Rightarrow> pipe_entry list" where
  "own_queued r = filter (\<lambda>e. \<not> foreign e) (pp_queue (run_pipe r))"

definition own_holding :: "pipe_run \<Rightarrow> pipe_entry multiset" where
  "own_holding r = filter_mset (\<lambda>e. \<not> foreign e) (run_holders r)"

abbreviation own_pipes :: "await_sys \<Rightarrow> pipe_id list" where
  "own_pipes s \<equiv> target_pipes (as_target s)"

fun own_granted :: "token \<Rightarrow> await_sys \<Rightarrow> nat list" where
  "own_granted (In_call u k) s = (if own_pipes s = [] then as_held s else as_held s @ [k])"
| "own_granted tok s = as_held s"

definition conts_ok :: "token \<Rightarrow> await_sys \<Rightarrow> bool" where
  "conts_ok tok s \<longleftrightarrow> (\<forall>b. own_conts (as_blocks s b) = (if tok = In_block \<and> as_target s = On_task b then [Suc 0] else [])
     \<and> (tok = In_block \<and> as_target s = On_task b \<longrightarrow> \<not> completed (as_blocks s b)))"

definition queues_ok :: "token \<Rightarrow> await_sys \<Rightarrow> bool" where
  "queues_ok tok s \<longleftrightarrow> (\<forall>p. own_queued (as_pipes s p) =
     (case tok of In_queue k \<Rightarrow> if own_pipes s ! k = p then [own_entry s k] else [] | _ \<Rightarrow> []))"

definition holds_ok :: "token \<Rightarrow> await_sys \<Rightarrow> bool" where
  "holds_ok tok s \<longleftrightarrow> (\<forall>p. own_holding (as_pipes s p) =
     mset (map (own_entry s) (filter (\<lambda>k. own_pipes s ! k = p) (own_granted tok s))))"

definition runs_ok :: "await_sys \<Rightarrow> bool" where
  "runs_ok s \<longleftrightarrow> (\<forall>p. run_inv (as_pipes s p))"

fun token_ok :: "token \<Rightarrow> await_sys \<Rightarrow> bool" where
  "token_ok No_token s = False"
| "token_ok In_block s = (as_held s = [] \<and> (\<exists>b. as_target s = On_task b))"
| "token_ok (In_queue k) s = (k < length (own_pipes s) \<and> as_held s = [0..<k])"
| "token_ok (In_call u k) s = (as_held s = [0..<k] \<and> (k < length (own_pipes s) \<or> (k = 0 \<and> (\<exists>b. as_target s = On_task b))))"
| "token_ok (In_drive u k) s = (\<exists>ps m. as_target s = On_pipes ps m \<and> k \<le> length ps \<and> as_held s = [0..<k])"
| "token_ok Fired s = (as_held s = [0..<length (own_pipes s)])"

definition control_ok :: "token \<Rightarrow> await_sys \<Rightarrow> bool" where
  "control_ok tok s \<longleftrightarrow>
     as_calls s = (case tok of In_call u k \<Rightarrow> [(u, k)] | _ \<Rightarrow> [])
     \<and> as_drives s = (case tok of In_drive u k \<Rightarrow> [(u, k)] | _ \<Rightarrow> [])
     \<and> (case as_pc s of
          Body t \<Rightarrow> tok = No_token \<and> as_resumes s = [] \<and> (as_held s = [] \<or> as_held s = [0..<length (own_pipes s)])
        | Publish t k \<Rightarrow> tok = No_token \<and> as_resumes s = [] \<and> as_state s = 0 \<and> as_held s = [0..<k] \<and> k \<le> length (own_pipes s)
            \<and> ((\<exists>b. as_target s = On_task b) \<or> (\<exists>p m. as_target s = On_pipe p m) \<longrightarrow> k = 0)
        | Swap t \<Rightarrow> token_ok tok s \<and> as_resumes s = [] \<and> as_state s = (if tok = Fired then 1 else 0)
        | Parked \<Rightarrow> token_ok tok s \<and> (if tok = Fired then as_state s = 1 \<and> length (as_resumes s) = 1 else as_state s = 2 \<and> as_resumes s = [])
        | Releasing t \<Rightarrow> tok = No_token \<and> as_resumes s = [] \<and> set (as_held s) \<subseteq> {..<length (own_pipes s)}
        | Returned \<Rightarrow> tok = No_token \<and> as_resumes s = [] \<and> as_held s = [])
     \<and> as_awaits s = as_wakes s + (case as_pc s of Publish t k \<Rightarrow> 1 | Swap t \<Rightarrow> 1 | Parked \<Rightarrow> 1 | _ \<Rightarrow> 0)"

definition sorted_ok :: "await_sys \<Rightarrow> bool" where
  "sorted_ok s \<longleftrightarrow> sorted_wrt (<) (own_pipes s)"

definition token_inv :: "token \<Rightarrow> await_sys \<Rightarrow> bool" where
  "token_inv tok s \<longleftrightarrow> conts_ok tok s \<and> queues_ok tok s \<and> holds_ok tok s \<and> runs_ok s \<and> control_ok tok s \<and> sorted_ok s"

definition await_inv :: "await_sys \<Rightarrow> bool" where
  "await_inv s \<longleftrightarrow> (\<exists>tok. token_inv tok s)"

section \<open>The awaiter's pipes are in canonical order\<close>

lemma insert_pipe_ok:
  "insert_pipe p ps = Inr qs \<Longrightarrow> sorted_wrt (<) ps \<Longrightarrow> sorted_wrt (<) qs \<and> set qs = insert p (set ps)"
proof (induction ps arbitrary: qs)
  case (Cons q ps)
  then show ?case by (fastforce split: if_splits)
qed simp

lemma insert_pipes_ok:
  "insert_pipes raw ps = Inr qs \<Longrightarrow> sorted_wrt (<) ps \<Longrightarrow> sorted_wrt (<) qs \<and> set qs = set raw \<union> set ps"
proof (induction raw arbitrary: ps)
  case (Cons p raw)
  then obtain rs where "insert_pipe p ps = Inr rs" and rest: "insert_pipes raw rs = Inr qs" by auto
  with insert_pipe_ok [of p ps rs] Cons.prems(2) have rs: "sorted_wrt (<) rs" "set rs = insert p (set ps)" by auto
  from Cons.IH [OF rest rs(1)] rs(2) show ?case by auto
qed simp

lemma multi_awaiter_sorted: "multi_awaiter_new raw = Inr ps \<Longrightarrow> sorted_wrt (<) ps"
  using insert_pipes_ok [of raw "[]" ps] by (simp add: multi_awaiter_new_def)

section \<open>What the pipes do to this awaiter's entries\<close>

lemma own_entry_simps [simp]:
  "\<not> foreign (own_entry s k)" "own_index (own_entry s k) = Some k" "en_mode (own_entry s k) = target_mode (as_target s)"
  "en_owner (own_entry s k) = Some (as_self s)"
  by (simp_all add: own_entry_def)

lemma own_index_foreign: "own_index e = None \<longleftrightarrow> foreign e"
  by (cases e) (auto split: nat.splits)

lemma own_entry_inj: "own_entry s k = own_entry s j \<longleftrightarrow> k = j"
  by (auto simp: own_entry_def)

lemma run_enter_own:
  "own_queued (run_enter r e) = own_queued r @ (if foreign e \<or> snd (pipe_enter (run_pipe r) e) then [] else [e])"
  "own_holding (run_enter r e) = own_holding r + (if \<not> foreign e \<and> snd (pipe_enter (run_pipe r) e) then {#e#} else {#})"
  by (auto simp: own_queued_def own_holding_def run_enter_def pipe_enter_def queue_push_def Let_def split: prod.splits if_splits)

lemma run_release_own:
  assumes "run_inv r" and "h \<in># run_holders r"
  shows "own_queued r = filter (\<lambda>e. \<not> foreign e) (granted_by r h) @ own_queued (run_release r h)"
    and "own_holding (run_release r h) =
      (if foreign h then own_holding r else own_holding r - {#h#}) + mset (filter (\<lambda>e. \<not> foreign e) (granted_by r h))"
proof -
  obtain p gs idle where re: "release_and_redispatch (run_pipe r) (en_mode h) = (p, gs, idle)" by (metis prod_cases3)
  have inv: "pipe_inv (run_pipe r) (run_holders r)" using assms(1) by (simp add: run_inv_def)
  have q: "pp_queue (run_pipe r) = gs @ pp_queue p" by (rule pw.release_waiting [OF inv assms(2) re])
  show "own_queued r = filter (\<lambda>e. \<not> foreign e) (granted_by r h) @ own_queued (run_release r h)"
    by (simp add: own_queued_def granted_by_def run_release_def re q)
  show "own_holding (run_release r h) =
      (if foreign h then own_holding r else own_holding r - {#h#}) + mset (filter (\<lambda>e. \<not> foreign e) (granted_by r h))"
    using assms(2) by (simp add: own_holding_def granted_by_def run_release_def re filter_mset_remove1 filter_mset_remove1_not mset_filter)
qed

lemma map_filter_own_index:
  "List.map_filter own_index es = map (the \<circ> own_index) (filter (\<lambda>e. \<not> foreign e) es)"
  by (simp add: List.map_filter_def own_index_foreign [symmetric])

section \<open>Every step keeps the invariant\<close>

lemmas token_inv_parts = token_inv_def conts_ok_def queues_ok_def holds_ok_def runs_ok_def sorted_ok_def

text \<open>Three positions of the token leave no trace in blocks and pipes beyond the held entries.\<close>

definition quiet :: "token \<Rightarrow> bool" where
  "quiet tok \<longleftrightarrow> tok = No_token \<or> tok = Fired \<or> (\<exists>u k. tok = In_drive u k)"

lemma quiet_simps [simp]: "quiet No_token" "quiet Fired" "quiet (In_drive u k)"
  by (simp_all add: quiet_def)

definition frame_data_ok :: "token \<Rightarrow> await_sys \<Rightarrow> bool" where
  "frame_data_ok tok s \<longleftrightarrow> conts_ok tok s \<and> queues_ok tok s \<and> holds_ok tok s \<and> runs_ok s \<and> sorted_ok s"

lemma token_inv_split: "token_inv tok s \<longleftrightarrow> frame_data_ok tok s \<and> control_ok tok s"
  by (auto simp: token_inv_def frame_data_ok_def)

lemma data_ok_quiet: "quiet tok \<Longrightarrow> quiet tok' \<Longrightarrow> frame_data_ok tok s \<Longrightarrow> frame_data_ok tok' s"
  by (auto simp: frame_data_ok_def quiet_def conts_ok_def queues_ok_def holds_ok_def)

lemma own_entry_cong: "as_target s' = as_target s \<Longrightarrow> as_self s' = as_self s \<Longrightarrow> own_entry s' = own_entry s"
  by (rule ext) (simp add: own_entry_def)

lemma own_granted_cong: "as_target s' = as_target s \<Longrightarrow> as_held s' = as_held s \<Longrightarrow> own_granted tok s' = own_granted tok s"
  by (cases tok) auto

text \<open>Changes of the control fields alone do not touch the data.\<close>

lemma data_ok_cong:
  assumes "as_self s' = as_self s" "as_target s' = as_target s" "as_held s' = as_held s" "as_blocks s' = as_blocks s" "as_pipes s' = as_pipes s"
  shows "frame_data_ok tok s' = frame_data_ok tok s"
  using own_entry_cong [of s' s] own_granted_cong [of s' s tok] assms
  by (cases tok) (simp_all add: frame_data_ok_def conts_ok_def queues_ok_def holds_ok_def runs_ok_def sorted_ok_def)

lemma wake_fields [simp]:
  "as_self (wake_frame u s) = as_self s" "as_pc (wake_frame u s) = as_pc s" "as_target (wake_frame u s) = as_target s" "as_held (wake_frame u s) = as_held s"
  "as_calls (wake_frame u s) = as_calls s" "as_drives (wake_frame u s) = as_drives s" "as_blocks (wake_frame u s) = as_blocks s"
  "as_pipes (wake_frame u s) = as_pipes s" "as_awaits (wake_frame u s) = as_awaits s" "as_wakes (wake_frame u s) = as_wakes s" "as_state (wake_frame u s) = 1"
  "as_resumes (wake_frame u s) = as_resumes s @ (if as_state s = 2 then [u] else [])"
  by (simp_all add: wake_frame_def Let_def)

lemma put_fields [simp]:
  "as_self (put_block b blk s) = as_self s" "as_pc (put_block b blk s) = as_pc s" "as_target (put_block b blk s) = as_target s"
  "as_held (put_block b blk s) = as_held s" "as_calls (put_block b blk s) = as_calls s" "as_drives (put_block b blk s) = as_drives s"
  "as_pipes (put_block b blk s) = as_pipes s" "as_awaits (put_block b blk s) = as_awaits s" "as_wakes (put_block b blk s) = as_wakes s"
  "as_state (put_block b blk s) = as_state s" "as_resumes (put_block b blk s) = as_resumes s"
  "as_blocks (put_block b blk s) = (as_blocks s)(b := blk)"
  "as_self (put_pipe p r s) = as_self s" "as_pc (put_pipe p r s) = as_pc s" "as_target (put_pipe p r s) = as_target s"
  "as_held (put_pipe p r s) = as_held s" "as_calls (put_pipe p r s) = as_calls s" "as_drives (put_pipe p r s) = as_drives s"
  "as_blocks (put_pipe p r s) = as_blocks s" "as_awaits (put_pipe p r s) = as_awaits s" "as_wakes (put_pipe p r s) = as_wakes s"
  "as_state (put_pipe p r s) = as_state s" "as_resumes (put_pipe p r s) = as_resumes s"
  "as_pipes (put_pipe p r s) = (as_pipes s)(p := r)"
  by (simp_all add: put_block_def put_pipe_def)

lemma begin_await_inv:
  assumes inv: "token_inv tok s" and pc: "as_pc s = Body t" and free: "as_held s = []" and sorted: "sorted_wrt (<) (target_pipes tg)"
  shows "token_inv No_token (begin_await t tg s)"
  using assms by (auto simp: token_inv_parts control_ok_def begin_await_def)

text \<open>Acquiring the next pipe: granted, the index joins the held ones; deferred, the token is in that pipe's queue.\<close>

lemma acquire_own_data:
  assumes data: "frame_data_ok tok s" and quiet: "quiet tok" and acq: "acquire_own k s = (s', got)"
  shows "frame_data_ok (if got then No_token else In_queue k) s'"
proof -
  let ?p = "own_pipes s ! k" and ?e = "own_entry s k"
  have got: "got = snd (pipe_enter (run_pipe (as_pipes s ?p)) ?e)" using acq by (auto simp: acquire_own_def Let_def)
  have s': "s' = (if got then (put_pipe ?p (run_enter (as_pipes s ?p) ?e) s)\<lparr>as_held := as_held s @ [k]\<rparr>
      else put_pipe ?p (run_enter (as_pipes s ?p) ?e) s)" using acq by (auto simp: acquire_own_def Let_def)
  have fields: "as_target s' = as_target s" "as_self s' = as_self s" "as_held s' = as_held s @ (if got then [k] else [])"
      "as_blocks s' = as_blocks s" "as_pipes s' = (as_pipes s)(?p := run_enter (as_pipes s ?p) ?e)" by (auto simp: s')
  note ent = own_entry_cong [OF fields(1,2)]
  have granted: "own_granted tok s = as_held s" using quiet by (auto simp: quiet_def)
  have d: "conts_ok tok s" "queues_ok tok s" "holds_ok tok s" "runs_ok s" "sorted_ok s" using data by (auto simp: frame_data_ok_def)
  have "conts_ok (if got then No_token else In_queue k) s'"
    using d(1) quiet by (auto simp: conts_ok_def fields quiet_def)
  moreover have "queues_ok (if got then No_token else In_queue k) s'"
    using d(2) quiet by (auto simp: queues_ok_def fields ent run_enter_own got quiet_def)
  moreover have "holds_ok (if got then No_token else In_queue k) s'"
    using d(3) by (auto simp: holds_ok_def fields ent run_enter_own granted got)
  moreover have "runs_ok s'" using d(4) run_inv_enter by (auto simp: runs_ok_def fields)
  moreover have "sorted_ok s'" using d(5) by (simp add: sorted_ok_def fields)
  ultimately show ?thesis by (simp add: frame_data_ok_def)
qed

lemma acquire_own_fields:
  assumes "acquire_own k s = (s', got)"
  shows "as_self s' = as_self s" "as_pc s' = as_pc s" "as_target s' = as_target s" "as_calls s' = as_calls s" "as_drives s' = as_drives s"
    "as_resumes s' = as_resumes s" "as_state s' = as_state s" "as_awaits s' = as_awaits s" "as_wakes s' = as_wakes s"
    "as_held s' = as_held s @ (if got then [k] else [])"
  using assms by (auto simp: acquire_own_def Let_def)

section \<open>The coroutine's own steps\<close>

lemma data_ok_upd [simp]:
  "frame_data_ok tok (s\<lparr>as_pc := pc\<rparr>) = frame_data_ok tok s" "frame_data_ok tok (s\<lparr>as_state := n\<rparr>) = frame_data_ok tok s"
  "frame_data_ok tok (s\<lparr>as_calls := cs\<rparr>) = frame_data_ok tok s" "frame_data_ok tok (s\<lparr>as_drives := cs\<rparr>) = frame_data_ok tok s"
  "frame_data_ok tok (s\<lparr>as_resumes := us\<rparr>) = frame_data_ok tok s" "frame_data_ok tok (s\<lparr>as_awaits := n\<rparr>) = frame_data_ok tok s"
  "frame_data_ok tok (s\<lparr>as_wakes := n\<rparr>) = frame_data_ok tok s" "frame_data_ok tok (wake_frame u s) = frame_data_ok tok s"
  "frame_data_ok tok (put_block b (as_blocks s b) s) = frame_data_ok tok s"
  by (rule data_ok_cong; simp)+

lemma publish_task_inv:
  assumes inv: "token_inv tok s" and pc: "as_pc s = Publish t k" and tg: "as_target s = On_task b"
  shows "\<exists>tok'. token_inv tok' (publish_task t b s)"
proof -
  have tok: "tok = No_token" "as_state s = 0" "as_held s = []" using inv pc tg by (auto simp: token_inv_def control_ok_def)
  have conts: "own_conts (as_blocks s b) = []" using inv tok by (simp add: token_inv_def conts_ok_def)
  show ?thesis
  proof (cases "completed (as_blocks s b)")
    case True
    then have pub: "publish_task t b s = (wake_frame t (put_block b (as_blocks s b) s))\<lparr>as_pc := Swap t\<rparr>"
      by (simp add: publish_task_def attach_def Let_def)
    have "frame_data_ok No_token (publish_task t b s)"
      using inv tok by (simp add: pub token_inv_split)
    then have "frame_data_ok Fired (publish_task t b s)" by (rule data_ok_quiet [rotated 2]) simp_all
    moreover have "control_ok Fired (publish_task t b s)"
      using inv pc tg tok by (simp add: pub token_inv_def control_ok_def)
    ultimately show ?thesis by (auto simp: token_inv_split)
  next
    case False
    let ?blk = "(as_blocks s b)\<lparr>continuations := continuations (as_blocks s b) @ [Suc 0]\<rparr>"
    from False have pub: "publish_task t b s = (put_block b ?blk s)\<lparr>as_pc := Swap t\<rparr>"
      by (simp add: publish_task_def attach_def Let_def)
    have "conts_ok In_block (publish_task t b s)"
      using inv tok tg conts False by (auto simp: pub conts_ok_def token_inv_def own_conts_def)
    moreover have "queues_ok In_block (publish_task t b s)" "holds_ok In_block (publish_task t b s)"
        "runs_ok (publish_task t b s)" "sorted_ok (publish_task t b s)"
      using inv tok tg by (auto simp: pub token_inv_parts)
    moreover have "control_ok In_block (publish_task t b s)"
      using inv pc tg tok by (simp add: pub token_inv_def control_ok_def)
    ultimately show ?thesis by (auto simp: token_inv_def)
  qed
qed

lemma publish_pipe_inv:
  assumes inv: "token_inv tok s" and pc: "as_pc s = Publish t k" and tg: "as_target s = On_pipe p m"
  shows "\<exists>tok'. token_inv tok' (publish_pipe t s)"
proof -
  obtain s1 got where acq: "acquire_own 0 s = (s1, got)" by fastforce
  note f = acquire_own_fields [OF acq]
  have tok: "tok = No_token" "as_held s = []" using inv pc tg by (auto simp: token_inv_def control_ok_def)
  have data: "frame_data_ok (if got then No_token else In_queue 0) s1"
    using acquire_own_data [of No_token, OF _ _ acq] inv tok by (simp add: token_inv_split)
  show ?thesis
  proof (cases got)
    case True
    have "frame_data_ok No_token (publish_pipe t s)" using data acq True by (simp add: publish_pipe_def)
    moreover have "control_ok No_token (publish_pipe t s)"
      using inv pc tg tok acq True f by (simp add: publish_pipe_def token_inv_def control_ok_def)
    ultimately show ?thesis by (auto simp: token_inv_split)
  next
    case False
    have "frame_data_ok (In_queue 0) (publish_pipe t s)" using data acq False by (simp add: publish_pipe_def)
    moreover have "control_ok (In_queue 0) (publish_pipe t s)"
      using inv pc tg tok acq False f by (simp add: publish_pipe_def token_inv_def control_ok_def)
    ultimately show ?thesis by (auto simp: token_inv_split)
  qed
qed

lemma drive_here_inv:
  assumes inv: "token_inv tok s" and pc: "as_pc s = Publish t k" and tg: "as_target s = On_pipes ps m"
  shows "\<exists>tok'. token_inv tok' (drive_here t k s)"
proof -
  have tok: "tok = No_token" "as_held s = [0..<k]" "k \<le> length ps" using inv pc tg by (auto simp: token_inv_def control_ok_def)
  show ?thesis
  proof (cases "k < length ps")
    case True
    obtain s1 got where acq: "acquire_own k s = (s1, got)" by fastforce
    note f = acquire_own_fields [OF acq]
    have data: "frame_data_ok (if got then No_token else In_queue k) s1"
      using acquire_own_data [of No_token, OF _ _ acq] inv tok by (simp add: token_inv_split)
    have d: "drive_here t k s = (if got then s1\<lparr>as_pc := Publish t (Suc k)\<rparr> else s1\<lparr>as_pc := Swap t\<rparr>)"
      using True tg acq by (simp add: drive_here_def)
    have "frame_data_ok (if got then No_token else In_queue k) (drive_here t k s)" using data by (simp add: d split: if_splits)
    moreover have "control_ok (if got then No_token else In_queue k) (drive_here t k s)"
      using inv pc tg tok f True by (simp add: d token_inv_def control_ok_def)
    ultimately show ?thesis by (auto simp: token_inv_split)
  next
    case False
    then have d: "drive_here t k s = (wake_frame t s)\<lparr>as_pc := Swap t\<rparr>" using tg by (simp add: drive_here_def)
    have "frame_data_ok No_token (drive_here t k s)" using inv tok by (simp add: d token_inv_split)
    then have "frame_data_ok Fired (drive_here t k s)" by (rule data_ok_quiet [rotated 2]) simp_all
    moreover have "control_ok Fired (drive_here t k s)"
      using inv pc tg tok False unfolding d by (simp add: token_inv_def control_ok_def)
    ultimately show ?thesis by (auto simp: token_inv_split)
  qed
qed

lemma swap_inv:
  assumes inv: "token_inv tok s" and pc: "as_pc s = Swap t"
  shows "\<exists>tok'. token_inv tok' (swap t s)"
proof (cases "tok = Fired")
  case True
  have "frame_data_ok Fired (swap t s)" using inv True by (simp add: swap_def Let_def token_inv_split)
  then have "frame_data_ok No_token (swap t s)" by (rule data_ok_quiet [rotated 2]) simp_all
  moreover have "control_ok No_token (swap t s)"
    using inv pc True by (simp add: swap_def Let_def token_inv_def control_ok_def)
  ultimately show ?thesis by (auto simp: token_inv_split)
next
  case False
  have "frame_data_ok tok (swap t s)" using inv by (simp add: swap_def Let_def token_inv_split)
  moreover have "control_ok tok (swap t s)"
    using inv pc False by (cases tok) (simp_all add: swap_def Let_def token_inv_def control_ok_def)
  ultimately show ?thesis by (auto simp: token_inv_split)
qed

lemma run_resume_inv:
  assumes inv: "token_inv tok s" and u: "u \<in> set (as_resumes s)"
  shows "token_inv No_token (run_resume u s)"
proof -
  have pc: "as_pc s = Parked" "tok = Fired" "as_resumes s = [u]"
    using inv u by (auto simp: token_inv_def control_ok_def length_Suc_conv split: coro_pc.splits if_splits)
  have "frame_data_ok Fired (run_resume u s)" using inv pc by (simp add: run_resume_def token_inv_split)
  then have "frame_data_ok No_token (run_resume u s)" by (rule data_ok_quiet [rotated 2]) simp_all
  moreover have "control_ok No_token (run_resume u s)" using inv pc by (simp add: run_resume_def token_inv_def control_ok_def)
  ultimately show ?thesis by (simp add: token_inv_split)
qed

text \<open>A token that a callback or the acquire chain holds is passed on while the frame is about to swap or parked.\<close>

lemma waiting_control:
  assumes "control_ok tok s" and "(\<exists>u k. tok = In_call u k) \<or> (\<exists>u k. tok = In_drive u k)"
  shows "(\<exists>t. as_pc s = Swap t) \<and> as_state s = 0 \<or> as_pc s = Parked \<and> as_state s = 2"
    and "token_ok tok s" and "as_resumes s = []"
  using assms by (auto simp: control_ok_def split: coro_pc.splits if_splits)

lemma pass_control:
  assumes old: "control_ok tok s" and tok: "(\<exists>u k. tok = In_call u k) \<or> (\<exists>u k. tok = In_drive u k)" and new: "token_ok tok' s'"
    and same: "as_pc s' = as_pc s" "as_awaits s' = as_awaits s" "as_wakes s' = as_wakes s"
    and calls: "as_calls s' = (case tok' of In_call u k \<Rightarrow> [(u, k)] | _ \<Rightarrow> [])"
    and drives: "as_drives s' = (case tok' of In_drive u k \<Rightarrow> [(u, k)] | _ \<Rightarrow> [])"
    and st: "if tok' = Fired then as_state s' = 1 \<and> as_resumes s' = as_resumes s @ (if as_state s = 2 then [v] else [])
      else as_state s' = as_state s \<and> as_resumes s' = as_resumes s"
  shows "control_ok tok' s'"
  using assms waiting_control [OF old tok] by (auto simp: control_ok_def)


lemma run_call_inv:
  assumes inv: "token_inv tok s" and c: "(u, k) \<in> set (as_calls s)"
  shows "\<exists>tok'. token_inv tok' (run_call u k s)"
proof -
  have tok: "tok = In_call u k" and calls: "as_calls s = [(u, k)]" and drives: "as_drives s = []"
    using inv c by (auto simp: token_inv_def control_ok_def split: token.splits)
  have ctl: "control_ok tok s" and data: "frame_data_ok tok s" using inv by (simp_all add: token_inv_split)
  have isw: "(\<exists>u k. tok = In_call u k) \<or> (\<exists>u k. tok = In_drive u k)" by (simp add: tok)
  note w = waiting_control [OF ctl isw]
  have ok: "as_held s = [0..<k]" "k < length (own_pipes s) \<or> k = 0 \<and> (\<exists>b. as_target s = On_task b)" using w(2) tok by auto
  have taken: "frame_data_ok No_token (s\<lparr>as_held := as_held s @ [k]\<rparr>)" if "own_pipes s \<noteq> []"
    using data that own_entry_cong [of "s\<lparr>as_held := as_held s @ [k]\<rparr>" s]
    by (simp add: tok frame_data_ok_def conts_ok_def queues_ok_def holds_ok_def runs_ok_def sorted_ok_def)
  show ?thesis
  proof (cases "as_target s")
    case (On_task b)
    then have "frame_data_ok No_token s"
      using data by (auto simp: tok frame_data_ok_def conts_ok_def queues_ok_def holds_ok_def)
    then have "frame_data_ok Fired (run_call u k s)"
      using data_ok_quiet [of No_token Fired s] On_task by (simp add: run_call_def Let_def)
    moreover have "control_ok Fired (run_call u k s)"
      by (rule pass_control [OF ctl isw, where v = u]) (use On_task ok calls drives in \<open>auto simp: run_call_def Let_def\<close>)
    ultimately show ?thesis by (auto simp: token_inv_split)
  next
    case (On_pipe p m)
    then have "frame_data_ok Fired (run_call u k s)"
      using data_ok_quiet [of No_token Fired "s\<lparr>as_held := as_held s @ [k]\<rparr>"] taken by (simp add: run_call_def Let_def)
    moreover have "control_ok Fired (run_call u k s)"
      by (rule pass_control [OF ctl isw, where v = u]) (use On_pipe ok calls drives in \<open>auto simp: run_call_def Let_def\<close>)
    ultimately show ?thesis by (auto simp: token_inv_split)
  next
    case (On_pipes ps m)
    with ok have k: "k < length ps" by auto
    have "own_pipes s \<noteq> []" using k On_pipes by auto
    then have "frame_data_ok (In_drive u (Suc k)) (run_call u k s)"
      using data_ok_quiet [of No_token "In_drive u (Suc k)" "s\<lparr>as_held := as_held s @ [k]\<rparr>"] taken On_pipes
      by (simp add: run_call_def Let_def)
    moreover have "control_ok (In_drive u (Suc k)) (run_call u k s)"
      by (rule pass_control [OF ctl isw, where v = u]) (use On_pipes ok k calls drives in \<open>auto simp: run_call_def Let_def\<close>)
    ultimately show ?thesis by (auto simp: token_inv_split)
  qed
qed

lemma drive_there_inv:
  assumes inv: "token_inv tok s" and c: "(u, k) \<in> set (as_drives s)"
  shows "\<exists>tok'. token_inv tok' (drive_there u k s)"
proof -
  have tok: "tok = In_drive u k" and calls: "as_calls s = []" and drives: "as_drives s = [(u, k)]"
    using inv c by (auto simp: token_inv_def control_ok_def split: token.splits)
  have ctl: "control_ok tok s" and data: "frame_data_ok tok s" using inv by (simp_all add: token_inv_split)
  have isw: "(\<exists>u k. tok = In_call u k) \<or> (\<exists>u k. tok = In_drive u k)" by (simp add: tok)
  note w = waiting_control [OF ctl isw]
  obtain ps m where tg: "as_target s = On_pipes ps m" and ok: "as_held s = [0..<k]" "k \<le> length ps" using w(2) tok by auto
  let ?s0 = "s\<lparr>as_drives := remove1 (u, k) (as_drives s)\<rparr>"
  show ?thesis
  proof (cases "k < length ps")
    case True
    obtain s1 got where acq: "acquire_own k ?s0 = (s1, got)" by fastforce
    note f = acquire_own_fields [OF acq, simplified]
    have data1: "frame_data_ok (if got then No_token else In_queue k) s1"
      using acquire_own_data [of "In_drive u k", OF _ _ acq] data tok by simp
    have d: "drive_there u k s = (if got then s1\<lparr>as_drives := (u, Suc k) # as_drives s1\<rparr> else s1)"
      using True tg acq by (simp add: drive_there_def Let_def)
    let ?tok = "if got then In_drive u (Suc k) else In_queue k"
    have "frame_data_ok ?tok (drive_there u k s)"
      using data1 data_ok_quiet [of No_token "In_drive u (Suc k)" s1] by (simp add: d split: if_splits)
    moreover have "control_ok ?tok (drive_there u k s)"
      by (rule pass_control [OF ctl isw]) (use tg ok f True calls drives in \<open>auto simp: d\<close>)
    ultimately show ?thesis by (auto simp: token_inv_split)
  next
    case False
    then have d: "drive_there u k s = wake_frame u ?s0" using tg by (simp add: drive_there_def Let_def)
    have "frame_data_ok Fired (drive_there u k s)" using data data_ok_quiet [of tok Fired s] tok by (simp add: d)
    moreover have "control_ok Fired (drive_there u k s)"
      unfolding d by (rule pass_control [OF ctl isw, where v = u]) (use tg ok False calls drives in auto)
    ultimately show ?thesis by (auto simp: token_inv_split)
  qed
qed


section \<open>Releases, settles and the others' steps\<close>

lemma put_block_keeps:
  assumes inv: "token_inv tok s" and own: "own_conts blk = own_conts (as_blocks s b)"
    and comp: "completed blk \<Longrightarrow> completed (as_blocks s b) \<or> own_conts blk = []"
  shows "token_inv tok (put_block b blk s)"
proof -
  have "frame_data_ok tok (put_block b blk s)"
    using inv own comp own_entry_cong [of "put_block b blk s" s] own_granted_cong [of "put_block b blk s" s tok]
    by (cases tok) (auto simp: token_inv_split frame_data_ok_def conts_ok_def queues_ok_def holds_ok_def runs_ok_def sorted_ok_def)
  moreover have "control_ok tok (put_block b blk s)"
    using inv by (cases tok) (auto simp: token_inv_def control_ok_def split: coro_pc.splits)
  ultimately show ?thesis by (simp add: token_inv_split)
qed

lemma foreign_attach_inv:
  "token_inv tok s \<Longrightarrow> token_inv tok (put_block b (fst (attach (as_blocks s b) 0)) s)"
  by (rule put_block_keeps) (auto simp: attach_def own_conts_def)

lemma settle_there_inv:
  assumes inv: "token_inv tok s" and st: "settle (as_blocks s b) c = Inr (blk, eff)"
  shows "\<exists>tok'. token_inv tok' (settle_there u b blk eff s)"
proof (cases "tok = In_block \<and> as_target s = On_task b")
  case False
  then have none: "own_conts (as_blocks s b) = []" using inv by (auto simp: token_inv_def conts_ok_def)
  then have zero: "\<forall>d \<in> set (continuations (as_blocks s b)). d = 0" by (simp add: own_conts_def filter_empty_conv)
  have "filter (\<lambda>d. d \<noteq> 0) (map fst (eff_conts eff)) = []"
    using st zero by (auto simp: settle_def no_effects_def comp_def filter_empty_conv split: if_splits)
  then have eq: "settle_there u b blk eff s = put_block b blk s" by (simp add: settle_there_def put_block_def)
  have "own_conts blk = []" using st none by (auto simp: settle_def own_conts_def split: if_splits)
  then have "token_inv tok (put_block b blk s)" using none by (intro put_block_keeps [OF inv]) simp_all
  then show ?thesis unfolding eq by blast
next
  case True
  then have tok: "tok = In_block" and tg: "as_target s = On_task b" by auto
  have own: "own_conts (as_blocks s b) = [Suc 0]" "\<not> completed (as_blocks s b)"
    using inv tok tg by (auto simp: token_inv_def conts_ok_def)
  have ne: "continuations (as_blocks s b) \<noteq> []" using own by (auto simp: own_conts_def)
  then have blk: "continuations blk = []" and eff: "map fst (eff_conts eff) = continuations (as_blocks s b)"
    using st own(2) by (auto simp: settle_def comp_def split: if_splits)
  have eq: "settle_there u b blk eff s = (put_block b blk s)\<lparr>as_calls := as_calls s @ [(u, 0)]\<rparr>"
    using own(1) by (simp add: settle_there_def eff own_conts_def)
  have cont: "own_conts (as_blocks s c) = []" if "c \<noteq> b" for c
    using inv tok tg that by (auto simp: token_inv_def conts_ok_def)
  have "frame_data_ok (In_call u 0) (put_block b blk s)"
    using inv tok tg blk cont own_entry_cong [of "put_block b blk s" s]
    by (auto simp: token_inv_split frame_data_ok_def conts_ok_def queues_ok_def holds_ok_def runs_ok_def sorted_ok_def own_conts_def)
  moreover have "control_ok (In_call u 0) ((put_block b blk s)\<lparr>as_calls := as_calls s @ [(u, 0)]\<rparr>)"
    using inv tok tg by (auto simp: token_inv_def control_ok_def split: coro_pc.splits)
  ultimately show ?thesis unfolding eq token_inv_split by auto
qed

lemma foreign_enter_inv:
  assumes inv: "token_inv tok s" and e: "foreign e"
  shows "token_inv tok (put_pipe p (run_enter (as_pipes s p) e) s)"
proof -
  let ?s = "put_pipe p (run_enter (as_pipes s p) e) s"
  have same: "own_queued (run_enter (as_pipes s p) e) = own_queued (as_pipes s p)" "own_holding (run_enter (as_pipes s p) e) = own_holding (as_pipes s p)"
    using e by (simp_all add: run_enter_own)
  have "frame_data_ok tok ?s"
    using inv same own_entry_cong [of ?s s] own_granted_cong [of ?s s tok] run_inv_enter
    by (cases tok) (auto simp: token_inv_split frame_data_ok_def conts_ok_def queues_ok_def holds_ok_def runs_ok_def sorted_ok_def)
  moreover have "control_ok tok ?s" using inv by (cases tok) (auto simp: token_inv_def control_ok_def split: coro_pc.splits)
  ultimately show ?thesis by (simp add: token_inv_split)
qed

section \<open>The invariant in every reachable state\<close>

lemma release_at_quiet:
  assumes "filter (\<lambda>e. \<not> foreign e) (granted_by (as_pipes s p) h) = []"
  shows "release_at u p h s = (put_pipe p (run_release (as_pipes s p) h) s)\<lparr>as_calls := as_calls s\<rparr>"
  using assms by (simp add: release_at_def map_filter_own_index)

lemma foreign_release_inv:
  assumes inv: "token_inv tok s" and h: "foreign h" "h \<in># run_holders (as_pipes s p)"
  shows "\<exists>tok'. token_inv tok' (release_at u p h s)"
proof -
  let ?r = "as_pipes s p" and ?r' = "run_release (as_pipes s p) h"
  let ?s = "put_pipe p ?r' s"
  let ?gs = "filter (\<lambda>e. \<not> foreign e) (granted_by ?r h)"
  have run: "run_inv ?r" using inv by (simp add: token_inv_def runs_ok_def)
  have q: "own_queued ?r = ?gs @ own_queued ?r'" by (rule run_release_own(1) [OF run h(2)])
  have hold: "own_holding ?r' = own_holding ?r + mset ?gs" using run_release_own(2) [OF run h(2)] h(1) by simp
  have run': "run_inv ?r'" by (rule run_inv_release [OF run h(2)])
  note ent = own_entry_cong [of ?s s] and gr = own_granted_cong [of ?s s]
  show ?thesis
  proof (cases "?gs = []")
    case True
    have "frame_data_ok tok ?s"
      using inv q hold run' True ent gr [of tok]
      by (cases tok) (auto simp: token_inv_split frame_data_ok_def conts_ok_def queues_ok_def holds_ok_def runs_ok_def sorted_ok_def)
    moreover have "control_ok tok (?s\<lparr>as_calls := as_calls s\<rparr>)"
      using inv by (cases tok) (auto simp: token_inv_def control_ok_def split: coro_pc.splits)
    ultimately show ?thesis unfolding release_at_quiet [OF True] token_inv_split by auto
  next
    case False
    have qs: "own_queued ?r = (case tok of In_queue k \<Rightarrow> if own_pipes s ! k = p then [own_entry s k] else [] | _ \<Rightarrow> [])"
      using inv by (simp add: token_inv_def queues_ok_def)
    obtain k where tok: "tok = In_queue k" and p: "own_pipes s ! k = p" and one: "own_queued ?r = [own_entry s k]"
      using qs q False by (cases tok) (auto split: if_splits)
    have gs: "?gs = [own_entry s k]" and q': "own_queued ?r' = []" using one q False by (auto simp: append_eq_Cons_conv)
    have rel: "release_at u p h s = ?s\<lparr>as_calls := as_calls s @ [(u, k)]\<rparr>"
      by (simp add: release_at_def map_filter_own_index gs)
    have ctl: "token_ok tok s" using inv tok by (auto simp: token_inv_def control_ok_def split: coro_pc.splits if_splits)
    then have k: "k < length (own_pipes s)" "as_held s = [0..<k]" using tok by auto
    then have ne: "own_pipes s \<noteq> []" by auto
    have others: "own_queued (as_pipes s p') = []" if "p' \<noteq> p" for p'
      using inv tok p that by (auto simp: token_inv_def queues_ok_def)
    have "holds_ok (In_call u k) ?s"
      using inv tok p ne hold gs ent by (auto simp: token_inv_def holds_ok_def)
    moreover have "queues_ok (In_call u k) ?s" using others q' by (simp add: queues_ok_def)
    moreover have "conts_ok (In_call u k) ?s" "runs_ok ?s" "sorted_ok ?s"
      using inv tok run' by (auto simp: token_inv_def conts_ok_def runs_ok_def sorted_ok_def)
    ultimately have "frame_data_ok (In_call u k) ?s" by (simp add: frame_data_ok_def)
    moreover have "control_ok (In_call u k) (?s\<lparr>as_calls := as_calls s @ [(u, k)]\<rparr>)"
      using inv tok k by (auto simp: token_inv_def control_ok_def split: coro_pc.splits)
    ultimately show ?thesis unfolding rel token_inv_split by auto
  qed
qed

lemma own_granted_holds:
  assumes inv: "token_inv tok s" and k: "k \<in> set (own_granted tok s)"
  shows "own_entry s k \<in># run_holders (as_pipes s (own_pipes s ! k))"
proof -
  have "own_entry s k \<in># own_holding (as_pipes s (own_pipes s ! k))"
    using inv k by (auto simp: token_inv_def holds_ok_def)
  then show ?thesis by (simp add: own_holding_def)
qed

lemma release_own_inv:
  assumes inv: "token_inv tok s" and pc: "as_pc s = Releasing t"
  shows "token_inv No_token (release_own t s)"
proof -
  have tok: "tok = No_token" using inv pc by (simp add: token_inv_def control_ok_def)
  show ?thesis
  proof (cases "as_held s")
    case Nil
    have "frame_data_ok No_token (release_own t s)" using inv tok Nil by (simp add: release_own_def token_inv_split)
    moreover have "control_ok No_token (release_own t s)"
      using inv pc tok Nil by (simp add: release_own_def token_inv_def control_ok_def)
    ultimately show ?thesis by (simp add: token_inv_split)
  next
    case (Cons k ks)
    let ?p = "own_pipes s ! k" and ?h = "own_entry s k"
    let ?r = "as_pipes s ?p" and ?r' = "run_release (as_pipes s ?p) ?h"
    let ?s = "(put_pipe ?p ?r' s)\<lparr>as_held := ks\<rparr>"
    have held: "?h \<in># run_holders ?r" using own_granted_holds [OF inv, of k] tok Cons by simp
    have run: "run_inv ?r" using inv by (simp add: token_inv_def runs_ok_def)
    have "own_queued ?r = []" using inv tok by (simp add: token_inv_def queues_ok_def)
    then have gs: "filter (\<lambda>e. \<not> foreign e) (granted_by ?r ?h) = []" and q': "own_queued ?r' = []"
      using run_release_own(1) [OF run held] by auto
    have hold: "own_holding ?r' = own_holding ?r - {#?h#}" using run_release_own(2) [OF run held] gs by simp
    have rel: "release_own t s = ?s\<lparr>as_calls := as_calls s\<rparr>"
      using Cons release_at_quiet [OF gs, of t] by (simp add: release_own_def)
    have "holds_ok No_token ?s"
      using inv tok Cons hold own_entry_cong [of ?s s] by (auto simp: token_inv_def holds_ok_def)
    moreover have "queues_ok No_token ?s" using inv tok q' by (auto simp: token_inv_def queues_ok_def)
    moreover have "conts_ok No_token ?s" "runs_ok ?s" "sorted_ok ?s"
      using inv tok run_inv_release [OF run held] by (auto simp: token_inv_def conts_ok_def runs_ok_def sorted_ok_def)
    ultimately have "frame_data_ok No_token ?s" by (simp add: frame_data_ok_def)
    moreover have "control_ok No_token (?s\<lparr>as_calls := as_calls s\<rparr>)"
      using inv pc tok Cons by (simp add: token_inv_def control_ok_def)
    ultimately show ?thesis unfolding rel token_inv_split by auto
  qed
qed

lemma await_step_inv:
  assumes "await_step s s'" and "token_inv tok s"
  shows "\<exists>tok'. token_inv tok' s'"
  using assms
proof (induction arbitrary: tok rule: await_step.induct)
  case (st_await_task s t b tok)
  show ?case using begin_await_inv [OF st_await_task(4,1,2), of "On_task b"] by auto
next
  case (st_await_pipe s t p m tok)
  show ?case using begin_await_inv [OF st_await_pipe(3,1,2), of "On_pipe p m"] by auto
next
  case (st_await_pipes s t raw ps m tok)
  show ?case using begin_await_inv [OF st_await_pipes(4,1,2), of "On_pipes ps m"] multi_awaiter_sorted [OF st_await_pipes(3)] by auto
next
  case (st_publish_task s t k b tok)
  show ?case by (rule publish_task_inv [OF st_publish_task(3,1,2)])
next
  case (st_publish_pipe s t k p m tok)
  show ?case by (rule publish_pipe_inv [OF st_publish_pipe(3,1,2)])
next
  case (st_publish_pipes s t k ps m tok)
  show ?case by (rule drive_here_inv [OF st_publish_pipes(3,1,2)])
next
  case (st_swap s t tok)
  show ?case by (rule swap_inv [OF st_swap(2,1)])
next
  case (st_call u k s tok)
  show ?case by (rule run_call_inv [OF st_call(2,1)])
next
  case (st_drive u k s tok)
  show ?case by (rule drive_there_inv [OF st_drive(2,1)])
next
  case (st_resume u s tok)
  show ?case using run_resume_inv [OF st_resume(2,1)] by blast
next
  case (st_drop s t tok)
  then have "token_inv No_token (s\<lparr>as_pc := Releasing t\<rparr>)"
    by (auto simp: token_inv_split control_ok_def)
  then show ?case by blast
next
  case (st_release s t tok)
  show ?case using release_own_inv [OF st_release(2,1)] by blast
next
  case (st_return s t tok)
  then have "token_inv No_token (s\<lparr>as_pc := Returned\<rparr>)" by (auto simp: token_inv_split control_ok_def)
  then show ?case by blast
next
  case (st_settle s b c blk eff u tok)
  show ?case by (rule settle_there_inv [OF st_settle(2,1)])
next
  case (st_attach s b tok)
  show ?case using foreign_attach_inv [OF st_attach] by blast
next
  case (st_enter e s p tok)
  show ?case using foreign_enter_inv [OF st_enter(2,1)] by blast
next
  case (st_leave h s p u tok)
  show ?case by (rule foreign_release_inv [OF st_leave(3,1,2)])
qed

lemma await_reach_inv: "await_reach self s \<Longrightarrow> await_inv s"
proof (induction rule: await_reach.induct)
  case (ar_start t)
  have "token_inv No_token (await_new self t)"
    by (simp add: token_inv_parts control_ok_def await_new_def own_conts_def own_queued_def own_holding_def run_inv_init make_bare_block_def)
      (simp add: run_init_def pipe_init_def)
  then show ?case by (auto simp: await_inv_def)
next
  case (ar_step s s')
  then show ?case unfolding await_inv_def by (blast dest: await_step_inv)
qed

section \<open>Properties\<close>

text \<open>
  (C8) Every await wakes the coroutine exactly once. However the callback, the settle of the task, the grants of the pipes and
  the suspending thread interleave: the awaits begun and the wakes differ by the one await that is under way; a resume is only
  ever queued for a frame that is completely suspended, there is at most one, and while it is queued no callback of this frame
  is stored, running or driving anywhere, so nothing can resume the frame again or touch it after the resume.
\<close>

theorem coroutine_wakes_once:
  assumes "await_reach self s"
  shows "as_awaits s = as_wakes s + (case as_pc s of Publish t k \<Rightarrow> 1 | Swap t \<Rightarrow> 1 | Parked \<Rightarrow> 1 | _ \<Rightarrow> 0)
    \<and> length (as_resumes s) + length (as_calls s) + length (as_drives s) \<le> 1
    \<and> (as_resumes s \<noteq> [] \<longrightarrow> as_pc s = Parked \<and> (\<forall>b. own_conts (as_blocks s b) = []) \<and> (\<forall>p. own_queued (as_pipes s p) = []))"
proof -
  obtain tok where inv: "token_inv tok s" using await_reach_inv [OF assms] by (auto simp: await_inv_def)
  have res: "tok = Fired \<and> as_pc s = Parked \<and> length (as_resumes s) = 1" if "as_resumes s \<noteq> []"
    using inv that by (auto simp: token_inv_def control_ok_def split: coro_pc.splits if_splits)
  have "length (as_resumes s) + length (as_calls s) + length (as_drives s) \<le> 1"
  proof (cases "as_resumes s = []")
    case True
    then show ?thesis using inv by (cases tok) (auto simp: token_inv_def control_ok_def)
  next
    case False
    then show ?thesis using inv res by (simp add: token_inv_def control_ok_def)
  qed
  moreover have "(\<forall>b. own_conts (as_blocks s b) = []) \<and> (\<forall>p. own_queued (as_pipes s p) = [])" if "as_resumes s \<noteq> []"
    using inv res [OF that] by (simp add: token_inv_def conts_ok_def queues_ok_def)
  moreover have "as_awaits s = as_wakes s + (case as_pc s of Publish t k \<Rightarrow> 1 | Swap t \<Rightarrow> 1 | Parked \<Rightarrow> 1 | _ \<Rightarrow> 0)"
    using inv by (simp add: token_inv_def control_ok_def)
  ultimately show ?thesis using res by blast
qed

text \<open>
  (C10) A guard is the grant it stands for. While the body runs with a guard, the coroutine holds every pipe the guard names, and
  has done so since before it woke; with a write guard it is the only holder of each and their published writer, with a read
  guard nobody holds any of them for writing.
\<close>

theorem guard_holds_exclusively:
  assumes "await_reach self s" and "as_pc s = Body t" and "as_held s \<noteq> []"
  shows "as_held s = [0..<length (own_pipes s)]
    \<and> (\<forall>k < length (own_pipes s). let r = as_pipes s (own_pipes s ! k) in
         own_entry s k \<in># run_holders r
         \<and> (if target_mode (as_target s) = Read_write
            then run_holders r = {#own_entry s k#} \<and> writer_owner (run_pipe r) = Some (as_self s)
            else \<forall>e \<in># run_holders r. en_mode e = Read_only))"
proof -
  obtain tok where inv: "token_inv tok s" using await_reach_inv [OF assms(1)] by (auto simp: await_inv_def)
  have tok: "tok = No_token" and all: "as_held s = [0..<length (own_pipes s)]"
    using inv assms(2,3) by (auto simp: token_inv_def control_ok_def)
  have "own_entry s k \<in># run_holders r
         \<and> (if target_mode (as_target s) = Read_write
            then run_holders r = {#own_entry s k#} \<and> writer_owner (run_pipe r) = Some (as_self s)
            else \<forall>e \<in># run_holders r. en_mode e = Read_only)"
    if k: "k < length (own_pipes s)" and r: "r = as_pipes s (own_pipes s ! k)" for k r
  proof -
    have mem: "own_entry s k \<in># run_holders r" using own_granted_holds [OF inv, of k] tok all k r by simp
    have pinv: "pipe_inv (run_pipe r) (run_holders r)" using inv r by (simp add: token_inv_def runs_ok_def run_inv_def)
    show ?thesis
    proof (cases "target_mode (as_target s) = Read_write")
      case True
      then have one: "run_holders r = {#own_entry s k#}" using pw.writer_alone [OF pinv mem] by simp
      then have "writer_owner (run_pipe r) = Some (as_self s)"
        using pinv True by (auto simp: pipe_inv_def grants_ok_def is_read_def split: if_splits)
      then show ?thesis using one True by simp
    next
      case False
      have "en_mode e = Read_only" if "e \<in># run_holders r" for e
        using pw.no_conflicting_holders [OF pinv mem that] False by (cases "e = own_entry s k") (auto intro: access.exhaust)
      then show ?thesis using mem False by simp
    qed
  qed
  then show ?thesis using all by (simp add: Let_def)
qed

text \<open>The steps that only bring the wake to the frame: a fired callback runs, the acquire chain goes on, the resume is taken.\<close>

inductive wake_step :: "await_sys \<Rightarrow> await_sys \<Rightarrow> bool" where
  ws_call: "(u, k) \<in> set (as_calls s) \<Longrightarrow> wake_step s (run_call u k s)"
| ws_drive: "(u, k) \<in> set (as_drives s) \<Longrightarrow> wake_step s (drive_there u k s)"
| ws_resume: "u \<in> set (as_resumes s) \<Longrightarrow> wake_step s (run_resume u s)"

lemma wake_step_await: "wake_step s s' \<Longrightarrow> await_step s s'"
  by (induction rule: wake_step.induct) (auto intro: await_step.intros)

definition wake_weight :: "await_sys \<Rightarrow> nat" where
  "wake_weight s = (let n = length (own_pipes s) in
     sum_list (map (\<lambda>(u, k). n - k + 3) (as_calls s)) + sum_list (map (\<lambda>(u, k). n - k + 2) (as_drives s)) + length (as_resumes s))"

lemma wake_step_weight:
  assumes "wake_step s s'" and "token_inv tok s"
  shows "wake_weight s' < wake_weight s \<and> as_target s' = as_target s"
  using assms
proof (induction rule: wake_step.induct)
  case (ws_call u k s)
  have tok: "tok = In_call u k" and calls: "as_calls s = [(u, k)]" and drives: "as_drives s = []"
    using ws_call by (auto simp: token_inv_def control_ok_def split: token.splits)
  have ctl: "control_ok tok s" using ws_call(2) by (simp add: token_inv_split)
  note w = waiting_control [OF ctl, unfolded tok, simplified]
  show ?case using w calls drives
    by (cases "as_target s") (auto simp: run_call_def wake_weight_def Let_def wake_frame_def)
next
  case (ws_drive u k s)
  have tok: "tok = In_drive u k" and calls: "as_calls s = []" and drives: "as_drives s = [(u, k)]"
    using ws_drive by (auto simp: token_inv_def control_ok_def split: token.splits)
  have ctl: "control_ok tok s" using ws_drive(2) by (simp add: token_inv_split)
  note w = waiting_control [OF ctl, unfolded tok, simplified]
  obtain s1 got where acq: "acquire_own k (s\<lparr>as_drives := remove1 (u, k) (as_drives s)\<rparr>) = (s1, got)" by fastforce
  note f = acquire_own_fields [OF acq, simplified]
  show ?case using w calls drives acq f
    by (cases got) (auto simp: drive_there_def wake_weight_def Let_def wake_frame_def)
next
  case (ws_resume u s)
  have "as_resumes s = [u]" using ws_resume by (auto simp: token_inv_def control_ok_def length_Suc_conv split: coro_pc.splits if_splits)
  then show ?case by (simp add: run_resume_def wake_weight_def Let_def)
qed

lemma wake_steps_weight:
  assumes "await_reach self s" and "(wake_step ^^ j) s t"
  shows "await_reach self t \<and> j + wake_weight t \<le> wake_weight s \<and> as_target t = as_target s"
  using assms(2)
proof (induction j arbitrary: t)
  case (Suc j)
  then obtain v where v: "(wake_step ^^ j) s v" and vt: "wake_step v t" by auto
  from Suc.IH [OF v] have IH: "await_reach self v" "j + wake_weight v \<le> wake_weight s" "as_target v = as_target s" by auto
  obtain tok where "token_inv tok v" using await_reach_inv [OF IH(1)] by (auto simp: await_inv_def)
  from wake_step_weight [OF vt this] IH ar_step [OF IH(1) wake_step_await [OF vt]] show ?case by auto
qed (simp add: assms(1))







section \<open>A concrete run\<close>

text \<open>
  Another party holds pipe 7 for writing. Coroutine 1, on thread 0, takes a write guard on the objects of pipes 7 and 3: pipe 3
  at once, pipe 7 only after the other party has left; the callback on thread 2 finishes the chain and thread 2 resumes.
\<close>

definition demo_foreign :: pipe_entry where
  "demo_foreign = Task_link \<lparr>lk_owner = 9, lk_pipe = 7, lk_index = 0, lk_mode = Read_write\<rparr>"

definition demo_busy :: await_sys where
  "demo_busy = put_pipe 7 (run_enter (as_pipes (await_new 1 0) 7) demo_foreign) (await_new 1 0)"

definition demo_parked :: await_sys where
  "demo_parked = swap 0 (drive_here 0 1 (drive_here 0 0 (begin_await 0 (On_pipes [3, 7] Read_write) demo_busy)))"

definition demo_called :: await_sys where
  "demo_called = release_at 2 7 demo_foreign demo_parked"

definition demo_resumed :: await_sys where
  "demo_resumed = run_resume 2 (drive_there 2 2 (run_call 2 1 demo_called))"

lemma demo_busy_reach: "await_reach 1 demo_busy"
  unfolding demo_busy_def by (rule ar_step [OF ar_start st_enter]) (simp add: demo_foreign_def)

lemma demo_parked_reach: "await_reach 1 demo_parked"
proof -
  let ?s2 = "begin_await 0 (On_pipes [3, 7] Read_write) demo_busy"
  let ?s3 = "drive_here 0 0 ?s2" and ?s4 = "drive_here 0 1 (drive_here 0 0 ?s2)"
  have 2: "await_reach 1 ?s2"
    by (rule ar_step [OF demo_busy_reach st_await_pipes [of _ _ "[7, 3]"]])
      (simp_all add: demo_busy_def await_new_def multi_awaiter_new_def)
  have pc2: "as_pc ?s2 = Publish 0 0" and tg2: "as_target ?s2 = On_pipes [3, 7] Read_write" by (simp_all add: begin_await_def)
  have 3: "await_reach 1 ?s3" by (rule ar_step [OF 2 st_publish_pipes [OF pc2 tg2]])
  have pc3: "as_pc ?s3 = Publish 0 1" and tg3: "as_target ?s3 = On_pipes [3, 7] Read_write" by code_simp+
  have 4: "await_reach 1 ?s4" by (rule ar_step [OF 3 st_publish_pipes [OF pc3 tg3]])
  have pc4: "as_pc ?s4 = Swap 0" by code_simp
  show ?thesis unfolding demo_parked_def by (rule ar_step [OF 4 st_swap [OF pc4]])
qed

lemma demo_called_reach: "await_reach 1 demo_called"
proof -
  have "demo_foreign \<in># run_holders (as_pipes demo_parked 7)" by code_simp
  then show ?thesis unfolding demo_called_def by (intro ar_step [OF demo_parked_reach st_leave]) (simp_all add: demo_foreign_def)
qed

lemma demo_called_state: "as_pc demo_called = Parked" "as_calls demo_called = [(2, 1)]" "own_pipes demo_called = [3, 7]"
  by code_simp+

lemma demo_wakes:
  "as_drives (run_call 2 1 demo_called) = [(2, 2)]" "as_resumes (drive_there 2 2 (run_call 2 1 demo_called)) = [2]"
  "as_pc demo_resumed = Body 2" "as_held demo_resumed = [0, 1]" "as_target demo_resumed = On_pipes [3, 7] Read_write"
  by code_simp+

lemma demo_steps:
  "wake_step demo_called (run_call 2 1 demo_called)"
  "wake_step (run_call 2 1 demo_called) (drive_there 2 2 (run_call 2 1 demo_called))"
  "wake_step (drive_there 2 2 (run_call 2 1 demo_called)) demo_resumed"
  unfolding demo_resumed_def using demo_called_state demo_wakes by (auto intro: wake_step.intros)

lemma demo_chain: "(wake_step ^^ 3) demo_called demo_resumed"
  using demo_steps by (auto simp: numeral_3_eq_3)

lemma demo_resumed_reach: "await_reach 1 demo_resumed"
  using wake_steps_weight [OF demo_called_reach demo_chain] by simp

theorem coroutine_wakes_once_witness:
  "as_resumes (drive_there 2 2 (run_call 2 1 demo_called)) = [2] \<and> (\<forall>p. own_queued (as_pipes (drive_there 2 2 (run_call 2 1 demo_called)) p) = [])"
proof -
  have "await_reach 1 (drive_there 2 2 (run_call 2 1 demo_called))"
    using demo_called_reach demo_steps(1,2) by (meson ar_step wake_step_await)
  from coroutine_wakes_once [OF this] show ?thesis by (simp add: demo_wakes del: One_nat_def)
qed

theorem guard_holds_exclusively_witness:
  "run_holders (as_pipes demo_resumed 7) = {#own_entry demo_resumed 1#} \<and> writer_owner (run_pipe (as_pipes demo_resumed 7)) = Some (as_self demo_resumed)"
  using guard_holds_exclusively [OF demo_resumed_reach demo_wakes(3)] by (simp add: demo_wakes Let_def All_less_Suc)


end
