(* ===== verification/Task_Handle.thy ===== *)
theory Task_Handle
  imports Coroutine Access_Op
begin

text \<open>
  The handle's consumers (include/ts/task.h, include/ts/coroutine_support.h): \<^verbatim>\<open>sync\<close>, \<^verbatim>\<open>take\<close> and \<^verbatim>\<open>try_take\<close> of
  \<^verbatim>\<open>Task\<close>, what the four task awaiters yield when they resume, the manual \<^verbatim>\<open>Signal\<close>, and a coroutine's completion
  against that of an ordinary task. The stored result is a number; copying and moving it are the caller's.
\<close>

section \<open>Operations\<close>

definition is_done :: "tcb option \<Rightarrow> bool" where
  "is_done core = (case core of None \<Rightarrow> False | Some b \<Rightarrow> ready b)"

definition is_cancelled :: "tcb option \<Rightarrow> bool" where
  "is_cancelled core = (case core of None \<Rightarrow> False | Some b \<Rightarrow> ready b \<and> cancelled b)"

text \<open>The check of \<^verbatim>\<open>sync_wait\<close>; the operations after it run once the block is ready. \<open>void\<close> says there is no result type.\<close>

definition sync_wait :: "build \<Rightarrow> nat \<Rightarrow> coro_env \<Rightarrow> tcb \<Rightarrow> unit result" where
  "sync_wait b t s core =
     (if am_task (ce_threads s t) \<noteq> None \<and> rule_enforced b t (ce_relax s) in_task_sync
      then Inl (blocking_sync_diagnose (am_access (ce_threads s t)) core) else Inr ())"

definition task_sync :: "bool \<Rightarrow> tcb \<Rightarrow> nat option result" where
  "task_sync void core = (if void then Inr None else if cancelled core then Inl Sync_cancelled else Inr (result_ptr core))"



text \<open>\<^verbatim>\<open>await_resume\<close> of \<^verbatim>\<open>Task_awaiter\<close>, \<^verbatim>\<open>Optional_awaiter\<close> and \<^verbatim>\<open>Consuming_task_awaiter\<close>.\<close>

definition task_await_resume :: "bool \<Rightarrow> tcb \<Rightarrow> nat option result" where
  "task_await_resume void core = (if void then Inr None else if cancelled core then Inl Await_cancelled else Inr (result_ptr core))"



text \<open>\<^verbatim>\<open>Access_op_awaiter\<close> and \<^verbatim>\<open>Optional_access_awaiter\<close> consume the op's flag of this cycle instead.\<close>

definition make_access_op_awaiter :: "bool \<Rightarrow> access_op \<Rightarrow> unit result" where
  "make_access_op_awaiter safety op = (if safety \<and> \<not> op_started op then Inl Op_never_started else Inr ())"

definition access_op_await_resume :: "bool \<Rightarrow> bool \<Rightarrow> access_op \<Rightarrow> (access_op \<times> nat option) result" where
  "access_op_await_resume safety void op =
     (if void then Inr (op, None)
      else if cancelled (op_block op) then Inl Await_cancelled
      else if safety \<and> op_consumed op then Inl Await_consumed
      else Inr (op\<lparr>op_consumed := True\<rparr>, result_ptr (op_block op)))"

definition optional_access_await_resume :: "bool \<Rightarrow> access_op \<Rightarrow> (access_op \<times> nat option) result" where
  "optional_access_await_resume safety op =
     (if cancelled (op_block op) then Inr (op, None)
      else if safety \<and> op_consumed op then Inl Await_consumed
      else Inr (op\<lparr>op_consumed := True\<rparr>, result_ptr (op_block op)))"

text \<open>\<^verbatim>\<open>Signal\<close>: the constructor's block, \<^verbatim>\<open>trigger\<close>, which pins the block while it completes, and \<^verbatim>\<open>reset\<close>.\<close>

definition signal_new :: tcb where
  "signal_new = make_bare_block"

definition signal_trigger :: "tcb \<Rightarrow> (tcb \<times> settle_effects \<times> bool) result" where
  "signal_trigger b =
     (case settle (intrusive_inc b) False of
        Inl e \<Rightarrow> Inl e
      | Inr (b1, eff) \<Rightarrow> (case intrusive_dec b1 of (b2, dead) \<Rightarrow> Inr (b2, eff, dead)))"

definition signal_reset :: "tcb \<Rightarrow> tcb result" where
  "signal_reset b = reset b"

section \<open>Consumers in any order\<close>











section \<open>Completion of a coroutine\<close>



end
