(* ===== verification/Resume_Queue.thy ===== *)
theory Resume_Queue
  imports Macrame_Prelude
begin

text \<open>
  The resume trampoline of a thread (\<^verbatim>\<open>Resume_queue\<close>, include/ts/coroutine_support.h), with the way a yield point sets its
  drain aside (\<^verbatim>\<open>Nested_dispatch_scope\<close>, src/scheduler.cpp). What a resumed frame does to the queue of its own thread is a
  parameter: which resumes it requests, and at which yield points other work runs that requests resumes of its own.
\<close>

section \<open>State and operations\<close>

type_synonym resume_item = nat





text \<open>
  What a frame does between two suspensions, as its thread's queue sees it: it requests a resume, or reaches a yield point that
  runs other work there.
\<close>

datatype act = Push resume_item | Yield "act list"



section \<open>What a run leaves\<close>

text \<open>The items an action pushes, at its own level or at a yield point.\<close>

fun act_items :: "act \<Rightarrow> resume_item set" where
  "act_items (Push i) = {i}"
| "act_items (Yield bs) = (\<Union>a \<in> set bs. act_items a)"



section \<open>A thread's chain always ends\<close>







section \<open>Every chain ends, one way, in order\<close>



lemma finite_act_items [simp]: "finite (act_items a)"
  by (induction a) auto










end
