(* ===== verification/Spec2Isabelle.thy ===== *)
theory Spec2Isabelle
  imports Grant_Window Graph_Run Deferred Worker_Pool Scheduler Serial_Run Parallel_For Colored_Loop Timer Cancel_Source
    Circular_Wait Suspension_Registry Versioned_Order Event_Bus Rules Frame_Gate Access_Op_Run Await_Run Task_Handle Resume_Queue
begin

text \<open>
  Macrame is a C++ task runtime in which shared objects are reached only through declared accesses. This
  library models the runtime's own logic, file by file, and proves what makes each part correct.

  \<^bold>\<open>The parts and how they interact.\<close> Every shared object has a \<^emph>\<open>pipe\<close>, a readers-writer FIFO
  (include/ts/detail/pipe.h, src/guarded.cpp). A unit of work is a \<^emph>\<open>task control block\<close>
  (include/ts/detail/task_block.h) whose lock counter first gates its execution and then its completion. A
  task that declares several objects enters their pipes one after the other in ascending address order (the
  \<^emph>\<open>cascade\<close>); when its last turn comes it is dispatched to the \<^emph>\<open>scheduler\<close>, and when it settles it
  releases its pipes, which admits others. A \<^emph>\<open>static task graph\<close> compiles declared accesses to an order
  once and replays it every run. An \<^emph>\<open>attended access\<close> lives in its caller's frame, runs on the spot when its objects are
  free, borrows what the caller holds, and queues only otherwise. A \<^emph>\<open>coroutine\<close> is a task whose body suspends at its awaits
  and is resumed by whoever settles the awaited task or grants the awaited objects. While a body runs, its \<^emph>\<open>access context\<close> lists what it was granted, and
  the harness checks every member access against it. On top stand \<^emph>\<open>deferred\<close> writes (journals and
  recorders), \<^emph>\<open>versioned\<close> snapshots, the \<^emph>\<open>event bus\<close>, the parallel loops, the timer, cancellation
  and the frame gate; the \<^emph>\<open>rules\<close>, the circular-wait detector and the suspension registry watch
  for waits that cannot end.

  \<^bold>\<open>Theories, in the order of their imports.\<close>

  \<^item> \<open>Macrame_Prelude\<close>: identities (addresses, pipes, blocks), access modes, priorities, the
    fatal errors as one datatype and \<open>'a result\<close> as \<open>fatal + 'a\<close>, and the shared lemma collections. Every
    \<^verbatim>\<open>ts::fatal\<close> of the modelled code is an \<open>Inl\<close>.
  \<^item> \<open>Access_Context\<close> (access.h, access.cpp): the grant list of a thread, its check with epochs, ranks and
    scopes. \<open>Grant_Window\<close> composes it with a pipe: an access that passes the check cannot race.
  \<^item> \<open>Pipe\<close>: one pipe under any interleaving of critical sections: exclusion, FIFO order, no admissible head
    kept waiting. What its users rely on is the locale \<open>rw_serializer\<close>, interpreted on the model. \<open>Pipe_Order\<close> adds who is
    ahead of whom.
  \<^item> \<open>Task_Block\<close>: lock counter (a 32-bit word with the execution flag), claim, settle against attach,
    nesting, reset, reference count and the deadlock net's polling loop.
  \<^item> \<open>Pipe_Cascade\<close>: any number of tasks over any number of pipes; running tasks never conflict, and every
    schedule ends with all tasks settled and all pipes idle.
  \<^item> \<open>Graph_Compile\<close> and \<open>Graph_Run\<close> (static_task_graph.h and .cpp): building, the conflict order, cycle
    detection, canonical links, registration; a run of the compiled graph with lending, completion and the
    handle.
  \<^item> \<open>Journal\<close> and \<open>Deferred\<close> (detail/journal.h, recorder.h, deferred.h): slots, staging (the locale
    \<open>staging_buffer\<close>), the cut slot by slot, commit, discard and destruction; the object is the fold of the
    applied commands.
  \<^item> \<open>Ring_Capacity\<close>, \<open>Work_Stealing\<close>, \<open>Mpmc_Queue\<close> (detail/work_stealing_deque.h, detail/mpmc_queue.h):
    the lock-free queues, one atomic action per step, under every sequentially consistent interleaving. What the
    scheduler relies on is the locale \<open>work_pool\<close> (theory \<open>Work_Pool\<close>), interpreted on the deque's two ends and on
    the ring.
  \<^item> \<open>Worker_Pool\<close>, \<open>Scheduler\<close>, \<open>Serial_Run\<close> (scheduler.h and .cpp, worker_thread.cpp,
    detail/event_count.h): no lost wakeup, shutdown, \<^verbatim>\<open>find_work\<close> with its valves, and the worker-less
    trampoline.
  \<^item> \<open>Parallel_For\<close> and \<open>Colored_Loop\<close> (parallel_for.h): both loops with 32-bit counters and the packed 64-bit
    phase word.
  \<^item> \<open>Timer\<close> (timer.cpp), \<open>Cancel_Source\<close> (cancellation.h), \<open>Frame_Gate\<close> (frame_gate.h): deadlines,
    callbacks with re-entrant use, frame boundaries.
  \<^item> \<open>Versioned\<close>, \<open>Versioned_Run\<close>, \<open>Versioned_Order\<close> (versioned.h): publishing by chain and from graph
    nodes, resync, two-version reads and the destructor, over the model of the pipe.
  \<^item> \<open>Event_Bus\<close> (event_bus.h): lanes, staged publishing through \<open>Deferred\<close>, dispatch, disconnecting.
  \<^item> \<open>Rules\<close> (rules.h): the masks of a build and relaxation by thread, default and coroutine.
  \<^item> \<open>Circular_Wait\<close> (guarded.cpp) and \<open>Suspension_Registry\<close> (detail/suspension_registry.h): the wait-edge
    registry with its bounded search, and the sharded doubly-linked lists of suspensions.
  \<^item> \<open>Access_Op\<close> and \<open>Access_Op_Run\<close> (guarded.h, \<^verbatim>\<open>pipe_try_inline\<close> of guarded.cpp): the operations of an attended access and
    of the detached accesses to one and several objects, and one op beside all other users of its pipes: the body is always
    covered by grants, the op never gets stuck on its own, its destructor leaves nothing behind, its result goes out once.
  \<^item> \<open>Coroutine\<close> (coroutine_support.h): the promise, its segments and what they do to the threads, the rules of an await, guards.
    Grants follow the coroutine; ranks exclude circular waits; three gaps of the checks are proved as such.
  \<^item> \<open>Await_Run\<close> (coroutine_support.h): the awaiters' handshake and acquire chain under any interleaving, over \<open>Pipe\<close> and
    \<open>Task_Block\<close>: each await wakes once, no wake is lost, a guard is the grant it stands for.
  \<^item> \<open>Resume_Queue\<close> (coroutine_support.h): the trampoline with yield points: it ends, runs each resume once, in order.
  \<^item> \<open>Task_Handle\<close> (task.h, coroutine_support.h): the consumers of a result, \<^verbatim>\<open>Signal\<close>, and the completion of a coroutine.

  \<^bold>\<open>How code becomes definitions.\<close> A struct is a record, a function one definition on it; what it does to other
  objects (fire a continuation, enter a pipe, dispatch) is part of its value, in program order. A critical
  section or an atomic operation is one step of a step relation; what holds in every reachable state
  is proved by rule induction. Fields marked as bookkeeping are read by no operation. Code outside the
  repository is an argument: what a staged command does, the clock, the callbacks, what a resumed frame does, the values
  other threads are observed to have.

  \<^bold>\<open>Bounds and fuel.\<close> The lock counter, the epochs, the publish serial, the relaxation masks and the loop
  counters keep their width. The parallel loop assumes \<open>3 * n + 2 * workers < 2 ^ 31\<close> and the colored loop
  \<open>rounds * bands < 2 ^ 31\<close> with bands below \<open>2 ^ 30\<close>; beyond it the first loop really wraps, which is proved too.
  The timer's serial numbers and the bus's subscription ids are naturals (64-bit in the code). The
  circular-wait detector is exact up to 66 held pipes, because its search stops at depth 64. Recursion
  is structural or has a measure, except \<open>round_pow2\<close> and \<open>count_from\<close>, partial functions that
  are proved to return on every state the program can have, and \<open>Serial_Run\<close>, whose fuel is proved to suffice. The trampoline of
  \<open>Resume_Queue\<close> is a big-step relation, proved total and deterministic when no resume leads back to itself. A coroutine's guard
  counter keeps its 8 bits; with the guard rule in the build it is proved to stay below 2.

  \<^bold>\<open>Not modelled.\<close> Memory orders weaker than sequential consistency; the compile-time deduction of access modes, the types that store
  results and bodies, and the options structs; coroutine frames, which the compiler generates (a body is the sequence of its
  operations), and coroutines of other libraries;
  debug names, trace hooks and the wording of reports; the output and termination of a fatal error, allocation
  counters; the tools, samples and tests.
\<close>

end
